(* ===== verification/CPrelude.thy ===== *)
theory CPrelude
  imports Main "HOL-Library.Word"
begin

text \<open>
  The prelude: the machine types of the C sources, the ASCII codes their parsers compare
  against, the collections of rewrite rules the components share, and generic facts on lists
  (a copy into a buffer, the split of a list at a byte).
\<close>

unbundle bit_operations_syntax

type_synonym u8 = "8 word"
type_synonym u16 = "16 word"
type_synonym u32 = "32 word"
type_synonym u64 = "64 word"
type_synonym bytes = "8 word list"

named_theorems byte_simps \<open>evaluation of bytes and digits\<close>
named_theorems buf_simps \<open>lengths and contents of buffers after a copy\<close>

subsection \<open>ASCII\<close>

abbreviation c_nul :: u8 where "c_nul \<equiv> 0x00"
abbreviation c_nl :: u8 where "c_nl \<equiv> 0x0A"
abbreviation c_cr :: u8 where "c_cr \<equiv> 0x0D"
abbreviation c_space :: u8 where "c_space \<equiv> 0x20"
abbreviation c_quote :: u8 where "c_quote \<equiv> 0x22"
abbreviation c_percent :: u8 where "c_percent \<equiv> 0x25"
abbreviation c_plus :: u8 where "c_plus \<equiv> 0x2B"
abbreviation c_minus :: u8 where "c_minus \<equiv> 0x2D"
abbreviation c_dot :: u8 where "c_dot \<equiv> 0x2E"
abbreviation c_slash :: u8 where "c_slash \<equiv> 0x2F"
abbreviation c_zero :: u8 where "c_zero \<equiv> 0x30"
abbreviation c_nine :: u8 where "c_nine \<equiv> 0x39"
abbreviation c_colon :: u8 where "c_colon \<equiv> 0x3A"
abbreviation c_lbracket :: u8 where "c_lbracket \<equiv> 0x5B"
abbreviation c_rbracket :: u8 where "c_rbracket \<equiv> 0x5D"
abbreviation c_d :: u8 where "c_d \<equiv> 0x64"
abbreviation c_e :: u8 where "c_e \<equiv> 0x65"
abbreviation c_i :: u8 where "c_i \<equiv> 0x69"
abbreviation c_l :: u8 where "c_l \<equiv> 0x6C"

text \<open>A string literal of the source, without its terminating zero.\<close>

definition str :: "string \<Rightarrow> bytes" where
  "str s = map of_char s"

lemma str_Nil [simp]: "str [] = []"
  by (simp add: str_def)

lemma str_Cons [byte_simps]: "str (c # s) = of_char c # str s"
  by (simp add: str_def)

lemma length_str [simp]: "length (str s) = length s"
  by (simp add: str_def)

subsection \<open>Undefined behaviour\<close>

text \<open>
  What a C function does beyond returning a value, where the sources reach it: a read past the
  end of a buffer, the use of an uninitialised object, a null pointer dereference, a write past
  the end of a buffer, a division by zero (a trap).
\<close>

datatype ub = Ub_OobRead | Ub_Uninit | Ub_NullDeref | Ub_OobWrite | Ub_DivZero
  | Ub_DoubleFree | Ub_UseAfterFree | Ub_BadFree

subsection \<open>Integers at their width\<close>

text \<open>Conversion to \<open>uint32_t\<close> and \<open>uint64_t\<close>; arithmetic on them writes the \<open>mod\<close> out.\<close>

definition u32_of :: "int \<Rightarrow> nat" where
  "u32_of i = nat (i mod 2 ^ 32)"

definition u64_of :: "int \<Rightarrow> nat" where
  "u64_of i = nat (i mod 2 ^ 64)"

lemma u32_of_less: "u32_of i < 2 ^ 32"
  by (simp add: u32_of_def nat_less_iff)

lemma u64_of_less: "u64_of i < 2 ^ 64"
  by (simp add: u64_of_def nat_less_iff)

lemmas u32_of_less' [simp] = u32_of_less [simplified]
lemmas u64_of_less' [simp] = u64_of_less [simplified]

lemma u32_of_id: "n < 2 ^ 32 \<Longrightarrow> u32_of (int n) = n"
  by (simp add: u32_of_def nat_eq_iff)

lemma u64_of_id: "n < 2 ^ 64 \<Longrightarrow> u64_of (int n) = n"
  by (simp add: u64_of_def nat_eq_iff)

subsection \<open>Copies into a buffer\<close>

text \<open>
  \<open>memcpy (buf + off, src, length src)\<close> on a buffer held as the list of its bytes. The copy is
  in bounds when \<open>off + length src \<le> length buf\<close>.
\<close>

definition memcpy_at :: "nat \<Rightarrow> 'a list \<Rightarrow> 'a list \<Rightarrow> 'a list" where
  "memcpy_at off src buf = take off buf @ src @ drop (off + length src) buf"

lemma length_memcpy_at [buf_simps]:
  "off + length src \<le> length buf \<Longrightarrow> length (memcpy_at off src buf) = length buf"
  by (simp add: memcpy_at_def)

lemma nth_memcpy_at [buf_simps]:
  assumes "off + length src \<le> length buf" and "i < length buf"
  shows "memcpy_at off src buf ! i
    = (if off \<le> i \<and> i < off + length src then src ! (i - off) else buf ! i)"
  using assms by (auto simp: memcpy_at_def nth_append min_def)

lemma memcpy_at_Nil [simp]: "memcpy_at off [] buf = buf"
  by (simp add: memcpy_at_def)

lemma take_drop_memcpy_at [buf_simps]:
  assumes "off + length src \<le> length buf"
  shows "take (length src) (drop off (memcpy_at off src buf)) = src"
  using assms by (simp add: memcpy_at_def min_def)

subsection \<open>Splitting a list at the first element with a property\<close>

lemma takeWhile_append_stop:
  assumes "\<forall>x\<in>set xs. P x" and "\<not> P y"
  shows "takeWhile P (xs @ y # ys) = xs" and "dropWhile P (xs @ y # ys) = y # ys"
  using assms by (simp_all add: takeWhile_append2 dropWhile_append2)

lemma length_takeWhile_less:
  "\<exists>x\<in>set xs. \<not> P x \<Longrightarrow> length (takeWhile P xs) < length xs"
  by (induction xs) auto

lemma takeWhile_stop_mono:
  assumes "\<And>x. P x \<Longrightarrow> Q x" and "\<exists>x\<in>set xs. \<not> Q x"
  shows "length (takeWhile P xs) \<le> length (takeWhile Q xs)"
  using assms(2) by (induction xs) (auto dest: assms(1))

lemma sum_list_take_Suc:
  "i < length xs \<Longrightarrow> sum_list (take (Suc i) xs) = sum_list (take i xs) + (xs ! i :: nat)"
  by (simp only: take_Suc_conv_app_nth sum_list_append) simp

lemma sum_list_take_le: "sum_list (take i xs) \<le> sum_list (xs :: nat list)"
proof -
  have "sum_list xs = sum_list (take i xs) + sum_list (drop i xs)"
    by (simp flip: sum_list_append)
  then show ?thesis by simp
qed

lemma sum_list_take_mono: "i \<le> j \<Longrightarrow> sum_list (take i xs) \<le> sum_list (take j (xs :: nat list))"
proof -
  assume "i \<le> j"
  then have "take i xs = take i (take j xs)" by (simp add: min_def)
  then show ?thesis by (metis sum_list_take_le)
qed

end
