(* ===== verification/CStd.thy ===== *)
theory CStd
  imports CPrelude
begin

text \<open>
  The part of the C standard library the sources use, on bytes: character classes,
  \<open>strlen\<close>, \<open>strcmp\<close> and \<open>strncmp\<close> on zero-terminated buffers, \<open>memchr\<close>, \<open>strtol\<close>,
  \<open>snprintf\<close> of decimal, octal and hexadecimal numbers, \<open>htonl\<close>/\<open>ntohl\<close> and \<open>qsort\<close>.
  A function that would read past the end of a buffer returns \<open>None\<close>.
\<close>

subsection \<open>Character classes\<close>

definition isdigit :: "u8 \<Rightarrow> bool" where
  "isdigit b \<longleftrightarrow> c_zero \<le> b \<and> b \<le> c_nine"

definition isspace :: "u8 \<Rightarrow> bool" where
  "isspace b \<longleftrightarrow> b = c_space \<or> (0x09 \<le> b \<and> b \<le> 0x0D)"

lemma isdigit_unat: "isdigit b \<longleftrightarrow> 48 \<le> unat b \<and> unat b \<le> 57"
  by (simp add: isdigit_def word_le_nat_alt)

lemma isspace_unat: "isspace b \<longleftrightarrow> unat b = 32 \<or> (9 \<le> unat b \<and> unat b \<le> 13)"
  by (simp add: isspace_def word_le_nat_alt word_unat_eq_iff)

lemma isdigit_not_isspace: "isdigit b \<Longrightarrow> \<not> isspace b"
  by (auto simp: isdigit_unat isspace_unat)

subsection \<open>Zero-terminated strings\<close>

text \<open>The C string that starts at a buffer: its bytes up to the first zero.\<close>

definition cstr :: "bytes \<Rightarrow> bytes" where
  "cstr bs = takeWhile (\<lambda>b. b \<noteq> c_nul) bs"

definition strlen :: "bytes \<Rightarrow> nat" where
  "strlen bs = length (cstr bs)"

definition strcmp_eq :: "bytes \<Rightarrow> bytes \<Rightarrow> bool" where
  "strcmp_eq a b \<longleftrightarrow> cstr a = cstr b"

lemma cstr_id: "c_nul \<notin> set bs \<Longrightarrow> cstr bs = bs"
  by (auto simp: cstr_def takeWhile_eq_all_conv)

lemma cstr_terminated: "c_nul \<notin> set bs \<Longrightarrow> cstr (bs @ c_nul # rest) = bs"
  unfolding cstr_def by (rule takeWhile_append_stop) auto

lemma cstr_no_nul: "c_nul \<notin> set (cstr bs)"
  by (auto simp: cstr_def dest: set_takeWhileD)

text \<open>Comparing string literals.\<close>

lemma of_char_inj: "(of_char c :: u8) = of_char d \<longleftrightarrow> c = d"
proof -
  have nat_val: "unat (of_char e :: u8) = (of_char e :: nat)" for e
  proof -
    have "(of_char e :: u8) = of_nat (of_char e)" by (simp only: of_nat_of_char)
    moreover have "unat (of_nat (of_char e) :: u8) = of_char e mod 256"
      unfolding unat_of_nat by simp
    ultimately show ?thesis by simp
  qed
  show ?thesis
    using nat_val [of c] nat_val [of d] by (metis of_char_eq_iff)
qed

lemma str_inj: "str a = str b \<longleftrightarrow> a = b"
proof -
  have "inj (of_char :: char \<Rightarrow> u8)" by (rule injI) (simp only: of_char_inj)
  then show ?thesis unfolding str_def by (rule inj_map_eq_map)
qed

lemma nul_str: "c_nul \<in> set (str s) \<longleftrightarrow> CHR 0x00 \<in> set s"
proof -
  have "(of_char (CHR 0x00) :: u8) = c_nul" by simp
  then have "c_nul = of_char c \<longleftrightarrow> CHR 0x00 = c" for c by (metis of_char_inj)
  then show ?thesis by (induction s) (simp_all add: str_Cons)
qed

lemma cstr_str: "CHR 0x00 \<notin> set s \<Longrightarrow> cstr (str s) = str s"
  by (rule cstr_id) (simp only: nul_str not_False_eq_True)

lemma str_eq:
  "CHR 0x00 \<notin> set a \<Longrightarrow> CHR 0x00 \<notin> set b \<Longrightarrow> strcmp_eq (str a) (str b) \<longleftrightarrow> a = b"
  by (simp add: strcmp_eq_def cstr_str str_inj)

lemma cstr_cstr [simp]: "cstr (cstr bs) = cstr bs"
  by (rule cstr_id) (rule cstr_no_nul)

text \<open>\<open>memchr (p, c, n)\<close> on the \<open>n\<close> bytes from \<open>p\<close>: the offset of the first \<open>c\<close>.\<close>

definition memchr :: "u8 \<Rightarrow> bytes \<Rightarrow> nat option" where
  "memchr c bs = (let n = length (takeWhile (\<lambda>b. b \<noteq> c) bs)
                  in if n < length bs then Some n else None)"

lemma memchr_Some:
  assumes "memchr c bs = Some n"
  shows "n < length bs" and "bs ! n = c" and "\<forall>i<n. bs ! i \<noteq> c"
proof -
  let ?p = "\<lambda>b. b \<noteq> c"
  have n: "n = length (takeWhile ?p bs)" and l: "n < length bs"
    using assms by (auto simp: memchr_def Let_def split: if_splits)
  show "n < length bs" by (fact l)
  show "bs ! n = c" using nth_length_takeWhile [of ?p bs] n l by simp
  show "\<forall>i<n. bs ! i \<noteq> c"
  proof (intro allI impI)
    fix i assume "i < n"
    then have "bs ! i \<in> set (takeWhile ?p bs)"
      using n by (auto simp: in_set_conv_nth takeWhile_nth)
    then show "bs ! i \<noteq> c" by (auto dest: set_takeWhileD)
  qed
qed

lemma memchr_append: "c \<notin> set xs \<Longrightarrow> memchr c (xs @ c # ys) = Some (length xs)"
proof -
  assume "c \<notin> set xs"
  then have "takeWhile (\<lambda>b. b \<noteq> c) (xs @ c # ys) = xs"
    by (intro takeWhile_append_stop) auto
  then show ?thesis by (simp add: memchr_def Let_def)
qed

lemma memchr_None: "memchr c bs = None \<longleftrightarrow> c \<notin> set bs"
proof -
  have "length (takeWhile (\<lambda>b. b \<noteq> c) bs) < length bs \<longleftrightarrow> c \<in> set bs"
    by (induction bs) auto
  then show ?thesis by (simp add: memchr_def Let_def)
qed

subsection \<open>Numbers as digits\<close>

definition digit :: "nat \<Rightarrow> u8" where
  "digit n = word_of_nat (48 + n)"

definition digit_val :: "u8 \<Rightarrow> nat" where
  "digit_val b = unat b - 48"

lemma unat_digit [byte_simps]: "n < 10 \<Longrightarrow> unat (digit n) = 48 + n"
  unfolding digit_def unat_of_nat by simp

lemma digit_val_digit [byte_simps]: "n < 10 \<Longrightarrow> digit_val (digit n) = n"
  by (simp add: digit_val_def unat_digit)

lemma isdigit_digit [byte_simps]: "n < 10 \<Longrightarrow> isdigit (digit n)"
  by (simp add: isdigit_unat unat_digit)

text \<open>The digits of a number to base \<open>b\<close> (\<open>%zu\<close> and \<open>%lld\<close> to base 10, \<open>%o\<close> to base 8).\<close>

fun show_base :: "nat \<Rightarrow> nat \<Rightarrow> bytes" where
  "show_base b n =
     (if n < b \<or> b < 2 then [digit n] else show_base b (n div b) @ [digit (n mod b)])"

declare show_base.simps [simp del]

definition digits_val :: "nat \<Rightarrow> bytes \<Rightarrow> nat" where
  "digits_val b ds = foldl (\<lambda>a d. b * a + digit_val d) 0 ds"

lemma digits_val_snoc: "digits_val b (ds @ [d]) = b * digits_val b ds + digit_val d"
  by (simp add: digits_val_def)

lemma show_base_nonempty [simp]: "show_base b n \<noteq> []"
  by (subst show_base.simps) simp

lemma digits_val_show_base:
  "2 \<le> b \<Longrightarrow> b \<le> 10 \<Longrightarrow> digits_val b (show_base b n) = n"
proof (induction b n rule: show_base.induct)
  case (1 b n)
  show ?case
  proof (cases "n < b")
    case True
    with 1 show ?thesis
      by (subst show_base.simps) (simp add: digits_val_def digit_val_digit)
  next
    case False
    have "n mod b < 10"
      using 1 mod_less_divisor [of b n] by linarith
    with False 1 show ?thesis
      by (subst show_base.simps) (simp add: digits_val_snoc digit_val_digit)
  qed
qed

lemma isdigit_show_base:
  "2 \<le> b \<Longrightarrow> b \<le> 10 \<Longrightarrow> \<forall>d\<in>set (show_base b n). isdigit d"
proof (induction b n rule: show_base.induct)
  case (1 b n)
  have "n mod b < 10"
    using 1 mod_less_divisor [of b n] by linarith
  with 1 show ?case
    by (subst show_base.simps) (auto simp: isdigit_digit)
qed

lemma length_show_base:
  "2 \<le> b \<Longrightarrow> n < b ^ k \<Longrightarrow> 0 < k \<Longrightarrow> length (show_base b n) \<le> k"
proof (induction b n arbitrary: k rule: show_base.induct)
  case (1 b n)
  show ?case
  proof (cases "n < b")
    case True
    with 1 show ?thesis by (subst show_base.simps) simp
  next
    case False
    with 1 have "k \<noteq> 0" "k \<noteq> 1" by auto
    then obtain j where k: "k = Suc j" and "0 < j"
      by (cases k) auto
    have "n div b < b ^ j"
      using 1 k by (simp add: less_mult_imp_div_less mult.commute)
    with 1 False \<open>0 < j\<close> k show ?thesis by (subst show_base.simps) simp
  qed
qed

definition show_dec :: "nat \<Rightarrow> bytes" where
  "show_dec n = show_base 10 n"

definition show_int :: "int \<Rightarrow> bytes" where
  "show_int i = (if i < 0 then c_minus # show_dec (nat (- i)) else show_dec (nat i))"

lemma show_dec_nonempty [simp]: "show_dec n \<noteq> []"
  by (simp add: show_dec_def)

lemma isdigit_show_dec: "d \<in> set (show_dec n) \<Longrightarrow> isdigit d"
  using isdigit_show_base [of 10 n] by (simp add: show_dec_def)

lemma digits_val_show_dec [simp]: "digits_val 10 (show_dec n) = n"
  by (simp add: show_dec_def digits_val_show_base)

text \<open>\<open>%.1f\<close> of \<open>n / d\<close> for a power of two \<open>d\<close>, where the division is exact: to the nearest, ties to even.\<close>

definition show_tenths :: "nat \<Rightarrow> nat \<Rightarrow> bytes" where
  "show_tenths n d =
     (let q = n * 10 div d; r = n * 10 mod d;
          t = (if d < 2 * r \<or> 2 * r = d \<and> odd q then q + 1 else q)
      in show_dec (t div 10) @ c_dot # show_dec (t mod 10))"

text \<open>\<open>snprintf (buf, size, \<dots>)\<close>: the text that fits, which the terminating zero follows.\<close>

definition snprintf :: "nat \<Rightarrow> bytes \<Rightarrow> bytes" where
  "snprintf n text = take (n - 1) text"

lemma snprintf_fits: "length text < n \<Longrightarrow> snprintf n text = text"
  by (simp add: snprintf_def)

lemma length_snprintf: "0 < n \<Longrightarrow> length (snprintf n text) < n"
  by (simp add: snprintf_def min_def) linarith

text \<open>\<open>%0<w>\<dots>\<close>: padding with zeros on the left up to a width.\<close>

definition zero_pad :: "nat \<Rightarrow> bytes \<Rightarrow> bytes" where
  "zero_pad w ds = replicate (w - length ds) c_zero @ ds"

lemma digits_val_zero_pad: "digits_val b (zero_pad w ds) = digits_val b ds"
proof -
  have "foldl (\<lambda>a d. b * a + digit_val d) 0 (replicate n c_zero) = 0" for n
    by (induction n) (simp_all add: digit_val_def)
  then show ?thesis by (simp add: zero_pad_def digits_val_def)
qed

subsection \<open>strtol\<close>

definition LONG_MIN :: int where "LONG_MIN = - (2 ^ 63)"
definition LONG_MAX :: int where "LONG_MAX = 2 ^ 63 - 1"

definition clamp_long :: "int \<Rightarrow> int" where
  "clamp_long i = (if i < LONG_MIN then LONG_MIN else if LONG_MAX < i then LONG_MAX else i)"

text \<open>
  \<open>strtol (p, &end, 10)\<close> from the bytes at \<open>p\<close>: the value, saturated to \<open>long\<close>, and how many
  bytes it consumed (none when there is no digit). \<open>None\<close> when no byte stops it before the
  bytes run out.
\<close>

definition strtol :: "bytes \<Rightarrow> (int \<times> nat) option" where
  "strtol bs =
     (let ws = takeWhile isspace bs;
          r1 = dropWhile isspace bs;
          sg = (r1 \<noteq> [] \<and> (hd r1 = c_minus \<or> hd r1 = c_plus));
          neg = (r1 \<noteq> [] \<and> hd r1 = c_minus);
          r2 = (if sg then tl r1 else r1);
          ds = takeWhile isdigit r2;
          used = length ws + (if sg then 1 else 0) + length ds
      in if length bs \<le> used then None
         else if ds = [] then Some (0, 0)
         else Some (clamp_long (if neg then - int (digits_val 10 ds)
                                else int (digits_val 10 ds)), used))"

lemma strtol_range: "strtol bs = Some (v, n) \<Longrightarrow> LONG_MIN \<le> v \<and> v \<le> LONG_MAX"
  by (auto simp: strtol_def Let_def clamp_long_def LONG_MIN_def LONG_MAX_def split: if_splits)

lemma strtol_used: "strtol bs = Some (v, n) \<Longrightarrow> n < length bs"
  by (auto simp: strtol_def Let_def split: if_splits)

text \<open>A byte that is no space, sign or digit stops it, so it stays inside the buffer.\<close>

lemma strtol_stops:
  assumes "c \<in> set bs" and "\<not> isspace c" and "\<not> isdigit c"
    and "c \<noteq> c_minus" and "c \<noteq> c_plus"
  shows "strtol bs \<noteq> None"
proof -
  let ?r1 = "dropWhile isspace bs"
  have c1: "c \<in> set ?r1"
    using assms(1,2) by (metis Un_iff set_append set_takeWhileD takeWhile_dropWhile_id)
  then have ne: "?r1 \<noteq> []" by (metis empty_iff list.set(1))
  have l1: "length (takeWhile isspace bs) + length ?r1 = length bs"
    by (metis length_append takeWhile_dropWhile_id)
  have step: "length (takeWhile isdigit xs) < length xs" if "c \<in> set xs" for xs
    using that assms(3) by (auto intro: length_takeWhile_less)
  have tl: "c \<in> set (tl ?r1)" if "hd ?r1 = c_minus \<or> hd ?r1 = c_plus"
    using c1 that assms(4,5) ne by (cases ?r1) auto
  have lt: "length (tl ?r1) + 1 = length ?r1" using ne by (cases ?r1) auto
  show ?thesis
    using step [OF c1] step [OF tl] lt l1 ne by (auto simp: strtol_def Let_def)
qed

lemma strtol_show_int:
  assumes "LONG_MIN \<le> i" and "i \<le> LONG_MAX" and "\<not> isdigit c"
  shows "strtol (show_int i @ c # rest) = Some (i, length (show_int i))"
proof -
  have dd: "takeWhile isdigit (show_dec n @ c # rest) = show_dec n" for n
    using assms(3) isdigit_show_dec by (intro takeWhile_append_stop) auto
  have hd_dig: "isdigit (hd (show_dec n))" for n
    using isdigit_show_dec [of "hd (show_dec n)" n] by simp
  have not_sign: "hd (show_dec n) \<noteq> c_minus \<and> hd (show_dec n) \<noteq> c_plus" for n
    using hd_dig [of n] by (auto simp: isdigit_def)
  have nsp: "takeWhile isspace (show_dec n @ c # rest) = []"
    "dropWhile isspace (show_dec n @ c # rest) = show_dec n @ c # rest" for n
    using isdigit_not_isspace [OF hd_dig [of n]]
    by (cases "show_dec n"; simp)+
  have msp: "\<not> isspace c_minus" by (simp add: isspace_def)
  show ?thesis
  proof (cases "i < 0")
    case True
    then show ?thesis
      using assms dd msp
      by (simp add: strtol_def show_int_def Let_def clamp_long_def)
  next
    case False
    then show ?thesis
      using assms dd not_sign nsp
      by (simp add: strtol_def show_int_def Let_def clamp_long_def)
  qed
qed

subsection \<open>Hexadecimal, as \<open>%02X\<close> prints a byte\<close>

definition hex_digit :: "nat \<Rightarrow> u8" where
  "hex_digit n = (if n < 10 then word_of_nat (48 + n) else word_of_nat (55 + n))"

definition hex_byte :: "u8 \<Rightarrow> bytes" where
  "hex_byte b = [hex_digit (unat b div 16), hex_digit (unat b mod 16)]"

subsection \<open>Network byte order\<close>

definition be32_bytes :: "u32 \<Rightarrow> bytes" where
  "be32_bytes w = [ucast (drop_bit 24 w), ucast (drop_bit 16 w), ucast (drop_bit 8 w), ucast w]"

definition be32 :: "bytes \<Rightarrow> u32" where
  "be32 bs = push_bit 24 (ucast (bs ! 0)) OR push_bit 16 (ucast (bs ! 1))
             OR push_bit 8 (ucast (bs ! 2)) OR ucast (bs ! 3)"

definition be16 :: "bytes \<Rightarrow> u16" where
  "be16 bs = push_bit 8 (ucast (bs ! 0)) OR ucast (bs ! 1)"

lemma length_be32_bytes [simp]: "length (be32_bytes w) = 4"
  by (simp add: be32_bytes_def)

lemma be32_be32_bytes [simp]: "be32 (be32_bytes w @ rest) = w"
proof (rule bit_eqI)
  fix n
  assume "possible_bit TYPE(u32) n"
  then have n: "n < 32" by simp
  consider "n < 8" | "8 \<le> n" "n < 16" | "16 \<le> n" "n < 24" | "24 \<le> n" by linarith
  then show "bit (be32 (be32_bytes w @ rest)) n = bit w n"
    using n by cases (auto simp: be32_def be32_bytes_def bit_simps)
qed

subsection \<open>qsort\<close>

text \<open>
  \<open>qsort\<close> with a comparison \<open>cmp\<close>; the standard leaves the order of equal elements open, here
  they keep their order.
\<close>

fun qsort_insert :: "('a \<Rightarrow> 'a \<Rightarrow> int) \<Rightarrow> 'a \<Rightarrow> 'a list \<Rightarrow> 'a list" where
  "qsort_insert cmp x [] = [x]"
| "qsort_insert cmp x (y # ys) =
     (if cmp x y \<le> 0 then x # y # ys else y # qsort_insert cmp x ys)"

fun qsort :: "('a \<Rightarrow> 'a \<Rightarrow> int) \<Rightarrow> 'a list \<Rightarrow> 'a list" where
  "qsort cmp [] = []"
| "qsort cmp (x # xs) = qsort_insert cmp x (qsort cmp xs)"

lemma set_qsort_insert: "set (qsort_insert cmp x xs) = insert x (set xs)"
  by (induction xs) auto

lemma set_qsort [simp]: "set (qsort cmp xs) = set xs"
  by (induction xs) (auto simp: set_qsort_insert)

lemma length_qsort_insert: "length (qsort_insert cmp x xs) = Suc (length xs)"
  by (induction xs) auto

lemma length_qsort [simp]: "length (qsort cmp xs) = length xs"
  by (induction xs) (auto simp: length_qsort_insert)

lemma count_list_qsort_insert: "count_list (qsort_insert cmp x xs) y = count_list (x # xs) y"
  by (induction xs) auto

lemma count_list_qsort: "count_list (qsort cmp xs) y = count_list xs y"
  by (induction xs) (auto simp: count_list_qsort_insert)

lemma sorted_qsort:
  assumes key: "\<And>x y. cmp x y \<le> 0 \<longleftrightarrow> (k y :: int) \<le> k x"
  shows "sorted_wrt (\<lambda>x y. k y \<le> k x) (qsort cmp xs)"
proof -
  have "sorted_wrt (\<lambda>x y. k y \<le> k x) (qsort_insert cmp x ys)"
    if "sorted_wrt (\<lambda>x y. k y \<le> k x) ys" for x ys
    using that by (induction ys) (auto simp: set_qsort_insert key)
  then show ?thesis by (induction xs) auto
qed

subsection \<open>Lines and last occurrences\<close>

text \<open>\<open>fgets (line, n, f)\<close>: at most \<open>n - 1\<close> bytes, up to and with a newline; and what is left.\<close>

definition fgets :: "nat \<Rightarrow> bytes \<Rightarrow> bytes \<times> bytes" where
  "fgets n bs =
     (let chunk = take (n - 1) bs;
          k = (case memchr c_nl chunk of Some i \<Rightarrow> Suc i | None \<Rightarrow> length chunk)
      in (take k bs, drop k bs))"

lemma fgets_line:
  assumes "c_nl \<notin> set l" and "Suc (length l) < n"
  shows "fgets n ((l @ [c_nl]) @ rest) = (l @ [c_nl], rest)"
proof -
  have "take (n - 1) ((l @ [c_nl]) @ rest) = l @ c_nl # take (n - Suc (Suc (length l))) rest"
    using assms(2) by (simp add: take_Cons' numeral_2_eq_2)
  then show ?thesis using memchr_append [OF assms(1)] by (simp add: fgets_def)
qed

text \<open>\<open>strrchr\<close>: from the last occurrence on.\<close>

fun strrchr :: "u8 \<Rightarrow> bytes \<Rightarrow> bytes option" where
  "strrchr c [] = None"
| "strrchr c (x # xs) =
     (case strrchr c xs of Some s \<Rightarrow> Some s | None \<Rightarrow> if x = c then Some (x # xs) else None)"

text \<open>\<open>strstr\<close>: where a string first occurs.\<close>

fun strstr :: "bytes \<Rightarrow> bytes \<Rightarrow> nat option" where
  "strstr s needle =
     (if take (length needle) s = needle then Some 0
      else case s of [] \<Rightarrow> None | x # xs \<Rightarrow> map_option Suc (strstr xs needle))"

declare strstr.simps [simp del]

lemma strstr_bound: "strstr s needle = Some i \<Longrightarrow> i + length needle \<le> length s"
proof (induction s needle arbitrary: i rule: strstr.induct)
  case (1 s needle)
  show ?case
  proof (cases "take (length needle) s = needle")
    case True
    then have "length needle \<le> length s" by (metis length_take min.cobounded1)
    with True "1.prems" show ?thesis by (simp add: strstr.simps)
  next
    case False
    with "1.prems" obtain x xs j where s: "s = x # xs" "strstr xs needle = Some j" "i = Suc j"
      by (auto simp: strstr.simps [of s] split: list.splits)
    from "1.IH" [OF False s(1,2)] s show ?thesis by simp
  qed
qed

lemma strstr_append: "strstr s needle = Some i \<Longrightarrow> strstr (s @ rest) needle = Some i"
proof (induction s needle arbitrary: i rule: strstr.induct)
  case (1 s needle)
  show ?case
  proof (cases "take (length needle) s = needle")
    case True
    then have "length needle \<le> length s" by (metis length_take min.cobounded1)
    then have "take (length needle) (s @ rest) = needle" using True by simp
    with True "1.prems" show ?thesis by (simp add: strstr.simps)
  next
    case False
    with "1.prems" obtain x xs j where s: "s = x # xs" "strstr xs needle = Some j" "i = Suc j"
      by (auto simp: strstr.simps [of s] split: list.splits)
    from "1.IH" [OF False s(1,2)] have "strstr (xs @ rest) needle = Some j" .
    moreover have "take (length needle) (s @ rest) \<noteq> needle"
    proof -
      have "length needle \<le> length s" using strstr_bound [OF s(2)] s(1) by simp
      with False show ?thesis by simp
    qed
    ultimately show ?thesis using s by (simp add: strstr.simps [of "x # xs @ rest"])
  qed
qed

end
