(* ===== verification/ByteSink.thy ===== *)
theory ByteSink
  imports CPrelude
begin

text \<open>
  The contract of a growing byte buffer: an append extends the contents and keeps the
  invariant. The encoder's \<open>dynbuf_t\<close> and the HTTP response buffer \<open>memory_t\<close> provide it; what
  is proved here of a run of appends holds for both.
\<close>

locale byte_sink =
  fixes append :: "'b \<Rightarrow> bytes \<Rightarrow> 'b"
    and contents :: "'b \<Rightarrow> bytes"
    and inv :: "'b \<Rightarrow> bool"
  assumes inv_append: "inv b \<Longrightarrow> inv (append b src)"
    and contents_append: "inv b \<Longrightarrow> contents (append b src) = contents b @ src"
begin

lemma inv_appends: "inv b \<Longrightarrow> inv (foldl append b chunks)"
  by (induction chunks arbitrary: b) (auto simp: inv_append)

lemma contents_appends: "inv b \<Longrightarrow> contents (foldl append b chunks) = contents b @ concat chunks"
  by (induction chunks arbitrary: b) (auto simp: inv_append contents_append)

text \<open>How the data is cut into chunks does not matter.\<close>

lemma contents_chunking:
  "inv b \<Longrightarrow> concat xs = concat ys \<Longrightarrow>
     contents (foldl append b xs) = contents (foldl append b ys)"
  by (simp add: contents_appends)

end

end
