(* ===== verification/Bencode.thy ===== *)
theory Bencode
  imports CStd ByteSink
begin

text \<open>
  FINAL/src/bencode.c: the bencode objects, the encoder into a growing buffer and the decoder.
  A pointer into the input is the list of the bytes from it to \<open>end\<close>, so \<open>ptr >= end\<close> is the
  empty list and a dereference of it is a read past the end.
\<close>

subsection \<open>Objects\<close>

datatype ben_obj =
    BEN_STRING bytes
  | BEN_INT int
  | BEN_LIST "ben_obj list"
  | BEN_DICT "(bytes \<times> ben_obj) list"

text \<open>Objects in memory: integers are \<open>int64_t\<close>, lengths fit \<open>long\<close>.\<close>

fun ben_wf :: "ben_obj \<Rightarrow> bool" where
  "ben_wf (BEN_STRING s) \<longleftrightarrow> int (length s) \<le> LONG_MAX"
| "ben_wf (BEN_INT i) \<longleftrightarrow> LONG_MIN \<le> i \<and> i \<le> LONG_MAX"
| "ben_wf (BEN_LIST xs) \<longleftrightarrow> (\<forall>x\<in>set xs. ben_wf x)"
| "ben_wf (BEN_DICT ps) \<longleftrightarrow> (\<forall>(k, v)\<in>set ps. int (length k) \<le> LONG_MAX \<and> ben_wf v)"

subsection \<open>The growing buffer\<close>

text \<open>\<open>db_data\<close> holds the initialised bytes of the block of \<open>db_cap\<close> bytes.\<close>

record dynbuf =
  db_data :: bytes
  db_len :: nat
  db_cap :: nat

definition dynbuf_init :: dynbuf where
  "dynbuf_init = \<lparr>db_data = [], db_len = 0, db_cap = 0\<rparr>"

text \<open>\<open>while (new_cap < need) new_cap *= 2\<close>; the caller starts it above zero.\<close>

function grow_cap :: "nat \<Rightarrow> nat \<Rightarrow> nat" where
  "grow_cap c need = (if c < need \<and> 0 < c then grow_cap (c * 2) need else c)"
  by pat_completeness auto
termination by (relation "measure (\<lambda>(c, need). need - c)") auto

declare grow_cap.simps [simp del]

definition dynbuf_append :: "dynbuf \<Rightarrow> bytes \<Rightarrow> dynbuf" where
  "dynbuf_append b src =
     (let n = length src;
          b' = (if db_len b + n > db_cap b
                then b\<lparr>db_cap := grow_cap (if db_cap b \<noteq> 0 then db_cap b * 2 else 128) (db_len b + n)\<rparr>
                else b)
      in b'\<lparr>db_data := memcpy_at (db_len b') src (db_data b'), db_len := db_len b' + n\<rparr>)"

definition dynbuf_append_char :: "dynbuf \<Rightarrow> u8 \<Rightarrow> dynbuf" where
  "dynbuf_append_char b c = dynbuf_append b [c]"

definition dynbuf_append_str :: "dynbuf \<Rightarrow> bytes \<Rightarrow> dynbuf" where
  "dynbuf_append_str b s = dynbuf_append b (cstr s)"

text \<open>The invariant: \<open>len\<close> bytes are initialised and fit the block.\<close>

definition dynbuf_inv :: "dynbuf \<Rightarrow> bool" where
  "dynbuf_inv b \<longleftrightarrow> db_len b = length (db_data b) \<and> db_len b \<le> db_cap b"

lemma grow_cap_ge: "0 < c \<Longrightarrow> need \<le> grow_cap c need \<and> c \<le> grow_cap c need"
proof (induction c need rule: grow_cap.induct)
  case (1 c need)
  show ?case
  proof (cases "c < need")
    case True
    with 1 show ?thesis by (subst (1 2) grow_cap.simps) auto
  next
    case False
    then show ?thesis by (subst (1 2) grow_cap.simps) auto
  qed
qed

lemma dynbuf_inv_init [simp]: "dynbuf_inv dynbuf_init"
  by (simp add: dynbuf_inv_def dynbuf_init_def)

lemma dynbuf_data_init [simp]: "db_data dynbuf_init = []"
  by (simp add: dynbuf_init_def)

lemma dynbuf_inv_append: "dynbuf_inv b \<Longrightarrow> dynbuf_inv (dynbuf_append b src)"
  using grow_cap_ge [of "if db_cap b \<noteq> 0 then db_cap b * 2 else 128" "db_len b + length src"]
  by (auto simp: dynbuf_inv_def dynbuf_append_def Let_def memcpy_at_def)

lemma dynbuf_data_append: "dynbuf_inv b \<Longrightarrow> db_data (dynbuf_append b src) = db_data b @ src"
  by (simp add: dynbuf_inv_def dynbuf_append_def Let_def memcpy_at_def)

interpretation dynbuf: byte_sink dynbuf_append db_data dynbuf_inv
  by unfold_locales (auto simp: dynbuf_inv_append dynbuf_data_append)

subsection \<open>The encoder\<close>

definition len_prefix :: "nat \<Rightarrow> bytes" where
  "len_prefix n = snprintf 32 (show_dec n @ [c_colon])"

lemma size_snd_pair: "p \<in> set ps \<Longrightarrow> size (snd p) < Suc (size_list (size_prod (\<lambda>_. 0) size) ps)"
  by (induction ps) (auto simp: size_prod_def split: prod.splits)

function encode_obj :: "dynbuf \<Rightarrow> ben_obj \<Rightarrow> dynbuf" where
  "encode_obj b (BEN_STRING s) =
     dynbuf_append (dynbuf_append_str b (len_prefix (length s))) s"
| "encode_obj b (BEN_INT i) =
     dynbuf_append_str b (snprintf 32 (c_i # show_int i @ [c_e]))"
| "encode_obj b (BEN_LIST items) =
     dynbuf_append_char (foldl (\<lambda>b x. encode_obj b x) (dynbuf_append_char b c_l) items) c_e"
| "encode_obj b (BEN_DICT pairs) =
     dynbuf_append_char
       (foldl (\<lambda>b p. encode_obj
                 (dynbuf_append (dynbuf_append_str b (len_prefix (length (fst p)))) (fst p)) (snd p))
          (dynbuf_append_char b c_d) pairs) c_e"
  by pat_completeness auto

termination
  by (relation "measure (\<lambda>(b, x). size x)") (auto simp: size_list_estimation' less_Suc_eq_le size_snd_pair)

definition bencode_encode :: "ben_obj \<Rightarrow> bytes" where
  "bencode_encode obj = db_data (encode_obj dynbuf_init obj)"

subsection \<open>The encoding as a function of the object\<close>

fun benc :: "ben_obj \<Rightarrow> bytes" where
  "benc (BEN_STRING s) = show_dec (length s) @ c_colon # s"
| "benc (BEN_INT i) = c_i # show_int i @ [c_e]"
| "benc (BEN_LIST xs) = c_l # concat (map benc xs) @ [c_e]"
| "benc (BEN_DICT ps) =
     c_d # concat (map (\<lambda>(k, v). show_dec (length k) @ c_colon # k @ benc v) ps) @ [c_e]"

lemma no_nul_show_dec: "c_nul \<notin> set (show_dec n)"
  using isdigit_show_dec [of c_nul n] by (auto simp: isdigit_def)

lemma no_nul_show_int: "c_nul \<notin> set (show_int i)"
  by (simp add: show_int_def no_nul_show_dec)

lemma length_show_dec_long: "int n \<le> LONG_MAX + 1 \<Longrightarrow> length (show_dec n) \<le> 19"
  unfolding show_dec_def by (rule length_show_base) (auto simp: LONG_MAX_def)

lemma len_prefix_eq: "int n \<le> LONG_MAX \<Longrightarrow> len_prefix n = show_dec n @ [c_colon]"
  using length_show_dec_long [of n] by (simp add: len_prefix_def snprintf_def)

lemma cstr_len_prefix: "int n \<le> LONG_MAX \<Longrightarrow> cstr (len_prefix n) = show_dec n @ [c_colon]"
  by (simp add: len_prefix_eq cstr_id no_nul_show_dec)

lemma cstr_int_text:
  assumes "LONG_MIN \<le> i" and "i \<le> LONG_MAX"
  shows "cstr (snprintf 32 (c_i # show_int i @ [c_e])) = c_i # show_int i @ [c_e]"
proof -
  have "length (show_int i) \<le> 20"
    using assms length_show_dec_long [of "nat i"] length_show_dec_long [of "nat (- i)"]
    by (cases "i < 0") (simp_all add: show_int_def LONG_MIN_def LONG_MAX_def)
  then have "snprintf 32 (c_i # show_int i @ [c_e]) = c_i # show_int i @ [c_e]"
    by (intro snprintf_fits) simp
  then show ?thesis by (simp add: cstr_id no_nul_show_int)
qed

text \<open>The buffer code appends exactly this text: one lemma for the whole encoder.\<close>

lemma foldl_append_refines:
  assumes "\<And>b x. x \<in> set xs \<Longrightarrow> dynbuf_inv b \<Longrightarrow> dynbuf_inv (f b x) \<and> db_data (f b x) = db_data b @ g x"
    and "dynbuf_inv b"
  shows "dynbuf_inv (foldl f b xs) \<and> db_data (foldl f b xs) = db_data b @ concat (map g xs)"
  using assms by (induction xs arbitrary: b) auto

lemma encode_obj_refines:
  "ben_wf x \<Longrightarrow> dynbuf_inv b \<Longrightarrow>
     dynbuf_inv (encode_obj b x) \<and> db_data (encode_obj b x) = db_data b @ benc x"
proof (induction b x rule: encode_obj.induct)
  case (1 b s)
  then show ?case
    by (simp add: dynbuf_append_str_def cstr_len_prefix dynbuf_inv_append dynbuf_data_append)
next
  case (2 b i)
  then show ?case
    by (simp add: dynbuf_append_str_def cstr_int_text dynbuf_inv_append dynbuf_data_append)
next
  case (3 b xs)
  let ?b = "dynbuf_append_char b c_l"
  have b: "dynbuf_inv ?b" "db_data ?b = db_data b @ [c_l]"
    using 3 by (simp_all add: dynbuf_append_char_def dynbuf_inv_append dynbuf_data_append)
  have "dynbuf_inv (foldl encode_obj ?b xs)
      \<and> db_data (foldl encode_obj ?b xs) = db_data ?b @ concat (map benc xs)"
    using 3 b by (intro foldl_append_refines) auto
  with b show ?case
    by (simp add: dynbuf_append_char_def dynbuf_inv_append dynbuf_data_append)
next
  case (4 b ps)
  let ?b = "dynbuf_append_char b c_d"
  let ?k = "\<lambda>b p. dynbuf_append (dynbuf_append_str b (len_prefix (length (fst p)))) (fst p)"
  let ?f = "\<lambda>b p. encode_obj (?k b p) (snd p)"
  let ?g = "\<lambda>(k, v). show_dec (length k) @ c_colon # k @ benc v"
  have b: "dynbuf_inv ?b" "db_data ?b = db_data b @ [c_d]"
    using 4 by (simp_all add: dynbuf_append_char_def dynbuf_inv_append dynbuf_data_append)
  have step: "dynbuf_inv (?f b p) \<and> db_data (?f b p) = db_data b @ ?g p"
    if "p \<in> set ps" "dynbuf_inv b" for b p
  proof -
    have wf: "int (length (fst p)) \<le> LONG_MAX" "ben_wf (snd p)"
      using 4(2) that(1) by (cases p; force)+
    have k: "dynbuf_inv (?k b p)"
      "db_data (?k b p) = db_data b @ show_dec (length (fst p)) @ c_colon # fst p"
      using that wf by (simp_all add: dynbuf_append_str_def cstr_len_prefix dynbuf_inv_append
          dynbuf_data_append)
    from 4(1) [OF that(1) wf(2) k(1)] k(2) show ?thesis
      by (simp add: case_prod_unfold)
  qed
  have "dynbuf_inv (foldl ?f ?b ps) \<and> db_data (foldl ?f ?b ps) = db_data ?b @ concat (map ?g ps)"
    using step b by (intro foldl_append_refines) auto
  with b show ?case
    by (simp add: dynbuf_append_char_def dynbuf_inv_append dynbuf_data_append)
qed

lemma bencode_encode_benc: "ben_wf obj \<Longrightarrow> bencode_encode obj = benc obj"
  using encode_obj_refines [of obj dynbuf_init] by (simp add: bencode_encode_def)

text \<open>
  C17: the encoder writes the canonical bencode text of every object in memory, whatever the
  buffer's growth, and leaves the buffer within its allocation.
\<close>

theorem bencode_encode_correct:
  "ben_wf obj \<Longrightarrow> bencode_encode obj = benc obj \<and> dynbuf_inv (encode_obj dynbuf_init obj)"
  using encode_obj_refines [of obj dynbuf_init]
  by (simp add: bencode_encode_def)

theorem bencode_encode_correct_witness:
  "bencode_encode (BEN_DICT [(str ''k'', BEN_LIST [BEN_INT (-5), BEN_STRING (str ''ab'')])])
     = str ''d1:kli-5e2:abee''"
proof -
  let ?o = "BEN_DICT [(str ''k'', BEN_LIST [BEN_INT (-5), BEN_STRING (str ''ab'')])]"
  have "ben_wf ?o" by (simp add: LONG_MIN_def LONG_MAX_def)
  from bencode_encode_correct [OF this] show ?thesis
    by (simp add: str_Cons show_dec_def show_int_def show_base.simps digit_def)
qed

subsection \<open>The decoder\<close>

text \<open>
  What a parse function leaves: undefined behaviour, \<open>NULL\<close> with what was stored in \<open>*obj\<close>
  (\<open>None\<close>: nothing, not even its type), an unknown type byte, or an object and the next pointer.
  \<open>PFuel\<close> means the recursion bound was too small; it never happens (\<open>parse_value_fuel\<close>).
\<close>

datatype parse_res =
    PUb ub
  | PFuel
  | PUnknown
  | PNull "ben_obj option"
  | PNext ben_obj bytes

definition parse_string :: "bytes \<Rightarrow> parse_res" where
  "parse_string ptr =
     (case memchr c_colon ptr of
        None \<Rightarrow> PNull None
      | Some colon \<Rightarrow>
          (case strtol ptr of
             None \<Rightarrow> PUb Ub_OobRead
           | Some (len, _) \<Rightarrow>
               if len < 0 \<or> int (colon + 1) + len > int (length ptr) then PNull None
               else PNext (BEN_STRING (take (nat len) (drop (colon + 1) ptr)))
                      (drop (colon + 1 + nat len) ptr)))"

definition parse_int :: "bytes \<Rightarrow> parse_res" where
  "parse_int ptr0 =
     (let ptr = drop 1 ptr0
      in case memchr c_e ptr of
           None \<Rightarrow> PNull None
         | Some e \<Rightarrow>
             (case strtol ptr of
                None \<Rightarrow> PUb Ub_OobRead
              | Some (v, endptr) \<Rightarrow>
                  if endptr \<noteq> e then PNull (Some (BEN_INT v))
                  else PNext (BEN_INT v) (drop (e + 1) ptr)))"

text \<open>
  The dispatch on the type byte stands four times in the source (\<open>bencode_decode\<close>, \<open>parse_list\<close>,
  \<open>parse_dict\<close> twice); it is \<open>parse_value\<close> here. The two loops take the items read so far.
\<close>

fun parse_value :: "nat \<Rightarrow> bytes \<Rightarrow> parse_res"
  and parse_list :: "nat \<Rightarrow> ben_obj list \<Rightarrow> bytes \<Rightarrow> parse_res"
  and parse_dict :: "nat \<Rightarrow> (bytes \<times> ben_obj) list \<Rightarrow> bytes \<Rightarrow> parse_res"
where
  "parse_value 0 ptr = PFuel"
| "parse_value (Suc fuel) [] = PUb Ub_OobRead"
| "parse_value (Suc fuel) (b # ptr) =
     (if isdigit b then parse_string (b # ptr)
      else if b = c_i then parse_int (b # ptr)
      else if b = c_l then parse_list fuel [] ptr
      else if b = c_d then parse_dict fuel [] ptr
      else PUnknown)"
| "parse_list 0 items ptr = PFuel"
| "parse_list (Suc fuel) items [] = PNull (Some (BEN_LIST items))"
| "parse_list (Suc fuel) items (b # ptr) =
     (if b = c_e then PNext (BEN_LIST items) ptr
      else case parse_value fuel (b # ptr) of
             PUb u \<Rightarrow> PUb u
           | PFuel \<Rightarrow> PFuel
           | PUnknown \<Rightarrow> PNull (Some (BEN_LIST items))
           | PNull _ \<Rightarrow> PNull (Some (BEN_LIST items))
           | PNext item next \<Rightarrow> parse_list fuel (items @ [item]) next)"
| "parse_dict 0 pairs ptr = PFuel"
| "parse_dict (Suc fuel) pairs [] = PNull (Some (BEN_DICT pairs))"
| "parse_dict (Suc fuel) pairs (b # ptr) =
     (if b = c_e then PNext (BEN_DICT pairs) ptr
      else case parse_string (b # ptr) of
             PUb u \<Rightarrow> PUb u
           | PNext (BEN_STRING key) next \<Rightarrow>
               (case parse_value fuel next of
                  PUb u \<Rightarrow> PUb u
                | PFuel \<Rightarrow> PFuel
                | PUnknown \<Rightarrow> PNull (Some (BEN_DICT pairs))
                | PNull _ \<Rightarrow> PNull (Some (BEN_DICT pairs))
                | PNext val val_next \<Rightarrow> parse_dict fuel (pairs @ [(key, val)]) val_next)
           | _ \<Rightarrow> PNull (Some (BEN_DICT pairs)))"

datatype decode_res = DUb ub | DNull | DObj ben_obj

text \<open>
  On failure the source calls \<open>bencode_free (obj)\<close>, which reads \<open>obj->type\<close>: undefined when the
  parse function returned before it stored one.
\<close>

definition bencode_decode :: "bytes \<Rightarrow> decode_res" where
  "bencode_decode data =
     (case parse_value (2 * length data + 2) data of
        PUb u \<Rightarrow> DUb u
      | PFuel \<Rightarrow> DNull
      | PUnknown \<Rightarrow> DNull
      | PNull None \<Rightarrow> DUb Ub_Uninit
      | PNull (Some _) \<Rightarrow> DNull
      | PNext obj next \<Rightarrow> if next = [] then DObj obj else DNull)"

definition bencode_dict_get :: "ben_obj \<Rightarrow> bytes \<Rightarrow> ben_obj option" where
  "bencode_dict_get dict key =
     (case dict of
        BEN_DICT pairs \<Rightarrow> map_option snd (find (\<lambda>p. strcmp_eq (fst p) key) pairs)
      | _ \<Rightarrow> None)"

definition bencode_string_data :: "ben_obj option \<Rightarrow> bytes option" where
  "bencode_string_data obj = (case obj of Some (BEN_STRING s) \<Rightarrow> Some s | _ \<Rightarrow> None)"

definition bencode_int_value :: "ben_obj option \<Rightarrow> int" where
  "bencode_int_value obj = (case obj of Some (BEN_INT i) \<Rightarrow> i | _ \<Rightarrow> 0)"

subsection \<open>Progress, bounds and the recursion bound\<close>

lemmas parse_splits = option.splits if_splits prod.splits parse_res.splits ben_obj.splits

lemma parse_string_PNext:
  assumes "parse_string ptr = PNext obj rest"
  shows "\<exists>s. obj = BEN_STRING s \<and> length s + length rest < length ptr"
  using assms memchr_Some(1) [of c_colon ptr]
  by (auto simp: parse_string_def split: parse_splits)

lemma parse_int_PNext:
  assumes "parse_int ptr = PNext obj rest"
  shows "\<exists>i. obj = BEN_INT i \<and> LONG_MIN \<le> i \<and> i \<le> LONG_MAX \<and> length rest < length ptr"
  using assms memchr_Some(1) [of c_e "drop 1 ptr"]
  by (auto simp: parse_int_def Let_def split: parse_splits dest: strtol_range)

lemma parse_string_no_fuel: "parse_string ptr \<noteq> PFuel" "parse_string ptr \<noteq> PUnknown"
  by (auto simp: parse_string_def split: parse_splits)

lemma parse_int_no_fuel: "parse_int ptr \<noteq> PFuel" "parse_int ptr \<noteq> PUnknown"
  by (auto simp: parse_int_def Let_def split: parse_splits)

lemma parse_consumes:
  "parse_value fuel ptr = PNext obj rest \<Longrightarrow> length rest < length ptr"
  "parse_list fuel items ptr = PNext obj rest \<Longrightarrow> length rest < length ptr"
  "parse_dict fuel pairs ptr = PNext obj rest \<Longrightarrow> length rest < length ptr"
proof (induction fuel ptr and fuel items ptr and fuel pairs ptr arbitrary: obj rest and obj rest and obj rest
    rule: parse_value_parse_list_parse_dict.induct)
  case (3 fuel b ptr)
  then show ?case
    by (auto split: if_splits dest: parse_string_PNext parse_int_PNext intro: less_SucI)
next
  case (6 fuel items b ptr)
  then show ?case
    by (auto split: if_splits parse_res.splits) (metis length_Cons less_SucI less_trans)
next
  case (9 fuel pairs b ptr)
  then show ?case
    by (auto split: if_splits parse_res.splits ben_obj.splits dest!: parse_string_PNext)
      (metis add_lessD1 less_trans add.commute)
qed auto

lemma parse_fuel:
  "2 * length ptr < fuel \<Longrightarrow> parse_value fuel ptr \<noteq> PFuel"
  "2 * length ptr + 1 < fuel \<Longrightarrow> parse_list fuel items ptr \<noteq> PFuel"
  "2 * length ptr + 1 < fuel \<Longrightarrow> parse_dict fuel pairs ptr \<noteq> PFuel"
proof (induction fuel ptr and fuel items ptr and fuel pairs ptr
    rule: parse_value_parse_list_parse_dict.induct)
  case (3 fuel b ptr)
  then show ?case
    by (auto simp: parse_string_no_fuel parse_int_no_fuel)
next
  case (6 fuel items b ptr)
  have "parse_list fuel (items @ [item]) rest \<noteq> PFuel"
    if "b \<noteq> c_e" "parse_value fuel (b # ptr) = PNext item rest" for item rest
    using 6 that parse_consumes(1) [OF that(2)] by simp
  with 6 show ?case by (auto split: parse_res.splits)
next
  case (9 fuel pairs b ptr)
  have "parse_value fuel rest \<noteq> PFuel \<and>
      (parse_value fuel rest = PNext v rest' \<longrightarrow> parse_dict fuel (pairs @ [(key, v)]) rest' \<noteq> PFuel)"
    if "b \<noteq> c_e" "parse_string (b # ptr) = PNext (BEN_STRING key) rest" for key rest v rest'
    using 9 that parse_string_PNext [OF that(2)] parse_consumes(1) [of fuel rest v rest'] by auto
  then show ?case
    by (auto split: parse_res.splits ben_obj.splits)
qed auto

text \<open>
  decoding terminates within the bound of the model, twice the input length plus two; the
  bound never decides a result, so every outcome of \<open>bencode_decode\<close> is one of the code's own.
\<close>

theorem parse_value_fuel: "parse_value (2 * length data + 2) data \<noteq> PFuel"
  by (rule parse_fuel) simp

text \<open>\<open>strtol\<close> is called unbounded, but the byte \<open>memchr\<close> found stops it.\<close>

lemma parse_string_no_ub: "parse_string ptr \<noteq> PUb u"
proof (cases "memchr c_colon ptr")
  case (Some k)
  then have "c_colon \<in> set ptr"
    by (metis memchr_None option.distinct(1))
  then have "strtol ptr \<noteq> None"
    by (rule strtol_stops) (auto simp: isspace_def isdigit_def)
  with Some show ?thesis by (auto simp: parse_string_def split: if_splits)
qed (simp add: parse_string_def)

lemma parse_int_no_ub: "parse_int ptr \<noteq> PUb u"
proof (cases "memchr c_e (drop 1 ptr)")
  case (Some k)
  then have "c_e \<in> set (drop 1 ptr)"
    by (metis memchr_None option.distinct(1))
  then have "strtol (drop 1 ptr) \<noteq> None"
    by (rule strtol_stops) (auto simp: isspace_def isdigit_def)
  with Some show ?thesis by (auto simp: parse_int_def Let_def split: if_splits)
qed (simp add: parse_int_def Let_def)

text \<open>
  The only out-of-range access of the decoder is the read of \<open>*next\<close> after a complete dictionary
  key (or of \<open>*data\<close> of an empty input).
\<close>

lemma decode_ub_kinds:
  "bencode_decode data = DUb u \<Longrightarrow> u = Ub_OobRead \<or> u = Ub_Uninit"
proof -
  have all: "parse_value fuel ptr = PUb u \<Longrightarrow> u = Ub_OobRead"
    "parse_list fuel items ptr = PUb u \<Longrightarrow> u = Ub_OobRead"
    "parse_dict fuel pairs ptr = PUb u \<Longrightarrow> u = Ub_OobRead" for fuel ptr items pairs
  proof (induction fuel ptr and fuel items ptr and fuel pairs ptr
      rule: parse_value_parse_list_parse_dict.induct)
    case (9 fuel pairs b ptr)
    then show ?case
      by (auto simp: parse_string_no_ub split: if_splits parse_res.splits ben_obj.splits)
  qed (auto simp: parse_string_no_ub parse_int_no_ub split: if_splits parse_res.splits)
  show "bencode_decode data = DUb u \<Longrightarrow> u = Ub_OobRead \<or> u = Ub_Uninit"
    using all(1) [of "2 * length data + 2" data]
    by (auto simp: bencode_decode_def split: parse_res.splits option.splits if_splits)
qed

subsection \<open>Round trip\<close>

lemma parse_string_enc:
  assumes "int (length s) \<le> LONG_MAX"
  shows "parse_string (show_dec (length s) @ c_colon # s @ rest) = PNext (BEN_STRING s) rest"
proof -
  have col: "c_colon \<notin> set (show_dec (length s))"
    using isdigit_show_dec [of c_colon "length s"] by (auto simp: isdigit_def)
  have nd: "\<not> isdigit c_colon" by (simp add: isdigit_def)
  have "strtol (show_dec (length s) @ c_colon # s @ rest)
      = Some (int (length s), length (show_dec (length s)))"
    using strtol_show_int [of "int (length s)" c_colon "s @ rest"] assms nd
    by (simp add: show_int_def LONG_MIN_def)
  with memchr_append [OF col] show ?thesis
    by (simp add: parse_string_def)
qed

lemma parse_int_enc:
  assumes "LONG_MIN \<le> i" and "i \<le> LONG_MAX"
  shows "parse_int (c_i # show_int i @ c_e # rest) = PNext (BEN_INT i) rest"
proof -
  have "c_e \<notin> set (show_int i)"
    using isdigit_show_dec [of c_e] by (auto simp: show_int_def isdigit_def split: if_splits)
  moreover have "\<not> isdigit c_e" by (simp add: isdigit_def)
  ultimately show ?thesis
    using strtol_show_int [OF assms, of c_e rest]
    by (simp add: parse_int_def memchr_append)
qed

lemma show_dec_Cons: "\<exists>d ds. show_dec n = d # ds \<and> isdigit d"
  using isdigit_show_dec [of _ n] by (cases "show_dec n") auto

lemma digit_not_letter:
  "isdigit d \<Longrightarrow> d \<noteq> c_e" "isdigit d \<Longrightarrow> d \<noteq> c_i" "\<not> isdigit c_i" "\<not> isdigit c_l" "\<not> isdigit c_d"
  by (auto simp: isdigit_def)

text \<open>No encoding starts with the byte that ends a list.\<close>

lemma benc_Cons: "\<exists>b bs. benc x = b # bs \<and> b \<noteq> c_e"
proof (cases x)
  case (BEN_STRING s)
  obtain d ds where "show_dec (length s) = d # ds" "isdigit d" using show_dec_Cons by blast
  with BEN_STRING show ?thesis by (simp add: digit_not_letter(1))
qed simp_all

lemma parse_list_enc:
  assumes "\<And>x rest n. x \<in> set xs \<Longrightarrow> 2 * length (benc x) \<le> n \<Longrightarrow>
      parse_value n (benc x @ rest) = PNext x rest"
    and "2 * length (concat (map benc xs)) + 1 \<le> n"
  shows "parse_list n items (concat (map benc xs) @ c_e # rest)
    = PNext (BEN_LIST (items @ xs)) rest"
  using assms
proof (induction xs arbitrary: n items)
  case Nil
  then show ?case by (cases n) auto
next
  case (Cons x xs)
  obtain b bs where b: "benc x = b # bs" "b \<noteq> c_e" using benc_Cons by blast
  obtain m where n: "n = Suc m" using Cons.prems(2) by (cases n) auto
  have "parse_value m (benc x @ concat (map benc xs) @ c_e # rest)
      = PNext x (concat (map benc xs) @ c_e # rest)"
    using Cons.prems(2) n by (intro Cons.prems(1)) (auto simp: b)
  moreover have "parse_list m (items @ [x]) (concat (map benc xs) @ c_e # rest)
      = PNext (BEN_LIST ((items @ [x]) @ xs)) rest"
    using Cons.prems n b(1) by (intro Cons.IH) auto
  ultimately show ?case using n b by simp
qed

abbreviation benc_pair :: "bytes \<times> ben_obj \<Rightarrow> bytes" where
  "benc_pair \<equiv> \<lambda>(k, v). show_dec (length k) @ c_colon # k @ benc v"

lemma parse_dict_enc:
  assumes "\<And>k v rest n. (k, v) \<in> set ps \<Longrightarrow> 2 * length (benc v) \<le> n \<Longrightarrow>
      parse_value n (benc v @ rest) = PNext v rest"
    and "\<And>k v. (k, v) \<in> set ps \<Longrightarrow> int (length k) \<le> LONG_MAX"
    and "2 * length (concat (map benc_pair ps)) + 1 \<le> n"
  shows "parse_dict n pairs (concat (map benc_pair ps) @ c_e # rest)
    = PNext (BEN_DICT (pairs @ ps)) rest"
  using assms
proof (induction ps arbitrary: n pairs)
  case Nil
  then show ?case by (cases n) auto
next
  case (Cons p ps)
  obtain k v where p: "p = (k, v)" by (cases p)
  obtain d ds where d: "show_dec (length k) = d # ds" "isdigit d" using show_dec_Cons by blast
  obtain m where n: "n = Suc m" using Cons.prems(3) by (cases n) auto
  let ?tl = "concat (map benc_pair ps) @ c_e # rest"
  have "parse_string (show_dec (length k) @ c_colon # k @ benc v @ ?tl)
      = PNext (BEN_STRING k) (benc v @ ?tl)"
    using Cons.prems(2) [of k v] p by (intro parse_string_enc) simp
  moreover have "parse_value m (benc v @ ?tl) = PNext v ?tl"
    using Cons.prems(3) n p by (intro Cons.prems(1)) auto
  moreover have "parse_dict m (pairs @ [(k, v)]) ?tl = PNext (BEN_DICT ((pairs @ [(k, v)]) @ ps)) rest"
  proof (rule Cons.IH)
    show "int (length k') \<le> LONG_MAX" if "(k', v') \<in> set ps" for k' v'
      using that Cons.prems(2) [of k' v'] by simp
  qed (use Cons.prems(1,3) n p in auto)
  ultimately show ?case
    using n p d digit_not_letter(1) [OF d(2)] by simp
qed

lemma parse_value_enc:
  "ben_wf x \<Longrightarrow> 2 * length (benc x) \<le> n \<Longrightarrow> parse_value n (benc x @ rest) = PNext x rest"
proof (induction x arbitrary: n rest)
  case (BEN_STRING s)
  obtain d ds where d: "show_dec (length s) = d # ds" "isdigit d" using show_dec_Cons by blast
  obtain m where "n = Suc m" using BEN_STRING.prems(2) by (cases n) auto
  with BEN_STRING parse_string_enc [of s rest] d show ?case by simp
next
  case (BEN_INT i)
  obtain m where "n = Suc m" using BEN_INT.prems(2) by (cases n) auto
  with BEN_INT parse_int_enc [of i rest] show ?case by (simp add: digit_not_letter)
next
  case (BEN_LIST xs)
  obtain m where "n = Suc m" using BEN_LIST.prems(2) by (cases n) auto
  moreover have "parse_list m [] (concat (map benc xs) @ c_e # rest) = PNext (BEN_LIST ([] @ xs)) rest"
    using BEN_LIST \<open>n = Suc m\<close> by (intro parse_list_enc) auto
  ultimately show ?case by (simp add: digit_not_letter)
next
  case (BEN_DICT ps)
  obtain m where "n = Suc m" using BEN_DICT.prems(2) by (cases n) auto
  moreover have "parse_dict m [] (concat (map benc_pair ps) @ c_e # rest) = PNext (BEN_DICT ([] @ ps)) rest"
    using BEN_DICT \<open>n = Suc m\<close> by (intro parse_dict_enc) fastforce+
  ultimately show ?case by (simp add: digit_not_letter)
qed

text \<open>
  C6: decoding what the encoder wrote gives the object back, for every object in memory.
\<close>

theorem bencode_roundtrip: "ben_wf obj \<Longrightarrow> bencode_decode (bencode_encode obj) = DObj obj"
proof -
  assume wf: "ben_wf obj"
  then have e: "bencode_encode obj = benc obj"
    using encode_obj_refines [of obj dynbuf_init] by (simp add: bencode_encode_def)
  have "parse_value (2 * length (benc obj) + 2) (benc obj @ []) = PNext obj []"
    using wf by (intro parse_value_enc) auto
  then show ?thesis by (simp add: e bencode_decode_def)
qed

theorem bencode_roundtrip_witness:
  "bencode_decode (bencode_encode (BEN_DICT [(str ''a'', BEN_INT 7), (str ''b'', BEN_LIST [])]))
     = DObj (BEN_DICT [(str ''a'', BEN_INT 7), (str ''b'', BEN_LIST [])])"
  by (rule bencode_roundtrip) (simp add: LONG_MIN_def LONG_MAX_def)

subsection \<open>What a decoded object satisfies\<close>

lemma parse_wf:
  "parse_value fuel ptr = PNext obj rest \<Longrightarrow> int (length ptr) \<le> LONG_MAX \<Longrightarrow> ben_wf obj"
  "parse_list fuel items ptr = PNext obj rest \<Longrightarrow> int (length ptr) \<le> LONG_MAX \<Longrightarrow>
     \<forall>x\<in>set items. ben_wf x \<Longrightarrow> ben_wf obj"
  "parse_dict fuel pairs ptr = PNext obj rest \<Longrightarrow> int (length ptr) \<le> LONG_MAX \<Longrightarrow>
     \<forall>(k, v)\<in>set pairs. int (length k) \<le> LONG_MAX \<and> ben_wf v \<Longrightarrow> ben_wf obj"
proof (induction fuel ptr and fuel items ptr and fuel pairs ptr
    arbitrary: obj rest and obj rest and obj rest rule: parse_value_parse_list_parse_dict.induct)
  case (3 fuel b ptr)
  then show ?case
    by (auto split: if_splits dest!: parse_string_PNext parse_int_PNext)
next
  case (6 fuel items b ptr)
  show ?case
  proof (cases "b = c_e")
    case False
    then obtain item r where v: "parse_value fuel (b # ptr) = PNext item r"
      and l: "parse_list fuel (items @ [item]) r = PNext obj rest"
      using 6(3) by (auto split: parse_res.splits)
    have "ben_wf item" using 6(1) False v 6(4) by blast
    moreover have "int (length r) \<le> LONG_MAX" using parse_consumes(1) [OF v] 6(4) by simp
    ultimately show ?thesis using 6(2) [OF False v l] 6(5) by auto
  qed (use 6 in auto)
next
  case (9 fuel pairs b ptr)
  show ?case
  proof (cases "b = c_e")
    case False
    then obtain key r v r' where s: "parse_string (b # ptr) = PNext (BEN_STRING key) r"
      and v: "parse_value fuel r = PNext v r'"
      and d: "parse_dict fuel (pairs @ [(key, v)]) r' = PNext obj rest"
      using 9(3) by (auto split: parse_res.splits ben_obj.splits)
    have len: "length key + length r < length (b # ptr)"
      using parse_string_PNext [OF s] by auto
    have "ben_wf v" using 9(1) [OF False s] v len 9(4) by auto
    moreover have "int (length r') \<le> LONG_MAX"
      using parse_consumes(1) [OF v] len 9(4) by simp
    ultimately show ?thesis
      using 9(2) [OF False s _ v d] len 9(4,5) by auto
  qed (use 9 in auto)
qed auto

lemma bencode_decode_wf:
  "bencode_decode data = DObj obj \<Longrightarrow> int (length data) \<le> LONG_MAX \<Longrightarrow> ben_wf obj"
  by (auto simp: bencode_decode_def split: parse_res.splits option.splits if_splits
      intro: parse_wf(1))

lemma bencode_decode_benc: "ben_wf obj \<Longrightarrow> bencode_decode (benc obj) = DObj obj"
  using parse_value_enc [of obj "2 * length (benc obj) + 2" "[]"] by (simp add: bencode_decode_def)

text \<open>
  every decoded object is well-formed (integers saturated to \<open>int64_t\<close>, lengths within
  \<open>long\<close>), so encoding it again and decoding that gives the same object: one encoding is enough
  to normalise any accepted input.
\<close>

theorem bencode_decode_normalises:
  assumes "bencode_decode data = DObj obj" and "int (length data) \<le> LONG_MAX"
  shows "ben_wf obj \<and> bencode_decode (benc obj) = DObj obj"
  using bencode_decode_wf [OF assms] bencode_decode_benc by blast

text \<open>The recursion bound unfolded far enough for the concrete inputs below.\<close>

lemma bencode_decode_Cons:
  "bencode_decode (b # bs) =
     (case parse_value (Suc (Suc (Suc (Suc (2 * length bs))))) (b # bs) of
        PUb u \<Rightarrow> DUb u
      | PFuel \<Rightarrow> DNull
      | PUnknown \<Rightarrow> DNull
      | PNull None \<Rightarrow> DUb Ub_Uninit
      | PNull (Some _) \<Rightarrow> DNull
      | PNext obj next \<Rightarrow> if next = [] then DObj obj else DNull)"
proof -
  have "2 * length (b # bs) + 2 = Suc (Suc (Suc (Suc (2 * length bs))))" by simp
  then show ?thesis unfolding bencode_decode_def by presburger
qed

lemma decode_i007e: "bencode_decode (str ''i007e'') = DObj (BEN_INT 7)"
proof -
  have eq: "str ''i007e'' = [0x69, 0x30, 0x30, 0x37, 0x65]" by (simp add: str_Cons)
  have "parse_value (Suc n) [0x69, 0x30, 0x30, 0x37, 0x65] = PNext (BEN_INT 7) []" for n
    by (simp add: parse_int_def memchr_def strtol_def isdigit_def isspace_def digits_val_def
        digit_val_def clamp_long_def LONG_MIN_def LONG_MAX_def)
  note pv = this
  show ?thesis unfolding eq bencode_decode_Cons pv by simp
qed

theorem bencode_decode_normalises_witness:
  "bencode_decode (str ''i007e'') = DObj (BEN_INT 7)
     \<and> bencode_decode (benc (BEN_INT 7)) = DObj (BEN_INT 7)
     \<and> benc (BEN_INT 7) \<noteq> str ''i007e''"
proof -
  have len: "int (length (str ''i007e'')) \<le> LONG_MAX" by (simp add: LONG_MAX_def)
  have "benc (BEN_INT 7) \<noteq> str ''i007e''"
    by (simp add: str_Cons show_int_def show_dec_def show_base.simps digit_def)
  with bencode_decode_normalises [OF decode_i007e len] show ?thesis
    using decode_i007e by blast
qed

subsection \<open>Inputs on which the decoder leaves defined behaviour\<close>

text \<open>
  a dictionary cut off right after a key makes the decoder read one byte past the end of the
  input, whatever the key.
\<close>

theorem decode_cut_after_key:
  assumes "int (length key) \<le> LONG_MAX"
  shows "bencode_decode (c_d # show_dec (length key) @ c_colon # key) = DUb Ub_OobRead"
proof -
  obtain d ds where d: "show_dec (length key) = d # ds" "isdigit d" using show_dec_Cons by blast
  have "parse_string (show_dec (length key) @ c_colon # key @ []) = PNext (BEN_STRING key) []"
    using assms by (rule parse_string_enc)
  then show ?thesis
    using d digit_not_letter(1) [OF d(2)]
    by (simp add: bencode_decode_Cons digit_not_letter)
qed

theorem decode_cut_after_key_witness: "bencode_decode (str ''d1:a'') = DUb Ub_OobRead"
proof -
  have "int (length (str ''a'')) \<le> LONG_MAX" by (simp add: LONG_MAX_def)
  from decode_cut_after_key [OF this] show ?thesis
    by (simp add: str_Cons show_dec_def show_base.simps digit_def)
qed

text \<open>
  an input that starts like a string but has no colon makes \<open>bencode_decode\<close> free an object
  whose type was never stored.
\<close>

theorem decode_no_colon_frees_uninit:
  "isdigit b \<Longrightarrow> c_colon \<notin> set (b # bs) \<Longrightarrow> bencode_decode (b # bs) = DUb Ub_Uninit"
  by (simp add: bencode_decode_Cons parse_string_def memchr_None [THEN iffD2])

theorem decode_no_colon_frees_uninit_witness: "bencode_decode (str ''42'') = DUb Ub_Uninit"
  using decode_no_colon_frees_uninit [of "0x34" "[0x32]"] by (simp add: str_Cons isdigit_def)

lemma decode_empty: "bencode_decode [] = DUb Ub_OobRead"
  by (simp add: bencode_decode_def eval_nat_numeral)

subsection \<open>Dictionary lookup\<close>

lemma dict_get_not_dict: "\<forall>ps. d \<noteq> BEN_DICT ps \<Longrightarrow> bencode_dict_get d key = None"
  by (cases d) (auto simp: bencode_dict_get_def)

lemma dict_get_Nil: "bencode_dict_get (BEN_DICT []) key = None"
  by (simp add: bencode_dict_get_def)

lemma dict_get_Cons:
  "bencode_dict_get (BEN_DICT ((k, v) # ps)) key
     = (if strcmp_eq k key then Some v else bencode_dict_get (BEN_DICT ps) key)"
  by (simp add: bencode_dict_get_def)

lemma dict_get_map_of:
  assumes "\<forall>(k, v)\<in>set ps. c_nul \<notin> set k" and "c_nul \<notin> set key"
  shows "bencode_dict_get (BEN_DICT ps) key = map_of ps key"
  using assms
  by (induction ps) (auto simp: dict_get_Nil dict_get_Cons strcmp_eq_def cstr_id)

text \<open>A decoded dictionary entry is itself well-formed.\<close>

lemma dict_get_wf: "ben_wf d \<Longrightarrow> bencode_dict_get d key = Some v \<Longrightarrow> ben_wf v"
  by (cases d) (auto simp: bencode_dict_get_def find_Some_iff dest!: nth_mem)

subsection \<open>Release of an object\<close>

text \<open>
  \<open>bencode_free_internal\<close> as the list of the blocks it frees, in order: keys, item arrays and
  objects (string data belong to the input buffer). \<open>bencode_blocks\<close> is what the parser
  allocated for the object, apart from the object itself.
\<close>

datatype ben_block = BlkKey bytes | BlkItems nat | BlkPairs nat | BlkObj

fun bencode_free_internal :: "ben_obj \<Rightarrow> bool \<Rightarrow> ben_block list" where
  "bencode_free_internal (BEN_STRING s) free_self = (if free_self then [BlkObj] else [])"
| "bencode_free_internal (BEN_INT i) free_self = (if free_self then [BlkObj] else [])"
| "bencode_free_internal (BEN_LIST items) free_self =
     concat (map (\<lambda>x. bencode_free_internal x False) items) @ [BlkItems (length items)]
     @ (if free_self then [BlkObj] else [])"
| "bencode_free_internal (BEN_DICT pairs) free_self =
     concat (map (\<lambda>p. BlkKey (fst p) # bencode_free_internal (snd p) True) pairs)
     @ [BlkPairs (length pairs)] @ (if free_self then [BlkObj] else [])"

definition bencode_free :: "ben_obj option \<Rightarrow> ben_block list" where
  "bencode_free obj = (case obj of None \<Rightarrow> [] | Some x \<Rightarrow> bencode_free_internal x True)"

end
