(* ===== verification/Torrent.thy ===== *)
theory Torrent
  imports Bencode
begin

text \<open>
  FINAL/src/torrent.c: the metainfo of a torrent, its extraction from a decoded file, the size
  of a piece and the check of a piece against its hash. \<open>SHA1\<close> (OpenSSL) is the parameter
  \<open>sha1\<close>. A path component or a name keeps the bytes of the bencode string; where the code uses
  it as a C string, it stops at the first zero (\<open>cstr\<close>).
\<close>

subsection \<open>State\<close>

text \<open>\<open>f_path\<close> is \<open>None\<close> while the pointer is \<open>NULL\<close>; \<open>path_len\<close> is its length.\<close>

record file_t =
  f_path :: "bytes list option"
  f_length :: nat

record torrent_t =
  t_announce :: "bytes option"
  t_comment :: "bytes option"
  t_creation_date :: int
  t_created_by :: "bytes option"
  t_info_hash :: bytes
  t_name :: "bytes option"
  t_piece_length :: nat
  t_num_pieces :: nat
  t_pieces :: "bytes option"
  t_files :: "file_t list"
  t_total_length :: nat

text \<open>\<open>memset (tor, 0, sizeof (torrent_t))\<close>; \<open>file_count\<close> is the length of \<open>t_files\<close>.\<close>

definition torrent_zero :: torrent_t where
  "torrent_zero = \<lparr>t_announce = None, t_comment = None, t_creation_date = 0, t_created_by = None,
     t_info_hash = replicate 20 0, t_name = None, t_piece_length = 0, t_num_pieces = 0,
     t_pieces = None, t_files = [], t_total_length = 0\<rparr>"

subsection \<open>Release\<close>

text \<open>The blocks handed to \<open>free\<close>, in order.\<close>

datatype tor_block =
  TbStr bytes | TbPieces bytes | TbPathStr bytes | TbPathArr nat | TbFiles nat

definition free_str_array :: "bytes list option \<Rightarrow> tor_block list" where
  "free_str_array arr =
     (case arr of None \<Rightarrow> [] | Some ss \<Rightarrow> map TbPathStr ss @ [TbPathArr (length ss)])"

definition free_file :: "file_t \<Rightarrow> tor_block list" where
  "free_file f = free_str_array (f_path f)"

definition free_files :: "file_t list \<Rightarrow> tor_block list" where
  "free_files fs = (if fs = [] then [] else concat (map free_file fs) @ [TbFiles (length fs)])"

definition torrent_free :: "torrent_t \<Rightarrow> tor_block list \<times> torrent_t" where
  "torrent_free tor =
     (let s = (\<lambda>x. case x of None \<Rightarrow> [] | Some b \<Rightarrow> [TbStr b])
      in (s (t_announce tor) @ s (t_comment tor) @ s (t_created_by tor) @ s (t_name tor)
          @ (case t_pieces tor of None \<Rightarrow> [] | Some b \<Rightarrow> [TbPieces b])
          @ free_files (t_files tor), torrent_zero))"

subsection \<open>Loading\<close>

definition str_from_bencode :: "ben_obj option \<Rightarrow> bytes option" where
  "str_from_bencode obj = (case obj of Some (BEN_STRING s) \<Rightarrow> Some s | _ \<Rightarrow> None)"

fun path_items :: "ben_obj list \<Rightarrow> bytes list \<Rightarrow> bytes list option" where
  "path_items [] path = Some path"
| "path_items (item # items) path =
     (case str_from_bencode (Some item) of
        None \<Rightarrow> None
      | Some s \<Rightarrow> path_items items (path @ [s]))"

definition parse_path_list :: "ben_obj option \<Rightarrow> bytes list option" where
  "parse_path_list list = (case list of Some (BEN_LIST items) \<Rightarrow> path_items items [] | _ \<Rightarrow> None)"

text \<open>
  The loop over \<open>files\<close>: \<open>i\<close> is the index, \<open>tor\<close> the torrent under construction; \<open>Inl\<close> is the
  torrent at the point of a failure, which the caller releases.
\<close>

fun load_files :: "nat \<Rightarrow> ben_obj list \<Rightarrow> torrent_t \<Rightarrow> torrent_t + torrent_t" where
  "load_files i [] tor = Inr tor"
| "load_files i (file_dict # rest) tor =
     (case file_dict of
        BEN_DICT _ \<Rightarrow>
          (case bencode_dict_get file_dict (str ''length'') of
             Some (BEN_INT n) \<Rightarrow>
               (let file_len = u64_of n;
                    tor1 = tor\<lparr>t_files := (t_files tor)[i := (t_files tor ! i)\<lparr>f_length := file_len\<rparr>],
                               t_total_length := (t_total_length tor + file_len) mod 2 ^ 64\<rparr>
                in case bencode_dict_get file_dict (str ''path'') of
                     Some (BEN_LIST items) \<Rightarrow>
                       (case parse_path_list (Some (BEN_LIST items)) of
                          None \<Rightarrow> Inl tor1
                        | Some path \<Rightarrow>
                            load_files (Suc i) rest
                              (tor1\<lparr>t_files := (t_files tor1)[i := (t_files tor1 ! i)\<lparr>f_path := Some path\<rparr>]\<rparr>))
                   | _ \<Rightarrow> Inl tor1)
           | _ \<Rightarrow> Inl tor)
      | _ \<Rightarrow> Inl tor)"

definition file_zero :: file_t where
  "file_zero = \<lparr>f_path = None, f_length = 0\<rparr>"

text \<open>The keys of the root dictionary before \<open>info\<close>.\<close>

definition load_root_fields :: "ben_obj \<Rightarrow> torrent_t \<Rightarrow> torrent_t" where
  "load_root_fields root tor =
     tor\<lparr>t_announce := str_from_bencode (bencode_dict_get root (str ''announce'')),
         t_comment := str_from_bencode (bencode_dict_get root (str ''comment'')),
         t_creation_date := bencode_int_value (bencode_dict_get root (str ''creation date'')),
         t_created_by := str_from_bencode (bencode_dict_get root (str ''created by''))\<rparr>"

text \<open>The \<open>info\<close> dictionary, after its hash; \<open>num_pieces\<close> is a \<open>uint32_t\<close>.\<close>

definition load_pieces :: "ben_obj \<Rightarrow> torrent_t \<Rightarrow> torrent_t + torrent_t" where
  "load_pieces info tor0 =
     (let tor = tor0\<lparr>t_name := str_from_bencode (bencode_dict_get info (str ''name'')),
                     t_piece_length := (case bencode_dict_get info (str ''piece length'') of
                                          Some (BEN_INT n) \<Rightarrow> u32_of n
                                        | _ \<Rightarrow> t_piece_length tor0)\<rparr>
      in case bencode_dict_get info (str ''pieces'') of
           Some (BEN_STRING pcs) \<Rightarrow>
             if length pcs mod 20 \<noteq> 0 then Inl tor
             else Inr (tor\<lparr>t_num_pieces := u32_of (int (length pcs div 20)), t_pieces := Some pcs\<rparr>)
         | _ \<Rightarrow> Inr tor)"

definition load_layout :: "ben_obj \<Rightarrow> torrent_t \<Rightarrow> torrent_t + torrent_t" where
  "load_layout info tor =
     (case bencode_dict_get info (str ''files'') of
        Some (BEN_LIST fs) \<Rightarrow>
          load_files 0 fs (tor\<lparr>t_files := replicate (length fs) file_zero, t_total_length := 0\<rparr>)
      | _ \<Rightarrow>
          (case bencode_dict_get info (str ''length'') of
             Some (BEN_INT n) \<Rightarrow>
               Inr (tor\<lparr>t_total_length := u64_of n,
                        t_files := [\<lparr>f_path = Some [case t_name tor of
                                                    Some nm \<Rightarrow> cstr nm | None \<Rightarrow> str ''unknown''],
                                     f_length = u64_of n\<rparr>]\<rparr>)
           | _ \<Rightarrow> Inl tor))"

text \<open>\<open>Inl\<close>: undefined behaviour; \<open>Inr (ret, tor)\<close>: the return value and the structure.\<close>

definition torrent_load_from_memory ::
  "(bytes \<Rightarrow> bytes) \<Rightarrow> bytes \<Rightarrow> ub + (int \<times> torrent_t)" where
  "torrent_load_from_memory sha1 data =
     (let failure = (\<lambda>tor. Inr (- 1, snd (torrent_free tor)))
      in case bencode_decode data of
           DUb u \<Rightarrow> Inl u
         | DNull \<Rightarrow> Inr (- 1, torrent_zero)
         | DObj root \<Rightarrow>
             (case root of
                BEN_DICT _ \<Rightarrow>
                  (let tor = load_root_fields root torrent_zero
                   in case bencode_dict_get root (str ''info'') of
                        Some (BEN_DICT ps) \<Rightarrow>
                          (let info = BEN_DICT ps;
                               tor = tor\<lparr>t_info_hash := sha1 (bencode_encode info)\<rparr>
                           in case load_pieces info tor of
                                Inl t \<Rightarrow> failure t
                              | Inr t \<Rightarrow>
                                  (case load_layout info t of
                                     Inl t' \<Rightarrow> failure t'
                                   | Inr t' \<Rightarrow> Inr (0, t')))
                      | _ \<Rightarrow> failure tor)
              | _ \<Rightarrow> Inr (- 1, torrent_zero)))"

text \<open>\<open>torrent_load\<close>: \<open>read_file\<close> gives the contents, or nothing on an error or an empty file.\<close>

definition torrent_load ::
  "(bytes \<Rightarrow> bytes) \<Rightarrow> (bytes \<Rightarrow> bytes option) \<Rightarrow> bytes \<Rightarrow> torrent_t \<Rightarrow> ub + (int \<times> torrent_t)" where
  "torrent_load sha1 read_file filename tor =
     (case read_file filename of
        None \<Rightarrow> Inr (- 1, tor)
      | Some data \<Rightarrow> if data = [] then Inr (- 1, tor) else torrent_load_from_memory sha1 data)"

subsection \<open>Pieces\<close>

text \<open>
  \<open>tor->num_pieces - 1\<close> is unsigned, so it wraps for a torrent without pieces; the remainder by
  a zero piece length traps.
\<close>

definition piece_size :: "torrent_t \<Rightarrow> nat \<Rightarrow> ub + nat" where
  "piece_size tor index =
     (let last_index = (t_num_pieces tor + (2 ^ 32 - 1)) mod 2 ^ 32
      in if index < last_index then Inr (t_piece_length tor)
         else if index = last_index then
           (if t_piece_length tor = 0 then Inl Ub_DivZero
            else let last = t_total_length tor mod t_piece_length tor
                 in Inr (if last \<noteq> 0 then last else t_piece_length tor))
         else Inr 0)"

definition expected_hash :: "torrent_t \<Rightarrow> nat \<Rightarrow> bytes" where
  "expected_hash tor index =
     take 20 (drop (index * 20 mod 2 ^ 32) (case t_pieces tor of Some p \<Rightarrow> p | None \<Rightarrow> []))"

definition verify_piece :: "(bytes \<Rightarrow> bytes) \<Rightarrow> torrent_t \<Rightarrow> nat \<Rightarrow> bytes \<Rightarrow> ub + bool" where
  "verify_piece sha1 tor index data =
     (if t_num_pieces tor \<le> index then Inr False
      else case piece_size tor index of
             Inl u \<Rightarrow> Inl u
           | Inr len \<Rightarrow>
               if length data < len then Inl Ub_OobRead
               else Inr (sha1 (take len data) = expected_hash tor index))"

subsection \<open>What a loaded torrent satisfies\<close>

definition torrent_ok :: "torrent_t \<Rightarrow> bool" where
  "torrent_ok tor \<longleftrightarrow>
     t_total_length tor = (\<Sum>f\<leftarrow>t_files tor. f_length f) mod 2 ^ 64
     \<and> (\<forall>f\<in>set (t_files tor). f_path f \<noteq> None \<and> f_length f < 2 ^ 64)
     \<and> t_piece_length tor < 2 ^ 32
     \<and> (case t_pieces tor of
          None \<Rightarrow> t_num_pieces tor = 0
        | Some p \<Rightarrow> length p mod 20 = 0 \<and> t_num_pieces tor = (length p div 20) mod 2 ^ 32)"

text \<open>The part of it the file loop establishes: files below \<open>i\<close> are complete.\<close>

definition files_upto :: "nat \<Rightarrow> torrent_t \<Rightarrow> bool" where
  "files_upto i tor \<longleftrightarrow>
     t_total_length tor = (\<Sum>f\<leftarrow>take i (t_files tor). f_length f) mod 2 ^ 64
     \<and> (\<forall>f\<in>set (take i (t_files tor)). f_path f \<noteq> None \<and> f_length f < 2 ^ 64)"

lemma files_upto_Suc:
  assumes "files_upto i tor" and "i < length (t_files tor)" and "n < 2 ^ 64"
  shows "files_upto (Suc i)
    (tor\<lparr>t_total_length := (t_total_length tor + n) mod 2 ^ 64,
         t_files := (t_files tor)[i := \<lparr>f_path = Some path, f_length = n\<rparr>]\<rparr>)"
  using assms
  by (auto simp: files_upto_def take_Suc_conv_app_nth mod_add_left_eq)

lemma load_files_Cons:
  assumes "load_files i (fd # rest) tor = Inr tor'" and "i < length (t_files tor)"
  obtains n path where "n < 2 ^ 64"
    and "load_files (Suc i) rest
      (tor\<lparr>t_total_length := (t_total_length tor + n) mod 2 ^ 64,
           t_files := (t_files tor)[i := \<lparr>f_path = Some path, f_length = n\<rparr>]\<rparr>) = Inr tor'"
proof -
  obtain n path where
    "load_files (Suc i) rest
      (tor\<lparr>t_total_length := (t_total_length tor + u64_of n) mod 2 ^ 64,
           t_files := (t_files tor)[i := (t_files tor ! i)\<lparr>f_length := u64_of n, f_path := Some path\<rparr>]\<rparr>)
     = Inr tor'"
    using assms by (auto simp: Let_def split: ben_obj.splits option.splits)
  moreover have "(t_files tor ! i)\<lparr>f_length := u64_of n, f_path := Some path\<rparr>
      = \<lparr>f_path = Some path, f_length = u64_of n\<rparr>"
    by (cases "t_files tor ! i") simp
  ultimately show ?thesis using that [of "u64_of n" path] by simp
qed

lemma load_files_upto:
  "load_files i fds tor = Inr tor' \<Longrightarrow> files_upto i tor \<Longrightarrow> i + length fds = length (t_files tor) \<Longrightarrow>
     files_upto (length (t_files tor')) tor' \<and> length (t_files tor') = length (t_files tor)
     \<and> t_piece_length tor' = t_piece_length tor \<and> t_num_pieces tor' = t_num_pieces tor
     \<and> t_pieces tor' = t_pieces tor \<and> t_info_hash tor' = t_info_hash tor"
proof (induction fds arbitrary: i tor)
  case Nil
  then show ?case by auto
next
  case (Cons fd fds)
  have i: "i < length (t_files tor)" using Cons.prems(3) by simp
  obtain n path where n: "n < 2 ^ 64" and l: "load_files (Suc i) fds
      (tor\<lparr>t_total_length := (t_total_length tor + n) mod 2 ^ 64,
           t_files := (t_files tor)[i := \<lparr>f_path = Some path, f_length = n\<rparr>]\<rparr>) = Inr tor'"
    using load_files_Cons [OF Cons.prems(1) i] by blast
  from Cons.IH [OF l files_upto_Suc [OF Cons.prems(2) i n]] Cons.prems(3) show ?case by auto
qed

lemma load_layout_ok:
  assumes "load_layout info tor = Inr tor'"
  shows "files_upto (length (t_files tor')) tor' \<and> t_piece_length tor' = t_piece_length tor
    \<and> t_num_pieces tor' = t_num_pieces tor \<and> t_pieces tor' = t_pieces tor
    \<and> t_info_hash tor' = t_info_hash tor"
proof (cases "\<exists>fs. bencode_dict_get info (str ''files'') = Some (BEN_LIST fs)")
  case True
  then obtain fs where "bencode_dict_get info (str ''files'') = Some (BEN_LIST fs)" by blast
  with assms have l: "load_files 0 fs
      (tor\<lparr>t_files := replicate (length fs) file_zero, t_total_length := 0\<rparr>) = Inr tor'"
    by (simp add: load_layout_def)
  from load_files_upto [OF l] show ?thesis by (simp add: files_upto_def)
next
  case False
  with assms show ?thesis
    by (auto simp: load_layout_def files_upto_def split: option.splits ben_obj.splits)
qed

lemma load_pieces_ok:
  assumes "load_pieces info tor = Inr tor'" and "t_pieces tor = None" and "t_num_pieces tor = 0"
    and "t_piece_length tor < 2 ^ 32"
  shows "t_piece_length tor' < 2 ^ 32 \<and> t_info_hash tor' = t_info_hash tor
    \<and> (case t_pieces tor' of
         None \<Rightarrow> t_num_pieces tor' = 0
       | Some p \<Rightarrow> length p mod 20 = 0 \<and> t_num_pieces tor' = (length p div 20) mod 2 ^ 32)"
proof -
  have "u32_of (int n) = n mod 2 ^ 32" for n
    by (simp add: u32_of_def nat_mod_distrib)
  then show ?thesis
    using assms by (auto simp: load_pieces_def Let_def split: option.splits ben_obj.splits if_splits)
qed

text \<open>The three ways out of a load.\<close>

lemma load_cases:
  assumes "torrent_load_from_memory sha1 data = Inr (ret, tor)"
  obtains (bad) "ret = - 1" "tor = torrent_zero"
  | (good) ps info t1 where "ret = 0" "bencode_decode data = DObj (BEN_DICT ps)"
      "bencode_dict_get (BEN_DICT ps) (str ''info'') = Some (BEN_DICT info)"
      "load_pieces (BEN_DICT info) ((load_root_fields (BEN_DICT ps) torrent_zero)
         \<lparr>t_info_hash := sha1 (bencode_encode (BEN_DICT info))\<rparr>) = Inr t1"
      "load_layout (BEN_DICT info) t1 = Inr tor"
  using assms
  by (auto simp: torrent_load_from_memory_def torrent_free_def Let_def
      split: decode_res.splits ben_obj.splits option.splits sum.splits)

text \<open>
  C9: a load either fails with -1 and leaves the structure zeroed, or succeeds with 0 and a
  consistent torrent: the total is the sum of the file lengths (as \<open>uint64_t\<close>), every file has a
  path, the hashes come in whole pieces; and the info hash is the hash of the canonical encoding
  of the \<open>info\<close> dictionary.
\<close>

theorem torrent_load_result:
  assumes "torrent_load_from_memory sha1 data = Inr (ret, tor)"
    and "int (length data) \<le> LONG_MAX"
  shows "ret = - 1 \<and> tor = torrent_zero
    \<or> ret = 0 \<and> torrent_ok tor
      \<and> (\<exists>ps info. bencode_decode data = DObj (BEN_DICT ps)
            \<and> bencode_dict_get (BEN_DICT ps) (str ''info'') = Some (BEN_DICT info)
            \<and> t_info_hash tor = sha1 (benc (BEN_DICT info)))"
  using assms(1)
proof (cases rule: load_cases)
  case (good ps info t1)
  have "ben_wf (BEN_DICT ps)" using bencode_decode_wf [OF good(2) assms(2)] .
  then have "ben_wf (BEN_DICT info)" using good(3) by (rule dict_get_wf)
  then have enc: "bencode_encode (BEN_DICT info) = benc (BEN_DICT info)"
    by (rule bencode_encode_benc)
  have "torrent_ok tor \<and> t_info_hash tor = sha1 (benc (BEN_DICT info))"
    using load_pieces_ok [OF good(4)] load_layout_ok [OF good(5)] enc
    by (auto simp: torrent_ok_def files_upto_def load_root_fields_def torrent_zero_def
        split: option.splits)
  with good show ?thesis by blast
qed simp

theorem torrent_load_result_witness:
  "torrent_load_from_memory (\<lambda>_. []) (benc (BEN_DICT [(str ''info'', BEN_DICT [(str ''length'', BEN_INT 7)])]))
     = Inr (0, torrent_zero\<lparr>t_info_hash := [], t_total_length := 7,
                 t_files := [\<lparr>f_path = Some [str ''unknown''], f_length = 7\<rparr>]\<rparr>)
   \<and> torrent_ok (torrent_zero\<lparr>t_info_hash := [], t_total_length := 7,
                 t_files := [\<lparr>f_path = Some [str ''unknown''], f_length = 7\<rparr>]\<rparr>)"
  (is "?load = Inr (0, ?tor) \<and> _")
proof -
  let ?root = "BEN_DICT [(str ''info'', BEN_DICT [(str ''length'', BEN_INT 7)])]"
  have wf: "ben_wf ?root" by (simp add: LONG_MIN_def LONG_MAX_def)
  have load: "?load = Inr (0, ?tor)"
    by (simp add: torrent_load_from_memory_def bencode_decode_benc [OF wf] load_root_fields_def
        load_pieces_def load_layout_def dict_get_Cons dict_get_Nil str_eq str_from_bencode_def
        bencode_int_value_def torrent_zero_def u64_of_def Let_def del: benc.simps)
  have "length (benc ?root) \<le> 100"
    by (simp add: show_dec_def show_int_def show_base.simps digit_def)
  then have len: "int (length (benc ?root)) \<le> LONG_MAX" by (simp add: LONG_MAX_def del: benc.simps)
  have "torrent_ok ?tor" using torrent_load_result [OF load len] by simp
  with load show ?thesis by blast
qed

subsection \<open>Loading what a tracker site would write\<close>

text \<open>The canonical metainfo of a torrent with several files: keys in order.\<close>

definition ben_file :: "nat \<times> bytes list \<Rightarrow> ben_obj" where
  "ben_file lp = BEN_DICT [(str ''length'', BEN_INT (int (fst lp))),
                           (str ''path'', BEN_LIST (map BEN_STRING (snd lp)))]"

definition ben_info :: "(nat \<times> bytes list) list \<Rightarrow> bytes \<Rightarrow> nat \<Rightarrow> bytes \<Rightarrow> ben_obj" where
  "ben_info fs nm pl pcs =
     BEN_DICT [(str ''files'', BEN_LIST (map ben_file fs)), (str ''name'', BEN_STRING nm),
               (str ''piece length'', BEN_INT (int pl)), (str ''pieces'', BEN_STRING pcs)]"

definition metainfo :: "bytes \<Rightarrow> (nat \<times> bytes list) list \<Rightarrow> bytes \<Rightarrow> nat \<Rightarrow> bytes \<Rightarrow> ben_obj" where
  "metainfo ann fs nm pl pcs =
     BEN_DICT [(str ''announce'', BEN_STRING ann), (str ''info'', ben_info fs nm pl pcs)]"

definition torrent_of :: "(bytes \<Rightarrow> bytes) \<Rightarrow> bytes \<Rightarrow> (nat \<times> bytes list) list \<Rightarrow> bytes \<Rightarrow> nat \<Rightarrow> bytes \<Rightarrow> torrent_t" where
  "torrent_of sha1 ann fs nm pl pcs =
     \<lparr>t_announce = Some ann, t_comment = None, t_creation_date = 0, t_created_by = None,
      t_info_hash = sha1 (benc (ben_info fs nm pl pcs)), t_name = Some nm, t_piece_length = pl,
      t_num_pieces = length pcs div 20, t_pieces = Some pcs,
      t_files = map (\<lambda>(n, p). \<lparr>f_path = Some p, f_length = n\<rparr>) fs,
      t_total_length = (\<Sum>f\<leftarrow>fs. fst f)\<rparr>"

lemma path_items_strings: "path_items (map BEN_STRING ss) path = Some (path @ ss)"
  by (induction ss arbitrary: path) (simp_all add: str_from_bencode_def)

lemma load_files_enc:
  assumes "(\<Sum>f\<leftarrow>done_fs @ fs. fst f) < 2 ^ 64"
  shows "load_files (length done_fs) (map ben_file fs)
      (tor\<lparr>t_total_length := \<Sum>f\<leftarrow>done_fs. fst f,
           t_files := map (\<lambda>(n, p). \<lparr>f_path = Some p, f_length = n\<rparr>) done_fs
                       @ replicate (length fs) file_zero\<rparr>)
    = Inr (tor\<lparr>t_total_length := \<Sum>f\<leftarrow>done_fs @ fs. fst f,
               t_files := map (\<lambda>(n, p). \<lparr>f_path = Some p, f_length = n\<rparr>) (done_fs @ fs)\<rparr>)"
  using assms
proof (induction fs arbitrary: done_fs)
  case Nil
  then show ?case by simp
next
  case (Cons f fs)
  obtain n p where f: "f = (n, p)" by (cases f)
  have n: "u64_of (int n) = n" using Cons.prems f by (simp add: u64_of_id)
  from Cons.IH [of "done_fs @ [f]"] Cons.prems show ?case
    by (simp add: f ben_file_def dict_get_Cons str_eq Let_def n parse_path_list_def
        path_items_strings list_update_append nth_append file_zero_def)
qed

definition metainfo_ok :: "bytes \<Rightarrow> (nat \<times> bytes list) list \<Rightarrow> bytes \<Rightarrow> nat \<Rightarrow> bytes \<Rightarrow> bool" where
  "metainfo_ok ann fs nm pl pcs \<longleftrightarrow>
     (\<Sum>f\<leftarrow>fs. fst f) < 2 ^ 63 \<and> pl < 2 ^ 32 \<and> length pcs mod 20 = 0 \<and> length pcs div 20 < 2 ^ 32
     \<and> int (length ann) \<le> LONG_MAX \<and> int (length nm) \<le> LONG_MAX
     \<and> (\<forall>f\<in>set fs. \<forall>c\<in>set (snd f). int (length c) \<le> LONG_MAX)"

lemma metainfo_wf: "metainfo_ok ann fs nm pl pcs \<Longrightarrow> ben_wf (metainfo ann fs nm pl pcs)"
proof -
  assume ok: "metainfo_ok ann fs nm pl pcs"
  have "n \<le> (\<Sum>f\<leftarrow>fs. fst f)" if "(n, p) \<in> set fs" for n p
    using member_le_sum_list [of n "map fst fs"] that by force
  with ok have fs: "n < 2 ^ 63" if "(n, p) \<in> set fs" for n p
    using that by (fastforce simp: metainfo_ok_def)
  have "length pcs = 20 * (length pcs div 20)" using ok by (auto simp: metainfo_ok_def)
  moreover have "length pcs div 20 < 2 ^ 32" using ok by (simp only: metainfo_ok_def)
  ultimately have "length pcs < 2 ^ 37" by simp
  with ok fs show ?thesis
    by (fastforce simp: metainfo_ok_def metainfo_def ben_info_def ben_file_def LONG_MIN_def
        LONG_MAX_def)
qed

lemma load_metainfo:
  assumes "metainfo_ok ann fs nm pl pcs"
  shows "torrent_load_from_memory sha1 (benc (metainfo ann fs nm pl pcs))
    = Inr (0, torrent_of sha1 ann fs nm pl pcs)"
proof -
  note wf = metainfo_wf [OF assms]
  then have iwf: "ben_wf (ben_info fs nm pl pcs)" by (simp add: metainfo_def)
  have u: "u32_of (int pl) = pl" "u32_of (int (length pcs div 20)) = length pcs div 20"
    "length pcs mod 20 = 0"
    using assms by (simp_all add: metainfo_ok_def u32_of_id del: of_nat_div)
  have tot: "(\<Sum>f\<leftarrow>fs. fst f) < 2 ^ 64" using assms by (simp add: metainfo_ok_def)
  have lf: "load_files 0 (map ben_file fs) tor
      = Inr (tor\<lparr>t_total_length := \<Sum>f\<leftarrow>fs. fst f,
                 t_files := map (\<lambda>(n, p). \<lparr>f_path = Some p, f_length = n\<rparr>) fs\<rparr>)"
    if "t_files tor = replicate (length fs) file_zero" "t_total_length tor = 0" for tor
  proof -
    have "tor\<lparr>t_total_length := 0, t_files := replicate (length fs) file_zero\<rparr> = tor"
      using that by (cases tor) simp
    then show ?thesis using load_files_enc [of "[]" fs tor] tot by simp
  qed
  show ?thesis
    using u tot bencode_encode_benc [OF iwf] bencode_decode_benc [OF wf] assms
    by (simp add: torrent_load_from_memory_def metainfo_def ben_info_def load_root_fields_def
        load_pieces_def load_layout_def dict_get_Cons dict_get_Nil str_eq str_from_bencode_def
        bencode_int_value_def lf torrent_of_def torrent_zero_def Let_def
        del: benc.simps of_nat_div)
qed

text \<open>
  C20: loading the canonical encoding of a metainfo yields exactly its fields, for every announce
  URL, file list, name, piece length and hash string within the widths of the structure.
\<close>

theorem torrent_load_metainfo:
  assumes "metainfo_ok ann fs nm pl pcs"
  shows "torrent_load_from_memory sha1 (benc (metainfo ann fs nm pl pcs))
    = Inr (0, torrent_of sha1 ann fs nm pl pcs)"
  using assms by (rule load_metainfo)

theorem torrent_load_metainfo_witness:
  "torrent_load_from_memory (\<lambda>b. take 20 b)
     (benc (metainfo (str ''http://t/a'') [(3, [str ''d'', str ''x'']), (0, [str ''y''])] (str ''n'') 2
              (replicate 40 7)))
   = Inr (0, torrent_of (\<lambda>b. take 20 b) (str ''http://t/a'') [(3, [str ''d'', str ''x'']), (0, [str ''y''])]
              (str ''n'') 2 (replicate 40 7))"
  by (rule torrent_load_metainfo) (simp add: metainfo_ok_def LONG_MAX_def)

text \<open>
  the info hash is taken from a re-encoding, so a file whose \<open>info\<close> is accepted but not
  canonical gets the hash of bytes that do not occur in it: here the hash of \<open>6:lengthi7e\<close> for
  a file with \<open>6:lengthi007e\<close>.
\<close>

theorem info_hash_not_of_file_bytes:
  "\<exists>tor. torrent_load_from_memory sha1 (str ''d4:infod6:lengthi007eee'') = Inr (0, tor)
     \<and> t_info_hash tor = sha1 (str ''d6:lengthi7ee'')"
proof -
  have eq: "str ''d4:infod6:lengthi007eee'' = [0x64, 0x34, 0x3A, 0x69, 0x6E, 0x66, 0x6F, 0x64, 0x36,
      0x3A, 0x6C, 0x65, 0x6E, 0x67, 0x74, 0x68, 0x69, 0x30, 0x30, 0x37, 0x65, 0x65, 0x65]"
    by (simp add: str_Cons)
  let ?i = "BEN_DICT [(str ''length'', BEN_INT 7)]"
  have enc: "bencode_encode ?i = str ''d6:lengthi7ee''"
    by (subst bencode_encode_benc)
      (simp_all add: LONG_MIN_def LONG_MAX_def show_dec_def show_int_def show_base.simps digit_def
        str_Cons)
  have pi: "parse_int (0x69 # 0x30 # 0x30 # 0x37 # 0x65 # r) = PNext (BEN_INT 7) r" for r
    by (simp add: parse_int_def memchr_def strtol_def isdigit_def isspace_def digits_val_def
        digit_val_def clamp_long_def LONG_MIN_def LONG_MAX_def)
  have pv: "parse_value (Suc (Suc (Suc (Suc (Suc (Suc n)))))) [0x64, 0x34, 0x3A, 0x69, 0x6E, 0x66,
      0x6F, 0x64, 0x36, 0x3A, 0x6C, 0x65, 0x6E, 0x67, 0x74, 0x68, 0x69, 0x30, 0x30, 0x37, 0x65,
      0x65, 0x65] = PNext (BEN_DICT [(str ''info'', ?i)]) []" for n
    by (simp add: pi isdigit_def isspace_def parse_string_def memchr_def strtol_def digits_val_def
        digit_val_def clamp_long_def LONG_MIN_def LONG_MAX_def str_Cons)
  have dec: "bencode_decode (str ''d4:infod6:lengthi007eee'') = DObj (BEN_DICT [(str ''info'', ?i)])"
    unfolding eq by (simp add: bencode_decode_def pv [of 42, simplified])
  show ?thesis
    by (simp add: torrent_load_from_memory_def dec enc load_root_fields_def load_pieces_def
        load_layout_def dict_get_Cons dict_get_Nil str_eq str_from_bencode_def torrent_zero_def
        Let_def)
qed

subsection \<open>The pieces of a torrent\<close>

definition piece_len :: "torrent_t \<Rightarrow> nat \<Rightarrow> nat" where
  "piece_len tor i = (case piece_size tor i of Inl _ \<Rightarrow> 0 | Inr n \<Rightarrow> n)"

text \<open>As many pieces as the total length needs.\<close>

definition geometry_ok :: "torrent_t \<Rightarrow> bool" where
  "geometry_ok tor \<longleftrightarrow> 0 < t_piece_length tor
     \<and> t_num_pieces tor = (t_total_length tor + t_piece_length tor - 1) div t_piece_length tor"

lemma last_index: "0 < n \<Longrightarrow> n < 2 ^ 32 \<Longrightarrow> (n + (2 ^ 32 - 1)) mod 2 ^ 32 = n - (1 :: nat)"
  by (metis (no_types, lifting) Nat.add_diff_assoc2 One_nat_def Suc_leI add.commute le_add1
      less_imp_diff_less mod_add_self1 mod_less one_le_numeral one_le_power
      ordered_cancel_comm_monoid_diff_class.add_diff_assoc)

lemma piece_size_cases:
  assumes "0 < t_piece_length tor" and "i < t_num_pieces tor" and "t_num_pieces tor < 2 ^ 32"
  shows "piece_size tor i = Inr (piece_len tor i)"
    and "piece_len tor i = (if Suc i < t_num_pieces tor then t_piece_length tor
           else if t_total_length tor mod t_piece_length tor = 0 then t_piece_length tor
           else t_total_length tor mod t_piece_length tor)"
  using assms last_index [of "t_num_pieces tor"]
  by (auto simp: piece_size_def piece_len_def Let_def)

lemma piece_len_bounds:
  assumes "0 < t_piece_length tor" and "i < t_num_pieces tor" and "t_num_pieces tor < 2 ^ 32"
  shows "0 < piece_len tor i" and "piece_len tor i \<le> t_piece_length tor"
  using piece_size_cases(2) [OF assms] assms(1) by (auto intro: less_imp_le)

lemma geometry_last:
  fixes t p n :: nat
  assumes "0 < p" and "n = (t + p - 1) div p" and "0 < n"
  shows "t = (n - 1) * p + (if t mod p = 0 then p else t mod p)"
proof (cases "t mod p = 0")
  case True
  then obtain k where k: "t = p * k" by auto
  have "(p * k + (p - 1)) div p = k + (p - 1) div p" using assms(1) by (intro div_mult_self4) simp
  moreover have "(p - 1) div p = 0" using assms(1) by (intro div_less) simp
  moreover have "p * k + p - 1 = p * k + (p - 1)" using assms(1) by simp
  ultimately have "n = k" using assms(2) k by (metis add.right_neutral)
  with k True assms(3) show ?thesis by (cases k) (simp_all add: algebra_simps)
next
  case False
  let ?q = "t div p" and ?r = "t mod p"
  have t: "t = ?q * p + ?r" by simp
  have "t + p - 1 = p * Suc ?q + (?r - 1)"
  proof -
    have "0 < ?r" using False by simp
    then have "t + p - 1 = ?q * p + p + (?r - 1)" using t by linarith
    then show ?thesis by (simp only: mult_Suc_right mult.commute [of ?q p] add.commute [of p])
  qed
  moreover have "(?r - 1) div p = 0"
    using assms(1) mod_less_divisor [of p t] by (intro div_less) linarith
  moreover have "(p * Suc ?q + (?r - 1)) div p = Suc ?q + (?r - 1) div p"
    using assms(1) by (intro div_mult_self4) simp
  ultimately have "n = Suc ?q" using assms(2) by (metis add.right_neutral)
  with False t show ?thesis by simp
qed

lemma piece_geometry:
  assumes "geometry_ok tor" and "i < t_num_pieces tor" and "t_num_pieces tor < 2 ^ 32"
  shows "i * t_piece_length tor + piece_len tor i = min (Suc i * t_piece_length tor) (t_total_length tor)"
proof -
  let ?p = "t_piece_length tor" and ?n = "t_num_pieces tor" and ?t = "t_total_length tor"
  have p: "0 < ?p" using assms(1) by (simp add: geometry_ok_def)
  have t: "?t = (?n - 1) * ?p + (if ?t mod ?p = 0 then ?p else ?t mod ?p)"
    using assms by (intro geometry_last) (auto simp: geometry_ok_def)
  note c = piece_size_cases [OF p assms(2,3)] and b = piece_len_bounds [OF p assms(2,3)]
  have "i * ?p + piece_len tor i = min (Suc i * ?p) ?t"
  proof (cases "Suc i < ?n")
    case True
    then have "Suc i * ?p \<le> (?n - 1) * ?p" by (intro mult_le_mono1) linarith
    also have "\<dots> \<le> ?t" using t by linarith
    finally show ?thesis using c(2) True by (simp add: min_def)
  next
    case False
    then have "i = ?n - 1" using assms(2) by simp
    then have "i * ?p + piece_len tor i = ?t" using c(2) False t by simp
    with b(2) show ?thesis by simp
  qed
  then show ?thesis .
qed

text \<open>
  with the right number of pieces, piece \<open>i\<close> is exactly the bytes of the stream from
  \<open>i * piece_length\<close> up to the next boundary or the end; no piece is empty.
\<close>

theorem piece_size_geometry:
  assumes "geometry_ok tor" and "i < t_num_pieces tor" and "t_num_pieces tor < 2 ^ 32"
  shows "\<exists>n. piece_size tor i = Inr n \<and> 0 < n
    \<and> i * t_piece_length tor + n = min (Suc i * t_piece_length tor) (t_total_length tor)"
proof -
  have p: "0 < t_piece_length tor" using assms(1) by (simp add: geometry_ok_def)
  from piece_size_cases(1) [OF p assms(2,3)] piece_len_bounds(1) [OF p assms(2,3)] piece_geometry [OF assms]
  show ?thesis by blast
qed

theorem piece_size_geometry_witness:
  "\<exists>n. piece_size (torrent_zero\<lparr>t_piece_length := 4, t_num_pieces := 3, t_total_length := 9\<rparr>) 2 = Inr n
     \<and> 0 < n \<and> 2 * 4 + n = min (Suc 2 * 4) 9"
  using piece_size_geometry [of "torrent_zero\<lparr>t_piece_length := 4, t_num_pieces := 3, t_total_length := 9\<rparr>" 2]
  by (simp add: geometry_ok_def)

lemma piece_sizes_sum_iff:
  assumes "0 < t_piece_length tor" and "0 < t_num_pieces tor" and "t_num_pieces tor < 2 ^ 32"
  shows "(\<Sum>i<t_num_pieces tor. piece_len tor i) = t_total_length tor \<longleftrightarrow> geometry_ok tor"
proof -
  let ?p = "t_piece_length tor" and ?n = "t_num_pieces tor" and ?t = "t_total_length tor"
  let ?last = "if ?t mod ?p = 0 then ?p else ?t mod ?p"
  obtain m where m: "?n = Suc m" using assms(2) by (cases ?n) auto
  have "(\<Sum>i<m. piece_len tor i) = (\<Sum>i<m. ?p)"
    using piece_size_cases(2) [OF assms(1) _ assms(3)] m by (intro sum.cong) auto
  then have sum: "(\<Sum>i<?n. piece_len tor i) = m * ?p + ?last"
    using piece_size_cases(2) [OF assms(1) _ assms(3), of m] m by simp
  have "geometry_ok tor" if "m * ?p + ?last = ?t"
  proof -
    have l: "0 < ?last" "?last \<le> ?p" using assms(1) by (auto intro: less_imp_le)
    have "(?last - 1 + ?p) div ?p = (?last - 1) div ?p + 1"
      using assms(1) by (intro div_add_self2) simp
    moreover have "(?last - 1) div ?p = 0" using l by (intro div_less) linarith
    ultimately have "(?last - 1 + ?p) div ?p = 1" by (simp only: add_0)
    moreover have "?t + ?p - 1 = ?p * m + (?last - 1 + ?p)"
      using that l(1) mult.commute [of ?p m] by linarith
    ultimately have "(?t + ?p - 1) div ?p = m + 1"
      using assms(1) by (simp only: div_mult_self4 [of ?p m] neq0_conv)
    with m assms(1) show ?thesis by (simp add: geometry_ok_def)
  qed
  moreover have "?t = m * ?p + ?last" if "geometry_ok tor"
    using geometry_last [OF assms(1) _ assms(2), of ?t] that m
    unfolding geometry_ok_def by (metis diff_Suc_1)
  ultimately show ?thesis using sum by auto
qed

lemma piece_sizes_sum_ok:
  "0 < t_piece_length tor \<Longrightarrow> 0 < t_num_pieces tor \<Longrightarrow> t_num_pieces tor < 2 ^ 32 \<Longrightarrow> geometry_ok tor \<Longrightarrow>
     (\<Sum>i<t_num_pieces tor. piece_len tor i) = t_total_length tor"
  by (simp add: piece_sizes_sum_iff)

lemma geometry_covers: "geometry_ok tor \<Longrightarrow> t_total_length tor \<le> t_num_pieces tor * t_piece_length tor"
proof (cases "t_num_pieces tor = 0")
  case True
  assume "geometry_ok tor"
  then have "t_total_length tor + t_piece_length tor - 1 < t_piece_length tor" "0 < t_piece_length tor"
    using True by (auto simp: geometry_ok_def div_eq_0_iff)
  then show ?thesis by simp
next
  case False
  assume g: "geometry_ok tor"
  then have p: "0 < t_piece_length tor" by (simp add: geometry_ok_def)
  then have "(if t_total_length tor mod t_piece_length tor = 0 then t_piece_length tor
      else t_total_length tor mod t_piece_length tor) \<le> t_piece_length tor" by (simp add: less_imp_le)
  moreover have "t_total_length tor = (t_num_pieces tor - 1) * t_piece_length tor
      + (if t_total_length tor mod t_piece_length tor = 0 then t_piece_length tor
         else t_total_length tor mod t_piece_length tor)"
    using g False by (intro geometry_last [OF p]) (simp_all only: geometry_ok_def neq0_conv)
  ultimately have "t_total_length tor \<le> (t_num_pieces tor - 1) * t_piece_length tor + t_piece_length tor"
    by linarith
  also have "\<dots> = t_num_pieces tor * t_piece_length tor"
    using False by (metis Suc_pred' add.commute mult_Suc neq0_conv)
  finally show ?thesis .
qed

text \<open>
  the sizes of the pieces add up to the total length exactly when there is the right number of
  them; nothing in the load checks that.
\<close>

theorem piece_sizes_sum:
  assumes "0 < t_piece_length tor" and "0 < t_num_pieces tor" and "t_num_pieces tor < 2 ^ 32"
  shows "(\<Sum>i<t_num_pieces tor. piece_len tor i) = t_total_length tor \<longleftrightarrow> geometry_ok tor"
  using assms by (rule piece_sizes_sum_iff)

theorem piece_sizes_sum_witness:
  "(\<Sum>i<3. piece_len (torrent_zero\<lparr>t_piece_length := 4, t_num_pieces := 3, t_total_length := 5\<rparr>) i) \<noteq> 5"
  using piece_sizes_sum [of "torrent_zero\<lparr>t_piece_length := 4, t_num_pieces := 3, t_total_length := 5\<rparr>"]
  by (simp add: geometry_ok_def)

text \<open>
  a torrent with a hash but a zero (or missing) piece length is accepted by the load, and
  asking for the size of its last piece divides by zero.
\<close>

theorem zero_piece_length_traps:
  assumes "metainfo_ok ann fs nm 0 pcs" and "pcs \<noteq> []"
  shows "\<exists>tor. torrent_load_from_memory sha1 (benc (metainfo ann fs nm 0 pcs)) = Inr (0, tor)
    \<and> piece_size tor (t_num_pieces tor - 1) = Inl Ub_DivZero"
proof -
  let ?tor = "torrent_of sha1 ann fs nm 0 pcs"
  have len: "length pcs mod 20 = 0" "length pcs div 20 < 2 ^ 32"
    using assms(1) by (simp_all only: metainfo_ok_def)
  have "0 < length pcs div 20"
    using assms(2) len(1) by (metis div_greater_zero_iff dvd_imp_le length_greater_0_conv
        mod_eq_0_iff_dvd zero_less_numeral)
  then have "piece_size ?tor (t_num_pieces ?tor - 1) = Inl Ub_DivZero"
    using last_index [of "length pcs div 20"] len(2)
    by (simp add: piece_size_def torrent_of_def Let_def)
  with load_metainfo [OF assms(1)] show ?thesis by blast
qed

theorem zero_piece_length_traps_witness:
  "\<exists>tor. torrent_load_from_memory (\<lambda>b. b)
           (benc (metainfo (str ''u'') [(1, [str ''f''])] (str ''n'') 0 (replicate 20 1))) = Inr (0, tor)
     \<and> piece_size tor (t_num_pieces tor - 1) = Inl Ub_DivZero"
  by (rule zero_piece_length_traps) (simp_all add: metainfo_ok_def LONG_MAX_def)

text \<open>
  \<open>verify_piece\<close> accepts exactly the pieces whose hash is the one the torrent lists at their
  index, for every index whose offset in the hash string fits \<open>uint32_t\<close>.
\<close>

theorem verify_piece_correct:
  assumes "t_pieces tor = Some pcs" and "20 * t_num_pieces tor \<le> 2 ^ 32"
    and "0 < t_piece_length tor"
  shows "verify_piece sha1 tor i data = Inr True \<longleftrightarrow>
    i < t_num_pieces tor \<and> piece_len tor i \<le> length data
    \<and> sha1 (take (piece_len tor i) data) = take 20 (drop (20 * i) pcs)"
proof (cases "i < t_num_pieces tor")
  case True
  have n: "t_num_pieces tor < 2 ^ 32" using assms(2) by simp
  have "i * 20 < 2 ^ 32" using assms(2) True by simp
  then have "expected_hash tor i = take 20 (drop (20 * i) pcs)"
    using assms(1) by (simp add: expected_hash_def mult.commute)
  with True piece_size_cases(1) [OF assms(3) True n] show ?thesis
    by (auto simp: verify_piece_def)
next
  case False
  then show ?thesis by (simp add: verify_piece_def)
qed

theorem verify_piece_correct_witness:
  "verify_piece (\<lambda>b. replicate 20 (hd b))
     (torrent_zero\<lparr>t_pieces := Some (replicate 20 1 @ replicate 20 2), t_num_pieces := 2,
                   t_piece_length := 3, t_total_length := 4\<rparr>) 1 [2] = Inr True"
  by (subst verify_piece_correct [of _ "replicate 20 1 @ replicate 20 2"])
    (simp_all add: piece_len_def piece_size_def)

end
