(* ===== verification/FileLayout.thy ===== *)
theory FileLayout
  imports Torrent
begin

text \<open>
  How a piece meets the files of a torrent: the piece is a range of one stream, the files are
  consecutive ranges of it. \<open>storage_write\<close> and \<open>tar_writer_write\<close> both compute the
  intersection, with the same unsigned arithmetic.
\<close>

definition c_max :: "nat \<Rightarrow> nat \<Rightarrow> nat" where
  "c_max a b = (if a > b then a else b)"

definition c_min :: "nat \<Rightarrow> nat \<Rightarrow> nat" where
  "c_min a b = (if a < b then a else b)"

lemma c_max_max [simp]: "c_max a b = max a b"
  by (simp add: c_max_def max_def)

lemma c_min_min [simp]: "c_min a b = min a b"
  by (simp add: c_min_def min_def)

text \<open>Bytes \<open>[a, b)\<close> of a list.\<close>

definition slice :: "nat \<Rightarrow> nat \<Rightarrow> 'a list \<Rightarrow> 'a list" where
  "slice a b xs = take (b - a) (drop a xs)"

lemma length_slice [simp]: "b \<le> length xs \<Longrightarrow> length (slice a b xs) = b - a"
  by (simp add: slice_def)

lemma nth_slice: "b \<le> length xs \<Longrightarrow> a + i < b \<Longrightarrow> slice a b xs ! i = xs ! (a + i)"
  by (simp add: slice_def)

lemma slice_empty [simp]: "b \<le> a \<Longrightarrow> slice a b xs = []"
  by (simp add: slice_def)

lemma slice_all: "slice 0 (length xs) xs = xs"
  by (simp add: slice_def)

lemma slice_append: "a \<le> b \<Longrightarrow> b \<le> c \<Longrightarrow> slice a b xs @ slice b c xs = slice a c xs"
proof -
  assume ab: "a \<le> b" and bc: "b \<le> c"
  then have "c - a = (b - a) + (c - b)" and "(b - a) + a = b" by simp_all
  then have "take (c - a) (drop a xs) = take (b - a) (drop a xs) @ take (c - b) (drop b xs)"
    by (simp only: take_add drop_drop)
  then show ?thesis by (simp add: slice_def)
qed

lemma slice_slice: "a + d \<le> b \<Longrightarrow> slice c d (slice a b xs) = slice (a + c) (a + d) xs"
proof (cases "c \<le> d")
  case True
  assume "a + d \<le> b"
  with True have "min (d - c) (b - a - c) = d - c" "a + d - (a + c) = d - c" by simp_all
  then show ?thesis by (simp only: slice_def drop_take take_take drop_drop add.commute [of c a])
qed simp

text \<open>The start of each file in the stream.\<close>

definition stream_start :: "nat list \<Rightarrow> nat \<Rightarrow> nat" where
  "stream_start lens i = sum_list (take i lens)"

lemma stream_start_0 [simp]: "stream_start lens 0 = 0"
  by (simp add: stream_start_def)

lemma stream_start_Suc: "i < length lens \<Longrightarrow> stream_start lens (Suc i) = stream_start lens i + lens ! i"
  by (simp add: stream_start_def sum_list_take_Suc)

lemma stream_start_mono: "i \<le> j \<Longrightarrow> stream_start lens i \<le> stream_start lens j"
  by (simp add: stream_start_def sum_list_take_mono)

lemma stream_start_le: "stream_start lens i \<le> sum_list lens"
  by (simp add: stream_start_def sum_list_take_le)

lemma file_end_le: "i < length lens \<Longrightarrow> stream_start lens i + lens ! i \<le> sum_list lens"
  using stream_start_le [of lens "Suc i"] by (simp add: stream_start_Suc)

text \<open>The stream put together from pieces, and a piece as its slice.\<close>

lemma slice_concat:
  assumes "\<And>i. Suc i < length ds \<Longrightarrow> length (ds ! i) = p" and "i < length ds"
  shows "slice (i * p) (i * p + length (ds ! i)) (concat ds) = ds ! i"
proof -
  have pre: "length (concat (take k ds)) = k * p" if "k < length ds" for k
    using that
  proof (induction k)
    case (Suc k)
    then have "length (ds ! k) = p" using assms(1) by auto
    with Suc show ?case by (simp add: take_Suc_conv_app_nth)
  qed simp
  have "concat ds = concat (take i ds) @ ds ! i @ concat (drop (Suc i) ds)"
    using assms(2) by (metis append_take_drop_id Cons_nth_drop_Suc concat.simps(2) concat_append)
  then show ?thesis using pre [OF assms(2)] by (simp add: slice_def)
qed

end
