(* ===== verification/Storage.thy ===== *)
theory Storage
  imports FileLayout
begin

text \<open>
  FINAL/src/storage.c: the output directory. The file system is a map from the path a file was
  opened by to its contents, so two files opened by one path share their bytes; what the system
  calls answer is the parameter \<open>os\<close>, a function of the calls made so far and the next one.
\<close>

subsection \<open>State\<close>

datatype os_call = Os_mkdir bytes | Os_fopen bytes

type_synonym os_answers = "os_call list \<Rightarrow> os_call \<Rightarrow> bool"

record world =
  w_calls :: "os_call list"
  w_fs :: "bytes \<rightharpoonup> bytes"

text \<open>\<open>fi_open\<close>: the file pointer is not \<open>NULL\<close>.\<close>

record file_info_t =
  fi_full_path :: bytes
  fi_offset :: nat
  fi_length :: nat
  fi_open :: bool

record storage_t =
  st_files :: "file_info_t list"
  st_total_length :: nat
  st_piece_length :: nat
  st_extract_dir :: "bytes option"

record config_t =
  cfg_input_file :: "bytes option"
  cfg_watch_dir :: "bytes option"
  cfg_output_file :: "bytes option"
  cfg_extract_dir :: "bytes option"
  cfg_use_stdin :: bool
  cfg_use_stdout :: bool
  cfg_use_tar :: bool

abbreviation PATH_LEN :: nat where "PATH_LEN \<equiv> 4096"

subsection \<open>Directories\<close>

definition os_do :: "os_answers \<Rightarrow> os_call \<Rightarrow> world \<Rightarrow> bool \<times> world" where
  "os_do os c w = (os (w_calls w) c, w\<lparr>w_calls := w_calls w @ [c]\<rparr>)"

fun mkdirs :: "os_answers \<Rightarrow> bytes list \<Rightarrow> world \<Rightarrow> bool \<times> world" where
  "mkdirs os [] w = (True, w)"
| "mkdirs os (p # ps) w =
     (let (ok, w') = os_do os (Os_mkdir p) w in if ok then mkdirs os ps w' else (False, w'))"

text \<open>
  The paths the loop of \<open>mkdir_p\<close> cuts at: before every slash but one at the very start, then the
  whole path. For an empty path the code reads \<open>tmp[-1]\<close>.
\<close>

definition mkdir_paths :: "bytes \<Rightarrow> bytes list" where
  "mkdir_paths tmp = map (\<lambda>k. take k tmp) (filter (\<lambda>k. tmp ! k = c_slash) [1..<length tmp]) @ [tmp]"

definition mkdir_p :: "os_answers \<Rightarrow> bytes \<Rightarrow> world \<Rightarrow> ub + (bool \<times> world)" where
  "mkdir_p os path w =
     (let tmp = snprintf PATH_LEN (cstr path)
      in if tmp = [] then Inl Ub_OobRead
         else let tmp = (if last tmp = c_slash then butlast tmp else tmp)
              in Inr (mkdirs os (mkdir_paths tmp) w))"

subsection \<open>Opening\<close>

text \<open>\<open>strncat (full_path, s, PATH_LEN - strlen (full_path) - 1)\<close>\<close>

definition path_cat :: "bytes \<Rightarrow> bytes \<Rightarrow> bytes" where
  "path_cat buf s = buf @ take (PATH_LEN - length buf - 1) (cstr s)"

fun cat_components :: "bytes \<Rightarrow> bytes list \<Rightarrow> bytes" where
  "cat_components buf [] = buf"
| "cat_components buf [c] = path_cat buf c"
| "cat_components buf (c # d # cs) = cat_components (path_cat (path_cat buf c) [c_slash]) (d # cs)"

definition build_path :: "bytes option \<Rightarrow> bytes list \<Rightarrow> bytes" where
  "build_path extract_dir path =
     cat_components
       (case extract_dir of
          None \<Rightarrow> []
        | Some d \<Rightarrow> path_cat (take (PATH_LEN - 1) (cstr d)) [c_slash]) path"

text \<open>\<open>strrchr (path, '/')\<close>: the offset of the last slash.\<close>

definition last_slash :: "bytes \<Rightarrow> nat option" where
  "last_slash p = (case memchr c_slash (rev p) of None \<Rightarrow> None | Some k \<Rightarrow> Some (length p - 1 - k))"

definition prepare_dir :: "os_answers \<Rightarrow> bytes \<Rightarrow> world \<Rightarrow> ub + (bool \<times> world)" where
  "prepare_dir os full_path w =
     (case last_slash full_path of
        None \<Rightarrow> Inr (True, w)
      | Some k \<Rightarrow> mkdir_p os (take k full_path) w)"

text \<open>\<open>fopen (path, "wb")\<close> empties the file.\<close>

definition fopen_wb :: "os_answers \<Rightarrow> bytes \<Rightarrow> world \<Rightarrow> bool \<times> world" where
  "fopen_wb os path w =
     (let (ok, w') = os_do os (Os_fopen path) w
      in (ok, if ok then w'\<lparr>w_fs := (w_fs w')(path \<mapsto> [])\<rparr> else w'))"

fun open_files ::
  "os_answers \<Rightarrow> bytes option \<Rightarrow> nat \<Rightarrow> file_t list \<Rightarrow> file_info_t list \<Rightarrow> world
     \<Rightarrow> ub + (file_info_t list option \<times> world)" where
  "open_files os dir current_offset [] fis w = Inr (Some fis, w)"
| "open_files os dir current_offset (tf # tfs) fis w =
     (let path = build_path dir (case f_path tf of Some p \<Rightarrow> p | None \<Rightarrow> [])
      in case prepare_dir os path w of
           Inl u \<Rightarrow> Inl u
         | Inr (False, w1) \<Rightarrow> Inr (None, w1)
         | Inr (True, w1) \<Rightarrow>
             (case fopen_wb os path w1 of
                (False, w2) \<Rightarrow> Inr (None, w2)
              | (True, w2) \<Rightarrow>
                  open_files os dir ((current_offset + f_length tf) mod 2 ^ 64) tfs
                    (fis @ [\<lparr>fi_full_path = path, fi_offset = current_offset,
                             fi_length = f_length tf, fi_open = True\<rparr>]) w2))"

definition storage_open ::
  "os_answers \<Rightarrow> config_t \<Rightarrow> torrent_t \<Rightarrow> world \<Rightarrow> ub + (storage_t option \<times> world)" where
  "storage_open os cfg tor w =
     (if cfg_output_file cfg \<noteq> None \<and> length (t_files tor) > 1 then Inr (None, w)
      else case open_files os (cfg_extract_dir cfg) 0 (t_files tor) [] w of
             Inl u \<Rightarrow> Inl u
           | Inr (None, w') \<Rightarrow> Inr (None, w')
           | Inr (Some fis, w') \<Rightarrow>
               Inr (Some \<lparr>st_files = fis, st_total_length = t_total_length tor,
                          st_piece_length = t_piece_length tor,
                          st_extract_dir = cfg_extract_dir cfg\<rparr>, w'))"

lemma mkdirs_fs: "w_fs (snd (mkdirs os ps w)) = w_fs w"
  by (induction ps arbitrary: w) (simp_all add: os_do_def Let_def)

lemma prepare_dir_fs: "prepare_dir os path w = Inr (b, w') \<Longrightarrow> w_fs w' = w_fs w"
  by (auto simp: prepare_dir_def mkdir_p_def Let_def split: option.splits if_splits)
    (metis mkdirs_fs snd_conv)+

subsection \<open>Writing\<close>

text \<open>
  \<open>fwrite\<close> after \<open>fseek\<close>: a gap behind the end of the file is filled with zeros. The answer \<open>io\<close>
  of the device to a write of \<open>n\<close> bytes at an offset of a path is \<open>None\<close> when the seek fails and
  otherwise how many bytes are written; \<open>storage_write\<close> only logs a failure.
\<close>

type_synonym io_answers = "bytes \<Rightarrow> nat \<Rightarrow> nat \<Rightarrow> nat option"

definition file_write :: "nat \<Rightarrow> bytes \<Rightarrow> bytes \<Rightarrow> bytes" where
  "file_write off bs old =
     (if bs = [] then old
      else memcpy_at off bs (old @ replicate (off + length bs - length old) 0))"

definition write_overlap ::
  "io_answers \<Rightarrow> nat \<Rightarrow> nat \<Rightarrow> bytes \<Rightarrow> file_info_t \<Rightarrow> (bytes \<rightharpoonup> bytes) \<Rightarrow> (bytes \<rightharpoonup> bytes)" where
  "write_overlap io piece_start piece_end data fi fs =
     (let file_start = fi_offset fi;
          file_end = (fi_offset fi + fi_length fi) mod 2 ^ 64;
          overlap_start = c_max piece_start file_start;
          overlap_end = c_min piece_end file_end
      in if overlap_start < overlap_end then
           (let offset_in_file = overlap_start - file_start;
                offset_in_piece = overlap_start - piece_start;
                bytes_to_write = overlap_end - overlap_start
            in case io (fi_full_path fi) offset_in_file bytes_to_write of
                 None \<Rightarrow> fs
               | Some written \<Rightarrow>
                   (case fs (fi_full_path fi) of
                      None \<Rightarrow> fs
                    | Some old \<Rightarrow>
                        fs(fi_full_path fi \<mapsto>
                             file_write offset_in_file
                               (take (min written bytes_to_write) (drop offset_in_piece data)) old)))
         else fs)"

definition storage_write ::
  "io_answers \<Rightarrow> storage_t \<Rightarrow> nat \<Rightarrow> bytes \<Rightarrow> (bytes \<rightharpoonup> bytes) \<Rightarrow> (bytes \<rightharpoonup> bytes)" where
  "storage_write io st piece_index data fs =
     (let piece_start = (piece_index * st_piece_length st) mod 2 ^ 64;
          piece_end = (piece_start + length data) mod 2 ^ 64
      in fold (write_overlap io piece_start piece_end data) (st_files st) fs)"

text \<open>The paths whose file is closed.\<close>

definition storage_close :: "storage_t option \<Rightarrow> bytes list" where
  "storage_close st =
     (case st of None \<Rightarrow> [] | Some s \<Rightarrow> map fi_full_path (filter fi_open (st_files s)))"

subsection \<open>One write\<close>

definition io_full :: "io_answers \<Rightarrow> bool" where
  "io_full io \<longleftrightarrow> (\<forall>p off n. io p off n = Some n)"

lemma length_file_write:
  "bs \<noteq> [] \<Longrightarrow> length (file_write off bs old) = max (length old) (off + length bs)"
  by (simp add: file_write_def memcpy_at_def)

lemma nth_file_write:
  "bs \<noteq> [] \<Longrightarrow> i < length (file_write off bs old) \<Longrightarrow>
     file_write off bs old ! i =
       (if off \<le> i \<and> i < off + length bs then bs ! (i - off)
        else if i < length old then old ! i else 0)"
  by (subst (asm) length_file_write) (auto simp: file_write_def nth_memcpy_at nth_append)

text \<open>A write touches only its own path, and depends on that file alone.\<close>

lemma write_overlap_other:
  "p \<noteq> fi_full_path fi \<Longrightarrow> write_overlap io ps pe d fi fs p = fs p"
  by (auto simp: write_overlap_def Let_def split: option.splits)

lemma write_overlap_local:
  "fs (fi_full_path fi) = fs' (fi_full_path fi) \<Longrightarrow>
     write_overlap io ps pe d fi fs (fi_full_path fi) = write_overlap io ps pe d fi fs' (fi_full_path fi)"
  by (auto simp: write_overlap_def Let_def split: option.splits)

lemma fold_write_other:
  "p \<notin> fi_full_path ` set fis \<Longrightarrow> fold (write_overlap io ps pe d) fis fs p = fs p"
  by (induction fis arbitrary: fs) (auto simp: write_overlap_other)

lemma fold_write_file:
  "fi \<in> set fis \<Longrightarrow> distinct (map fi_full_path fis) \<Longrightarrow>
     fold (write_overlap io ps pe d) fis fs (fi_full_path fi)
       = write_overlap io ps pe d fi fs (fi_full_path fi)"
proof (induction fis arbitrary: fs)
  case (Cons f fis)
  show ?case
  proof (cases "f = fi")
    case True
    with Cons.prems show ?thesis by (simp add: fold_write_other)
  next
    case False
    then have "fi \<in> set fis" using Cons.prems(1) by simp
    then have "fi_full_path fi \<noteq> fi_full_path f"
      using Cons.prems(2) by (metis distinct.simps(2) image_eqI list.set_map list.simps(9))
    then have "write_overlap io ps pe d f fs (fi_full_path fi) = fs (fi_full_path fi)"
      by (rule write_overlap_other)
    then have local_fi: "write_overlap io ps pe d fi (write_overlap io ps pe d f fs) (fi_full_path fi)
        = write_overlap io ps pe d fi fs (fi_full_path fi)"
      by (rule write_overlap_local)
    show ?thesis
      using Cons.IH [OF \<open>fi \<in> set fis\<close>] Cons.prems(2) local_fi by simp
  qed
qed simp

subsection \<open>What the files hold while pieces arrive\<close>

text \<open>An open store for files of the lengths \<open>lens\<close>, each under a path of its own.\<close>

definition storage_ok :: "storage_t \<Rightarrow> nat list \<Rightarrow> bool" where
  "storage_ok st lens \<longleftrightarrow>
     map fi_length (st_files st) = lens
     \<and> map fi_offset (st_files st) = map (stream_start lens) [0..<length lens]
     \<and> distinct (map fi_full_path (st_files st)) \<and> sum_list lens < 2 ^ 64"

text \<open>
  The file at offset \<open>off\<close> of the stream \<open>D\<close> holds the right byte wherever \<open>covered\<close> says it has
  been written, and is not longer than it should be.
\<close>

definition file_holds :: "bytes \<Rightarrow> nat \<Rightarrow> nat \<Rightarrow> (nat \<Rightarrow> bool) \<Rightarrow> bytes \<Rightarrow> bool" where
  "file_holds D off len covered c \<longleftrightarrow>
     length c \<le> len \<and> (\<forall>x<len. covered (off + x) \<longrightarrow> x < length c \<and> c ! x = D ! (off + x))"

definition holds_pieces :: "bytes \<Rightarrow> storage_t \<Rightarrow> (nat \<Rightarrow> bool) \<Rightarrow> (bytes \<rightharpoonup> bytes) \<Rightarrow> bool" where
  "holds_pieces D st covered fs \<longleftrightarrow>
     (\<forall>fi\<in>set (st_files st). \<exists>c. fs (fi_full_path fi) = Some c
        \<and> file_holds D (fi_offset fi) (fi_length fi) covered c)"

definition in_piece :: "nat \<Rightarrow> bytes \<Rightarrow> nat \<Rightarrow> bool" where
  "in_piece ps d y \<longleftrightarrow> ps \<le> y \<and> y < ps + length d"

lemma storage_okD:
  assumes "storage_ok st lens" and "fi \<in> set (st_files st)"
  obtains k where "k < length lens" "fi_length fi = lens ! k" "fi_offset fi = stream_start lens k"
    "fi_offset fi + fi_length fi < 2 ^ 64"
proof -
  obtain k where k: "k < length (st_files st)" "fi = st_files st ! k"
    using assms(2) by (auto simp: in_set_conv_nth)
  have len: "length (st_files st) = length lens"
    using assms(1) by (metis length_map storage_ok_def)
  have "fi_length fi = lens ! k" "fi_offset fi = stream_start lens k"
    using assms(1) k len unfolding storage_ok_def
    by (metis nth_map, metis add_0 length_map length_upt minus_nat.diff_0 nth_map nth_upt)
  moreover have "stream_start lens k + lens ! k < 2 ^ 64"
    using file_end_le [of k lens] k(1) len assms(1) by (simp add: storage_ok_def)
  ultimately show ?thesis using that k len by simp
qed

lemma write_overlap_holds:
  assumes io: "io_full io" and end64: "fi_offset fi + fi_length fi < 2 ^ 64"
    and c: "fs (fi_full_path fi) = Some c"
    and holds: "file_holds D (fi_offset fi) (fi_length fi) covered c"
    and d: "d = slice ps (ps + length d) D" "ps + length d \<le> length D"
  shows "\<exists>c'. write_overlap io ps (ps + length d) d fi fs (fi_full_path fi) = Some c'
    \<and> file_holds D (fi_offset fi) (fi_length fi) (\<lambda>y. covered y \<or> in_piece ps d y) c'"
proof -
  let ?off = "fi_offset fi" and ?len = "fi_length fi"
  let ?s = "max ps ?off" and ?e = "min (ps + length d) (?off + ?len)"
  show ?thesis
  proof (cases "?s < ?e")
    case False
    then have "write_overlap io ps (ps + length d) d fi fs (fi_full_path fi) = Some c"
      using end64 c by (simp add: write_overlap_def Let_def del: max_less_iff_conj min_less_iff_conj)
    moreover have "\<not> in_piece ps d (?off + x)" if "x < ?len" for x
      using False that by (auto simp: in_piece_def)
    ultimately show ?thesis using holds by (auto simp: file_holds_def)
  next
    case True
    let ?bs = "take (?e - ?s) (drop (?s - ps) d)"
    have len: "length ?bs = ?e - ?s" by simp
    have w: "write_overlap io ps (ps + length d) d fi fs (fi_full_path fi)
        = Some (file_write (?s - ?off) ?bs c)"
      using True end64 c io
      by (simp add: write_overlap_def Let_def io_full_def del: max_less_iff_conj min_less_iff_conj)
    have ne: "?bs \<noteq> []" using True len by (metis length_0_conv zero_less_diff less_irrefl)
    have byte: "?bs ! (x - (?s - ?off)) = D ! (?off + x)"
      if x: "?s - ?off \<le> x" "x < ?s - ?off + (?e - ?s)" for x
    proof -
      have "?bs ! (x - (?s - ?off)) = d ! (?off + x - ps)"
        using True x by (simp add: add.commute [of x ?off])
      moreover have "slice ps (ps + length d) D ! (?off + x - ps) = D ! (ps + (?off + x - ps))"
        using True x d(2) by (intro nth_slice) auto
      moreover have "ps + (?off + x - ps) = ?off + x" using True x by auto
      ultimately show ?thesis using d(1) by simp
    qed
    have "file_holds D ?off ?len (\<lambda>y. covered y \<or> in_piece ps d y) (file_write (?s - ?off) ?bs c)"
      unfolding file_holds_def
    proof (intro conjI allI impI)
      show "length (file_write (?s - ?off) ?bs c) \<le> ?len"
        using holds True len length_file_write [OF ne] by (simp add: file_holds_def)
      fix x assume x: "x < ?len" and cov: "covered (?off + x) \<or> in_piece ps d (?off + x)"
      let ?in = "?s - ?off \<le> x \<and> x < ?s - ?off + (?e - ?s)"
      have "in_piece ps d (?off + x) \<Longrightarrow> ?in" using x by (auto simp: in_piece_def)
      then have old: "x < length c \<and> c ! x = D ! (?off + x)" if "\<not> ?in"
        using holds cov x that by (auto simp: file_holds_def)
      show "x < length (file_write (?s - ?off) ?bs c)"
        unfolding length_file_write [OF ne] len less_max_iff_disj using old by blast
      then have nth: "file_write (?s - ?off) ?bs c ! x = (if ?in then ?bs ! (x - (?s - ?off))
          else if x < length c then c ! x else 0)"
        by (subst nth_file_write [OF ne]) (simp_all only: len)
      show "file_write (?s - ?off) ?bs c ! x = D ! (?off + x)"
      proof (cases ?in)
        case True
        with byte [of x] show ?thesis unfolding nth by metis
      next
        case False
        with old show ?thesis unfolding nth by metis
      qed
    qed
    with w show ?thesis by blast
  qed
qed

lemma storage_write_holds:
  assumes "io_full io" and ok: "storage_ok st lens" and "length D = sum_list lens"
    and h: "holds_pieces D st covered fs"
    and d: "d = slice ps (ps + length d) D" "ps + length d \<le> length D"
    and ps: "ps = i * st_piece_length st"
  shows "holds_pieces D st (\<lambda>y. covered y \<or> in_piece ps d y) (storage_write io st i d fs)"
  unfolding holds_pieces_def
proof
  fix fi assume fi: "fi \<in> set (st_files st)"
  have b: "ps + length d < 2 ^ 64" using d(2) assms(3) ok by (simp add: storage_ok_def)
  have dist: "distinct (map fi_full_path (st_files st))" using ok by (simp add: storage_ok_def)
  have "storage_write io st i d fs (fi_full_path fi)
      = write_overlap io ps (ps + length d) d fi fs (fi_full_path fi)"
    using b ps fold_write_file [OF fi dist] by (simp add: storage_write_def Let_def)
  moreover obtain c where "fs (fi_full_path fi) = Some c"
      "file_holds D (fi_offset fi) (fi_length fi) covered c"
    using h fi by (auto simp: holds_pieces_def)
  moreover have "fi_offset fi + fi_length fi < 2 ^ 64" using storage_okD [OF ok fi] by blast
  ultimately show "\<exists>c. storage_write io st i d fs (fi_full_path fi) = Some c
      \<and> file_holds D (fi_offset fi) (fi_length fi) (\<lambda>y. covered y \<or> in_piece ps d y) c"
    using write_overlap_holds [OF assms(1) _ _ _ d] by presburger
qed

subsection \<open>All pieces, in any order\<close>

text \<open>The pieces \<open>ws\<close> cut the stream \<open>D\<close>: each is the slice at its index.\<close>

definition pieces_of :: "bytes \<Rightarrow> nat \<Rightarrow> (nat \<times> bytes) list \<Rightarrow> bool" where
  "pieces_of D p ws \<longleftrightarrow>
     (\<forall>(i, d)\<in>set ws. i * p + length d = min (Suc i * p) (length D)
        \<and> d = slice (i * p) (i * p + length d) D)"

definition storage_writes ::
  "io_answers \<Rightarrow> storage_t \<Rightarrow> (nat \<times> bytes) list \<Rightarrow> (bytes \<rightharpoonup> bytes) \<Rightarrow> (bytes \<rightharpoonup> bytes)" where
  "storage_writes io st ws fs = fold (\<lambda>w. storage_write io st (fst w) (snd w)) ws fs"

lemma storage_writes_holds:
  assumes "io_full io" and "storage_ok st lens" and "length D = sum_list lens"
    and "pieces_of D (st_piece_length st) ws" and "holds_pieces D st covered fs"
  shows "holds_pieces D st
    (\<lambda>y. covered y \<or> (\<exists>(i, d)\<in>set ws. in_piece (i * st_piece_length st) d y))
    (storage_writes io st ws fs)"
  using assms(4,5)
proof (induction ws arbitrary: covered fs)
  case Nil
  then show ?case by (simp add: storage_writes_def)
next
  case (Cons w ws)
  obtain i d where w: "w = (i, d)" by (cases w)
  let ?p = "st_piece_length st"
  have d: "d = slice (i * ?p) (i * ?p + length d) D" "i * ?p + length d \<le> length D"
    using Cons.prems(1) w by (auto simp: pieces_of_def)
  have "holds_pieces D st (\<lambda>y. covered y \<or> in_piece (i * ?p) d y) (storage_write io st i d fs)"
    using storage_write_holds [OF assms(1-3) Cons.prems(2) d refl] .
  moreover have "pieces_of D ?p ws" using Cons.prems(1) by (simp add: pieces_of_def)
  ultimately have "holds_pieces D st
      (\<lambda>y. (covered y \<or> in_piece (i * ?p) d y) \<or> (\<exists>(i, d)\<in>set ws. in_piece (i * ?p) d y))
      (storage_writes io st ws (storage_write io st i d fs))"
    using Cons.IH by blast
  then show ?case
    by (simp add: w storage_writes_def disj_assoc)
qed

lemma all_covered:
  assumes "pieces_of D p ws" and "{..<n} \<subseteq> fst ` set ws" and "length D \<le> n * p" and "0 < p"
    and "y < length D"
  shows "\<exists>(i, d)\<in>set ws. in_piece (i * p) d y"
proof -
  let ?i = "y div p"
  have "y < n * p" using assms(3,5) by linarith
  then have "?i < n" using assms(4) by (simp add: less_mult_imp_div_less)
  then obtain d where d: "(?i, d) \<in> set ws" using assms(2) by force
  then have "?i * p + length d = min (Suc ?i * p) (length D)"
    using assms(1) by (auto simp: pieces_of_def)
  moreover have "?i * p \<le> y" "y < Suc ?i * p"
    using assms(4) dividend_less_div_times [of p y] by (simp_all add: add.commute)
  ultimately have "in_piece (?i * p) d y"
    using assms(5) unfolding in_piece_def by linarith
  with d show ?thesis by blast
qed

lemma file_complete:
  assumes "file_holds D off len covered c" and "\<And>x. x < len \<Longrightarrow> covered (off + x)"
    and "off + len \<le> length D"
  shows "c = slice off (off + len) D"
proof (rule nth_equalityI)
  have "len \<le> length c"
  proof (cases len)
    case (Suc k)
    with assms show ?thesis by (fastforce simp: file_holds_def)
  qed simp
  then have len: "length c = len" using assms(1) by (simp add: file_holds_def)
  then show "length c = length (slice off (off + len) D)" using assms(3) by simp
  fix x assume "x < length c"
  with len assms show "c ! x = slice off (off + len) D ! x"
    by (simp add: file_holds_def nth_slice)
qed

lemma storage_all_pieces:
  assumes "io_full io" and "storage_ok st lens" and "length D = sum_list lens"
    and "pieces_of D (st_piece_length st) ws" and "{..<n} \<subseteq> fst ` set ws"
    and "length D \<le> n * st_piece_length st" and "0 < st_piece_length st"
    and "\<forall>fi\<in>set (st_files st). fs (fi_full_path fi) = Some []"
  shows "\<forall>fi\<in>set (st_files st). storage_writes io st ws fs (fi_full_path fi)
    = Some (slice (fi_offset fi) (fi_offset fi + fi_length fi) D)"
proof
  fix fi assume fi: "fi \<in> set (st_files st)"
  have "holds_pieces D st (\<lambda>_. False) fs"
    using assms(8) by (simp add: holds_pieces_def file_holds_def)
  from storage_writes_holds [OF assms(1-4) this] fi
  obtain c where c: "storage_writes io st ws fs (fi_full_path fi) = Some c"
    "file_holds D (fi_offset fi) (fi_length fi)
       (\<lambda>y. \<exists>(i, d)\<in>set ws. in_piece (i * st_piece_length st) d y) c"
    by (auto simp: holds_pieces_def)
  have le: "fi_offset fi + fi_length fi \<le> length D"
    using storage_okD [OF assms(2) fi] file_end_le [of _ lens] assms(3) by metis
  have "c = slice (fi_offset fi) (fi_offset fi + fi_length fi) D"
    using c(2) _ le
  proof (rule file_complete)
    fix x assume "x < fi_length fi"
    then show "\<exists>(i, d)\<in>set ws. in_piece (i * st_piece_length st) d (fi_offset fi + x)"
      using le by (intro all_covered [OF assms(4-7)]) simp
  qed
  with c(1) show "storage_writes io st ws fs (fi_full_path fi)
      = Some (slice (fi_offset fi) (fi_offset fi + fi_length fi) D)"
    by simp
qed

text \<open>
  C10: when every piece of a stream has been written, in whatever order and however often, each
  file of the store holds exactly its part of the stream, pieces that straddle files included.
\<close>

theorem storage_any_order:
  assumes "io_full io" and "storage_ok st lens" and "length D = sum_list lens"
    and "pieces_of D (st_piece_length st) ws" and "{..<n} \<subseteq> fst ` set ws"
    and "length D \<le> n * st_piece_length st" and "0 < st_piece_length st"
    and "\<forall>fi\<in>set (st_files st). fs (fi_full_path fi) = Some []"
  shows "\<forall>fi\<in>set (st_files st). storage_writes io st ws fs (fi_full_path fi)
    = Some (slice (fi_offset fi) (fi_offset fi + fi_length fi) D)"
  using assms by (rule storage_all_pieces)

theorem storage_any_order_witness:
  "storage_writes (\<lambda>_ _ n. Some n)
       \<lparr>st_files = [\<lparr>fi_full_path = [1], fi_offset = 0, fi_length = 3, fi_open = True\<rparr>,
        \<lparr>fi_full_path = [2], fi_offset = 3, fi_length = 2, fi_open = True\<rparr>], st_total_length = 5,
        st_piece_length = 2, st_extract_dir = None\<rparr>
       [(1, [12, 13]), (2, [14]), (0, [10, 11])] [[1] \<mapsto> [], [2] \<mapsto> []] [2] = Some [13, 14]"
  (is "storage_writes ?io ?st ?ws ?fs [2] = _")
proof -
  have "\<forall>fi\<in>set (st_files ?st). storage_writes ?io ?st ?ws ?fs (fi_full_path fi)
      = Some (slice (fi_offset fi) (fi_offset fi + fi_length fi) [10, 11, 12, 13, 14])"
  proof (rule storage_any_order [where n = 3 and lens = "[3, 2]"])
    show "{..<3} \<subseteq> fst ` set ?ws" by auto
  qed (simp_all add: io_full_def storage_ok_def stream_start_def pieces_of_def slice_def upt_rec)
  then show ?thesis by (simp add: slice_def)
qed

subsection \<open>Opening the store\<close>

lemma open_files_ok:
  assumes "open_files os dir off tfs fis w = Inr (Some fis', w')"
  shows "\<exists>new. fis' = fis @ new \<and> map fi_length new = map f_length tfs
    \<and> map fi_full_path new = map (\<lambda>f. build_path dir (case f_path f of Some p \<Rightarrow> p | None \<Rightarrow> [])) tfs
    \<and> (off + sum_list (map f_length tfs) < 2 ^ 64 \<longrightarrow>
         map fi_offset new = map (\<lambda>i. off + stream_start (map f_length tfs) i) [0..<length tfs])
    \<and> list_all fi_open new
    \<and> (\<forall>fi\<in>set new. w_fs w' (fi_full_path fi) = Some [])
    \<and> (\<forall>p. w_fs w p = Some [] \<longrightarrow> w_fs w' p = Some [])"
  using assms
proof (induction tfs arbitrary: off fis w)
  case Nil
  then show ?case by simp
next
  case (Cons tf tfs)
  let ?path = "build_path dir (case f_path tf of Some p \<Rightarrow> p | None \<Rightarrow> [])"
  let ?fi = "\<lparr>fi_full_path = ?path, fi_offset = off, fi_length = f_length tf, fi_open = True\<rparr>"
  from Cons.prems obtain w1 w2 where p: "prepare_dir os ?path w = Inr (True, w1)"
    and f: "fopen_wb os ?path w1 = (True, w2)"
    and o: "open_files os dir ((off + f_length tf) mod 2 ^ 64) tfs (fis @ [?fi]) w2 = Inr (Some fis', w')"
    by (auto simp: Let_def split: sum.splits prod.splits bool.splits)
  from Cons.IH [OF o] obtain new where new: "fis' = fis @ ?fi # new"
    "map fi_length new = map f_length tfs"
    "map fi_full_path new = map (\<lambda>f. build_path dir (case f_path f of Some p \<Rightarrow> p | None \<Rightarrow> [])) tfs"
    "(off + f_length tf) mod 2 ^ 64 + sum_list (map f_length tfs) < 2 ^ 64 \<longrightarrow>
       map fi_offset new = map (\<lambda>i. (off + f_length tf) mod 2 ^ 64 + stream_start (map f_length tfs) i)
         [0..<length tfs]"
    "list_all fi_open new" "\<forall>fi\<in>set new. w_fs w' (fi_full_path fi) = Some []"
    "\<forall>p. w_fs w2 p = Some [] \<longrightarrow> w_fs w' p = Some []"
    by auto
  have w1: "w_fs w1 = w_fs w" using p by (rule prepare_dir_fs)
  have w2: "w_fs w2 = (w_fs w1)(?path \<mapsto> [])"
    using f by (auto simp: fopen_wb_def os_do_def Let_def split: if_splits)
  have offs: "map fi_offset (?fi # new)
      = map (\<lambda>i. off + stream_start (map f_length (tf # tfs)) i) [0..<length (tf # tfs)]"
    if "off + sum_list (map f_length (tf # tfs)) < 2 ^ 64"
  proof -
    have up: "[0..<length (tf # tfs)] = 0 # map Suc [0..<length tfs]"
      by (simp only: list.size add_Suc_right add_0_right map_Suc_upt upt_conv_Cons zero_less_Suc)
    have "(off + f_length tf) mod 2 ^ 64 = off + f_length tf" using that by simp
    with that new(4) show ?thesis
      unfolding up by (simp add: stream_start_def add.assoc)
  qed
  have "fis' = fis @ (?fi # new)" using new(1) by simp
  moreover have "map fi_length (?fi # new) = map f_length (tf # tfs)" using new(2) by simp
  moreover have "map fi_full_path (?fi # new)
      = map (\<lambda>f. build_path dir (case f_path f of Some p \<Rightarrow> p | None \<Rightarrow> [])) (tf # tfs)"
    using new(3) by simp
  moreover have "list_all fi_open (?fi # new)" using new(5) by simp
  moreover have "\<forall>fi\<in>set (?fi # new). w_fs w' (fi_full_path fi) = Some []"
    using new(6,7) w2 by simp
  moreover have "\<forall>p. w_fs w p = Some [] \<longrightarrow> w_fs w' p = Some []"
    using new(7) w1 w2 by simp
  ultimately show ?case using offs by blast
qed

definition file_path :: "config_t \<Rightarrow> file_t \<Rightarrow> bytes" where
  "file_path cfg f = build_path (cfg_extract_dir cfg) (case f_path f of Some p \<Rightarrow> p | None \<Rightarrow> [])"

text \<open>
  a store that opens is ready for the pieces: one open empty file per file of the torrent, in
  order, at its place in the stream. The paths come from the torrent and \<open>-O\<close> only; the name given
  with \<open>-o\<close> plays no part.
\<close>

theorem storage_open_ok:
  assumes "storage_open os cfg tor w = Inr (Some st, w')"
    and "(\<Sum>f\<leftarrow>t_files tor. f_length f) < 2 ^ 64"
    and "distinct (map (file_path cfg) (t_files tor))"
  shows "storage_ok st (map f_length (t_files tor)) \<and> st_piece_length st = t_piece_length tor
    \<and> map fi_full_path (st_files st) = map (file_path cfg) (t_files tor)
    \<and> storage_close (Some st) = map (file_path cfg) (t_files tor)
    \<and> (\<forall>fi\<in>set (st_files st). w_fs w' (fi_full_path fi) = Some [])"
proof -
  obtain fis where o: "open_files os (cfg_extract_dir cfg) 0 (t_files tor) [] w = Inr (Some fis, w')"
    and st: "st = \<lparr>st_files = fis, st_total_length = t_total_length tor,
      st_piece_length = t_piece_length tor, st_extract_dir = cfg_extract_dir cfg\<rparr>"
    using assms(1) by (auto simp: storage_open_def split: if_splits sum.splits prod.splits option.splits)
  from open_files_ok [OF o] assms(2) have fis:
    "map fi_length fis = map f_length (t_files tor)"
    "map fi_full_path fis = map (file_path cfg) (t_files tor)"
    "map fi_offset fis = map (stream_start (map f_length (t_files tor))) [0..<length (t_files tor)]"
    "list_all fi_open fis" "\<forall>fi\<in>set fis. w_fs w' (fi_full_path fi) = Some []"
    by (simp_all add: file_path_def [abs_def])
  have "filter fi_open fis = fis" using fis(4) by (simp add: list_all_iff)
  with fis assms(2,3) show ?thesis by (simp add: st storage_ok_def storage_close_def)
qed

theorem storage_open_ok_witness:
  "\<exists>st w'. storage_open (\<lambda>_ _. True)
       \<lparr>cfg_input_file = None, cfg_watch_dir = None, cfg_output_file = None,
        cfg_extract_dir = Some (str ''out''), cfg_use_stdin = True, cfg_use_stdout = False, cfg_use_tar = False\<rparr>
       (torrent_zero\<lparr>t_files := [\<lparr>f_path = Some [str ''a''], f_length = 3\<rparr>]\<rparr>) \<lparr>w_calls = [], w_fs = Map.empty\<rparr>
     = Inr (Some st, w') \<and> storage_ok st [3] \<and> map fi_full_path (st_files st) = [str ''out/a'']"
  (is "\<exists>st w'. storage_open ?os ?cfg ?tor ?w = _ \<and> _")
proof -
  have path: "build_path (Some (str ''out'')) [str ''a''] = str ''out/a''"
    by (simp add: build_path_def path_cat_def str_Cons cstr_def)
  have slash: "last_slash (str ''out/a'') = Some 3" "take 3 (str ''out/a'') = str ''out''"
    by (simp_all add: last_slash_def memchr_def str_Cons)
  have dirs: "mkdir_paths (str ''out'') = [str ''out'']"
    by (simp add: mkdir_paths_def str_Cons upt_rec)
  have mk: "mkdir_p ?os (str ''out'') w = Inr (True, w\<lparr>w_calls := w_calls w @ [Os_mkdir (str ''out'')]\<rparr>)" for w
    using dirs by (simp add: mkdir_p_def cstr_def snprintf_def Let_def str_Cons os_do_def)
  have "\<exists>st w'. storage_open ?os ?cfg ?tor ?w = Inr (Some st, w')"
    by (simp add: storage_open_def path prepare_dir_def slash mk fopen_wb_def os_do_def Let_def)
  then obtain st w' where o: "storage_open ?os ?cfg ?tor ?w = Inr (Some st, w')" by blast
  from storage_open_ok [OF o] o show ?thesis
    by (auto simp: torrent_zero_def file_path_def path)
qed

lemma path_cat_fits:
  "c_nul \<notin> set s \<Longrightarrow> length buf + length s < PATH_LEN \<Longrightarrow> path_cat buf s = buf @ s"
  by (simp add: path_cat_def cstr_id)

fun join_path :: "bytes list \<Rightarrow> bytes" where
  "join_path [] = []"
| "join_path [c] = c"
| "join_path (c # d # cs) = c @ c_slash # join_path (d # cs)"

lemma cat_components_join:
  "\<forall>c\<in>set cs. c_nul \<notin> set c \<Longrightarrow> length buf + length (join_path cs) < PATH_LEN \<Longrightarrow>
     cat_components buf cs = buf @ join_path cs"
  by (induction buf cs rule: cat_components.induct) (simp_all add: path_cat_fits)

text \<open>
  the components of a path from the torrent are joined as they are: \<open>..\<close> and components with
  slashes are not rejected, so an opened path can leave the output directory.
\<close>

theorem build_path_verbatim:
  assumes "c_nul \<notin> set dir" and "\<forall>c\<in>set cs. c_nul \<notin> set c"
    and "length dir + 1 + length (join_path cs) < PATH_LEN"
  shows "build_path (Some dir) cs = dir @ c_slash # join_path cs"
proof -
  have "path_cat (take (PATH_LEN - 1) (cstr dir)) [c_slash] = dir @ [c_slash]"
    using assms(1,3) by (simp add: cstr_id path_cat_fits)
  then show ?thesis
    using assms(2,3) by (simp add: build_path_def cat_components_join)
qed

theorem build_path_verbatim_witness:
  "build_path (Some (str ''out'')) [str ''..'', str ''x''] = str ''out/../x''"
  by (subst build_path_verbatim) (simp_all add: str_Cons)

text \<open>
  with an empty \<open>-O\<close> argument, a file in the root of the torrent makes \<open>mkdir_p\<close> look at the
  byte before an empty path.
\<close>

theorem storage_open_empty_dir:
  assumes "cfg_extract_dir cfg = Some []" and "cfg_output_file cfg = None"
    and "t_files tor = \<lparr>f_path = Some [c], f_length = n\<rparr> # fs"
    and "c_slash \<notin> set c" and "c_nul \<notin> set c" and "length c < PATH_LEN - 1"
  shows "storage_open os cfg tor w = Inl Ub_OobRead"
proof -
  have path: "build_path (Some []) [c] = c_slash # c"
    using assms(5,6) by (subst build_path_verbatim) simp_all
  have "memchr c_slash (rev (c_slash # c)) = Some (length c)"
    using memchr_append [of c_slash "rev c" "[]"] assms(4) by simp
  then have "last_slash (c_slash # c) = Some 0" by (simp add: last_slash_def)
  then show ?thesis
    using assms(1-3) path
    by (simp add: storage_open_def prepare_dir_def mkdir_p_def cstr_def snprintf_def)
qed

theorem storage_open_empty_dir_witness:
  "storage_open (\<lambda>_ _. True)
     \<lparr>cfg_input_file = None, cfg_watch_dir = None, cfg_output_file = None, cfg_extract_dir = Some [],
      cfg_use_stdin = True, cfg_use_stdout = False, cfg_use_tar = False\<rparr>
     (torrent_zero\<lparr>t_files := [\<lparr>f_path = Some [str ''a''], f_length = 3\<rparr>]\<rparr>)
     \<lparr>w_calls = [], w_fs = Map.empty\<rparr> = Inl Ub_OobRead"
  by (rule storage_open_empty_dir [where c = "str ''a''" and n = 3 and fs = "[]"])
    (simp_all add: str_Cons)

end
