(* ===== verification/Utils.thy ===== *)
theory Utils
  imports Storage
begin

text \<open>
  FINAL/src/utils.c: the command line, reading the torrent from a file or from a pipe. \<open>getopt\<close> is
  the list of the options it returns with their arguments; \<open>fread\<close> on the standard input fills the
  space it is given as far as the input lasts.
\<close>

subsection \<open>Command line\<close>

definition config_init :: config_t where
  "config_init = \<lparr>cfg_input_file = None, cfg_watch_dir = None, cfg_output_file = None,
     cfg_extract_dir = None, cfg_use_stdin = True, cfg_use_stdout = True, cfg_use_tar = False\<rparr>"

text \<open>\<open>None\<close>: usage message and \<open>exit (1)\<close>.\<close>

fun parse_opts :: "(char \<times> bytes) list \<Rightarrow> config_t \<Rightarrow> config_t option" where
  "parse_opts [] cfg = Some cfg"
| "parse_opts ((opt, optarg) # opts) cfg =
     (if opt = CHR ''f'' then
        parse_opts opts (cfg\<lparr>cfg_input_file := Some (cstr optarg), cfg_use_stdin := False\<rparr>)
      else if opt = CHR ''d'' then
        parse_opts opts (cfg\<lparr>cfg_watch_dir := Some (cstr optarg), cfg_use_stdin := False\<rparr>)
      else if opt = CHR ''o'' then
        parse_opts opts (cfg\<lparr>cfg_output_file := Some (cstr optarg), cfg_use_stdout := False\<rparr>)
      else if opt = CHR ''O'' then
        parse_opts opts (cfg\<lparr>cfg_extract_dir := Some (cstr optarg), cfg_use_stdout := False\<rparr>)
      else None)"

definition parse_args :: "(char \<times> bytes) list \<Rightarrow> config_t option" where
  "parse_args opts = parse_opts opts config_init"

text \<open>The blocks released by \<open>free_config\<close>.\<close>

definition free_config :: "config_t \<Rightarrow> bytes list" where
  "free_config cfg = concat (map (\<lambda>p. case p of None \<Rightarrow> [] | Some b \<Rightarrow> [b])
     [cfg_input_file cfg, cfg_watch_dir cfg, cfg_output_file cfg, cfg_extract_dir cfg])"

text \<open>The flags agree with the names.\<close>

definition config_ok :: "config_t \<Rightarrow> bool" where
  "config_ok cfg \<longleftrightarrow>
     (cfg_use_stdin cfg \<longleftrightarrow> cfg_input_file cfg = None \<and> cfg_watch_dir cfg = None)
     \<and> (cfg_use_stdout cfg \<longleftrightarrow> cfg_output_file cfg = None \<and> cfg_extract_dir cfg = None)"

lemma parse_opts_ok: "parse_opts opts cfg = Some cfg' \<Longrightarrow> config_ok cfg \<Longrightarrow> config_ok cfg'"
  by (induction opts cfg rule: parse_opts.induct) (auto simp: config_ok_def split: if_splits)

lemma parse_args_ok: "parse_args opts = Some cfg \<Longrightarrow> config_ok cfg"
proof -
  assume "parse_args opts = Some cfg"
  moreover have "config_ok config_init" by (simp add: config_init_def config_ok_def)
  ultimately show ?thesis unfolding parse_args_def by (rule parse_opts_ok)
qed

subsection \<open>Reading input\<close>

text \<open>\<open>read_file\<close>: \<open>None\<close> when the file cannot be opened; the caller sees the size 0 as a failure.\<close>

definition read_file :: "(bytes \<Rightarrow> bytes option) \<Rightarrow> bytes \<Rightarrow> nat \<times> bytes" where
  "read_file files path = (case files path of None \<Rightarrow> (0, []) | Some data \<Rightarrow> (length data, data))"

text \<open>The loop of \<open>read_stdin\<close> over a block of \<open>cap\<close> bytes that holds \<open>buf\<close>.\<close>

function read_stdin_loop :: "nat \<Rightarrow> bytes \<Rightarrow> bytes \<Rightarrow> bytes \<times> nat" where
  "read_stdin_loop cap buf inp =
     (let n = min (cap - length buf) (length inp)
      in if n = 0 then (buf, cap)
         else let buf' = buf @ take n inp;
                  cap' = (if length buf' = cap then cap * 2 else cap)
              in read_stdin_loop cap' buf' (drop n inp))"
  by pat_completeness auto
termination by (relation "measure (\<lambda>(cap, buf, inp). length inp)") auto

declare read_stdin_loop.simps [simp del]

definition read_stdin :: "bool \<Rightarrow> bytes \<Rightarrow> bytes" where
  "read_stdin error inp = (if error then [] else fst (read_stdin_loop 4096 [] inp))"

lemma read_stdin_loop_all:
  "length buf < cap \<Longrightarrow> read_stdin_loop cap buf inp = (buf', cap') \<Longrightarrow>
     buf' = buf @ inp \<and> length buf' < cap'"
proof (induction cap buf inp rule: read_stdin_loop.induct)
  case (1 cap buf inp)
  let ?n = "min (cap - length buf) (length inp)"
  show ?case
  proof (cases "?n = 0")
    case True
    then have "inp = []" using 1(2) by (simp add: min_def split: if_splits)
    with True 1(2,3) show ?thesis by (subst (asm) read_stdin_loop.simps) (simp add: Let_def)
  next
    case False
    let ?buf = "buf @ take ?n inp"
    let ?cap = "if length ?buf = cap then cap * 2 else cap"
    have "read_stdin_loop ?cap ?buf (drop ?n inp) = (buf', cap')"
      using 1(3) False by (subst (asm) read_stdin_loop.simps) (simp add: Let_def)
    moreover have "length ?buf < ?cap" using 1(2) by auto
    ultimately have "buf' = ?buf @ drop ?n inp \<and> length buf' < cap'"
      using 1(1) [OF refl False refl refl] by blast
    then show ?thesis by auto
  qed
qed

text \<open>
  the standard input is read whole, whatever its length, into a block that is never overrun.
\<close>

theorem read_stdin_all:
  "read_stdin False inp = inp \<and> length inp < snd (read_stdin_loop 4096 [] inp)"
  using read_stdin_loop_all [of "[]" 4096 inp] by (cases "read_stdin_loop 4096 [] inp") (simp add: read_stdin_def)

end
