(* ===== verification/Tar.thy ===== *)
theory Tar
  imports FileLayout
begin

text \<open>
  FINAL/src/tar.c: the tar archive written to an output stream while pieces arrive. The stream is
  the list of the bytes written so far, \<open>now\<close> is what \<open>time (NULL)\<close> returns.
\<close>

subsection \<open>The header\<close>

abbreviation TAR_BLOCK_SIZE :: nat where "TAR_BLOCK_SIZE \<equiv> 512"

text \<open>
  \<open>oct_to_str\<close>: the format is \<open>%0<size - 2>o\<close> and a space, the value an \<open>unsigned int\<close>; the text is at
  least \<open>size - 1\<close> characters long, so the field is full and ends with a zero.
\<close>

definition oct_to_str :: "nat \<Rightarrow> nat \<Rightarrow> bytes" where
  "oct_to_str val sz =
     snprintf sz (zero_pad (sz - 2) (show_base 8 (val mod 2 ^ 32)) @ [c_space]) @ [c_nul]"

text \<open>The fields of \<open>tar_header_t\<close> that are not zero throughout.\<close>

record tar_header =
  h_name :: bytes
  h_mode :: bytes
  h_uid :: bytes
  h_gid :: bytes
  h_size :: bytes
  h_mtime :: bytes
  h_chksum :: bytes

definition header_bytes :: "tar_header \<Rightarrow> bytes" where
  "header_bytes h = h_name h @ h_mode h @ h_uid h @ h_gid h @ h_size h @ h_mtime h @ h_chksum h
     @ str ''0'' @ replicate 100 0 @ str ''ustar'' @ [c_nul] @ str ''00''
     @ replicate 32 0 @ replicate 32 0 @ replicate 8 0 @ replicate 8 0 @ replicate 155 0
     @ replicate 12 0"

definition calculate_checksum :: "bytes \<Rightarrow> nat" where
  "calculate_checksum hdr = (\<Sum>b\<leftarrow>hdr. unat b) mod 2 ^ 32"

definition name_field :: "bytes \<Rightarrow> bytes" where
  "name_field path =
     (let len = strlen path
      in if len < 100 then cstr path @ replicate (100 - len) 0 else take 99 path @ [c_nul])"

definition tar_header_of :: "nat \<Rightarrow> bytes \<Rightarrow> nat \<Rightarrow> bytes" where
  "tar_header_of now path sz =
     (let hdr = \<lparr>h_name = name_field path, h_mode = oct_to_str 420 8, h_uid = oct_to_str 0 8,
                 h_gid = oct_to_str 0 8, h_size = oct_to_str sz 12, h_mtime = oct_to_str now 12,
                 h_chksum = replicate 8 c_space\<rparr>;
          chksum = calculate_checksum (header_bytes hdr)
      in header_bytes (hdr\<lparr>h_chksum := oct_to_str chksum 8\<rparr>))"

subsection \<open>The writer\<close>

record tar_writer_t =
  tw_tor :: torrent_t
  tw_out :: bytes
  tw_current_file_index :: int
  tw_file_bytes_written :: nat
  tw_total_written :: nat

definition tw_emit :: "bytes \<Rightarrow> tar_writer_t \<Rightarrow> tar_writer_t" where
  "tw_emit bs tw = tw\<lparr>tw_out := tw_out tw @ bs,
                      tw_total_written := (tw_total_written tw + length bs) mod 2 ^ 64\<rparr>"

definition write_header :: "nat \<Rightarrow> bytes \<Rightarrow> nat \<Rightarrow> tar_writer_t \<Rightarrow> tar_writer_t" where
  "write_header now path sz tw = tw_emit (tar_header_of now path sz) tw"

definition write_padding :: "tar_writer_t \<Rightarrow> tar_writer_t" where
  "write_padding tw =
     (let m = tw_total_written tw mod TAR_BLOCK_SIZE
      in if m \<noteq> 0 then tw_emit (replicate (TAR_BLOCK_SIZE - m) 0) tw else tw)"

definition tar_writer_open :: "torrent_t \<Rightarrow> tar_writer_t" where
  "tar_writer_open tor = \<lparr>tw_tor = tor, tw_out = [], tw_current_file_index = - 1,
                         tw_file_bytes_written = 0, tw_total_written = 0\<rparr>"

text \<open>The path built by \<open>strcat\<close> in a buffer of 4096 bytes: the components with slashes between.\<close>

fun tar_path :: "bytes list \<Rightarrow> bytes" where
  "tar_path [] = []"
| "tar_path [c] = cstr c"
| "tar_path (c # d # cs) = cstr c @ c_slash # tar_path (d # cs)"

definition file_tar_path :: "file_t \<Rightarrow> bytes" where
  "file_tar_path f = tar_path (case f_path f of Some p \<Rightarrow> p | None \<Rightarrow> [])"

text \<open>The switch to a new file; the stack buffer overflows when the path does not fit.\<close>

definition enter_file :: "nat \<Rightarrow> nat \<Rightarrow> file_t \<Rightarrow> tar_writer_t \<Rightarrow> ub + tar_writer_t" where
  "enter_file now i f tw =
     (if int i \<noteq> tw_current_file_index tw then
        (if 4096 \<le> length (file_tar_path f) then Inl Ub_OobWrite
         else Inr ((write_header now (file_tar_path f) (f_length f) tw)
                     \<lparr>tw_current_file_index := int i, tw_file_bytes_written := 0\<rparr>))
      else Inr tw)"

definition tar_write_file ::
  "nat \<Rightarrow> nat \<Rightarrow> nat \<Rightarrow> bytes \<Rightarrow> nat \<Rightarrow> nat \<Rightarrow> file_t \<Rightarrow> tar_writer_t \<Rightarrow> ub + tar_writer_t" where
  "tar_write_file now piece_start piece_end data i file_start f tw =
     (let file_end = (file_start + f_length f) mod 2 ^ 64;
          overlap_start = c_max piece_start file_start;
          overlap_end = c_min piece_end file_end
      in if overlap_start < overlap_end then
           (let offset_in_file = overlap_start - file_start;
                offset_in_piece = overlap_start - piece_start;
                n = overlap_end - overlap_start
            in case enter_file now i f tw of
                 Inl u \<Rightarrow> Inl u
               | Inr tw1 \<Rightarrow>
                   (let tw2 = (tw_emit (take n (drop offset_in_piece data)) tw1)
                                \<lparr>tw_file_bytes_written := (tw_file_bytes_written tw1 + n) mod 2 ^ 64\<rparr>
                    in Inr (if offset_in_file + n = f_length f then write_padding tw2 else tw2)))
         else Inr tw)"

text \<open>The loop over the files, with the running offset.\<close>

fun tar_write_files ::
  "nat \<Rightarrow> nat \<Rightarrow> nat \<Rightarrow> bytes \<Rightarrow> nat \<Rightarrow> nat \<Rightarrow> file_t list \<Rightarrow> tar_writer_t \<Rightarrow> ub + tar_writer_t" where
  "tar_write_files now piece_start piece_end data i offset [] tw = Inr tw"
| "tar_write_files now piece_start piece_end data i offset (f # fs) tw =
     (case tar_write_file now piece_start piece_end data i offset f tw of
        Inl u \<Rightarrow> Inl u
      | Inr tw' \<Rightarrow>
          tar_write_files now piece_start piece_end data (Suc i) ((offset + f_length f) mod 2 ^ 64) fs tw')"

definition tar_writer_write ::
  "nat \<Rightarrow> tar_writer_t \<Rightarrow> nat \<Rightarrow> bytes \<Rightarrow> ub + tar_writer_t" where
  "tar_writer_write now tw piece_index data =
     (let piece_start = (piece_index * t_piece_length (tw_tor tw)) mod 2 ^ 64;
          piece_end = (piece_start + length data) mod 2 ^ 64
      in tar_write_files now piece_start piece_end data 0 0 (t_files (tw_tor tw)) tw)"

text \<open>What the stream holds after \<open>tar_writer_close\<close>.\<close>

definition tar_writer_close :: "tar_writer_t \<Rightarrow> bytes" where
  "tar_writer_close tw =
     (let tw' = (if tw_current_file_index tw \<ge> 0
                    \<and> tw_file_bytes_written tw
                        < f_length (t_files (tw_tor tw) ! nat (tw_current_file_index tw))
                 then write_padding tw else tw)
      in tw_out tw' @ replicate 1024 0)"

subsection \<open>What a reader finds in a header\<close>

lemma length_zero_pad: "length (zero_pad w ds) = max w (length ds)"
  by (simp add: zero_pad_def max_def)

lemma length_oct_to_str: "2 \<le> sz \<Longrightarrow> length (oct_to_str val sz) = sz"
proof -
  assume "2 \<le> sz"
  define ds where "ds = zero_pad (sz - 2) (show_base 8 (val mod 2 ^ 32)) @ [c_space]"
  have "sz - 1 \<le> length ds"
    using \<open>2 \<le> sz\<close> unfolding ds_def length_append length_zero_pad by simp
  then have "length (take (sz - 1) ds) = sz - 1" by simp
  with \<open>2 \<le> sz\<close> show ?thesis unfolding oct_to_str_def snprintf_def ds_def by simp
qed

lemma length_name_field [simp]: "length (name_field path) = 100"
proof -
  have "strlen path \<le> length path"
    by (simp add: strlen_def cstr_def length_takeWhile_le)
  then show ?thesis by (simp add: name_field_def Let_def strlen_def)
qed

lemma length_header_bytes:
  assumes "length (h_name h) = 100" and "length (h_mode h) = 8" and "length (h_uid h) = 8"
    and "length (h_gid h) = 8" and "length (h_size h) = 12" and "length (h_mtime h) = 12"
    and "length (h_chksum h) = 8"
  shows "length (header_bytes h) = 512"
  using assms by (simp add: header_bytes_def)

lemma length_tar_header: "length (tar_header_of now path sz) = TAR_BLOCK_SIZE"
  by (simp add: tar_header_of_def Let_def length_header_bytes length_oct_to_str)

text \<open>A numeric field read back: its octal digits, up to the space or the zero.\<close>

definition oct_field :: "bytes \<Rightarrow> nat" where
  "oct_field bs = digits_val 8 (takeWhile isdigit bs)"

lemma oct_field_oct_to_str:
  assumes "2 \<le> sz" and "val mod 2 ^ 32 < 8 ^ (sz - 1)"
  shows "oct_field (oct_to_str val sz) = val mod 2 ^ 32"
proof -
  let ?n = "val mod 2 ^ 32" and ?ds = "zero_pad (sz - 2) (show_base 8 (val mod 2 ^ 32))"
  have "length (show_base 8 ?n) \<le> sz - 1"
    using assms by (intro length_show_base) auto
  then have len: "length ?ds = sz - 1 \<or> length ?ds = sz - 2"
    using assms(1) unfolding length_zero_pad by linarith
  have dig: "\<forall>d\<in>set ?ds. isdigit d"
    using isdigit_show_base [of 8 ?n] by (auto simp: zero_pad_def isdigit_def)
  have "takeWhile isdigit (oct_to_str val sz) = ?ds"
  proof (cases "length ?ds = sz - 1")
    case True
    then have "oct_to_str val sz = ?ds @ c_nul # []" by (simp add: oct_to_str_def snprintf_def)
    moreover have "\<not> isdigit c_nul" by (simp add: isdigit_def)
    ultimately show ?thesis using takeWhile_append_stop(1) [OF dig] by metis
  next
    case False
    with len assms(1) have "Suc (length ?ds) = sz - 1" by auto
    then have "oct_to_str val sz = ?ds @ c_space # [c_nul]"
      by (simp add: oct_to_str_def snprintf_def)
    moreover have "\<not> isdigit c_space" by (simp add: isdigit_def)
    ultimately show ?thesis using takeWhile_append_stop(1) [OF dig] by metis
  qed
  then show ?thesis
    by (simp add: oct_field_def digits_val_zero_pad digits_val_show_base)
qed

lemma header_slices:
  assumes "length (h_name h) = 100" and "length (h_mode h) = 8" and "length (h_uid h) = 8"
    and "length (h_gid h) = 8" and "length (h_size h) = 12" and "length (h_mtime h) = 12"
    and "length (h_chksum h) = 8"
  shows "slice 0 100 (header_bytes h) = h_name h" and "slice 124 136 (header_bytes h) = h_size h"
    and "slice 136 148 (header_bytes h) = h_mtime h"
    and "slice 148 156 (header_bytes h) = h_chksum h"
    and "length c = 8 \<Longrightarrow> memcpy_at 148 c (header_bytes h) = header_bytes (h\<lparr>h_chksum := c\<rparr>)"
  using assms by (simp_all add: slice_def header_bytes_def memcpy_at_def)

lemma unat_u8_le: "unat (b :: u8) \<le> 255"
proof -
  have "unat b < 2 ^ 8" using unsigned_less [of b, where 'a = nat] by simp
  then show ?thesis by simp
qed

lemma checksum_bound: "length bs = 512 \<Longrightarrow> (\<Sum>b\<leftarrow>bs. unat (b :: u8)) < 8 ^ 7"
proof -
  assume len: "length bs = 512"
  have "(\<Sum>b\<leftarrow>bs. unat b) \<le> (\<Sum>b\<leftarrow>bs. 255)"
    by (rule sum_list_mono) (rule unat_u8_le)
  also have "\<dots> = 512 * 255" using len by (simp add: sum_list_triv)
  finally show ?thesis by simp
qed

lemma cstr_name_field: "cstr (name_field path) = take 99 (cstr path)"
proof (cases "strlen path < 100")
  case True
  obtain k where "100 - strlen path = Suc k" using True by (metis Suc_pred' zero_less_diff)
  with True show ?thesis
    by (simp add: name_field_def Let_def cstr_terminated cstr_no_nul strlen_def)
next
  case False
  have "path = cstr path @ dropWhile (\<lambda>b. b \<noteq> c_nul) path" by (simp add: cstr_def)
  then have "take 99 path = take 99 (cstr path @ dropWhile (\<lambda>b. b \<noteq> c_nul) path)" by simp
  also have "\<dots> = take 99 (cstr path)" using False by (simp add: strlen_def)
  finally have "take 99 path = take 99 (cstr path)" .
  then have "c_nul \<notin> set (take 99 path)" by (metis cstr_no_nul in_set_takeD)
  with False \<open>take 99 path = take 99 (cstr path)\<close> show ?thesis
    by (simp add: name_field_def Let_def cstr_terminated)
qed

text \<open>
  a header is one block; a reader finds in it the first 99 bytes of the path, the length modulo
  4 GiB, and the checksum of the header with its checksum field blanked.
\<close>

theorem tar_header_reads_back:
  "length (tar_header_of now path sz) = 512
   \<and> cstr (slice 0 100 (tar_header_of now path sz)) = take 99 (cstr path)
   \<and> oct_field (slice 124 136 (tar_header_of now path sz)) = sz mod 2 ^ 32
   \<and> oct_field (slice 148 156 (tar_header_of now path sz))
      = (\<Sum>b\<leftarrow>memcpy_at 148 (replicate 8 c_space) (tar_header_of now path sz). unat b)"
proof -
  define h where "h = \<lparr>h_name = name_field path, h_mode = oct_to_str 420 8, h_uid = oct_to_str 0 8,
    h_gid = oct_to_str 0 8, h_size = oct_to_str sz 12, h_mtime = oct_to_str now 12,
    h_chksum = replicate 8 c_space\<rparr>"
  define c where "c = calculate_checksum (header_bytes h)"
  have hdr: "tar_header_of now path sz = header_bytes (h\<lparr>h_chksum := oct_to_str c 8\<rparr>)"
    by (simp add: tar_header_of_def h_def c_def Let_def)
  have len: "length (h_name h) = 100" "length (h_mode h) = 8" "length (h_uid h) = 8"
    "length (h_gid h) = 8" "length (h_size h) = 12" "length (h_mtime h) = 12"
    "length (h_chksum h) = 8"
    by (simp_all add: h_def length_oct_to_str)
  have b: "(\<Sum>b\<leftarrow>header_bytes h. unat b) < 8 ^ 7"
    by (rule checksum_bound) (rule length_header_bytes [OF len])
  then have c: "c = (\<Sum>b\<leftarrow>header_bytes h. unat b)"
    by (simp add: c_def calculate_checksum_def)
  let ?h = "h\<lparr>h_chksum := oct_to_str c 8\<rparr>"
  note sl = header_slices [of ?h]
  have "h\<lparr>h_chksum := replicate 8 c_space\<rparr> = h" by (simp add: h_def)
  then have "memcpy_at 148 (replicate 8 c_space) (header_bytes ?h) = header_bytes h"
    using sl(5) [of "replicate 8 c_space"] len by (simp add: length_oct_to_str)
  moreover have "oct_field (oct_to_str c 8) = c" "oct_field (oct_to_str sz 12) = sz mod 2 ^ 32"
    using b c by (simp_all add: oct_field_oct_to_str)
  ultimately show ?thesis
    using sl(1,2,4) len length_tar_header [of now path sz] c unfolding hdr
    by (simp add: length_oct_to_str h_def cstr_name_field)
qed

subsection \<open>The archive of a prefix of the stream\<close>

definition tar_pad :: "nat \<Rightarrow> bytes" where
  "tar_pad n = replicate ((512 - n mod 512) mod 512) 0"

text \<open>
  What the archive holds of a file at \<open>start\<close> when the first \<open>y\<close> bytes of the stream \<open>D\<close> have
  arrived: nothing before its first byte; a file of length zero never gets a header.
\<close>

definition tar_entry :: "nat \<Rightarrow> bytes \<Rightarrow> file_t \<Rightarrow> nat \<Rightarrow> nat \<Rightarrow> bytes" where
  "tar_entry now D f start y =
     (if f_length f = 0 \<or> y \<le> start then []
      else tar_header_of now (file_tar_path f) (f_length f)
           @ slice start (min y (start + f_length f)) D
           @ (if start + f_length f \<le> y then tar_pad (f_length f) else []))"

abbreviation lengths_of :: "file_t list \<Rightarrow> nat list" where
  "lengths_of fs \<equiv> map f_length fs"

definition tar_entries :: "nat \<Rightarrow> bytes \<Rightarrow> file_t list \<Rightarrow> (nat \<Rightarrow> nat) \<Rightarrow> bytes" where
  "tar_entries now D fs Y =
     concat (map (\<lambda>k. tar_entry now D (fs ! k) (stream_start (lengths_of fs) k) (Y k)) [0..<length fs])"

definition began :: "file_t list \<Rightarrow> (nat \<Rightarrow> nat) \<Rightarrow> nat \<Rightarrow> bool" where
  "began fs Y k \<longleftrightarrow> 0 < f_length (fs ! k) \<and> stream_start (lengths_of fs) k < Y k"

text \<open>The index and the byte count of the file being written.\<close>

definition current_ok :: "file_t list \<Rightarrow> (nat \<Rightarrow> nat) \<Rightarrow> tar_writer_t \<Rightarrow> bool" where
  "current_ok fs Y tw \<longleftrightarrow>
     (tw_current_file_index tw = - 1 \<and> (\<forall>k<length fs. \<not> began fs Y k))
     \<or> (\<exists>k<length fs. tw_current_file_index tw = int k \<and> began fs Y k
          \<and> (\<forall>j<length fs. k < j \<longrightarrow> \<not> began fs Y j)
          \<and> tw_file_bytes_written tw
             = min (Y k) (stream_start (lengths_of fs) k + f_length (fs ! k)) - stream_start (lengths_of fs) k)"

text \<open>\<open>Y k\<close> is how far the stream has been taken into account for file \<open>k\<close>.\<close>

definition tar_at :: "nat \<Rightarrow> bytes \<Rightarrow> (nat \<Rightarrow> nat) \<Rightarrow> tar_writer_t \<Rightarrow> bool" where
  "tar_at now D Y tw \<longleftrightarrow>
     tw_out tw = tar_entries now D (t_files (tw_tor tw)) Y
     \<and> tw_total_written tw = length (tw_out tw) mod 2 ^ 64
     \<and> current_ok (t_files (tw_tor tw)) Y tw"

lemma tar_at_cong:
  assumes "\<And>k. k < length (t_files (tw_tor tw)) \<Longrightarrow> Y k = Y' k"
  shows "tar_at now D Y tw \<longleftrightarrow> tar_at now D Y' tw"
proof -
  have "tar_entries now D (t_files (tw_tor tw)) Y = tar_entries now D (t_files (tw_tor tw)) Y'"
    unfolding tar_entries_def by (intro arg_cong [where f = concat] map_cong refl) (simp add: assms)
  moreover have "current_ok (t_files (tw_tor tw)) Y tw = current_ok (t_files (tw_tor tw)) Y' tw"
    unfolding current_ok_def began_def by (simp add: assms cong: conj_cong)
  ultimately show ?thesis by (simp add: tar_at_def)
qed

lemma upt_split: "i < n \<Longrightarrow> [0..<n] = [0..<i] @ i # [Suc i..<n]"
  using upt_add_eq_append [of 0 i "n - i"] upt_conv_Cons [of i n] by simp

text \<open>Taking file \<open>i\<close> further appends to the archive when no later file has begun.\<close>

lemma tar_entries_step:
  assumes "i < length fs" and "\<And>k. k \<noteq> i \<Longrightarrow> Y' k = Y k"
    and "tar_entry now D (fs ! i) (stream_start (lengths_of fs) i) (Y' i)
           = tar_entry now D (fs ! i) (stream_start (lengths_of fs) i) (Y i) @ x"
    and "x \<noteq> [] \<Longrightarrow> \<forall>k<length fs. i < k \<longrightarrow> Y k \<le> stream_start (lengths_of fs) k"
  shows "tar_entries now D fs Y' = tar_entries now D fs Y @ x"
proof -
  let ?e = "\<lambda>Y k. tar_entry now D (fs ! k) (stream_start (lengths_of fs) k) (Y k)"
  have split: "tar_entries now D fs Z = concat (map (?e Z) [0..<i]) @ ?e Z i
      @ concat (map (?e Z) [Suc i..<length fs])" for Z
    by (simp add: tar_entries_def upt_split [OF assms(1)])
  have same: "concat (map (?e Y') ks) = concat (map (?e Y) ks)" if "i \<notin> set ks" for ks
    using that by (intro arg_cong [where f = concat] map_cong refl) (metis assms(2))
  have tail: "concat (map (?e Y) [Suc i..<length fs]) = []" if "x \<noteq> []"
    using assms(4) [OF that] by (auto simp: tar_entry_def)
  have s: "concat (map (?e Y') [0..<i]) = concat (map (?e Y) [0..<i])"
    "concat (map (?e Y') [Suc i..<length fs]) = concat (map (?e Y) [Suc i..<length fs])"
    by (rule same, simp)+
  show ?thesis
  proof (cases "x = []")
    case True
    then show ?thesis unfolding split [of Y'] split [of Y] s assms(3) by simp
  next
    case False
    show ?thesis
      unfolding split [of Y'] split [of Y] s assms(3) tail [OF False] by simp
  qed
qed

lemma tar_pad_mod: "(n + length (tar_pad n)) mod 512 = 0"
proof -
  have "(n + (512 - n mod 512) mod 512) mod 512 = 0"
  proof (cases "n mod 512 = 0")
    case False
    then have "(512 - n mod 512) mod 512 = 512 - n mod 512" by (intro mod_less) simp
    moreover have "n + (512 - n mod 512) = 512 * (n div 512 + 1)"
    proof -
      define q r where "q = n div 512" and "r = n mod 512"
      have "n = 512 * q + r" "r < 512" by (simp_all add: q_def r_def)
      then show ?thesis unfolding q_def [symmetric] r_def [symmetric] by simp
    qed
    ultimately show ?thesis by (metis mod_mult_self1_is_0)
  qed simp
  then show ?thesis by (simp add: tar_pad_def)
qed

lemma length_complete_entry:
  assumes "start + f_length f \<le> y" and "start + f_length f \<le> length D"
  shows "length (tar_entry now D f start y) mod 512 = 0"
proof (cases "f_length f = 0 \<or> y \<le> start")
  case False
  have "min y (start + f_length f) = start + f_length f" using assms(1) by simp
  with False assms have "length (tar_entry now D f start y)
      = 512 + (f_length f + length (tar_pad (f_length f)))"
    by (simp add: tar_entry_def length_tar_header)
  then show ?thesis using tar_pad_mod [of "f_length f"] by simp
qed (auto simp: tar_entry_def)

lemma length_concat_mod:
  "\<forall>x\<in>set xs. length x mod 512 = 0 \<Longrightarrow> length (concat xs) mod 512 = 0"
  by (induction xs) (auto simp: mod_add_eq [symmetric])

lemma tw_emit_simps [simp]:
  "tw_out (tw_emit bs tw) = tw_out tw @ bs" "tw_tor (tw_emit bs tw) = tw_tor tw"
  "tw_current_file_index (tw_emit bs tw) = tw_current_file_index tw"
  "tw_file_bytes_written (tw_emit bs tw) = tw_file_bytes_written tw"
  by (simp_all add: tw_emit_def)

lemma tw_emit_total:
  "tw_total_written tw = length (tw_out tw) mod 2 ^ 64 \<Longrightarrow>
     tw_total_written (tw_emit bs tw) = length (tw_out tw @ bs) mod 2 ^ 64"
  by (simp add: tw_emit_def mod_add_left_eq)

text \<open>The padding the writer adds at the end of a file is the one of the format.\<close>

lemma write_padding_eq:
  assumes "tw_total_written tw = length (tw_out tw) mod 2 ^ 64"
    and "length (tw_out tw) mod 512 = n mod 512"
  shows "tw_out (write_padding tw) = tw_out tw @ tar_pad n"
    and "tw_total_written (write_padding tw) = length (tw_out (write_padding tw)) mod 2 ^ 64"
    and "tw_tor (write_padding tw) = tw_tor tw"
    and "tw_current_file_index (write_padding tw) = tw_current_file_index tw"
    and "tw_file_bytes_written (write_padding tw) = tw_file_bytes_written tw"
proof -
  have "(2 :: nat) ^ 64 = 512 * 2 ^ 55" by simp
  then have "tw_total_written tw mod 512 = n mod 512"
    using assms by (metis dvd_triv_left mod_mod_cancel)
  then show "tw_out (write_padding tw) = tw_out tw @ tar_pad n"
    by (simp add: write_padding_def Let_def tar_pad_def)
  show "tw_total_written (write_padding tw) = length (tw_out (write_padding tw)) mod 2 ^ 64"
    using tw_emit_total [OF assms(1)] assms(1) by (simp only: write_padding_def Let_def tw_emit_simps split: if_split) simp
qed (simp_all add: write_padding_def Let_def)

text \<open>Every path fits the stack buffer.\<close>

definition paths_fit :: "file_t list \<Rightarrow> bool" where
  "paths_fit fs \<longleftrightarrow> (\<forall>f\<in>set fs. length (file_tar_path f) < 4096)"

text \<open>Entering a file, and appending its data.\<close>

lemma entries_before_mod:
  assumes "i < length fs" and "length D = sum_list (lengths_of fs)"
    and "\<And>k. k < i \<Longrightarrow> stream_start (lengths_of fs) i \<le> Y k"
    and "\<And>k. i < k \<Longrightarrow> k < length fs \<Longrightarrow> Y k \<le> stream_start (lengths_of fs) k"
  shows "length (tar_entries now D fs Y) mod 512
    = length (tar_entry now D (fs ! i) (stream_start (lengths_of fs) i) (Y i)) mod 512"
proof -
  let ?st = "stream_start (lengths_of fs)"
  let ?e = "\<lambda>k. tar_entry now D (fs ! k) (?st k) (Y k)"
  have "length (?e k) mod 512 = 0" if "k < i" for k
  proof (rule length_complete_entry)
    have le: "?st (Suc k) \<le> ?st i" using that by (intro stream_start_mono) simp
    have end_k: "?st k + f_length (fs ! k) = ?st (Suc k)"
      using that assms(1) by (simp add: stream_start_Suc)
    show "?st k + f_length (fs ! k) \<le> Y k" using assms(3) [OF that] le end_k by simp
    show "?st k + f_length (fs ! k) \<le> length D"
      using end_k stream_start_le [of "lengths_of fs" "Suc k"] assms(2) by simp
  qed
  then have pre: "length (concat (map ?e [0..<i])) mod 512 = 0"
    by (intro length_concat_mod) auto
  have tail: "concat (map ?e [Suc i..<length fs]) = []"
    using assms(4) by (auto simp: tar_entry_def)
  have "tar_entries now D fs Y
      = concat (map ?e [0..<i]) @ ?e i @ concat (map ?e [Suc i..<length fs])"
    by (simp add: tar_entries_def upt_split [OF assms(1)])
  then have "length (tar_entries now D fs Y) = length (concat (map ?e [0..<i])) + length (?e i)"
    unfolding tail by simp
  then show ?thesis using pre by (simp add: mod_add_eq [symmetric])
qed

lemma enter_file_ok:
  assumes "length (file_tar_path f) < 4096"
  shows "enter_file now i f tw = Inr (if int i = tw_current_file_index tw then tw
    else (tw_emit (tar_header_of now (file_tar_path f) (f_length f)) tw)
           \<lparr>tw_current_file_index := int i, tw_file_bytes_written := 0\<rparr>)"
  using assms by (simp add: enter_file_def write_header_def)

lemma tar_write_file_none:
  assumes "\<not> max ps s < min pe (s + f_length f)" and "s + f_length f < 2 ^ 64"
  shows "tar_write_file now ps pe data i s f tw = Inr tw"
  using assms by (simp add: tar_write_file_def Let_def del: max_less_iff_conj min_less_iff_conj)

text \<open>
  The file that a piece meets: the archive grows by the header if the file is new, the bytes of
  the overlap, and the padding if the file is finished.
\<close>

lemma tar_write_file_some:
  assumes "max ps s < min pe (s + f_length f)" and "s + f_length f < 2 ^ 64"
    and "length (file_tar_path f) < 4096"
    and "tw_total_written tw = length (tw_out tw) mod 2 ^ 64"
    and "int i = tw_current_file_index tw \<longleftrightarrow> s < ps"
    and "s < ps \<Longrightarrow> tw_file_bytes_written tw = ps - s"
    and "data = slice ps pe D" and "pe \<le> length D"
    and "s + f_length f \<le> pe \<Longrightarrow>
      (length (tw_out tw) + (if s < ps then 0 else 512) + (s + f_length f - max ps s)) mod 512
        = f_length f mod 512"
  shows "\<exists>tw'. tar_write_file now ps pe data i s f tw = Inr tw' \<and> tw_tor tw' = tw_tor tw
    \<and> tw_out tw' = tw_out tw
        @ ((if s < ps then [] else tar_header_of now (file_tar_path f) (f_length f))
           @ slice (max ps s) (min pe (s + f_length f)) D
           @ (if s + f_length f \<le> pe then tar_pad (f_length f) else []))
    \<and> tw_total_written tw' = length (tw_out tw') mod 2 ^ 64
    \<and> tw_current_file_index tw' = int i
    \<and> tw_file_bytes_written tw' = min pe (s + f_length f) - s"
proof -
  let ?os = "max ps s" and ?oe = "min pe (s + f_length f)"
  let ?hd = "if s < ps then [] else tar_header_of now (file_tar_path f) (f_length f)"
  obtain tw1 where tw1: "enter_file now i f tw = Inr tw1" "tw_tor tw1 = tw_tor tw"
    "tw_out tw1 = tw_out tw @ ?hd" "tw_total_written tw1 = length (tw_out tw1) mod 2 ^ 64"
    "tw_current_file_index tw1 = int i" "tw_file_bytes_written tw1 = ?os - s"
  proof (cases "s < ps")
    case True
    then have "enter_file now i f tw = Inr tw" "max ps s - s = ps - s"
      using enter_file_ok [OF assms(3)] assms(5) by simp_all
    with True that [of tw] assms(4,6) assms(5) show ?thesis by simp
  next
    case False
    let ?tw1 = "(tw_emit (tar_header_of now (file_tar_path f) (f_length f)) tw)
           \<lparr>tw_current_file_index := int i, tw_file_bytes_written := 0\<rparr>"
    have "enter_file now i f tw = Inr ?tw1" "max ps s - s = 0"
      using enter_file_ok [OF assms(3)] assms(5) False by simp_all
    moreover have "tw_total_written ?tw1 = length (tw_out ?tw1) mod 2 ^ 64"
      using tw_emit_total [OF assms(4)] by simp
    ultimately show ?thesis using False that [of ?tw1] by simp
  qed
  have data: "take (?oe - ?os) (drop (?os - ps) data) = slice ?os ?oe D"
  proof -
    have "take (?oe - ?os) (drop (?os - ps) (slice ps pe D)) = slice (?os - ps) (?oe - ps) (slice ps pe D)"
      unfolding slice_def [of "?os - ps"] using assms(1) by simp
    also have "\<dots> = slice (ps + (?os - ps)) (ps + (?oe - ps)) D"
      using assms(1) by (intro slice_slice) simp
    finally show ?thesis using assms(1,7) by simp
  qed
  have n: "(tw_file_bytes_written tw1 + (?oe - ?os)) mod 2 ^ 64 = ?oe - s"
    using assms(1,2) tw1(6) by simp
  let ?tw2 = "(tw_emit (slice ?os ?oe D) tw1)\<lparr>tw_file_bytes_written := ?oe - s\<rparr>"
  have fin: "?os - s + (?oe - ?os) = f_length f \<longleftrightarrow> s + f_length f \<le> pe"
    using assms(1) by auto
  have w: "tar_write_file now ps pe data i s f tw
      = Inr (if s + f_length f \<le> pe then write_padding ?tw2 else ?tw2)"
  proof -
    have m: "(s + f_length f) mod 2 ^ 64 = s + f_length f" using assms(2) by simp
    show ?thesis
      unfolding tar_write_file_def Let_def c_max_max c_min_min m if_P [OF assms(1)] tw1(1) sum.case
        data n fin by (rule refl)
  qed
  have t2: "tw_total_written ?tw2 = length (tw_out ?tw2) mod 2 ^ 64"
    using tw_emit_total [OF tw1(4)] by simp
  show ?thesis
  proof (cases "s + f_length f \<le> pe")
    case False
    with w tw1 t2 show ?thesis by simp
  next
    case True
    have "length (slice ?os ?oe D) = s + f_length f - ?os"
      using True assms(8) by simp
    then have "length (tw_out ?tw2) mod 512 = f_length f mod 512"
      using assms(9) [OF True] tw1(3) by (simp add: length_tar_header add.assoc split: if_splits)
    note pad = write_padding_eq [OF t2 this]
    with True w tw1 show ?thesis by simp
  qed
qed

subsection \<open>One piece\<close>

text \<open>Progress while the loop is at file \<open>i\<close>: earlier files have seen the piece.\<close>

definition taken :: "nat \<Rightarrow> nat \<Rightarrow> nat \<Rightarrow> nat \<Rightarrow> nat" where
  "taken i ps pe = (\<lambda>k. if k < i then pe else ps)"

lemma tar_entry_grows:
  assumes "max ps s < min pe (s + f_length f)" and "pe \<le> length D"
  shows "tar_entry now D f s pe = tar_entry now D f s ps
    @ (if s < ps then [] else tar_header_of now (file_tar_path f) (f_length f))
    @ slice (max ps s) (min pe (s + f_length f)) D
    @ (if s + f_length f \<le> pe then tar_pad (f_length f) else [])"
proof (cases "s < ps")
  case True
  then have "slice s ps D @ slice ps (min pe (s + f_length f)) D = slice s (min pe (s + f_length f)) D"
    using assms(1) by (intro slice_append) auto
  moreover have "min ps (s + f_length f) = ps" "max ps s = ps" using True assms(1) by auto
  ultimately show ?thesis
    using True assms(1) by (simp add: tar_entry_def)
next
  case False
  then have "max ps s = s" by simp
  with False assms(1) show ?thesis by (simp add: tar_entry_def)
qed

lemma tar_entry_same:
  assumes "\<not> max ps s < min pe (s + f_length f)" and "ps \<le> pe"
  shows "tar_entry now D f s pe = tar_entry now D f s ps"
proof -
  consider "pe \<le> s" | "s + f_length f \<le> ps" | "f_length f = 0" | "pe \<le> ps"
    using assms(1) by linarith
  then show ?thesis
  proof cases
    case 2
    then have "min pe (s + f_length f) = s + f_length f" "min ps (s + f_length f) = s + f_length f"
      using assms(2) by simp_all
    with 2 assms(2) show ?thesis by (simp only: tar_entry_def) auto
  qed (use assms(2) in \<open>auto simp: tar_entry_def\<close>)
qed

lemma current_ok_cong:
  assumes "\<And>k. k < length fs \<Longrightarrow> began fs Y k = began fs Y' k"
    and "\<And>k. k < length fs \<Longrightarrow> began fs Y k \<Longrightarrow>
      min (Y k) (stream_start (lengths_of fs) k + f_length (fs ! k))
        = min (Y' k) (stream_start (lengths_of fs) k + f_length (fs ! k))"
  shows "current_ok fs Y tw = current_ok fs Y' tw"
  unfolding current_ok_def using assms by (metis (no_types, lifting))

lemma current_ok_file:
  assumes "current_ok fs Y tw" and "i < length fs" and "0 < f_length (fs ! i)"
    and "\<And>k. i < k \<Longrightarrow> k < length fs \<Longrightarrow> Y k \<le> stream_start (lengths_of fs) k"
  shows "int i = tw_current_file_index tw \<longleftrightarrow> stream_start (lengths_of fs) i < Y i"
    and "stream_start (lengths_of fs) i < Y i \<Longrightarrow> tw_file_bytes_written tw
      = min (Y i) (stream_start (lengths_of fs) i + f_length (fs ! i)) - stream_start (lengths_of fs) i"
proof -
  have later: "\<not> began fs Y k" if "i < k" "k < length fs" for k
    using assms(4) [OF that] by (simp add: began_def)
  have i: "began fs Y i \<longleftrightarrow> stream_start (lengths_of fs) i < Y i"
    using assms(3) by (simp add: began_def)
  consider "tw_current_file_index tw = - 1" "\<forall>k<length fs. \<not> began fs Y k"
    | k where "k < length fs" "tw_current_file_index tw = int k" "began fs Y k"
      "\<forall>j<length fs. k < j \<longrightarrow> \<not> began fs Y j" "tw_file_bytes_written tw
      = min (Y k) (stream_start (lengths_of fs) k + f_length (fs ! k)) - stream_start (lengths_of fs) k"
    using assms(1) unfolding current_ok_def by blast
  then have "(int i = tw_current_file_index tw \<longleftrightarrow> stream_start (lengths_of fs) i < Y i)
    \<and> (stream_start (lengths_of fs) i < Y i \<longrightarrow> tw_file_bytes_written tw
      = min (Y i) (stream_start (lengths_of fs) i + f_length (fs ! i)) - stream_start (lengths_of fs) i)"
  proof cases
    case 1
    then show ?thesis using i assms(2) by auto
  next
    case (2 k)
    have "k \<le> i" using later 2(1,3) not_less by blast
    moreover have "began fs Y i \<Longrightarrow> \<not> k < i" using 2(4) assms(2) by blast
    ultimately show ?thesis using 2 i by auto
  qed
  then show "int i = tw_current_file_index tw \<longleftrightarrow> stream_start (lengths_of fs) i < Y i"
    and "stream_start (lengths_of fs) i < Y i \<Longrightarrow> tw_file_bytes_written tw
      = min (Y i) (stream_start (lengths_of fs) i + f_length (fs ! i)) - stream_start (lengths_of fs) i"
    by blast+
qed

lemma tar_at_skip:
  assumes at: "tar_at now D (taken i ps pe) tw" and fs: "t_files (tw_tor tw) = fs"
    and i: "i < length fs" and "ps \<le> pe"
    and over: "\<not> max ps (stream_start (lengths_of fs) i)
      < min pe (stream_start (lengths_of fs) i + f_length (fs ! i))"
  shows "tar_at now D (taken (Suc i) ps pe) tw"
proof -
  let ?s = "stream_start (lengths_of fs) i" and ?f = "fs ! i"
  have other: "taken (Suc i) ps pe k = taken i ps pe k" if "k \<noteq> i" for k
    using that by (auto simp: taken_def)
  have Y: "taken i ps pe i = ps" "taken (Suc i) ps pe i = pe" by (simp_all add: taken_def)
  have "tar_entries now D fs (taken (Suc i) ps pe) = tar_entries now D fs (taken i ps pe) @ []"
    using i other by (rule tar_entries_step) (simp_all add: Y tar_entry_same [OF over assms(4)])
  moreover have "current_ok fs (taken i ps pe) tw = current_ok fs (taken (Suc i) ps pe) tw"
  proof (rule current_ok_cong)
    fix k
    have cases: "f_length ?f = 0 \<or> pe \<le> ?s \<or> ?s + f_length ?f \<le> ps \<or> ps = pe"
      using over assms(4) by linarith
    show "began fs (taken i ps pe) k = began fs (taken (Suc i) ps pe) k"
      using other [of k] cases assms(4) by (cases "k = i") (auto simp: began_def Y)
    assume "began fs (taken i ps pe) k"
    then show "min (taken i ps pe k) (stream_start (lengths_of fs) k + f_length (fs ! k))
        = min (taken (Suc i) ps pe k) (stream_start (lengths_of fs) k + f_length (fs ! k))"
      using other [of k] cases assms(4) by (cases "k = i") (auto simp: began_def Y)
  qed
  ultimately show ?thesis using at by (simp add: tar_at_def fs)
qed

lemma tar_at_step:
  assumes at: "tar_at now D (taken i ps pe) tw" and fs: "t_files (tw_tor tw) = fs"
    and i: "i < length fs" and D: "length D = sum_list (lengths_of fs)" "length D < 2 ^ 64"
    and ps: "ps \<le> pe" "pe \<le> length D" and data: "data = slice ps pe D" and fit: "paths_fit fs"
  shows "\<exists>tw'. tar_write_file now ps pe data i (stream_start (lengths_of fs) i) (fs ! i) tw = Inr tw'
    \<and> tw_tor tw' = tw_tor tw \<and> tar_at now D (taken (Suc i) ps pe) tw'"
proof -
  let ?s = "stream_start (lengths_of fs) i" and ?f = "fs ! i"
  let ?over = "max ps ?s < min pe (?s + f_length ?f)"
  have end64: "?s + f_length ?f < 2 ^ 64"
    using file_end_le [of i "lengths_of fs"] i D by simp
  have later: "?s + f_length ?f \<le> stream_start (lengths_of fs) k" if "i < k" for k
    using that i stream_start_mono [of "Suc i" k "lengths_of fs"] by (simp add: stream_start_Suc)
  have earlier: "stream_start (lengths_of fs) k \<le> ?s" if "k < i" for k
    using that by (intro stream_start_mono) simp
  have other: "taken (Suc i) ps pe k = taken i ps pe k" if "k \<noteq> i" for k
    using that by (auto simp: taken_def)
  have Y: "taken i ps pe i = ps" "taken (Suc i) ps pe i = pe" by (simp_all add: taken_def)
  show ?thesis
  proof (cases ?over)
    case False
    with tar_at_skip [OF at fs i ps(1)] tar_write_file_none [OF False end64] show ?thesis by blast
  next
    case True
    have len: "0 < f_length ?f" using True by linarith
    have after: "taken i ps pe k \<le> stream_start (lengths_of fs) k" if "i < k" for k
      using later [OF that] True that by (simp add: taken_def)
    have before: "?s \<le> taken i ps pe k" if "k < i" for k
      using True that by (simp add: taken_def)
    have tot: "tw_total_written tw = length (tw_out tw) mod 2 ^ 64"
      and out: "tw_out tw = tar_entries now D fs (taken i ps pe)"
      and cur: "current_ok fs (taken i ps pe) tw"
      using at by (simp_all add: tar_at_def fs)
    have c: "int i = tw_current_file_index tw \<longleftrightarrow> ?s < ps"
      "?s < ps \<Longrightarrow> tw_file_bytes_written tw = ps - ?s"
      using current_ok_file [OF cur i len after] True by (simp_all add: Y)
    have lenout: "length (tw_out tw) mod 512 = (if ?s < ps then ps - ?s else 0) mod 512"
    proof -
      have "length (tar_entry now D ?f ?s ps) = (if ?s < ps then 512 + (ps - ?s) else 0)"
        using True ps(2) by (simp add: tar_entry_def length_tar_header)
      moreover have "length (tw_out tw) mod 512
          = length (tar_entry now D ?f ?s (taken i ps pe i)) mod 512"
        unfolding out by (rule entries_before_mod [OF i D(1) before after])
      ultimately show ?thesis
        unfolding Y by (cases "?s < ps") (simp_all only: if_True if_False mod_add_self1)
    qed
    have "(length (tw_out tw) + (if ?s < ps then 0 else 512) + (?s + f_length ?f - max ps ?s)) mod 512
        = f_length ?f mod 512"
    proof (cases "?s < ps")
      case True
      then have "length (tw_out tw) mod 512 = (ps - ?s) mod 512" unfolding lenout by simp
      then have "(length (tw_out tw) + (?s + f_length ?f - ps)) mod 512
          = (ps - ?s + (?s + f_length ?f - ps)) mod 512"
        by (rule mod_add_cong) (rule refl)
      moreover have "ps - ?s + (?s + f_length ?f - ps) = f_length ?f"
        using True \<open>?over\<close> by linarith
      ultimately show ?thesis using True by (simp add: max_def)
    next
      case False
      then have "length (tw_out tw) mod 512 = 0" using lenout by simp
      with False show ?thesis by (simp add: max_def mod_add_eq [symmetric])
    qed
    note aligned = this
    have "length (file_tar_path ?f) < 4096" using fit i by (simp add: paths_fit_def)
    from tar_write_file_some [OF True end64 this tot c data ps(2) aligned, of now] obtain tw' where
      w: "tar_write_file now ps pe data i ?s ?f tw = Inr tw'" "tw_tor tw' = tw_tor tw"
      "tw_out tw' = tw_out tw @ ((if ?s < ps then [] else tar_header_of now (file_tar_path ?f) (f_length ?f))
           @ slice (max ps ?s) (min pe (?s + f_length ?f)) D
           @ (if ?s + f_length ?f \<le> pe then tar_pad (f_length ?f) else []))"
      "tw_total_written tw' = length (tw_out tw') mod 2 ^ 64"
      "tw_current_file_index tw' = int i"
      "tw_file_bytes_written tw' = min pe (?s + f_length ?f) - ?s"
      by blast
    have "tw_out tw' = tar_entries now D fs (taken (Suc i) ps pe)"
      unfolding w(3) out using tar_entry_grows [OF True ps(2)] after
      by (intro tar_entries_step [OF i other, symmetric]) (simp_all add: Y)
    moreover have "current_ok fs (taken (Suc i) ps pe) tw'"
      unfolding current_ok_def
    proof (intro disjI2 exI conjI allI impI)
      show "began fs (taken (Suc i) ps pe) i" using True by (simp add: began_def Y)
      fix j assume "i < j"
      with after [of j] show "\<not> began fs (taken (Suc i) ps pe) j" by (simp add: began_def other)
    qed (use i w(5,6) in \<open>simp_all add: Y\<close>)
    ultimately show ?thesis using w(1,2,4) fs by (auto simp: tar_at_def)
  qed
qed

lemma tar_files_at:
  assumes "t_files (tw_tor tw) = fs" and "i \<le> length fs" and "tar_at now D (taken i ps pe) tw"
    and "length D = sum_list (lengths_of fs)" and "length D < 2 ^ 64"
    and "ps \<le> pe" and "pe \<le> length D" and "data = slice ps pe D" and "paths_fit fs"
  shows "\<exists>tw'. tar_write_files now ps pe data i (stream_start (lengths_of fs) i) (drop i fs) tw = Inr tw'
    \<and> tw_tor tw' = tw_tor tw \<and> tar_at now D (taken (length fs) ps pe) tw'"
  using assms(1-3)
proof (induction "length fs - i" arbitrary: i tw)
  case 0
  then show ?case by simp
next
  case (Suc n)
  then have i: "i < length fs" by simp
  obtain tw' where w: "tar_write_file now ps pe data i (stream_start (lengths_of fs) i) (fs ! i) tw = Inr tw'"
    "tw_tor tw' = tw_tor tw" "tar_at now D (taken (Suc i) ps pe) tw'"
    using tar_at_step [OF Suc.prems(3,1) i assms(4-9)] by blast
  have "(stream_start (lengths_of fs) i + f_length (fs ! i)) mod 2 ^ 64
      = stream_start (lengths_of fs) (Suc i)"
    using i file_end_le [of i "lengths_of fs"] assms(4,5) by (simp add: stream_start_Suc)
  moreover have "drop i fs = fs ! i # drop (Suc i) fs" using i by (simp add: Cons_nth_drop_Suc)
  ultimately show ?case
    using Suc.hyps(1) [of "Suc i" tw'] Suc.hyps(2) Suc.prems(1) i w by auto
qed

lemma tar_writer_write_at:
  assumes "tar_at now D (\<lambda>_. ps) tw" and "length D = (\<Sum>f\<leftarrow>t_files (tw_tor tw). f_length f)"
    and "length D < 2 ^ 64" and "ps + length data \<le> length D"
    and "ps = idx * t_piece_length (tw_tor tw)"
    and "data = slice ps (ps + length data) D" and "paths_fit (t_files (tw_tor tw))"
  shows "\<exists>tw'. tar_writer_write now tw idx data = Inr tw' \<and> tw_tor tw' = tw_tor tw
    \<and> tar_at now D (\<lambda>_. ps + length data) tw'"
proof -
  let ?fs = "t_files (tw_tor tw)"
  have "tar_at now D (taken 0 ps (ps + length data)) tw" using assms(1) by (simp add: taken_def)
  from tar_files_at [OF refl _ this _ assms(3) _ assms(4,6,7)] assms(2)
  obtain tw' where "tar_write_files now ps (ps + length data) data 0 0 ?fs tw = Inr tw'"
    "tw_tor tw' = tw_tor tw" "tar_at now D (taken (length ?fs) ps (ps + length data)) tw'"
    by auto
  moreover have "tar_at now D (taken (length ?fs) ps (ps + length data)) tw'
      = tar_at now D (\<lambda>_. ps + length data) tw'"
    using calculation(2) by (intro tar_at_cong) (simp add: taken_def)
  ultimately show ?thesis
    using assms(3-5) by (simp add: tar_writer_write_def Let_def)
qed

text \<open>With paths that fit, a write never fails, in whatever order the pieces come.\<close>

lemma tar_write_file_total:
  assumes "length (file_tar_path f) < 4096"
  shows "\<exists>tw'. tar_write_file now ps pe data i s f tw = Inr tw' \<and> tw_tor tw' = tw_tor tw"
proof -
  obtain tw1 where e: "enter_file now i f tw = Inr tw1" "tw_tor tw1 = tw_tor tw"
    using enter_file_ok [OF assms, of now i tw] by (cases "int i = tw_current_file_index tw") simp_all
  have "tw_tor (write_padding tw2) = tw_tor tw2" for tw2
    by (simp add: write_padding_def Let_def)
  note pad = this
  show ?thesis
  proof (cases "c_max ps s < c_min pe ((s + f_length f) mod 2 ^ 64)")
    case True
    show ?thesis
      unfolding tar_write_file_def Let_def if_P [OF True] e(1) sum.case
      by (rule exI, rule conjI, rule refl) (simp add: pad e(2) del: c_max_max c_min_min)
  next
    case False
    show ?thesis unfolding tar_write_file_def Let_def if_not_P [OF False] by blast
  qed
qed

lemma tar_write_files_total:
  "paths_fit fs \<Longrightarrow>
     \<exists>tw'. tar_write_files now ps pe data i s fs tw = Inr tw' \<and> tw_tor tw' = tw_tor tw"
proof (induction fs arbitrary: i s tw)
  case (Cons f fs)
  then have f: "length (file_tar_path f) < 4096" and fs: "paths_fit fs"
    by (simp_all add: paths_fit_def)
  obtain tw1 where "tar_write_file now ps pe data i s f tw = Inr tw1" "tw_tor tw1 = tw_tor tw"
    using tar_write_file_total [OF f] by metis
  with Cons.IH [OF fs, of "Suc i" "(s + f_length f) mod 2 ^ 64" tw1] show ?case by auto
qed simp

lemma tar_writer_write_total:
  assumes "paths_fit (t_files (tw_tor tw))"
  shows "\<exists>tw'. tar_writer_write now tw i data = Inr tw' \<and> tw_tor tw' = tw_tor tw"
  using tar_write_files_total [OF assms] by (simp add: tar_writer_write_def Let_def)

subsection \<open>The whole archive\<close>

text \<open>The pieces \<open>ds\<close> written one after the other, from index \<open>i\<close>.\<close>

fun tar_writes :: "nat \<Rightarrow> tar_writer_t \<Rightarrow> nat \<Rightarrow> bytes list \<Rightarrow> ub + tar_writer_t" where
  "tar_writes now tw i [] = Inr tw"
| "tar_writes now tw i (d # ds) =
     (case tar_writer_write now tw i d of Inl u \<Rightarrow> Inl u | Inr tw' \<Rightarrow> tar_writes now tw' (Suc i) ds)"

text \<open>The archive: header, contents and padding of every file that is not empty, two zero blocks.\<close>

definition tar_archive :: "nat \<Rightarrow> file_t list \<Rightarrow> bytes \<Rightarrow> bytes" where
  "tar_archive now fs D =
     concat (map (\<lambda>k. let f = fs ! k; s = stream_start (lengths_of fs) k
                      in if f_length f = 0 then []
                         else tar_header_of now (file_tar_path f) (f_length f)
                              @ slice s (s + f_length f) D @ tar_pad (f_length f)) [0..<length fs])
     @ replicate 1024 0"

lemma tar_writes_at:
  assumes "tar_at now D (\<lambda>_. i * p) tw" and "t_piece_length (tw_tor tw) = p"
    and "length D = (\<Sum>f\<leftarrow>t_files (tw_tor tw). f_length f)" and "length D < 2 ^ 64"
    and "paths_fit (t_files (tw_tor tw))" and "\<forall>d\<in>set (butlast ds). length d = p"
    and "concat ds = drop (i * p) D" and "i * p \<le> length D"
  shows "\<exists>tw'. tar_writes now tw i ds = Inr tw' \<and> tw_tor tw' = tw_tor tw
    \<and> tar_at now D (\<lambda>_. length D) tw'"
  using assms
proof (induction ds arbitrary: i tw)
  case Nil
  then have "i * p = length D" by simp
  with Nil show ?case by simp
next
  case (Cons d ds)
  have dd: "d = slice (i * p) (i * p + length d) D" "i * p + length d \<le> length D"
  proof -
    have "take (length d) (drop (i * p) D) = d" using Cons.prems(7) by (metis append_eq_conv_conj concat.simps(2))
    then show "d = slice (i * p) (i * p + length d) D" by (simp add: slice_def)
    have "length d \<le> length (drop (i * p) D)" using Cons.prems(7) by (metis concat.simps(2) length_append le_add1)
    then show "i * p + length d \<le> length D" using Cons.prems(8) by simp
  qed
  obtain tw' where w: "tar_writer_write now tw i d = Inr tw'" "tw_tor tw' = tw_tor tw"
    "tar_at now D (\<lambda>_. i * p + length d) tw'"
    using tar_writer_write_at [OF Cons.prems(1,3,4) dd(2) _ dd(1) Cons.prems(5)] Cons.prems(2) by blast
  show ?case
  proof (cases "ds = []")
    case True
    then have "i * p + length d = length D" using Cons.prems(7,8) by (metis append_Nil2 concat.simps
        le_add_diff_inverse length_drop)
    with w True show ?thesis by simp
  next
    case False
    then have d: "length d = p" and bl: "\<forall>d\<in>set (butlast ds). length d = p"
      using Cons.prems(6) by simp_all
    have "concat ds = drop (length d) (drop (i * p) D)"
      using Cons.prems(7) by (metis append_eq_conv_conj concat.simps(2))
    then have "concat ds = drop (Suc i * p) D" using d by (simp add: add.commute)
    then show ?thesis
      using Cons.IH [of "Suc i" tw'] Cons.prems(2-5) w d bl dd(2) by (simp add: add.commute)
  qed
qed

lemma close_complete:
  assumes "tar_at now D (\<lambda>_. length D) tw" and "t_files (tw_tor tw) = fs"
    and "length D = sum_list (lengths_of fs)"
  shows "tar_writer_close tw = tar_archive now fs D"
proof -
  let ?s = "stream_start (lengths_of fs)"
  have le: "?s k + f_length (fs ! k) \<le> length D" if "k < length fs" for k
    using file_end_le [of k "lengths_of fs"] that assms(3) by simp
  have "current_ok fs (\<lambda>_. length D) tw" using assms(1,2) by (simp add: tar_at_def)
  then have "\<not> (tw_current_file_index tw \<ge> 0
      \<and> tw_file_bytes_written tw < f_length (fs ! nat (tw_current_file_index tw)))"
    using le unfolding current_ok_def by (auto simp: min_absorb2)
  then have "tar_writer_close tw = tw_out tw @ replicate 1024 0"
    using assms(2) by (auto simp: tar_writer_close_def Let_def)
  moreover have "tar_entry now D (fs ! k) (?s k) (length D)
      = (let f = fs ! k; s = ?s k
         in if f_length f = 0 then []
            else tar_header_of now (file_tar_path f) (f_length f)
                 @ slice s (s + f_length f) D @ tar_pad (f_length f))" if "k < length fs" for k
    using le [OF that] by (auto simp: tar_entry_def Let_def min_absorb2)
  then have "tw_out tw = concat (map (\<lambda>k. let f = fs ! k; s = ?s k
                      in if f_length f = 0 then []
                         else tar_header_of now (file_tar_path f) (f_length f)
                              @ slice s (s + f_length f) D @ tar_pad (f_length f)) [0..<length fs])"
    using assms(1,2) unfolding tar_at_def tar_entries_def
    by (auto intro!: arg_cong [where f = concat] map_cong)
  ultimately show ?thesis by (simp add: tar_archive_def)
qed

lemma tar_complete:
  assumes "concat ds = D" and "length D = (\<Sum>f\<leftarrow>t_files tor. f_length f)" and "length D < 2 ^ 64"
    and "paths_fit (t_files tor)" and "\<forall>d\<in>set (butlast ds). length d = t_piece_length tor"
  shows "\<exists>tw. tar_writes now (tar_writer_open tor) 0 ds = Inr tw
    \<and> tar_writer_close tw = tar_archive now (t_files tor) D"
proof -
  have "tar_at now D (\<lambda>_. 0 * t_piece_length tor) (tar_writer_open tor)"
    by (auto simp: tar_at_def tar_writer_open_def tar_entries_def tar_entry_def current_ok_def began_def)
  then obtain tw where "tar_writes now (tar_writer_open tor) 0 ds = Inr tw"
      "tw_tor tw = tor" "tar_at now D (\<lambda>_. length D) tw"
    using tar_writes_at [of now D 0 "t_piece_length tor" "tar_writer_open tor" ds] assms
    by (auto simp: tar_writer_open_def)
  with close_complete assms(2) show ?thesis by blast
qed



text \<open>
  pieces that arrive in another order leave a broken archive: with the second half of a file
  first, the file is closed after it, and its first half follows behind the padding.
\<close>

theorem tar_out_of_order:
  assumes "t_files tor = [\<lparr>f_path = Some [nm], f_length = 4\<rparr>]" and "t_piece_length tor = 2"
    and "length nm < 4096"
  shows "\<exists>tw1 tw2. tar_writer_write now (tar_writer_open tor) 1 [c, d] = Inr tw1
    \<and> tar_writer_write now tw1 0 [a, b] = Inr tw2
    \<and> tar_writer_close tw2
       = tar_header_of now (cstr nm) 4 @ [c, d] @ replicate 510 0 @ [a, b] @ replicate 1024 0"
proof -
  have "length (cstr nm) < 4096"
    using assms(3) length_takeWhile_le [of _ nm] le_less_trans unfolding cstr_def by blast
  then show ?thesis
    using assms
    by (simp add: tar_writer_write_def tar_writer_open_def tar_write_file_def enter_file_def
        file_tar_path_def write_header_def write_padding_def tw_emit_def length_tar_header
        tar_writer_close_def Let_def)
qed

theorem tar_out_of_order_witness:
  "\<exists>tw1 tw2. tar_writer_write 0 (tar_writer_open (torrent_zero\<lparr>t_piece_length := 2,
         t_files := [\<lparr>f_path = Some [str ''a''], f_length = 4\<rparr>]\<rparr>)) 1 [3, 4] = Inr tw1
     \<and> tar_writer_write 0 tw1 0 [1, 2] = Inr tw2
     \<and> tar_writer_close tw2
        = tar_header_of 0 (cstr (str ''a'')) 4 @ [3, 4] @ replicate 510 0 @ [1, 2] @ replicate 1024 0"
  by (rule tar_out_of_order) simp_all

text \<open>
  a path of 4096 bytes or more overflows the stack buffer of \<open>tar_writer_write\<close> when the first
  byte of its file arrives.
\<close>

theorem tar_long_path_overflows:
  assumes "t_files tor = f # fs" and "4096 \<le> length (file_tar_path f)"
    and "0 < f_length f" and "f_length f < 2 ^ 64" and "data \<noteq> []" and "length data < 2 ^ 64"
  shows "tar_writer_write now (tar_writer_open tor) 0 data = Inl Ub_OobWrite"
  using assms by (simp add: tar_writer_write_def tar_writer_open_def tar_write_file_def enter_file_def)

theorem tar_long_path_overflows_witness:
  "tar_writer_write 0 (tar_writer_open (torrent_zero\<lparr>t_piece_length := 2,
     t_files := [\<lparr>f_path = Some [replicate 5000 97], f_length = 4\<rparr>]\<rparr>)) 0 [1, 2] = Inl Ub_OobWrite"
  by (rule tar_long_path_overflows [where f = "\<lparr>f_path = Some [replicate 5000 97], f_length = 4\<rparr>" and fs = "[]"])
    (simp_all add: file_tar_path_def cstr_id)

end
