(* ===== verification/Network.thy ===== *)
theory Network
  imports CStd
begin

text \<open>
  FINAL/src/network.c: connecting, sending and receiving with timeouts, and length-prefixed
  messages. What the kernel answers to \<open>poll\<close>, \<open>recv\<close> and \<open>send\<close> on a connection is a script of
  events; when it runs out, \<open>poll\<close> times out. A signal handler may run at any event and clears the
  global \<open>running\<close>.
\<close>

subsection \<open>State\<close>

datatype rx_event =
    Rx_signal
  | Rx_eintr
  | Rx_poll_error
  | Rx_timeout
  | Rx_recv_error
  | Rx_data bytes

datatype tx_event = Tx_signal | Tx_eintr | Tx_poll_error | Tx_timeout | Tx_send_error | Tx_room nat

record net =
  n_running :: bool
  n_rx :: "rx_event list"
  n_tx :: "tx_event list"
  n_sent :: bytes

subsection \<open>Connecting\<close>

text \<open>The answers to the calls of \<open>tcp_connect_timeout\<close>, and the calls it makes.\<close>

datatype connect_answer = Conn_now | Conn_in_progress | Conn_error
datatype poll_answer = Poll_ready | Poll_timeout | Poll_error

record conn_answers =
  a_socket :: bool
  a_getfl :: bool
  a_setfl :: bool
  a_connect :: connect_answer
  a_poll :: poll_answer
  a_getsockopt :: bool
  a_so_error :: bool

datatype sock_call = Sc_socket | Sc_nonblock | Sc_connect | Sc_poll | Sc_block | Sc_close

text \<open>Whether a socket is returned, and the calls made, in order.\<close>

definition tcp_connect_timeout :: "conn_answers \<Rightarrow> bool \<times> sock_call list" where
  "tcp_connect_timeout a =
     (if \<not> a_socket a then (False, [])
      else if \<not> a_getfl a then (False, [Sc_socket, Sc_close])
      else if \<not> a_setfl a then (False, [Sc_socket, Sc_close])
      else case a_connect a of
             Conn_error \<Rightarrow> (False, [Sc_socket, Sc_nonblock, Sc_connect, Sc_close])
           | Conn_now \<Rightarrow> (True, [Sc_socket, Sc_nonblock, Sc_connect, Sc_block])
           | Conn_in_progress \<Rightarrow>
               (case a_poll a of
                  Poll_ready \<Rightarrow>
                    if \<not> a_getsockopt a \<or> a_so_error a
                    then (False, [Sc_socket, Sc_nonblock, Sc_connect, Sc_poll, Sc_close])
                    else (True, [Sc_socket, Sc_nonblock, Sc_connect, Sc_poll, Sc_block])
                | _ \<Rightarrow> (False, [Sc_socket, Sc_nonblock, Sc_connect, Sc_poll, Sc_close])))"

text \<open>No descriptor is lost: a failed connect closes the socket it opened, once, as its last call.\<close>

lemma connect_no_leak:
  "tcp_connect_timeout a = (ok, calls) \<Longrightarrow>
     (ok \<longrightarrow> Sc_close \<notin> set calls \<and> last calls = Sc_block)
     \<and> (\<not> ok \<and> Sc_socket \<in> set calls \<longrightarrow> last calls = Sc_close \<and> count_list calls Sc_close = 1)"
  by (auto simp: tcp_connect_timeout_def split: if_splits connect_answer.splits poll_answer.splits)

subsection \<open>Sending\<close>

fun send_loop :: "bytes \<Rightarrow> bool \<Rightarrow> tx_event list \<Rightarrow> bytes \<Rightarrow> bool \<times> bool \<times> tx_event list \<times> bytes" where
  "send_loop buf run [] out = (buf = [] \<and> run, run, [], out)"
| "send_loop buf run (ev # evs) out =
     (if buf = [] \<or> \<not> run then (run, run, ev # evs, out)
      else case ev of
             Tx_signal \<Rightarrow> (False, False, evs, out)
           | Tx_eintr \<Rightarrow> send_loop buf run evs out
           | Tx_room n \<Rightarrow>
               if n = 0 then (False, run, evs, out)
               else send_loop (drop n buf) run evs (out @ take n buf)
           | _ \<Rightarrow> (False, run, evs, out))"

definition send_full_timeout :: "bytes \<Rightarrow> net \<Rightarrow> bool \<times> net" where
  "send_full_timeout buf net =
     (case send_loop buf (n_running net) (n_tx net) (n_sent net) of
        (ok, run, evs, out) \<Rightarrow> (ok, net\<lparr>n_running := run, n_tx := evs, n_sent := out\<rparr>))"

lemma send_loop_sent:
  "send_loop buf run evs out = (ok, run', evs', out') \<Longrightarrow>
     \<exists>k. out' = out @ take k buf \<and> (ok \<longrightarrow> out' = out @ buf \<and> run')"
proof (induction buf run evs out rule: send_loop.induct)
  case (1 buf run out)
  then show ?case by (auto intro: exI [of _ 0])
next
  case (2 buf run ev evs out)
  show ?case
  proof (cases "buf = [] \<or> \<not> run")
    case True
    with 2(3) show ?thesis by (auto intro: exI [of _ 0])
  next
    case False
    show ?thesis
    proof (cases ev)
      case (Tx_room n)
      show ?thesis
      proof (cases "n = 0")
        case True
        with False Tx_room 2(3) show ?thesis by (auto intro: exI [of _ 0])
      next
        case n: False
        with False Tx_room 2(3)
        have r: "send_loop (drop n buf) run evs (out @ take n buf) = (ok, run', evs', out')" by simp
        from 2(2) [OF False Tx_room n r] obtain k where
          k: "out' = (out @ take n buf) @ take k (drop n buf)"
          "ok \<longrightarrow> out' = (out @ take n buf) @ drop n buf \<and> run'" by blast
        from k(1) have "out' = out @ take (n + k) buf" by (simp add: take_add)
        with k(2) show ?thesis by auto
      qed
    next
      case Tx_eintr
      with False 2 show ?thesis by simp
    qed (use False 2(3) in \<open>auto intro: exI [of _ 0]\<close>)
  qed
qed

text \<open>What reaches the wire is a prefix of the buffer, and on success all of it.\<close>

lemma send_full_sent:
  assumes "send_full_timeout buf net = (ok, net')"
  shows "\<exists>k. n_sent net' = n_sent net @ take k buf"
    and "ok \<Longrightarrow> n_sent net' = n_sent net @ buf \<and> n_running net'"
    and "n_rx net' = n_rx net"
proof -
  obtain run evs out where l: "send_loop buf (n_running net) (n_tx net) (n_sent net) = (ok, run, evs, out)"
    and net': "net' = net\<lparr>n_running := run, n_tx := evs, n_sent := out\<rparr>"
    using assms by (auto simp: send_full_timeout_def split: prod.splits)
  note s = send_loop_sent [OF l]
  from s obtain k where "out = n_sent net @ take k buf" by blast
  then show "\<exists>k. n_sent net' = n_sent net @ take k buf" using net' by (intro exI [of _ k]) simp
  show "ok \<Longrightarrow> n_sent net' = n_sent net @ buf \<and> n_running net'" using s net' by auto
  show "n_rx net' = n_rx net" using net' by simp
qed

subsection \<open>Receiving\<close>

fun recv_loop :: "nat \<Rightarrow> bytes \<Rightarrow> bool \<Rightarrow> rx_event list \<Rightarrow> bytes option \<times> bool \<times> rx_event list" where
  "recv_loop need acc run [] = (if need = 0 \<and> run then Some acc else None, run, [])"
| "recv_loop need acc run (ev # evs) =
     (if need = 0 \<or> \<not> run then (if run then Some acc else None, run, ev # evs)
      else case ev of
             Rx_signal \<Rightarrow> (None, False, evs)
           | Rx_eintr \<Rightarrow> recv_loop need acc run evs
           | Rx_data bs \<Rightarrow>
               if bs = [] then (None, run, evs)
               else if length bs \<le> need then recv_loop (need - length bs) (acc @ bs) run evs
               else (Some (acc @ take need bs), run, Rx_data (drop need bs) # evs)
           | _ \<Rightarrow> (None, run, evs))"

definition recv_full_timeout :: "nat \<Rightarrow> net \<Rightarrow> bytes option \<times> net" where
  "recv_full_timeout len net =
     (case recv_loop len [] (n_running net) (n_rx net) of
        (r, run, evs) \<Rightarrow> (r, net\<lparr>n_running := run, n_rx := evs\<rparr>))"

text \<open>The message without its length prefix; \<open>Some []\<close> is the keep-alive.\<close>

definition recv_message :: "net \<Rightarrow> bytes option \<times> net" where
  "recv_message net =
     (case recv_full_timeout 4 net of
        (None, net1) \<Rightarrow> (None, net1)
      | (Some prefix, net1) \<Rightarrow>
          (let msg_len = unat (be32 prefix)
           in if msg_len = 0 then (Some [], net1) else recv_full_timeout msg_len net1))"

text \<open>A check of \<open>running\<close> between calls: handlers that are due run first.\<close>

fun drop_signals :: "rx_event list \<Rightarrow> bool \<times> rx_event list" where
  "drop_signals (Rx_signal # evs) = (True, snd (drop_signals evs))"
| "drop_signals evs = (False, evs)"

definition check_running :: "net \<Rightarrow> bool \<times> net" where
  "check_running net =
     (let (stop, evs) = drop_signals (n_rx net);
          run = (n_running net \<and> \<not> stop)
      in (run, net\<lparr>n_running := run, n_rx := evs\<rparr>))"

subsection \<open>Progress\<close>

definition ev_size :: "rx_event \<Rightarrow> nat" where
  "ev_size ev = (case ev of Rx_data bs \<Rightarrow> Suc (length bs) | _ \<Rightarrow> 1)"

definition rx_size :: "rx_event list \<Rightarrow> nat" where
  "rx_size evs = (\<Sum>ev\<leftarrow>evs. ev_size ev)"

lemma rx_size_simps [simp]: "rx_size [] = 0" "rx_size (ev # evs) = ev_size ev + rx_size evs"
  by (simp_all add: rx_size_def)

lemma ev_size_pos [simp]: "0 < ev_size ev"
  by (cases ev) (simp_all add: ev_size_def)

lemma recv_loop_size:
  "recv_loop need acc run evs = (r, run', evs') \<Longrightarrow>
     rx_size evs' \<le> rx_size evs \<and> (need > 0 \<and> r \<noteq> None \<longrightarrow> rx_size evs' < rx_size evs)"
proof (induction need acc run evs rule: recv_loop.induct)
  case (2 need acc run ev evs)
  show ?case
  proof (cases "need = 0 \<or> \<not> run")
    case True
    with 2(3) show ?thesis by auto
  next
    case False
    with 2 ev_size_pos [of ev] show ?thesis
      by (cases ev) (auto simp: ev_size_def split: if_splits)
  qed
qed (auto split: if_splits)

lemma recv_loop_length:
  "recv_loop need acc run evs = (Some r, run', evs') \<Longrightarrow> length r = length acc + need \<and> run'"
proof (induction need acc run evs rule: recv_loop.induct)
  case (2 need acc run ev evs)
  then show ?case by (cases "need = 0 \<or> \<not> run"; cases ev) (auto split: if_splits)
qed (auto split: if_splits)

lemma recv_full_size:
  assumes "recv_full_timeout n net = (r, net')"
  shows "rx_size (n_rx net') \<le> rx_size (n_rx net)"
    and "0 < n \<Longrightarrow> r \<noteq> None \<Longrightarrow> rx_size (n_rx net') < rx_size (n_rx net)"
    and "r = Some bs \<Longrightarrow> length bs = n \<and> n_running net'"
    and "n_sent net' = n_sent net" and "n_tx net' = n_tx net"
  using assms recv_loop_size [of n "[]" "n_running net" "n_rx net"]
    recv_loop_length [of n "[]" "n_running net" "n_rx net"]
  by (auto simp: recv_full_timeout_def split: prod.splits)

lemma recv_message_size:
  assumes "recv_message net = (r, net')"
  shows "rx_size (n_rx net') \<le> rx_size (n_rx net)"
    and "r \<noteq> None \<Longrightarrow> rx_size (n_rx net') < rx_size (n_rx net)"
    and "n_sent net' = n_sent net"
proof -
  obtain r1 net1 where one: "recv_full_timeout 4 net = (r1, net1)" by (cases "recv_full_timeout 4 net")
  note s = recv_full_size [OF one]
  have "rx_size (n_rx net') \<le> rx_size (n_rx net1) \<and> n_sent net' = n_sent net1 \<and> (r \<noteq> None \<longrightarrow> r1 \<noteq> None)"
    using assms one recv_full_size(1,4) by (auto simp: recv_message_def Let_def split: option.splits if_splits)
  with s show "rx_size (n_rx net') \<le> rx_size (n_rx net)"
    and "r \<noteq> None \<Longrightarrow> rx_size (n_rx net') < rx_size (n_rx net)" and "n_sent net' = n_sent net"
    by auto
qed

lemma drop_signals_size: "rx_size (snd (drop_signals evs)) \<le> rx_size evs"
  by (induction evs rule: drop_signals.induct) (auto intro: le_SucI simp: ev_size_def)

lemma check_running_size:
  "check_running net = (run, net') \<Longrightarrow> rx_size (n_rx net') \<le> rx_size (n_rx net)
     \<and> n_sent net' = n_sent net \<and> n_running net' = run"
  using drop_signals_size [of "n_rx net"]
  by (auto simp: check_running_def Let_def split: prod.splits)

subsection \<open>How the kernel cuts the stream does not matter\<close>

text \<open>A script without faults: data and interrupted calls only.\<close>

definition rx_clean :: "rx_event list \<Rightarrow> bool" where
  "rx_clean evs \<longleftrightarrow> (\<forall>ev\<in>set evs. ev = Rx_eintr \<or> (\<exists>bs. bs \<noteq> [] \<and> ev = Rx_data bs))"

definition rx_bytes :: "rx_event list \<Rightarrow> bytes" where
  "rx_bytes evs = concat (map (\<lambda>ev. case ev of Rx_data bs \<Rightarrow> bs | _ \<Rightarrow> []) evs)"

lemma recv_loop_clean:
  "rx_clean evs \<Longrightarrow> need \<le> length (rx_bytes evs) \<Longrightarrow>
     \<exists>evs'. recv_loop need acc True evs = (Some (acc @ take need (rx_bytes evs)), True, evs')
       \<and> rx_clean evs' \<and> rx_bytes evs' = drop need (rx_bytes evs)"
proof (induction evs arbitrary: need acc)
  case Nil
  then show ?case by (simp add: rx_bytes_def)
next
  case (Cons ev evs)
  show ?case
  proof (cases "need = 0")
    case True
    with Cons.prems show ?thesis by simp
  next
    case False
    have clean: "rx_clean evs" using Cons.prems(1) by (simp add: rx_clean_def)
    from Cons.prems(1) consider "ev = Rx_eintr" | bs where "bs \<noteq> []" "ev = Rx_data bs"
      by (auto simp: rx_clean_def)
    then show ?thesis
    proof cases
      case 1
      with False Cons.IH [OF clean, of need acc] Cons.prems(2) show ?thesis
        by (simp add: rx_bytes_def)
    next
      case (2 bs)
      have b: "rx_bytes (ev # evs) = bs @ rx_bytes evs" using 2 by (simp add: rx_bytes_def)
      show ?thesis
      proof (cases "length bs \<le> need")
        case True
        with False 2 Cons.IH [OF clean, of "need - length bs" "acc @ bs"] Cons.prems(2) b
        show ?thesis by auto
      next
        case short: False
        with False 2 b clean show ?thesis
          by (auto simp: rx_clean_def rx_bytes_def)
      qed
    qed
  qed
qed

text \<open>A connection that is running and has the given bytes in flight.\<close>

definition net_has :: "net \<Rightarrow> bytes \<Rightarrow> bool" where
  "net_has net bs \<longleftrightarrow> n_running net \<and> rx_clean (n_rx net) \<and> rx_bytes (n_rx net) = bs"

lemma recv_full_clean:
  assumes "net_has net bs" and "n \<le> length bs"
  shows "\<exists>net'. recv_full_timeout n net = (Some (take n bs), net') \<and> net_has net' (drop n bs)
    \<and> n_tx net' = n_tx net \<and> n_sent net' = n_sent net"
  using assms recv_loop_clean [of "n_rx net" n "[]"]
  by (auto simp: net_has_def recv_full_timeout_def)

definition frame :: "bytes \<Rightarrow> bytes" where
  "frame msg = be32_bytes (word_of_nat (length msg)) @ msg"

lemma recv_message_framed:
  assumes "net_has net (frame msg @ rest)" and "length msg < 2 ^ 32"
  shows "\<exists>net'. recv_message net = (Some msg, net') \<and> net_has net' rest
    \<and> n_tx net' = n_tx net \<and> n_sent net' = n_sent net"
proof -
  let ?p = "be32_bytes (word_of_nat (length msg))"
  have bs: "frame msg @ rest = ?p @ msg @ rest" by (simp add: frame_def)
  obtain net1 where n1: "recv_full_timeout 4 net = (Some ?p, net1)" "net_has net1 (msg @ rest)"
    "n_tx net1 = n_tx net" "n_sent net1 = n_sent net"
    using recv_full_clean [OF assms(1), of 4] unfolding bs by auto
  have "be32 ?p = word_of_nat (length msg)" using be32_be32_bytes [of _ "[]"] by simp
  then have len: "unat (be32 ?p) = length msg"
    using assms(2) by (simp add: unat_of_nat take_bit_nat_eq_self)
  show ?thesis
  proof (cases "msg = []")
    case True
    with n1 len show ?thesis by (simp add: recv_message_def)
  next
    case False
    with recv_full_clean [OF n1(2), of "length msg"] n1 len show ?thesis
      by (simp add: recv_message_def)
  qed
qed

text \<open>
  a message sent with its length prefix is received whole, however the kernel splits or
  delays it, and what follows it stays on the connection.
\<close>

theorem recv_message_frame:
  assumes "net_has net (frame msg @ rest)" and "length msg < 2 ^ 32"
  shows "\<exists>net'. recv_message net = (Some msg, net') \<and> net_has net' rest
    \<and> n_tx net' = n_tx net \<and> n_sent net' = n_sent net"
  using assms by (rule recv_message_framed)

theorem recv_message_frame_witness:
  "\<exists>net'. recv_message \<lparr>n_running = True, n_rx = [Rx_data [0, 0], Rx_eintr, Rx_data [0, 2, 7],
       Rx_data [9, 1]], n_tx = [], n_sent = []\<rparr> = (Some [7, 9], net') \<and> net_has net' [1]
     \<and> n_tx net' = [] \<and> n_sent net' = []"
proof -
  have "net_has \<lparr>n_running = True, n_rx = [Rx_data [0, 0], Rx_eintr, Rx_data [0, 2, 7],
       Rx_data [9, 1]], n_tx = [], n_sent = []\<rparr> (frame [7, 9] @ [1])"
    by (simp add: net_has_def rx_clean_def rx_bytes_def frame_def be32_bytes_def)
  from recv_message_frame [OF this] show ?thesis by simp
qed

end
