(* ===== verification/Bitfield.thy ===== *)
theory Bitfield
  imports CPrelude
begin

text \<open>
  Sets of piece numbers as bit fields, most significant bit first: the macros \<open>IS_DONE\<close> and
  \<open>MARK_DONE\<close> of FINAL/headers/utils.h and the peer's bit field of FINAL/src/peer.c, which tests a
  bit by shifting it down and sets one with a HAVE message. Both meet one contract.
\<close>

locale bit_set =
  fixes member :: "'b \<Rightarrow> nat \<Rightarrow> bool"
    and add :: "'b \<Rightarrow> nat \<Rightarrow> 'b"
    and capacity :: "'b \<Rightarrow> nat"
  assumes member_add: "i < capacity s \<Longrightarrow> j < capacity s \<Longrightarrow> member (add s i) j \<longleftrightarrow> j = i \<or> member s j"
    and capacity_add: "capacity (add s i) = capacity s"
begin

lemma capacity_adds: "capacity (foldl add s is) = capacity s"
  by (induction "is" arbitrary: s) (simp_all add: capacity_add)

lemma member_adds:
  "\<forall>i\<in>set is. i < capacity s \<Longrightarrow> j < capacity s \<Longrightarrow>
     member (foldl add s is) j \<longleftrightarrow> j \<in> set is \<or> member s j"
  by (induction "is" arbitrary: s) (auto simp: member_add capacity_add)

text \<open>The order of the additions does not matter.\<close>

lemma member_adds_set:
  "\<forall>i\<in>set is. i < capacity s \<Longrightarrow> j < capacity s \<Longrightarrow> set is = set js \<Longrightarrow>
     member (foldl add s is) j \<longleftrightarrow> member (foldl add s js) j"
  by (metis member_adds)

end

definition IS_DONE :: "bytes \<Rightarrow> nat \<Rightarrow> bool" where
  "IS_DONE pieces idx \<longleftrightarrow> (pieces ! (idx div 8)) AND (push_bit (7 - idx mod 8) 1) \<noteq> 0"

definition MARK_DONE :: "bytes \<Rightarrow> nat \<Rightarrow> bytes" where
  "MARK_DONE pieces idx =
     pieces[idx div 8 := (pieces ! (idx div 8)) OR (push_bit (7 - idx mod 8) 1)]"

text \<open>\<open>(bitfield[byte] >> (7 - index % 8)) & 1\<close>\<close>

definition bit_down :: "bytes \<Rightarrow> nat \<Rightarrow> bool" where
  "bit_down bf idx \<longleftrightarrow> (drop_bit (7 - idx mod 8) (bf ! (idx div 8))) AND 1 \<noteq> 0"

lemma IS_DONE_bit: "IS_DONE s i \<longleftrightarrow> bit (s ! (i div 8)) (7 - i mod 8)"
  by (simp only: IS_DONE_def bit_iff_and_push_bit_not_eq_0)

lemma bit_down_bit: "bit_down s i \<longleftrightarrow> bit (s ! (i div 8)) (7 - i mod 8)"
  by (simp add: bit_down_def and_one_eq bit_iff_odd_drop_bit odd_iff_mod_2_eq_one)

lemma IS_DONE_bit_down: "IS_DONE = bit_down"
  by (intro ext) (simp add: IS_DONE_bit bit_down_bit)

lemma bit_position_inj: "7 - i mod 8 = 7 - j mod 8 \<Longrightarrow> i div 8 = j div 8 \<Longrightarrow> i = (j :: nat)"
proof -
  assume a: "7 - i mod 8 = 7 - j mod 8" and d: "i div 8 = j div 8"
  have "i mod 8 \<le> 7" "j mod 8 \<le> 7" using mod_less_divisor [of 8] by (simp_all add: less_Suc_eq_le)
  with a have "i mod 8 = j mod 8" by linarith
  with d show ?thesis by (metis div_mult_mod_eq)
qed

lemma IS_DONE_MARK_DONE:
  assumes "i < 8 * length s" and "j < 8 * length s"
  shows "IS_DONE (MARK_DONE s i) j \<longleftrightarrow> j = i \<or> IS_DONE s j"
proof -
  have len: "i div 8 < length s" "j div 8 < length s" using assms by (simp_all add: less_mult_imp_div_less mult.commute)
  show ?thesis
  proof (cases "j div 8 = i div 8")
    case True
    have "bit (push_bit (7 - i mod 8) (1 :: u8)) (7 - j mod 8) \<longleftrightarrow> 7 - j mod 8 = 7 - i mod 8"
      by (auto simp: bit_simps)
    with True len show ?thesis
      using bit_position_inj [of j i] by (auto simp: IS_DONE_bit MARK_DONE_def bit_or_iff)
  next
    case False
    then have "j \<noteq> i" by auto
    with False show ?thesis by (simp add: IS_DONE_bit MARK_DONE_def)
  qed
qed

lemma length_MARK_DONE [simp]: "length (MARK_DONE s i) = length s"
  by (simp add: MARK_DONE_def)

interpretation done_set: bit_set IS_DONE MARK_DONE "\<lambda>s. 8 * length s"
  by unfold_locales (simp_all add: IS_DONE_MARK_DONE)

interpretation peer_set: bit_set bit_down MARK_DONE "\<lambda>s. 8 * length s"
  by unfold_locales (simp_all add: IS_DONE_MARK_DONE flip: IS_DONE_bit_down)

lemma IS_DONE_zeros: "i < 8 * n \<Longrightarrow> \<not> IS_DONE (replicate n 0) i"
  by (simp add: IS_DONE_def less_mult_imp_div_less mult.commute)

end
