(* ===== verification/Peer.thy ===== *)
theory Peer
  imports Network Bitfield
begin

text \<open>
  FINAL/src/peer.c: the peer wire protocol over a connection: handshake, messages, waiting for the
  unchoke, the peer's bit field, and receiving a requested block.
\<close>

subsection \<open>Handshake\<close>

definition BT_PROTOCOL :: bytes where
  "BT_PROTOCOL = str ''BitTorrent protocol''"

definition handshake_out :: "bytes \<Rightarrow> bytes \<Rightarrow> bytes" where
  "handshake_out info_hash my_peer_id =
     memcpy_at 48 (take 20 my_peer_id)
       (memcpy_at 28 (take 20 info_hash)
          (memcpy_at 1 BT_PROTOCOL ((replicate 68 0)[0 := 19])))"

text \<open>The peer id of the other side on success.\<close>

definition peer_handshake :: "bytes \<Rightarrow> bytes \<Rightarrow> net \<Rightarrow> bytes option \<times> net" where
  "peer_handshake info_hash my_peer_id net =
     (case send_full_timeout (handshake_out info_hash my_peer_id) net of
        (False, net1) \<Rightarrow> (None, net1)
      | (True, net1) \<Rightarrow>
          (case recv_full_timeout 68 net1 of
             (None, net2) \<Rightarrow> (None, net2)
           | (Some hs_in, net2) \<Rightarrow>
               if hs_in ! 0 \<noteq> 19 \<or> take 19 (drop 1 hs_in) \<noteq> BT_PROTOCOL then (None, net2)
               else if take 20 (drop 28 hs_in) \<noteq> take 20 info_hash then (None, net2)
               else (Some (take 20 (drop 48 hs_in)), net2)))"

subsection \<open>Messages\<close>

definition peer_send_interested :: "net \<Rightarrow> bool \<times> net" where
  "peer_send_interested net = send_full_timeout [0, 0, 0, 1, 2] net"

definition request_msg :: "nat \<Rightarrow> nat \<Rightarrow> nat \<Rightarrow> bytes" where
  "request_msg index offset len =
     be32_bytes 13 @ [6] @ be32_bytes (word_of_nat index) @ be32_bytes (word_of_nat offset)
     @ be32_bytes (word_of_nat len)"

definition peer_send_request :: "nat \<Rightarrow> nat \<Rightarrow> nat \<Rightarrow> net \<Rightarrow> bool \<times> net" where
  "peer_send_request index offset len net = send_full_timeout (request_msg index offset len) net"

definition peer_read_message :: "net \<Rightarrow> (u8 \<times> bytes) option \<times> net" where
  "peer_read_message net =
     (case recv_message net of
        (None, net1) \<Rightarrow> (None, net1)
      | (Some msg, net1) \<Rightarrow> (if msg = [] then Some (0xFF, []) else Some (hd msg, tl msg), net1))"

lemma peer_read_message_size:
  assumes "peer_read_message net = (Some m, net')"
  shows "rx_size (n_rx net') < rx_size (n_rx net)"
  using assms recv_message_size(2) [of net]
  by (auto simp: peer_read_message_def split: prod.splits option.splits)

lemma read_step:
  "(run, net0) = check_running net \<Longrightarrow> (Some m, net1) = peer_read_message net0 \<Longrightarrow>
     rx_size (n_rx net1) < rx_size (n_rx net)"
  using check_running_size [of net run net0] peer_read_message_size [of net0 m net1] by simp

lemma read_step':
  "(Some m, net1) = peer_read_message net0 \<Longrightarrow> rx_size (n_rx net1) < rx_size (n_rx net0)"
  using peer_read_message_size [of net0 m net1] by simp

subsection \<open>The state of a connection\<close>

record peer_connection =
  p_net :: net
  p_choked :: bool
  p_bitfield :: "bytes option"

definition peer_has_piece :: "peer_connection \<Rightarrow> nat \<Rightarrow> bool" where
  "peer_has_piece peer index =
     (case p_bitfield peer of
        None \<Rightarrow> True
      | Some bf \<Rightarrow> if length bf \<le> index div 8 then False else bit_down bf index)"

text \<open>The \<open>switch\<close> on the message id.\<close>

definition handle_message :: "u8 \<Rightarrow> bytes \<Rightarrow> peer_connection \<Rightarrow> peer_connection" where
  "handle_message msg_id payload peer =
     (if msg_id = 0 then peer\<lparr>p_choked := True\<rparr>
      else if msg_id = 1 then peer\<lparr>p_choked := False\<rparr>
      else if msg_id = 4 then
        (if 4 \<le> length payload then
           (let index = unat (be32 payload)
            in case p_bitfield peer of
                 None \<Rightarrow> peer
               | Some bf \<Rightarrow>
                   if index div 8 < length bf then peer\<lparr>p_bitfield := Some (MARK_DONE bf index)\<rparr>
                   else peer)
         else peer)
      else if msg_id = 5 then peer\<lparr>p_bitfield := Some payload\<rparr>
      else peer)"

lemma handle_message_net [simp]: "p_net (handle_message msg_id payload peer) = p_net peer"
  by (simp add: handle_message_def Let_def split: option.split)

function peer_wait_for_unchoke :: "peer_connection \<Rightarrow> bool \<times> peer_connection" where
  "peer_wait_for_unchoke peer =
     (case check_running (p_net peer) of
        (run, net0) \<Rightarrow>
          if \<not> run \<or> \<not> p_choked peer then (\<not> p_choked peer, peer\<lparr>p_net := net0\<rparr>)
          else
            (case peer_read_message net0 of
               (None, net1) \<Rightarrow> (False, peer\<lparr>p_net := net1\<rparr>)
             | (Some (msg_id, payload), net1) \<Rightarrow>
                 if msg_id = 0xFF then peer_wait_for_unchoke (peer\<lparr>p_net := net1\<rparr>)
                 else
                   (let peer' = handle_message msg_id payload (peer\<lparr>p_net := net1\<rparr>)
                    in if \<not> p_choked peer' then (True, peer') else peer_wait_for_unchoke peer')))"
  by pat_completeness auto
termination
  by (relation "measure (\<lambda>peer. rx_size (n_rx (p_net peer)))")
    (auto dest: read_step)

declare peer_wait_for_unchoke.simps [simp del]

subsection \<open>Receiving\<close>

text \<open>The loop of \<open>peer_receive_block\<close>; the block on success.\<close>

function peer_receive_block :: "nat \<Rightarrow> nat \<Rightarrow> nat \<Rightarrow> net \<Rightarrow> bytes option \<times> net" where
  "peer_receive_block expected_index expected_begin len net =
     (case peer_read_message net of
        (None, net1) \<Rightarrow> (None, net1)
      | (Some (msg_id, payload), net1) \<Rightarrow>
          if msg_id = 0xFF then peer_receive_block expected_index expected_begin len net1
          else if msg_id = 7 then
            (if length payload < 8 then (None, net1)
             else if unat (be32 payload) = expected_index \<and> unat (be32 (drop 4 payload)) = expected_begin
                     \<and> length payload - 8 = len
             then (Some (drop 8 payload), net1)
             else peer_receive_block expected_index expected_begin len net1)
          else if msg_id = 0 then (None, net1)
          else peer_receive_block expected_index expected_begin len net1)"
  by pat_completeness auto
termination
  by (relation "measure (\<lambda>(i, b, l, net). rx_size (n_rx net))") (auto dest: read_step')

declare peer_receive_block.simps [simp del]

text \<open>\<open>peer_receive_piece\<close>: a whole piece as one message; everything else is ignored.\<close>

function peer_receive_piece :: "nat \<Rightarrow> nat \<Rightarrow> net \<Rightarrow> bytes option \<times> net" where
  "peer_receive_piece expected_index len net =
     (case peer_read_message net of
        (None, net1) \<Rightarrow> (None, net1)
      | (Some (msg_id, payload), net1) \<Rightarrow>
          if msg_id = 7 then
            (if length payload < 8 then (None, net1)
             else if unat (be32 payload) \<noteq> expected_index \<or> unat (be32 (drop 4 payload)) \<noteq> 0
                     \<or> length payload - 8 \<noteq> len
             then peer_receive_piece expected_index len net1
             else (Some (drop 8 payload), net1))
          else peer_receive_piece expected_index len net1)"
  by pat_completeness auto
termination
  by (relation "measure (\<lambda>(i, l, net). rx_size (n_rx net))") (auto dest: read_step')

declare peer_receive_piece.simps [simp del]

text \<open>\<open>peer_close\<close>: the descriptor and the bit field it releases, and the cleared structure.\<close>

definition peer_close :: "peer_connection \<Rightarrow> bool \<times> peer_connection" where
  "peer_close peer = (p_bitfield peer \<noteq> None, peer\<lparr>p_choked := False, p_bitfield := None\<rparr>)"

subsection \<open>Handshake between two peers\<close>

lemma length_handshake [simp]:
  "length h = 20 \<Longrightarrow> length i = 20 \<Longrightarrow> length (handshake_out h i) = 68"
  by (simp add: handshake_out_def memcpy_at_def BT_PROTOCOL_def)

lemma handshake_parts:
  assumes "length h = 20" and "length i = 20"
  shows "handshake_out h i = 19 # BT_PROTOCOL @ replicate 8 0 @ h @ i"
  using assms by (simp add: handshake_out_def memcpy_at_def BT_PROTOCOL_def)
    (simp add: numeral_eq_Suc)

lemma handshake_result:
  assumes "length ih = 20" and "length me = 20" and "length ih' = 20" and "length them = 20"
    and "net_has net (handshake_out ih' them @ rest)"
    and "send_full_timeout (handshake_out ih me) net = (True, net1)"
  shows "\<exists>net2. peer_handshake ih me net = (if ih' = ih then Some them else None, net2)
    \<and> n_sent net2 = n_sent net @ handshake_out ih me \<and> net_has net2 rest"
proof -
  have s: "n_sent net1 = n_sent net @ handshake_out ih me" "n_running net1" "n_rx net1 = n_rx net"
    using send_full_sent [OF assms(6)] by simp_all
  then have "net_has net1 (handshake_out ih' them @ rest)"
    using assms(5) by (simp add: net_has_def)
  from recv_full_clean [OF this, of 68] assms(3,4) obtain net2 where
    r: "recv_full_timeout 68 net1 = (Some (handshake_out ih' them), net2)" "net_has net2 rest"
      "n_sent net2 = n_sent net1" by auto
  have "length BT_PROTOCOL = 19" by (simp add: BT_PROTOCOL_def)
  then have "handshake_out ih' them ! 0 = 19" "take 19 (drop 1 (handshake_out ih' them)) = BT_PROTOCOL"
    "take 20 (drop 28 (handshake_out ih' them)) = ih'" "take 20 (drop 48 (handshake_out ih' them)) = them"
    using assms(3,4) by (simp_all add: handshake_parts)
  with r s assms(1,6) show ?thesis by (cases "ih' = ih") (simp_all add: peer_handshake_def)
qed

text \<open>
  a handshake with a peer that serves the same torrent succeeds and yields that peer's id; with
  one that serves another torrent it fails. What was sent is exactly our 68 bytes.
\<close>

theorem handshake_with_peer:
  assumes "length ih = 20" and "length me = 20" and "length ih' = 20" and "length them = 20"
    and "net_has net (handshake_out ih' them @ rest)"
    and "send_full_timeout (handshake_out ih me) net = (True, net1)"
  shows "\<exists>net2. peer_handshake ih me net = (if ih' = ih then Some them else None, net2)
    \<and> n_sent net2 = n_sent net @ handshake_out ih me \<and> net_has net2 rest"
  using assms by (rule handshake_result)

theorem handshake_with_peer_witness:
  "\<exists>net2. peer_handshake (replicate 20 1) (replicate 20 2)
      \<lparr>n_running = True, n_rx = [Rx_data (handshake_out (replicate 20 1) (replicate 20 3))],
       n_tx = [Tx_room 60, Tx_eintr, Tx_room 8], n_sent = []\<rparr> = (Some (replicate 20 3), net2)"
proof -
  let ?net = "\<lparr>n_running = True, n_rx = [Rx_data (handshake_out (replicate 20 1) (replicate 20 3))],
       n_tx = [Tx_room 60, Tx_eintr, Tx_room 8], n_sent = []\<rparr>"
  let ?out = "handshake_out (replicate 20 1) (replicate 20 2)"
  have "length ?out = 68" by simp
  then have "?out \<noteq> []" by (metis list.size(3) zero_neq_numeral)
  moreover have "drop 60 ?out \<noteq> []" "drop 68 ?out = []" using \<open>length ?out = 68\<close> by simp_all
  ultimately have ne: "?out \<noteq> []" "drop 60 ?out \<noteq> []" "drop 68 ?out = []" by blast+
  have "\<exists>net1. send_full_timeout ?out ?net = (True, net1)"
    using ne by (simp add: send_full_timeout_def)
  then obtain net1 where send: "send_full_timeout ?out ?net = (True, net1)" by blast
  have "length (handshake_out (replicate 20 1) (replicate 20 3)) = 68" by simp
  then have "handshake_out (replicate 20 1) (replicate 20 3) \<noteq> []"
    by (metis list.size(3) zero_neq_numeral)
  then have "net_has ?net (handshake_out (replicate 20 1) (replicate 20 3) @ [])"
    by (simp add: net_has_def rx_clean_def rx_bytes_def)
  from handshake_with_peer [OF _ _ _ _ this send] show ?thesis by auto
qed

subsection \<open>Messages that are not for us\<close>

lemma peer_read_frame:
  assumes "net_has net (frame msg @ rest)" and "length msg < 2 ^ 32"
  shows "\<exists>net'. peer_read_message net = (Some (if msg = [] then (0xFF, []) else (hd msg, tl msg)), net')
    \<and> net_has net' rest \<and> n_sent net' = n_sent net \<and> n_tx net' = n_tx net"
proof -
  from recv_message_framed [OF assms] obtain net' where
    r: "recv_message net = (Some msg, net')" "net_has net' rest" "n_tx net' = n_tx net"
      "n_sent net' = n_sent net" by blast
  then show ?thesis by (cases "msg = []") (auto simp: peer_read_message_def)
qed

definition piece_msg :: "nat \<Rightarrow> nat \<Rightarrow> bytes \<Rightarrow> bytes" where
  "piece_msg index offset data = 7 # be32_bytes (word_of_nat index) @ be32_bytes (word_of_nat offset) @ data"

text \<open>The messages a receiver of the block passes over: no choke, no malformed or matching piece.\<close>

definition passed_over :: "nat \<Rightarrow> nat \<Rightarrow> nat \<Rightarrow> bytes \<Rightarrow> bool" where
  "passed_over index offset len msg \<longleftrightarrow> length msg < 2 ^ 32
     \<and> (msg = [] \<or> hd msg \<noteq> 0 \<and> (hd msg = 7 \<longrightarrow> 8 \<le> length (tl msg)
          \<and> \<not> (unat (be32 (tl msg)) = index \<and> unat (be32 (drop 4 (tl msg))) = offset
              \<and> length (tl msg) - 8 = len)))"

lemma receive_passes_over:
  assumes "net_has net (frame msg @ rest)" and "passed_over index offset len msg"
  shows "\<exists>net'. peer_receive_block index offset len net = peer_receive_block index offset len net'
    \<and> net_has net' rest"
proof -
  have l: "length msg < 2 ^ 32" using assms(2) by (simp add: passed_over_def)
  from peer_read_frame [OF assms(1) l] obtain net' where
    r: "peer_read_message net = (Some (if msg = [] then (0xFF, []) else (hd msg, tl msg)), net')"
      "net_has net' rest" by blast
  have "peer_receive_block index offset len net = peer_receive_block index offset len net'"
    using r(1) assms(2) by (subst peer_receive_block.simps) (auto simp: passed_over_def)
  with r(2) show ?thesis by blast
qed

lemma be32_two:
  "be32 (be32_bytes v @ be32_bytes w @ d) = v" "be32 (drop 4 (be32_bytes v @ be32_bytes w @ d)) = w"
  by simp_all



text \<open>Whatever arrives, a delivered block has the requested length.\<close>

lemma receive_block_length:
  "peer_receive_block index offset len net = (Some d, net') \<Longrightarrow> length d = len \<and> n_sent net' = n_sent net"
proof (induction index offset len net rule: peer_receive_block.induct)
  case (1 index offset len net)
  obtain r net1 where m: "peer_read_message net = (r, net1)" by (cases "peer_read_message net")
  have sent: "n_sent net1 = n_sent net"
    using m recv_message_size(3) [of net]
    by (auto simp: peer_read_message_def split: prod.splits option.splits)
  show ?case
  proof (cases r)
    case None
    with 1(4) m show ?thesis by (subst (asm) peer_receive_block.simps) simp
  next
    case (Some mp)
    obtain msg_id payload where mp: "mp = (msg_id, payload)" by (cases mp)
    note IH = 1(1-3) [OF m [symmetric] Some mp [symmetric]]
    from 1(4) show ?thesis
      using m Some mp sent IH
      by (subst (asm) peer_receive_block.simps) (auto split: if_splits)
  qed
qed

subsection \<open>The bit field of a peer\<close>

definition have_msg :: "nat \<Rightarrow> bytes" where
  "have_msg index = 4 # be32_bytes (word_of_nat index)"

text \<open>One turn of the loop on a message that does not unchoke us.\<close>

lemma wait_turn:
  assumes "net_has (p_net peer) (frame (m # payload) @ rest)" and "p_choked peer"
    and "length payload < 2 ^ 31" and "m \<noteq> 0xFF" and "drop_signals (n_rx (p_net peer)) = (False, n_rx (p_net peer))"
  shows "\<exists>net'. net_has net' rest \<and> peer_wait_for_unchoke peer
    = (let peer' = handle_message m payload (peer\<lparr>p_net := net'\<rparr>)
       in if p_choked peer' then peer_wait_for_unchoke peer' else (True, peer'))"
proof -
  have run: "n_running (p_net peer)" using assms(1) by (simp add: net_has_def)
  have c: "check_running (p_net peer) = (True, p_net peer)"
    using assms(5) run by (simp add: check_running_def)
  have "length (m # payload) < 2 ^ 32" using assms(3) by simp
  from peer_read_frame [OF assms(1) this] obtain net' where
    r: "peer_read_message (p_net peer) = (Some (m, payload), net')" "net_has net' rest" by auto
  with assms(2,4) c show ?thesis
    by (subst peer_wait_for_unchoke.simps) (auto simp: Let_def)
qed

lemma clean_no_signal:
  "rx_clean evs \<Longrightarrow> drop_signals evs = (False, evs)"
  by (cases evs rule: drop_signals.cases) (auto simp: rx_clean_def)

lemma wait_haves:
  assumes "net_has (p_net peer) (concat (map (\<lambda>i. frame (have_msg i)) is) @ frame [1] @ rest)"
    and "p_choked peer" and "p_bitfield peer = Some bf" and "\<forall>i\<in>set is. i < 8 * length bf \<and> i < 2 ^ 32"
  shows "\<exists>net'. peer_wait_for_unchoke peer = (True, peer\<lparr>p_net := net', p_choked := False,
      p_bitfield := Some (foldl MARK_DONE bf is)\<rparr>) \<and> net_has net' rest"
  using assms
proof (induction "is" arbitrary: peer bf)
  case Nil
  have net: "net_has (p_net peer) (frame (1 # []) @ rest)" using Nil by simp
  have sig: "drop_signals (n_rx (p_net peer)) = (False, n_rx (p_net peer))"
    using net by (intro clean_no_signal) (simp add: net_has_def)
  obtain net' where n: "net_has net' rest"
    and w: "peer_wait_for_unchoke peer = (True, peer\<lparr>p_net := net', p_choked := False\<rparr>)"
    using wait_turn [OF net Nil(2) _ _ sig] by (auto simp: handle_message_def)
  have "peer\<lparr>p_net := net', p_choked := False\<rparr>
      = peer\<lparr>p_net := net', p_choked := False, p_bitfield := Some bf\<rparr>"
    using Nil(3) by (cases peer) simp
  with n w show ?case by (metis foldl_Nil)
next
  case (Cons i "is")
  let ?rest = "concat (map (\<lambda>i. frame (have_msg i)) is) @ frame [1] @ rest"
  have net: "net_has (p_net peer) (frame (4 # be32_bytes (word_of_nat i)) @ ?rest)"
    using Cons.prems(1) by (simp add: have_msg_def)
  have sig: "drop_signals (n_rx (p_net peer)) = (False, n_rx (p_net peer))"
    using net by (intro clean_no_signal) (simp add: net_has_def)
  obtain net' where n: "net_has net' ?rest" and w: "peer_wait_for_unchoke peer
    = (let peer' = handle_message 4 (be32_bytes (word_of_nat i)) (peer\<lparr>p_net := net'\<rparr>)
       in if p_choked peer' then peer_wait_for_unchoke peer' else (True, peer'))"
    using wait_turn [OF net Cons.prems(2) _ _ sig] by auto
  have "unat (be32 (be32_bytes (word_of_nat i))) = i"
    using be32_be32_bytes [of _ "[]"] Cons.prems(4) by (simp add: unat_of_nat take_bit_nat_eq_self)
  moreover have "i div 8 < length bf" using Cons.prems(4) by (simp add: less_mult_imp_div_less mult.commute)
  ultimately have h: "handle_message 4 (be32_bytes (word_of_nat i)) (peer\<lparr>p_net := net'\<rparr>)
      = peer\<lparr>p_net := net', p_bitfield := Some (MARK_DONE bf i)\<rparr>"
    using Cons.prems(3) by (simp add: handle_message_def Let_def)
  have "\<exists>net''. peer_wait_for_unchoke (peer\<lparr>p_net := net', p_bitfield := Some (MARK_DONE bf i)\<rparr>)
      = (True, peer\<lparr>p_net := net', p_bitfield := Some (MARK_DONE bf i)\<rparr>
          \<lparr>p_net := net'', p_choked := False, p_bitfield := Some (foldl MARK_DONE (MARK_DONE bf i) is)\<rparr>)
      \<and> net_has net'' rest"
    using n Cons.prems(2,4) by (intro Cons.IH) simp_all
  with w h Cons.prems(2) show ?case by (simp add: Let_def)
qed

text \<open>
  a peer that sends its bit field, then HAVE messages, then the unchoke is afterwards taken to
  have exactly the pieces of the bit field and of the HAVE messages.
\<close>

theorem wait_for_unchoke_bitfield:
  assumes "net_has (p_net peer) (frame (5 # bf) @ concat (map (\<lambda>i. frame (have_msg i)) is) @ frame [1] @ rest)"
    and "p_choked peer" and "length bf < 2 ^ 28" and "\<forall>i\<in>set is. i < 8 * length bf"
  shows "\<exists>peer'. peer_wait_for_unchoke peer = (True, peer') \<and> net_has (p_net peer') rest
    \<and> (\<forall>j<8 * length bf. peer_has_piece peer' j \<longleftrightarrow> j \<in> set is \<or> bit_down bf j)
    \<and> (\<forall>j\<ge>8 * length bf. \<not> peer_has_piece peer' j)"
proof -
  let ?rest = "concat (map (\<lambda>i. frame (have_msg i)) is) @ frame [1] @ rest"
  have sig: "drop_signals (n_rx (p_net peer)) = (False, n_rx (p_net peer))"
    using assms(1) by (intro clean_no_signal) (simp add: net_has_def)
  obtain net' where n: "net_has net' ?rest" and w: "peer_wait_for_unchoke peer
    = (let peer' = handle_message 5 bf (peer\<lparr>p_net := net'\<rparr>)
       in if p_choked peer' then peer_wait_for_unchoke peer' else (True, peer'))"
    using wait_turn [OF assms(1,2) _ _ sig] assms(3) by auto
  let ?p = "peer\<lparr>p_net := net', p_bitfield := Some bf\<rparr>"
  have "peer_wait_for_unchoke peer = peer_wait_for_unchoke ?p"
    using w assms(2) by (simp add: handle_message_def Let_def)
  moreover have "\<forall>i\<in>set is. i < 8 * length bf \<and> i < 2 ^ 32" using assms(3,4) by auto
  ultimately obtain net'' where e: "peer_wait_for_unchoke peer = (True, ?p\<lparr>p_net := net'',
      p_choked := False, p_bitfield := Some (foldl MARK_DONE bf is)\<rparr>)" "net_has net'' rest"
    using wait_haves [of ?p "is" rest bf] n assms(2) by auto
  have "length (foldl MARK_DONE bf is) = length bf" using peer_set.capacity_adds [of bf "is"] by simp
  moreover have "bit_down (foldl MARK_DONE bf is) j \<longleftrightarrow> j \<in> set is \<or> bit_down bf j"
    if "j < 8 * length bf" for j
    using peer_set.member_adds [OF assms(4) that] .
  ultimately show ?thesis
    using e by (auto simp: peer_has_piece_def)
qed

theorem wait_for_unchoke_bitfield_witness:
  "\<exists>peer'. peer_wait_for_unchoke \<lparr>p_net = \<lparr>n_running = True,
        n_rx = [Rx_data (frame [5, 0x40]), Rx_data (frame (have_msg 7) @ frame [1])], n_tx = [], n_sent = []\<rparr>,
        p_choked = True, p_bitfield = None\<rparr> = (True, peer')
     \<and> peer_has_piece peer' 7 \<and> peer_has_piece peer' 1 \<and> \<not> peer_has_piece peer' 0"
proof -
  let ?peer = "\<lparr>p_net = \<lparr>n_running = True,
        n_rx = [Rx_data (frame [5, 0x40]), Rx_data (frame (have_msg 7) @ frame [1])], n_tx = [], n_sent = []\<rparr>,
        p_choked = True, p_bitfield = None\<rparr>"
  have "net_has (p_net ?peer) (frame (5 # [0x40]) @ concat (map (\<lambda>i. frame (have_msg i)) [7]) @ frame [1] @ [])"
    by (simp add: net_has_def rx_clean_def rx_bytes_def frame_def be32_bytes_def have_msg_def)
  from wait_for_unchoke_bitfield [OF this] obtain peer' where
    "peer_wait_for_unchoke ?peer = (True, peer')"
    "\<forall>j<8. peer_has_piece peer' j \<longleftrightarrow> j = 7 \<or> bit_down [0x40] j" by auto
  then show ?thesis by (auto simp: bit_down_def)
qed

end
