(* ===== verification/Tracker.thy ===== *)
theory Tracker
  imports Torrent Peer
begin

text \<open>
  FINAL/src/tracker.c: the announce request and its answer. libcurl is outside: its answer is the
  parameter \<open>http\<close>, a function of the URL that gives nothing when the transfer fails and
  otherwise the status and the chunks it hands to \<open>write_callback\<close>.
\<close>

subsection \<open>The response buffer\<close>

record memory_t =
  mem_data :: "bytes option"
  mem_size :: nat

text \<open>With what \<open>realloc\<close> answers; the number of bytes taken and the new buffer.\<close>

definition write_callback :: "bool \<Rightarrow> memory_t \<Rightarrow> bytes \<Rightarrow> nat \<times> memory_t" where
  "write_callback realloc_ok mem src =
     (let realsize = length src
      in if \<not> realloc_ok then (0, mem)
         else let old = (case mem_data mem of None \<Rightarrow> [] | Some d \<Rightarrow> d);
                  buf = memcpy_at (mem_size mem) src
                          (take (mem_size mem) old @ replicate (realsize + 1) 0);
                  n = mem_size mem + realsize
              in (realsize, \<lparr>mem_data = Some (buf[n := 0]), mem_size = n\<rparr>))"

definition mem_append :: "memory_t \<Rightarrow> bytes \<Rightarrow> memory_t" where
  "mem_append mem src = snd (write_callback True mem src)"

definition mem_empty :: memory_t where
  "mem_empty = \<lparr>mem_data = None, mem_size = 0\<rparr>"

definition mem_contents :: "memory_t \<Rightarrow> bytes" where
  "mem_contents mem = take (mem_size mem) (case mem_data mem of None \<Rightarrow> [] | Some d \<Rightarrow> d)"

text \<open>The data are followed by a zero within the block.\<close>

definition mem_inv :: "memory_t \<Rightarrow> bool" where
  "mem_inv mem \<longleftrightarrow> (case mem_data mem of
       None \<Rightarrow> mem_size mem = 0
     | Some d \<Rightarrow> length d = mem_size mem + 1 \<and> d ! mem_size mem = 0)"

lemma mem_append_simps:
  assumes "mem_inv mem"
  shows "mem_inv (mem_append mem src)" and "mem_contents (mem_append mem src) = mem_contents mem @ src"
  using assms
  by (auto simp: mem_inv_def mem_append_def mem_contents_def write_callback_def Let_def memcpy_at_def
      take_update_cancel nth_append split: option.splits)

interpretation response: byte_sink mem_append mem_contents mem_inv
  by unfold_locales (simp_all add: mem_append_simps)

subsection \<open>The request\<close>

definition url_encode :: "bytes \<Rightarrow> bytes" where
  "url_encode data = concat (map (\<lambda>b. c_percent # hex_byte b) (take 20 data))"

definition PEER_PREFIX :: bytes where
  "PEER_PREFIX = str ''-qB4390-''"

text \<open>\<open>rand\<close> is the \<open>i\<close>-th value of \<open>rand ()\<close>; the array has 21 bytes.\<close>

definition generate_peer_id :: "(nat \<Rightarrow> nat) \<Rightarrow> bytes" where
  "generate_peer_id rand = PEER_PREFIX @ map (\<lambda>i. digit (rand i mod 10)) [0..<12] @ [c_nul]"

definition announce_url :: "torrent_t \<Rightarrow> bytes \<Rightarrow> bytes" where
  "announce_url tor peer_id =
     snprintf 2048
       ((case t_announce tor of Some a \<Rightarrow> cstr a | None \<Rightarrow> []) @ str ''?info_hash=''
        @ url_encode (t_info_hash tor) @ str ''&peer_id='' @ url_encode peer_id
        @ str ''&port='' @ show_dec 60703 @ str ''&uploaded=0&downloaded=0&left=''
        @ show_dec (t_total_length tor) @ str ''&compact=1&event=started'')"

subsection \<open>The answer\<close>

text \<open>Address and port as the bytes in network order.\<close>

record peer_t =
  pr_ip :: bytes
  pr_port :: bytes

definition peers_of :: "bytes \<Rightarrow> peer_t list" where
  "peers_of data = map (\<lambda>i. \<lparr>pr_ip = take 4 (drop (i * 6) data),
                            pr_port = take 2 (drop (i * 6 + 4) data)\<rparr>) [0..<length data div 6]"

text \<open>
  \<open>Inr (n, peers)\<close>: the result and the array. A body without bytes leaves \<open>chunk.data\<close> at \<open>NULL\<close>,
  which the decoder dereferences. Otherwise the zero after the data is what the decoder reads at
  the end of the input, an unknown type.
\<close>

definition tracker_get_peers ::
  "bool \<Rightarrow> (bytes \<Rightarrow> (nat \<times> bytes list) option) \<Rightarrow> torrent_t \<Rightarrow> bytes \<Rightarrow> ub + (int \<times> peer_t list)" where
  "tracker_get_peers init_ok http tor peer_id =
     (if \<not> init_ok then Inr (- 1, [])
      else case http (announce_url tor peer_id) of
             None \<Rightarrow> Inr (- 1, [])
           | Some (http_code, chunks) \<Rightarrow>
               if http_code \<noteq> 200 then Inr (- 1, [])
               else
                 let chunk = foldl mem_append mem_empty chunks
                 in if mem_data chunk = None then Inl Ub_NullDeref
                    else case bencode_decode (mem_contents chunk) of
                           DUb Ub_OobRead \<Rightarrow> Inr (- 1, [])
                         | DUb u \<Rightarrow> Inl u
                         | DNull \<Rightarrow> Inr (- 1, [])
                         | DObj resp \<Rightarrow>
                             (case bencode_dict_get resp (str ''peers'') of
                                Some (BEN_STRING peers) \<Rightarrow>
                                  if length peers mod 6 \<noteq> 0 then Inr (- 1, [])
                                  else Inr (int (length peers div 6), peers_of peers)
                              | _ \<Rightarrow> Inr (- 1, [])))"

subsection \<open>The URL\<close>

text \<open>Percent decoding, as a tracker does it.\<close>

definition hex_val :: "u8 \<Rightarrow> nat" where
  "hex_val b = (if isdigit b then unat b - 48 else unat b - 55)"

fun percent_decode :: "bytes \<Rightarrow> bytes" where
  "percent_decode (p # h # l # rest) = word_of_nat (16 * hex_val h + hex_val l) # percent_decode rest"
| "percent_decode _ = []"

lemma hex_val_digit: "n < 16 \<Longrightarrow> hex_val (hex_digit n) = n"
proof (cases "n < 10")
  case True
  then have "hex_digit n = digit n" by (simp add: hex_digit_def digit_def)
  with True show ?thesis by (simp add: hex_val_def isdigit_digit unat_digit)
next
  case False
  assume "n < 16"
  then have "unat (word_of_nat (55 + n) :: u8) = 55 + n" unfolding unat_of_nat by simp
  with False show ?thesis by (simp add: hex_val_def hex_digit_def isdigit_unat del: of_nat_add)
qed

lemma percent_decode_hex: "percent_decode (c_percent # hex_byte b @ rest) = b # percent_decode rest"
proof -
  have "unat b div 16 < 16" using unsigned_less [of b, where 'a = nat] by simp
  then show ?thesis by (simp add: hex_byte_def hex_val_digit)
qed

text \<open>
  the URL encoding of a hash or a peer id is 60 characters and decodes to the same 20 bytes,
  whatever they are.
\<close>

theorem url_encode_roundtrip:
  "length data = 20 \<Longrightarrow> percent_decode (url_encode data) = data \<and> length (url_encode data) = 60"
proof -
  assume len: "length data = 20"
  have "percent_decode (concat (map (\<lambda>b. c_percent # hex_byte b) bs)) = bs" for bs
    by (induction bs) (simp_all add: percent_decode_hex [simplified])
  moreover have "length (concat (map (\<lambda>b. c_percent # hex_byte b) bs)) = 3 * length bs" for bs
    by (induction bs) (simp_all add: hex_byte_def)
  ultimately show ?thesis using len by (simp add: url_encode_def)
qed

theorem url_encode_roundtrip_witness:
  "percent_decode (url_encode (replicate 19 0 @ [0xAF])) = replicate 19 0 @ [0xAF]"
  using url_encode_roundtrip [of "replicate 19 0 @ [0xAF]"] by simp

lemma generate_peer_id_shape:
  "length (generate_peer_id rand) = 21" "\<forall>b\<in>set (take 12 (drop 8 (generate_peer_id rand))). isdigit b"
  by (auto simp: generate_peer_id_def PEER_PREFIX_def isdigit_digit)

subsection \<open>The peers\<close>

definition peers_bytes :: "peer_t list \<Rightarrow> bytes" where
  "peers_bytes ps = concat (map (\<lambda>p. pr_ip p @ pr_port p) ps)"

definition peer_ok :: "peer_t \<Rightarrow> bool" where
  "peer_ok p \<longleftrightarrow> length (pr_ip p) = 4 \<and> length (pr_port p) = 2"

lemma length_peers_bytes: "\<forall>p\<in>set ps. peer_ok p \<Longrightarrow> length (peers_bytes ps) = 6 * length ps"
  by (induction ps) (simp_all add: peers_bytes_def peer_ok_def)

lemma peers_of_bytes: "\<forall>p\<in>set ps. peer_ok p \<Longrightarrow> peers_of (peers_bytes ps) = ps"
proof (rule nth_equalityI)
  assume ok: "\<forall>p\<in>set ps. peer_ok p"
  then show "length (peers_of (peers_bytes ps)) = length ps"
    by (simp add: peers_of_def length_peers_bytes)
  fix i assume "i < length (peers_of (peers_bytes ps))"
  then have i: "i < length ps" using ok by (simp add: peers_of_def length_peers_bytes)
  have "peers_bytes ps = peers_bytes (take i ps) @ pr_ip (ps ! i) @ pr_port (ps ! i)
      @ peers_bytes (drop (Suc i) ps)"
    using i unfolding peers_bytes_def
    by (metis (no_types, lifting) append_assoc append_take_drop_id concat.simps(2) concat_append
        list.simps(9) map_append Cons_nth_drop_Suc)
  moreover have "length (peers_bytes (take i ps)) = i * 6"
    using ok i by (subst length_peers_bytes) (auto dest: in_set_takeD)
  moreover have "length (pr_ip (ps ! i)) = 4" "length (pr_port (ps ! i)) = 2"
    using ok i by (auto simp: peer_ok_def)
  ultimately have "take 4 (drop (i * 6) (peers_bytes ps)) = pr_ip (ps ! i)"
    "take 2 (drop (i * 6 + 4) (peers_bytes ps)) = pr_port (ps ! i)"
    by simp_all
  then show "peers_of (peers_bytes ps) ! i = ps ! i"
    using i ok by (simp add: peers_of_def length_peers_bytes)
qed

text \<open>
  a tracker's compact answer yields exactly its peers, in order, however libcurl cuts the body
  into chunks.
\<close>

theorem tracker_peers:
  assumes "\<forall>p\<in>set ps. peer_ok p" and "length ps < 2 ^ 32" and "- (2 ^ 63) \<le> iv \<and> iv < 2 ^ 63"
    and "http (announce_url tor peer_id) = Some (200, chunks)"
    and "concat chunks
      = benc (BEN_DICT [(str ''interval'', BEN_INT iv), (str ''peers'', BEN_STRING (peers_bytes ps))])"
  shows "tracker_get_peers True http tor peer_id = Inr (int (length ps), ps)"
proof -
  let ?resp = "BEN_DICT [(str ''interval'', BEN_INT iv), (str ''peers'', BEN_STRING (peers_bytes ps))]"
  let ?chunk = "foldl mem_append mem_empty chunks"
  have len: "length (peers_bytes ps) = 6 * length ps" using assms(1) by (rule length_peers_bytes)
  have "ben_wf ?resp" using assms(2,3) len by (simp add: LONG_MIN_def LONG_MAX_def)
  then have dec: "bencode_decode (benc ?resp) = DObj ?resp" by (rule bencode_decode_benc)
  have inv: "mem_inv mem_empty" by (simp add: mem_inv_def mem_empty_def)
  have c: "mem_contents ?chunk = benc ?resp"
    using response.contents_appends [OF inv, of chunks] assms(5) by (simp add: mem_contents_def mem_empty_def)
  moreover have "benc ?resp \<noteq> []" by simp
  moreover have "mem_data ?chunk = None \<Longrightarrow> mem_contents ?chunk = []" by (simp add: mem_contents_def)
  ultimately have "mem_data ?chunk \<noteq> None" by metis
  with c dec len assms(1,4) show ?thesis
    by (simp add: tracker_get_peers_def Let_def dict_get_Cons str_eq peers_of_bytes del: benc.simps)
qed

theorem tracker_peers_witness:
  "tracker_get_peers True (\<lambda>_. Some (200, [str ''d8:int'', str ''ervali0e5:peers6:ABCDEFe'']))
     torrent_zero (replicate 20 0)
   = Inr (1, [\<lparr>pr_ip = str ''ABCD'', pr_port = str ''EF''\<rparr>])"
  by (subst tracker_peers [where iv = 0 and ps = "[\<lparr>pr_ip = str ''ABCD'', pr_port = str ''EF''\<rparr>]"
        and chunks = "[str ''d8:int'', str ''ervali0e5:peers6:ABCDEFe'']"])
    (simp_all add: peer_ok_def peers_bytes_def show_dec_def show_int_def show_base.simps digit_def str_Cons)

text \<open>
  a tracker that answers with status 200 and no body makes the client dereference a null
  pointer.
\<close>

theorem tracker_empty_answer:
  assumes "http (announce_url tor peer_id) = Some (200, [])"
  shows "tracker_get_peers True http tor peer_id = Inl Ub_NullDeref"
  using assms by (simp add: tracker_get_peers_def mem_empty_def)

theorem tracker_empty_answer_witness:
  "tracker_get_peers True (\<lambda>_. Some (200, [])) torrent_zero [] = Inl Ub_NullDeref"
  by (rule tracker_empty_answer) simp

end
