(* ===== verification/Download.thy ===== *)
theory Download
  imports Utils Tar Tracker
begin

text \<open>
  FINAL/src/main.c: the download of the missing pieces from the peers, one after the other, and the
  program around it. The peers are scripts (\<open>conn_answers\<close> for the connect, a \<open>net\<close> for the
  traffic); \<open>junk\<close> gives the bytes \<open>xmalloc\<close> leaves in a fresh piece buffer.
\<close>

subsection \<open>The output\<close>

text \<open>The contract of an output for pieces: a write keeps it usable and raises no error.\<close>

locale piece_sink =
  fixes wr :: "'o \<Rightarrow> nat \<Rightarrow> bytes \<Rightarrow> ub + 'o"
    and inv :: "'o \<Rightarrow> bool"
  assumes write_ok: "inv out \<Longrightarrow> \<exists>out'. wr out i d = Inr out' \<and> inv out'"

text \<open>The pieces of a list written one after the other.\<close>

fun write_all :: "('o \<Rightarrow> nat \<Rightarrow> bytes \<Rightarrow> ub + 'o) \<Rightarrow> 'o \<Rightarrow> (nat \<times> bytes) list \<Rightarrow> ub + 'o" where
  "write_all wr out [] = Inr out"
| "write_all wr out ((i, d) # ws) =
     (case wr out i d of Inl u \<Rightarrow> Inl u | Inr out' \<Rightarrow> write_all wr out' ws)"

lemma write_all_append:
  "write_all wr out ws = Inr out' \<Longrightarrow>
     write_all wr out (ws @ ws') = write_all wr out' ws'"
  by (induction wr out ws rule: write_all.induct) (auto split: sum.splits)

text \<open>The context of the configuration: the archive writer or the directory.\<close>

datatype out_ctx = Out_tar tar_writer_t | Out_storage storage_t "bytes \<rightharpoonup> bytes"

definition out_write :: "io_answers \<Rightarrow> nat \<Rightarrow> out_ctx \<Rightarrow> nat \<Rightarrow> bytes \<Rightarrow> ub + out_ctx" where
  "out_write io now out i data =
     (case out of
        Out_tar tw \<Rightarrow> (case tar_writer_write now tw i data of Inl u \<Rightarrow> Inl u | Inr tw' \<Rightarrow> Inr (Out_tar tw'))
      | Out_storage st fs \<Rightarrow> Inr (Out_storage st (storage_write io st i data fs)))"

subsection \<open>Blocks and pieces\<close>

abbreviation BLOCK_SIZE :: nat where "BLOCK_SIZE \<equiv> 16384"

text \<open>
  The loop over the blocks of a piece: \<open>piece_ok\<close>, the buffer and the connection. When a signal
  clears \<open>running\<close> between two blocks the loop ends with \<open>piece_ok\<close> still set.
\<close>

function download_blocks :: "nat \<Rightarrow> nat \<Rightarrow> nat \<Rightarrow> bytes \<Rightarrow> net \<Rightarrow> bool \<times> bytes \<times> net" where
  "download_blocks i plen offset buf net =
     (if plen \<le> offset then (True, buf, net)
      else case check_running net of
             (False, net0) \<Rightarrow> (True, buf, net0)
           | (True, net0) \<Rightarrow>
               (let block_len = (if plen - offset > BLOCK_SIZE then BLOCK_SIZE else plen - offset)
                in case peer_send_request i offset block_len net0 of
                     (False, net1) \<Rightarrow> (False, buf, net1)
                   | (True, net1) \<Rightarrow>
                       (case peer_receive_block i offset block_len net1 of
                          (None, net2) \<Rightarrow> (False, buf, net2)
                        | (Some d, net2) \<Rightarrow>
                            download_blocks i plen (offset + block_len) (memcpy_at offset d buf) net2)))"
  by pat_completeness auto
termination by (relation "measure (\<lambda>(i, len, offset, buf, net). len - offset)") auto

declare download_blocks.simps [simp del]

text \<open>The state of the download: bit field of the done pieces, pieces left, output, connection.\<close>

record 'o dl =
  d_done :: bytes
  d_left :: int
  d_out :: 'o
  d_peer :: peer_connection

text \<open>One index of the loop over the pieces, past its guards.\<close>

definition try_piece ::
  "(bytes \<Rightarrow> bytes) \<Rightarrow> ('o \<Rightarrow> nat \<Rightarrow> bytes \<Rightarrow> ub + 'o) \<Rightarrow> (nat \<Rightarrow> nat \<Rightarrow> u8) \<Rightarrow> torrent_t
     \<Rightarrow> nat \<Rightarrow> 'o dl \<Rightarrow> ub + 'o dl" where
  "try_piece sha1 wr junk tor i s =
     (if IS_DONE (d_done s) i then Inr s
      else if \<not> peer_has_piece (d_peer s) i then Inr s
      else case piece_size tor i of
             Inl u \<Rightarrow> Inl u
           | Inr plen \<Rightarrow>
               (case download_blocks i plen 0 (map (junk i) [0..<plen]) (p_net (d_peer s)) of
                  (piece_ok, buf, net) \<Rightarrow>
                    (let s1 = s\<lparr>d_peer := (d_peer s)\<lparr>p_net := net\<rparr>\<rparr>
                     in if \<not> piece_ok then Inr s1
                        else case verify_piece sha1 tor i buf of
                               Inl u \<Rightarrow> Inl u
                             | Inr False \<Rightarrow> Inr s1
                             | Inr True \<Rightarrow>
                                 (case wr (d_out s) i buf of
                                    Inl u \<Rightarrow> Inl u
                                  | Inr out \<Rightarrow>
                                      Inr (s1\<lparr>d_out := out, d_done := MARK_DONE (d_done s) i,
                                              d_left := d_left s - 1\<rparr>)))))"

text \<open>The loop over the indices; \<open>k\<close> indices remain, the next one is \<open>num_pieces - k\<close>.\<close>

fun piece_loop ::
  "(bytes \<Rightarrow> bytes) \<Rightarrow> ('o \<Rightarrow> nat \<Rightarrow> bytes \<Rightarrow> ub + 'o) \<Rightarrow> (nat \<Rightarrow> nat \<Rightarrow> u8) \<Rightarrow> torrent_t
     \<Rightarrow> nat \<Rightarrow> 'o dl \<Rightarrow> ub + 'o dl" where
  "piece_loop sha1 wr junk tor 0 s = Inr s"
| "piece_loop sha1 wr junk tor (Suc k) s =
     (if d_left s \<le> 0 then Inr s
      else case check_running (p_net (d_peer s)) of
             (run, net) \<Rightarrow>
               let s0 = s\<lparr>d_peer := (d_peer s)\<lparr>p_net := net\<rparr>\<rparr>
               in if \<not> run then Inr s0
                  else case try_piece sha1 wr junk tor (t_num_pieces tor - Suc k) s0 of
                         Inl u \<Rightarrow> Inl u
                       | Inr s1 \<Rightarrow> piece_loop sha1 wr junk tor k s1)"

subsection \<open>Peers\<close>

record peer_script =
  ps_answers :: conn_answers
  ps_net :: net

definition running_now :: "'o dl \<Rightarrow> bool" where
  "running_now s = n_running (p_net (d_peer s))"

text \<open>From the connect to the unchoke: whether pieces can be requested.\<close>

definition peer_setup :: "torrent_t \<Rightarrow> bytes \<Rightarrow> net \<Rightarrow> bool \<times> peer_connection" where
  "peer_setup tor my_peer_id net =
     (let idle = (\<lambda>n. \<lparr>p_net = n, p_choked = True, p_bitfield = None\<rparr>)
      in case peer_handshake (t_info_hash tor) my_peer_id net of
           (None, net1) \<Rightarrow> (False, idle net1)
         | (Some _, net1) \<Rightarrow>
             (case peer_send_interested net1 of
                (False, net2) \<Rightarrow> (False, idle net2)
              | (True, net2) \<Rightarrow> peer_wait_for_unchoke (idle net2)))"

fun peer_loop ::
  "(bytes \<Rightarrow> bytes) \<Rightarrow> ('o \<Rightarrow> nat \<Rightarrow> bytes \<Rightarrow> ub + 'o) \<Rightarrow> (nat \<Rightarrow> nat \<Rightarrow> u8) \<Rightarrow> torrent_t
     \<Rightarrow> bytes \<Rightarrow> peer_script list \<Rightarrow> 'o dl \<Rightarrow> ub + 'o dl" where
  "peer_loop sha1 wr junk tor my_peer_id [] s = Inr s"
| "peer_loop sha1 wr junk tor my_peer_id (sc # scs) s =
     (if d_left s \<le> 0 \<or> \<not> running_now s then Inr s
      else if \<not> fst (tcp_connect_timeout (ps_answers sc))
      then peer_loop sha1 wr junk tor my_peer_id scs s
      else case peer_setup tor my_peer_id ((ps_net sc)\<lparr>n_running := True\<rparr>) of
             (False, peer) \<Rightarrow> peer_loop sha1 wr junk tor my_peer_id scs (s\<lparr>d_peer := peer\<rparr>)
           | (True, peer) \<Rightarrow>
               (case piece_loop sha1 wr junk tor (t_num_pieces tor) (s\<lparr>d_peer := peer\<rparr>) of
                  Inl u \<Rightarrow> Inl u
                | Inr s1 \<Rightarrow> peer_loop sha1 wr junk tor my_peer_id scs s1))"

text \<open>\<open>pieces_left\<close> is an \<open>int\<close> that starts from a \<open>uint32_t\<close>.\<close>

definition to_int32 :: "nat \<Rightarrow> int" where
  "to_int32 n = (if n < 2 ^ 31 then int n else int n - 2 ^ 32)"

definition download_init :: "torrent_t \<Rightarrow> 'o \<Rightarrow> 'o dl" where
  "download_init tor out =
     \<lparr>d_done = replicate (((t_num_pieces tor + 7) mod 2 ^ 32) div 8) 0,
      d_left = to_int32 (t_num_pieces tor), d_out = out,
      d_peer = \<lparr>p_net = \<lparr>n_running = True, n_rx = [], n_tx = [], n_sent = []\<rparr>,
                p_choked = True, p_bitfield = None\<rparr>\<rparr>"

text \<open>The pieces left and the output, before it is closed.\<close>

definition download_pieces ::
  "(bytes \<Rightarrow> bytes) \<Rightarrow> ('o \<Rightarrow> nat \<Rightarrow> bytes \<Rightarrow> ub + 'o) \<Rightarrow> (nat \<Rightarrow> nat \<Rightarrow> u8) \<Rightarrow> torrent_t
     \<Rightarrow> bytes \<Rightarrow> peer_script list \<Rightarrow> 'o \<Rightarrow> ub + (int \<times> 'o)" where
  "download_pieces sha1 wr junk tor my_peer_id scs out =
     (case peer_loop sha1 wr junk tor my_peer_id scs (download_init tor out) of
        Inl u \<Rightarrow> Inl u
      | Inr s \<Rightarrow> Inr (d_left s, d_out s))"

subsection \<open>The program\<close>

text \<open>
  What \<open>main\<close> sees of its surroundings: the options, the standard input and its error flag, the
  files, the value of \<open>rand\<close>, libcurl, the answers of the file system and the device, the clock, and
  a connection script for every peer address.
\<close>

record env =
  e_opts :: "(char \<times> bytes) list"
  e_stdin :: bytes
  e_stdin_error :: bool
  e_files :: "bytes \<Rightarrow> bytes option"
  e_rand :: "nat \<Rightarrow> nat"
  e_curl_ok :: bool
  e_http :: "bytes \<Rightarrow> (nat \<times> bytes list) option"
  e_os :: os_answers
  e_io :: io_answers
  e_now :: nat
  e_junk :: "nat \<Rightarrow> nat \<Rightarrow> u8"
  e_peer :: "peer_t \<Rightarrow> peer_script"

definition load_torrent ::
  "(bytes \<Rightarrow> bytes) \<Rightarrow> env \<Rightarrow> config_t \<Rightarrow> ub + (int \<times> torrent_t)" where
  "load_torrent sha1 e cfg =
     (if cfg_use_stdin cfg then
        (let data = read_stdin (e_stdin_error e) (e_stdin e)
         in if data = [] then Inr (1, torrent_zero)
            else case torrent_load_from_memory sha1 data of
                   Inl u \<Rightarrow> Inl u
                 | Inr (ret, tor) \<Rightarrow> Inr (if ret \<noteq> 0 then 1 else 0, tor))
      else case cfg_input_file cfg of
             Some path \<Rightarrow>
               (case torrent_load sha1 (e_files e) path torrent_zero of
                  Inl u \<Rightarrow> Inl u
                | Inr (ret, tor) \<Rightarrow> Inr (if ret \<noteq> 0 then 1 else 0, tor))
           | None \<Rightarrow> Inr (1, torrent_zero))"

definition setup_output_context ::
  "env \<Rightarrow> config_t \<Rightarrow> torrent_t \<Rightarrow> world \<Rightarrow> ub + (out_ctx option \<times> config_t \<times> world)" where
  "setup_output_context e cfg tor w =
     (if cfg_output_file cfg \<noteq> None \<or> cfg_extract_dir cfg \<noteq> None then
        (if cfg_output_file cfg \<noteq> None \<and> length (t_files tor) > 1 then Inr (None, cfg, w)
         else case storage_open (e_os e) cfg tor w of
                Inl u \<Rightarrow> Inl u
              | Inr (None, w') \<Rightarrow> Inr (None, cfg, w')
              | Inr (Some st, w') \<Rightarrow>
                  Inr (Some (Out_storage st (w_fs w')), cfg\<lparr>cfg_use_tar := False\<rparr>, w'))
      else Inr (Some (Out_tar (tar_writer_open tor)), cfg\<lparr>cfg_use_tar := True\<rparr>, w))"

text \<open>What is left when the program ends: its exit code, the standard output and the files.\<close>

record outcome =
  oc_exit :: int
  oc_stdout :: bytes
  oc_fs :: "bytes \<rightharpoonup> bytes"
  oc_left :: "int option"

definition out_close :: "int \<Rightarrow> int \<Rightarrow> out_ctx \<Rightarrow> (bytes \<rightharpoonup> bytes) \<Rightarrow> outcome" where
  "out_close code left out fs0 =
     (case out of
        Out_tar tw \<Rightarrow> \<lparr>oc_exit = code, oc_stdout = tar_writer_close tw, oc_fs = fs0, oc_left = Some left\<rparr>
      | Out_storage st fs \<Rightarrow> \<lparr>oc_exit = code, oc_stdout = [], oc_fs = fs, oc_left = Some left\<rparr>)"

definition main_prog :: "(bytes \<Rightarrow> bytes) \<Rightarrow> env \<Rightarrow> world \<Rightarrow> ub + outcome" where
  "main_prog sha1 e w =
     (let stop = (\<lambda>code w. Inr \<lparr>oc_exit = code, oc_stdout = [], oc_fs = w_fs w, oc_left = None\<rparr>)
      in case parse_args (e_opts e) of
           None \<Rightarrow> stop 1 w
         | Some cfg \<Rightarrow>
             (case load_torrent sha1 e cfg of
                Inl u \<Rightarrow> Inl u
              | Inr (ret, tor) \<Rightarrow>
                  if ret \<noteq> 0 then stop 1 w
                  else
                    (let my_peer_id = generate_peer_id (e_rand e)
                     in case tracker_get_peers (e_curl_ok e) (e_http e) tor my_peer_id of
                          Inl u \<Rightarrow> Inl u
                        | Inr (peer_count, peers) \<Rightarrow>
                            if peer_count \<le> 0 then stop 1 w
                            else case setup_output_context e cfg tor w of
                                   Inl u \<Rightarrow> Inl u
                                 | Inr (None, cfg', w') \<Rightarrow> stop 1 w'
                                 | Inr (Some out, cfg', w') \<Rightarrow>
                                     (case download_pieces sha1 (out_write (e_io e) (e_now e)) (e_junk e)
                                             tor my_peer_id (map (e_peer e) peers) out of
                                        Inl u \<Rightarrow> Inl u
                                      | Inr (left, out') \<Rightarrow> Inr (out_close 0 left out' (w_fs w'))))))"

subsection \<open>What is written\<close>

definition piece_good :: "(bytes \<Rightarrow> bytes) \<Rightarrow> torrent_t \<Rightarrow> nat \<times> bytes \<Rightarrow> bool" where
  "piece_good sha1 tor w \<longleftrightarrow> fst w < t_num_pieces tor \<and> piece_size tor (fst w) = Inr (length (snd w))
     \<and> sha1 (snd w) = expected_hash tor (fst w)"

text \<open>The pieces \<open>ws\<close> have been written to \<open>out0\<close>, each once and verified, and are the ones marked.\<close>

definition dl_ok ::
  "('o \<Rightarrow> nat \<Rightarrow> bytes \<Rightarrow> ub + 'o) \<Rightarrow> (bytes \<Rightarrow> bytes) \<Rightarrow> torrent_t \<Rightarrow> 'o \<Rightarrow> 'o dl
     \<Rightarrow> (nat \<times> bytes) list \<Rightarrow> bool" where
  "dl_ok wr sha1 tor out0 s ws \<longleftrightarrow>
     write_all wr out0 ws = Inr (d_out s) \<and> distinct (map fst ws)
     \<and> (\<forall>w\<in>set ws. piece_good sha1 tor w)
     \<and> d_left s = int (t_num_pieces tor) - int (length ws)
     \<and> t_num_pieces tor \<le> 8 * length (d_done s)
     \<and> (\<forall>i<t_num_pieces tor. IS_DONE (d_done s) i \<longleftrightarrow> i \<in> fst ` set ws)"

lemma dl_ok_peer: "dl_ok wr sha1 tor out0 (s\<lparr>d_peer := p\<rparr>) ws = dl_ok wr sha1 tor out0 s ws"
  by (simp add: dl_ok_def)

lemma length_download_blocks:
  "download_blocks i plen offset buf net = (ok, buf', net') \<Longrightarrow> length buf = plen \<Longrightarrow> length buf' = plen"
proof (induction i plen offset buf net rule: download_blocks.induct)
  case (1 i plen offset buf net)
  show ?case
  proof (cases "plen \<le> offset")
    case True
    with 1(2,3) show ?thesis by (subst (asm) download_blocks.simps) simp
  next
    case off: False
    obtain run net0 where c: "check_running net = (run, net0)" by (cases "check_running net")
    let ?b = "if plen - offset > BLOCK_SIZE then BLOCK_SIZE else plen - offset"
    obtain sent net1 where r: "peer_send_request i offset ?b net0 = (sent, net1)"
      by (cases "peer_send_request i offset ?b net0")
    obtain d net2 where b: "peer_receive_block i offset ?b net1 = (d, net2)"
      by (cases "peer_receive_block i offset ?b net1")
    show ?thesis
    proof (cases "run \<and> sent \<and> d \<noteq> None")
      case False
      then show ?thesis
        using 1(2,3) off c r b
        by (subst (asm) download_blocks.simps) (auto simp: Let_def split: bool.splits option.splits)
    next
      case True
      then obtain dd where d: "d = Some dd" by auto
      have "length dd = ?b" using receive_block_length b d by blast
      then have l: "length (memcpy_at offset dd buf) = plen"
        using off 1(3) by (subst length_memcpy_at) auto
      have "download_blocks i plen (offset + ?b) (memcpy_at offset dd buf) net2 = (ok, buf', net')"
        using 1(2) off c r b d True by (subst (asm) download_blocks.simps) (simp add: Let_def)
      with 1(1) [OF off c [symmetric]] r b d True l show ?thesis by fastforce
    qed
  qed
qed

lemma dl_ok_mark:
  assumes "dl_ok wr sha1 tor out0 s ws" and "i < t_num_pieces tor" and "\<not> IS_DONE (d_done s) i"
    and "piece_good sha1 tor (i, d)" and "wr (d_out s) i d = Inr out"
  shows "dl_ok wr sha1 tor out0
    (s\<lparr>d_out := out, d_done := MARK_DONE (d_done s) i, d_left := d_left s - 1\<rparr>) (ws @ [(i, d)])"
proof -
  have w: "write_all wr out0 ws = Inr (d_out s)" using assms(1) by (simp add: dl_ok_def)
  have "IS_DONE (MARK_DONE (d_done s) i) j \<longleftrightarrow> j = i \<or> IS_DONE (d_done s) j"
    if "j < t_num_pieces tor" for j
    using assms(1,2) that by (intro done_set.member_add) (simp_all add: dl_ok_def)
  then show ?thesis
    using assms write_all_append [OF w, of "[(i, d)]"] by (auto simp: dl_ok_def)
qed

context piece_sink
begin

lemma try_piece_ok:
  assumes "dl_ok wr sha1 tor out0 s ws" and "inv (d_out s)"
    and "0 < t_piece_length tor" and "t_num_pieces tor < 2 ^ 31" and "i < t_num_pieces tor"
  shows "\<exists>s' ws'. try_piece sha1 wr junk tor i s = Inr s' \<and> dl_ok wr sha1 tor out0 s' (ws @ ws')
    \<and> inv (d_out s')"
proof (cases "IS_DONE (d_done s) i \<or> \<not> peer_has_piece (d_peer s) i")
  case True
  then have "try_piece sha1 wr junk tor i s = Inr s" by (auto simp: try_piece_def)
  with assms(1,2) show ?thesis by (intro exI [of _ s] exI [of _ "[]"]) simp
next
  case False
  have size: "piece_size tor i = Inr (piece_len tor i)"
    using assms(3-5) by (intro piece_size_cases) simp_all
  let ?n = "piece_len tor i"
  obtain ok buf net where b: "download_blocks i ?n 0 (map (junk i) [0..<?n]) (p_net (d_peer s)) = (ok, buf, net)"
    by (metis prod_cases3)
  then have len: "length buf = ?n" by (rule length_download_blocks) simp
  let ?s1 = "s\<lparr>d_peer := (d_peer s)\<lparr>p_net := net\<rparr>\<rparr>"
  have v: "verify_piece sha1 tor i buf = Inr (sha1 buf = expected_hash tor i)"
    using assms(5) size len by (simp add: verify_piece_def)
  show ?thesis
  proof (cases "ok \<and> sha1 buf = expected_hash tor i")
    case bad: False
    then have "try_piece sha1 wr junk tor i s = Inr ?s1"
      using False size b v by (auto simp: try_piece_def Let_def)
    moreover have "dl_ok wr sha1 tor out0 ?s1 (ws @ [])" using assms(1) by (simp add: dl_ok_peer)
    moreover have "inv (d_out ?s1)" using assms(2) by simp
    ultimately show ?thesis by blast
  next
    case good: True
    obtain out where w: "wr (d_out s) i buf = Inr out" "inv out" using write_ok [OF assms(2)] by blast
    let ?s2 = "?s1\<lparr>d_out := out, d_done := MARK_DONE (d_done s) i, d_left := d_left s - 1\<rparr>"
    have "try_piece sha1 wr junk tor i s = Inr ?s2"
      using good False size b v w by (simp add: try_piece_def Let_def)
    moreover have "piece_good sha1 tor (i, buf)"
      using good size len assms(5) by (simp add: piece_good_def)
    then have "dl_ok wr sha1 tor out0 ?s2 (ws @ [(i, buf)])"
      using dl_ok_mark [of wr sha1 tor out0 ?s1 ws i buf out] assms(1,5) False w by (simp add: dl_ok_peer)
    moreover have "inv (d_out ?s2)" using w by simp
    ultimately show ?thesis by blast
  qed
qed

lemma piece_loop_ok:
  assumes "0 < t_piece_length tor" and "t_num_pieces tor < 2 ^ 31"
  shows "dl_ok wr sha1 tor out0 s ws \<Longrightarrow> inv (d_out s) \<Longrightarrow> k \<le> t_num_pieces tor \<Longrightarrow>
    \<exists>s' ws'. piece_loop sha1 wr junk tor k s = Inr s' \<and> dl_ok wr sha1 tor out0 s' (ws @ ws')
      \<and> inv (d_out s')"
proof (induction k arbitrary: s ws)
  case 0
  then show ?case by (intro exI [of _ s] exI [of _ "[]"]) simp
next
  case (Suc k)
  obtain run net where c: "check_running (p_net (d_peer s)) = (run, net)"
    by (cases "check_running (p_net (d_peer s))")
  let ?s0 = "s\<lparr>d_peer := (d_peer s)\<lparr>p_net := net\<rparr>\<rparr>"
  have ok0: "dl_ok wr sha1 tor out0 ?s0 ws" "inv (d_out ?s0)" using Suc.prems by (simp_all add: dl_ok_peer)
  show ?case
  proof (cases "d_left s \<le> 0 \<or> \<not> run")
    case True
    then have "piece_loop sha1 wr junk tor (Suc k) s = Inr s \<or> piece_loop sha1 wr junk tor (Suc k) s = Inr ?s0"
      using c by auto
    with ok0 Suc.prems(1,2) show ?thesis by (metis append_Nil2)
  next
    case False
    have "t_num_pieces tor - Suc k < t_num_pieces tor" using Suc.prems(3) by simp
    from try_piece_ok [OF ok0 assms this] obtain s1 ws1 where
      one: "try_piece sha1 wr junk tor (t_num_pieces tor - Suc k) ?s0 = Inr s1"
      "dl_ok wr sha1 tor out0 s1 (ws @ ws1)" "inv (d_out s1)" by blast
    from Suc.IH [OF one(2,3)] Suc.prems(3) one(1) False c show ?thesis
      by (auto simp: Let_def)
  qed
qed

lemma peer_loop_ok:
  assumes "0 < t_piece_length tor" and "t_num_pieces tor < 2 ^ 31"
  shows "dl_ok wr sha1 tor out0 s ws \<Longrightarrow> inv (d_out s) \<Longrightarrow>
    \<exists>s' ws'. peer_loop sha1 wr junk tor my_peer_id scs s = Inr s' \<and> dl_ok wr sha1 tor out0 s' (ws @ ws')
      \<and> inv (d_out s')"
proof (induction scs arbitrary: s ws)
  case Nil
  then show ?case by (intro exI [of _ s] exI [of _ "[]"]) simp
next
  case (Cons sc scs)
  obtain ok peer where p: "peer_setup tor my_peer_id ((ps_net sc)\<lparr>n_running := True\<rparr>) = (ok, peer)"
    by (cases "peer_setup tor my_peer_id ((ps_net sc)\<lparr>n_running := True\<rparr>)")
  have ok1: "dl_ok wr sha1 tor out0 (s\<lparr>d_peer := peer\<rparr>) ws" "inv (d_out (s\<lparr>d_peer := peer\<rparr>))"
    using Cons.prems by (simp_all add: dl_ok_peer)
  consider (stop) "d_left s \<le> 0 \<or> \<not> running_now s"
    | (skip) "\<not> (d_left s \<le> 0 \<or> \<not> running_now s)" "\<not> fst (tcp_connect_timeout (ps_answers sc))"
    | (bad) "\<not> (d_left s \<le> 0 \<or> \<not> running_now s)" "fst (tcp_connect_timeout (ps_answers sc))" "\<not> ok"
    | (good) "\<not> (d_left s \<le> 0 \<or> \<not> running_now s)" "fst (tcp_connect_timeout (ps_answers sc))" "ok"
    by blast
  then show ?case
  proof cases
    case stop
    with Cons.prems show ?thesis by (intro exI [of _ s] exI [of _ "[]"]) simp
  next
    case skip
    with Cons.IH [OF Cons.prems] show ?thesis by simp
  next
    case bad
    with Cons.IH [OF ok1] p show ?thesis by simp
  next
    case good
    from piece_loop_ok [OF assms ok1 order_refl] obtain s1 ws1 where
      one: "piece_loop sha1 wr junk tor (t_num_pieces tor) (s\<lparr>d_peer := peer\<rparr>) = Inr s1"
      "dl_ok wr sha1 tor out0 s1 (ws @ ws1)" "inv (d_out s1)" by blast
    from Cons.IH [OF one(2,3)] one(1) good p show ?thesis by auto
  qed
qed

lemma dl_ok_init:
  assumes "t_num_pieces tor < 2 ^ 31"
  shows "dl_ok wr sha1 tor out (download_init tor out) []"
proof -
  let ?n = "t_num_pieces tor"
  have m: "((?n + 7) mod 2 ^ 32) div 8 = (?n + 7) div 8" using assms by simp
  have "?n \<le> 8 * ((?n + 7) div 8)" by linarith
  moreover have "\<not> IS_DONE (replicate ((?n + 7) div 8) 0) i" if "i < ?n" for i
    using that calculation by (intro IS_DONE_zeros) linarith
  ultimately show ?thesis
    using assms m by (simp add: dl_ok_def download_init_def to_int32_def)
qed

lemma download_ok:
  assumes "0 < t_piece_length tor" and "t_num_pieces tor < 2 ^ 31" and "inv out0"
  shows "\<exists>ws out. download_pieces sha1 wr junk tor my_peer_id scs out0
        = Inr (int (t_num_pieces tor) - int (length ws), out)
      \<and> write_all wr out0 ws = Inr out \<and> distinct (map fst ws)
      \<and> (\<forall>w\<in>set ws. piece_good sha1 tor w)"
proof -
  have "inv (d_out (download_init tor out0))" using assms(3) by (simp add: download_init_def)
  from peer_loop_ok [OF assms(1,2) dl_ok_init [OF assms(2)] this, where scs = scs]
  obtain s ws where "peer_loop sha1 wr junk tor my_peer_id scs (download_init tor out0) = Inr s"
    "dl_ok wr sha1 tor out0 s ws" by (metis append_Nil)
  then show ?thesis by (auto simp: download_pieces_def dl_ok_def)
qed

end

definition out_inv :: "out_ctx \<Rightarrow> bool" where
  "out_inv out \<longleftrightarrow> (case out of Out_tar tw \<Rightarrow> paths_fit (t_files (tw_tor tw)) | Out_storage _ _ \<Rightarrow> True)"

lemma out_write_ok: "out_inv out \<Longrightarrow> \<exists>out'. out_write io now out i d = Inr out' \<and> out_inv out'"
proof (cases out)
  case (Out_tar tw)
  assume "out_inv out"
  with Out_tar tar_writer_write_total [of tw now i d] show ?thesis
    by (auto simp: out_inv_def out_write_def)
qed (simp add: out_inv_def out_write_def)

interpretation out_ctx: piece_sink "out_write io now" out_inv for io now
  by unfold_locales (rule out_write_ok)

subsection \<open>Properties of the download\<close>



lemma write_all_storage:
  "write_all (out_write io now) (Out_storage st fs) ws = Inr (Out_storage st (storage_writes io st ws fs))"
  by (induction ws arbitrary: fs) (auto simp: out_write_def storage_writes_def)

text \<open>The stream the accepted pieces make up.\<close>

lemma stream_of_pieces:
  assumes "geometry_ok tor" and "t_num_pieces tor < 2 ^ 32" and "\<forall>w\<in>set ws. piece_good sha1 tor w"
    and "distinct (map fst ws)" and "length ws = t_num_pieces tor"
  shows "\<exists>D. length D = t_total_length tor \<and> pieces_of D (t_piece_length tor) ws
    \<and> fst ` set ws = {..<t_num_pieces tor}
    \<and> (\<forall>i<t_num_pieces tor. sha1 (slice (i * t_piece_length tor)
          (i * t_piece_length tor + piece_len tor i) D) = expected_hash tor i)"
proof -
  let ?n = "t_num_pieces tor" and ?p = "t_piece_length tor"
  have p: "0 < ?p" using assms(1) by (simp add: geometry_ok_def)
  have good: "fst w < ?n \<and> length (snd w) = piece_len tor (fst w) \<and> sha1 (snd w) = expected_hash tor (fst w)"
    if "w \<in> set ws" for w
    using assms(3) that by (auto simp: piece_good_def piece_len_def)
  have sub: "fst ` set ws \<subseteq> {..<?n}" using good by auto
  have "card (fst ` set ws) = ?n"
    using assms(4,5) by (metis card_image distinct_card distinct_map)
  then have all: "fst ` set ws = {..<?n}"
    using sub by (metis card_lessThan card_subset_eq finite_lessThan)
  define d where "d i = the (map_of ws i)" for i
  have d: "(i, d i) \<in> set ws" if "i < ?n" for i
  proof -
    have "i \<in> fst ` set ws" using all that by simp
    then show ?thesis unfolding d_def by (metis map_of_eq_None_iff map_of_SomeD option.exhaust_sel)
  qed
  have uniq: "e = d i" if "(i, e) \<in> set ws" for i e
    using that assms(4) by (simp add: d_def)
  define D where "D = concat (map d [0..<?n])"
  have len: "length (d i) = piece_len tor i" if "i < ?n" for i
    using good [OF d [OF that]] by simp
  have full: "piece_len tor i = ?p" if "Suc i < ?n" for i
    using piece_size_cases(2) [OF p _ assms(2)] that by simp
  have sl: "slice (i * ?p) (i * ?p + piece_len tor i) D = d i" if "i < ?n" for i
  proof -
    have "slice (i * ?p) (i * ?p + length (map d [0..<?n] ! i)) D = map d [0..<?n] ! i"
      unfolding D_def using that len full by (intro slice_concat) simp_all
    then show ?thesis using that len by simp
  qed
  have lenD: "length D = t_total_length tor"
  proof (cases "?n = 0")
    case True
    with geometry_covers [OF assms(1)] show ?thesis by (simp add: D_def)
  next
    case False
    have "map length (map d [0..<?n]) = map (piece_len tor) [0..<?n]" using len by simp
    then have "length D = (\<Sum>i\<leftarrow>[0..<?n]. piece_len tor i)"
      unfolding D_def length_concat by (rule arg_cong)
    also have "\<dots> = (\<Sum>i<?n. piece_len tor i)"
      by (simp add: interv_sum_list_conv_sum_set_nat atLeast0LessThan)
    also have "\<dots> = t_total_length tor" using piece_sizes_sum_ok [OF p _ assms(2,1)] False by simp
    finally show ?thesis .
  qed
  have "pieces_of D ?p ws"
    unfolding pieces_of_def
  proof (intro ballI, clarify)
    fix i e assume ie: "(i, e) \<in> set ws"
    then have i: "i < ?n" and e: "e = d i" using good uniq by force+
    show "i * ?p + length e = min (Suc i * ?p) (length D)
        \<and> e = slice (i * ?p) (i * ?p + length e) D"
      using piece_geometry [OF assms(1) i assms(2)] sl [OF i] len [OF i] e lenD by simp
  qed
  moreover have "\<forall>i<?n. sha1 (slice (i * ?p) (i * ?p + piece_len tor i) D) = expected_hash tor i"
    using sl good d by (metis fst_conv snd_conv)
  ultimately show ?thesis using lenD all by blast
qed

text \<open>
  C2: a download into a directory that reports nothing left has put a complete stream on disk: there
  is one byte stream of the torrent's total length, every piece of it has the listed hash, and each
  file holds exactly its part of it, in whatever order the pieces came and from whichever peers.
\<close>

theorem download_to_directory:
  assumes "geometry_ok tor" and "t_num_pieces tor < 2 ^ 31"
    and "t_total_length tor = (\<Sum>f\<leftarrow>t_files tor. f_length f)"
    and "storage_ok st (map f_length (t_files tor))" and "st_piece_length st = t_piece_length tor"
    and "\<forall>fi\<in>set (st_files st). fs (fi_full_path fi) = Some []" and "io_full io"
    and "download_pieces sha1 (out_write io now) junk tor my_peer_id scs (Out_storage st fs) = Inr (0, out)"
  shows "\<exists>D fs'. out = Out_storage st fs' \<and> length D = t_total_length tor
    \<and> (\<forall>i<t_num_pieces tor. sha1 (slice (i * t_piece_length tor)
          (i * t_piece_length tor + piece_len tor i) D) = expected_hash tor i)
    \<and> (\<forall>fi\<in>set (st_files st).
          fs' (fi_full_path fi) = Some (slice (fi_offset fi) (fi_offset fi + fi_length fi) D))"
proof -
  have p: "0 < t_piece_length tor" and n: "t_num_pieces tor < 2 ^ 32"
    using assms(1,2) by (simp_all add: geometry_ok_def)
  have "out_inv (Out_storage st fs)" by (simp add: out_inv_def)
  from out_ctx.download_ok [OF p assms(2) this, of sha1 io now junk my_peer_id scs] assms(8)
  obtain ws where ws: "write_all (out_write io now) (Out_storage st fs) ws = Inr out"
    "distinct (map fst ws)" "\<forall>w\<in>set ws. piece_good sha1 tor w" "length ws = t_num_pieces tor"
    by auto
  then have out: "out = Out_storage st (storage_writes io st ws fs)"
    by (simp add: write_all_storage)
  from stream_of_pieces [OF assms(1) n ws(3,2,4)] obtain D where
    D: "length D = t_total_length tor" "pieces_of D (t_piece_length tor) ws"
      "fst ` set ws = {..<t_num_pieces tor}"
      "\<forall>i<t_num_pieces tor. sha1 (slice (i * t_piece_length tor)
          (i * t_piece_length tor + piece_len tor i) D) = expected_hash tor i" by blast
  have "t_total_length tor \<le> t_num_pieces tor * t_piece_length tor"
    using assms(1) by (rule geometry_covers)
  then have "\<forall>fi\<in>set (st_files st). storage_writes io st ws fs (fi_full_path fi)
      = Some (slice (fi_offset fi) (fi_offset fi + fi_length fi) D)"
    using D assms(3-7) p by (intro storage_all_pieces [where n = "t_num_pieces tor"]) simp_all
  with out D(1,4) show ?thesis by blast
qed

subsection \<open>A peer that serves everything\<close>

text \<open>The answers to the requests for a piece from an offset on.\<close>

function replies :: "nat \<Rightarrow> bytes \<Rightarrow> nat \<Rightarrow> bytes" where
  "replies i d offset =
     (if length d \<le> offset then []
      else let n = min BLOCK_SIZE (length d - offset)
           in frame (piece_msg i offset (take n (drop offset d))) @ replies i d (offset + n))"
  by pat_completeness auto
termination by (relation "measure (\<lambda>(i, d, offset). length d - offset)") auto

declare replies.simps [simp del]

text \<open>The socket takes at least \<open>k\<close> more messages.\<close>

definition tx_room :: "nat \<Rightarrow> net \<Rightarrow> bool" where
  "tx_room k net \<longleftrightarrow> k \<le> length (n_tx net) \<and> (\<forall>ev\<in>set (n_tx net). \<exists>n\<ge>68. ev = Tx_room n)"

lemma send_room:
  assumes "tx_room (Suc k) net" and "net_has net bs" and "buf \<noteq> []" and "length buf \<le> 68"
  shows "\<exists>net'. send_full_timeout buf net = (True, net') \<and> tx_room k net' \<and> net_has net' bs"
proof -
  obtain ev evs where tx: "n_tx net = ev # evs" "k \<le> length evs"
    using assms(1) by (cases "n_tx net") (auto simp: tx_room_def)
  obtain n where n: "ev = Tx_room n" "68 \<le> n" using assms(1) tx by (auto simp: tx_room_def)
  have run: "n_running net" using assms(2) by (simp add: net_has_def)
  have "send_loop [] True evs out = (True, True, evs, out)" for out by (cases evs) simp_all
  then have "send_loop buf True (ev # evs) (n_sent net) = (True, True, evs, n_sent net @ buf)"
    using n assms(3,4) by simp
  then have "send_full_timeout buf net = (True, net\<lparr>n_running := True, n_tx := evs, n_sent := n_sent net @ buf\<rparr>)"
    using tx run by (simp add: send_full_timeout_def)
  then show ?thesis
    using assms(1,2) tx by (auto simp: tx_room_def net_has_def)
qed

lemma check_running_has: "net_has net bs \<Longrightarrow> check_running net = (True, net)"
  by (simp add: check_running_def net_has_def clean_no_signal)

lemma length_request [simp]: "length (request_msg i off n) = 17" "request_msg i off n \<noteq> []"
  by (simp_all add: request_msg_def)

lemma recv_tx:
  "recv_message net = (r, net') \<Longrightarrow> n_tx net' = n_tx net"
  by (auto simp: recv_message_def Let_def split: prod.splits option.splits if_splits dest!: recv_full_size(5))

lemma receive_first:
  assumes "net_has net (frame (piece_msg i off d) @ rest)" and "i < 2 ^ 32" and "off < 2 ^ 32"
    and "length d < 2 ^ 31"
  shows "\<exists>net'. peer_receive_block i off (length d) net = (Some d, net') \<and> net_has net' rest
    \<and> n_tx net' = n_tx net"
proof -
  let ?m = "piece_msg i off d"
  have "length ?m < 2 ^ 32" using assms(4) by (simp add: piece_msg_def)
  then obtain net' where
    r: "peer_read_message net = (Some (if ?m = [] then (0xFF, []) else (hd ?m, tl ?m)), net')"
      "net_has net' rest" "n_tx net' = n_tx net" using peer_read_frame [OF assms(1)] by blast
  have "unat (word_of_nat i :: u32) = i" "unat (word_of_nat off :: u32) = off"
    using assms(2,3) by (simp_all add: unat_of_nat take_bit_nat_eq_self)
  then have "peer_receive_block i off (length d) net = (Some d, net')"
    using r(1) by (subst peer_receive_block.simps) (simp add: piece_msg_def)
  with r(2,3) show ?thesis by blast
qed

text \<open>The number of requests for a piece.\<close>

definition requests :: "nat \<Rightarrow> nat" where
  "requests n = (n + BLOCK_SIZE - 1) div BLOCK_SIZE"

lemma requests_step: "0 < n \<Longrightarrow> requests n = Suc (requests (n - min BLOCK_SIZE n))"
proof (cases "n \<le> BLOCK_SIZE")
  case True
  assume "0 < n"
  with True show ?thesis by (auto simp: requests_def intro!: div_nat_eqI)
next
  case False
  then have "n + BLOCK_SIZE - 1 = BLOCK_SIZE + (n - BLOCK_SIZE + BLOCK_SIZE - 1)" by simp
  then show ?thesis using False by (simp add: requests_def)
qed

lemma blocks_live:
  assumes "net_has net (replies i d offset @ rest)" and "tx_room (requests (length d - offset) + k) net"
    and "length buf = length d" and "take offset buf = take offset d" and "offset \<le> length d"
    and "i < 2 ^ 32" and "length d < 2 ^ 32"
  shows "\<exists>net'. download_blocks i (length d) offset buf net = (True, d, net') \<and> net_has net' rest \<and> tx_room k net'"
  using assms
proof (induction i d offset arbitrary: net buf rule: replies.induct)
  case (1 i d offset)
  note prems = 1(2-8)
  show ?case
  proof (cases "length d \<le> offset")
    case True
    then have "offset = length d" using prems(5) by simp
    moreover have "replies i d offset = []" using True by (subst replies.simps) simp
    moreover have "requests 0 = 0" by (simp add: requests_def)
    ultimately show ?thesis
      using prems by (subst download_blocks.simps) simp
  next
    case False
    let ?n = "min BLOCK_SIZE (length d - offset)"
    let ?b = "take ?n (drop offset d)"
    have n: "0 < ?n" "offset + ?n \<le> length d" "length ?b = ?n" using False by auto
    have rep: "replies i d offset = frame (piece_msg i offset ?b) @ replies i d (offset + ?n)"
      using False by (subst replies.simps) (simp add: Let_def)
    have req: "requests (length d - offset) + k = Suc (requests (length d - (offset + ?n)) + k)"
      using requests_step [of "length d - offset"] False by simp
    obtain net1 where s: "peer_send_request i offset ?n net = (True, net1)"
      "tx_room (requests (length d - (offset + ?n)) + k) net1"
      "net_has net1 (frame (piece_msg i offset ?b) @ replies i d (offset + ?n) @ rest)"
      using send_room [of "requests (length d - (offset + ?n)) + k" net _ "request_msg i offset ?n"]
        prems(1,2) unfolding req rep peer_send_request_def by auto
    obtain net2 where r: "peer_receive_block i offset ?n net1 = (Some ?b, net2)"
      "net_has net2 (replies i d (offset + ?n) @ rest)" "n_tx net2 = n_tx net1"
    proof -
      have "length ?b < 2 ^ 31" unfolding n(3) by (rule le_less_trans [OF min.cobounded1]) simp
      moreover have "offset < 2 ^ 32" using False prems(7) by linarith
      ultimately show ?thesis
        using receive_first [OF s(3) prems(6)] that unfolding n(3) by blast
    qed
    have tx2: "tx_room (requests (length d - (offset + ?n)) + k) net2"
      using s(2) r(3) by (simp add: tx_room_def)
    have buf: "length (memcpy_at offset ?b buf) = length d"
      "take (offset + ?n) (memcpy_at offset ?b buf) = take (offset + ?n) d"
    proof -
      show "length (memcpy_at offset ?b buf) = length d"
        using n prems(3) by (subst length_memcpy_at) auto
      have "length (take offset buf) = offset" using prems(3,5) by simp
      then show "take (offset + ?n) (memcpy_at offset ?b buf) = take (offset + ?n) d"
        using n(3) prems(4) by (simp add: memcpy_at_def take_add)
    qed
    have "(if length d - offset > BLOCK_SIZE then BLOCK_SIZE else length d - offset) = ?n" by auto
    then have "download_blocks i (length d) offset buf net
        = download_blocks i (length d) (offset + ?n) (memcpy_at offset ?b buf) net2"
      using False s(1) r(1) check_running_has [OF prems(1)]
      by (subst download_blocks.simps) (simp add: Let_def)
    with 1(1) [OF False refl r(2) tx2 buf n(2) prems(6,7)] show ?thesis by simp
  qed
qed

text \<open>The handshake and the unchoke of such a peer.\<close>

lemma setup_live:
  assumes "length (t_info_hash tor) = 20" and "20 \<le> length me" and "length them = 20"
    and "net_has net (handshake_out (t_info_hash tor) them @ frame [1] @ rest)" and "tx_room (Suc (Suc k)) net"
  shows "\<exists>peer. peer_setup tor me net = (True, peer) \<and> p_bitfield peer = None
    \<and> net_has (p_net peer) rest \<and> tx_room k (p_net peer)"
proof -
  let ?ih = "t_info_hash tor" and ?me = "take 20 me"
  have out: "handshake_out ?ih me = handshake_out ?ih ?me" by (simp add: handshake_out_def)
  have len: "length (handshake_out ?ih me) = 68" unfolding out using assms(1,2) by (intro length_handshake) simp_all
  then have ne: "handshake_out ?ih me \<noteq> []" by (metis list.size(3) zero_neq_numeral)
  obtain net1 where s: "send_full_timeout (handshake_out ?ih me) net = (True, net1)"
    "tx_room (Suc k) net1"
    using send_room [OF assms(5,4) ne] len by auto
  obtain net2 where h: "peer_handshake ?ih ?me net = (Some them, net2)" "net_has net2 (frame [1] @ rest)"
    using handshake_result [of ?ih ?me ?ih them net "frame [1] @ rest" net1] s(1) assms(1-4) out by auto
  have tx2: "n_tx net2 = n_tx net1"
    using h(1) s(1) recv_full_size(5) [of 68 net1] out
    by (auto simp: peer_handshake_def split: prod.splits option.splits if_splits)
  have h': "peer_handshake ?ih me net = (Some them, net2)"
    using h(1) by (simp add: peer_handshake_def out)
  obtain net3 where i: "peer_send_interested net2 = (True, net3)" "tx_room k net3"
    "net_has net3 (frame [1] @ rest)"
    using send_room [of k net2 "frame [1] @ rest" "[0, 0, 0, 1, 2]"] s(2) tx2 h(2)
    by (auto simp: peer_send_interested_def tx_room_def)
  let ?idle = "\<lparr>p_net = net3, p_choked = True, p_bitfield = None\<rparr>"
  obtain net4 where r: "peer_read_message net3 = (Some (1, []), net4)" "net_has net4 rest" "n_tx net4 = n_tx net3"
    using peer_read_frame [OF i(3)] by auto
  have "peer_wait_for_unchoke ?idle = (True, ?idle\<lparr>p_net := net4, p_choked := False\<rparr>)"
    using r(1) check_running_has [OF i(3)]
    by (subst peer_wait_for_unchoke.simps) (simp add: handle_message_def)
  then have "peer_setup tor me net = (True, ?idle\<lparr>p_net := net4, p_choked := False\<rparr>)"
    using h' i(1) by (simp add: peer_setup_def)
  with r(2,3) i(2) show ?thesis by (auto simp: tx_room_def)
qed

context piece_sink
begin

lemma piece_loop_live:
  assumes "\<forall>j<t_num_pieces tor. piece_size tor j = Inr (length (ds ! j)) \<and> length (ds ! j) < 2 ^ 32
      \<and> sha1 (ds ! j) = expected_hash tor j"
    and "t_num_pieces tor < 2 ^ 31"
  shows "k \<le> t_num_pieces tor \<Longrightarrow> i = t_num_pieces tor - k \<Longrightarrow> d_left s = int k \<Longrightarrow> inv (d_out s) \<Longrightarrow>
    \<forall>j. i \<le> j \<and> j < t_num_pieces tor \<longrightarrow> \<not> IS_DONE (d_done s) j \<Longrightarrow>
    t_num_pieces tor \<le> 8 * length (d_done s) \<Longrightarrow> p_bitfield (d_peer s) = None \<Longrightarrow>
    net_has (p_net (d_peer s)) (concat (map (\<lambda>j. replies j (ds ! j) 0) [i..<t_num_pieces tor]) @ rest) \<Longrightarrow>
    tx_room (\<Sum>j\<leftarrow>[i..<t_num_pieces tor]. requests (length (ds ! j))) (p_net (d_peer s)) \<Longrightarrow>
    \<exists>s'. piece_loop sha1 wr junk tor k s = Inr s' \<and> d_left s' = 0
      \<and> write_all wr (d_out s) (map (\<lambda>j. (j, ds ! j)) [i..<t_num_pieces tor]) = Inr (d_out s')"
proof (induction k arbitrary: i s)
  case 0
  then show ?case by simp
next
  case (Suc k)
  note prems = Suc.prems
  have i: "i < t_num_pieces tor" "Suc i = t_num_pieces tor - k" using prems(1,2) by simp_all
  have up: "[i..<t_num_pieces tor] = i # [Suc i..<t_num_pieces tor]" using i by (simp add: upt_conv_Cons)
  have c: "check_running (p_net (d_peer s)) = (True, p_net (d_peer s))"
    using prems(8) by (rule check_running_has)
  have same: "s\<lparr>d_peer := (d_peer s)\<lparr>p_net := p_net (d_peer s)\<rparr>\<rparr> = s" by simp
  let ?d = "ds ! i"
  have d: "piece_size tor i = Inr (length ?d)" "length ?d < 2 ^ 32" "sha1 ?d = expected_hash tor i"
    using assms(1) i(1) by auto
  let ?rest = "concat (map (\<lambda>j. replies j (ds ! j) 0) [Suc i..<t_num_pieces tor]) @ rest"
  have rx: "net_has (p_net (d_peer s)) (replies i ?d 0 @ ?rest)" using prems(8) up by simp
  have tx: "tx_room (requests (length ?d - 0)
      + (\<Sum>j\<leftarrow>[Suc i..<t_num_pieces tor]. requests (length (ds ! j)))) (p_net (d_peer s))"
    using prems(9) up by simp
  have i32: "i < 2 ^ 32" using i(1) assms(2) by simp
  obtain net where b: "download_blocks i (length ?d) 0 (map (junk i) [0..<length ?d]) (p_net (d_peer s))
      = (True, ?d, net)" "net_has net ?rest"
      "tx_room (\<Sum>j\<leftarrow>[Suc i..<t_num_pieces tor]. requests (length (ds ! j))) net"
    using blocks_live [OF rx tx, of "map (junk i) [0..<length ?d]"] d(2) i32 by auto
  have v: "verify_piece sha1 tor i ?d = Inr True" using d i(1) by (simp add: verify_piece_def)
  obtain out where w: "wr (d_out s) i ?d = Inr out" "inv out" using write_ok [OF prems(4)] by blast
  let ?s1 = "s\<lparr>d_peer := (d_peer s)\<lparr>p_net := net\<rparr>, d_out := out, d_done := MARK_DONE (d_done s) i,
               d_left := d_left s - 1\<rparr>"
  have t: "try_piece sha1 wr junk tor i s = Inr ?s1"
    using prems(5,7) i(1) d(1) b(1) v w by (simp add: try_piece_def peer_has_piece_def Let_def)
  have nd: "\<not> IS_DONE (MARK_DONE (d_done s) i) j" if "Suc i \<le> j" "j < t_num_pieces tor" for j
    using done_set.member_add [of i "d_done s" j] prems(5,6) i(1) that by simp
  have "\<exists>s'. piece_loop sha1 wr junk tor k ?s1 = Inr s' \<and> d_left s' = 0
      \<and> write_all wr (d_out ?s1) (map (\<lambda>j. (j, ds ! j)) [Suc i..<t_num_pieces tor]) = Inr (d_out s')"
    using prems(1,3,6,7) i(2) w(2) nd b(2,3) by (intro Suc.IH) auto
  then obtain s' where s': "piece_loop sha1 wr junk tor k ?s1 = Inr s'" "d_left s' = 0"
    "write_all wr out (map (\<lambda>j. (j, ds ! j)) [Suc i..<t_num_pieces tor]) = Inr (d_out s')" by auto
  have "t_num_pieces tor - Suc k = i" using prems(2) by simp
  then have "piece_loop sha1 wr junk tor (Suc k) s = Inr s'"
    using prems(3) c same t s'(1) by (simp add: Let_def)
  moreover have "write_all wr (d_out s) (map (\<lambda>j. (j, ds ! j)) [i..<t_num_pieces tor]) = Inr (d_out s')"
    using w(1) s'(3) up by simp
  ultimately show ?case using s'(2) by blast
qed

lemma download_live:
  assumes "\<forall>j<t_num_pieces tor. piece_size tor j = Inr (length (ds ! j)) \<and> length (ds ! j) < 2 ^ 32
      \<and> sha1 (ds ! j) = expected_hash tor j"
    and "t_num_pieces tor < 2 ^ 31" and "inv out0" and "length (t_info_hash tor) = 20" and "20 \<le> length me"
    and "length them = 20" and "fst (tcp_connect_timeout (ps_answers sc))"
    and "net_has (ps_net sc) (handshake_out (t_info_hash tor) them @ frame [1]
          @ concat (map (\<lambda>j. replies j (ds ! j) 0) [0..<t_num_pieces tor]) @ rest)"
    and "tx_room (2 + (\<Sum>j\<leftarrow>[0..<t_num_pieces tor]. requests (length (ds ! j)))) (ps_net sc)"
  shows "\<exists>out. download_pieces sha1 wr junk tor me (sc # scs) out0 = Inr (0, out)
    \<and> write_all wr out0 (map (\<lambda>j. (j, ds ! j)) [0..<t_num_pieces tor]) = Inr out"
proof (cases "t_num_pieces tor = 0")
  case True
  then show ?thesis by (simp add: download_pieces_def download_init_def to_int32_def)
next
  case False
  let ?s = "download_init tor out0"
  have init: "dl_ok wr sha1 tor out0 ?s []" using assms(2) by (rule dl_ok_init)
  have left: "d_left ?s = int (t_num_pieces tor)" using init by (simp add: dl_ok_def)
  have net: "(ps_net sc)\<lparr>n_running := True\<rparr> = ps_net sc"
    using assms(8) by (cases "ps_net sc") (simp add: net_has_def)
  have tx: "tx_room (Suc (Suc (\<Sum>j\<leftarrow>[0..<t_num_pieces tor]. requests (length (ds ! j))))) (ps_net sc)"
    using assms(9) by (simp only: add_2_eq_Suc)
  obtain peer where p: "peer_setup tor me (ps_net sc) = (True, peer)" "p_bitfield peer = None"
    "net_has (p_net peer) (concat (map (\<lambda>j. replies j (ds ! j) 0) [0..<t_num_pieces tor]) @ rest)"
    "tx_room (\<Sum>j\<leftarrow>[0..<t_num_pieces tor]. requests (length (ds ! j))) (p_net peer)"
    using setup_live [OF assms(4-6,8) tx] by blast
  have "\<exists>s'. piece_loop sha1 wr junk tor (t_num_pieces tor) (?s\<lparr>d_peer := peer\<rparr>) = Inr s' \<and> d_left s' = 0
      \<and> write_all wr (d_out (?s\<lparr>d_peer := peer\<rparr>)) (map (\<lambda>j. (j, ds ! j)) [0..<t_num_pieces tor]) = Inr (d_out s')"
    using init left p assms(3)
    by (intro piece_loop_live [OF assms(1,2), where rest = rest]) (auto simp: dl_ok_def download_init_def)
  then obtain s' where s': "piece_loop sha1 wr junk tor (t_num_pieces tor) (?s\<lparr>d_peer := peer\<rparr>) = Inr s'"
    "d_left s' = 0"
    "write_all wr out0 (map (\<lambda>j. (j, ds ! j)) [0..<t_num_pieces tor]) = Inr (d_out s')"
    by (auto simp: download_init_def)
  have "peer_loop sha1 wr junk tor me scs s' = Inr s'" using s'(2) by (cases scs) simp_all
  moreover have "running_now ?s" by (simp add: running_now_def download_init_def)
  ultimately show ?thesis
    using s' False left p(1) net assms(7) by (simp add: download_pieces_def)
qed

end


lemma write_all_tar:
  "write_all (out_write io now) (Out_tar tw) (map (\<lambda>j. (j, ds ! (j - i))) [i..<i + length ds])
     = (case tar_writes now tw i ds of Inl u \<Rightarrow> Inl u | Inr tw' \<Rightarrow> Inr (Out_tar tw'))"
proof (induction ds arbitrary: tw i)
  case Nil
  then show ?case by simp
next
  case (Cons d ds)
  let ?ws = "map (\<lambda>j. (j, ds ! (j - Suc i))) [Suc i..<Suc i + length ds]"
  have up: "[i..<i + length (d # ds)] = i # [Suc i..<Suc i + length ds]"
    by (subst upt_rec) simp
  have "map (\<lambda>j. (j, (d # ds) ! (j - i))) [Suc i..<Suc i + length ds] = ?ws"
    by (rule map_cong) (auto simp: nth_Cons')
  then have split: "map (\<lambda>j. (j, (d # ds) ! (j - i))) [i..<i + length (d # ds)] = (i, d) # ?ws"
    unfolding up by (simp del: upt_Suc)
  show ?case
    using Cons.IH [of _ "Suc i"] unfolding split
    by (simp add: out_write_def [of _ _ "Out_tar tw"] del: upt_Suc split: sum.splits)
qed

text \<open>The stream cut into its pieces.\<close>

definition cut_pieces :: "torrent_t \<Rightarrow> bytes \<Rightarrow> bytes list" where
  "cut_pieces tor D =
     map (\<lambda>j. slice (j * t_piece_length tor) (j * t_piece_length tor + piece_len tor j) D)
       [0..<t_num_pieces tor]"

lemma cut_pieces_ok:
  assumes "geometry_ok tor" and "t_num_pieces tor < 2 ^ 32" and "length D = t_total_length tor"
  shows "length (cut_pieces tor D) = t_num_pieces tor"
    and "j < t_num_pieces tor \<Longrightarrow> length (cut_pieces tor D ! j) = piece_len tor j"
    and "\<forall>d\<in>set (butlast (cut_pieces tor D)). length d = t_piece_length tor"
    and "concat (cut_pieces tor D) = D"
proof -
  let ?n = "t_num_pieces tor" and ?p = "t_piece_length tor"
  have p: "0 < ?p" using assms(1) by (simp add: geometry_ok_def)
  show l: "length (cut_pieces tor D) = ?n" by (simp add: cut_pieces_def)
  have g: "j * ?p + piece_len tor j = min (Suc j * ?p) (length D)" if "j < ?n" for j
    using piece_geometry [OF assms(1) that assms(2)] assms(3) by simp
  show e: "length (cut_pieces tor D ! j) = piece_len tor j" if "j < ?n" for j
    using g [OF that] that by (simp add: cut_pieces_def)
  show "\<forall>d\<in>set (butlast (cut_pieces tor D)). length d = ?p"
  proof
    fix d assume "d \<in> set (butlast (cut_pieces tor D))"
    then obtain j where j: "j < length (butlast (cut_pieces tor D))" "d = butlast (cut_pieces tor D) ! j"
      by (metis in_set_conv_nth)
    then have j': "Suc j < ?n" "d = cut_pieces tor D ! j" using l by (simp_all add: nth_butlast)
    then show "length d = ?p" using e [of j] piece_size_cases(2) [OF p _ assms(2)] by simp
  qed
  have "concat (map (\<lambda>j. slice (j * ?p) (j * ?p + piece_len tor j) D) [0..<k]) = slice 0 (min (k * ?p) (length D)) D"
    if "k \<le> ?n" for k
    using that
  proof (induction k)
    case 0
    then show ?case by simp
  next
    case (Suc k)
    have "k * ?p \<le> length D" using g [of k] Suc.prems by simp
    then have "min (k * ?p) (length D) = k * ?p" by simp
    then show ?case
      using Suc.IH Suc.prems g [of k] slice_append [of 0 "k * ?p" "min (Suc k * ?p) (length D)" D]
        \<open>k * ?p \<le> length D\<close> by simp
  qed
  moreover have "min (?n * ?p) (length D) = length D"
    using geometry_covers [OF assms(1)] assms(3) by simp
  ultimately show "concat (cut_pieces tor D) = D" by (simp add: cut_pieces_def slice_all)
qed

text \<open>A peer that connects, shakes hands, unchokes and answers every request for the stream \<open>D\<close>.\<close>

definition serves :: "torrent_t \<Rightarrow> bytes \<Rightarrow> bytes \<Rightarrow> peer_script \<Rightarrow> bool" where
  "serves tor them D sc \<longleftrightarrow>
     length them = 20 \<and> fst (tcp_connect_timeout (ps_answers sc))
     \<and> net_has (ps_net sc) (handshake_out (t_info_hash tor) them @ frame [1]
          @ concat (map (\<lambda>j. replies j (cut_pieces tor D ! j) 0) [0..<t_num_pieces tor]))
     \<and> tx_room (2 + (\<Sum>j\<leftarrow>[0..<t_num_pieces tor]. requests (piece_len tor j))) (ps_net sc)"

lemma serving_peer:
  assumes "geometry_ok tor" and "t_num_pieces tor < 2 ^ 31" and "length D = t_total_length tor"
    and "\<forall>j<t_num_pieces tor. piece_len tor j < 2 ^ 32 \<and> sha1 (cut_pieces tor D ! j) = expected_hash tor j"
    and "length (t_info_hash tor) = 20" and "20 \<le> length me" and "serves tor them D sc" and "out_inv out0"
  shows "\<exists>out. download_pieces sha1 (out_write io now) junk tor me (sc # scs) out0 = Inr (0, out)
    \<and> write_all (out_write io now) out0
        (map (\<lambda>j. (j, cut_pieces tor D ! j)) [0..<t_num_pieces tor]) = Inr out"
proof -
  have p: "0 < t_piece_length tor" and n: "t_num_pieces tor < 2 ^ 32"
    using assms(1,2) by (simp_all add: geometry_ok_def)
  note cut = cut_pieces_ok [OF assms(1) n assms(3)]
  have sz: "\<forall>j<t_num_pieces tor. piece_size tor j = Inr (length (cut_pieces tor D ! j))
      \<and> length (cut_pieces tor D ! j) < 2 ^ 32 \<and> sha1 (cut_pieces tor D ! j) = expected_hash tor j"
    using piece_size_cases(1) [OF p _ n] cut(2) assms(4) by simp
  have sum: "(\<Sum>j\<leftarrow>[0..<t_num_pieces tor]. requests (length (cut_pieces tor D ! j)))
      = (\<Sum>j\<leftarrow>[0..<t_num_pieces tor]. requests (piece_len tor j))"
    using cut(2) by (intro arg_cong [of _ _ sum_list] map_cong) simp_all
  show ?thesis
    using assms(7) unfolding serves_def
    by (intro out_ctx.download_live [OF sz assms(2,8,5,6), where them = them and rest = "[]"])
      (auto simp: sum)
qed


text \<open>Whatever is missing, a program that has come as far as the download exits with 0.\<close>

lemma main_exit_ignores_left:
  "main_prog sha1 e w = Inr oc \<Longrightarrow> oc_left oc = Some n \<Longrightarrow> oc_exit oc = 0"
  by (auto simp: main_prog_def out_close_def Let_def
      split: option.splits sum.splits prod.splits if_splits out_ctx.splits)

text \<open>A torrent of two pieces and a peer that serves it, for the witnesses.\<close>

definition sample_tor :: torrent_t where
  "sample_tor = torrent_zero\<lparr>t_files := [\<lparr>f_path = Some [[97]], f_length = 3\<rparr>], t_total_length := 3,
     t_piece_length := 2, t_pieces := Some (replicate 40 0), t_num_pieces := 2,
     t_info_hash := replicate 20 0\<rparr>"

definition sample_peer :: peer_script where
  "sample_peer =
     \<lparr>ps_answers = \<lparr>a_socket = True, a_getfl = True, a_setfl = True, a_connect = Conn_now,
        a_poll = Poll_ready, a_getsockopt = True, a_so_error = False\<rparr>,
      ps_net = \<lparr>n_running = True,
        n_rx = [Rx_data (handshake_out (t_info_hash sample_tor) (replicate 20 5) @ frame [1]
          @ concat (map (\<lambda>j. replies j (cut_pieces sample_tor [1, 2, 3] ! j) 0) [0..<t_num_pieces sample_tor]))],
        n_tx = replicate 4 (Tx_room 100), n_sent = []\<rparr>\<rparr>"

lemma sample_simps:
  "t_files sample_tor = [\<lparr>f_path = Some [[97]], f_length = 3\<rparr>]" "t_total_length sample_tor = 3"
  "t_piece_length sample_tor = 2" "t_num_pieces sample_tor = 2" "t_info_hash sample_tor = replicate 20 0"
  "geometry_ok sample_tor" "j < 2 \<Longrightarrow> expected_hash sample_tor j = replicate 20 0"
  "piece_len sample_tor 0 = 2" "piece_len sample_tor (Suc 0) = 1"
  "[0..<2] = [0, Suc 0]"
proof -
  show "j < 2 \<Longrightarrow> expected_hash sample_tor j = replicate 20 0"
    by (auto simp: less_2_cases_iff sample_tor_def expected_hash_def torrent_zero_def)
qed (simp_all add: sample_tor_def geometry_ok_def piece_len_def piece_size_def torrent_zero_def
    upt_rec)

lemma sample_serves: "serves sample_tor (replicate 20 5) [1, 2, 3] sample_peer"
  by (simp add: serves_def sample_peer_def sample_simps net_has_def tcp_connect_timeout_def tx_room_def
      requests_def rx_clean_def rx_bytes_def frame_def)


theorem download_to_directory_witness:
  "\<exists>D fs' out. download_pieces (\<lambda>_. replicate 20 0) (out_write (\<lambda>_ _ n. Some n) 7) (\<lambda>_ _. 9) sample_tor
        (replicate 20 1) [sample_peer]
        (Out_storage \<lparr>st_files = [\<lparr>fi_full_path = [97], fi_offset = 0, fi_length = 3, fi_open = True\<rparr>],
           st_total_length = 3, st_piece_length = 2, st_extract_dir = None\<rparr> [[97] \<mapsto> []]) = Inr (0, out)
    \<and> out = Out_storage \<lparr>st_files = [\<lparr>fi_full_path = [97], fi_offset = 0, fi_length = 3, fi_open = True\<rparr>],
           st_total_length = 3, st_piece_length = 2, st_extract_dir = None\<rparr> fs'
    \<and> length D = 3 \<and> fs' [97] = Some (slice 0 3 (D :: bytes))"
proof -
  let ?st = "\<lparr>st_files = [\<lparr>fi_full_path = [97], fi_offset = 0, fi_length = 3, fi_open = True\<rparr>],
           st_total_length = 3, st_piece_length = 2, st_extract_dir = None\<rparr>"
  let ?sha1 = "\<lambda>_ :: bytes. replicate 20 0 :: bytes" and ?io = "\<lambda>_ _ n. Some n"
  have "\<exists>out. download_pieces ?sha1 (out_write ?io 7) (\<lambda>_ _. 9) sample_tor (replicate 20 1)
      [sample_peer] (Out_storage ?st [[97] \<mapsto> []]) = Inr (0, out)"
    using serving_peer [OF sample_simps(6) _ _ _ _ _ sample_serves, of ?sha1 "replicate 20 1"
        "Out_storage ?st [[97] \<mapsto> []]" ?io 7 "\<lambda>_ _. 9" "[]"]
    by (auto simp: sample_simps less_2_cases_iff out_inv_def)
  then obtain out where d: "download_pieces ?sha1 (out_write ?io 7) (\<lambda>_ _. 9) sample_tor (replicate 20 1)
      [sample_peer] (Out_storage ?st [[97] \<mapsto> []]) = Inr (0, out)" by blast
  have "\<exists>D fs'. out = Out_storage ?st fs' \<and> length D = t_total_length sample_tor
    \<and> (\<forall>i<t_num_pieces sample_tor. ?sha1 (slice (i * t_piece_length sample_tor)
          (i * t_piece_length sample_tor + piece_len sample_tor i) D) = expected_hash sample_tor i)
    \<and> (\<forall>fi\<in>set (st_files ?st).
          fs' (fi_full_path fi) = Some (slice (fi_offset fi) (fi_offset fi + fi_length fi) D))"
    by (rule download_to_directory [OF sample_simps(6) _ _ _ _ _ _ d])
      (simp_all add: sample_simps storage_ok_def stream_start_def io_full_def)
  with d show ?thesis by (auto simp: sample_simps)
qed

end
