(* ===== verification/RingBuffer.thy ===== *)
theory RingBuffer
  imports CPrelude
begin

text \<open>
  HW_14-ringbuffer/ring_buffer_char.c: the buffer of the character device. The mutex makes each
  operation atomic; sizes are at most \<open>MAX_BUFFER_SIZE\<close>, so the \<open>size_t\<close> arithmetic stays in range
  and is written on naturals. The counters of the statistics wrap around at 64 bits. A null
  \<open>buffer\<close> pointer is the empty list.
\<close>

subsection \<open>A bounded queue of bytes\<close>

text \<open>
  The contract of the buffer: a \<open>put\<close> appends what fits, a \<open>get\<close> takes from the front, both keep the
  capacity.
\<close>

locale bounded_fifo =
  fixes put :: "'s \<Rightarrow> 'a list \<Rightarrow> 's"
    and get :: "'s \<Rightarrow> nat \<Rightarrow> 'a list \<times> 's"
    and contents :: "'s \<Rightarrow> 'a list"
    and capacity :: "'s \<Rightarrow> nat"
    and inv :: "'s \<Rightarrow> bool"
  assumes put_contents: "inv s \<Longrightarrow>
      contents (put s d) = contents s @ take (capacity s - length (contents s)) d"
    and put_inv: "inv s \<Longrightarrow> inv (put s d) \<and> capacity (put s d) = capacity s"
    and get_contents: "inv s \<Longrightarrow> get s n = (d, s') \<Longrightarrow>
      d = take n (contents s) \<and> contents s' = drop n (contents s)"
    and get_inv: "inv s \<Longrightarrow> get s n = (d, s') \<Longrightarrow> inv s' \<and> capacity s' = capacity s"
    and bounded: "inv s \<Longrightarrow> length (contents s) \<le> capacity s"

datatype 'a fifo_op = Put "'a list" | Get nat

text \<open>A run of operations: the final state, the bytes taken in and the bytes given out.\<close>

fun fifo_run :: "('s \<Rightarrow> 'a list \<Rightarrow> 's) \<Rightarrow> ('s \<Rightarrow> nat \<Rightarrow> 'a list \<times> 's) \<Rightarrow> ('s \<Rightarrow> nat)
    \<Rightarrow> 'a fifo_op list \<Rightarrow> 's \<Rightarrow> 's \<times> 'a list \<times> 'a list" where
  "fifo_run put get room [] s = (s, [], [])"
| "fifo_run put get room (Put d # ops) s =
     (case fifo_run put get room ops (put s d) of
        (s', inp, out) \<Rightarrow> (s', take (room s) d @ inp, out))"
| "fifo_run put get room (Get n # ops) s =
     (case get s n of (d, s1) \<Rightarrow>
        (case fifo_run put get room ops s1 of (s', inp, out) \<Rightarrow> (s', inp, d @ out)))"

context bounded_fifo
begin

lemma run_fifo:
  assumes "inv s" and "fifo_run put get (\<lambda>s. capacity s - length (contents s)) ops s = (s', inp, out)"
  shows "contents s @ inp = out @ contents s'" and "inv s'" and "capacity s' = capacity s"
proof -
  have "contents s @ inp = out @ contents s' \<and> inv s' \<and> capacity s' = capacity s"
    using assms
  proof (induction ops arbitrary: s s' inp out)
    case Nil
    then show ?case by simp
  next
    case (Cons op ops)
    show ?case
    proof (cases op)
      case (Put d)
      obtain i o' where r: "fifo_run put get (\<lambda>s. capacity s - length (contents s)) ops (put s d) = (s', i, o')"
        "inp = take (capacity s - length (contents s)) d @ i" "out = o'"
        using Cons.prems(2) Put by (auto split: prod.splits)
      from Cons.IH [OF _ r(1)] put_inv [OF Cons.prems(1)] put_contents [OF Cons.prems(1), of d] r(2,3)
      show ?thesis by simp
    next
      case (Get n)
      obtain d s1 where g: "get s n = (d, s1)" by (cases "get s n")
      obtain o' where r: "fifo_run put get (\<lambda>s. capacity s - length (contents s)) ops s1 = (s', inp, o')"
        "out = d @ o'"
        using Cons.prems(2) Get g by (auto split: prod.splits)
      from get_contents [OF Cons.prems(1) g] get_inv [OF Cons.prems(1) g] Cons.IH [OF _ r(1)] r(2)
      show ?thesis by (metis append.assoc append_take_drop_id)
    qed
  qed
  then show "contents s @ inp = out @ contents s'" "inv s'" "capacity s' = capacity s" by simp_all
qed

text \<open>The order of the bytes is kept and none is lost or made up.\<close>

lemma run_prefix:
  assumes "inv s" and "contents s = []"
    and "fifo_run put get (\<lambda>s. capacity s - length (contents s)) ops s = (s', inp, out)"
  shows "out = take (length out) inp"
  using run_fifo(1) [OF assms(1,3)] assms(2) by simp

end

subsection \<open>The buffer\<close>

abbreviation DEFAULT_BUFFER_SIZE :: nat where "DEFAULT_BUFFER_SIZE \<equiv> 4096"
abbreviation MAX_BUFFER_SIZE :: nat where "MAX_BUFFER_SIZE \<equiv> 65536"
abbreviation MIN_BUFFER_SIZE :: nat where "MIN_BUFFER_SIZE \<equiv> 256"

abbreviation EAGAIN :: int where "EAGAIN \<equiv> 11"
abbreviation ENOMEM :: int where "ENOMEM \<equiv> 12"
abbreviation EFAULT :: int where "EFAULT \<equiv> 14"
abbreviation EINVAL :: int where "EINVAL \<equiv> 22"
abbreviation ENOTTY :: int where "ENOTTY \<equiv> 25"
abbreviation ENOSPC :: int where "ENOSPC \<equiv> 28"
abbreviation ESPIPE :: int where "ESPIPE \<equiv> 29"
abbreviation ERESTARTSYS :: int where "ERESTARTSYS \<equiv> 512"

record ring_buffer =
  rb_buffer :: bytes
  rb_size :: nat
  rb_head :: nat
  rb_tail :: nat
  rb_count :: nat
  rb_writes :: u64
  rb_reads :: u64
  rb_overruns :: u64
  rb_blocking :: bool

text \<open>\<open>mem\<close> is what \<open>kmalloc\<close> returns: \<open>None\<close>, or a block with whatever bytes it held.\<close>

definition ring_buffer_init :: "bytes option \<Rightarrow> nat \<Rightarrow> int \<times> ring_buffer option" where
  "ring_buffer_init mem sz =
     (if sz < MIN_BUFFER_SIZE \<or> MAX_BUFFER_SIZE < sz then (- EINVAL, None)
      else case mem of
             None \<Rightarrow> (- ENOMEM, None)
           | Some junk \<Rightarrow>
               (0, Some \<lparr>rb_buffer = junk, rb_size = sz, rb_head = 0, rb_tail = 0, rb_count = 0,
                         rb_writes = 0, rb_reads = 0, rb_overruns = 0, rb_blocking = True\<rparr>))"

definition ring_buffer_free :: "ring_buffer \<Rightarrow> ring_buffer" where
  "ring_buffer_free rb = rb\<lparr>rb_buffer := []\<rparr>"

definition ring_buffer_write :: "ring_buffer \<Rightarrow> bytes \<Rightarrow> int \<times> ring_buffer" where
  "ring_buffer_write rb data =
     (let free_space = rb_size rb - rb_count rb
      in if free_space = 0 then (- ENOSPC, rb\<lparr>rb_overruns := rb_overruns rb + 1\<rparr>)
         else
           (let len = min (length data) free_space;
                first_chunk = min len (rb_size rb - rb_head rb);
                rb1 = rb\<lparr>rb_buffer := memcpy_at (rb_head rb) (take first_chunk data) (rb_buffer rb)\<rparr>;
                rb2 = (if len > first_chunk then
                         (let second_chunk = len - first_chunk
                          in rb1\<lparr>rb_buffer :=
                                   memcpy_at 0 (take second_chunk (drop first_chunk data)) (rb_buffer rb1),
                                 rb_head := second_chunk\<rparr>)
                       else rb1\<lparr>rb_head := (rb_head rb + len) mod rb_size rb\<rparr>)
            in (int len, rb2\<lparr>rb_count := rb_count rb + len, rb_writes := rb_writes rb + 1\<rparr>)))"

text \<open>The bytes read, and the buffer.\<close>

definition ring_buffer_read :: "ring_buffer \<Rightarrow> nat \<Rightarrow> bytes \<times> ring_buffer" where
  "ring_buffer_read rb len =
     (if rb_count rb = 0 then ([], rb)
      else
        (let available = min len (rb_count rb);
             first_chunk = min available (rb_size rb - rb_tail rb);
             first_data = take first_chunk (drop (rb_tail rb) (rb_buffer rb));
             (data, tail) =
               (if available > first_chunk then
                  (let second_chunk = available - first_chunk
                   in (first_data @ take second_chunk (rb_buffer rb), second_chunk))
                else (first_data, (rb_tail rb + available) mod rb_size rb))
         in (data, rb\<lparr>rb_tail := tail, rb_count := rb_count rb - available,
                      rb_reads := rb_reads rb + 1\<rparr>)))"

definition ring_buffer_clear :: "ring_buffer \<Rightarrow> ring_buffer" where
  "ring_buffer_clear rb = rb\<lparr>rb_head := 0, rb_tail := 0, rb_count := 0\<rparr>"

text \<open>
  \<open>mem\<close> is the new block, \<open>temp_ok\<close> whether the temporary block could be had; without it the new
  buffer is empty and the call still succeeds.
\<close>

definition ring_buffer_resize :: "ring_buffer \<Rightarrow> bytes option \<Rightarrow> bool \<Rightarrow> nat \<Rightarrow> int \<times> ring_buffer" where
  "ring_buffer_resize rb mem temp_ok new_size =
     (if new_size < MIN_BUFFER_SIZE \<or> MAX_BUFFER_SIZE < new_size then (- EINVAL, rb)
      else case mem of
             None \<Rightarrow> (- ENOMEM, rb)
           | Some junk \<Rightarrow>
               (let new_rb = \<lparr>rb_buffer = junk, rb_size = new_size, rb_head = 0, rb_tail = 0, rb_count = 0,
                              rb_writes = rb_writes rb, rb_reads = rb_reads rb,
                              rb_overruns = rb_overruns rb, rb_blocking = rb_blocking rb\<rparr>
                in if rb_count rb > 0 \<and> temp_ok then
                     (let to_copy = min (rb_count rb) new_size;
                          first = min to_copy (rb_size rb - rb_tail rb);
                          temp_buf = take first (drop (rb_tail rb) (rb_buffer rb))
                            @ (if to_copy > first then take (to_copy - first) (rb_buffer rb) else [])
                      in (0, new_rb\<lparr>rb_buffer := memcpy_at 0 temp_buf junk, rb_count := to_copy,
                                    rb_head := to_copy mod new_size\<rparr>))
                   else (0, new_rb)))"

text \<open>The well-formed buffers and the bytes they hold, oldest first.\<close>

definition rb_inv :: "ring_buffer \<Rightarrow> bool" where
  "rb_inv rb \<longleftrightarrow> MIN_BUFFER_SIZE \<le> rb_size rb \<and> rb_size rb \<le> MAX_BUFFER_SIZE
     \<and> length (rb_buffer rb) = rb_size rb \<and> rb_tail rb < rb_size rb \<and> rb_count rb \<le> rb_size rb
     \<and> rb_head rb = (rb_tail rb + rb_count rb) mod rb_size rb"

definition rb_contents :: "ring_buffer \<Rightarrow> bytes" where
  "rb_contents rb = map (\<lambda>i. rb_buffer rb ! ((rb_tail rb + i) mod rb_size rb)) [0..<rb_count rb]"

lemma length_rb_contents [simp]: "length (rb_contents rb) = rb_count rb"
  by (simp add: rb_contents_def)

lemma ring_index: "a < n \<Longrightarrow> b \<le> n \<Longrightarrow> (a + b) mod n = (if a + b < n then a + b else a + b - (n :: nat))"
  by (auto simp: mod_if le_mod_geq)

lemma nth_rb_contents:
  "rb_inv rb \<Longrightarrow> i < rb_count rb \<Longrightarrow> rb_contents rb ! i
     = rb_buffer rb ! (if rb_tail rb + i < rb_size rb then rb_tail rb + i else rb_tail rb + i - rb_size rb)"
  by (simp add: rb_contents_def rb_inv_def ring_index)

lemma take_rb_contents:
  assumes "rb_inv rb" and "k \<le> rb_count rb"
  shows "take (min k (rb_size rb - rb_tail rb)) (drop (rb_tail rb) (rb_buffer rb))
      @ take (k - min k (rb_size rb - rb_tail rb)) (rb_buffer rb) = take k (rb_contents rb)"
  using assms
  by (intro nth_equalityI) (auto simp: rb_inv_def nth_append nth_rb_contents intro!: arg_cong [where f = "(!) (rb_buffer rb)"])

lemma ring_buffer_init_ok:
  assumes "ring_buffer_init mem sz = (ret, Some rb)" and "\<forall>m\<in>set_option mem. length m = sz"
  shows "ret = 0 \<and> rb_inv rb \<and> rb_contents rb = [] \<and> rb_size rb = sz"
  using assms by (auto simp: ring_buffer_init_def rb_inv_def rb_contents_def split: if_splits option.splits)

subsection \<open>The operations on the contents\<close>

text \<open>The two copies of a write that goes past the end.\<close>

lemma nth_wrapped_copy:
  assumes "length buf = n" and "h < n" and "n - h < len" and "len \<le> n" and "len \<le> length data" and "j < n"
  shows "memcpy_at 0 (take (len - (n - h)) (drop (n - h) data)) (memcpy_at h (take (n - h) data) buf) ! j
    = (if h \<le> j then data ! (j - h) else if j + n < h + len then data ! (j + n - h) else buf ! j)"
proof -
  let ?b = "memcpy_at h (take (n - h) data) buf"
  have b: "length ?b = n" using assms by (simp add: length_memcpy_at)
  have b': "?b ! j = (if h \<le> j then data ! (j - h) else buf ! j)"
    using assms by (simp add: nth_memcpy_at)
  have l: "length (take (len - (n - h)) (drop (n - h) data)) = len - (n - h)" using assms by simp
  have "memcpy_at 0 (take (len - (n - h)) (drop (n - h) data)) ?b ! j
      = (if j < len - (n - h) then data ! (n - h + j) else ?b ! j)"
    using assms b l by (subst nth_memcpy_at) auto
  moreover have "n - h + j = j + n - h" using assms(2) by simp
  moreover have "j < len - (n - h) \<longleftrightarrow> j + n < h + len" using assms(2,3) by linarith
  moreover have "\<not> h \<le> j" if "j + n < h + len" using that assms(4) by linarith
  ultimately show ?thesis using b' by auto
qed

text \<open>The buffer after a write.\<close>

lemma ring_buffer_write_buffer:
  assumes "rb_inv rb" and "rb_count rb < rb_size rb" and "ring_buffer_write rb data = (ret, rb')"
    and "j < rb_size rb"
  shows "rb_buffer rb' ! j =
    (let len = min (length data) (rb_size rb - rb_count rb)
     in if rb_head rb \<le> j \<and> j < rb_head rb + len then data ! (j - rb_head rb)
        else if j + rb_size rb < rb_head rb + len then data ! (j + rb_size rb - rb_head rb)
        else rb_buffer rb ! j)"
proof -
  have h: "rb_head rb < rb_size rb" "length (rb_buffer rb) = rb_size rb"
    using assms(1,4) by (auto simp: rb_inv_def)
  define len where "len = min (length data) (rb_size rb - rb_count rb)"
  have l: "len \<le> length data" "len \<le> rb_size rb" by (auto simp: len_def)
  show ?thesis
  proof (cases "rb_size rb - rb_head rb < len")
    case True
    then have f: "rb_buffer rb' = memcpy_at 0 (take (len - (rb_size rb - rb_head rb))
        (drop (rb_size rb - rb_head rb) data))
        (memcpy_at (rb_head rb) (take (rb_size rb - rb_head rb) data) (rb_buffer rb))"
      using assms(2,3) by (auto simp: ring_buffer_write_def Let_def simp flip: len_def)
    have "j < rb_head rb + len" if "rb_head rb \<le> j" using True assms(4) by linarith
    with nth_wrapped_copy [OF h(2,1) True l(2,1) assms(4)] show ?thesis
      unfolding f Let_def len_def [symmetric] by auto
  next
    case False
    then have "rb_buffer rb' = memcpy_at (rb_head rb) (take len data) (rb_buffer rb)"
      using assms(2,3) by (auto simp: ring_buffer_write_def Let_def simp flip: len_def)
    moreover have "\<not> j + rb_size rb < rb_head rb + len" using False h(1) by linarith
    ultimately show ?thesis
      using False h l assms(4) unfolding Let_def len_def [symmetric]
      by (auto simp: nth_memcpy_at)
  qed
qed

lemma ring_buffer_write_fields:
  assumes "rb_count rb < rb_size rb" and "rb_inv rb" and "ring_buffer_write rb data = (ret, rb')"
  defines "len \<equiv> min (length data) (rb_size rb - rb_count rb)"
  shows "ret = int len" and "rb_size rb' = rb_size rb" and "rb_tail rb' = rb_tail rb"
    and "rb_count rb' = rb_count rb + len" and "rb_head rb' = (rb_head rb + len) mod rb_size rb"
    and "length (rb_buffer rb') = rb_size rb" and "rb_writes rb' = rb_writes rb + 1"
    and "rb_reads rb' = rb_reads rb" and "rb_overruns rb' = rb_overruns rb" and "rb_blocking rb' = rb_blocking rb"
proof -
  have h: "rb_head rb < rb_size rb" "length (rb_buffer rb) = rb_size rb"
    using assms(1,2) by (auto simp: rb_inv_def)
  have l: "len \<le> rb_size rb" "len \<le> length data" by (auto simp: len_def)
  have m: "(rb_head rb + len) mod rb_size rb = len - (rb_size rb - rb_head rb)"
    if "rb_size rb - rb_head rb < len"
    using that h(1) l(1) ring_index [OF h(1) l(1)] by (simp split: if_splits)
  let ?b = "memcpy_at (rb_head rb) (take (min len (rb_size rb - rb_head rb)) data) (rb_buffer rb)"
  have b: "length ?b = rb_size rb" using h l by (simp add: length_memcpy_at)
  have "\<exists>b. length b = rb_size rb \<and> ret = int len
    \<and> rb' = rb\<lparr>rb_buffer := b, rb_head := (rb_head rb + len) mod rb_size rb,
              rb_count := rb_count rb + len, rb_writes := rb_writes rb + 1\<rparr>"
  proof (cases "rb_size rb - rb_head rb < len")
    case True
    then have "length (memcpy_at 0 (take (len - (rb_size rb - rb_head rb))
        (drop (rb_size rb - rb_head rb) data)) ?b) = rb_size rb"
      using b l by (subst length_memcpy_at) auto
    then show ?thesis
      using True assms(1,3) m [OF True] by (auto simp: ring_buffer_write_def Let_def simp flip: len_def)
  next
    case False
    then show ?thesis
      using b assms(1,3) by (auto simp: ring_buffer_write_def Let_def simp flip: len_def)
  qed
  then show "ret = int len" "rb_size rb' = rb_size rb" "rb_tail rb' = rb_tail rb"
    "rb_count rb' = rb_count rb + len" "rb_head rb' = (rb_head rb + len) mod rb_size rb"
    "length (rb_buffer rb') = rb_size rb" "rb_writes rb' = rb_writes rb + 1"
    "rb_reads rb' = rb_reads rb" "rb_overruns rb' = rb_overruns rb" "rb_blocking rb' = rb_blocking rb"
    by auto
qed

lemma ring_buffer_write_full:
  "rb_count rb = rb_size rb \<Longrightarrow>
     ring_buffer_write rb data = (- ENOSPC, rb\<lparr>rb_overruns := rb_overruns rb + 1\<rparr>)"
  by (simp add: ring_buffer_write_def)

lemma ring_buffer_write_ok:
  assumes "rb_inv rb" and "ring_buffer_write rb data = (ret, rb')"
  shows "rb_inv rb' \<and> rb_size rb' = rb_size rb
    \<and> rb_contents rb' = rb_contents rb @ take (rb_size rb - rb_count rb) data"
proof (cases "rb_count rb < rb_size rb")
  case False
  then have "rb_count rb = rb_size rb" using assms(1) by (simp add: rb_inv_def)
  with assms show ?thesis
    by (auto simp: ring_buffer_write_full rb_inv_def rb_contents_def)
next
  case True
  define len where "len = min (length data) (rb_size rb - rb_count rb)"
  note f = ring_buffer_write_fields [OF True assms(1,2), folded len_def]
  have i: "rb_tail rb < rb_size rb" "rb_head rb = (rb_tail rb + rb_count rb) mod rb_size rb"
    "rb_count rb \<le> rb_size rb" using assms(1) by (auto simp: rb_inv_def)
  have inv: "rb_inv rb'"
    using assms(1) f True by (auto simp: rb_inv_def len_def mod_simps add.assoc)
  have l: "len \<le> rb_size rb - rb_count rb" by (simp add: len_def)
  have "rb_contents rb' = rb_contents rb @ take len data"
  proof (rule nth_equalityI)
    show "length (rb_contents rb') = length (rb_contents rb @ take len data)"
      using f(4) by (simp add: len_def)
  next
    fix k assume k: "k < length (rb_contents rb')"
    let ?j = "if rb_tail rb + k < rb_size rb then rb_tail rb + k else rb_tail rb + k - rb_size rb"
    have k': "k < rb_count rb + len" using k f(4) by simp
    have j: "?j < rb_size rb" using i k' l by auto
    have "rb_contents rb' ! k = rb_buffer rb' ! ?j"
      using nth_rb_contents [OF inv, of k] k f(2,3) by simp
    also have "\<dots> = (if k < rb_count rb then rb_buffer rb ! ?j else data ! (k - rb_count rb))"
    proof -
      have head: "rb_head rb = (if rb_tail rb + rb_count rb < rb_size rb then rb_tail rb + rb_count rb
          else rb_tail rb + rb_count rb - rb_size rb)"
        using i ring_index by simp
      show ?thesis
        unfolding ring_buffer_write_buffer [OF assms(1) True assms(2) j] Let_def len_def [symmetric]
        using head i k' l True
        by (auto intro!: arg_cong [where f = "(!) data"] split: if_splits)
    qed
    also have "\<dots> = (rb_contents rb @ take len data) ! k"
      using k' nth_rb_contents [OF assms(1), of k] by (simp add: nth_append)
    finally show "rb_contents rb' ! k = (rb_contents rb @ take len data) ! k" .
  qed
  moreover have "take len data = take (rb_size rb - rb_count rb) data" by (auto simp: len_def min_def)
  ultimately show ?thesis using inv f(2) by simp
qed

lemma ring_buffer_read_ok:
  assumes "rb_inv rb" and "ring_buffer_read rb n = (d, rb')"
  shows "rb_inv rb' \<and> rb_size rb' = rb_size rb \<and> rb_contents rb' = drop n (rb_contents rb)
    \<and> d = take n (rb_contents rb)"
proof (cases "rb_count rb = 0")
  case True
  with assms have "rb_contents rb = []" by (metis length_0_conv length_rb_contents)
  with True assms show ?thesis by (simp add: ring_buffer_read_def)
next
  case False
  define k where "k = min n (rb_count rb)"
  have k: "k \<le> rb_count rb" by (simp add: k_def)
  have i: "rb_tail rb < rb_size rb" "rb_count rb \<le> rb_size rb" using assms(1) by (auto simp: rb_inv_def)
  have "d = take (min k (rb_size rb - rb_tail rb)) (drop (rb_tail rb) (rb_buffer rb))
      @ take (k - min k (rb_size rb - rb_tail rb)) (rb_buffer rb)"
    using False assms(2) by (auto simp: ring_buffer_read_def Let_def simp flip: k_def split: prod.splits if_splits)
  then have d: "d = take k (rb_contents rb)" using take_rb_contents [OF assms(1) k] by simp
  have "(rb_tail rb + k) mod rb_size rb = k - (rb_size rb - rb_tail rb)" if "rb_size rb - rb_tail rb < k"
    using that i k ring_index [of "rb_tail rb" "rb_size rb" k] by (simp split: if_splits)
  then have rb': "rb' = rb\<lparr>rb_tail := (rb_tail rb + k) mod rb_size rb, rb_count := rb_count rb - k,
      rb_reads := rb_reads rb + 1\<rparr>"
    using False assms(2) by (auto simp: ring_buffer_read_def Let_def simp flip: k_def split: prod.splits if_splits)
  have "((rb_tail rb + k) mod rb_size rb + (rb_count rb - k)) mod rb_size rb
      = (rb_tail rb + k + (rb_count rb - k)) mod rb_size rb" by (rule mod_add_left_eq)
  also have "rb_tail rb + k + (rb_count rb - k) = rb_tail rb + rb_count rb" using k by simp
  finally have inv: "rb_inv rb'"
    using assms(1) k i unfolding rb' by (auto simp: rb_inv_def)
  have "rb_contents rb' = drop k (rb_contents rb)"
    using k unfolding rb' by (intro nth_equalityI) (auto simp: rb_contents_def mod_simps add.assoc)
  moreover have "take k (rb_contents rb) = take n (rb_contents rb)" "drop k (rb_contents rb) = drop n (rb_contents rb)"
    by (auto simp: k_def min_def)
  ultimately show ?thesis using inv d rb' by simp
qed

text \<open>The buffer keeps the contract of the queue.\<close>

interpretation ring: bounded_fifo "\<lambda>rb d. snd (ring_buffer_write rb d)" ring_buffer_read rb_contents rb_size rb_inv
proof
  fix rb :: ring_buffer and d :: bytes and n :: nat and rb' :: ring_buffer
  assume inv: "rb_inv rb"
  show "rb_contents (snd (ring_buffer_write rb d)) = rb_contents rb @ take (rb_size rb - length (rb_contents rb)) d"
    and "rb_inv (snd (ring_buffer_write rb d)) \<and> rb_size (snd (ring_buffer_write rb d)) = rb_size rb"
    using ring_buffer_write_ok [OF inv, of d "fst (ring_buffer_write rb d)" "snd (ring_buffer_write rb d)"] by simp_all
  show "length (rb_contents rb) \<le> rb_size rb" using inv by (simp add: rb_inv_def)
  assume g: "ring_buffer_read rb n = (d, rb')"
  show "d = take n (rb_contents rb) \<and> rb_contents rb' = drop n (rb_contents rb)" and "rb_inv rb' \<and> rb_size rb' = rb_size rb"
    using ring_buffer_read_ok [OF inv g] by simp_all
qed

text \<open>A new size keeps the oldest bytes that fit, if the temporary block could be had.\<close>

lemma ring_buffer_resize_ok:
  assumes "rb_inv rb" and "ring_buffer_resize rb mem temp_ok n = (ret, rb')"
    and "\<forall>m\<in>set_option mem. length m = n"
  shows "ret \<noteq> 0 \<Longrightarrow> rb' = rb"
    and "ret = 0 \<Longrightarrow> rb_inv rb' \<and> rb_size rb' = n \<and> rb_blocking rb' = rb_blocking rb
       \<and> rb_contents rb' = (if temp_ok then take n (rb_contents rb) else [])"
proof -
  show "ret \<noteq> 0 \<Longrightarrow> rb' = rb"
    using assms(2) by (auto simp: ring_buffer_resize_def Let_def split: if_splits option.splits)
  assume "ret = 0"
  then obtain junk where j: "mem = Some junk" "length junk = n" and n: "MIN_BUFFER_SIZE \<le> n" "n \<le> MAX_BUFFER_SIZE"
    using assms(2,3) by (auto simp: ring_buffer_resize_def split: if_splits option.splits)
  show "rb_inv rb' \<and> rb_size rb' = n \<and> rb_blocking rb' = rb_blocking rb
       \<and> rb_contents rb' = (if temp_ok then take n (rb_contents rb) else [])"
  proof (cases "0 < rb_count rb \<and> temp_ok")
    case False
    then show ?thesis
      using assms(2) j n
      by (auto simp: ring_buffer_resize_def rb_inv_def rb_contents_def)
  next
    case True
    define k where "k = min (rb_count rb) n"
    have k: "k \<le> rb_count rb" "k \<le> n" by (auto simp: k_def)
    let ?temp = "take (min k (rb_size rb - rb_tail rb)) (drop (rb_tail rb) (rb_buffer rb))
      @ (if k > min k (rb_size rb - rb_tail rb)
         then take (k - min k (rb_size rb - rb_tail rb)) (rb_buffer rb) else [])"
    have "?temp = take k (rb_contents rb)" using take_rb_contents [OF assms(1) k(1)] by auto
    then have rb': "rb_buffer rb' = memcpy_at 0 (take k (rb_contents rb)) junk" "rb_count rb' = k"
      "rb_size rb' = n" "rb_tail rb' = 0" "rb_head rb' = k mod n" "rb_blocking rb' = rb_blocking rb"
      using True assms(2) j n by (auto simp: ring_buffer_resize_def Let_def k_def)
    have "rb_contents rb' = take k (rb_contents rb)"
      using k j n rb' by (intro nth_equalityI) (simp_all add: rb_contents_def nth_memcpy_at)
    moreover have "take k (rb_contents rb) = take n (rb_contents rb)" by (auto simp: k_def min_def)
    ultimately show ?thesis
      using k j n rb' True by (simp add: rb_inv_def length_memcpy_at)
  qed
qed

end
