(* ===== verification/RingDevice.thy ===== *)
theory RingDevice
  imports RingBuffer
begin

text \<open>
  HW_14-ringbuffer/ring_buffer_char.c: the character device around the buffer. Calls of several
  processes interleave: a call takes its temporary block, waits for its condition, and then works on
  the buffer under the mutex, and other calls may come between these steps. A wait queue is the set
  of the processes that a wake-up reaches.
\<close>

subsection \<open>The state of the device and of the calls\<close>

text \<open>
  A reader or writer about to test its condition, asleep, or past the wait; \<open>Idle\<close> outside a call.
\<close>

datatype proc =
    Idle
  | Rd_check nat | Rd_sleep nat | Rd_go nat
  | Wr_check bytes | Wr_sleep bytes | Wr_go bytes

record dev =
  d_rb :: ring_buffer
  d_proc :: "nat \<Rightarrow> proc"
  d_readers :: "nat set"
  d_writers :: "nat set"
  d_kbufs :: nat

definition set_proc :: "nat \<Rightarrow> proc \<Rightarrow> dev \<Rightarrow> dev" where
  "set_proc p c d = d\<lparr>d_proc := (d_proc d)(p := c)\<rparr>"

definition wake_readers :: "dev \<Rightarrow> dev" where
  "wake_readers d =
     d\<lparr>d_proc := (\<lambda>p. case d_proc d p of
                       Rd_sleep n \<Rightarrow> if p \<in> d_readers d then Rd_check n else Rd_sleep n
                     | c \<Rightarrow> c),
       d_readers := {}\<rparr>"

definition wake_writers :: "dev \<Rightarrow> dev" where
  "wake_writers d =
     d\<lparr>d_proc := (\<lambda>p. case d_proc d p of
                       Wr_sleep b \<Rightarrow> if p \<in> d_writers d then Wr_check b else Wr_sleep b
                     | c \<Rightarrow> c),
       d_writers := {}\<rparr>"

text \<open>\<open>kmalloc\<close> and \<open>kfree\<close> of the temporary block of a call.\<close>

definition take_kbuf :: "dev \<Rightarrow> dev" where
  "take_kbuf d = d\<lparr>d_kbufs := Suc (d_kbufs d)\<rparr>"

definition free_kbuf :: "dev \<Rightarrow> dev" where
  "free_kbuf d = d\<lparr>d_kbufs := d_kbufs d - 1\<rparr>"

subsection \<open>Reading\<close>

text \<open>
  \<open>rb_read\<close> up to its wait, the wait, its interruption by a signal, and the rest. A result ends the
  call. The temporary block is kept on the \<open>-EAGAIN\<close> and the interrupted return.
\<close>

definition rb_read_begin :: "bool \<Rightarrow> bool \<Rightarrow> nat \<Rightarrow> nat \<Rightarrow> dev \<Rightarrow> int option \<times> dev" where
  "rb_read_begin buf_ok mem_ok p len d =
     (if \<not> buf_ok then (Some (- EFAULT), d)
      else if \<not> mem_ok then (Some (- ENOMEM), d)
      else if rb_blocking (d_rb d) then (None, set_proc p (Rd_check len) (take_kbuf d))
      else if rb_count (d_rb d) = 0 then (Some (- EAGAIN), take_kbuf d)
      else (None, set_proc p (Rd_go len) (take_kbuf d)))"

definition rb_read_wait :: "nat \<Rightarrow> nat \<Rightarrow> dev \<Rightarrow> dev" where
  "rb_read_wait p len d =
     (if rb_count (d_rb d) > 0 then set_proc p (Rd_go len) d
      else (set_proc p (Rd_sleep len) d)\<lparr>d_readers := insert p (d_readers d)\<rparr>)"

definition rb_read_signal :: "nat \<Rightarrow> dev \<Rightarrow> int \<times> dev" where
  "rb_read_signal p d = (- ERESTARTSYS, (set_proc p Idle d)\<lparr>d_readers := d_readers d - {p}\<rparr>)"

definition rb_read_end :: "bool \<Rightarrow> nat \<Rightarrow> nat \<Rightarrow> dev \<Rightarrow> int \<times> bytes \<times> dev" where
  "rb_read_end copy_ok p len d =
     (case ring_buffer_read (d_rb d) len of
        (data, rb') \<Rightarrow>
          (let d1 = d\<lparr>d_rb := rb'\<rparr>;
               d2 = (if rb_count (d_rb d) = 0 then d1 else wake_writers d1)
           in (if data \<noteq> [] \<and> \<not> copy_ok then - EFAULT else int (length data), data,
               free_kbuf (set_proc p Idle d2))))"

subsection \<open>Writing\<close>

definition rb_write_begin ::
  "bool \<Rightarrow> bool \<Rightarrow> bool \<Rightarrow> nat \<Rightarrow> bytes \<Rightarrow> dev \<Rightarrow> int option \<times> dev" where
  "rb_write_begin buf_ok mem_ok copy_ok p data d =
     (if \<not> buf_ok then (Some (- EFAULT), d)
      else if \<not> mem_ok then (Some (- ENOMEM), d)
      else if \<not> copy_ok then (Some (- EFAULT), free_kbuf (take_kbuf d))
      else if rb_blocking (d_rb d) then (None, set_proc p (Wr_check data) (take_kbuf d))
      else (None, set_proc p (Wr_go data) (take_kbuf d)))"

definition rb_write_wait :: "nat \<Rightarrow> bytes \<Rightarrow> dev \<Rightarrow> dev" where
  "rb_write_wait p data d =
     (if rb_size (d_rb d) - rb_count (d_rb d) \<ge> length data then set_proc p (Wr_go data) d
      else (set_proc p (Wr_sleep data) d)\<lparr>d_writers := insert p (d_writers d)\<rparr>)"

definition rb_write_signal :: "nat \<Rightarrow> dev \<Rightarrow> int \<times> dev" where
  "rb_write_signal p d =
     (- ERESTARTSYS, free_kbuf ((set_proc p Idle d)\<lparr>d_writers := d_writers d - {p}\<rparr>))"

definition rb_write_end :: "nat \<Rightarrow> bytes \<Rightarrow> dev \<Rightarrow> int \<times> dev" where
  "rb_write_end p data d =
     (case ring_buffer_write (d_rb d) data of
        (ret, rb') \<Rightarrow>
          (let d1 = d\<lparr>d_rb := rb'\<rparr>;
               d2 = (if ret < 0 then d1 else wake_readers d1)
           in (ret, free_kbuf (set_proc p Idle d2))))"

definition rb_llseek :: "int \<Rightarrow> int \<Rightarrow> int" where
  "rb_llseek offset whence = - ESPIPE"

subsection \<open>Poll and ioctl\<close>

abbreviation POLLIN :: u32 where "POLLIN \<equiv> 0x001"
abbreviation POLLOUT :: u32 where "POLLOUT \<equiv> 0x004"
abbreviation POLLRDNORM :: u32 where "POLLRDNORM \<equiv> 0x040"
abbreviation POLLWRNORM :: u32 where "POLLWRNORM \<equiv> 0x100"

definition rb_poll :: "dev \<Rightarrow> u32" where
  "rb_poll d =
     (let mask = 0;
          mask = (if rb_count (d_rb d) > 0 then mask OR (POLLIN OR POLLRDNORM) else mask);
          mask = (if rb_count (d_rb d) < rb_size (d_rb d) then mask OR (POLLOUT OR POLLWRNORM) else mask)
      in mask)"

text \<open>The command numbers: direction, size of the argument, the letter R and the number.\<close>

definition ioc :: "u32 \<Rightarrow> u32 \<Rightarrow> u32 \<Rightarrow> u32" where
  "ioc dir nr sz = push_bit 30 dir OR push_bit 16 sz OR push_bit 8 0x52 OR nr"

definition RB_SET_SIZE :: u32 where "RB_SET_SIZE = ioc 1 1 8"
definition RB_GET_SIZE :: u32 where "RB_GET_SIZE = ioc 2 2 8"
definition RB_GET_USED :: u32 where "RB_GET_USED = ioc 2 3 8"
definition RB_GET_FREE :: u32 where "RB_GET_FREE = ioc 2 4 8"
definition RB_CLEAR :: u32 where "RB_CLEAR = ioc 0 5 0"
definition RB_SET_BLOCKING :: u32 where "RB_SET_BLOCKING = ioc 1 6 4"
definition RB_GET_STATS :: u32 where "RB_GET_STATS = ioc 2 7 48"

record rb_stats =
  s_size :: nat
  s_used :: nat
  s_free :: nat
  s_writes :: u64
  s_reads :: u64
  s_overruns :: u64

datatype ioctl_out = Out_none | Out_size nat | Out_stats rb_stats

text \<open>The queues of the waiting processes are initialised anew by a resize.\<close>

definition dev_resize :: "bytes option \<Rightarrow> bool \<Rightarrow> nat \<Rightarrow> dev \<Rightarrow> int \<times> dev" where
  "dev_resize mem temp_ok new_size d =
     (case ring_buffer_resize (d_rb d) mem temp_ok new_size of
        (ret, rb') \<Rightarrow>
          if ret = 0 then (0, wake_writers (wake_readers (d\<lparr>d_rb := rb', d_readers := {}, d_writers := {}\<rparr>)))
          else (ret, d))"

text \<open>
  \<open>arg\<close> is the number the argument points to, \<open>copy_ok\<close> whether the copy from or to user space
  succeeds; \<open>mem\<close> and \<open>temp_ok\<close> are for the resize.
\<close>

definition rb_ioctl ::
  "bytes option \<Rightarrow> bool \<Rightarrow> bool \<Rightarrow> u32 \<Rightarrow> nat \<Rightarrow> dev \<Rightarrow> int \<times> ioctl_out \<times> dev" where
  "rb_ioctl mem temp_ok copy_ok cmd arg d =
     (let rb = d_rb d;
          out = (\<lambda>x. if copy_ok then (0, x, d) else (- EFAULT, Out_none, d))
      in if cmd = RB_SET_SIZE then
           (if \<not> copy_ok then (- EFAULT, Out_none, d)
            else case dev_resize mem temp_ok arg d of (ret, d') \<Rightarrow> (ret, Out_none, d'))
         else if cmd = RB_GET_SIZE then out (Out_size (rb_size rb))
         else if cmd = RB_GET_USED then out (Out_size (rb_count rb))
         else if cmd = RB_GET_FREE then out (Out_size (rb_size rb - rb_count rb))
         else if cmd = RB_CLEAR then
           (0, Out_none, wake_writers (d\<lparr>d_rb := ring_buffer_clear rb\<rparr>))
         else if cmd = RB_SET_BLOCKING then
           (if \<not> copy_ok then (- EFAULT, Out_none, d)
            else (0, Out_none, d\<lparr>d_rb := rb\<lparr>rb_blocking := (arg \<noteq> 0)\<rparr>\<rparr>))
         else if cmd = RB_GET_STATS then
           out (Out_stats \<lparr>s_size = rb_size rb, s_used = rb_count rb, s_free = rb_size rb - rb_count rb,
                           s_writes = rb_writes rb, s_reads = rb_reads rb, s_overruns = rb_overruns rb\<rparr>)
         else (- ENOTTY, Out_none, d))"

subsection \<open>Runs of the device\<close>

text \<open>
  What can be seen of a step: a result of a read or write that moved no bytes, the bytes a read took
  and whether the user got them, the bytes a write put, and the ioctls.
\<close>

datatype dev_event =
    Ev_tau
  | Ev_read_ret nat int
  | Ev_write_ret nat int
  | Ev_got nat int bytes
  | Ev_put nat int bytes
  | Ev_ioctl u32 int

inductive rb_step :: "dev \<Rightarrow> dev_event \<Rightarrow> dev \<Rightarrow> bool" where
  read_call: "d_proc d p = Idle \<Longrightarrow> rb_read_begin buf_ok mem_ok p len d = (None, d') \<Longrightarrow> rb_step d Ev_tau d'"
| read_refused: "d_proc d p = Idle \<Longrightarrow> rb_read_begin buf_ok mem_ok p len d = (Some ret, d') \<Longrightarrow>
    rb_step d (Ev_read_ret p ret) d'"
| read_wait: "d_proc d p = Rd_check len \<Longrightarrow> rb_step d Ev_tau (rb_read_wait p len d)"
| read_signal: "d_proc d p = Rd_sleep len \<Longrightarrow> rb_read_signal p d = (ret, d') \<Longrightarrow>
    rb_step d (Ev_read_ret p ret) d'"
| read_end: "d_proc d p = Rd_go len \<Longrightarrow> rb_read_end copy_ok p len d = (ret, data, d') \<Longrightarrow>
    rb_step d (Ev_got p ret data) d'"
| write_call: "d_proc d p = Idle \<Longrightarrow> rb_write_begin buf_ok mem_ok copy_ok p data d = (None, d') \<Longrightarrow>
    rb_step d Ev_tau d'"
| write_refused: "d_proc d p = Idle \<Longrightarrow> rb_write_begin buf_ok mem_ok copy_ok p data d = (Some ret, d') \<Longrightarrow>
    rb_step d (Ev_write_ret p ret) d'"
| write_wait: "d_proc d p = Wr_check data \<Longrightarrow> rb_step d Ev_tau (rb_write_wait p data d)"
| write_signal: "d_proc d p = Wr_sleep data \<Longrightarrow> rb_write_signal p d = (ret, d') \<Longrightarrow>
    rb_step d (Ev_write_ret p ret) d'"
| write_end: "d_proc d p = Wr_go data \<Longrightarrow> rb_write_end p data d = (ret, d') \<Longrightarrow>
    rb_step d (Ev_put p ret data) d'"
| ioctl: "rb_ioctl mem temp_ok copy_ok cmd arg d = (ret, out, d') \<Longrightarrow> \<forall>m\<in>set_option mem. length m = arg \<Longrightarrow>
    rb_step d (Ev_ioctl cmd ret) d'"

inductive_cases rb_step_elim: "rb_step d ev d'"

inductive rb_run :: "dev \<Rightarrow> dev_event list \<Rightarrow> dev \<Rightarrow> bool" where
  run_nil: "rb_run d [] d"
| run_step: "rb_run d evs d' \<Longrightarrow> rb_step d' ev d'' \<Longrightarrow> rb_run d (evs @ [ev]) d''"

text \<open>The device after the module has been loaded.\<close>

definition dev_start :: "ring_buffer \<Rightarrow> dev" where
  "dev_start rb = \<lparr>d_rb = rb, d_proc = (\<lambda>_. Idle), d_readers = {}, d_writers = {}, d_kbufs = 0\<rparr>"

subsection \<open>What a step changes\<close>

lemma dev_simps [simp]:
  "d_rb (set_proc p c d) = d_rb d" "d_rb (wake_readers d) = d_rb d" "d_rb (wake_writers d) = d_rb d"
  "d_rb (take_kbuf d) = d_rb d" "d_rb (free_kbuf d) = d_rb d"
  "d_proc (set_proc p c d) = (d_proc d)(p := c)" "d_proc (take_kbuf d) = d_proc d"
  "d_proc (free_kbuf d) = d_proc d" "d_readers (set_proc p c d) = d_readers d"
  "d_readers (take_kbuf d) = d_readers d" "d_readers (free_kbuf d) = d_readers d"
  "d_readers (wake_writers d) = d_readers d" "d_writers (set_proc p c d) = d_writers d"
  "d_writers (take_kbuf d) = d_writers d" "d_writers (free_kbuf d) = d_writers d"
  "d_writers (wake_readers d) = d_writers d" "d_kbufs (set_proc p c d) = d_kbufs d"
  "d_kbufs (wake_readers d) = d_kbufs d" "d_kbufs (wake_writers d) = d_kbufs d"
  "d_kbufs (take_kbuf d) = Suc (d_kbufs d)" "d_kbufs (free_kbuf d) = d_kbufs d - 1"
  by (simp_all add: set_proc_def wake_readers_def wake_writers_def take_kbuf_def free_kbuf_def)

lemma wake_simps [simp]:
  "d_proc (wake_readers d) p = (case d_proc d p of
      Rd_sleep n \<Rightarrow> if p \<in> d_readers d then Rd_check n else Rd_sleep n | c \<Rightarrow> c)"
  "d_proc (wake_writers d) p = (case d_proc d p of
      Wr_sleep b \<Rightarrow> if p \<in> d_writers d then Wr_check b else Wr_sleep b | c \<Rightarrow> c)"
  "d_readers (wake_readers d) = {}" "d_writers (wake_writers d) = {}"
  by (simp_all add: wake_readers_def wake_writers_def)

lemma begin_rb:
  "rb_read_begin b m p len d = (r, d') \<Longrightarrow> d_rb d' = d_rb d"
  "rb_write_begin b m c p data d = (r, d') \<Longrightarrow> d_rb d' = d_rb d"
  by (auto simp: rb_read_begin_def rb_write_begin_def split: if_splits)

lemma wait_rb [simp]:
  "d_rb (rb_read_wait p len d) = d_rb d" "d_rb (rb_write_wait p data d) = d_rb d"
  by (simp_all add: rb_read_wait_def rb_write_wait_def)

text \<open>The bytes a step accepts into the buffer and those it takes out.\<close>

fun ev_in :: "dev_event \<Rightarrow> bytes" where
  "ev_in (Ev_put p ret data) = take (nat ret) data"
| "ev_in ev = []"

fun ev_out :: "dev_event \<Rightarrow> bytes" where
  "ev_out (Ev_got p ret data) = data"
| "ev_out ev = []"

text \<open>The two commands that drop bytes of the buffer.\<close>

fun discards :: "dev_event \<Rightarrow> bool" where
  "discards (Ev_ioctl cmd ret) \<longleftrightarrow> cmd = RB_CLEAR \<or> cmd = RB_SET_SIZE"
| "discards ev \<longleftrightarrow> False"

lemma write_end_rb:
  assumes "rb_write_end p data d = (ret, d')" and "rb_inv (d_rb d)"
  shows "ring_buffer_write (d_rb d) data = (ret, d_rb d')"
    and "rb_contents (d_rb d') = rb_contents (d_rb d) @ take (nat ret) data"
proof -
  show w: "ring_buffer_write (d_rb d) data = (ret, d_rb d')"
    using assms(1) by (auto simp: rb_write_end_def Let_def split: prod.splits)
  have le: "rb_count (d_rb d) \<le> rb_size (d_rb d)" using assms(2) by (simp add: rb_inv_def)
  show "rb_contents (d_rb d') = rb_contents (d_rb d) @ take (nat ret) data"
  proof (cases "rb_count (d_rb d) = rb_size (d_rb d)")
    case True
    with w ring_buffer_write_full have "ret = - ENOSPC" by auto
    with True ring_buffer_write_ok [OF assms(2) w] show ?thesis by simp
  next
    case False
    with le have lt: "rb_count (d_rb d) < rb_size (d_rb d)" by simp
    have "take (nat ret) data = take (rb_size (d_rb d) - rb_count (d_rb d)) data"
      unfolding ring_buffer_write_fields(1) [OF lt assms(2) w] by (auto simp: min_def)
    with ring_buffer_write_ok [OF assms(2) w] show ?thesis by simp
  qed
qed

lemma read_end_rb:
  "rb_read_end copy_ok p len d = (ret, data, d') \<Longrightarrow> ring_buffer_read (d_rb d) len = (data, d_rb d')"
  by (auto simp: rb_read_end_def Let_def split: prod.splits)

lemma clear_inv:
  "rb_inv rb \<Longrightarrow> rb_inv (ring_buffer_clear rb)" "rb_contents (ring_buffer_clear rb) = []"
  "rb_size (ring_buffer_clear rb) = rb_size rb" "rb_count (ring_buffer_clear rb) = 0"
  by (auto simp: ring_buffer_clear_def rb_inv_def rb_contents_def)

lemma cmds_distinct [simp]:
  "RB_CLEAR \<noteq> RB_SET_SIZE" "RB_CLEAR \<noteq> RB_GET_SIZE" "RB_CLEAR \<noteq> RB_GET_USED" "RB_CLEAR \<noteq> RB_GET_FREE"
  "RB_SET_BLOCKING \<noteq> RB_SET_SIZE" "RB_SET_BLOCKING \<noteq> RB_GET_SIZE" "RB_SET_BLOCKING \<noteq> RB_GET_USED"
  "RB_SET_BLOCKING \<noteq> RB_GET_FREE" "RB_SET_BLOCKING \<noteq> RB_CLEAR"
  by (simp_all add: RB_CLEAR_def RB_SET_SIZE_def RB_GET_SIZE_def RB_GET_USED_def RB_GET_FREE_def
      RB_SET_BLOCKING_def ioc_def)

text \<open>An ioctl clears the buffer, resizes it, sets the mode, or leaves the device as it is.\<close>

lemma ioctl_cases:
  assumes "rb_ioctl mem temp_ok copy_ok cmd arg d = (ret, out, d')"
  obtains (same) "d' = d"
    | (resize) "cmd = RB_SET_SIZE" "dev_resize mem temp_ok arg d = (ret, d')"
    | (clear) "cmd = RB_CLEAR" "d' = wake_writers (d\<lparr>d_rb := ring_buffer_clear (d_rb d)\<rparr>)"
    | (mode) "d' = d\<lparr>d_rb := (d_rb d)\<lparr>rb_blocking := (arg \<noteq> 0)\<rparr>\<rparr>"
proof -
  consider "cmd = RB_SET_SIZE" | "cmd = RB_CLEAR" | "cmd = RB_SET_BLOCKING"
    | "cmd \<noteq> RB_SET_SIZE" "cmd \<noteq> RB_CLEAR" "cmd \<noteq> RB_SET_BLOCKING" by blast
  then show ?thesis
  proof cases
    case 1
    then show ?thesis
      using assms same resize by (cases copy_ok) (simp_all add: rb_ioctl_def Let_def split: prod.splits)
  next
    case 2
    then show ?thesis using assms clear by (simp add: rb_ioctl_def Let_def)
  next
    case 3
    then show ?thesis
      using assms same mode by (cases copy_ok) (simp_all add: rb_ioctl_def Let_def)
  next
    case 4
    then have "d' = d"
      using assms by (cases copy_ok) (simp_all add: rb_ioctl_def Let_def split: if_splits)
    then show ?thesis by (rule same)
  qed
qed

lemma resize_inv:
  assumes "dev_resize mem temp_ok n d = (ret, d')" and "rb_inv (d_rb d)" and "\<forall>m\<in>set_option mem. length m = n"
  shows "rb_inv (d_rb d')"
proof -
  obtain r rb' where r: "ring_buffer_resize (d_rb d) mem temp_ok n = (r, rb')"
    by (cases "ring_buffer_resize (d_rb d) mem temp_ok n")
  from ring_buffer_resize_ok [OF assms(2) r assms(3)] r assms(1,2) show ?thesis
    by (auto simp: dev_resize_def split: if_splits)
qed

lemma step_fifo:
  assumes "rb_step d ev d'" and "rb_inv (d_rb d)"
  shows "rb_inv (d_rb d')
    \<and> (\<not> discards ev \<longrightarrow> rb_size (d_rb d') = rb_size (d_rb d)
        \<and> rb_contents (d_rb d) @ ev_in ev = ev_out ev @ rb_contents (d_rb d'))"
  using assms
proof (cases rule: rb_step.cases)
  case (read_end p len copy_ok ret data)
  from ring_buffer_read_ok [OF assms(2) read_end_rb [OF read_end(3)]] read_end(1) show ?thesis by simp
next
  case (write_end p data ret)
  from ring_buffer_write_ok [OF assms(2) write_end_rb(1) [OF write_end(3) assms(2)]]
    write_end_rb(2) [OF write_end(3) assms(2)] write_end(1)
  show ?thesis by simp
next
  case (ioctl mem temp_ok copy_ok cmd arg ret out)
  from ioctl(2) show ?thesis
  proof (cases rule: ioctl_cases)
    case same
    with ioctl(1) assms(2) show ?thesis by simp
  next
    case resize
    with resize_inv [OF resize(2) assms(2) ioctl(3)] ioctl(1) show ?thesis by simp
  next
    case clear
    with ioctl(1) assms(2) show ?thesis by (simp add: clear_inv)
  next
    case mode
    with ioctl(1) assms(2) show ?thesis by (simp add: rb_inv_def rb_contents_def)
  qed
qed (auto dest: begin_rb simp: rb_read_signal_def rb_write_signal_def)

lemma run_inv: "rb_run d evs d' \<Longrightarrow> rb_inv (d_rb d) \<Longrightarrow> rb_inv (d_rb d')"
  by (induction rule: rb_run.induct) (simp_all add: step_fifo)

lemma run_order:
  "rb_run d evs d' \<Longrightarrow> rb_inv (d_rb d) \<Longrightarrow> \<forall>ev\<in>set evs. \<not> discards ev \<Longrightarrow>
     rb_size (d_rb d') = rb_size (d_rb d)
     \<and> rb_contents (d_rb d) @ concat (map ev_in evs) = concat (map ev_out evs) @ rb_contents (d_rb d')"
proof (induction rule: rb_run.induct)
  case (run_nil d)
  then show ?case by simp
next
  case (run_step d evs d' ev d'')
  from step_fifo [OF run_step(2)] run_inv [OF run_step(1)] run_step show ?case
    by (simp flip: append_assoc) (simp add: append_assoc)
qed

subsection \<open>Properties of the device\<close>


lemma run_snoc: "rb_run d evs d' \<Longrightarrow> rb_step d' ev d'' \<Longrightarrow> evs' = evs @ [ev] \<Longrightarrow> rb_run d evs' d''"
  by (simp add: run_step)

lemma run_one: "rb_step d ev d' \<Longrightarrow> rb_run d [ev] d'"
  using run_step [OF run_nil] by simp

lemma run_Cons: "rb_step d ev d' \<Longrightarrow> rb_run d' evs d'' \<Longrightarrow> rb_run d (ev # evs) d''"
proof -
  have "rb_run d' evs d'' \<Longrightarrow> rb_step d ev d' \<Longrightarrow> rb_run d (ev # evs) d''"
    by (induction rule: rb_run.induct) (auto simp: run_one dest: run_step simp flip: append_Cons)
  then show "rb_step d ev d' \<Longrightarrow> rb_run d' evs d'' \<Longrightarrow> rb_run d (ev # evs) d''" by blast
qed

text \<open>The sleepers are in their queue, and what they wait for does not hold.\<close>

definition proc_ok :: "dev \<Rightarrow> nat \<Rightarrow> bool" where
  "proc_ok d p \<longleftrightarrow> (case d_proc d p of
       Rd_sleep n \<Rightarrow> p \<in> d_readers d \<and> rb_count (d_rb d) = 0
     | Wr_sleep b \<Rightarrow> p \<in> d_writers d \<and> rb_size (d_rb d) - rb_count (d_rb d) < length b
     | _ \<Rightarrow> True)"

definition asleep_ok :: "dev \<Rightarrow> bool" where
  "asleep_ok d \<longleftrightarrow> (\<forall>p. proc_ok d p)"

lemma asleep_okI:
  assumes "asleep_ok d" and "\<And>q. proc_ok d q \<Longrightarrow> proc_ok d' q"
  shows "asleep_ok d'"
  using assms by (simp add: asleep_ok_def)

fun resizes :: "dev_event \<Rightarrow> bool" where
  "resizes (Ev_ioctl cmd ret) \<longleftrightarrow> cmd = RB_SET_SIZE"
| "resizes ev \<longleftrightarrow> False"

lemma read_end_asleep:
  assumes "rb_read_end copy_ok p len d = (ret, data, d')" and "rb_inv (d_rb d)" and "asleep_ok d"
  shows "asleep_ok d'"
proof -
  have r: "ring_buffer_read (d_rb d) len = (data, d_rb d')" by (rule read_end_rb [OF assms(1)])
  have cnt: "rb_count (d_rb d') = rb_count (d_rb d) - len"
    using ring_buffer_read_ok [OF assms(2) r] by (metis length_drop length_rb_contents)
  have sz: "rb_size (d_rb d') = rb_size (d_rb d)" using ring_buffer_read_ok [OF assms(2) r] by simp
  have d': "d' = free_kbuf (set_proc p Idle (if rb_count (d_rb d) = 0 then d\<lparr>d_rb := d_rb d'\<rparr>
      else wake_writers (d\<lparr>d_rb := d_rb d'\<rparr>)))"
    using assms(1) r by (auto simp: rb_read_end_def Let_def)
  show ?thesis
  proof (rule asleep_okI [OF assms(3)])
    fix q assume "proc_ok d q"
    then show "proc_ok d' q"
      using cnt sz by (subst d') (auto simp: proc_ok_def split: proc.splits if_splits)
  qed
qed

lemma write_end_asleep:
  assumes "rb_write_end p data d = (ret, d')" and "rb_inv (d_rb d)" and "asleep_ok d"
  shows "asleep_ok d'"
proof -
  have w: "ring_buffer_write (d_rb d) data = (ret, d_rb d')" by (rule write_end_rb(1) [OF assms(1,2)])
  have cnt: "rb_count (d_rb d) \<le> rb_count (d_rb d')" "ret < 0 \<Longrightarrow> rb_count (d_rb d') = rb_count (d_rb d)"
  proof -
    have full: "d_rb d' = (d_rb d)\<lparr>rb_overruns := rb_overruns (d_rb d) + 1\<rparr>"
      if "\<not> rb_count (d_rb d) < rb_size (d_rb d)"
      using that assms(2) w ring_buffer_write_full [of "d_rb d" data] by (simp add: rb_inv_def)
    note part = ring_buffer_write_fields(1,4) [OF _ assms(2) w]
    show "rb_count (d_rb d) \<le> rb_count (d_rb d')"
      using part(2) full by (cases "rb_count (d_rb d) < rb_size (d_rb d)") simp_all
    show "ret < 0 \<Longrightarrow> rb_count (d_rb d') = rb_count (d_rb d)"
      using part(1) full by (cases "rb_count (d_rb d) < rb_size (d_rb d)") simp_all
  qed
  have sz: "rb_size (d_rb d') = rb_size (d_rb d)" using ring_buffer_write_ok [OF assms(2) w] by simp
  have d': "d' = free_kbuf (set_proc p Idle (if ret < 0 then d\<lparr>d_rb := d_rb d'\<rparr>
      else wake_readers (d\<lparr>d_rb := d_rb d'\<rparr>)))"
    using assms(1) w by (auto simp: rb_write_end_def Let_def)
  have room: "rb_size (d_rb d') - rb_count (d_rb d') < length b"
    if "rb_size (d_rb d) - rb_count (d_rb d) < length b" for b :: bytes
    using that cnt(1) sz by linarith
  show ?thesis
  proof (rule asleep_okI [OF assms(3)])
    fix q assume "proc_ok d q"
    then show "proc_ok d' q"
      using cnt sz room by (subst d') (auto simp: proc_ok_def split: proc.splits if_splits)
  qed
qed

lemma step_asleep:
  assumes "rb_step d ev d'" and "rb_inv (d_rb d)" and "asleep_ok d" and "\<not> resizes ev"
  shows "asleep_ok d'"
  using assms(1)
proof (cases rule: rb_step.cases)
  case (read_end p len copy_ok ret data)
  from read_end_asleep [OF this(3) assms(2,3)] show ?thesis .
next
  case (write_end p data ret)
  from write_end_asleep [OF this(3) assms(2,3)] show ?thesis .
next
  case (ioctl mem temp_ok copy_ok cmd arg ret out)
  from ioctl(2) show ?thesis
  proof (cases rule: ioctl_cases)
    case clear
    show ?thesis
      using assms(3) by (rule asleep_okI) (auto simp: clear proc_ok_def clear_inv split: proc.splits if_splits)
  next
    case mode
    show ?thesis
      using assms(3) by (rule asleep_okI) (auto simp: mode proc_ok_def split: proc.splits)
  qed (use ioctl assms in simp_all)
next
  case (read_call p buf_ok mem_ok len)
  then show ?thesis
    by (intro asleep_okI [OF assms(3)])
      (auto simp: rb_read_begin_def proc_ok_def split: if_splits proc.splits)
next
  case (read_refused p buf_ok mem_ok len ret)
  then show ?thesis
    by (intro asleep_okI [OF assms(3)])
      (auto simp: rb_read_begin_def proc_ok_def split: if_splits proc.splits)
next
  case (read_wait p len)
  then show ?thesis
    by (intro asleep_okI [OF assms(3)])
      (auto simp: rb_read_wait_def proc_ok_def split: if_splits proc.splits)
next
  case (read_signal p len ret)
  then show ?thesis
    by (intro asleep_okI [OF assms(3)])
      (auto simp: rb_read_signal_def proc_ok_def split: if_splits proc.splits)
next
  case (write_call p buf_ok mem_ok copy_ok data)
  then show ?thesis
    by (intro asleep_okI [OF assms(3)])
      (auto simp: rb_write_begin_def proc_ok_def split: if_splits proc.splits)
next
  case (write_refused p buf_ok mem_ok copy_ok data ret)
  then show ?thesis
    by (intro asleep_okI [OF assms(3)])
      (auto simp: rb_write_begin_def proc_ok_def split: if_splits proc.splits)
next
  case (write_wait p data)
  then show ?thesis
    by (intro asleep_okI [OF assms(3)])
      (auto simp: rb_write_wait_def proc_ok_def split: if_splits proc.splits)
next
  case (write_signal p data ret)
  then show ?thesis
    by (intro asleep_okI [OF assms(3)])
      (auto simp: rb_write_signal_def proc_ok_def split: if_splits proc.splits)
qed

lemma run_asleep:
  "rb_run d evs d' \<Longrightarrow> rb_inv (d_rb d) \<Longrightarrow> asleep_ok d \<Longrightarrow> \<forall>ev\<in>set evs. \<not> resizes ev \<Longrightarrow> asleep_ok d'"
  by (induction rule: rb_run.induct) (auto intro: step_asleep dest: run_inv)


text \<open>A resize empties the queues without waking anyone: who sleeps then is out of reach.\<close>

definition stranded :: "nat \<Rightarrow> nat \<Rightarrow> dev \<Rightarrow> bool" where
  "stranded p len d \<longleftrightarrow> d_proc d p = Rd_sleep len \<and> p \<notin> d_readers d"

lemma wake_stranded [simp]: "stranded p len d \<Longrightarrow> stranded p len (wake_readers d)"
  "stranded p len (wake_writers d) \<longleftrightarrow> stranded p len d"
  "stranded p len (free_kbuf d) \<longleftrightarrow> stranded p len d" "stranded p len (take_kbuf d) \<longleftrightarrow> stranded p len d"
  "stranded p len (d\<lparr>d_rb := rb\<rparr>) \<longleftrightarrow> stranded p len d"
  "q \<noteq> p \<Longrightarrow> stranded p len (set_proc q c d) \<longleftrightarrow> stranded p len d"
  "q \<noteq> p \<Longrightarrow> stranded p len (d\<lparr>d_readers := insert q (d_readers d)\<rparr>) \<longleftrightarrow> stranded p len d"
  by (auto simp: stranded_def split: proc.splits)

lemma stranded_neq: "stranded p len d \<Longrightarrow> d_proc d q \<noteq> Rd_sleep len \<Longrightarrow> q \<noteq> p"
  by (auto simp: stranded_def)

lemma stranded_queues [simp]:
  "stranded p len d \<Longrightarrow> stranded p len (d\<lparr>d_readers := R - {q}\<rparr>) \<longleftrightarrow> p \<notin> R \<or> p = q"
  "stranded p len (d\<lparr>d_writers := W\<rparr>) \<longleftrightarrow> stranded p len d"
  by (auto simp: stranded_def)

lemma stranded_end:
  "rb_read_end copy_ok q n d = (ret, data, d') \<Longrightarrow> stranded p len d \<Longrightarrow> q \<noteq> p \<Longrightarrow> stranded p len d'"
  "rb_write_end q b d = (ret, d') \<Longrightarrow> stranded p len d \<Longrightarrow> q \<noteq> p \<Longrightarrow> stranded p len d'"
  by (auto simp: rb_read_end_def rb_write_end_def Let_def split: prod.splits)

lemma stranded_resize:
  "dev_resize mem temp_ok n d = (ret, d') \<Longrightarrow> stranded p len d \<Longrightarrow> stranded p len d'"
  "dev_resize mem temp_ok n d = (0, d') \<Longrightarrow> d_proc d p = Rd_sleep len \<Longrightarrow> stranded p len d'"
  by (auto simp: dev_resize_def stranded_def split: prod.splits if_splits)

lemma step_stranded:
  assumes "rb_step d ev d'" and s: "stranded p len d" and "\<forall>r. ev \<noteq> Ev_read_ret p r"
  shows "stranded p len d'"
  using assms(1)
proof (cases rule: rb_step.cases)
  case (read_call q buf_ok mem_ok n)
  with s stranded_neq [OF s, of q] show ?thesis by (auto simp: rb_read_begin_def split: if_splits)
next
  case (read_refused q buf_ok mem_ok n ret)
  with s stranded_neq [OF s, of q] show ?thesis by (auto simp: rb_read_begin_def split: if_splits)
next
  case (read_wait q n)
  with s stranded_neq [OF s, of q] show ?thesis
    by (auto simp: rb_read_wait_def set_proc_def stranded_def)
next
  case (read_signal q n ret)
  then have "q \<noteq> p" using assms(3) by auto
  with read_signal s show ?thesis by (auto simp: rb_read_signal_def set_proc_def stranded_def)
next
  case (read_end q n copy_ok ret data)
  with s stranded_neq [OF s, of q] show ?thesis by (auto intro: stranded_end)
next
  case (write_call q buf_ok mem_ok copy_ok data)
  with s stranded_neq [OF s, of q] show ?thesis by (auto simp: rb_write_begin_def split: if_splits)
next
  case (write_refused q buf_ok mem_ok copy_ok data ret)
  with s stranded_neq [OF s, of q] show ?thesis by (auto simp: rb_write_begin_def split: if_splits)
next
  case (write_wait q data)
  with s stranded_neq [OF s, of q] show ?thesis
    by (auto simp: rb_write_wait_def set_proc_def stranded_def)
next
  case (write_signal q data ret)
  with s stranded_neq [OF s, of q] show ?thesis by (auto simp: rb_write_signal_def)
next
  case (write_end q data ret)
  with s stranded_neq [OF s, of q] show ?thesis by (auto intro: stranded_end)
next
  case (ioctl mem temp_ok copy_ok cmd arg ret out)
  from ioctl(2) show ?thesis
    by (cases rule: ioctl_cases) (use s in \<open>auto intro: stranded_resize\<close>)
qed

text \<open>
  a reader asleep when the buffer is resized is never woken: whatever is written afterwards, it
  stays asleep until a signal ends its call.
\<close>

theorem resize_strands_reader:
  assumes "d_proc d p = Rd_sleep len" and "dev_resize mem temp_ok n d = (0, d')"
    and "rb_run d' evs d''" and "\<forall>r. Ev_read_ret p r \<notin> set evs"
  shows "d_proc d'' p = Rd_sleep len"
proof -
  have "stranded p len d''"
    using assms(3,4) stranded_resize(2) [OF assms(2,1)]
    by (induction rule: rb_run.induct) (auto intro: step_stranded)
  then show ?thesis by (simp add: stranded_def)
qed

subsection \<open>Temporary blocks\<close>

definition active :: "dev \<Rightarrow> nat set" where
  "active d = {p. d_proc d p \<noteq> Idle}"

text \<open>The two ways out of a read that keep its block.\<close>

fun leak :: "dev_event \<Rightarrow> nat" where
  "leak (Ev_read_ret p ret) = (if ret = - EAGAIN \<or> ret = - ERESTARTSYS then 1 else 0)"
| "leak ev = 0"

lemma active_simps [simp]:
  "active (wake_readers d) = active d" "active (wake_writers d) = active d"
  "active (free_kbuf d) = active d" "active (take_kbuf d) = active d"
  "active (d\<lparr>d_rb := rb\<rparr>) = active d" "active (d\<lparr>d_readers := R\<rparr>) = active d"
  "active (d\<lparr>d_writers := W\<rparr>) = active d"
  "active (set_proc p c d) = (if c = Idle then active d - {p} else insert p (active d))"
  by (auto simp: active_def split: proc.splits if_splits)

lemma in_active [simp]: "p \<in> active d \<longleftrightarrow> d_proc d p \<noteq> Idle"
  by (simp add: active_def)

lemma step_kbufs:
  assumes "rb_step d ev d'" and "finite (active d)" and "card (active d) \<le> d_kbufs d"
  shows "finite (active d') \<and> d_kbufs d' + card (active d) = d_kbufs d + card (active d') + leak ev"
  using assms(1)
proof (cases rule: rb_step.cases)
  case (read_call q buf_ok mem_ok n)
  with assms show ?thesis by (auto simp: rb_read_begin_def split: if_splits)
next
  case (read_refused q buf_ok mem_ok n ret)
  with assms show ?thesis by (auto simp: rb_read_begin_def split: if_splits)
next
  case (read_wait q n)
  with assms show ?thesis by (auto simp: rb_read_wait_def insert_absorb)
next
  case (read_signal q n ret)
  with assms card_Suc_Diff1 [of "active d" q] show ?thesis by (auto simp: rb_read_signal_def)
next
  case (read_end q n copy_ok ret data)
  with assms card_Suc_Diff1 [of "active d" q] show ?thesis
    by (auto simp: rb_read_end_def Let_def split: prod.splits)
next
  case (write_call q buf_ok mem_ok copy_ok data)
  with assms show ?thesis by (auto simp: rb_write_begin_def split: if_splits)
next
  case (write_refused q buf_ok mem_ok copy_ok data ret)
  with assms show ?thesis by (auto simp: rb_write_begin_def split: if_splits)
next
  case (write_wait q data)
  with assms show ?thesis by (auto simp: rb_write_wait_def insert_absorb)
next
  case (write_signal q data ret)
  with assms card_Suc_Diff1 [of "active d" q] show ?thesis by (auto simp: rb_write_signal_def)
next
  case (write_end q data ret)
  with assms card_Suc_Diff1 [of "active d" q] show ?thesis
    by (auto simp: rb_write_end_def Let_def split: prod.splits)
next
  case (ioctl mem temp_ok copy_ok cmd arg ret out)
  from ioctl(2) show ?thesis
    by (cases rule: ioctl_cases) (use assms ioctl in \<open>auto simp: dev_resize_def split: prod.splits if_splits\<close>)
qed

text \<open>
  the temporary blocks in use are those of the calls under way and one for every read that ended
  with \<open>-EAGAIN\<close> or was interrupted: these two returns lose their block.
\<close>

theorem kbufs_accounted:
  assumes "rb_run (dev_start rb) evs d"
  shows "finite (active d) \<and> d_kbufs d = card (active d) + sum_list (map leak evs)"
proof -
  have "finite (active d) \<and> d_kbufs d = card (active d) + sum_list (map leak evs)"
    if "rb_run d0 evs d" "active d0 = {}" "d_kbufs d0 = 0" for d0
    using that
  proof (induction rule: rb_run.induct)
    case (run_step d0 evs d ev d')
    with step_kbufs [OF run_step(2)] show ?case by simp
  qed simp
  from this [OF assms] show ?thesis by (simp add: dev_start_def active_def)
qed

subsection \<open>Sample runs\<close>

definition fresh_rb :: ring_buffer where
  "fresh_rb = \<lparr>rb_buffer = replicate 256 0, rb_size = 256, rb_head = 0, rb_tail = 0, rb_count = 0,
     rb_writes = 0, rb_reads = 0, rb_overruns = 0, rb_blocking = True\<rparr>"

lemma fresh_rb: "ring_buffer_init (Some (replicate 256 0)) 256 = (0, Some fresh_rb)" "rb_inv fresh_rb"
  by (simp_all add: ring_buffer_init_def fresh_rb_def rb_inv_def)

lemma write_steps:
  assumes "d_proc d p = Idle" and "rb_blocking (d_rb d)" and "rb_inv (d_rb d)"
    and "data \<noteq> []" and "rb_count (d_rb d) + length data \<le> rb_size (d_rb d)"
  shows "\<exists>d'. rb_run d [Ev_tau, Ev_tau, Ev_put p (int (length data)) data] d'"
proof -
  let ?d1 = "set_proc p (Wr_check data) (take_kbuf d)"
  let ?d2 = "rb_write_wait p data ?d1"
  have 1: "rb_step d Ev_tau ?d1"
    using assms(1,2) by (intro write_call [of d p True True True data]) (simp_all add: rb_write_begin_def)
  have 2: "rb_step ?d1 Ev_tau ?d2" by (intro write_wait) simp
  have go: "d_proc ?d2 p = Wr_go data" "d_rb ?d2 = d_rb d"
    using assms(5) by (simp_all add: rb_write_wait_def)
  have part: "rb_count (d_rb d) < rb_size (d_rb d)" using assms(4,5) by (cases data) simp_all
  obtain ret rb' where w: "ring_buffer_write (d_rb d) data = (ret, rb')"
    by (cases "ring_buffer_write (d_rb d) data")
  have ret: "ret = int (length data)"
    using ring_buffer_write_fields(1) [OF part assms(3) w] assms(5) by simp
  obtain d3 where e: "rb_write_end p data ?d2 = (ret, d3)"
    using go(2) w by (simp add: rb_write_end_def Let_def)
  have "rb_step ?d2 (Ev_put p ret data) d3" using go(1) e by (rule write_end)
  then show ?thesis using 1 2 ret by (blast intro: run_Cons run_one)
qed

text \<open>A reader that finds the buffer empty falls asleep.\<close>

definition sleeper :: "nat \<Rightarrow> nat \<Rightarrow> ring_buffer \<Rightarrow> dev" where
  "sleeper p len rb = rb_read_wait p len (snd (rb_read_begin True True p len (dev_start rb)))"

lemma sleeper:
  assumes "rb_blocking rb" and "rb_count rb = 0"
  shows "rb_run (dev_start rb) [Ev_tau, Ev_tau] (sleeper p len rb)"
    and "d_proc (sleeper p len rb) = (\<lambda>_. Idle)(p := Rd_sleep len)" and "d_rb (sleeper p len rb) = rb"
proof -
  have b: "rb_read_begin True True p len (dev_start rb)
      = (None, set_proc p (Rd_check len) (take_kbuf (dev_start rb)))"
    using assms(1) by (simp add: rb_read_begin_def dev_start_def)
  have "rb_step (dev_start rb) Ev_tau (set_proc p (Rd_check len) (take_kbuf (dev_start rb)))"
    using b by (intro read_call) (simp_all add: dev_start_def)
  moreover have "rb_step (set_proc p (Rd_check len) (take_kbuf (dev_start rb))) Ev_tau (sleeper p len rb)"
    unfolding sleeper_def b snd_conv by (intro read_wait) simp
  ultimately show "rb_run (dev_start rb) [Ev_tau, Ev_tau] (sleeper p len rb)"
    by (blast intro: run_Cons run_one)
  show "d_proc (sleeper p len rb) = (\<lambda>_. Idle)(p := Rd_sleep len)" "d_rb (sleeper p len rb) = rb"
    using b assms(2) by (simp_all add: sleeper_def rb_read_wait_def dev_start_def fun_eq_iff)
qed



theorem resize_strands_reader_witness:
  "\<exists>d' d''. dev_resize (Some (replicate 512 0)) True 512 (sleeper 3 10 fresh_rb) = (0, d')
     \<and> rb_run d' [Ev_tau, Ev_tau, Ev_put 1 2 [7, 9]] d'' \<and> d_proc d'' 3 = Rd_sleep 10"
proof -
  have s: "d_proc (sleeper 3 10 fresh_rb) = (\<lambda>_. Idle)(3 := Rd_sleep 10)" "d_rb (sleeper 3 10 fresh_rb) = fresh_rb"
    by (simp_all add: sleeper fresh_rb_def)
  obtain d' where r: "dev_resize (Some (replicate 512 0)) True 512 (sleeper 3 10 fresh_rb) = (0, d')"
    using s(2) by (simp add: dev_resize_def ring_buffer_resize_def fresh_rb_def)
  have inv: "rb_inv (d_rb d')" using resize_inv [OF r] s(2) fresh_rb(2) by simp
  have "d_proc d' 1 = Idle" "rb_blocking (d_rb d')" "rb_count (d_rb d') = 0" "rb_size (d_rb d') = 512"
    using r s by (auto simp: dev_resize_def ring_buffer_resize_def fresh_rb_def)
  then obtain d'' where w: "rb_run d' [Ev_tau, Ev_tau, Ev_put 1 2 [7, 9]] d''"
    using write_steps [of d' 1 "[7, 9]"] inv by auto
  from resize_strands_reader [OF _ r w, of 3 10] s(1) r w show ?thesis by auto
qed

theorem kbufs_accounted_witness:
  "\<exists>d. rb_run (dev_start fresh_rb) [Ev_tau, Ev_tau, Ev_read_ret 3 (- ERESTARTSYS)] d
     \<and> d_kbufs d = 1 \<and> active d = {}"
proof -
  let ?d = "snd (rb_read_signal 3 (sleeper 3 10 fresh_rb))"
  have s: "rb_run (dev_start fresh_rb) [Ev_tau, Ev_tau] (sleeper 3 10 fresh_rb)"
    "d_proc (sleeper 3 10 fresh_rb) = (\<lambda>_. Idle)(3 := Rd_sleep 10)"
    by (simp_all add: sleeper fresh_rb_def)
  have "rb_step (sleeper 3 10 fresh_rb) (Ev_read_ret 3 (- ERESTARTSYS)) ?d"
    using s(2) by (intro read_signal) (simp_all add: rb_read_signal_def)
  from run_step [OF s(1) this]
  have r: "rb_run (dev_start fresh_rb) [Ev_tau, Ev_tau, Ev_read_ret 3 (- ERESTARTSYS)] ?d" by simp
  have a: "active ?d = {}" using s(2) by (auto simp: rb_read_signal_def active_def)
  show ?thesis using kbufs_accounted [OF r] r a by auto
qed

text \<open>
  Two readers past their wait: the first takes the only byte, and the blocking read of the second
  returns 0, the end of the file.
\<close>

lemma blocking_read_returns_zero:
  assumes "rb_inv (d_rb d)" and "rb_contents (d_rb d) = [b]" and "p \<noteq> q"
    and "d_proc d p = Rd_go n" and "d_proc d q = Rd_go m" and "0 < n"
  shows "\<exists>d'. rb_run d [Ev_got p 1 [b], Ev_got q 0 []] d'"
proof -
  obtain data rb' where r: "ring_buffer_read (d_rb d) n = (data, rb')"
    by (cases "ring_buffer_read (d_rb d) n")
  note ok = ring_buffer_read_ok [OF assms(1) r]
  have data: "data = [b]" and rb': "rb_inv rb'" "rb_contents rb' = []"
    using ok assms(2,6) by (simp_all add: take_Cons')
  obtain d1 where d1: "rb_read_end True p n d = (1, [b], d1)" "d_rb d1 = rb'" "d_proc d1 q = Rd_go m"
    using r data assms(3,5) by (simp add: rb_read_end_def Let_def)
  have "ring_buffer_read rb' m = ([], rb')"
    using rb'(2) by (metis length_rb_contents list.size(3) ring_buffer_read_def)
  then obtain d2 where "rb_read_end True q m d1 = (0, [], d2)"
    using d1(2) by (simp add: rb_read_end_def Let_def)
  with d1 assms(4) show ?thesis by (blast intro: run_Cons run_one read_end)
qed

subsection \<open>Loading and unloading the module\<close>

text \<open>What the module holds, most recent first; a release must match the last acquisition.\<close>

datatype res = R_rb | R_buffer | R_region | R_cdev | R_class | R_device
datatype res_call = Acq res | Rel res

fun res_run :: "res_call list \<Rightarrow> res list \<Rightarrow> res list option" where
  "res_run [] held = Some held"
| "res_run (Acq r # cs) held = res_run cs (r # held)"
| "res_run (Rel r # cs) (h # held) = (if h = r then res_run cs held else None)"
| "res_run (Rel r # cs) [] = None"

text \<open>The answers of the kernel; a negative number is an error (or an error pointer).\<close>

record init_answers =
  a_rb :: bool
  a_buffer :: "bytes option"
  a_region :: int
  a_cdev :: int
  a_class :: int
  a_device :: int

definition ring_buffer_init_module :: "init_answers \<Rightarrow> int \<times> res_call list \<times> ring_buffer option" where
  "ring_buffer_init_module a =
     (if \<not> a_rb a then (- ENOMEM, [], None)
      else case ring_buffer_init (a_buffer a) DEFAULT_BUFFER_SIZE of
             (ret, None) \<Rightarrow> (ret, [Acq R_rb, Rel R_rb], None)
           | (ret, Some rb) \<Rightarrow>
               if a_region a < 0 then
                 (a_region a, [Acq R_rb, Acq R_buffer, Rel R_buffer, Rel R_rb], None)
               else if a_cdev a < 0 then
                 (a_cdev a, [Acq R_rb, Acq R_buffer, Acq R_region, Rel R_region, Rel R_buffer, Rel R_rb], None)
               else if a_class a < 0 then
                 (a_class a, [Acq R_rb, Acq R_buffer, Acq R_region, Acq R_cdev,
                              Rel R_cdev, Rel R_region, Rel R_buffer, Rel R_rb], None)
               else if a_device a < 0 then
                 (a_device a, [Acq R_rb, Acq R_buffer, Acq R_region, Acq R_cdev, Acq R_class,
                               Rel R_class, Rel R_cdev, Rel R_region, Rel R_buffer, Rel R_rb], None)
               else (0, [Acq R_rb, Acq R_buffer, Acq R_region, Acq R_cdev, Acq R_class, Acq R_device], Some rb))"

definition ring_buffer_exit_module :: "res_call list" where
  "ring_buffer_exit_module =
     [Rel R_device, Rel R_class, Rel R_cdev, Rel R_region, Rel R_buffer, Rel R_rb]"

text \<open>A load that fails has given everything back; after a load and an unload nothing is held.\<close>

lemma init_module_balanced:
  assumes "ring_buffer_init_module a = (ret, calls, rb)" and "\<forall>m\<in>set_option (a_buffer a). length m = DEFAULT_BUFFER_SIZE"
  shows "ret \<noteq> 0 \<Longrightarrow> res_run calls [] = Some [] \<and> rb = None"
    and "ret = 0 \<Longrightarrow> res_run (calls @ ring_buffer_exit_module) [] = Some [] \<and> (\<exists>b. rb = Some b \<and> rb_inv b)"
proof -
  obtain r b where i: "ring_buffer_init (a_buffer a) DEFAULT_BUFFER_SIZE = (r, b)"
    by (cases "ring_buffer_init (a_buffer a) DEFAULT_BUFFER_SIZE")
  have none: "r < 0" if "b = None"
    using that i by (auto simp: ring_buffer_init_def split: if_splits option.splits)
  have some: "rb_inv b'" if "b = Some b'" for b'
    using ring_buffer_init_ok [of "a_buffer a"] i that assms(2) by simp
  show "ret \<noteq> 0 \<Longrightarrow> res_run calls [] = Some [] \<and> rb = None"
    "ret = 0 \<Longrightarrow> res_run (calls @ ring_buffer_exit_module) [] = Some [] \<and> (\<exists>b. rb = Some b \<and> rb_inv b)"
    using assms(1) i none some
    by (auto simp: ring_buffer_init_module_def ring_buffer_exit_module_def split: if_splits option.splits)
qed

end
