(* ===== verification/Game2048.thy ===== *)
theory Game2048
  imports CPrelude
begin

text \<open>
  HW_17-Game/src/game.c: the board of the game 2048 and its moves. A board is the list of its four
  rows; the values of \<open>rand ()\<close> are arguments. The values of the tiles and the score are \<open>int\<close>s far
  below their bounds (a tile is at most \<open>2 ^ 17\<close> on sixteen cells), so they are held as integers.
\<close>

subsection \<open>The state\<close>

abbreviation SIZE :: nat where "SIZE \<equiv> 4"
abbreviation TARGET :: int where "TARGET \<equiv> 2048"

record GameState =
  g_board :: "int list list"
  g_score :: int
  g_gameOver :: bool
  g_win :: bool

definition cell :: "int list list \<Rightarrow> nat \<times> nat \<Rightarrow> int" where
  "cell b p = b ! fst p ! snd p"

definition set_cell :: "nat \<times> nat \<Rightarrow> int \<Rightarrow> int list list \<Rightarrow> int list list" where
  "set_cell p v b = b[fst p := (b ! fst p)[snd p := v]]"

text \<open>The cells in the order of the two nested loops.\<close>

definition cells :: "(nat \<times> nat) list" where
  "cells = List.product [0..<SIZE] [0..<SIZE]"

subsection \<open>A new tile\<close>

text \<open>The loop that counts \<open>target\<close> down over the empty cells.\<close>

fun nth_empty :: "int list list \<Rightarrow> (nat \<times> nat) list \<Rightarrow> nat \<Rightarrow> (nat \<times> nat) option" where
  "nth_empty b [] target = None"
| "nth_empty b (p # ps) target =
     (if cell b p = 0 then (if target = 0 then Some p else nth_empty b ps (target - 1))
      else nth_empty b ps target)"

definition gameAddRandomTile :: "nat \<Rightarrow> nat \<Rightarrow> GameState \<Rightarrow> bool \<times> GameState" where
  "gameAddRandomTile r1 r2 st =
     (let empty = length (filter (\<lambda>p. cell (g_board st) p = 0) cells)
      in if empty = 0 then (False, st)
         else case nth_empty (g_board st) cells (r1 mod empty) of
                Some p \<Rightarrow> (True, st\<lparr>g_board := set_cell p (if r2 mod 10 < 9 then 2 else 4) (g_board st)\<rparr>)
              | None \<Rightarrow> (False, st))"

text \<open>\<open>gameInit\<close> with the four values of \<open>rand ()\<close> it uses.\<close>

definition gameInit :: "nat \<Rightarrow> nat \<Rightarrow> nat \<Rightarrow> nat \<Rightarrow> GameState" where
  "gameInit r1 r2 r3 r4 =
     snd (gameAddRandomTile r3 r4 (snd (gameAddRandomTile r1 r2
       \<lparr>g_board = replicate SIZE (replicate SIZE 0), g_score = 0, g_gameOver = False, g_win = False\<rparr>)))"

subsection \<open>One row\<close>

text \<open>\<open>for (j = i + 1; j < pos - 1; j++) temp[j] = temp[j + 1]\<close>\<close>

function shift_left :: "nat \<Rightarrow> nat \<Rightarrow> int list \<Rightarrow> int list" where
  "shift_left j pos temp =
     (if Suc j < pos then shift_left (Suc j) pos (temp[j := temp ! Suc j]) else temp)"
  by pat_completeness auto
termination by (relation "measure (\<lambda>(j, pos, temp). pos - j)") auto

declare shift_left.simps [simp del]

text \<open>The merge loop: the array, the number of its tiles, the score and the flag.\<close>

function merge_loop :: "nat \<Rightarrow> nat \<Rightarrow> int list \<Rightarrow> int \<Rightarrow> bool \<Rightarrow> int list \<times> int \<times> bool" where
  "merge_loop i pos temp score changed =
     (if Suc i < pos then
        (if temp ! i = temp ! Suc i then
           (let doubled = temp[i := temp ! i * 2]
            in merge_loop (Suc i) (pos - 1) ((shift_left (Suc i) pos doubled)[pos - 1 := 0])
                 (score + doubled ! i) True)
         else merge_loop (Suc i) pos temp score changed)
      else (temp, score, changed))"
  by pat_completeness auto
termination by (relation "measure (\<lambda>(i, pos, temp, score, changed). pos - i)") auto

declare merge_loop.simps [simp del]

definition moveRowLeft :: "int list \<Rightarrow> int \<Rightarrow> bool \<times> int list \<times> int" where
  "moveRowLeft row score =
     (let tiles = filter (\<lambda>v. v \<noteq> 0) row;
          pos = length tiles
      in case merge_loop 0 pos (tiles @ replicate (SIZE - pos) 0) score False of
           (temp, score', changed) \<Rightarrow> (changed \<or> row \<noteq> temp, temp, score'))"

definition reverseRow :: "int list \<Rightarrow> int list" where
  "reverseRow row = rev row"

subsection \<open>Moves\<close>

text \<open>The loop over the rows with the move of one row.\<close>

fun move_rows :: "(int list \<Rightarrow> int \<Rightarrow> bool \<times> int list \<times> int) \<Rightarrow> int list list \<Rightarrow> int
    \<Rightarrow> bool \<times> int list list \<times> int" where
  "move_rows mv [] score = (False, [], score)"
| "move_rows mv (row # rows) score =
     (case mv row score of (c, row', score1) \<Rightarrow>
        (case move_rows mv rows score1 of (cs, rows', score') \<Rightarrow> (c \<or> cs, row' # rows', score')))"

definition gameCanMove :: "GameState \<Rightarrow> bool" where
  "gameCanMove st \<longleftrightarrow>
     (let b = g_board st
      in list_ex (\<lambda>p. cell b p = 0) cells
         \<or> list_ex (\<lambda>i. list_ex (\<lambda>j. cell b (i, j) = cell b (i, j + 1)) [0..<SIZE - 1]) [0..<SIZE]
         \<or> list_ex (\<lambda>j. list_ex (\<lambda>i. cell b (i, j) = cell b (i + 1, j)) [0..<SIZE - 1]) [0..<SIZE])"

definition gameCheckWin :: "GameState \<Rightarrow> bool" where
  "gameCheckWin st \<longleftrightarrow> list_ex (\<lambda>p. cell (g_board st) p = TARGET) cells"

definition gameCheckGameOver :: "GameState \<Rightarrow> bool" where
  "gameCheckGameOver st \<longleftrightarrow> \<not> gameCanMove st"

text \<open>A changed board gets a tile and the two flags.\<close>

definition after_move :: "nat \<Rightarrow> nat \<Rightarrow> bool \<times> int list list \<times> int \<Rightarrow> GameState \<Rightarrow> bool \<times> GameState" where
  "after_move r1 r2 res st =
     (case res of (changed, b, score) \<Rightarrow>
        (let st1 = st\<lparr>g_board := b, g_score := score\<rparr>
         in if changed then
              (let st2 = snd (gameAddRandomTile r1 r2 st1);
                   st3 = st2\<lparr>g_win := gameCheckWin st2\<rparr>
               in (True, st3\<lparr>g_gameOver := gameCheckGameOver st3\<rparr>))
            else (False, st1)))"

definition gameMoveLeft :: "nat \<Rightarrow> nat \<Rightarrow> GameState \<Rightarrow> bool \<times> GameState" where
  "gameMoveLeft r1 r2 st = after_move r1 r2 (move_rows moveRowLeft (g_board st) (g_score st)) st"

definition move_row_right :: "int list \<Rightarrow> int \<Rightarrow> bool \<times> int list \<times> int" where
  "move_row_right row score =
     (case moveRowLeft (reverseRow row) score of (c, row', score') \<Rightarrow> (c, reverseRow row', score'))"

definition gameMoveRight :: "nat \<Rightarrow> nat \<Rightarrow> GameState \<Rightarrow> bool \<times> GameState" where
  "gameMoveRight r1 r2 st = after_move r1 r2 (move_rows move_row_right (g_board st) (g_score st)) st"

definition transpose_board :: "int list list \<Rightarrow> int list list" where
  "transpose_board b = map (\<lambda>i. map (\<lambda>j. cell b (j, i)) [0..<SIZE]) [0..<SIZE]"

definition gameMoveUp :: "nat \<Rightarrow> nat \<Rightarrow> GameState \<Rightarrow> bool \<times> GameState" where
  "gameMoveUp r1 r2 st =
     (case gameMoveLeft r1 r2 (st\<lparr>g_board := transpose_board (g_board st)\<rparr>) of
        (changed, st') \<Rightarrow> (changed, st'\<lparr>g_board := transpose_board (g_board st')\<rparr>))"

definition gameMoveDown :: "nat \<Rightarrow> nat \<Rightarrow> GameState \<Rightarrow> bool \<times> GameState" where
  "gameMoveDown r1 r2 st =
     (case gameMoveRight r1 r2 (st\<lparr>g_board := transpose_board (g_board st)\<rparr>) of
        (changed, st') \<Rightarrow> (changed, st'\<lparr>g_board := transpose_board (g_board st')\<rparr>))"

subsection \<open>The move of a row as a recursion over its tiles\<close>

text \<open>Equal neighbours merge from the left, each tile at most once; the points are their sums.\<close>

fun slide :: "int list \<Rightarrow> int list \<times> int" where
  "slide (a # b # xs) =
     (if a = b then (case slide xs of (ys, n) \<Rightarrow> (a * 2 # ys, a * 2 + n))
      else (case slide (b # xs) of (ys, n) \<Rightarrow> (a # ys, n)))"
| "slide [] = ([], 0)"
| "slide [a] = ([a], 0)"

lemma length_slide: "length (fst (slide xs)) \<le> length xs"
  by (induction xs rule: slide.induct) (auto split: prod.splits)

lemma sum_slide: "sum_list (fst (slide xs)) = sum_list xs"
  by (induction xs rule: slide.induct) (auto split: prod.splits)

lemma slide_id: "slide xs = (xs, n) \<Longrightarrow> n = 0"
proof (induction xs arbitrary: n rule: slide.induct)
  case (1 a b xs)
  show ?case
  proof (cases "a = b")
    case True
    have "length (fst (slide xs)) \<le> length xs" by (rule length_slide)
    with 1(3) True show ?thesis by (auto split: prod.splits)
  next
    case False
    with 1 show ?thesis by (auto split: prod.splits)
  qed
qed simp_all

text \<open>A row of tiles stands still when no two neighbours are equal.\<close>

definition no_pair :: "int list \<Rightarrow> bool" where
  "no_pair xs \<longleftrightarrow> (\<forall>i. Suc i < length xs \<longrightarrow> xs ! i \<noteq> xs ! Suc i)"

lemma no_pair_Cons: "no_pair (a # b # xs) \<longleftrightarrow> a \<noteq> b \<and> no_pair (b # xs)"
  unfolding no_pair_def by (auto simp: nth_Cons split: nat.splits)

lemma slide_no_pair: "no_pair xs \<Longrightarrow> slide xs = (xs, 0)"
  by (induction xs rule: slide.induct) (auto simp: no_pair_Cons)

lemma slide_pair: "\<not> no_pair xs \<Longrightarrow> length (fst (slide xs)) < length xs"
proof (induction xs rule: slide.induct)
  case (1 a b xs)
  show ?case
  proof (cases "a = b")
    case True
    have "length (fst (slide xs)) \<le> length xs" by (rule length_slide)
    with True show ?thesis by (auto split: prod.splits)
  next
    case False
    with 1 show ?thesis by (auto simp: no_pair_Cons split: prod.splits)
  qed
qed (simp_all add: no_pair_def)

subsection \<open>The loops compute it\<close>

lemma shift_left_list:
  "shift_left (length p) (length p + Suc (length ys)) (p @ x # ys @ zs) = p @ ys @ last (x # ys) # zs"
proof (induction ys arbitrary: p x)
  case Nil
  then show ?case by (subst shift_left.simps) simp
next
  case (Cons y ys)
  have "shift_left (length (p @ [y])) (length (p @ [y]) + Suc (length ys)) ((p @ [y]) @ y # ys @ zs)
      = (p @ [y]) @ ys @ last (y # ys) # zs" by (rule Cons.IH)
  then show ?case by (subst shift_left.simps) (simp add: list_update_append nth_append)
qed

lemma merge_loop_slide:
  assumes "p @ xs = ts"
  shows "merge_loop (length p) (length ts) (ts @ replicate n 0) score changed
    = (p @ fst (slide xs) @ replicate (n + length xs - length (fst (slide xs))) 0, score + snd (slide xs),
       changed \<or> length (fst (slide xs)) < length xs)"
  using assms
proof (induction xs arbitrary: p ts n score changed rule: slide.induct)
  case (1 a b xs)
  show ?case
  proof (cases "a = b")
    case True
    let ?ts = "(p @ [a * 2]) @ xs"
    have le: "length (fst (slide xs)) \<le> length xs" by (rule length_slide)
    have sh: "shift_left (Suc (length p)) (length ts) (p @ a * 2 # b # xs @ replicate n 0)
        = p @ a * 2 # xs @ last (b # xs) # replicate n 0"
      using shift_left_list [of "p @ [a * 2]" xs b "replicate n 0"] 1(3) by auto
    have "(p @ a * 2 # xs @ last (b # xs) # replicate n 0)[length ts - 1 := 0]
        = p @ a * 2 # xs @ replicate (Suc n) 0"
      using 1(3) by (auto simp: list_update_append)
    moreover have "length ts - 1 = length ?ts" using 1(3) by auto
    moreover have "merge_loop (length (p @ [a * 2])) (length ?ts) (?ts @ replicate (Suc n) 0)
        (score + a * 2) True
      = ((p @ [a * 2]) @ fst (slide xs) @ replicate (Suc n + length xs - length (fst (slide xs))) 0,
         score + a * 2 + snd (slide xs), True \<or> length (fst (slide xs)) < length xs)"
      using True by (intro 1(1)) simp_all
    moreover have "length p + Suc 0 < length ts" using 1(3) by auto
    ultimately show ?thesis
      using True 1(3) sh le
      by (subst merge_loop.simps)
        (auto simp: nth_append list_update_append Let_def Suc_diff_le split: prod.splits)
  next
    case False
    have "merge_loop (length (p @ [a])) (length ts) (ts @ replicate n 0) score changed
      = ((p @ [a]) @ fst (slide (b # xs)) @ replicate (n + length (b # xs) - length (fst (slide (b # xs)))) 0,
         score + snd (slide (b # xs)), changed \<or> length (fst (slide (b # xs))) < length (b # xs))"
      using False 1(3) by (intro 1(2)) simp_all
    moreover have "Suc (length p) < length ts" "(ts @ replicate n 0) ! length p = a"
      "(ts @ replicate n 0) ! Suc (length p) = b"
      using 1(3) by (auto simp: nth_append)
    ultimately show ?thesis
      using False by (subst merge_loop.simps) (auto split: prod.splits)
  qed
next
  case 2
  then show ?case by (subst merge_loop.simps) simp
next
  case (3 v)
  then show ?case by (subst merge_loop.simps) auto
qed

lemma moveRowLeft_eq:
  assumes "length row = SIZE"
  shows "moveRowLeft row score =
    (let (ts, n) = slide (filter (\<lambda>v. v \<noteq> 0) row);
         row' = ts @ replicate (SIZE - length ts) 0
     in (row' \<noteq> row, row', score + n))"
proof -
  let ?ts = "filter (\<lambda>v. v \<noteq> 0) row"
  obtain us n where s: "slide ?ts = (us, n)" by (cases "slide ?ts")
  have le: "length us \<le> length ?ts" using length_slide [of ?ts] s by simp
  have lt: "length ?ts \<le> SIZE" using assms length_filter_le [of "\<lambda>v. v \<noteq> 0" row] by simp
  have sum: "sum_list us = sum_list ?ts" using sum_slide [of ?ts] s by simp
  have "SIZE - length ?ts + length ?ts - length us = SIZE - length us" using lt by simp
  then have m: "merge_loop 0 (length ?ts) (?ts @ replicate (SIZE - length ?ts) 0) score False
      = (us @ replicate (SIZE - length us) 0, score + n, length us < length ?ts)"
    using merge_loop_slide [of "[]" ?ts ?ts "SIZE - length ?ts" score False] s by simp
  have "us @ replicate (SIZE - length us) 0 \<noteq> row" if "length us < length ?ts"
  proof
    assume e: "us @ replicate (SIZE - length us) 0 = row"
    have "?ts = filter (\<lambda>v. v \<noteq> 0) (us @ replicate (SIZE - length us) 0)" by (simp only: e)
    then have "?ts = filter (\<lambda>v. v \<noteq> 0) us" by (simp only: filter_append filter_replicate) simp
    then have "length ?ts \<le> length us" by (simp only: length_filter_le)
    with that show False by linarith
  qed
  then have "(length us < length ?ts \<or> row \<noteq> us @ replicate (SIZE - length us) 0)
      \<longleftrightarrow> us @ replicate (SIZE - length us) 0 \<noteq> row" by blast
  then show ?thesis unfolding moveRowLeft_def Let_def m s prod.case by (simp only: prod.inject)
qed

text \<open>
  C8: the move of a row, with its array and in-place shifts, is the recursive merge of its tiles,
  padded with empty cells; it adds the merged tiles to the score and reports a change exactly when
  the row is another one.
\<close>

theorem moveRowLeft_slide:
  assumes "length row = SIZE"
  shows "moveRowLeft row score =
    (let (ts, n) = slide (filter (\<lambda>v. v \<noteq> 0) row);
         row' = ts @ replicate (SIZE - length ts) 0
     in (row' \<noteq> row, row', score + n))"
  using assms by (rule moveRowLeft_eq)

theorem moveRowLeft_slide_witness:
  "moveRowLeft [2, 2, 4, 4] 10 = (True, [4, 8, 0, 0], 22)"
  by (subst moveRowLeft_slide) (simp_all add: numeral_2_eq_2)

subsection \<open>Well-formed boards\<close>

definition tile :: "int \<Rightarrow> bool" where
  "tile v \<longleftrightarrow> v = 0 \<or> (\<exists>k>0. v = 2 ^ k)"

definition row_ok :: "int list \<Rightarrow> bool" where
  "row_ok r \<longleftrightarrow> length r = SIZE \<and> (\<forall>v\<in>set r. tile v)"

definition board_ok :: "int list list \<Rightarrow> bool" where
  "board_ok b \<longleftrightarrow> length b = SIZE \<and> (\<forall>r\<in>set b. row_ok r)"

definition board_sum :: "int list list \<Rightarrow> int" where
  "board_sum b = sum_list (map sum_list b)"

lemma tile_0 [simp]: "tile 0" by (simp add: tile_def)

lemma tile_pos: "tile v \<Longrightarrow> v \<noteq> 0 \<Longrightarrow> 0 < v" by (auto simp: tile_def)

lemma tile_double: "tile v \<Longrightarrow> tile (v * 2)"
  unfolding tile_def by (metis mult_eq_0_iff power_Suc2 zero_less_Suc)

lemma slide_tiles:
  "\<forall>v\<in>set xs. tile v \<and> v \<noteq> 0 \<Longrightarrow> \<forall>v\<in>set (fst (slide xs)). tile v \<and> v \<noteq> 0"
  by (induction xs rule: slide.induct) (auto split: prod.splits intro: tile_double)

lemma slide_points: "\<forall>v\<in>set xs. tile v \<and> v \<noteq> 0 \<Longrightarrow> 0 \<le> snd (slide xs)"
  by (induction xs rule: slide.induct) (auto split: prod.splits dest: tile_pos)

lemma sum_filter_nonzero: "sum_list (filter (\<lambda>v. v \<noteq> (0 :: int)) xs) = sum_list xs"
  by (induction xs) auto

text \<open>What the move of a row promises to the move of a board.\<close>

locale row_move =
  fixes mv :: "int list \<Rightarrow> int \<Rightarrow> bool \<times> int list \<times> int"
  assumes mv_ok: "row_ok r \<Longrightarrow> mv r s = (c, r', s') \<Longrightarrow>
      row_ok r' \<and> sum_list r' = sum_list r \<and> s \<le> s' \<and> (c \<longleftrightarrow> r' \<noteq> r) \<and> (\<not> c \<longrightarrow> s' = s)
      \<and> (c \<longrightarrow> 0 \<in> set r')"
begin

lemma rows_ok:
  assumes "\<forall>r\<in>set b. row_ok r" and "move_rows mv b s = (c, b', s')"
  shows "(\<forall>r\<in>set b'. row_ok r) \<and> length b' = length b \<and> board_sum b' = board_sum b \<and> s \<le> s'
    \<and> (c \<longleftrightarrow> b' \<noteq> b) \<and> (\<not> c \<longrightarrow> s' = s) \<and> (c \<longrightarrow> (\<exists>r\<in>set b'. 0 \<in> set r))"
  using assms
proof (induction b arbitrary: s c b' s')
  case Nil
  then show ?case by (simp add: board_sum_def)
next
  case (Cons r b)
  obtain c1 r1 s1 where 1: "mv r s = (c1, r1, s1)" by (cases "mv r s")
  obtain c2 b2 s2 where 2: "move_rows mv b s1 = (c2, b2, s2)" by (cases "move_rows mv b s1")
  from mv_ok [OF _ 1] Cons.IH [OF _ 2] Cons.prems 1 2 show ?case
    by (auto simp: board_sum_def)
qed

end

lemma moveRowLeft_ok:
  assumes "row_ok r" and "moveRowLeft r s = (c, r', s')"
  shows "row_ok r' \<and> sum_list r' = sum_list r \<and> s \<le> s' \<and> (c \<longleftrightarrow> r' \<noteq> r) \<and> (\<not> c \<longrightarrow> s' = s)
    \<and> (c \<longrightarrow> 0 \<in> set r')"
proof -
  let ?ts = "filter (\<lambda>v. v \<noteq> 0) r"
  obtain us n where u: "slide ?ts = (us, n)" by (cases "slide ?ts")
  have len: "length r = SIZE" and tiles: "\<forall>v\<in>set ?ts. tile v \<and> v \<noteq> 0"
    using assms(1) by (auto simp: row_ok_def)
  have e: "c \<longleftrightarrow> r' \<noteq> r" "r' = us @ replicate (SIZE - length us) 0" "s' = s + n"
    using moveRowLeft_eq [OF len, of s] assms(2) u by (auto simp: Let_def)
  have le: "length us \<le> length ?ts" "length ?ts \<le> SIZE"
    using length_slide [of ?ts] u len length_filter_le [of "\<lambda>v. v \<noteq> 0" r] by simp_all
  have us: "\<forall>v\<in>set us. tile v \<and> v \<noteq> 0" "0 \<le> n" using slide_tiles [OF tiles] slide_points [OF tiles] u by simp_all
  have sum: "sum_list us = sum_list r"
    using sum_slide [of ?ts] sum_filter_nonzero [of r] u by simp
  have same: "us = ?ts \<and> n = 0" if "length us = length ?ts"
    using that slide_pair [of ?ts] slide_no_pair [of ?ts] u by (cases "no_pair ?ts") auto
  have fixed: "n = 0" if "r' = r"
  proof -
    have "filter (\<lambda>v. v \<noteq> 0) r' = us" unfolding e(2) using us(1) by (simp add: filter_id_conv)
    with that have "us = ?ts" by simp
    with same show ?thesis by simp
  qed
  have zero: "0 \<in> set r'" if "r' \<noteq> r"
  proof (rule ccontr)
    assume "0 \<notin> set r'"
    then have l: "length us = SIZE" using e(2) le by (cases "SIZE - length us") auto
    then have f: "length ?ts = SIZE" "us = ?ts" using le same by auto
    then have "?ts = r" using len by (metis filter_True filter_id_conv length_filter_less less_irrefl)
    with e(2) f l that show False by simp
  qed
  show ?thesis
    using e us le len sum fixed zero by (auto simp: row_ok_def sum_list_replicate)
qed

interpretation left: row_move moveRowLeft
  by unfold_locales (rule moveRowLeft_ok)

interpretation right: row_move move_row_right
proof
  fix r s c r' s'
  assume ok: "row_ok r" and mv: "move_row_right r s = (c, r', s')"
  obtain r1 where 1: "moveRowLeft (reverseRow r) s = (c, r1, s')" "r' = reverseRow r1"
    using mv by (auto simp: move_row_right_def split: prod.splits)
  have "row_ok (reverseRow r)" using ok by (simp add: row_ok_def reverseRow_def)
  from moveRowLeft_ok [OF this 1(1)] 1(2)
  show "row_ok r' \<and> sum_list r' = sum_list r \<and> s \<le> s' \<and> (c \<longleftrightarrow> r' \<noteq> r) \<and> (\<not> c \<longrightarrow> s' = s)
      \<and> (c \<longrightarrow> 0 \<in> set r')"
    by (auto simp: reverseRow_def row_ok_def sum_list_rev)
qed

subsection \<open>The transposed board\<close>

lemma set_cells: "p \<in> set cells \<longleftrightarrow> fst p < SIZE \<and> snd p < SIZE"
  by (cases p) (auto simp: cells_def)

lemma board_okI:
  assumes "length b = SIZE" and "\<And>i. i < SIZE \<Longrightarrow> length (b ! i) = SIZE"
    and "\<And>i j. i < SIZE \<Longrightarrow> j < SIZE \<Longrightarrow> tile (cell b (i, j))"
  shows "board_ok b"
  using assms by (fastforce simp: board_ok_def row_ok_def cell_def in_set_conv_nth)

lemma board_okD:
  assumes "board_ok b"
  shows "length b = SIZE" and "i < SIZE \<Longrightarrow> length (b ! i) = SIZE"
    and "i < SIZE \<Longrightarrow> j < SIZE \<Longrightarrow> tile (cell b (i, j))"
proof -
  have r: "b ! i \<in> set b" if "i < SIZE" for i using assms that by (simp add: board_ok_def)
  show "length b = SIZE" "i < SIZE \<Longrightarrow> length (b ! i) = SIZE"
    using assms r by (simp_all add: board_ok_def row_ok_def)
  show "i < SIZE \<Longrightarrow> j < SIZE \<Longrightarrow> tile (cell b (i, j))"
    using assms r nth_mem [of j "b ! i"] unfolding board_ok_def row_ok_def cell_def by fastforce
qed

lemma length_transpose [simp]: "length (transpose_board b) = SIZE"
  by (simp add: transpose_board_def)

lemma cell_transpose [simp]: "i < SIZE \<Longrightarrow> j < SIZE \<Longrightarrow> cell (transpose_board b) (i, j) = cell b (j, i)"
  by (simp add: transpose_board_def cell_def)

lemma transpose_ok: "board_ok b \<Longrightarrow> board_ok (transpose_board b)"
proof (rule board_okI)
  fix i assume "i < SIZE"
  then show "length (transpose_board b ! i) = SIZE" by (simp add: transpose_board_def)
qed (auto dest: board_okD)

lemma board_eqI:
  assumes "board_ok b" and "board_ok b'"
    and "\<And>i j. i < SIZE \<Longrightarrow> j < SIZE \<Longrightarrow> cell b (i, j) = cell b' (i, j)"
  shows "b = b'"
  using assms by (intro nth_equalityI) (auto simp: board_okD cell_def intro!: nth_equalityI)

lemma transpose_transpose: "board_ok b \<Longrightarrow> transpose_board (transpose_board b) = b"
  by (rule board_eqI) (auto intro: transpose_ok)

lemma transpose_inj: "board_ok b \<Longrightarrow> board_ok b' \<Longrightarrow> transpose_board b = transpose_board b' \<Longrightarrow> b = b'"
  by (metis transpose_transpose)

lemma board_sum_cells: "board_ok b \<Longrightarrow> board_sum b = (\<Sum>i<SIZE. \<Sum>j<SIZE. cell b (i, j))"
  by (simp add: board_sum_def sum_list_sum_nth board_okD cell_def atLeast0LessThan)

lemma board_sum_transpose:
  assumes "board_ok b"
  shows "board_sum (transpose_board b) = board_sum b"
proof -
  have "board_sum (transpose_board b) = (\<Sum>i<SIZE. \<Sum>j<SIZE. cell b (j, i))"
    using board_sum_cells [OF transpose_ok [OF assms]] by simp
  also have "\<dots> = (\<Sum>j<SIZE. \<Sum>i<SIZE. cell b (j, i))" by (rule sum.swap)
  also have "\<dots> = board_sum b" using board_sum_cells [OF assms] by simp
  finally show ?thesis .
qed

text \<open>The two tests read the board as a set of cells and of neighbours.\<close>

lemma gameCheckWin_iff: "gameCheckWin st \<longleftrightarrow> (\<exists>i<SIZE. \<exists>j<SIZE. cell (g_board st) (i, j) = TARGET)"
  unfolding gameCheckWin_def list_ex_iff Bex_def set_cells split_paired_Ex fst_conv snd_conv by blast

lemma gameCanMove_iff:
  "gameCanMove st \<longleftrightarrow> (\<exists>i<SIZE. \<exists>j<SIZE. cell (g_board st) (i, j) = 0)
     \<or> (\<exists>i<SIZE. \<exists>j. Suc j < SIZE \<and> cell (g_board st) (i, j) = cell (g_board st) (i, Suc j))
     \<or> (\<exists>i<SIZE. \<exists>j. Suc j < SIZE \<and> cell (g_board st) (j, i) = cell (g_board st) (Suc j, i))"
proof -
  have "list_ex (\<lambda>p. cell b p = 0) cells \<longleftrightarrow> (\<exists>i<SIZE. \<exists>j<SIZE. cell b (i, j) = 0)" for b
    unfolding list_ex_iff Bex_def set_cells split_paired_Ex fst_conv snd_conv by blast
  then show ?thesis
    by (simp add: gameCanMove_def Let_def list_ex_iff Bex_def less_diff_conv conj_commute)
qed

lemma tests_transpose:
  "gameCheckWin (st\<lparr>g_board := transpose_board b\<rparr>) = gameCheckWin (st\<lparr>g_board := b\<rparr>)"
  "gameCheckGameOver (st\<lparr>g_board := transpose_board b\<rparr>) = gameCheckGameOver (st\<lparr>g_board := b\<rparr>)"
proof -
  let ?t = "transpose_board b"
  have swap: "(\<exists>i<SIZE. \<exists>j<SIZE. cell ?t (i, j) = v) \<longleftrightarrow> (\<exists>i<SIZE. \<exists>j<SIZE. cell b (i, j) = v)" for v
    by (metis cell_transpose)
  then show "gameCheckWin (st\<lparr>g_board := ?t\<rparr>) = gameCheckWin (st\<lparr>g_board := b\<rparr>)"
    by (simp add: gameCheckWin_iff)
  have pairs: "(\<exists>i<SIZE. \<exists>j. Suc j < SIZE \<and> cell ?t (i, j) = cell ?t (i, Suc j))
      \<longleftrightarrow> (\<exists>i<SIZE. \<exists>j. Suc j < SIZE \<and> cell b (j, i) = cell b (Suc j, i))"
    "(\<exists>i<SIZE. \<exists>j. Suc j < SIZE \<and> cell ?t (j, i) = cell ?t (Suc j, i))
      \<longleftrightarrow> (\<exists>i<SIZE. \<exists>j. Suc j < SIZE \<and> cell b (i, j) = cell b (i, Suc j))"
    by (metis cell_transpose Suc_lessD)+
  have g: "g_board (st\<lparr>g_board := x\<rparr>) = x" for x by simp
  show "gameCheckGameOver (st\<lparr>g_board := ?t\<rparr>) = gameCheckGameOver (st\<lparr>g_board := b\<rparr>)"
    unfolding gameCheckGameOver_def gameCanMove_iff g swap pairs by blast
qed

subsection \<open>A new tile keeps the board well-formed\<close>

lemma nth_empty_Some:
  "target < length (filter (\<lambda>p. cell b p = 0) ps) \<Longrightarrow>
     nth_empty b ps target = Some (filter (\<lambda>p. cell b p = 0) ps ! target)"
  by (induction b ps target rule: nth_empty.induct) (auto simp: nth_Cons')

lemma cell_set_cell:
  "fst p < length b \<Longrightarrow> snd p < length (b ! fst p) \<Longrightarrow>
     cell (set_cell p v b) (i, j) = (if p = (i, j) then v else cell b (i, j))"
  by (cases p) (auto simp: cell_def set_cell_def nth_list_update)

lemma sum_list_int_update: "j < length xs \<Longrightarrow> sum_list (xs[j := v]) = sum_list xs + v - (xs ! j :: int)"
  by (induction xs arbitrary: j) (auto split: nat.splits)

lemma set_cell_ok:
  assumes "board_ok b" and "p \<in> set cells" and "cell b p = 0" and "tile v"
  shows "board_ok (set_cell p v b) \<and> board_sum (set_cell p v b) = board_sum b + v"
proof -
  obtain i j where p: "p = (i, j)" "i < SIZE" "j < SIZE" using assms(2) unfolding set_cells by (cases p) simp
  note b = board_okD [OF assms(1)]
  have ok: "board_ok (set_cell p v b)"
  proof (rule board_okI)
    show "length (set_cell p v b) = SIZE" using b by (simp add: set_cell_def)
    show "\<And>k. k < SIZE \<Longrightarrow> length (set_cell p v b ! k) = SIZE"
      using b p by (auto simp: set_cell_def nth_list_update)
    show "\<And>k l. k < SIZE \<Longrightarrow> l < SIZE \<Longrightarrow> tile (cell (set_cell p v b) (k, l))"
      using b p assms(4) by (simp add: cell_set_cell)
  qed
  have row: "length (b ! i) = SIZE" "i < length b" using b p by simp_all
  have "sum_list ((b ! i)[j := v]) = sum_list (b ! i) + v"
    using assms(3) p row by (simp add: sum_list_int_update cell_def)
  then have "board_sum (set_cell p v b) = board_sum b + v"
    using p row by (simp add: board_sum_def set_cell_def map_update sum_list_int_update)
  with ok show ?thesis by blast
qed

lemma gameAddRandomTile_ok:
  assumes "board_ok (g_board st)" and "\<exists>r\<in>set (g_board st). 0 \<in> set r"
  shows "\<exists>v\<in>{2, 4}. \<exists>b. gameAddRandomTile r1 r2 st = (True, st\<lparr>g_board := b\<rparr>) \<and> board_ok b
    \<and> board_sum b = board_sum (g_board st) + v"
proof -
  let ?e = "filter (\<lambda>p. cell (g_board st) p = 0) cells"
  obtain i j where "i < SIZE" "j < SIZE" "cell (g_board st) (i, j) = 0"
    using assms by (auto simp: board_okD cell_def in_set_conv_nth)
  then have "(i, j) \<in> set ?e" by (simp add: set_cells)
  then have ne: "0 < length ?e" by (metis length_pos_if_in_set)
  then have lt: "r1 mod length ?e < length ?e" by simp
  let ?p = "?e ! (r1 mod length ?e)"
  have p: "?p \<in> set cells" "cell (g_board st) ?p = 0" using nth_mem [OF lt] by simp_all
  have two: "tile 2" "tile 4" by (auto simp: tile_def intro: exI [of _ 1] exI [of _ 2])
  have add: "gameAddRandomTile r1 r2 st
      = (True, st\<lparr>g_board := set_cell ?p (if r2 mod 10 < 9 then 2 else 4) (g_board st)\<rparr>)"
    using ne nth_empty_Some [OF lt] by (simp add: gameAddRandomTile_def Let_def)
  show ?thesis
    using add set_cell_ok [OF assms(1) p two(1)] set_cell_ok [OF assms(1) p two(2)]
    by (cases "r2 mod 10 < 9") auto
qed

subsection \<open>The moves of the board\<close>

text \<open>What every move keeps, and what it does to the sum of the tiles and to the flags.\<close>

definition move_ok :: "GameState \<Rightarrow> bool \<Rightarrow> GameState \<Rightarrow> bool" where
  "move_ok st c st' \<longleftrightarrow> board_ok (g_board st') \<and> g_score st \<le> g_score st' \<and> (\<not> c \<longrightarrow> st' = st)
     \<and> (c \<longrightarrow> board_sum (g_board st') - board_sum (g_board st) \<in> {2, 4}
          \<and> g_win st' = gameCheckWin st' \<and> g_gameOver st' = gameCheckGameOver st')"

lemma test_flags [simp]:
  "gameCheckWin (st\<lparr>g_win := w\<rparr>) = gameCheckWin st" "gameCheckWin (st\<lparr>g_gameOver := w\<rparr>) = gameCheckWin st"
  "gameCheckGameOver (st\<lparr>g_win := w\<rparr>) = gameCheckGameOver st"
  "gameCheckGameOver (st\<lparr>g_gameOver := w\<rparr>) = gameCheckGameOver st"
  by (simp_all add: gameCheckWin_def gameCheckGameOver_def gameCanMove_def)

context row_move
begin

lemma board_move_ok:
  assumes "board_ok (g_board st)"
    and "after_move r1 r2 (move_rows mv (g_board st) (g_score st)) st = (c, st')"
  shows "move_ok st c st'"
proof -
  obtain ch b s where m: "move_rows mv (g_board st) (g_score st) = (ch, b, s)"
    by (cases "move_rows mv (g_board st) (g_score st)")
  have rows: "\<forall>r\<in>set (g_board st). row_ok r" using assms(1) by (simp add: board_ok_def)
  note r = rows_ok [OF rows m]
  have ok: "board_ok b" using r assms(1) by (simp add: board_ok_def)
  show ?thesis
  proof (cases ch)
    case False
    then show ?thesis using assms m r by (simp add: after_move_def move_ok_def)
  next
    case True
    let ?st = "st\<lparr>g_board := b, g_score := s\<rparr>"
    have "\<exists>r\<in>set (g_board ?st). 0 \<in> set r" using True r by simp
    from gameAddRandomTile_ok [of ?st, OF _ this, of r1 r2] ok
    obtain v b' where a: "v \<in> {2, 4}" "gameAddRandomTile r1 r2 ?st = (True, ?st\<lparr>g_board := b'\<rparr>)"
      "board_ok b'" "board_sum b' = board_sum b + v" by auto
    have "c" "st' = ?st\<lparr>g_board := b', g_win := gameCheckWin (?st\<lparr>g_board := b'\<rparr>),
        g_gameOver := gameCheckGameOver (?st\<lparr>g_board := b'\<rparr>)\<rparr>"
      using assms(2) m True a(2) by (simp_all add: after_move_def Let_def)
    then show ?thesis using a r by (auto simp: move_ok_def)
  qed
qed

end

lemma gameMoveLeft_ok:
  "board_ok (g_board st) \<Longrightarrow> gameMoveLeft r1 r2 st = (c, st') \<Longrightarrow> move_ok st c st'"
  unfolding gameMoveLeft_def by (rule left.board_move_ok)

lemma gameMoveRight_ok:
  "board_ok (g_board st) \<Longrightarrow> gameMoveRight r1 r2 st = (c, st') \<Longrightarrow> move_ok st c st'"
  unfolding gameMoveRight_def by (rule right.board_move_ok)

text \<open>A move of the transposed board, transposed back.\<close>

lemma transposed_move_ok:
  assumes "board_ok (g_board st)" and "move_ok (st\<lparr>g_board := transpose_board (g_board st)\<rparr>) c st1"
  shows "move_ok st c (st1\<lparr>g_board := transpose_board (g_board st1)\<rparr>)"
proof -
  have s1: "st1\<lparr>g_board := g_board st1\<rparr> = st1" by simp
  have "board_ok (g_board st1)" using assms(2) by (simp add: move_ok_def)
  then show ?thesis
    using assms transpose_transpose [OF assms(1)] board_sum_transpose tests_transpose [where st = st1 and b = "g_board st1"]
    by (auto simp: move_ok_def transpose_ok)
qed

lemma all_moves_ok:
  assumes "board_ok (g_board st)"
  shows "gameMoveLeft r1 r2 st = (c, st') \<Longrightarrow> move_ok st c st'"
    and "gameMoveRight r1 r2 st = (c, st') \<Longrightarrow> move_ok st c st'"
    and "gameMoveUp r1 r2 st = (c, st') \<Longrightarrow> move_ok st c st'"
    and "gameMoveDown r1 r2 st = (c, st') \<Longrightarrow> move_ok st c st'"
proof -
  let ?t = "st\<lparr>g_board := transpose_board (g_board st)\<rparr>"
  have t: "board_ok (g_board ?t)" using transpose_ok [OF assms] by simp
  show "gameMoveLeft r1 r2 st = (c, st') \<Longrightarrow> move_ok st c st'" by (rule gameMoveLeft_ok [OF assms])
  show "gameMoveRight r1 r2 st = (c, st') \<Longrightarrow> move_ok st c st'" by (rule gameMoveRight_ok [OF assms])
  show "gameMoveUp r1 r2 st = (c, st') \<Longrightarrow> move_ok st c st'"
    using gameMoveLeft_ok [OF t] transposed_move_ok [OF assms]
    by (auto simp: gameMoveUp_def split: prod.splits)
  show "gameMoveDown r1 r2 st = (c, st') \<Longrightarrow> move_ok st c st'"
    using gameMoveRight_ok [OF t] transposed_move_ok [OF assms]
    by (auto simp: gameMoveDown_def split: prod.splits)
qed

text \<open>
  C29: each of the four moves keeps the board a square of powers of two and empty cells; one that
  changes nothing leaves the state alone, any other adds exactly a tile of 2 or 4 to the sum of the
  board, never takes points away, and sets the two flags for the board it leaves.
\<close>

theorem moves_keep_board:
  assumes "board_ok (g_board st)"
    and "mv = gameMoveLeft \<or> mv = gameMoveRight \<or> mv = gameMoveUp \<or> mv = gameMoveDown"
    and "mv r1 r2 st = (c, st')"
  shows "board_ok (g_board st') \<and> g_score st \<le> g_score st' \<and> (\<not> c \<longrightarrow> st' = st)
    \<and> (c \<longrightarrow> board_sum (g_board st') - board_sum (g_board st) \<in> {2, 4}
          \<and> g_win st' = gameCheckWin st' \<and> g_gameOver st' = gameCheckGameOver st')"
  using all_moves_ok [OF assms(1), of r1 r2 c st'] assms(2,3) unfolding move_ok_def by blast

definition sample_board :: "int list list" where
  "sample_board = [[2, 2, 0, 0], [4, 0, 0, 4], [0, 8, 0, 0], [2, 4, 8, 16]]"

lemma sample_board: "board_ok sample_board"
proof -
  have "tile 2" "tile 4" "tile 8" "tile 16"
    by (auto simp: tile_def intro: exI [of _ 1] exI [of _ 2] exI [of _ 3] exI [of _ 4])
  then show ?thesis by (simp add: sample_board_def board_ok_def row_ok_def)
qed

theorem moves_keep_board_witness:
  "\<exists>st'. gameMoveLeft 0 0 \<lparr>g_board = sample_board, g_score = 0, g_gameOver = False, g_win = False\<rparr>
      = (True, st') \<and> board_ok (g_board st') \<and> board_sum (g_board st') - board_sum sample_board \<in> {2, 4}"
proof -
  let ?st = "\<lparr>g_board = sample_board, g_score = 0, g_gameOver = False, g_win = False\<rparr>"
  have "fst (gameMoveLeft 0 0 ?st)"
    by (simp add: gameMoveLeft_def after_move_def sample_board_def moveRowLeft_eq Let_def split: prod.splits)
  then obtain st' where "gameMoveLeft 0 0 ?st = (True, st')" by (cases "gameMoveLeft 0 0 ?st") auto
  with moves_keep_board [of ?st gameMoveLeft 0 0 True st'] sample_board show ?thesis by simp
qed

subsection \<open>The end of the game\<close>

text \<open>The rows that a move to the left leaves as they are.\<close>

definition still :: "int list \<Rightarrow> bool" where
  "still r \<longleftrightarrow> (let ts = fst (slide (filter (\<lambda>v. v \<noteq> 0) r)) in ts @ replicate (SIZE - length ts) 0 = r)"

lemma moveRowLeft_still: "length r = SIZE \<Longrightarrow> fst (moveRowLeft r s) \<longleftrightarrow> \<not> still r"
  by (simp add: moveRowLeft_eq still_def Let_def split: prod.splits)

lemma rows_still:
  assumes "\<And>r s. r \<in> set b \<Longrightarrow> fst (mv r s) \<longleftrightarrow> \<not> P r"
  shows "fst (move_rows mv b s) \<longleftrightarrow> (\<exists>r\<in>set b. \<not> P r)"
  using assms
proof (induction b arbitrary: s)
  case (Cons r b)
  then have "fst (mv r s) \<longleftrightarrow> \<not> P r" by simp
  moreover have "\<And>s. fst (move_rows mv b s) \<longleftrightarrow> (\<exists>r\<in>set b. \<not> P r)" using Cons by simp
  ultimately show ?case by (simp add: case_prod_beta)
qed simp

lemma fst_after_move: "fst (after_move r1 r2 res st) = fst res"
  by (simp add: after_move_def Let_def split: prod.splits)

lemma changed_still:
  assumes "board_ok (g_board st)"
  shows "fst (gameMoveLeft r1 r2 st) \<longleftrightarrow> (\<exists>r\<in>set (g_board st). \<not> still r)"
    and "fst (gameMoveRight r1 r2 st) \<longleftrightarrow> (\<exists>r\<in>set (g_board st). \<not> still (rev r))"
proof -
  have len: "length r = SIZE" if "r \<in> set (g_board st)" for r
    using assms that by (simp add: board_ok_def row_ok_def)
  show "fst (gameMoveLeft r1 r2 st) \<longleftrightarrow> (\<exists>r\<in>set (g_board st). \<not> still r)"
    unfolding gameMoveLeft_def fst_after_move by (intro rows_still moveRowLeft_still len)
  show "fst (gameMoveRight r1 r2 st) \<longleftrightarrow> (\<exists>r\<in>set (g_board st). \<not> still (rev r))"
    unfolding gameMoveRight_def fst_after_move
  proof (intro rows_still)
    fix r s assume "r \<in> set (g_board st)"
    then have "length (rev r) = SIZE" by (simp add: len)
    from moveRowLeft_still [OF this, of s]
    show "fst (move_row_right r s) \<longleftrightarrow> \<not> still (rev r)"
      by (simp add: move_row_right_def reverseRow_def case_prod_beta)
  qed
qed

lemma still_full:
  assumes "0 \<notin> set r" and "length r = SIZE"
  shows "still r \<longleftrightarrow> no_pair r"
proof -
  have f: "filter (\<lambda>v. v \<noteq> 0) r = r" using assms(1) by (metis (mono_tags, lifting) filter_True)
  show ?thesis
  proof (cases "no_pair r")
    case True
    then show ?thesis using slide_no_pair [OF True] f assms(2) by (simp add: still_def)
  next
    case False
    then have "0 < SIZE - length (fst (slide r))" using slide_pair [OF False] assms(2) by simp
    then have "0 \<in> set (fst (slide r) @ replicate (SIZE - length (fst (slide r))) 0)" by simp
    with assms(1) have "fst (slide r) @ replicate (SIZE - length (fst (slide r))) 0 \<noteq> r" by metis
    then show ?thesis using False f by (simp add: still_def Let_def)
  qed
qed

lemma still_last:
  assumes "still r" and "0 \<in> set r" and "row_ok r"
  shows "last r = 0"
proof -
  define us where "us = fst (slide (filter (\<lambda>v. v \<noteq> 0) r))"
  have r: "us @ replicate (SIZE - length us) 0 = r" using assms(1) by (simp add: still_def us_def Let_def)
  have us: "\<forall>v\<in>set us. tile v \<and> v \<noteq> 0"
    unfolding us_def using assms(3) by (intro slide_tiles) (auto simp: row_ok_def)
  have "0 < SIZE - length us"
  proof (rule ccontr)
    assume "\<not> ?thesis"
    then have "us = r" using r by simp
    with us assms(2) show False by auto
  qed
  then have "last (us @ replicate (SIZE - length us) 0) = 0" by (simp only: last_append last_replicate) simp
  then show ?thesis unfolding r .
qed

lemma still_both:
  assumes "still r" and "still (rev r)" and "0 \<in> set r" and "row_ok r" and "v \<in> set r"
  shows "v = 0"
proof -
  define us where "us = fst (slide (filter (\<lambda>v. v \<noteq> 0) r))"
  have r: "us @ replicate (SIZE - length us) 0 = r" using assms(1) by (simp add: still_def us_def Let_def)
  have us: "\<forall>v\<in>set us. v \<noteq> 0"
  proof -
    have "\<forall>v\<in>set (filter (\<lambda>v. v \<noteq> 0) r). tile v \<and> v \<noteq> 0" using assms(4) by (simp add: row_ok_def)
    from slide_tiles [OF this] show ?thesis unfolding us_def by blast
  qed
  have ne: "r \<noteq> []" using assms(3) by auto
  have "row_ok (rev r)" using assms(4) by (simp add: row_ok_def)
  from still_last [OF assms(2) _ this] assms(3) ne have "hd r = 0" by (simp add: last_rev)
  have "us = []"
  proof (rule ccontr)
    assume "us \<noteq> []"
    then have "hd r = hd us" using hd_append2 r by metis
    with us \<open>us \<noteq> []\<close> \<open>hd r = 0\<close> show False by (metis hd_in_set)
  qed
  then have "replicate SIZE 0 = r" using r by simp
  with assms(5) show ?thesis by auto
qed

lemma no_pair_rev: "no_pair (rev r) \<longleftrightarrow> no_pair r"
proof -
  have "no_pair (rev r)" if "no_pair r" for r
    unfolding no_pair_def
  proof (intro allI impI)
    fix i assume i: "Suc i < length (rev r)"
    then have "r ! (length r - Suc (Suc i)) \<noteq> r ! Suc (length r - Suc (Suc i))"
      using that by (simp add: no_pair_def)
    moreover have "Suc (length r - Suc (Suc i)) = length r - Suc i" using i by simp
    ultimately show "rev r ! i \<noteq> rev r ! Suc i" using i by (simp add: rev_nth)
  qed
  from this [of r] this [of "rev r"] show ?thesis by auto
qed

lemma row_cells: "board_ok b \<Longrightarrow> i < SIZE \<Longrightarrow> set (b ! i) = (\<lambda>j. cell b (i, j)) ` {..<SIZE}"
  by (auto simp: set_conv_nth board_okD cell_def)

text \<open>A full board whose rows all stand still has no equal neighbours in a row, and conversely.\<close>

lemma full_still:
  assumes "board_ok b" and "\<forall>i<SIZE. \<forall>j<SIZE. cell b (i, j) \<noteq> 0"
  shows "(\<forall>r\<in>set b. still r) \<longleftrightarrow> (\<forall>i<SIZE. \<forall>j. Suc j < SIZE \<longrightarrow> cell b (i, j) \<noteq> cell b (i, Suc j))"
    and "(\<forall>r\<in>set b. still (rev r)) \<longleftrightarrow> (\<forall>r\<in>set b. still r)"
proof -
  have r: "r \<in> set b \<longleftrightarrow> (\<exists>i<SIZE. r = b ! i)" for r
    using assms(1) by (auto simp: in_set_conv_nth board_okD)
  have z: "0 \<notin> set (b ! i)" "length (b ! i) = SIZE" if "i < SIZE" for i
    using assms that row_cells [OF assms(1) that] by (auto simp: board_okD)
  have s: "still (b ! i) \<longleftrightarrow> no_pair (b ! i)" "still (rev (b ! i)) \<longleftrightarrow> no_pair (b ! i)" if "i < SIZE" for i
    using z [OF that] still_full no_pair_rev by auto
  show "(\<forall>r\<in>set b. still r) \<longleftrightarrow> (\<forall>i<SIZE. \<forall>j. Suc j < SIZE \<longrightarrow> cell b (i, j) \<noteq> cell b (i, Suc j))"
  proof -
    have "(\<forall>r\<in>set b. still r) \<longleftrightarrow> (\<forall>i<SIZE. no_pair (b ! i))" using r s(1) by metis
    then show ?thesis using z(2) by (simp add: no_pair_def cell_def)
  qed
  show "(\<forall>r\<in>set b. still (rev r)) \<longleftrightarrow> (\<forall>r\<in>set b. still r)"
    using s r by metis
qed

text \<open>An empty cell lets a move happen unless the whole board is empty.\<close>

lemma still_empty_row:
  assumes "board_ok b" and "\<forall>r\<in>set b. still r \<and> still (rev r)"
    and "i < SIZE" and "j < SIZE" and "cell b (i, j) = 0" and "k < SIZE"
  shows "cell b (i, k) = 0"
proof -
  have m: "b ! i \<in> set b" using assms(1,3) by (simp add: board_okD)
  have "0 \<in> set (b ! i)" "cell b (i, k) \<in> set (b ! i)"
    using row_cells [OF assms(1,3)] assms(4-6) by (auto simp: image_iff)
  with still_both [of "b ! i"] assms(1,2) m show ?thesis by (simp add: board_ok_def)
qed

lemma gameOver_iff_still:
  assumes "board_ok (g_board st)" and "\<exists>i<SIZE. \<exists>j<SIZE. cell (g_board st) (i, j) \<noteq> 0"
  shows "gameCheckGameOver st \<longleftrightarrow> (\<forall>r\<in>set (g_board st). still r \<and> still (rev r))
    \<and> (\<forall>r\<in>set (transpose_board (g_board st)). still r \<and> still (rev r))"
    (is "_ \<longleftrightarrow> ?rows \<and> ?cols")
proof -
  let ?b = "g_board st" and ?t = "transpose_board (g_board st)"
  have t: "board_ok ?t" by (rule transpose_ok [OF assms(1)])
  show ?thesis
  proof (cases "\<forall>i<SIZE. \<forall>j<SIZE. cell ?b (i, j) \<noteq> 0")
    case full: True
    then have full': "\<forall>i<SIZE. \<forall>j<SIZE. cell ?t (i, j) \<noteq> 0" by simp
    have "?cols \<longleftrightarrow> (\<forall>i<SIZE. \<forall>j. Suc j < SIZE \<longrightarrow> cell ?b (j, i) \<noteq> cell ?b (Suc j, i))"
      using full_still [OF t full'] by auto
    moreover have "?rows \<longleftrightarrow> (\<forall>i<SIZE. \<forall>j. Suc j < SIZE \<longrightarrow> cell ?b (i, j) \<noteq> cell ?b (i, Suc j))"
      using full_still [OF assms(1) full] by auto
    ultimately show ?thesis
      using full unfolding gameCheckGameOver_def gameCanMove_iff by blast
  next
    case False
    then obtain i j where z: "i < SIZE" "j < SIZE" "cell ?b (i, j) = 0" by blast
    have "\<not> (?rows \<and> ?cols)"
    proof
      assume s: "?rows \<and> ?cols"
      have row: "cell ?b (i, l) = 0" if "l < SIZE" for l
        using still_empty_row [OF assms(1) _ z(1,2,3) that] s by blast
      have "cell ?b (k, l) = 0" if "k < SIZE" "l < SIZE" for k l
        using still_empty_row [OF t _ that(2) z(1) _ that(1)] s row [OF that(2)] that z by simp
      with assms(2) show False by blast
    qed
    with z show ?thesis unfolding gameCheckGameOver_def gameCanMove_iff by blast
  qed
qed

text \<open>
  C28: the game is over, by the test of neighbours, exactly when none of the four moves would change
  the board. The board has a tile, as every board of the game does.
\<close>

theorem gameOver_iff_no_move:
  assumes "board_ok (g_board st)" and "\<exists>i<SIZE. \<exists>j<SIZE. cell (g_board st) (i, j) \<noteq> 0"
  shows "gameCheckGameOver st \<longleftrightarrow> \<not> fst (gameMoveLeft r1 r2 st) \<and> \<not> fst (gameMoveRight r1 r2 st)
    \<and> \<not> fst (gameMoveUp r1 r2 st) \<and> \<not> fst (gameMoveDown r1 r2 st)"
proof -
  let ?t = "st\<lparr>g_board := transpose_board (g_board st)\<rparr>"
  have t: "board_ok (g_board ?t)" using transpose_ok [OF assms(1)] by simp
  have "fst (gameMoveUp r1 r2 st) = fst (gameMoveLeft r1 r2 ?t)"
    "fst (gameMoveDown r1 r2 st) = fst (gameMoveRight r1 r2 ?t)"
    by (simp_all add: gameMoveUp_def gameMoveDown_def split: prod.splits)
  then show ?thesis
    using gameOver_iff_still [OF assms] changed_still [OF assms(1)] changed_still [OF t] by auto
qed

theorem gameOver_iff_no_move_witness:
  "\<not> gameCheckGameOver \<lparr>g_board = sample_board, g_score = 0, g_gameOver = False, g_win = False\<rparr>
     \<and> fst (gameMoveLeft 0 0 \<lparr>g_board = sample_board, g_score = 0, g_gameOver = False, g_win = False\<rparr>)"
proof -
  let ?st = "\<lparr>g_board = sample_board, g_score = 0, g_gameOver = False, g_win = False\<rparr>"
  have "fst (gameMoveLeft 0 0 ?st)"
    by (simp add: gameMoveLeft_def after_move_def sample_board_def moveRowLeft_eq Let_def split: prod.splits)
  moreover have "cell sample_board (0, 0) \<noteq> 0" by (simp add: cell_def sample_board_def)
  then have "\<exists>i<SIZE. \<exists>j<SIZE. cell (g_board ?st) (i, j) \<noteq> 0"
    by (intro exI [of _ 0] conjI) simp_all
  with gameOver_iff_no_move [of ?st 0 0] sample_board
  have "gameCheckGameOver ?st \<longleftrightarrow> \<not> fst (gameMoveLeft 0 0 ?st) \<and> \<not> fst (gameMoveRight 0 0 ?st)
      \<and> \<not> fst (gameMoveUp 0 0 ?st) \<and> \<not> fst (gameMoveDown 0 0 ?st)" by simp
  ultimately show ?thesis by blast
qed

text \<open>A new game: two tiles, no points.\<close>

lemma gameInit_ok: "board_ok (g_board (gameInit r1 r2 r3 r4)) \<and> g_score (gameInit r1 r2 r3 r4) = 0
  \<and> board_sum (g_board (gameInit r1 r2 r3 r4)) \<in> {4, 6, 8}"
proof -
  let ?s0 = "\<lparr>g_board = replicate SIZE (replicate SIZE 0), g_score = 0, g_gameOver = False, g_win = False\<rparr>"
  have z: "board_ok (g_board ?s0)" "board_sum (g_board ?s0) = 0"
    by (auto simp: board_ok_def row_ok_def board_sum_def sum_list_replicate)
  obtain v b where 1: "v \<in> {2, 4}" "gameAddRandomTile r1 r2 ?s0 = (True, ?s0\<lparr>g_board := b\<rparr>)"
    "board_ok b" "board_sum b = v"
    using gameAddRandomTile_ok [OF z(1), of r1 r2] z(2) by auto
  have "\<exists>r\<in>set b. 0 \<in> set r"
  proof (rule ccontr)
    assume n: "\<not> ?thesis"
    have two: "2 \<le> cell b (i, j)" if ij: "i < SIZE" "j < SIZE" for i j
    proof -
      have "cell b (i, j) \<in> set (b ! i)" "b ! i \<in> set b"
        using ij row_cells [OF 1(3) ij(1)] board_okD [OF 1(3)] by auto
      with n have "cell b (i, j) \<noteq> 0" by metis
      then obtain k where "0 < k" "cell b (i, j) = 2 ^ k"
        using board_okD(3) [OF 1(3) ij] by (auto simp: tile_def)
      then show ?thesis using power_increasing [of 1 k "2 :: int"] by simp
    qed
    have "(\<Sum>i<SIZE. \<Sum>j<SIZE. (2 :: int)) \<le> (\<Sum>i<SIZE. \<Sum>j<SIZE. cell b (i, j))"
      by (intro sum_mono two) simp_all
    with board_sum_cells [OF 1(3)] 1(1,4) show False by auto
  qed
  from gameAddRandomTile_ok [of "?s0\<lparr>g_board := b\<rparr>", OF _ _, of r3 r4] this 1(3)
  obtain w b' where 2: "w \<in> {2, 4}"
    "gameAddRandomTile r3 r4 (?s0\<lparr>g_board := b\<rparr>) = (True, ?s0\<lparr>g_board := b'\<rparr>)"
    "board_ok b'" "board_sum b' = board_sum b + w" by auto
  have "gameInit r1 r2 r3 r4 = ?s0\<lparr>g_board := b'\<rparr>"
    unfolding gameInit_def 1(2) snd_conv 2(2) by (rule refl)
  then show ?thesis using 1 2 by auto
qed

end
