(* ===== verification/Leaderboard.thy ===== *)
theory Leaderboard
  imports CStd "HOL-Library.Multiset"
begin

text \<open>
  HW_17-Game/src/leaderboard.c: the table of the ten best scores, its file and the order of its
  entries. The home directory and the contents of the file are arguments. The difference of two
  scores in \<open>compareEntries\<close> is an \<open>int\<close>; it is exact for the scores of the game, which are not
  negative, and is written without wrap-around.
\<close>

abbreviation MAX_LEADERBOARD :: nat where "MAX_LEADERBOARD \<equiv> 10"
abbreviation NAME_LENGTH :: nat where "NAME_LENGTH \<equiv> 20"

record LeaderboardEntry =
  le_name :: bytes
  le_score :: int

subsection \<open>The path\<close>

definition getHomeDir :: "bytes option \<Rightarrow> bytes option \<Rightarrow> bytes" where
  "getHomeDir home_var passwd_dir =
     (case home_var of
        Some h \<Rightarrow> h
      | None \<Rightarrow> (case passwd_dir of Some d \<Rightarrow> d | None \<Rightarrow> str ''.''))"

definition getLeaderboardPath :: "bytes option \<Rightarrow> bytes option \<Rightarrow> bytes" where
  "getLeaderboardPath home_var passwd_dir =
     snprintf 512 (cstr (getHomeDir home_var passwd_dir) @ str ''/'' @ str ''.local/share/2048/scores.txt'')"

text \<open>The directory \<open>mkdir\<close> is called for: the path up to its last slash.\<close>

definition ensureDirExists :: "bytes \<Rightarrow> bytes option" where
  "ensureDirExists path =
     (if c_slash \<in> set path then Some (rev (tl (dropWhile (\<lambda>b. b \<noteq> c_slash) (rev path)))) else None)"

subsection \<open>The file\<close>

definition to_int :: "int \<Rightarrow> int" where
  "to_int i = (i + 2 ^ 31) mod 2 ^ 32 - 2 ^ 31"

text \<open>\<open>sscanf (line, "%19s %d", name, &score) == 2\<close>.\<close>

definition scan_entry :: "bytes \<Rightarrow> LeaderboardEntry option" where
  "scan_entry line =
     (let l = dropWhile isspace (cstr line);
          name = take 19 (takeWhile (\<lambda>b. \<not> isspace b) l);
          rest = drop (length name) l
      in if name = [] then None
         else case strtol (rest @ [c_nul]) of
                Some (v, used) \<Rightarrow> if used = 0 then None else Some \<lparr>le_name = name, le_score = to_int v\<rparr>
              | None \<Rightarrow> None)"

function load_lines :: "bytes \<Rightarrow> nat \<Rightarrow> LeaderboardEntry list" where
  "load_lines bs room =
     (if bs = [] \<or> room = 0 then []
      else case fgets 256 bs of
             (line, rest) \<Rightarrow>
               (case scan_entry line of
                  Some e \<Rightarrow> e # load_lines rest (room - 1)
                | None \<Rightarrow> load_lines rest room))"
  by pat_completeness auto
termination
  by (relation "measure (\<lambda>(bs, room). length bs)")
    (auto simp: fgets_def Let_def split: option.splits dest: memchr_Some)

declare load_lines.simps [simp del]

definition loadLeaderboard :: "bytes option \<Rightarrow> nat \<Rightarrow> LeaderboardEntry list" where
  "loadLeaderboard file maxEntries = (case file of None \<Rightarrow> [] | Some bs \<Rightarrow> load_lines bs maxEntries)"

definition entry_line :: "LeaderboardEntry \<Rightarrow> bytes" where
  "entry_line e = cstr (le_name e) @ [c_space] @ show_int (le_score e) @ [c_nl]"

text \<open>The contents of the file afterwards; \<open>open_ok\<close> is whether it can be opened.\<close>

definition saveLeaderboard :: "bool \<Rightarrow> LeaderboardEntry list \<Rightarrow> bytes option \<Rightarrow> bytes option" where
  "saveLeaderboard open_ok entries file =
     (if open_ok then Some (concat (map entry_line entries)) else file)"

subsection \<open>The table\<close>

definition compareEntries :: "LeaderboardEntry \<Rightarrow> LeaderboardEntry \<Rightarrow> int" where
  "compareEntries a b = le_score b - le_score a"

definition isHighScore :: "LeaderboardEntry list \<Rightarrow> int \<Rightarrow> bool" where
  "isHighScore entries score =
     (if length entries < MAX_LEADERBOARD then True
      else score > le_score (entries ! (length entries - 1)))"

definition addLeaderboardEntry ::
  "LeaderboardEntry list \<Rightarrow> bytes \<Rightarrow> int \<Rightarrow> bool \<times> LeaderboardEntry list" where
  "addLeaderboardEntry entries name score =
     (if \<not> isHighScore entries score then (False, entries)
      else
        (let kept = (if length entries \<ge> MAX_LEADERBOARD then take (MAX_LEADERBOARD - 1) entries else entries);
             new = \<lparr>le_name = take (NAME_LENGTH - 1) (cstr name), le_score = score\<rparr>
         in (True, qsort compareEntries (kept @ [new]))))"

text \<open>The tables of the program: at most ten entries, the best first.\<close>

definition lb_ok :: "LeaderboardEntry list \<Rightarrow> bool" where
  "lb_ok es \<longleftrightarrow> length es \<le> MAX_LEADERBOARD \<and> sorted_wrt (\<lambda>a b. le_score b \<le> le_score a) es"

lemma mset_qsort_insert: "mset (qsort_insert cmp x xs) = add_mset x (mset xs)"
  by (induction xs) auto

lemma mset_qsort: "mset (qsort cmp xs) = mset xs"
  by (induction xs) (auto simp: mset_qsort_insert)

lemma sorted_entries: "sorted_wrt (\<lambda>a b. le_score b \<le> le_score a) (qsort compareEntries es)"
  by (rule sorted_qsort) (simp add: compareEntries_def)

text \<open>A full table: the last entry has the lowest score.\<close>

lemma last_lowest:
  "lb_ok es \<Longrightarrow> e \<in> set es \<Longrightarrow> le_score (es ! (length es - 1)) \<le> le_score e"
proof -
  assume ok: "lb_ok es" and "e \<in> set es"
  then obtain i where i: "i < length es" "e = es ! i" by (metis in_set_conv_nth)
  show ?thesis
  proof (cases "i = length es - 1")
    case False
    then have "i < length es - 1" "length es - 1 < length es" using i(1) by simp_all
    with ok i(2) show ?thesis by (simp add: lb_ok_def sorted_wrt_iff_nth_less)
  qed (simp add: i)
qed

lemma addLeaderboardEntry_ok:
  assumes "lb_ok es" and "addLeaderboardEntry es name score = (added, es')"
  defines "new \<equiv> \<lparr>le_name = take (NAME_LENGTH - 1) (cstr name), le_score = score\<rparr>"
  shows "lb_ok es'"
    and "added \<longleftrightarrow> length es < MAX_LEADERBOARD \<or> (\<exists>e\<in>set es. le_score e < score)"
    and "\<not> added \<Longrightarrow> es' = es"
    and "added \<Longrightarrow> mset es' = add_mset new (mset (take (MAX_LEADERBOARD - 1) es))"
    and "added \<Longrightarrow> \<forall>d\<in>set (drop (MAX_LEADERBOARD - 1) es). \<forall>e\<in>set es'. le_score d \<le> le_score e"
proof -
  have len: "length es \<le> MAX_LEADERBOARD" using assms(1) by (simp add: lb_ok_def)
  let ?kept = "take (MAX_LEADERBOARD - 1) es"
  have high: "isHighScore es score \<longleftrightarrow> length es < MAX_LEADERBOARD \<or> (\<exists>e\<in>set es. le_score e < score)"
  proof (cases "length es < MAX_LEADERBOARD")
    case False
    then have "es \<noteq> []" by auto
    then have "es ! (length es - 1) \<in> set es" by simp
    with False last_lowest [OF assms(1)] show ?thesis
      by (auto simp: isHighScore_def intro: le_less_trans)
  qed (simp add: isHighScore_def)
  show added: "added \<longleftrightarrow> length es < MAX_LEADERBOARD \<or> (\<exists>e\<in>set es. le_score e < score)"
    using assms(2) high by (auto simp: addLeaderboardEntry_def Let_def split: if_splits)
  show "\<not> added \<Longrightarrow> es' = es" using assms(2) by (auto simp: addLeaderboardEntry_def Let_def split: if_splits)
  have es': "es' = qsort compareEntries ((if MAX_LEADERBOARD \<le> length es then ?kept else es) @ [new])" if "added"
    using assms(2) that by (auto simp: addLeaderboardEntry_def Let_def new_def split: if_splits)
  show "lb_ok es'"
  proof (cases added)
    case True
    then show ?thesis using len sorted_entries by (auto simp: es' lb_ok_def)
  next
    case False
    with assms(1,2) show ?thesis by (auto simp: addLeaderboardEntry_def Let_def split: if_splits)
  qed
  { assume added
    show "mset es' = add_mset new (mset ?kept)"
      using es' [OF \<open>added\<close>] len by (auto simp: mset_qsort not_le less_Suc_eq_le)
    then have mem: "set es' = insert new (set ?kept)" by (metis set_mset_add_mset_insert set_mset_mset)
    show "\<forall>d\<in>set (drop (MAX_LEADERBOARD - 1) es). \<forall>e\<in>set es'. le_score d \<le> le_score e"
    proof (intro ballI)
      fix d e assume d: "d \<in> set (drop (MAX_LEADERBOARD - 1) es)" and e: "e \<in> set es'"
      then have full: "length es = MAX_LEADERBOARD" using len by (cases "length es < MAX_LEADERBOARD") auto
      have "drop (MAX_LEADERBOARD - 1) es = [es ! (length es - 1)]"
        using full by (simp add: Cons_nth_drop_Suc [symmetric])
      with d have d: "d = es ! (length es - 1)" by simp
      show "le_score d \<le> le_score e"
      proof (cases "e = new")
        case True
        have "isHighScore es score" using high added \<open>added\<close> by simp
        with True full d show ?thesis by (simp add: isHighScore_def new_def)
      next
        case False
        with e mem have "e \<in> set es" by (auto dest: in_set_takeD)
        with last_lowest [OF assms(1)] d show ?thesis by simp
      qed
    qed }
qed



subsection \<open>The file read back\<close>

definition entry_ok :: "LeaderboardEntry \<Rightarrow> bool" where
  "entry_ok e \<longleftrightarrow> le_name e \<noteq> [] \<and> length (le_name e) < NAME_LENGTH
     \<and> (\<forall>b\<in>set (le_name e). \<not> isspace b \<and> b \<noteq> c_nul) \<and> - (2 ^ 31) \<le> le_score e \<and> le_score e < 2 ^ 31"

lemma strtol_space:
  "isspace b \<Longrightarrow> strtol (b # bs) = (case strtol bs of
     Some (v, n) \<Rightarrow> Some (v, if n = 0 then 0 else Suc n) | None \<Rightarrow> None)"
  by (auto simp: strtol_def Let_def)

lemma show_int_chars: "b \<in> set (show_int i) \<Longrightarrow> \<not> isspace b \<and> b \<noteq> c_nul"
  using isdigit_show_dec isdigit_not_isspace
  by (fastforce simp: show_int_def isdigit_def isspace_def split: if_splits)

lemma length_show_int: "- (2 ^ 31) \<le> i \<Longrightarrow> i < 2 ^ 31 \<Longrightarrow> length (show_int i) \<le> 11"
proof -
  assume i: "- (2 ^ 31) \<le> i" "i < 2 ^ 31"
  have "nat i < 10 ^ 10" "nat (- i) < 10 ^ 10" using i by simp_all
  then have "length (show_dec (nat i)) \<le> 10" "length (show_dec (nat (- i))) \<le> 10"
    unfolding show_dec_def by (intro length_show_base; simp)+
  then show ?thesis by (simp add: show_int_def)
qed

lemma show_int_ne [simp]: "show_int i \<noteq> []"
  by (simp add: show_int_def)

lemma to_int_id: "- (2 ^ 31) \<le> i \<Longrightarrow> i < 2 ^ 31 \<Longrightarrow> to_int i = i"
  by (simp add: to_int_def)

lemma entry_line_ok: "entry_ok e \<Longrightarrow> entry_line e = le_name e @ c_space # show_int (le_score e) @ [c_nl]"
proof -
  assume "entry_ok e"
  then have "c_nul \<notin> set (le_name e)" by (auto simp: entry_ok_def)
  then show ?thesis by (simp add: entry_line_def cstr_id)
qed

lemma scan_entry_line:
  assumes "entry_ok e"
  shows "scan_entry (entry_line e) = Some e"
proof -
  let ?n = "le_name e" and ?i = "le_score e"
  have n: "?n \<noteq> []" "length ?n \<le> 19" "\<forall>b\<in>set ?n. \<not> isspace b" "c_nul \<notin> set ?n"
    and i: "- (2 ^ 31) \<le> ?i" "?i < 2 ^ 31" using assms by (auto simp: entry_ok_def)
  have line: "entry_line e = ?n @ c_space # show_int ?i @ [c_nl]" by (rule entry_line_ok [OF assms])
  have "c_nul \<notin> set (entry_line e)" using n(4) show_int_chars line by auto
  then have c: "cstr (entry_line e) = entry_line e" by (rule cstr_id)
  have d: "dropWhile isspace (entry_line e) = entry_line e"
    using n(1,3) line by (cases ?n) auto
  have "isspace c_space" by (simp add: isspace_def)
  then have t: "takeWhile (\<lambda>b. \<not> isspace b) (entry_line e) = ?n"
    unfolding line using n(3) by (intro takeWhile_append_stop) auto
  have nd: "\<not> isdigit c_nl" by (simp add: isdigit_def)
  have "strtol (show_int ?i @ c_nl # [c_nul]) = Some (?i, length (show_int ?i))"
    using i nd by (intro strtol_show_int) (simp_all add: LONG_MIN_def LONG_MAX_def)
  then have "strtol (c_space # show_int ?i @ [c_nl, c_nul]) = Some (?i, Suc (length (show_int ?i)))"
    using \<open>isspace c_space\<close> by (simp add: strtol_space)
  moreover have "drop (length ?n) (entry_line e) @ [c_nul] = c_space # show_int ?i @ [c_nl, c_nul]"
    by (simp add: line)
  moreover have "take 19 ?n = ?n" using n(2) by simp
  ultimately show ?thesis
    unfolding scan_entry_def Let_def c d t using n(1) to_int_id [OF i] by simp
qed

lemma load_lines_entries:
  "\<forall>e\<in>set es. entry_ok e \<Longrightarrow> load_lines (concat (map entry_line es)) room = take room es"
proof (induction es arbitrary: room)
  case Nil
  then show ?case by (subst load_lines.simps) simp
next
  case (Cons e es)
  have ok: "entry_ok e" using Cons.prems by simp
  let ?l = "le_name e @ c_space # show_int (le_score e)"
  have line: "entry_line e = ?l @ [c_nl]" using entry_line_ok [OF ok] by simp
  have "isspace c_nl" by (simp add: isspace_def)
  then have nl: "c_nl \<notin> set ?l" using ok show_int_chars by (auto simp: entry_ok_def)
  have "length ?l < 255" using ok length_show_int [of "le_score e"] by (simp add: entry_ok_def)
  then have "fgets 256 (entry_line e @ concat (map entry_line es)) = (entry_line e, concat (map entry_line es))"
    unfolding line using nl by (intro fgets_line) simp_all
  moreover have "entry_line e \<noteq> []" by (simp add: line)
  ultimately show ?case
    using Cons scan_entry_line [OF ok]
    by (subst load_lines.simps) (auto simp: take_Cons')
qed

text \<open>
  a table that has been saved is read back as it was, for names of 1 to 19 bytes without white
  space and scores in the range of \<open>int\<close>.
\<close>

theorem leaderboard_file_roundtrip:
  assumes "\<forall>e\<in>set es. entry_ok e" and "length es \<le> MAX_LEADERBOARD"
  shows "loadLeaderboard (saveLeaderboard True es file) MAX_LEADERBOARD = es"
  using load_lines_entries [OF assms(1)] assms(2) by (simp add: loadLeaderboard_def saveLeaderboard_def)

theorem leaderboard_file_roundtrip_witness:
  "loadLeaderboard (saveLeaderboard True
      [\<lparr>le_name = str ''ann'', le_score = 300\<rparr>, \<lparr>le_name = str ''bob'', le_score = - 7\<rparr>] None) 10
    = [\<lparr>le_name = str ''ann'', le_score = 300\<rparr>, \<lparr>le_name = str ''bob'', le_score = - 7\<rparr>]"
  by (rule leaderboard_file_roundtrip) (simp_all add: entry_ok_def str_Cons isspace_def)

end
