(* ===== verification/GameApp.thy ===== *)
theory GameApp
  imports Game2048 Leaderboard
begin

text \<open>
  HW_17-Game/src/2048.c: the event loop of the game. The window, the drawing and the sounds are not
  modelled; an event is a key, the closing of the window, or another window event. \<open>rnd\<close> are the
  four values of \<open>rand ()\<close> an event may use.
\<close>

datatype GamePhase = PHASE_MENU | PHASE_PLAY | PHASE_CONTROLS | PHASE_LEADERBOARD

datatype key = SDLK_UP | SDLK_DOWN | SDLK_LEFT | SDLK_RIGHT | SDLK_RETURN | SDLK_KP_ENTER
  | SDLK_ESCAPE | SDLK_r | SDLK_m | SDLK_other

datatype sdl_event = SDL_QUIT | SDL_KEYDOWN key | SDL_WINDOWEVENT

record app =
  a_phase :: GamePhase
  a_item :: nat
  a_game :: GameState
  a_table :: "LeaderboardEntry list"
  a_running :: bool
  a_file :: "bytes option"

type_synonym rnd = "nat \<times> nat \<times> nat \<times> nat"

definition new_game :: "rnd \<Rightarrow> GameState" where
  "new_game rnd = (case rnd of (r1, r2, r3, r4) \<Rightarrow> gameInit r1 r2 r3 r4)"

definition app_start :: "rnd \<Rightarrow> bytes option \<Rightarrow> app" where
  "app_start rnd file =
     \<lparr>a_phase = PHASE_MENU, a_item = 0, a_game = new_game rnd,
      a_table = loadLeaderboard file MAX_LEADERBOARD, a_running = True, a_file = file\<rparr>"

definition menu_enter :: "rnd \<Rightarrow> app \<Rightarrow> app" where
  "menu_enter rnd a =
     (if a_item a = 0 then a\<lparr>a_game := new_game rnd, a_phase := PHASE_PLAY\<rparr>
      else if a_item a = 1 then a\<lparr>a_phase := PHASE_CONTROLS\<rparr>
      else if a_item a = 2 then
        a\<lparr>a_table := loadLeaderboard (a_file a) MAX_LEADERBOARD, a_phase := PHASE_LEADERBOARD\<rparr>
      else if a_item a = 3 then a\<lparr>a_running := False\<rparr>
      else a)"

definition menu_key :: "rnd \<Rightarrow> key \<Rightarrow> app \<Rightarrow> app" where
  "menu_key rnd k a =
     (case k of
        SDLK_UP \<Rightarrow> a\<lparr>a_item := (a_item a + 4 - 1) mod 4\<rparr>
      | SDLK_DOWN \<Rightarrow> a\<lparr>a_item := (a_item a + 1) mod 4\<rparr>
      | SDLK_RETURN \<Rightarrow> menu_enter rnd a
      | SDLK_KP_ENTER \<Rightarrow> menu_enter rnd a
      | SDLK_ESCAPE \<Rightarrow> a\<lparr>a_running := False\<rparr>
      | _ \<Rightarrow> a)"

text \<open>The bytes of the UTF-8 literal of the player's name.\<close>

definition PLAYER :: bytes where
  "PLAYER = [0xD0, 0x98, 0xD0, 0xB3, 0xD1, 0x80, 0xD0, 0xBE, 0xD0, 0xBA]"

text \<open>The switch over the keys of the game.\<close>

definition play_switch :: "rnd \<Rightarrow> key \<Rightarrow> app \<Rightarrow> app" where
  "play_switch rnd k a =
     (case rnd of (r1, r2, r3, r4) \<Rightarrow>
        (case k of
           SDLK_UP \<Rightarrow> a\<lparr>a_game := snd (gameMoveUp r1 r2 (a_game a))\<rparr>
         | SDLK_DOWN \<Rightarrow> a\<lparr>a_game := snd (gameMoveDown r1 r2 (a_game a))\<rparr>
         | SDLK_LEFT \<Rightarrow> a\<lparr>a_game := snd (gameMoveLeft r1 r2 (a_game a))\<rparr>
         | SDLK_RIGHT \<Rightarrow> a\<lparr>a_game := snd (gameMoveRight r1 r2 (a_game a))\<rparr>
         | SDLK_r \<Rightarrow> a\<lparr>a_game := new_game rnd\<rparr>
         | SDLK_ESCAPE \<Rightarrow> a\<lparr>a_phase := PHASE_MENU\<rparr>
         | _ \<Rightarrow> a))"

text \<open>What follows the switch: the end of the game and the table.\<close>

definition play_result :: "bool \<Rightarrow> app \<Rightarrow> app" where
  "play_result open_ok a =
     (let (added, table) = addLeaderboardEntry (a_table a) PLAYER (g_score (a_game a))
      in if g_win (a_game a) then
           (if added then a\<lparr>a_table := table, a_file := saveLeaderboard open_ok table (a_file a),
                           a_phase := PHASE_LEADERBOARD\<rparr>
            else a)
         else if g_gameOver (a_game a) then
           (if added then a\<lparr>a_table := table, a_file := saveLeaderboard open_ok table (a_file a),
                           a_phase := PHASE_LEADERBOARD\<rparr>
            else a\<lparr>a_phase := PHASE_LEADERBOARD\<rparr>)
         else a)"

definition app_event :: "bool \<Rightarrow> rnd \<Rightarrow> sdl_event \<Rightarrow> app \<Rightarrow> app" where
  "app_event open_ok rnd ev a =
     (case ev of
        SDL_QUIT \<Rightarrow> a\<lparr>a_running := False\<rparr>
      | SDL_KEYDOWN k \<Rightarrow>
          (case a_phase a of
             PHASE_MENU \<Rightarrow> menu_key rnd k a
           | PHASE_PLAY \<Rightarrow> play_result open_ok (play_switch rnd k a)
           | PHASE_CONTROLS \<Rightarrow> (if k = SDLK_ESCAPE then a\<lparr>a_phase := PHASE_MENU\<rparr> else a)
           | PHASE_LEADERBOARD \<Rightarrow> (if k = SDLK_ESCAPE then a\<lparr>a_phase := PHASE_MENU\<rparr> else a))
      | SDL_WINDOWEVENT \<Rightarrow> a)"

subsection \<open>Reachable states\<close>

text \<open>
  The steps of the event loop while the scores fit an \<open>int\<close>. The inner loop goes on with the events
  that are there after \<open>running\<close> has been cleared.
\<close>

inductive app_step :: "app \<Rightarrow> sdl_event \<Rightarrow> app \<Rightarrow> bool" where
  step: "a' = app_event open_ok rnd ev a \<Longrightarrow> g_score (a_game a') < 2 ^ 31 \<Longrightarrow> app_step a ev a'"

inductive_cases app_step_elim: "app_step a ev a'"
inductive_simps app_step_iff: "app_step a ev a'"

inductive app_reach :: "app \<Rightarrow> app \<Rightarrow> bool" where
  start: "app_reach a a"
| more: "app_reach a b \<Longrightarrow> app_step b ev c \<Longrightarrow> app_reach a c"

definition table_ok :: "LeaderboardEntry list \<Rightarrow> bool" where
  "table_ok es \<longleftrightarrow> lb_ok es \<and> (\<forall>e\<in>set es. entry_ok e)"

definition app_ok :: "app \<Rightarrow> bool" where
  "app_ok a \<longleftrightarrow> board_ok (g_board (a_game a)) \<and> 0 \<le> g_score (a_game a) \<and> a_item a < 4
     \<and> table_ok (a_table a) \<and> table_ok (loadLeaderboard (a_file a) MAX_LEADERBOARD)"

lemma new_game_ok: "board_ok (g_board (new_game rnd)) \<and> g_score (new_game rnd) = 0"
  using gameInit_ok by (auto simp: new_game_def split: prod.splits)

lemma player_ok: "- (2 ^ 31) \<le> score \<Longrightarrow> score < 2 ^ 31 \<Longrightarrow>
    entry_ok \<lparr>le_name = take (NAME_LENGTH - 1) (cstr PLAYER), le_score = score\<rparr>"
  by (simp add: entry_ok_def PLAYER_def cstr_def isspace_def)

lemma add_table_ok:
  assumes "table_ok es" and "addLeaderboardEntry es PLAYER score = (added, es')"
    and "0 \<le> score" and "score < 2 ^ 31"
  shows "table_ok es'"
proof -
  let ?new = "\<lparr>le_name = take (NAME_LENGTH - 1) (cstr PLAYER), le_score = score\<rparr>"
  have ok: "lb_ok es" using assms(1) by (simp add: table_ok_def)
  have new: "entry_ok ?new" using player_ok assms(3,4) by simp
  note add = addLeaderboardEntry_ok [OF ok assms(2)]
  have "entry_ok e" if "e \<in> set es'" for e
  proof (cases added)
    case True
    have "e \<in># mset es'" using that by simp
    then have "e = ?new \<or> e \<in> set es"
      unfolding add(4) [OF True] by (auto dest: in_set_takeD)
    with assms(1) new show ?thesis by (auto simp: table_ok_def)
  next
    case False
    with add(3) that assms(1) show ?thesis by (simp add: table_ok_def)
  qed
  with add(1) show ?thesis by (simp add: table_ok_def)
qed

lemma load_saved:
  "table_ok es \<Longrightarrow> table_ok (loadLeaderboard file MAX_LEADERBOARD) \<Longrightarrow>
     table_ok (loadLeaderboard (saveLeaderboard open_ok es file) MAX_LEADERBOARD)"
  using load_lines_entries [of es MAX_LEADERBOARD]
  by (simp add: saveLeaderboard_def loadLeaderboard_def table_ok_def lb_ok_def)

lemma play_switch_ok:
  assumes "app_ok a"
  shows "app_ok (play_switch rnd k a)"
proof -
  obtain r1 r2 r3 r4 where rnd: "rnd = (r1, r2, r3, r4)" by (cases rnd)
  have b: "board_ok (g_board (a_game a))" using assms by (simp add: app_ok_def)
  have "board_ok (g_board (snd m)) \<and> 0 \<le> g_score (snd m)"
    if "m = gameMoveUp r1 r2 (a_game a) \<or> m = gameMoveDown r1 r2 (a_game a)
      \<or> m = gameMoveLeft r1 r2 (a_game a) \<or> m = gameMoveRight r1 r2 (a_game a)" for m
  proof -
    obtain c st where m: "m = (c, st)" by (cases m)
    then have "move_ok (a_game a) c st" using all_moves_ok [OF b, of r1 r2 c st] that by auto
    with assms show ?thesis by (auto simp: m move_ok_def app_ok_def)
  qed
  then show ?thesis
    using assms new_game_ok [of rnd] by (auto simp: play_switch_def rnd app_ok_def split: key.splits)
qed

lemma play_result_ok:
  assumes "app_ok a" and "g_score (a_game a) < 2 ^ 31"
  shows "app_ok (play_result open_ok a)" and "a_game (play_result open_ok a) = a_game a"
proof -
  obtain added es where a: "addLeaderboardEntry (a_table a) PLAYER (g_score (a_game a)) = (added, es)"
    by (cases "addLeaderboardEntry (a_table a) PLAYER (g_score (a_game a))")
  have "table_ok es" using add_table_ok [OF _ a _ assms(2)] assms(1) by (simp add: app_ok_def)
  then show "app_ok (play_result open_ok a)" "a_game (play_result open_ok a) = a_game a"
    using assms(1) load_saved a by (auto simp: play_result_def app_ok_def)
qed

lemma a_game_play_result: "a_game (play_result open_ok a) = a_game a"
  by (auto simp: play_result_def split: prod.splits)

lemma step_ok:
  assumes "app_step a ev a'" and "app_ok a"
  shows "app_ok a'"
  using assms(1)
proof (cases rule: app_step.cases)
  case (step open_ok rnd)
  show ?thesis
  proof (cases ev)
    case (SDL_KEYDOWN k)
    show ?thesis
    proof (cases "a_phase a")
      case PHASE_PLAY
      then have a': "a' = play_result open_ok (play_switch rnd k a)"
        using step SDL_KEYDOWN by (simp add: app_event_def)
      have "g_score (a_game (play_switch rnd k a)) < 2 ^ 31"
        using step(2) by (simp only: a' a_game_play_result)
      then show ?thesis unfolding a' by (intro play_result_ok play_switch_ok assms(2))
    next
      case PHASE_MENU
      then show ?thesis
        using step SDL_KEYDOWN assms(2) new_game_ok [of rnd]
        by (auto simp: app_event_def menu_key_def menu_enter_def app_ok_def split: key.splits)
    qed (use step SDL_KEYDOWN assms(2) in \<open>auto simp: app_event_def app_ok_def\<close>)
  qed (use step assms(2) in \<open>auto simp: app_event_def app_ok_def\<close>)
qed



text \<open>
  A game that has been won with a score too low for the table goes on; when it then ends, the end is
  not noticed: every key but escape and the one for a new game leaves everything as it is.
\<close>

lemma won_game_over_unnoticed:
  assumes "a_phase a = PHASE_PLAY" and "g_win (a_game a)" and "\<not> isHighScore (a_table a) (g_score (a_game a))"
    and "board_ok (g_board (a_game a))" and "\<exists>i<SIZE. \<exists>j<SIZE. cell (g_board (a_game a)) (i, j) \<noteq> 0"
    and "gameCheckGameOver (a_game a)" and "k \<noteq> SDLK_ESCAPE" and "k \<noteq> SDLK_r"
  shows "app_event open_ok rnd (SDL_KEYDOWN k) a = a"
proof -
  obtain r1 r2 r3 r4 where rnd: "rnd = (r1, r2, r3, r4)" by (cases rnd)
  let ?g = "a_game a"
  have still: "(\<forall>r\<in>set (g_board ?g). still r \<and> still (rev r))"
    "(\<forall>r\<in>set (transpose_board (g_board ?g)). still r \<and> still (rev r))"
    using gameOver_iff_still [OF assms(4,5)] assms(6) by simp_all
  have t: "board_ok (g_board (?g\<lparr>g_board := transpose_board (g_board ?g)\<rparr>))"
    using transpose_ok [OF assms(4)] by simp
  have nc: "\<not> fst (gameMoveLeft r1 r2 ?g)" "\<not> fst (gameMoveRight r1 r2 ?g)"
    "\<not> fst (gameMoveUp r1 r2 ?g)" "\<not> fst (gameMoveDown r1 r2 ?g)"
    using changed_still [OF assms(4)] changed_still [OF t] still
    by (simp_all add: gameMoveUp_def gameMoveDown_def case_prod_beta)
  have "snd (gameMoveLeft r1 r2 ?g) = ?g" "snd (gameMoveRight r1 r2 ?g) = ?g"
    "snd (gameMoveUp r1 r2 ?g) = ?g" "snd (gameMoveDown r1 r2 ?g) = ?g"
    using all_moves_ok [OF assms(4)] nc by (metis move_ok_def prod.collapse)+
  then have "play_switch rnd k a = a"
    using assms(7,8) by (cases k) (simp_all add: play_switch_def rnd)
  then show ?thesis
    using assms(1-3) by (simp add: app_event_def play_result_def addLeaderboardEntry_def)
qed

end
