(* ===== verification/Audio.thy ===== *)
theory Audio
  imports CPrelude
begin

text \<open>
  HW_17-Game/src/audio.c: the sounds of the game, as the list of the calls of SDL_mixer. A sound is
  told by whether its file was loaded; the context is memory nobody has stored in (\<open>None\<close>) until
  \<open>audioInit\<close> has gone well.
\<close>

datatype clip = Clip_move | Clip_win | Clip_game_over

datatype mix_call =
    Mix_OpenAudio
  | Mix_AllocateChannels nat
  | Mix_VolumeMusic int
  | Mix_Volume int
  | Mix_PlayMusic
  | Mix_PlayChannel clip
  | Mix_HaltMusic
  | Mix_HaltChannel
  | Mix_FreeMusic
  | Mix_FreeChunk clip
  | Mix_CloseAudio

record AudioContext =
  ac_bgMusic :: bool
  ac_soundMove :: bool
  ac_soundWin :: bool
  ac_soundGameOver :: bool
  ac_enabled :: bool
  ac_volume :: int

record mix_sys =
  ms_open :: bool
  ms_music :: bool
  ms_move :: bool
  ms_win :: bool
  ms_game_over :: bool

type_synonym audio = "AudioContext option"

definition MIX_MAX_VOLUME :: int where "MIX_MAX_VOLUME = 128"

definition audioInit :: "mix_sys \<Rightarrow> bool \<times> audio \<times> mix_call list" where
  "audioInit sys =
     (if \<not> ms_open sys then (False, None, [])
      else (True, Some \<lparr>ac_bgMusic = ms_music sys, ac_soundMove = ms_move sys, ac_soundWin = ms_win sys,
                        ac_soundGameOver = ms_game_over sys, ac_enabled = True, ac_volume = MIX_MAX_VOLUME\<rparr>,
            [Mix_OpenAudio, Mix_AllocateChannels 16, Mix_VolumeMusic MIX_MAX_VOLUME, Mix_Volume MIX_MAX_VOLUME]))"

text \<open>A function on the context; without one it reads garbage.\<close>

definition with_audio :: "(AudioContext \<Rightarrow> AudioContext \<times> mix_call list) \<Rightarrow> audio \<Rightarrow> ub + (audio \<times> mix_call list)" where
  "with_audio f a =
     (case a of None \<Rightarrow> Inl Ub_Uninit | Some ctx \<Rightarrow> (case f ctx of (ctx, calls) \<Rightarrow> Inr (Some ctx, calls)))"

definition audioDestroy :: "audio \<Rightarrow> ub + (audio \<times> mix_call list)" where
  "audioDestroy = with_audio (\<lambda>ctx. (ctx,
     (if ac_bgMusic ctx then [Mix_FreeMusic] else []) @
     (if ac_soundMove ctx then [Mix_FreeChunk Clip_move] else []) @
     (if ac_soundWin ctx then [Mix_FreeChunk Clip_win] else []) @
     (if ac_soundGameOver ctx then [Mix_FreeChunk Clip_game_over] else []) @ [Mix_CloseAudio]))"

definition play_music :: "AudioContext \<Rightarrow> mix_call list" where
  "play_music ctx = (if ac_enabled ctx \<and> ac_bgMusic ctx then [Mix_PlayMusic] else [])"

definition audioPlayMusic :: "audio \<Rightarrow> ub + (audio \<times> mix_call list)" where
  "audioPlayMusic = with_audio (\<lambda>ctx. (ctx, play_music ctx))"

definition audioToggle :: "audio \<Rightarrow> ub + (audio \<times> mix_call list)" where
  "audioToggle = with_audio (\<lambda>ctx.
     (let ctx = ctx\<lparr>ac_enabled := \<not> ac_enabled ctx\<rparr> in
      (ctx, if \<not> ac_enabled ctx then [Mix_HaltMusic, Mix_HaltChannel] else play_music ctx)))"

definition audioSetVolume :: "int \<Rightarrow> audio \<Rightarrow> ub + (audio \<times> mix_call list)" where
  "audioSetVolume volume = with_audio (\<lambda>ctx.
     (let volume = (if volume < 0 then 0 else volume);
          volume = (if MIX_MAX_VOLUME < volume then MIX_MAX_VOLUME else volume) in
      (ctx\<lparr>ac_volume := volume\<rparr>, [Mix_VolumeMusic volume, Mix_Volume volume])))"

definition audioPlayMove :: "audio \<Rightarrow> ub + (audio \<times> mix_call list)" where
  "audioPlayMove = with_audio (\<lambda>ctx.
     (ctx, if ac_enabled ctx \<and> ac_soundMove ctx then [Mix_PlayChannel Clip_move] else []))"

definition audioPlayWin :: "audio \<Rightarrow> ub + (audio \<times> mix_call list)" where
  "audioPlayWin = with_audio (\<lambda>ctx.
     (ctx, if ac_enabled ctx \<and> ac_soundWin ctx then [Mix_PlayChannel Clip_win] else []))"

definition audioPlayGameOver :: "audio \<Rightarrow> ub + (audio \<times> mix_call list)" where
  "audioPlayGameOver = with_audio (\<lambda>ctx.
     (ctx, if ac_enabled ctx \<and> ac_soundGameOver ctx then [Mix_PlayChannel Clip_game_over] else []))"

definition audioStopMusic :: "audio \<Rightarrow> mix_call list" where
  "audioStopMusic a = [Mix_HaltMusic]"

text \<open>Calls one after the other.\<close>

fun audio_seq :: "(audio \<Rightarrow> ub + (audio \<times> mix_call list)) list \<Rightarrow> audio \<Rightarrow> ub + (audio \<times> mix_call list)" where
  "audio_seq [] a = Inr (a, [])"
| "audio_seq (f # fs) a =
     (case f a of
        Inl u \<Rightarrow> Inl u
      | Inr (a, calls) \<Rightarrow>
          (case audio_seq fs a of Inl u \<Rightarrow> Inl u | Inr (a, later) \<Rightarrow> Inr (a, calls @ later)))"

lemma with_audio_Some: "with_audio f (Some ctx) = Inr (Some (fst (f ctx)), snd (f ctx))"
  by (simp add: with_audio_def split: prod.splits)

lemmas audio_defs = audioDestroy_def audioPlayMusic_def audioToggle_def audioSetVolume_def audioPlayMove_def
  audioPlayWin_def audioPlayGameOver_def play_music_def with_audio_Some

text \<open>The volume that is stored and set is in the range of the mixer.\<close>

lemma audioSetVolume_range:
  assumes "audioSetVolume volume (Some ctx) = Inr (Some ctx', calls)"
  shows "0 \<le> ac_volume ctx'" and "ac_volume ctx' \<le> MIX_MAX_VOLUME"
    and "calls = [Mix_VolumeMusic (ac_volume ctx'), Mix_Volume (ac_volume ctx')]"
  using assms by (auto simp: audio_defs Let_def MIX_MAX_VOLUME_def split: if_splits)

lemma audioToggle_twice:
  assumes "audio_seq [audioToggle, audioToggle] (Some ctx) = Inr (a, calls)"
  shows "a = Some ctx"
  using assms by (simp add: audio_defs Let_def)

text \<open>A call that plays something.\<close>

definition plays :: "mix_call \<Rightarrow> bool" where
  "plays c \<longleftrightarrow> c = Mix_PlayMusic \<or> (\<exists>clip. c = Mix_PlayChannel clip)"

text \<open>What is freed is what was loaded, once.\<close>

lemma audioDestroy_frees:
  assumes "audioInit sys = (True, a, calls)"
  shows "audioDestroy a = Inr (a,
     (if ms_music sys then [Mix_FreeMusic] else []) @ (if ms_move sys then [Mix_FreeChunk Clip_move] else []) @
     (if ms_win sys then [Mix_FreeChunk Clip_win] else []) @
     (if ms_game_over sys then [Mix_FreeChunk Clip_game_over] else []) @ [Mix_CloseAudio])"
  using assms by (auto simp: audioInit_def audio_defs split: if_splits)

end
