(* ===== verification/Float64.thy ===== *)
theory Float64
  imports CStd Complex_Main
begin

text \<open>
  The C type \<open>double\<close> as IEEE 754 binary64 with rounding to nearest, ties to even, and \<open>strtod\<close>. A
  finite number is its rational value; the sign of a zero is not kept, it only shows in the text
  \<open>printf\<close> gives to it.
\<close>

subsection \<open>Rounding\<close>

datatype double = NaN | Inf bool | Fin rat

text \<open>\<open>Inf True\<close> is the negative infinity.\<close>

definition pow2 :: "int \<Rightarrow> rat" where
  "pow2 e = (if 0 \<le> e then 2 ^ nat e else 1 / 2 ^ nat (- e))"

text \<open>The exponent of a positive number: the floor of its logarithm.\<close>

function bit_length :: "int \<Rightarrow> nat" where
  "bit_length n = (if n \<le> 0 then 0 else Suc (bit_length (n div 2)))"
  by auto

termination bit_length by (relation "measure nat") auto

declare bit_length.simps [simp del]

definition log2_floor :: "rat \<Rightarrow> int" where
  "log2_floor x =
     (if 1 \<le> x then int (bit_length \<lfloor>x\<rfloor>) - 1 else - int (bit_length (\<lceil>1 / x\<rceil> - 1)))"

definition round_even :: "rat \<Rightarrow> int" where
  "round_even x =
     (let f = \<lfloor>x\<rfloor>; d = x - of_int f in if d < 1 / 2 \<or> (d = 1 / 2 \<and> even f) then f else f + 1)"

text \<open>To the multiple of \<open>2 ^ e\<close> that is nearest to it.\<close>

definition round_to :: "int \<Rightarrow> rat \<Rightarrow> rat" where
  "round_to e x = of_int (round_even (x / pow2 e)) * pow2 e"

definition round_double :: "rat \<Rightarrow> double" where
  "round_double x =
     (if x = 0 then Fin 0
      else
        let y = round_to (max (log2_floor \<bar>x\<bar> - 52) (- 1074)) \<bar>x\<bar> in
        if pow2 1024 \<le> y then Inf (x < 0) else Fin (if x < 0 then - y else y))"

text \<open>The type \<open>float\<close>, binary32, in the same way.\<close>

definition round_single :: "rat \<Rightarrow> double" where
  "round_single x =
     (if x = 0 then Fin 0
      else
        let y = round_to (max (log2_floor \<bar>x\<bar> - 23) (- 149)) \<bar>x\<bar> in
        if pow2 128 \<le> y then Inf (x < 0) else Fin (if x < 0 then - y else y))"

subsection \<open>The operations\<close>

fun d_add :: "double \<Rightarrow> double \<Rightarrow> double" where
  "d_add (Fin a) (Fin b) = round_double (a + b)"
| "d_add (Inf s) (Inf t) = (if s = t then Inf s else NaN)"
| "d_add (Inf s) (Fin b) = Inf s"
| "d_add (Fin a) (Inf t) = Inf t"
| "d_add _ _ = NaN"

fun d_minus :: "double \<Rightarrow> double" where
  "d_minus (Fin a) = Fin (- a)"
| "d_minus (Inf s) = Inf (\<not> s)"
| "d_minus NaN = NaN"

definition d_sub :: "double \<Rightarrow> double \<Rightarrow> double" where
  "d_sub a b = d_add a (d_minus b)"

fun d_mul :: "double \<Rightarrow> double \<Rightarrow> double" where
  "d_mul (Fin a) (Fin b) = round_double (a * b)"
| "d_mul (Inf s) (Inf t) = Inf (s \<noteq> t)"
| "d_mul (Inf s) (Fin b) = (if b = 0 then NaN else Inf (s \<noteq> (b < 0)))"
| "d_mul (Fin a) (Inf t) = (if a = 0 then NaN else Inf (t \<noteq> (a < 0)))"
| "d_mul _ _ = NaN"

text \<open>Division by a positive number of type \<open>long long\<close>, which is converted first.\<close>

definition d_div_count :: "double \<Rightarrow> nat \<Rightarrow> double" where
  "d_div_count a n =
     (case round_double (of_nat n) of
        Fin q \<Rightarrow> (case a of Fin x \<Rightarrow> round_double (x / q) | _ \<Rightarrow> a)
      | _ \<Rightarrow> NaN)"

fun d_less :: "double \<Rightarrow> double \<Rightarrow> bool" where
  "d_less (Fin a) (Fin b) = (a < b)"
| "d_less (Inf s) (Inf t) = (s \<and> \<not> t)"
| "d_less (Inf s) (Fin b) = s"
| "d_less (Fin a) (Inf t) = (\<not> t)"
| "d_less _ _ = False"

text \<open>Addition at the precision of \<open>float\<close>, and the conversion to it.\<close>

fun f_add :: "double \<Rightarrow> double \<Rightarrow> double" where
  "f_add (Fin a) (Fin b) = round_single (a + b)"
| "f_add (Inf s) (Inf t) = (if s = t then Inf s else NaN)"
| "f_add (Inf s) (Fin b) = Inf s"
| "f_add (Fin a) (Inf t) = Inf t"
| "f_add _ _ = NaN"

fun to_single :: "double \<Rightarrow> double" where
  "to_single (Fin a) = round_single a"
| "to_single (Inf s) = Inf s"
| "to_single NaN = NaN"

subsection \<open>strtod\<close>

definition to_lower :: "u8 \<Rightarrow> u8" where
  "to_lower c = (if 65 \<le> c \<and> c \<le> 90 then c + 32 else c)"

definition isxdigit :: "u8 \<Rightarrow> bool" where
  "isxdigit c \<longleftrightarrow> isdigit c \<or> (97 \<le> to_lower c \<and> to_lower c \<le> 102)"

definition xdigit_val :: "u8 \<Rightarrow> nat" where
  "xdigit_val c = (if isdigit c then digit_val c else unat (to_lower c) - 87)"

definition prefix_nocase :: "string \<Rightarrow> bytes \<Rightarrow> bool" where
  "prefix_nocase s bs \<longleftrightarrow> List.map to_lower (take (length s) bs) = str s"

text \<open>
  An exponent behind the letter \<open>e\<close> (or \<open>p\<close>), with its length; a letter without digits is no part of
  the number.
\<close>

definition exponent_part :: "u8 \<Rightarrow> bytes \<Rightarrow> int \<times> nat" where
  "exponent_part e bs =
     (case bs of
        [] \<Rightarrow> (0, 0)
      | b # bs \<Rightarrow>
          if to_lower b \<noteq> e then (0, 0)
          else
            let sg = (bs \<noteq> [] \<and> (hd bs = c_minus \<or> hd bs = c_plus));
                neg = (bs \<noteq> [] \<and> hd bs = c_minus);
                ds = takeWhile isdigit (if sg then tl bs else bs);
                n = int (digits_val 10 ds) in
            if ds = [] then (0, 0) else (if neg then - n else n, 1 + (if sg then 1 else 0) + length ds))"

text \<open>Digits with a point among them: the digits before and behind it, and the length of all.\<close>

definition point_digits :: "(u8 \<Rightarrow> bool) \<Rightarrow> bytes \<Rightarrow> bytes \<times> bytes \<times> nat" where
  "point_digits digit_p bs =
     (let ds = takeWhile digit_p bs; rest = dropWhile digit_p bs in
      if rest \<noteq> [] \<and> hd rest = c_dot
      then
        let fs = takeWhile digit_p (tl rest) in
        if ds = [] \<and> fs = [] then ([], [], 0) else (ds, fs, length ds + 1 + length fs)
      else (ds, [], length ds))"

text \<open>A number without its sign: the value that is meant, before rounding, and its length.\<close>

datatype numeral = Num rat | Num_inf | Num_nan

definition decimal_numeral :: "bytes \<Rightarrow> (numeral \<times> nat) option" where
  "decimal_numeral bs =
     (let (ds, fs, n) = point_digits isdigit bs;
          (e, m) = exponent_part c_e (drop n bs);
          k = e - int (length fs);
          v = (of_nat (digits_val 10 (ds @ fs)) :: rat) in
      if n = 0 then None
      else Some (Num (if 0 \<le> k then v * 10 ^ nat k else v / 10 ^ nat (- k)), n + m))"

definition hex_numeral :: "bytes \<Rightarrow> (numeral \<times> nat) option" where
  "hex_numeral bs =
     (if \<not> prefix_nocase ''0x'' bs then None
      else
        let (ds, fs, n) = point_digits isxdigit (drop 2 bs);
            (e, m) = exponent_part 0x70 (drop (2 + n) bs);
            v = (of_nat (foldl (\<lambda>a d. 16 * a + xdigit_val d) 0 (ds @ fs)) :: rat) in
        if n = 0 then None else Some (Num (v * pow2 (e - 4 * int (length fs))), 2 + n + m))"

definition word_numeral :: "bytes \<Rightarrow> (numeral \<times> nat) option" where
  "word_numeral bs =
     (if prefix_nocase ''infinity'' bs then Some (Num_inf, 8)
      else if prefix_nocase ''inf'' bs then Some (Num_inf, 3)
      else if prefix_nocase ''nan'' bs
      then
        let rest = drop 3 bs;
            cs = takeWhile (\<lambda>c. isdigit c \<or> (97 \<le> to_lower c \<and> to_lower c \<le> 122) \<or> c = 0x5F) (tl rest);
            close = drop (length cs) (tl rest) in
        Some (Num_nan, if rest \<noteq> [] \<and> hd rest = 0x28 \<and> close \<noteq> [] \<and> hd close = 0x29 then 5 + length cs else 3)
      else None)"

text \<open>A nonzero value that rounding leaves below the normal range, and not exact.\<close>

definition underflows :: "rat \<Rightarrow> bool" where
  "underflows x \<longleftrightarrow> x \<noteq> 0 \<and> round_to (log2_floor x - 52) x < pow2 (- 1022) \<and> round_double x \<noteq> Fin x"

text \<open>The value, the number of bytes used, and whether \<open>errno\<close> is set to \<open>ERANGE\<close>.\<close>

definition strtod :: "bytes \<Rightarrow> double \<times> nat \<times> bool" where
  "strtod bs =
     (let ws = takeWhile isspace bs;
          r = dropWhile isspace bs;
          sg = (r \<noteq> [] \<and> (hd r = c_minus \<or> hd r = c_plus));
          neg = (r \<noteq> [] \<and> hd r = c_minus);
          body = (if sg then tl r else r);
          used = length ws + (if sg then 1 else 0) in
      case (case hex_numeral body of Some x \<Rightarrow> Some x
            | None \<Rightarrow> (case decimal_numeral body of Some x \<Rightarrow> Some x | None \<Rightarrow> word_numeral body)) of
        None \<Rightarrow> (Fin 0, 0, False)
      | Some (Num x, n) \<Rightarrow>
          let v = round_double x in
          (if neg then d_minus v else v, used + n, v = Inf False \<or> underflows x)
      | Some (Num_inf, n) \<Rightarrow> (Inf neg, used + n, False)
      | Some (Num_nan, n) \<Rightarrow> (NaN, used + n, False))"

subsection \<open>The result of rounding\<close>

lemma bit_length_le: "bit_length n \<le> k \<longleftrightarrow> n < 2 ^ k"
proof (induction n arbitrary: k rule: bit_length.induct)
  case (1 n)
  show ?case
  proof (cases "n \<le> 0")
    case True
    moreover have "(0 :: int) < 2 ^ k" by simp
    ultimately have "n < 2 ^ k" by linarith
    then show ?thesis using True by (simp add: bit_length.simps)
  next
    case False
    then have step: "bit_length n = Suc (bit_length (n div 2))" by (simp add: bit_length.simps)
    show ?thesis
    proof (cases k)
      case 0
      then show ?thesis using False step by simp
    next
      case (Suc j)
      have "n div 2 < 2 ^ j \<longleftrightarrow> n < 2 * 2 ^ j" by linarith
      then show ?thesis using 1 [of j] False step Suc by simp
    qed
  qed
qed

lemma bit_length_eq: "2 ^ k \<le> n \<Longrightarrow> n < 2 ^ Suc k \<Longrightarrow> bit_length n = Suc k"
  using bit_length_le [of n k] bit_length_le [of n "Suc k"] by linarith

lemma pow2_nat [simp]: "pow2 (int k) = 2 ^ k"
  by (simp add: pow2_def)

lemma pow2_neg: "pow2 (- int k) = 1 / 2 ^ k"
  by (auto simp: pow2_def)

lemma pow2_pos [simp]: "0 < pow2 e"
  by (simp add: pow2_def)

lemma log2_floor_eq:
  assumes "pow2 k \<le> x" and "x < pow2 (k + 1)"
  shows "log2_floor x = k"
proof (cases "0 \<le> k")
  case True
  then obtain j where k: "k = int j" by (metis nonneg_int_cases)
  moreover have "pow2 (int j + 1) = 2 ^ Suc j" using pow2_nat [of "Suc j"] by (simp add: add.commute)
  ultimately have x: "2 ^ j \<le> x" "x < 2 ^ Suc j" using assms by simp_all
  have "1 \<le> x" using x(1) one_le_power [of "2 :: rat" j] by linarith
  moreover have "of_int (2 ^ j) \<le> x" "x < of_int (2 ^ Suc j)" using x by simp_all
  then have "2 ^ j \<le> \<lfloor>x\<rfloor>" "\<lfloor>x\<rfloor> < 2 ^ Suc j" by (simp_all only: le_floor_iff floor_less_iff)
  then have "bit_length \<lfloor>x\<rfloor> = Suc j" by (rule bit_length_eq)
  ultimately show ?thesis using k by (simp add: log2_floor_def)
next
  case False
  define j where "j = nat (- k - 1)"
  have k: "k = - int (Suc j)" using False by (simp add: j_def)
  have low: "1 / 2 ^ Suc j \<le> x" using assms(1) pow2_neg [of "Suc j"] by (simp only: k)
  have high: "x < 1 / 2 ^ j" using assms(2) pow2_neg [of j] by (simp add: k)
  have pos: "0 < x" using low less_le_trans [of 0 "1 / 2 ^ Suc j" x] by simp
  have "1 / x \<le> 2 ^ Suc j" using low pos by (simp add: field_simps)
  then have "1 / x \<le> of_int (2 ^ Suc j)" by simp
  then have a: "\<lceil>1 / x\<rceil> \<le> 2 ^ Suc j" by (simp only: ceiling_le_iff)
  have "2 ^ j < 1 / x" using high pos by (simp add: field_simps)
  then have "of_int (2 ^ j) < 1 / x" by simp
  then have b: "2 ^ j < \<lceil>1 / x\<rceil>" by (simp only: less_ceiling_iff)
  have "bit_length (\<lceil>1 / x\<rceil> - 1) = Suc j" using a b by (intro bit_length_eq) linarith+
  moreover have "\<not> 1 \<le> x"
  proof -
    have "(1 :: rat) / 2 ^ j \<le> 1" by simp
    then show ?thesis using high by linarith
  qed
  ultimately show ?thesis by (simp add: log2_floor_def k)
qed

text \<open>To the nearest integer, and to the even one in the middle.\<close>

lemma round_even_of_int [simp]: "round_even (of_int n) = n"
  by (simp add: round_even_def)

lemma round_even_near: "\<bar>x - of_int n\<bar> < 1 / 2 \<Longrightarrow> round_even x = n"
proof -
  assume near: "\<bar>x - of_int n\<bar> < 1 / 2"
  show ?thesis
  proof (cases "of_int n \<le> x")
    case True
    then have "\<lfloor>x\<rfloor> = n" using near by (intro floor_unique) linarith+
    then show ?thesis using True near by (simp add: round_even_def)
  next
    case False
    then have f: "\<lfloor>x\<rfloor> = n - 1" using near by (intro floor_unique) (simp only: of_int_diff of_int_1; linarith)+
    then have "1 / 2 < x - of_int \<lfloor>x\<rfloor>" using False near by simp
    then show ?thesis using f by (simp add: round_even_def Let_def)
  qed
qed

lemma round_even_half: "x - of_int n = 1 / 2 \<Longrightarrow> round_even x = (if even n then n else n + 1)"
proof -
  assume half: "x - of_int n = 1 / 2"
  then have "\<lfloor>x\<rfloor> = n" by (intro floor_unique) linarith+
  then show ?thesis using half by (simp add: round_even_def Let_def)
qed

text \<open>No multiple is nearer.\<close>

lemma round_even_nearest: "\<bar>x - of_int (round_even x)\<bar> \<le> \<bar>x - of_int n\<bar>"
proof -
  have f: "of_int \<lfloor>x\<rfloor> \<le> x" "x < of_int \<lfloor>x\<rfloor> + 1" by linarith+
  have "n \<le> \<lfloor>x\<rfloor> \<or> \<lfloor>x\<rfloor> + 1 \<le> n" by linarith
  then have n: "(of_int n :: rat) \<le> of_int \<lfloor>x\<rfloor> \<or> of_int \<lfloor>x\<rfloor> + 1 \<le> (of_int n :: rat)"
    by (metis of_int_le_iff of_int_add of_int_1)
  show ?thesis
  proof (cases "x - of_int \<lfloor>x\<rfloor> < 1 / 2 \<or> (x - of_int \<lfloor>x\<rfloor> = 1 / 2 \<and> even \<lfloor>x\<rfloor>)")
    case True
    then have "round_even x = \<lfloor>x\<rfloor>" by (simp add: round_even_def Let_def)
    moreover have "x - of_int \<lfloor>x\<rfloor> \<le> 1 / 2" using True by auto
    ultimately show ?thesis using f n by linarith
  next
    case False
    then have "round_even x = \<lfloor>x\<rfloor> + 1" by (simp add: round_even_def Let_def)
    moreover have "1 / 2 \<le> x - of_int \<lfloor>x\<rfloor>" using False by linarith
    ultimately show ?thesis using f n by simp linarith
  qed
qed

text \<open>
  Rounding in a binade: for a number from \<open>2 ^ (e + 52)\<close> up to \<open>2 ^ (e + 53)\<close> in the normal range
  the result is the integer nearest to its quotient by \<open>2 ^ e\<close>, times \<open>2 ^ e\<close>.
\<close>

lemma round_double_binade:
  assumes "pow2 (e + 52) \<le> x" and "x < pow2 (e + 53)" and "- 1074 \<le> e"
    and "of_int (round_even (x / pow2 e)) * pow2 e < pow2 1024"
  shows "round_double x = Fin (of_int (round_even (x / pow2 e)) * pow2 e)"
proof -
  have "0 < x" using assms(1) pow2_pos [of "e + 52"] by linarith
  moreover have "log2_floor x = e + 52"
    using assms(1,2) by (intro log2_floor_eq) (simp_all add: algebra_simps)
  ultimately show ?thesis using assms(3,4) by (simp add: round_double_def round_to_def Let_def)
qed

subsection \<open>Integers are exact\<close>

lemma round_double_int:
  assumes "\<bar>n\<bar> < 2 ^ 53"
  shows "round_double (of_int n) = Fin (of_int n)"
proof (cases "n = 0")
  case False
  let ?a = "\<bar>n\<bar>"
  have bound: "bit_length ?a \<le> 53" using assms by (simp only: bit_length_le)
  have pos: "0 < bit_length ?a" using False by (simp add: bit_length.simps)
  define k where "k = 53 - bit_length ?a"
  have e: "max (log2_floor \<bar>of_int n\<bar> - 52) (- 1074) = - int k"
  proof -
    have "\<lfloor>\<bar>of_int n :: rat\<bar>\<rfloor> = ?a" by (metis floor_of_int of_int_abs)
    moreover have "1 \<le> \<bar>of_int n :: rat\<bar>" using False by (metis of_int_abs of_int_1_le_iff zero_less_abs_iff int_one_le_iff_zero_less)
    ultimately have "log2_floor \<bar>of_int n\<bar> = int (bit_length ?a) - 1" by (simp add: log2_floor_def)
    then show ?thesis using bound pos by (simp add: k_def)
  qed
  have "round_to (- int k) \<bar>of_int n\<bar> = of_int ?a"
  proof -
    have "\<bar>of_int n :: rat\<bar> / pow2 (- int k) = of_int (?a * 2 ^ k)" by (simp add: pow2_neg)
    then have "round_even (\<bar>of_int n\<bar> / pow2 (- int k)) = ?a * 2 ^ k" by (simp only: round_even_of_int)
    then show ?thesis by (simp add: round_to_def pow2_neg)
  qed
  moreover have "(of_int ?a :: rat) < pow2 1024"
  proof -
    have "(of_int ?a :: rat) < of_int (2 ^ 53)" using assms by (simp only: of_int_less_iff)
    also have "\<dots> \<le> pow2 1024" by (simp add: pow2_def)
    finally show ?thesis .
  qed
  ultimately have "round_double (of_int n) = Fin (if n < 0 then - of_int ?a else of_int ?a)"
    using False by (simp add: round_double_def e Let_def)
  then show ?thesis by simp
qed (simp add: round_double_def)

lemma d_add_int: "\<bar>a + b\<bar> < 2 ^ 53 \<Longrightarrow> d_add (Fin (of_int a)) (Fin (of_int b)) = Fin (of_int (a + b))"
  using round_double_int [of "a + b"] by simp

lemma d_mul_int: "\<bar>a * b\<bar> < 2 ^ 53 \<Longrightarrow> d_mul (Fin (of_int a)) (Fin (of_int b)) = Fin (of_int (a * b))"
  using round_double_int [of "a * b"] by simp

lemma d_div_count_exact:
  assumes "0 < n" and "n < 2 ^ 53" and "\<bar>a\<bar> < 2 ^ 53"
  shows "d_div_count (Fin (of_int (a * int n))) n = Fin (of_int a)"
  using round_double_int [of "int n"] round_double_int [of a] assms by (simp add: d_div_count_def)

text \<open>A number of fewer than 24 bits with the point among them is exact as a \<open>float\<close>.\<close>

lemma pow2_add: "pow2 (a + b) = pow2 a * pow2 b"
proof -
  have "pow2 e = 2 powi e" for e by (simp add: pow2_def power_int_def divide_simps)
  then show ?thesis by (simp add: power_int_add)
qed

lemma round_single_exact:
  assumes "\<bar>n\<bar> < 2 ^ 24" and "k \<le> 100"
  shows "round_single (of_int n / 2 ^ k) = Fin (of_int n / 2 ^ k)"
proof (cases "n = 0")
  case False
  define l where "l = bit_length \<bar>n\<bar>"
  have bound: "l \<le> 24" using assms(1) by (simp only: l_def bit_length_le)
  have pos: "0 < l" using False by (simp add: l_def bit_length.simps)
  define y :: rat where "y = of_int \<bar>n\<bar> / 2 ^ k"
  have y: "\<bar>of_int n / 2 ^ k\<bar> = y" "y = of_int \<bar>n\<bar> * pow2 (- int k)" by (simp_all add: y_def pow2_neg)
  have low: "2 ^ (l - 1) \<le> \<bar>n\<bar>" using bit_length_le [of "\<bar>n\<bar>" "l - 1"] pos unfolding l_def by linarith
  have high: "\<bar>n\<bar> < 2 ^ l" using bit_length_le [of "\<bar>n\<bar>" l] unfolding l_def by simp
  have "log2_floor y = int (l - 1) - int k"
  proof (rule log2_floor_eq)
    have "(of_int (2 ^ (l - 1)) :: rat) \<le> of_int \<bar>n\<bar>" using low by (simp only: of_int_le_iff)
    then have "pow2 (int (l - 1)) * pow2 (- int k) \<le> y"
      unfolding y(2) using less_imp_le [OF pow2_pos] by (intro mult_right_mono) simp_all
    then show "pow2 (int (l - 1) - int k) \<le> y" by (simp only: pow2_add [symmetric] diff_conv_add_uminus)
    have "(of_int \<bar>n\<bar> :: rat) < of_int (2 ^ l)" using high by (simp only: of_int_less_iff)
    then have "y < pow2 (int l) * pow2 (- int k)"
      unfolding y(2) by (intro mult_strict_right_mono) simp_all
    then have "y < pow2 (int l + - int k)" by (simp only: pow2_add)
    then show "y < pow2 (int (l - 1) - int k + 1)" using pos by (simp add: of_nat_diff algebra_simps)
  qed
  then have e: "max (log2_floor y - 23) (- 149) = - int k + - int (24 - l)"
    using bound pos assms(2) by (simp add: of_nat_diff)
  have "y / pow2 (- int k + - int (24 - l)) = of_int (\<bar>n\<bar> * 2 ^ (24 - l))"
    unfolding y(2) pow2_add using pow2_pos [of "- int k"] by (simp add: pow2_neg)
  then have "round_even (y / pow2 (- int k + - int (24 - l))) = \<bar>n\<bar> * 2 ^ (24 - l)"
    by (simp only: round_even_of_int)
  then have "round_to (- int k + - int (24 - l)) y = y"
    unfolding round_to_def y(2) pow2_add by (simp add: pow2_neg)
  moreover have "y < pow2 128"
  proof -
    have "(of_int \<bar>n\<bar> :: rat) < of_int (2 ^ 24)" using assms(1) by (simp only: of_int_less_iff)
    moreover have "\<bar>of_int n :: rat\<bar> * 1 \<le> \<bar>of_int n\<bar> * 2 ^ k" by (intro mult_left_mono one_le_power) simp_all
    then have "y \<le> of_int \<bar>n\<bar>" by (simp add: y_def divide_le_eq)
    moreover have "(of_int (2 ^ 24) :: rat) \<le> pow2 128" by (simp add: pow2_def)
    ultimately show ?thesis by linarith
  qed
  ultimately have "round_single (of_int n / 2 ^ k) = Fin (if of_int n / (2 :: rat) ^ k < 0 then - y else y)"
    unfolding round_single_def Let_def y(1) e using False by simp
  then show ?thesis by (auto simp: y_def divide_less_0_iff abs_if)
qed (simp add: round_single_def)

end
