(* ===== verification/Render.thy ===== *)
theory Render
  imports Game2048 Leaderboard Float64 "HOL-Library.Signed_Division"
begin

text \<open>
  HW_17-Game/src/render.c: what is drawn, as the list of the drawing calls. SDL and SDL_ttf are
  parameters: the fonts that open, and the size a font gives to a text (nothing when it cannot be
  rendered). A renderer that was not initialised has a font pointer nobody stored.
\<close>

subsection \<open>Drawing\<close>

type_synonym color = "nat \<times> nat \<times> nat \<times> nat"

record rect =
  rx :: int
  ry :: int
  rw :: int
  rh :: int

datatype draw =
    Draw_color color
  | Draw_clear
  | Draw_blend bool
  | Fill_rect rect
  | Outline_rect rect
  | Draw_text bytes color rect
  | Draw_present

datatype font = Font_uninit | No_font | Font "bytes \<Rightarrow> (int \<times> int) option"

record RenderContext =
  rc_font :: font
  rc_width :: int
  rc_height :: int

text \<open>One after the other, up to an undefined one.\<close>

fun in_order :: "(ub + draw list) list \<Rightarrow> ub + draw list" where
  "in_order [] = Inr []"
| "in_order (Inl u # rest) = Inl u"
| "in_order (Inr ds # rest) = (case in_order rest of Inl u \<Rightarrow> Inl u | Inr es \<Rightarrow> Inr (ds @ es))"

text \<open>A text whose place depends on its size.\<close>

definition put_text :: "font \<Rightarrow> bytes \<Rightarrow> color \<Rightarrow> (int \<Rightarrow> int \<Rightarrow> rect) \<Rightarrow> ub + draw list" where
  "put_text f chars color place =
     (case f of
        Font_uninit \<Rightarrow> Inl Ub_Uninit
      | No_font \<Rightarrow> Inr []
      | Font metrics \<Rightarrow>
          (case metrics chars of
             None \<Rightarrow> Inr []
           | Some (tw, th) \<Rightarrow> Inr [Draw_text chars color (place tw th)]))"

subsection \<open>Colours\<close>

definition colors :: "color list" where
  "colors =
     [(205, 193, 180, 255), (238, 228, 218, 255), (237, 224, 200, 255), (242, 177, 121, 255),
      (245, 149, 99, 255), (246, 124, 95, 255), (246, 94, 59, 255), (237, 207, 114, 255),
      (237, 204, 97, 255), (237, 200, 80, 255), (237, 197, 63, 255), (237, 194, 46, 255), (60, 58, 50, 255)]"

text \<open>
  The logarithm of a positive number cut to an \<open>int\<close>; that of a negative one is no number, and its
  conversion undefined.
\<close>

definition colorIndex :: "int \<Rightarrow> ub + nat" where
  "colorIndex v =
     (if v = 0 then Inr 0
      else if v < 0 then Inl Ub_OobRead
      else let index = bit_length v - 1 in
        Inr (if length colors \<le> index then length colors - 1 else index))"

subsection \<open>The start\<close>

definition FONT_PATHS :: "bytes list" where
  "FONT_PATHS =
     [str ''assets/fonts/LiberationSans-Bold.ttf'',
      str ''/usr/share/fonts/truetype/liberation/LiberationSans-Bold.ttf'',
      str ''/usr/share/fonts/liberation/LiberationSans-Bold.ttf'',
      str ''/usr/share/fonts/truetype/dejavu/DejaVuSans-Bold.ttf'']"

fun open_font :: "(bytes \<Rightarrow> (bytes \<Rightarrow> (int \<times> int) option) option) \<Rightarrow> bytes list \<Rightarrow> font" where
  "open_font ttf [] = No_font"
| "open_font ttf (path # paths) = (case ttf path of Some metrics \<Rightarrow> Font metrics | None \<Rightarrow> open_font ttf paths)"

record render_sys =
  rs_renderer :: bool
  rs_ttf_init :: bool
  rs_fonts :: "bytes \<Rightarrow> (bytes \<Rightarrow> (int \<times> int) option) option"
  rs_size :: "int \<times> int"

text \<open>The context is garbage before; the size and the font are stored only when all goes well.\<close>

definition renderInit :: "render_sys \<Rightarrow> RenderContext \<Rightarrow> bool \<times> RenderContext" where
  "renderInit sys garbage =
     (if \<not> rs_renderer sys then (False, garbage)
      else if \<not> rs_ttf_init sys then (False, garbage)
      else (True, \<lparr>rc_font = open_font (rs_fonts sys) FONT_PATHS,
                   rc_width = fst (rs_size sys), rc_height = snd (rs_size sys)\<rparr>))"

subsection \<open>The board\<close>

definition renderTextCentered :: "font \<Rightarrow> bytes \<Rightarrow> rect \<Rightarrow> color \<Rightarrow> ub + draw list" where
  "renderTextCentered f chars r color =
     put_text f chars color (\<lambda>tw th.
       \<lparr>rx = rx r + (rw r - tw) sdiv 2, ry = ry r + (rh r - th) sdiv 2, rw = tw, rh = th\<rparr>)"

definition cell_size :: "int \<Rightarrow> int \<Rightarrow> int" where
  "cell_size w h =
     (let padding = 20; spacing = 10;
          boardSize = (if w < h then w else h) - 2 * padding in
      (boardSize - (int SIZE - 1) * spacing) sdiv int SIZE)"

definition tile_rect :: "int \<Rightarrow> int \<Rightarrow> nat \<Rightarrow> nat \<Rightarrow> rect" where
  "tile_rect w h i j =
     (let spacing = 10;
          cellSize = cell_size w h;
          boardX = (w - (cellSize * int SIZE + spacing * (int SIZE - 1))) sdiv 2;
          boardY = (h - (cellSize * int SIZE + spacing * (int SIZE - 1))) sdiv 2 in
      \<lparr>rx = boardX + int j * (cellSize + spacing), ry = boardY + int i * (cellSize + spacing),
       rw = cellSize, rh = cellSize\<rparr>)"

definition render_tile :: "RenderContext \<Rightarrow> int \<Rightarrow> nat \<Rightarrow> nat \<Rightarrow> ub + draw list" where
  "render_tile ctx v i j =
     (let r = tile_rect (rc_width ctx) (rc_height ctx) i j in
      case colorIndex v of
        Inl u \<Rightarrow> Inl u
      | Inr index \<Rightarrow>
          in_order
            [Inr [Draw_color (colors ! index), Fill_rect r, Draw_color (187, 173, 160, 255), Outline_rect r],
             if 0 < v
             then renderTextCentered (rc_font ctx) (snprintf 16 (show_int v)) r
               (if v \<le> 4 then (119, 110, 101, 255) else (249, 246, 242, 255))
             else Inr []])"

definition renderGame :: "RenderContext \<Rightarrow> GameState \<Rightarrow> ub + draw list" where
  "renderGame ctx state =
     in_order
       ([Inr [Draw_color (250, 248, 239, 255), Draw_clear]] @
        List.map (\<lambda>(i, j). render_tile ctx (cell (g_board state) (i, j)) i j) cells @
        [put_text (rc_font ctx) (snprintf 32 (str ''Score: '' @ show_int (g_score state))) (119, 110, 101, 255)
           (\<lambda>tw th. \<lparr>rx = rc_width ctx - tw - 20, ry = 20, rw = tw, rh = th\<rparr>),
         Inr [Draw_present]])"

subsection \<open>The other pages\<close>

text \<open>The literals in UTF-8.\<close>

definition TITLE_TABLE :: bytes where
  "TITLE_TABLE =
     [0xD0, 0xA2, 0xD0, 0xB0, 0xD0, 0xB1, 0xD0, 0xBB, 0xD0, 0xB8, 0xD1, 0x86, 0xD0, 0xB0, 0x20, 0xD0,
      0xBB, 0xD0, 0xB8, 0xD0, 0xB4, 0xD0, 0xB5, 0xD1, 0x80, 0xD0, 0xBE, 0xD0, 0xB2]"

definition NO_DATA :: bytes where
  "NO_DATA =
     [0xD0, 0x9D, 0xD0, 0xB5, 0xD1, 0x82, 0x20, 0xD0, 0xB4, 0xD0, 0xB0, 0xD0, 0xBD, 0xD0, 0xBD, 0xD1,
      0x8B, 0xD1, 0x85]"

definition EXIT_ESC :: bytes where
  "EXIT_ESC =
     [0xD0, 0x92, 0xD1, 0x8B, 0xD1, 0x85, 0xD0, 0xBE, 0xD0, 0xB4, 0x20, 0x2D, 0x20, 0x45, 0x53, 0x43]"

definition TITLE_CONTROLS :: bytes where
  "TITLE_CONTROLS =
     [0xD0, 0xA3, 0xD0, 0xBF, 0xD1, 0x80, 0xD0, 0xB0, 0xD0, 0xB2, 0xD0, 0xBB, 0xD0, 0xB5, 0xD0, 0xBD,
      0xD0, 0xB8, 0xD0, 0xB5]"

definition HELP_ARROWS :: bytes where
  "HELP_ARROWS =
     [0xD0, 0xA1, 0xD1, 0x82, 0xD1, 0x80, 0xD0, 0xB5, 0xD0, 0xBB, 0xD0, 0xBA, 0xD0, 0xB8, 0x20, 0x2D,
      0x20, 0xD0, 0xBF, 0xD0, 0xB5, 0xD1, 0x80, 0xD0, 0xB5, 0xD0, 0xB4, 0xD0, 0xB2, 0xD0, 0xB8, 0xD0,
      0xB6, 0xD0, 0xB5, 0xD0, 0xBD, 0xD0, 0xB8, 0xD0, 0xB5]"

definition HELP_R :: bytes where
  "HELP_R =
     [0x52, 0x20, 0x2D, 0x20, 0xD0, 0xBF, 0xD0, 0xB5, 0xD1, 0x80, 0xD0, 0xB5, 0xD0, 0xB7, 0xD0, 0xB0,
      0xD0, 0xBF, 0xD1, 0x83, 0xD1, 0x81, 0xD0, 0xBA]"

definition HELP_M :: bytes where
  "HELP_M =
     [0x4D, 0x20, 0x2D, 0x20, 0xD0, 0xB7, 0xD0, 0xB2, 0xD1, 0x83, 0xD0, 0xBA]"

definition HELP_ESC :: bytes where
  "HELP_ESC =
     [0x45, 0x53, 0x43, 0x20, 0x2D, 0x20, 0xD0, 0xBC, 0xD0, 0xB5, 0xD0, 0xBD, 0xD1, 0x8E]"

definition ITEM_NEW :: bytes where
  "ITEM_NEW =
     [0xD0, 0x9D, 0xD0, 0xBE, 0xD0, 0xB2, 0xD0, 0xB0, 0xD1, 0x8F, 0x20, 0xD0, 0xB8, 0xD0, 0xB3, 0xD1,
      0x80, 0xD0, 0xB0]"

definition ITEM_EXIT :: bytes where
  "ITEM_EXIT =
     [0xD0, 0x92, 0xD1, 0x8B, 0xD1, 0x85, 0xD0, 0xBE, 0xD0, 0xB4]"

definition centered :: "RenderContext \<Rightarrow> int \<Rightarrow> int \<Rightarrow> int \<Rightarrow> rect" where
  "centered ctx y tw th = \<lparr>rx = (rc_width ctx - tw) sdiv 2, ry = y, rw = tw, rh = th\<rparr>"

text \<open>
  Without a font the page of the table returns before it is presented.
\<close>

definition table_row :: "RenderContext \<Rightarrow> nat \<Rightarrow> LeaderboardEntry \<Rightarrow> ub + draw list" where
  "table_row ctx i e =
     put_text (rc_font ctx) (snprintf 64 (show_int (int i + 1) @ str ''. '' @ le_name e @ str '' - '' @ show_int (le_score e)))
       (200, 200, 200, 255) (centered ctx (80 + int i * 45))"

definition renderLeaderboard :: "RenderContext \<Rightarrow> LeaderboardEntry list \<Rightarrow> ub + draw list" where
  "renderLeaderboard ctx entries =
     (let back = [Draw_blend True, Draw_color (0, 0, 0, 200),
                  Fill_rect \<lparr>rx = 0, ry = 0, rw = rc_width ctx, rh = rc_height ctx\<rparr>, Draw_blend False] in
      case rc_font ctx of
        Font_uninit \<Rightarrow> Inl Ub_Uninit
      | No_font \<Rightarrow> Inr back
      | Font _ \<Rightarrow>
          in_order
            ([Inr back, put_text (rc_font ctx) TITLE_TABLE (255, 255, 255, 255) (centered ctx 10)] @
             (if entries = [] then [put_text (rc_font ctx) NO_DATA (200, 200, 200, 255) (centered ctx 80)]
              else List.map (\<lambda>(i, e). table_row ctx i e) (enumerate 0 (take 10 entries))) @
             [put_text (rc_font ctx) EXIT_ESC (200, 200, 200, 255) (centered ctx 540), Inr [Draw_present]]))"

definition renderMenu :: "RenderContext \<Rightarrow> bytes list \<Rightarrow> nat \<Rightarrow> ub + draw list" where
  "renderMenu ctx items selected =
     in_order
       ([Inr [Draw_color (250, 248, 239, 255), Draw_clear],
         put_text (rc_font ctx) (str ''*** 2048 ***'') (119, 110, 101, 255) (centered ctx 100)] @
        List.map (\<lambda>(i, item).
          put_text (rc_font ctx) item (if i = selected then (246, 124, 95, 255) else (119, 110, 101, 255))
            (centered ctx (250 + int i * 60))) (enumerate 0 items) @
        [Inr [Draw_present]])"

definition renderControls :: "RenderContext \<Rightarrow> ub + draw list" where
  "renderControls ctx =
     in_order
       ([Inr [Draw_color (250, 248, 239, 255), Draw_clear],
         put_text (rc_font ctx) TITLE_CONTROLS (119, 110, 101, 255) (centered ctx 80)] @
        List.map (\<lambda>(i, chars). put_text (rc_font ctx) chars (119, 110, 101, 255) (centered ctx (200 + int i * 40)))
          (enumerate 0 [HELP_ARROWS, HELP_R, HELP_M, HELP_ESC, [], EXIT_ESC]) @
        [Inr [Draw_present]])"

subsection \<open>The tiles in the window\<close>

definition in_window :: "int \<Rightarrow> int \<Rightarrow> rect \<Rightarrow> bool" where
  "in_window w h r \<longleftrightarrow> 0 \<le> rx r \<and> 0 \<le> ry r \<and> 0 \<le> rw r \<and> 0 \<le> rh r \<and> rx r + rw r \<le> w \<and> ry r + rh r \<le> h"

text \<open>At least \<open>gap\<close> points lie between two rectangles, side by side or one above the other.\<close>

definition apart :: "int \<Rightarrow> rect \<Rightarrow> rect \<Rightarrow> bool" where
  "apart gap r s \<longleftrightarrow>
     rx r + rw r + gap \<le> rx s \<or> rx s + rw s + gap \<le> rx r \<or>
     ry r + rh r + gap \<le> ry s \<or> ry s + rh s + gap \<le> ry r"

lemma sdiv_nonneg: "0 \<le> a \<Longrightarrow> 0 < b \<Longrightarrow> a sdiv b = (a div b :: int)"
  by (simp add: signed_divide_int_def sgn_if)

lemma cell_size_bounds:
  assumes "70 \<le> w" and "70 \<le> h"
  shows "0 \<le> cell_size w h" and "4 * cell_size w h + 70 \<le> w" and "4 * cell_size w h + 70 \<le> h"
proof -
  have "cell_size w h = ((if w < h then w else h) - 70) div 4"
    using assms by (simp add: cell_size_def Let_def sdiv_nonneg)
  then show "0 \<le> cell_size w h" "4 * cell_size w h + 70 \<le> w" "4 * cell_size w h + 70 \<le> h"
    using assms by auto
qed

text \<open>
  in a window of at least 70 by 70 points the sixteen tiles lie inside the window, at least 20
  points from its edges, and any two of them keep a distance of 10 points.
\<close>

theorem tiles_in_window:
  assumes "70 \<le> w" and "70 \<le> h" and "i < SIZE" and "j < SIZE" and "i' < SIZE" and "j' < SIZE"
  shows "in_window (w - 20) (h - 20) (tile_rect w h i j) \<and> 20 \<le> rx (tile_rect w h i j) \<and> 20 \<le> ry (tile_rect w h i j)
    \<and> ((i, j) = (i', j') \<or> apart 10 (tile_rect w h i j) (tile_rect w h i' j'))"
proof -
  let ?c = "cell_size w h"
  let ?x = "(w - (?c * 4 + 30)) div 2" and ?y = "(h - (?c * 4 + 30)) div 2"
  note c = cell_size_bounds [OF assms(1,2)]
  have rect: "tile_rect w h i j = \<lparr>rx = ?x + int j * (?c + 10), ry = ?y + int i * (?c + 10), rw = ?c, rh = ?c\<rparr>" for i j
    using c by (simp add: tile_rect_def Let_def sdiv_nonneg)
  have xy: "20 \<le> ?x" "?x + 4 * ?c + 50 \<le> w" "20 \<le> ?y" "?y + 4 * ?c + 50 \<le> h"
    using c by (simp_all add: algebra_simps)
  have steps: "0 \<le> int k * (?c + 10)" "int k * (?c + 10) + ?c \<le> 4 * ?c + 30" if "k < 4" for k
  proof -
    have "k = 0 \<or> k = 1 \<or> k = 2 \<or> k = 3" using that by auto
    then show "0 \<le> int k * (?c + 10)" "int k * (?c + 10) + ?c \<le> 4 * ?c + 30" using c(1) by auto
  qed
  have far: "20 \<le> ?x + int k * (?c + 10)" "20 \<le> ?y + int k * (?c + 10)" if "k < 4" for k
    using steps(1) [OF that] xy by linarith+
  have away: "int k * (?c + 10) + ?c + 10 \<le> int l * (?c + 10)" if "k < l" for k l
  proof -
    have "(int k + 1) * (?c + 10) \<le> int l * (?c + 10)" using that c(1) by (intro mult_right_mono) auto
    then show ?thesis by (simp add: algebra_simps)
  qed
  have "in_window (w - 20) (h - 20) (tile_rect w h i j) \<and> 20 \<le> rx (tile_rect w h i j) \<and> 20 \<le> ry (tile_rect w h i j)"
    using steps(2) [of i] steps(2) [of j] far [of i] far [of j] assms(3,4) xy c(1) by (simp add: rect in_window_def)
  moreover have "apart 10 (tile_rect w h i j) (tile_rect w h i' j')" if "(i, j) \<noteq> (i', j')"
  proof -
    have "i < i' \<or> i' < i \<or> j < j' \<or> j' < j" using that by auto
    then show ?thesis
      using away [of i i'] away [of i' i] away [of j j'] away [of j' j] by (auto simp: rect apart_def)
  qed
  ultimately show ?thesis by blast
qed

lemma tiles_in_window_witness:
  "in_window 580 580 (tile_rect 600 600 0 3) \<and> apart 10 (tile_rect 600 600 0 3) (tile_rect 600 600 1 3)"
  using tiles_in_window [of 600 600 0 3 1 3] by simp

text \<open>The score is written over the tiles: in the window of the start it meets the tile in the upper right corner.\<close>

lemma score_over_tiles:
  assumes "1 < tw" and "tw \<le> 558" and "1 < th"
  shows "\<not> apart 0 \<lparr>rx = 600 - tw - 20, ry = 20, rw = tw, rh = th\<rparr> (tile_rect 600 600 0 3)"
proof -
  have "tile_rect 600 600 0 3 = \<lparr>rx = 447, ry = 21, rw = 132, rh = 132\<rparr>"
    by (simp add: tile_rect_def cell_size_def sdiv_nonneg)
  then show ?thesis using assms by (simp add: apart_def)
qed

subsection \<open>Nothing undefined\<close>

lemma colorIndex_tile:
  assumes "0 \<le> v"
  obtains index where "colorIndex v = Inr index" and "index < length colors"
  using assms by (cases "v = 0") (auto simp: colorIndex_def Let_def colors_def)

text \<open>The colour of a power of two is the one at its exponent, the last one from 4096 on.\<close>

lemma colorIndex_power:
  assumes "0 < n"
  shows "colorIndex (2 ^ n) = Inr (min n 12)"
proof -
  have "bit_length (2 ^ n) = Suc n" by (rule bit_length_eq) simp_all
  then show ?thesis by (simp add: colorIndex_def colors_def Let_def min_def)
qed

lemma in_order_defined:
  "\<forall>x\<in>set xs. \<exists>ds. x = Inr ds \<Longrightarrow> \<exists>ds. in_order xs = Inr ds"
proof (induction xs)
  case (Cons x xs)
  then obtain ds es where "x = Inr ds" "in_order xs = Inr es" by auto
  then show ?case by simp
qed simp

lemma put_text_defined: "f \<noteq> Font_uninit \<Longrightarrow> \<exists>ds. put_text f chars color place = Inr ds"
  by (auto simp: put_text_def split: font.splits option.splits)

lemma render_tile_defined:
  assumes "rc_font ctx \<noteq> Font_uninit" and "0 \<le> v"
  shows "\<exists>ds. render_tile ctx v i j = Inr ds"
proof -
  obtain index where "colorIndex v = Inr index" using colorIndex_tile [OF assms(2)] by blast
  moreover have "\<exists>ds. renderTextCentered (rc_font ctx) chars r color = Inr ds" for chars r color
    unfolding renderTextCentered_def by (rule put_text_defined [OF assms(1)])
  then have "\<exists>ds. in_order [Inr ds0, if 0 < v then renderTextCentered (rc_font ctx) chars r color else Inr []] = Inr ds"
    for ds0 chars r color by (intro in_order_defined) auto
  ultimately show ?thesis by (simp add: render_tile_def Let_def)
qed

lemma renderGame_defined:
  assumes "rc_font ctx \<noteq> Font_uninit" and "board_ok (g_board state)"
  shows "\<exists>ds. renderGame ctx state = Inr ds"
proof -
  have "0 \<le> cell (g_board state) (i, j)" if "(i, j) \<in> set cells" for i j
    using that board_okD(3) [OF assms(2), of i j] tile_pos by (force simp: cells_def)
  then show ?thesis
    unfolding renderGame_def using assms(1)
    by (intro in_order_defined) (auto intro!: render_tile_defined put_text_defined)
qed

lemma other_pages_defined:
  assumes "rc_font ctx \<noteq> Font_uninit"
  shows "\<exists>ds. renderMenu ctx items selected = Inr ds" and "\<exists>ds. renderControls ctx = Inr ds"
    and "\<exists>ds. renderLeaderboard ctx entries = Inr ds"
proof -
  show "\<exists>ds. renderMenu ctx items selected = Inr ds"
    unfolding renderMenu_def using assms by (intro in_order_defined) (auto intro!: put_text_defined)
  show "\<exists>ds. renderControls ctx = Inr ds"
    unfolding renderControls_def using assms by (intro in_order_defined) (auto intro!: put_text_defined)
  show "\<exists>ds. renderLeaderboard ctx entries = Inr ds"
  proof (cases "rc_font ctx")
    case (Font metrics)
    have "\<exists>ds. put_text (Font metrics) chars color place = Inr ds" for chars color place
      by (rule put_text_defined) simp
    then show ?thesis
      unfolding renderLeaderboard_def Let_def Font font.case
      by (intro in_order_defined) (auto simp: table_row_def Font)
  qed (use assms in \<open>simp_all add: renderLeaderboard_def Let_def\<close>)
qed

end
