(* ===== verification/GameMain.thy ===== *)
theory GameMain
  imports GameApp Audio Render
begin

text \<open>
  HW_17-Game/src/2048.c: the program as a whole, with the set-up and the end of SDL around the event
  loop of \<open>GameApp\<close>, the sounds of \<open>Audio\<close> and the pages of \<open>Render\<close>.
\<close>

subsection \<open>The sounds of an event\<close>

definition play_moved :: "rnd \<Rightarrow> key \<Rightarrow> app \<Rightarrow> bool" where
  "play_moved rnd k a =
     (case rnd of (r1, r2, r3, r4) \<Rightarrow>
        (case k of
           SDLK_UP \<Rightarrow> fst (gameMoveUp r1 r2 (a_game a))
         | SDLK_DOWN \<Rightarrow> fst (gameMoveDown r1 r2 (a_game a))
         | SDLK_LEFT \<Rightarrow> fst (gameMoveLeft r1 r2 (a_game a))
         | SDLK_RIGHT \<Rightarrow> fst (gameMoveRight r1 r2 (a_game a))
         | SDLK_r \<Rightarrow> True
         | _ \<Rightarrow> False))"

text \<open>The calls of the sound functions that the handler of an event makes, in their order.\<close>

definition event_audio :: "rnd \<Rightarrow> sdl_event \<Rightarrow> app \<Rightarrow> (audio \<Rightarrow> ub + (audio \<times> mix_call list)) list" where
  "event_audio rnd ev a =
     (case ev of
        SDL_KEYDOWN k \<Rightarrow>
          (case a_phase a of
             PHASE_MENU \<Rightarrow> (if k \<in> {SDLK_UP, SDLK_DOWN, SDLK_RETURN, SDLK_KP_ENTER} then [audioPlayMove] else [])
           | PHASE_PLAY \<Rightarrow>
               let game = a_game (play_switch rnd k a) in
               (if k = SDLK_m then [audioToggle] else []) @
               (if play_moved rnd k a then [audioPlayMove] else []) @
               (if g_win game then [audioPlayWin] else if g_gameOver game then [audioPlayGameOver] else [])
           | PHASE_CONTROLS \<Rightarrow> [audioPlayMove]
           | PHASE_LEADERBOARD \<Rightarrow> [audioPlayMove])
      | _ \<Rightarrow> [])"

subsection \<open>The program\<close>

record program =
  pr_app :: app
  pr_audio :: audio
  pr_render :: RenderContext
  pr_calls :: "mix_call list"
  pr_frames :: "draw list list"

text \<open>An event with what it may use: the file of the table, random numbers, the size of a resize.\<close>

record input =
  in_open_ok :: bool
  in_rnd :: rnd
  in_event :: sdl_event
  in_resized :: "(int \<times> int) option"

definition handle_event :: "input \<Rightarrow> program \<Rightarrow> ub + program" where
  "handle_event i p =
     (case audio_seq (event_audio (in_rnd i) (in_event i) (pr_app p)) (pr_audio p) of
        Inl u \<Rightarrow> Inl u
      | Inr (a, calls) \<Rightarrow>
          Inr (p\<lparr>pr_app := app_event (in_open_ok i) (in_rnd i) (in_event i) (pr_app p),
                 pr_audio := a, pr_calls := pr_calls p @ calls,
                 pr_render :=
                   (case (in_event i, in_resized i) of
                      (SDL_WINDOWEVENT, Some (w, h)) \<Rightarrow> (pr_render p)\<lparr>rc_width := w, rc_height := h\<rparr>
                    | _ \<Rightarrow> pr_render p)\<rparr>))"

fun handle_events :: "input list \<Rightarrow> program \<Rightarrow> ub + program" where
  "handle_events [] p = Inr p"
| "handle_events (i # rest) p = (case handle_event i p of Inl u \<Rightarrow> Inl u | Inr p \<Rightarrow> handle_events rest p)"

definition MENU_ITEMS :: "bytes list" where
  "MENU_ITEMS = [ITEM_NEW, TITLE_CONTROLS, TITLE_TABLE, ITEM_EXIT]"

definition draw_page :: "RenderContext \<Rightarrow> app \<Rightarrow> ub + draw list" where
  "draw_page ctx a =
     (case a_phase a of
        PHASE_MENU \<Rightarrow> renderMenu ctx MENU_ITEMS (a_item a)
      | PHASE_PLAY \<Rightarrow> renderGame ctx (a_game a)
      | PHASE_CONTROLS \<Rightarrow> renderControls ctx
      | PHASE_LEADERBOARD \<Rightarrow> renderLeaderboard ctx (a_table a))"

text \<open>
  The main loop over rounds, each the events that are there when it polls; the flag is \<open>False\<close> when
  the rounds run out while the program is running.
\<close>

fun game_loop :: "input list list \<Rightarrow> program \<Rightarrow> ub + (program \<times> bool)" where
  "game_loop rounds p =
     (if \<not> a_running (pr_app p) then Inr (p, True)
      else
        case rounds of
          [] \<Rightarrow> Inr (p, False)
        | events # rounds \<Rightarrow>
            (case handle_events events p of
               Inl u \<Rightarrow> Inl u
             | Inr p \<Rightarrow>
                 (case draw_page (pr_render p) (pr_app p) of
                    Inl u \<Rightarrow> Inl u
                  | Inr frame \<Rightarrow> game_loop rounds (p\<lparr>pr_frames := pr_frames p @ [frame]\<rparr>))))"

declare game_loop.simps [simp del]

record sdl_sys =
  ss_init :: bool
  ss_mix :: mix_sys
  ss_window :: bool
  ss_create_renderer :: bool
  ss_render :: render_sys
  ss_garbage :: "int \<times> int"

text \<open>\<open>renderDestroy\<close> looks at the font; the objects of SDL are destroyed behind it.\<close>

definition renderDestroy :: "RenderContext \<Rightarrow> ub + unit" where
  "renderDestroy ctx = (if rc_font ctx = Font_uninit then Inl Ub_Uninit else Inr ())"

text \<open>
  The exit code (\<open>None\<close> while the program is running), the calls of the mixer and the frames.
\<close>

definition game_main :: "sdl_sys \<Rightarrow> rnd \<Rightarrow> bytes option \<Rightarrow> input list list
    \<Rightarrow> ub + (int option \<times> mix_call list \<times> draw list list)" where
  "game_main sys rnd file rounds =
     (if \<not> ss_init sys then Inr (Some 1, [], [])
      else
        let (_, audio, calls) = audioInit (ss_mix sys) in
        if \<not> ss_window sys \<or> \<not> ss_create_renderer sys then
          (case audioDestroy audio of Inl u \<Rightarrow> Inl u | Inr (_, frees) \<Rightarrow> Inr (Some 1, calls @ frees, []))
        else
          let garbage = \<lparr>rc_font = Font_uninit, rc_width = fst (ss_garbage sys), rc_height = snd (ss_garbage sys)\<rparr>;
              (_, ctx) = renderInit (ss_render sys) garbage in
          case audioPlayMusic audio of
            Inl u \<Rightarrow> Inl u
          | Inr (audio, music) \<Rightarrow>
              (case game_loop rounds \<lparr>pr_app = app_start rnd file, pr_audio = audio, pr_render = ctx,
                  pr_calls = calls @ music, pr_frames = []\<rparr> of
                 Inl u \<Rightarrow> Inl u
               | Inr (p, ended) \<Rightarrow>
                   if \<not> ended then Inr (None, pr_calls p, pr_frames p)
                   else
                     (case renderDestroy (pr_render p) of
                        Inl u \<Rightarrow> Inl u
                      | Inr _ \<Rightarrow>
                          (case audioDestroy (pr_audio p) of
                             Inl u \<Rightarrow> Inl u
                           | Inr (_, frees) \<Rightarrow> Inr (Some 0, pr_calls p @ frees, pr_frames p)))))"

subsection \<open>Without sound or fonts\<close>

text \<open>
  when the sound device cannot be opened, which the program takes for a warning, what it does is
  undefined, whatever happens later: the context nobody stored in is read by \<open>audioPlayMusic\<close>, or by
  \<open>audioDestroy\<close> when there is no window.
\<close>

theorem no_sound_undefined:
  assumes "ss_init sys" and "\<not> ms_open (ss_mix sys)"
  shows "game_main sys rnd file rounds = Inl Ub_Uninit"
  using assms by (simp add: game_main_def audioInit_def audioDestroy_def audioPlayMusic_def with_audio_def Let_def
      split: prod.splits)

lemma no_sound_undefined_witness:
  "game_main \<lparr>ss_init = True, ss_mix = \<lparr>ms_open = False, ms_music = True, ms_move = True, ms_win = True, ms_game_over = True\<rparr>,
     ss_window = True, ss_create_renderer = True,
     ss_render = \<lparr>rs_renderer = True, rs_ttf_init = True, rs_fonts = (\<lambda>_. None), rs_size = (600, 600)\<rparr>, ss_garbage = (0, 0)\<rparr>
     (0, 0, 0, 0) None [] = Inl Ub_Uninit"
  by (rule no_sound_undefined) simp_all

subsection \<open>With sound and fonts\<close>

lemma audio_seq_defined:
  assumes "\<forall>f\<in>set fs. \<forall>ctx. \<exists>ctx' calls. f (Some ctx) = Inr (Some ctx', calls)"
  shows "\<exists>ctx' calls. audio_seq fs (Some ctx) = Inr (Some ctx', calls)"
  using assms
proof (induction fs arbitrary: ctx)
  case (Cons f fs)
  then obtain ctx1 calls1 where f: "f (Some ctx) = Inr (Some ctx1, calls1)" by (meson list.set_intros(1))
  moreover obtain ctx2 calls2 where "audio_seq fs (Some ctx1) = Inr (Some ctx2, calls2)"
    using Cons.IH Cons.prems by (meson list.set_intros(2))
  ultimately show ?case by simp
qed simp

definition sound_calls :: "(audio \<Rightarrow> ub + (audio \<times> mix_call list)) set" where
  "sound_calls = {audioPlayMove, audioToggle, audioPlayWin, audioPlayGameOver}"

lemma sound_callsI:
  "audioPlayMove \<in> sound_calls" "audioToggle \<in> sound_calls" "audioPlayWin \<in> sound_calls" "audioPlayGameOver \<in> sound_calls"
  by (simp_all add: sound_calls_def)

lemma sound_calls_defined:
  assumes "f \<in> sound_calls"
  shows "\<exists>ctx' calls. f (Some ctx) = Inr (Some ctx', calls)"
proof -
  have "\<exists>g. h = with_audio g" if "h = audioPlayMove \<or> h = audioToggle \<or> h = audioPlayWin \<or> h = audioPlayGameOver" for h
    using that audioPlayMove_def audioToggle_def audioPlayWin_def audioPlayGameOver_def by blast
  then obtain g where "f = with_audio g" using assms by (auto simp: sound_calls_def)
  then show ?thesis by (simp add: with_audio_Some)
qed

lemma event_audio_calls: "set (event_audio rnd ev a) \<subseteq> sound_calls"
proof (cases ev)
  case (SDL_KEYDOWN k)
  then show ?thesis
    by (cases "a_phase a") (auto simp: event_audio_def Let_def sound_callsI)
qed (simp_all add: event_audio_def)

lemma event_audio_defined: "\<exists>ctx' calls. audio_seq (event_audio rnd ev a) (Some ctx) = Inr (Some ctx', calls)"
  using event_audio_calls by (intro audio_seq_defined) (blast intro: sound_calls_defined)

lemma board_event_ok:
  assumes "board_ok (g_board (a_game a))"
  shows "board_ok (g_board (a_game (app_event open_ok rnd ev a)))"
proof -
  obtain r1 r2 r3 r4 where rnd: "rnd = (r1, r2, r3, r4)" by (cases rnd)
  have "board_ok (g_board (snd m))"
    if "m = gameMoveUp r1 r2 (a_game a) \<or> m = gameMoveDown r1 r2 (a_game a)
      \<or> m = gameMoveLeft r1 r2 (a_game a) \<or> m = gameMoveRight r1 r2 (a_game a)" for m
  proof -
    obtain c st where m: "m = (c, st)" by (cases m)
    then have "move_ok (a_game a) c st" using all_moves_ok [OF assms, of r1 r2 c st] that by auto
    then show ?thesis using assms by (auto simp: m move_ok_def)
  qed
  then have play: "board_ok (g_board (a_game (play_switch rnd k a)))" for k
    using assms new_game_ok [of rnd] by (cases k) (simp_all add: play_switch_def rnd)
  have enter: "board_ok (g_board (a_game (menu_enter rnd a)))"
    using assms new_game_ok [of rnd] by (simp add: menu_enter_def)
  have menu: "board_ok (g_board (a_game (menu_key rnd k a)))" for k
    using assms enter by (cases k) (simp_all add: menu_key_def)
  show ?thesis
  proof (cases ev)
    case (SDL_KEYDOWN k)
    then show ?thesis
      using assms play menu by (cases "a_phase a") (simp_all add: app_event_def a_game_play_result)
  qed (use assms in \<open>simp_all add: app_event_def\<close>)
qed

text \<open>The program between events, with sound, a font and a board.\<close>

definition program_ok :: "program \<Rightarrow> bool" where
  "program_ok p \<longleftrightarrow> pr_audio p \<noteq> None \<and> rc_font (pr_render p) \<noteq> Font_uninit \<and> board_ok (g_board (a_game (pr_app p)))"

lemma handle_event_ok:
  assumes "program_ok p"
  shows "\<exists>p'. handle_event i p = Inr p' \<and> program_ok p'"
proof -
  obtain ctx where ctx: "pr_audio p = Some ctx" using assms by (auto simp: program_ok_def)
  then obtain ctx' calls where "audio_seq (event_audio (in_rnd i) (in_event i) (pr_app p)) (pr_audio p) = Inr (Some ctx', calls)"
    using event_audio_defined by metis
  then show ?thesis
    using assms board_event_ok
    by (auto simp: handle_event_def program_ok_def split: sdl_event.split option.split)
qed

lemma handle_events_ok: "program_ok p \<Longrightarrow> \<exists>p'. handle_events is p = Inr p' \<and> program_ok p'"
proof (induction "is" arbitrary: p)
  case (Cons i "is")
  then obtain p1 where "handle_event i p = Inr p1" "program_ok p1" using handle_event_ok by blast
  with Cons.IH show ?case by simp
qed simp

lemma draw_page_defined:
  assumes "program_ok p"
  shows "\<exists>frame. draw_page (pr_render p) (pr_app p) = Inr frame"
  using assms renderGame_defined other_pages_defined
  by (auto simp: draw_page_def program_ok_def split: GamePhase.split)

lemma game_loop_ok: "program_ok p \<Longrightarrow> \<exists>p' ended. game_loop rounds p = Inr (p', ended) \<and> program_ok p'"
proof (induction rounds arbitrary: p)
  case Nil
  then show ?case by (cases "a_running (pr_app p)") (auto simp: game_loop.simps)
next
  case (Cons events rounds)
  show ?case
  proof (cases "a_running (pr_app p)")
    case True
    obtain p1 where p1: "handle_events events p = Inr p1" "program_ok p1" using handle_events_ok [OF Cons.prems] by blast
    then obtain frame where frame: "draw_page (pr_render p1) (pr_app p1) = Inr frame" using draw_page_defined by blast
    have "program_ok (p1\<lparr>pr_frames := pr_frames p1 @ [frame]\<rparr>)" using p1(2) by (simp add: program_ok_def)
    from Cons.IH [OF this] show ?thesis
      using True p1(1) frame by (subst game_loop.simps) simp
  qed (use Cons.prems in \<open>auto simp: game_loop.simps\<close>)
qed



text \<open>While the sound is off, nothing is played: only the key that switches it has an effect.\<close>

lemma muted_is_silent:
  assumes "\<not> ac_enabled ctx" and "ev \<noteq> SDL_KEYDOWN SDLK_m \<or> a_phase a \<noteq> PHASE_PLAY"
  shows "audio_seq (event_audio rnd ev a) (Some ctx) = Inr (Some ctx, [])"
proof -
  have off: "f (Some ctx) = Inr (Some ctx, [])" if "f \<in> {audioPlayMove, audioPlayWin, audioPlayGameOver}" for f
    using that assms(1) by (auto simp: audioPlayMove_def audioPlayWin_def audioPlayGameOver_def with_audio_Some)
  have "set (event_audio rnd ev a) \<subseteq> {audioPlayMove, audioPlayWin, audioPlayGameOver}"
  proof (cases ev)
    case (SDL_KEYDOWN k)
    then show ?thesis using assms(2) by (cases "a_phase a") (auto simp: event_audio_def Let_def)
  qed (simp_all add: event_audio_def)
  moreover have "\<forall>f\<in>set fs. f (Some ctx) = Inr (Some ctx, []) \<Longrightarrow> audio_seq fs (Some ctx) = Inr (Some ctx, [])" for fs
    by (induction fs) simp_all
  ultimately show ?thesis using off by blast
qed

end
