(* ===== verification/Crc32.thy ===== *)
theory Crc32
  imports CStd
begin

text \<open>
  HW_09-CRC: the table-driven CRC-32 of crc32.c and the program check_crc32.c that runs it over a
  file in mapped chunks. The reference is the bitwise shift register of the reflected polynomial.
\<close>

subsection \<open>The table-driven update\<close>

definition crc32_tab :: "u32 list" where
  "crc32_tab = [
     0x00000000, 0x77073096, 0xee0e612c, 0x990951ba, 0x076dc419, 0x706af48f,
     0xe963a535, 0x9e6495a3, 0x0edb8832, 0x79dcb8a4, 0xe0d5e91e, 0x97d2d988,
     0x09b64c2b, 0x7eb17cbd, 0xe7b82d07, 0x90bf1d91, 0x1db71064, 0x6ab020f2,
     0xf3b97148, 0x84be41de, 0x1adad47d, 0x6ddde4eb, 0xf4d4b551, 0x83d385c7,
     0x136c9856, 0x646ba8c0, 0xfd62f97a, 0x8a65c9ec, 0x14015c4f, 0x63066cd9,
     0xfa0f3d63, 0x8d080df5, 0x3b6e20c8, 0x4c69105e, 0xd56041e4, 0xa2677172,
     0x3c03e4d1, 0x4b04d447, 0xd20d85fd, 0xa50ab56b, 0x35b5a8fa, 0x42b2986c,
     0xdbbbc9d6, 0xacbcf940, 0x32d86ce3, 0x45df5c75, 0xdcd60dcf, 0xabd13d59,
     0x26d930ac, 0x51de003a, 0xc8d75180, 0xbfd06116, 0x21b4f4b5, 0x56b3c423,
     0xcfba9599, 0xb8bda50f, 0x2802b89e, 0x5f058808, 0xc60cd9b2, 0xb10be924,
     0x2f6f7c87, 0x58684c11, 0xc1611dab, 0xb6662d3d, 0x76dc4190, 0x01db7106,
     0x98d220bc, 0xefd5102a, 0x71b18589, 0x06b6b51f, 0x9fbfe4a5, 0xe8b8d433,
     0x7807c9a2, 0x0f00f934, 0x9609a88e, 0xe10e9818, 0x7f6a0dbb, 0x086d3d2d,
     0x91646c97, 0xe6635c01, 0x6b6b51f4, 0x1c6c6162, 0x856530d8, 0xf262004e,
     0x6c0695ed, 0x1b01a57b, 0x8208f4c1, 0xf50fc457, 0x65b0d9c6, 0x12b7e950,
     0x8bbeb8ea, 0xfcb9887c, 0x62dd1ddf, 0x15da2d49, 0x8cd37cf3, 0xfbd44c65,
     0x4db26158, 0x3ab551ce, 0xa3bc0074, 0xd4bb30e2, 0x4adfa541, 0x3dd895d7,
     0xa4d1c46d, 0xd3d6f4fb, 0x4369e96a, 0x346ed9fc, 0xad678846, 0xda60b8d0,
     0x44042d73, 0x33031de5, 0xaa0a4c5f, 0xdd0d7cc9, 0x5005713c, 0x270241aa,
     0xbe0b1010, 0xc90c2086, 0x5768b525, 0x206f85b3, 0xb966d409, 0xce61e49f,
     0x5edef90e, 0x29d9c998, 0xb0d09822, 0xc7d7a8b4, 0x59b33d17, 0x2eb40d81,
     0xb7bd5c3b, 0xc0ba6cad, 0xedb88320, 0x9abfb3b6, 0x03b6e20c, 0x74b1d29a,
     0xead54739, 0x9dd277af, 0x04db2615, 0x73dc1683, 0xe3630b12, 0x94643b84,
     0x0d6d6a3e, 0x7a6a5aa8, 0xe40ecf0b, 0x9309ff9d, 0x0a00ae27, 0x7d079eb1,
     0xf00f9344, 0x8708a3d2, 0x1e01f268, 0x6906c2fe, 0xf762575d, 0x806567cb,
     0x196c3671, 0x6e6b06e7, 0xfed41b76, 0x89d32be0, 0x10da7a5a, 0x67dd4acc,
     0xf9b9df6f, 0x8ebeeff9, 0x17b7be43, 0x60b08ed5, 0xd6d6a3e8, 0xa1d1937e,
     0x38d8c2c4, 0x4fdff252, 0xd1bb67f1, 0xa6bc5767, 0x3fb506dd, 0x48b2364b,
     0xd80d2bda, 0xaf0a1b4c, 0x36034af6, 0x41047a60, 0xdf60efc3, 0xa867df55,
     0x316e8eef, 0x4669be79, 0xcb61b38c, 0xbc66831a, 0x256fd2a0, 0x5268e236,
     0xcc0c7795, 0xbb0b4703, 0x220216b9, 0x5505262f, 0xc5ba3bbe, 0xb2bd0b28,
     0x2bb45a92, 0x5cb36a04, 0xc2d7ffa7, 0xb5d0cf31, 0x2cd99e8b, 0x5bdeae1d,
     0x9b64c2b0, 0xec63f226, 0x756aa39c, 0x026d930a, 0x9c0906a9, 0xeb0e363f,
     0x72076785, 0x05005713, 0x95bf4a82, 0xe2b87a14, 0x7bb12bae, 0x0cb61b38,
     0x92d28e9b, 0xe5d5be0d, 0x7cdcefb7, 0x0bdbdf21, 0x86d3d2d4, 0xf1d4e242,
     0x68ddb3f8, 0x1fda836e, 0x81be16cd, 0xf6b9265b, 0x6fb077e1, 0x18b74777,
     0x88085ae6, 0xff0f6a70, 0x66063bca, 0x11010b5c, 0x8f659eff, 0xf862ae69,
     0x616bffd3, 0x166ccf45, 0xa00ae278, 0xd70dd2ee, 0x4e048354, 0x3903b3c2,
     0xa7672661, 0xd06016f7, 0x4969474d, 0x3e6e77db, 0xaed16a4a, 0xd9d65adc,
     0x40df0b66, 0x37d83bf0, 0xa9bcae53, 0xdebb9ec5, 0x47b2cf7f, 0x30b5ffe9,
     0xbdbdf21c, 0xcabac28a, 0x53b39330, 0x24b4a3a6, 0xbad03605, 0xcdd70693,
     0x54de5729, 0x23d967bf, 0xb3667a2e, 0xc4614ab8, 0x5d681b02, 0x2a6f2b94,
     0xb40bbe37, 0xc30c8ea1, 0x5a05df1b, 0x2d02ef8d]"

definition crc_step :: "u32 \<Rightarrow> u8 \<Rightarrow> u32" where
  "crc_step crc b = crc32_tab ! unat ((crc XOR ucast b) AND 0xFF) XOR drop_bit 8 crc"

definition update_crc32 :: "u32 \<Rightarrow> bytes \<Rightarrow> u32" where
  "update_crc32 crc buf = foldl crc_step crc buf"

lemma update_append: "update_crc32 crc (xs @ ys) = update_crc32 (update_crc32 crc xs) ys"
  by (simp add: update_crc32_def)

subsection \<open>The shift register\<close>

definition POLY :: u32 where "POLY = 0xEDB88320"

definition shift_bit :: "u32 \<Rightarrow> u32" where
  "shift_bit r = (if bit r 0 then drop_bit 1 r XOR POLY else drop_bit 1 r)"

text \<open>Eight shifts after the byte has been added to the low end of the register.\<close>

definition shift_byte :: "u32 \<Rightarrow> u8 \<Rightarrow> u32" where
  "shift_byte crc b = (shift_bit ^^ 8) (crc XOR ucast b)"

definition crc_register :: "u32 \<Rightarrow> bytes \<Rightarrow> u32" where
  "crc_register crc buf = foldl shift_byte crc buf"

subsection \<open>The table\<close>

text \<open>
  The register is linear, so its table is determined by the entries of the powers of two: each of
  them doubles the part of the table before it.
\<close>

lemma shift_bit_xor: "shift_bit (a XOR b) = shift_bit a XOR shift_bit b"
  by (rule bit_eqI) (auto simp: shift_bit_def bit_simps)

lemma shifts_xor: "(shift_bit ^^ n) (a XOR b) = (shift_bit ^^ n) a XOR (shift_bit ^^ n) b"
  by (induction n) (simp_all add: shift_bit_xor)

definition shifts :: "nat \<Rightarrow> u32" where
  "shifts n = (shift_bit ^^ 8) (word_of_nat n)"

lemma shifts_xor_nat: "shifts (m XOR n) = shifts m XOR shifts n"
  by (simp add: shifts_def of_nat_xor_eq shifts_xor)

lemma shifts_add: "i < 2 ^ k \<Longrightarrow> shifts (i + 2 ^ k) = shifts i XOR shifts (2 ^ k)"
proof -
  assume i: "i < 2 ^ k"
  then have "\<not> bit i k" by (simp add: bit_iff_odd)
  then have "i AND 2 ^ k = 0" by (intro bit_eqI) (auto simp: bit_and_iff bit_exp_iff)
  then have "i + 2 ^ k = i XOR 2 ^ k" by (rule disjunctive_add_eq_xor)
  then show ?thesis by (simp only: shifts_xor_nat)
qed

definition doubled :: "u32 list \<Rightarrow> u32 list" where
  "doubled es = foldl (\<lambda>tab e. tab @ map (\<lambda>x. x XOR e) tab) [0] es"

lemma doubled_shifts: "doubled (map (\<lambda>k. shifts (2 ^ k)) [0..<n]) = map shifts [0..<2 ^ n]"
proof (induction n)
  case 0
  have "(shift_bit ^^ 8) 0 = 0" by (simp add: eval_nat_numeral shift_bit_def)
  then show ?case by (simp add: doubled_def shifts_def)
next
  case (Suc n)
  have "[0..<2 ^ Suc n] = [0..<2 ^ n] @ [2 ^ n..<2 ^ n + 2 ^ n]"
    unfolding power_Suc mult_2 by (rule upt_add_eq_append) simp
  moreover have "[2 ^ n..<2 ^ n + 2 ^ n] = map (\<lambda>i. i + 2 ^ n) [0..<2 ^ n]"
    by (rule map_add_upt [symmetric])
  ultimately have "[0..<2 ^ Suc n] = [0..<2 ^ n] @ map (\<lambda>i. i + 2 ^ n) [0..<2 ^ n]" by (simp only:)
  then have "map shifts [0..<2 ^ Suc n]
      = map shifts [0..<2 ^ n] @ map (\<lambda>x. x XOR shifts (2 ^ n)) (map shifts [0..<2 ^ n])"
    by (simp only: map_append map_map) (simp add: shifts_add)
  with Suc show ?case by (simp add: doubled_def)
qed

definition powers :: "u32 list" where
  "powers = [0x77073096, 0xee0e612c, 0x076dc419, 0x0edb8832, 0x1db71064, 0x3b6e20c8, 0x76dc4190, 0xedb88320]"

lemma funpow_8: "(f ^^ 8) x = f (f (f (f (f (f (f (f x)))))))"
  by (simp add: eval_nat_numeral)

lemma shifts_8: "shifts n = shift_bit (shift_bit (shift_bit (shift_bit (shift_bit (shift_bit
    (shift_bit (shift_bit (word_of_nat n))))))))"
  unfolding shifts_def by (rule funpow_8)

lemma shift_POLY:
  "shift_bit 0x80 = 0x40" "shift_bit 0x40 = 0x20" "shift_bit 0x20 = 0x10" "shift_bit 0x10 = 8"
  "shift_bit 8 = 4" "shift_bit 4 = 2" "shift_bit 2 = 1" "shift_bit 1 = 0xedb88320"
  "shift_bit 0xedb88320 = 0x76dc4190" "shift_bit 0x76dc4190 = 0x3b6e20c8"
  "shift_bit 0x3b6e20c8 = 0x1db71064" "shift_bit 0x1db71064 = 0x0edb8832"
  "shift_bit 0x0edb8832 = 0x076dc419" "shift_bit 0x076dc419 = 0xee0e612c"
  "shift_bit 0xee0e612c = 0x77073096"
  by (simp_all add: shift_bit_def POLY_def)

lemma powers_shifts: "map (\<lambda>k. shifts (2 ^ k)) [0..<8] = powers"
proof -
  have "[0..<8] = [0, 1, 2, 3, 4, 5, 6, 7 :: nat]" by (simp add: upt_rec)
  then show ?thesis by (simp add: shifts_8 powers_def shift_POLY)
qed

lemma crc32_tab_doubled: "crc32_tab = doubled powers"
  by (simp add: crc32_tab_def doubled_def powers_def)

lemma crc32_tab_shifts: "crc32_tab = map shifts [0..<256]"
  using doubled_shifts [of 8] by (simp add: crc32_tab_doubled powers_shifts)

lemma crc32_tab_nth: "n < 256 \<Longrightarrow> crc32_tab ! n = shifts n"
  by (simp add: crc32_tab_shifts)

lemma shifts_high: "\<forall>i<k. \<not> bit x i \<Longrightarrow> (shift_bit ^^ k) x = drop_bit k x"
proof (induction k arbitrary: x)
  case 0
  then show ?case by simp
next
  case (Suc k)
  then have s: "shift_bit x = drop_bit 1 x" by (simp add: shift_bit_def)
  have "\<forall>i<k. \<not> bit (drop_bit 1 x) i" using Suc.prems by (simp add: bit_drop_bit_eq)
  from Suc.IH [OF this] s show ?case by (simp add: funpow_swap1)
qed

lemma shifts_unat: "shifts (unat w) = (shift_bit ^^ 8) w"
  by (simp add: shifts_def)

text \<open>One table lookup is eight shifts of the register.\<close>

lemma crc_step_shift: "crc_step crc b = shift_byte crc b"
proof -
  let ?x = "crc XOR ucast b"
  have split: "?x = (?x AND 0xFF) XOR (?x AND NOT 0xFF)"
    by (rule bit_eqI) (auto simp: bit_simps)
  have low: "(0xFF :: u32) = mask 8" by (simp add: mask_eq_exp_minus_1)
  have lt: "unat (?x AND 0xFF) < 256"
    using word_and_le1 [of ?x "0xFF"] by (simp add: word_le_nat_alt)
  have "(shift_bit ^^ 8) (?x AND NOT 0xFF) = drop_bit 8 (?x AND NOT 0xFF)"
    by (rule shifts_high) (simp add: low bit_simps)
  also have "\<dots> = drop_bit 8 crc"
    by (rule bit_eqI) (auto simp: low bit_simps dest: bit_imp_le_length)
  finally have "(shift_bit ^^ 8) ?x = shifts (unat (?x AND 0xFF)) XOR drop_bit 8 crc"
    by (subst split) (simp only: shifts_xor shifts_unat)
  then show ?thesis by (simp add: crc_step_def shift_byte_def crc32_tab_nth [OF lt])
qed

lemma update_crc32_register: "update_crc32 crc buf = crc_register crc buf"
  unfolding update_crc32_def crc_register_def by (rule foldl_cong) (simp_all add: crc_step_shift)

subsection \<open>Changed bytes\<close>

lemma xor_cancel: "a XOR p = b XOR p \<Longrightarrow> a = (b :: 'a::len word)"
  unfolding bit_eq_iff bit_xor_iff by blast

text \<open>The register never forgets: a shift can be undone from its top bit.\<close>

lemma shift_bit_inj: "shift_bit r = shift_bit r' \<Longrightarrow> r = r'"
proof -
  assume e: "shift_bit r = shift_bit r'"
  have top: "bit (shift_bit w) 31 = bit w 0" for w
    by (auto simp: shift_bit_def POLY_def bit_simps dest: bit_imp_le_length)
  have zero: "bit r 0 = bit r' 0" using e top [of r] top [of r'] by simp
  then have d: "drop_bit 1 r = drop_bit 1 r'"
    using e by (auto simp: shift_bit_def dest: xor_cancel split: if_splits)
  show ?thesis
  proof (rule bit_eqI)
    fix n
    show "bit r n = bit r' n"
    proof (cases n)
      case 0
      with zero show ?thesis by simp
    next
      case (Suc m)
      have "bit (drop_bit 1 r) m = bit (drop_bit 1 r') m" using d by simp
      with Suc show ?thesis by (simp add: bit_drop_bit_eq)
    qed
  qed
qed

lemma shifts_inj: "(shift_bit ^^ n) r = (shift_bit ^^ n) r' \<Longrightarrow> r = r'"
  by (induction n) (auto dest: shift_bit_inj)

lemma register_inj: "crc_register c ys = crc_register c' ys \<Longrightarrow> c = c'"
proof (induction ys arbitrary: c c')
  case (Cons y ys)
  then have "shift_byte c y = shift_byte c' y" by (simp add: crc_register_def)
  then have "c XOR ucast y = c' XOR ucast y" unfolding shift_byte_def by (rule shifts_inj)
  then show ?case by (rule xor_cancel)
qed (simp add: crc_register_def)

text \<open>Up to four bytes are one word that is added to the register and shifted through it.\<close>

definition le_word :: "bytes \<Rightarrow> u32" where
  "le_word bs = foldr (\<lambda>b w. ucast b XOR push_bit 8 w) bs 0"

lemma le_word_bits: "bit (le_word bs) n \<Longrightarrow> n < 8 * length bs"
proof (induction bs arbitrary: n)
  case (Cons b bs)
  then have "bit (ucast b :: u32) n \<or> 8 \<le> n \<and> bit (le_word bs) (n - 8)"
    by (auto simp: le_word_def bit_simps)
  then show ?case using Cons.IH [of "n - 8"] by (auto simp: bit_simps dest: bit_imp_le_length)
qed (simp add: le_word_def)

lemma shift_push:
  assumes "length bs \<le> 3"
  shows "(shift_bit ^^ 8) (push_bit 8 (le_word bs)) = le_word bs"
proof -
  have "(shift_bit ^^ 8) (push_bit 8 (le_word bs)) = drop_bit 8 (push_bit 8 (le_word bs))"
    by (rule shifts_high) (simp add: bit_simps)
  also have "\<dots> = le_word bs"
    using assms by (intro bit_eqI) (auto simp: bit_simps dest: le_word_bits)
  finally show ?thesis .
qed

lemma register_word:
  "length bs \<le> 4 \<Longrightarrow> crc_register c bs = (shift_bit ^^ (8 * length bs)) (c XOR le_word bs)"
proof (induction bs arbitrary: c)
  case (Cons b bs)
  have e: "c XOR le_word (b # bs) = (c XOR ucast b) XOR push_bit 8 (le_word bs)"
    by (simp add: le_word_def xor.assoc)
  have "(shift_bit ^^ 8) (c XOR le_word (b # bs)) = shift_byte c b XOR le_word bs"
    using Cons.prems by (simp only: e shifts_xor shift_byte_def) (simp add: shift_push)
  then have "(shift_bit ^^ (8 * length bs + 8)) (c XOR le_word (b # bs)) = crc_register (shift_byte c b) bs"
    using Cons by (simp only: funpow_add o_apply) simp
  then show ?case by (simp add: crc_register_def add.commute)
qed (simp add: crc_register_def le_word_def)

lemma le_word_inj: "length bs = length bs' \<Longrightarrow> length bs \<le> 4 \<Longrightarrow> le_word bs = le_word bs' \<Longrightarrow> bs = bs'"
proof (induction bs bs' rule: list_induct2)
  case (Cons b bs b' bs')
  have low: "bit (le_word (a # as)) n = bit a n" if "n < 8" for a as n
    using that by (simp add: le_word_def bit_simps)
  have high: "bit (le_word (a # as)) (n + 8) = bit (le_word as) n" if "length as \<le> 3" for a as n
    using that le_word_bits [of as n] by (auto simp: le_word_def bit_simps dest: bit_imp_le_length)
  have "b = b'"
    using low [of _ b bs] low [of _ b' bs'] Cons.prems by (intro bit_eqI) simp
  moreover have "le_word bs = le_word bs'"
    using high [of bs b] high [of bs' b'] Cons.prems Cons.hyps by (intro bit_eqI) auto
  ultimately show ?case using Cons by simp
qed simp

text \<open>
  two files of the same length that differ only within four consecutive bytes never have the
  same checksum register, whatever the register starts with.
\<close>

theorem crc_detects_burst:
  assumes "length e = length e'" and "length e \<le> 4" and "e \<noteq> e'"
  shows "update_crc32 crc (xs @ e @ ys) \<noteq> update_crc32 crc (xs @ e' @ ys)"
proof
  let ?c = "update_crc32 crc xs"
  assume "update_crc32 crc (xs @ e @ ys) = update_crc32 crc (xs @ e' @ ys)"
  then have "crc_register ?c e = crc_register ?c e'"
    unfolding update_append unfolding update_crc32_register by (rule register_inj)
  then have "?c XOR le_word e = ?c XOR le_word e'"
    using assms(1,2) by (simp only: register_word) (rule shifts_inj)
  then have "le_word e = le_word e'" by (simp only: xor.commute [of ?c]) (rule xor_cancel)
  then show False using le_word_inj assms by blast
qed

lemma crc_detects_burst_witness:
  "update_crc32 0xFFFFFFFF ([1, 2] @ [3, 4] @ [5]) \<noteq> update_crc32 0xFFFFFFFF ([1, 2] @ [3, 5] @ [5])"
  by (rule crc_detects_burst) simp_all

subsection \<open>The program\<close>

text \<open>\<open>%08x\<close>\<close>

definition hex_lower :: "nat \<Rightarrow> u8" where
  "hex_lower n = (if n < 10 then word_of_nat (48 + n) else word_of_nat (87 + n))"

definition print_hex8 :: "u32 \<Rightarrow> bytes" where
  "print_hex8 w = map (\<lambda>i. hex_lower (unat (drop_bit (4 * (7 - i)) w AND 0xF))) [0..<8]"

text \<open>\<open>sysconf\<close> answers with the page size or fails.\<close>

definition page_of :: "nat option \<Rightarrow> u64" where
  "page_of answer = (case answer of Some p \<Rightarrow> word_of_nat p | None \<Rightarrow> 4096)"

definition chunk_size :: "u64 \<Rightarrow> nat" where
  "chunk_size page_size =
     (let chunk = 1024 * 1024;
          chunk = (if chunk < page_size then page_size else chunk)
      in unat ((chunk + page_size - 1) AND NOT (page_size - 1)))"

lemma round_up: "c AND mask k = (0 :: u64) \<Longrightarrow> (c + mask k) AND NOT (mask k) = c"
proof -
  assume c: "c AND mask k = 0"
  then have "c + mask k = c OR mask k" by (rule disjunctive_add_eq_or)
  moreover have "bit c n \<Longrightarrow> \<not> bit (mask k :: u64) n" for n using c by (metis bit_0_eq bit_and_iff bot_apply bot_bool_def)
  ultimately show ?thesis by (auto intro!: bit_eqI simp: bit_and_iff bit_or_iff bit_not_iff dest: bit_imp_le_length)
qed

text \<open>The chunk is a megabyte, or a page when a page is larger: a multiple of the page.\<close>

lemma chunk_size_pages:
  assumes "k < 63"
  shows "chunk_size (2 ^ k) = 2 ^ max 20 k"
proof -
  have u: "unat (2 ^ n :: u64) = 2 ^ n" if "n < 64" for n
  proof -
    have "unat (word_of_nat (2 ^ n) :: u64) = 2 ^ n"
      using power_strict_increasing [OF that, of "2 :: nat"] by (simp only: unat_of_nat) simp
    then show ?thesis by simp
  qed
  have lt: "(1024 * 1024 :: u64) < 2 ^ k \<longleftrightarrow> 20 < k"
  proof -
    have "(1024 * 1024 :: u64) = 2 ^ 20" by simp
    moreover have "k < 64" "(20 :: nat) < 64" using assms by simp_all
    ultimately show ?thesis
      using power_strict_increasing_iff [of "2 :: nat" 20 k] by (simp only: word_less_nat_alt u)
  qed
  have "(2 ^ max 20 k :: u64) AND mask k = 0"
    by (rule bit_eqI) (auto simp: bit_and_iff bit_mask_iff bit_exp_iff)
  then have "(2 ^ max 20 k + mask k) AND NOT (mask k) = (2 ^ max 20 k :: u64)" by (rule round_up)
  then show ?thesis using lt assms by (auto simp: chunk_size_def Let_def mask_eq_exp_minus_1 max_def u)
qed

text \<open>
  The loop over the chunks from an offset: \<open>success\<close>, the offset reached and the register.
  \<open>mmap_ok\<close> says at which offsets a mapping succeeds; one of no bytes never does.
\<close>

function crc_loop :: "nat \<Rightarrow> (nat \<Rightarrow> bool) \<Rightarrow> bytes \<Rightarrow> nat \<Rightarrow> u32 \<Rightarrow> bool \<Rightarrow> bool \<times> nat \<times> u32" where
  "crc_loop chunk mmap_ok data offset crc success =
     (if length data \<le> offset then (success, offset, crc)
      else
        (let remaining = length data - offset;
             map_size = (if remaining < chunk then remaining else chunk)
         in if \<not> mmap_ok offset \<or> map_size = 0 then (False, offset, crc)
            else crc_loop chunk mmap_ok data (offset + map_size)
                   (update_crc32 crc (take map_size (drop offset data))) True))"
  by pat_completeness auto
termination by (relation "measure (\<lambda>(chunk, mmap_ok, data, offset, crc, success). length data - offset)") auto

declare crc_loop.simps [simp del]

text \<open>The file as \<open>open\<close>, \<open>fstat\<close> and \<open>mmap\<close> show it.\<close>

record file_answers =
  fa_open :: bool
  fa_stat :: bool
  fa_regular :: bool
  fa_data :: bytes
  fa_page :: "nat option"
  fa_mmap :: "nat \<Rightarrow> bool"

text \<open>The exit code and the standard output.\<close>

definition check_crc32 :: "nat \<Rightarrow> file_answers \<Rightarrow> int \<times> bytes" where
  "check_crc32 argc f =
     (if argc \<noteq> 2 then (1, [])
      else if \<not> fa_open f then (1, [])
      else if \<not> fa_stat f then (1, [])
      else if \<not> fa_regular f then (1, [])
      else if length (fa_data f) = 0 then (0, print_hex8 0 @ [c_nl])
      else case crc_loop (chunk_size (page_of (fa_page f))) (fa_mmap f) (fa_data f) 0 0xFFFFFFFF False of
             (success, offset, crc) \<Rightarrow>
               if \<not> success \<and> offset < length (fa_data f) then (1, [])
               else (0, print_hex8 (crc XOR 0xFFFFFFFF) @ [c_nl]))"

lemma crc_loop_all:
  assumes "0 < chunk" and "page dvd chunk" and "\<forall>offset. page dvd offset \<longrightarrow> mmap_ok offset"
  shows "offset < length data \<Longrightarrow> page dvd offset \<Longrightarrow>
    crc_loop chunk mmap_ok data offset crc success = (True, length data, update_crc32 crc (drop offset data))"
  using assms
proof (induction chunk mmap_ok data offset crc success rule: crc_loop.induct)
  case (1 chunk mmap_ok data offset crc success)
  define r where "r = length data - offset"
  have r: "0 < r" "offset + r = length data" using "1.prems"(1) by (simp_all add: r_def)
  have ok: "mmap_ok offset" using "1.prems" by blast
  show ?case
  proof (cases "r < chunk")
    case True
    have "crc_loop chunk mmap_ok data offset crc success
        = crc_loop chunk mmap_ok data (length data) (update_crc32 crc (drop offset data)) True"
      using True r ok "1.prems"(1) by (subst crc_loop.simps) (simp add: r_def [symmetric] Let_def)
    then show ?thesis by (simp add: crc_loop.simps [of _ _ _ "length data"])
  next
    case False
    have step: "crc_loop chunk mmap_ok data offset crc success
        = crc_loop chunk mmap_ok data (offset + chunk) (update_crc32 crc (take chunk (drop offset data))) True"
      using False ok "1.prems"(1,3) by (subst crc_loop.simps) (simp add: r_def [symmetric] Let_def)
    have app: "update_crc32 (update_crc32 crc (take chunk (drop offset data))) (drop (offset + chunk) data)
        = update_crc32 crc (drop offset data)"
      unfolding update_append [symmetric]
      by (metis add.commute append_take_drop_id drop_drop)
    show ?thesis
    proof (cases "offset + chunk < length data")
      case True
      have "crc_loop chunk mmap_ok data (offset + chunk) (update_crc32 crc (take chunk (drop offset data))) True
          = (True, length data, update_crc32 (update_crc32 crc (take chunk (drop offset data))) (drop (offset + chunk) data))"
        using "1.IH" [OF _ r_def refl] False True ok "1.prems" by (simp add: r_def [symmetric])
      then show ?thesis by (simp only: step app)
    next
      case end_reached: False
      then have "offset + chunk = length data" using False r by simp
      then show ?thesis using app by (simp add: step crc_loop.simps [of _ _ _ "length data"] update_crc32_def)
    qed
  qed
qed

text \<open>
  C16: for a regular file that opens and whose mappings succeed at every multiple of the page size,
  check_crc32 prints, in eight hexadecimal digits, what the bitwise shift register of the reflected
  polynomial gives for the bytes of the file, complemented before and after; the chunks the file
  is mapped in do not show, and an empty file gives zero.
\<close>

theorem check_crc32_correct:
  assumes "fa_open f" and "fa_stat f" and "fa_regular f"
    and page: "page_of (fa_page f) = 2 ^ k" and "k < 63"
    and mmap: "\<forall>offset. 2 ^ k dvd offset \<longrightarrow> fa_mmap f offset"
  shows "check_crc32 2 f = (0, print_hex8 (crc_register 0xFFFFFFFF (fa_data f) XOR 0xFFFFFFFF) @ [c_nl])"
proof (cases "fa_data f = []")
  case True
  with assms show ?thesis by (simp add: check_crc32_def crc_register_def)
next
  case False
  have "2 ^ k dvd chunk_size (page_of (fa_page f))" "0 < chunk_size (page_of (fa_page f))"
    using page \<open>k < 63\<close> by (simp_all add: chunk_size_pages le_imp_power_dvd)
  then have "crc_loop (chunk_size (page_of (fa_page f))) (fa_mmap f) (fa_data f) 0 0xFFFFFFFF False
      = (True, length (fa_data f), update_crc32 0xFFFFFFFF (drop 0 (fa_data f)))"
    using mmap False by (intro crc_loop_all [where page = "2 ^ k"]) simp_all
  with assms False show ?thesis by (simp add: check_crc32_def update_crc32_register)
qed

definition sample_file :: file_answers where
  "sample_file = \<lparr>fa_open = True, fa_stat = True, fa_regular = True,
     fa_data = str ''123456789'', fa_page = Some 4096, fa_mmap = \<lambda>offset. 4096 dvd offset\<rparr>"

lemma check_crc32_correct_witness: "check_crc32 2 sample_file = (0, str ''cbf43926'' @ [c_nl])"
proof -
  have "page_of (fa_page sample_file) = 2 ^ 12" by (simp add: sample_file_def page_of_def)
  from check_crc32_correct [OF _ _ _ this]
  have "check_crc32 2 sample_file
      = (0, print_hex8 (crc_register 0xFFFFFFFF (fa_data sample_file) XOR 0xFFFFFFFF) @ [c_nl])"
    by (simp add: sample_file_def)
  moreover have "crc_register 0xFFFFFFFF (fa_data sample_file) = 0x340BC6D9"
    by (simp add: sample_file_def str_def update_crc32_register [symmetric] update_crc32_def crc_step_def crc32_tab_def)
  ultimately show ?thesis by (simp add: print_hex8_def str_def upt_rec hex_lower_def)
qed

end
