(* ===== verification/Encodings.thy ===== *)
theory Encodings
  imports CStd
begin

text \<open>
  HW_01-Encodings: conversion of one-byte Cyrillic encodings to UTF-8 (main.c and the tables of
  main.h). The reference is a strict UTF-8 decoder: the output decodes to the code points of the
  tables. The messages on the standard output are not modelled.
\<close>

subsection \<open>The tables\<close>

definition cp1251_to_unicode :: "u16 list" where
  "cp1251_to_unicode = [
     0x0402, 0x0403, 0x201A, 0x0453, 0x201E, 0x2026, 0x2020, 0x2021,
     0x20AC, 0x2030, 0x0409, 0x2039, 0x040A, 0x040C, 0x040B, 0x040F,
     0x0452, 0x2018, 0x2019, 0x201C, 0x201D, 0x2022, 0x2013, 0x2014,
     0x0000, 0x2122, 0x0459, 0x203A, 0x045A, 0x045C, 0x045B, 0x045F,
     0x00A0, 0x040E, 0x045E, 0x0408, 0x00A4, 0x0490, 0x00A6, 0x00A7,
     0x0401, 0x00A9, 0x0404, 0x00AB, 0x00AC, 0x00AD, 0x00AE, 0x0407,
     0x00B0, 0x00B1, 0x0406, 0x0456, 0x0491, 0x00B5, 0x00B6, 0x00B7,
     0x0451, 0x2116, 0x0454, 0x00BB, 0x0458, 0x0405, 0x0455, 0x0457,
     0x0410, 0x0411, 0x0412, 0x0413, 0x0414, 0x0415, 0x0416, 0x0417,
     0x0418, 0x0419, 0x041A, 0x041B, 0x041C, 0x041D, 0x041E, 0x041F,
     0x0420, 0x0421, 0x0422, 0x0423, 0x0424, 0x0425, 0x0426, 0x0427,
     0x0428, 0x0429, 0x042A, 0x042B, 0x042C, 0x042D, 0x042E, 0x042F,
     0x0430, 0x0431, 0x0432, 0x0433, 0x0434, 0x0435, 0x0436, 0x0437,
     0x0438, 0x0439, 0x043A, 0x043B, 0x043C, 0x043D, 0x043E, 0x043F,
     0x0440, 0x0441, 0x0442, 0x0443, 0x0444, 0x0445, 0x0446, 0x0447,
     0x0448, 0x0449, 0x044A, 0x044B, 0x044C, 0x044D, 0x044E, 0x044F]"

definition koi8r_to_unicode :: "u16 list" where
  "koi8r_to_unicode = [
     0x2500, 0x2502, 0x250C, 0x2510, 0x2514, 0x2518, 0x251C, 0x2524,
     0x252C, 0x2534, 0x253C, 0x2580, 0x2584, 0x2588, 0x258C, 0x2590,
     0x2591, 0x2592, 0x2593, 0x2320, 0x25A0, 0x2219, 0x221A, 0x2248,
     0x2264, 0x2265, 0x00A0, 0x2321, 0x00B0, 0x00B2, 0x00B7, 0x00F7,
     0x2550, 0x2551, 0x2552, 0x0451, 0x2553, 0x2554, 0x2555, 0x2556,
     0x2557, 0x2558, 0x2559, 0x255A, 0x255B, 0x255C, 0x255D, 0x255E,
     0x255F, 0x2560, 0x2561, 0x0401, 0x2562, 0x2563, 0x2564, 0x2565,
     0x2566, 0x2567, 0x2568, 0x2569, 0x256A, 0x256B, 0x256C, 0x00A9,
     0x044E, 0x0430, 0x0431, 0x0446, 0x0434, 0x0435, 0x0444, 0x0433,
     0x0445, 0x0438, 0x0439, 0x043A, 0x043B, 0x043C, 0x043D, 0x043E,
     0x043F, 0x044F, 0x0440, 0x0441, 0x0442, 0x0443, 0x0436, 0x0432,
     0x044C, 0x044B, 0x0437, 0x0448, 0x044D, 0x0449, 0x0447, 0x044A,
     0x042E, 0x0410, 0x0411, 0x0426, 0x0414, 0x0415, 0x0424, 0x0413,
     0x0425, 0x0418, 0x0419, 0x041A, 0x041B, 0x041C, 0x041D, 0x041E,
     0x041F, 0x042F, 0x0420, 0x0421, 0x0422, 0x0423, 0x0416, 0x0412,
     0x042C, 0x042B, 0x0417, 0x0428, 0x042D, 0x0429, 0x0427, 0x042A]"

definition iso8859_5_to_unicode :: "u16 list" where
  "iso8859_5_to_unicode = [
     0x00A0, 0x0401, 0x0402, 0x0403, 0x0404, 0x0405, 0x0406, 0x0407,
     0x0408, 0x0409, 0x040A, 0x040B, 0x040C, 0x00AD, 0x040E, 0x040F,
     0x0410, 0x0411, 0x0412, 0x0413, 0x0414, 0x0415, 0x0416, 0x0417,
     0x0418, 0x0419, 0x041A, 0x041B, 0x041C, 0x041D, 0x041E, 0x041F,
     0x0420, 0x0421, 0x0422, 0x0423, 0x0424, 0x0425, 0x0426, 0x0427,
     0x0428, 0x0429, 0x042A, 0x042B, 0x042C, 0x042D, 0x042E, 0x042F,
     0x0430, 0x0431, 0x0432, 0x0433, 0x0434, 0x0435, 0x0436, 0x0437,
     0x0438, 0x0439, 0x043A, 0x043B, 0x043C, 0x043D, 0x043E, 0x043F,
     0x0440, 0x0441, 0x0442, 0x0443, 0x0444, 0x0445, 0x0446, 0x0447,
     0x0448, 0x0449, 0x044A, 0x044B, 0x044C, 0x044D, 0x044E, 0x044F,
     0x2116, 0x0451, 0x0452, 0x0453, 0x0454, 0x0455, 0x0456, 0x0457,
     0x0458, 0x0459, 0x045A, 0x045B, 0x045C, 0x00A7, 0x045E, 0x045F]"

text \<open>A mapping function reads its table at an index; an index outside the table is a fault.\<close>

type_synonym unifunc_t = "u8 \<Rightarrow> ub + u16"

definition table_read :: "u16 list \<Rightarrow> nat \<Rightarrow> ub + u16" where
  "table_read tab i = (if i < length tab then Inr (tab ! i) else Inl Ub_OobRead)"

definition map_koi8r :: unifunc_t where
  "map_koi8r ch = table_read koi8r_to_unicode (unat ch)"

definition map_cp1251 :: unifunc_t where
  "map_cp1251 ch = table_read cp1251_to_unicode (unat ch)"

definition map_iso8859_5 :: unifunc_t where
  "map_iso8859_5 ch =
     (if unat ch < 32 then Inl Ub_OobRead else table_read iso8859_5_to_unicode (unat ch - 32))"

definition check_encoding :: "bytes \<Rightarrow> unifunc_t option" where
  "check_encoding encoding =
     (if strcmp_eq encoding (str ''koi8r'') then Some map_koi8r
      else if strcmp_eq encoding (str ''cp1251'') then Some map_cp1251
      else if strcmp_eq encoding (str ''8859-5'') then Some map_iso8859_5
      else None)"

subsection \<open>UTF-8\<close>

text \<open>The bytes stored in \<open>utf8\<close>; \<open>None\<close> is the result \<open>-1\<close>.\<close>

definition unicode_to_utf8 :: "u32 \<Rightarrow> bytes option" where
  "unicode_to_utf8 codepoint =
     (if codepoint < 0x80 then Some [ucast codepoint]
      else if codepoint < 0x800 then
        Some [ucast (0xC0 OR drop_bit 6 codepoint), ucast (0x80 OR (codepoint AND 0x3F))]
      else if codepoint < 0x10000 then
        Some [ucast (0xE0 OR drop_bit 12 codepoint), ucast (0x80 OR (drop_bit 6 codepoint AND 0x3F)),
              ucast (0x80 OR (codepoint AND 0x3F))]
      else if codepoint < 0x200000 then
        Some [ucast (0xF0 OR drop_bit 21 codepoint), ucast (0x80 OR (drop_bit 12 codepoint AND 0x3F)),
              ucast (0x80 OR (drop_bit 6 codepoint AND 0x3F)), ucast (0x80 OR (codepoint AND 0x3F))]
      else None)"

text \<open>The loop over the characters of the file: the bytes put into the output.\<close>

fun convert :: "unifunc_t \<Rightarrow> bytes \<Rightarrow> ub + bytes" where
  "convert get_unicode [] = Inr []"
| "convert get_unicode (ch # rest) =
     (case (if ch < 0x80 then Inr (ucast ch) else get_unicode (ch - 0x80)) of
        Inl u \<Rightarrow> Inl u
      | Inr code \<Rightarrow>
          let utf8 = (case unicode_to_utf8 (ucast (code :: u16)) of Some bs \<Rightarrow> bs | None \<Rightarrow> [])
          in case convert get_unicode rest of Inl u \<Rightarrow> Inl u | Inr out \<Rightarrow> Inr (utf8 @ out))"

text \<open>
  The program on its arguments, the content of the input when it opens, and whether the output
  opens: the exit code and the content of the output file when it was opened.
\<close>

definition encodings_main :: "bytes list \<Rightarrow> bytes option \<Rightarrow> bool \<Rightarrow> ub + int \<times> bytes option" where
  "encodings_main argv infile out_opens =
     (if length argv \<noteq> 4 then Inr (1, None)
      else case infile of
        None \<Rightarrow> Inr (1, None)
      | Some text \<Rightarrow>
          if \<not> out_opens then Inr (1, None)
          else case check_encoding (argv ! 3) of
            None \<Rightarrow> Inr (1, Some [])
          | Some get_unicode \<Rightarrow>
              (case convert get_unicode text of
                 Inl u \<Rightarrow> Inl u
               | Inr out \<Rightarrow> Inr (0, Some out)))"

subsection \<open>The reference decoder\<close>

text \<open>Strict: shortest forms only, no surrogates, nothing above U+10FFFF.\<close>

definition cont :: "u8 \<Rightarrow> nat option" where
  "cont b = (if 128 \<le> unat b \<and> unat b < 192 then Some (unat b - 128) else None)"

definition accept :: "nat \<Rightarrow> nat list option \<Rightarrow> nat list option" where
  "accept code rest = map_option ((#) code) rest"

fun utf8_decode :: "bytes \<Rightarrow> nat list option" where
  "utf8_decode [] = Some []"
| "utf8_decode (a # rest) =
     (if unat a < 128 then accept (unat a) (utf8_decode rest)
      else if 192 \<le> unat a \<and> unat a < 224 then
        (case rest of
           b # rest' \<Rightarrow>
             (case cont b of
                Some x \<Rightarrow> let code = (unat a - 192) * 64 + x in if 128 \<le> code then accept code (utf8_decode rest') else None
              | _ \<Rightarrow> None)
         | _ \<Rightarrow> None)
      else if 224 \<le> unat a \<and> unat a < 240 then
        (case rest of
           b # c # rest' \<Rightarrow>
             (case (cont b, cont c) of
                (Some x, Some y) \<Rightarrow>
                  let code = (unat a - 224) * 4096 + x * 64 + y
                  in if 2048 \<le> code \<and> \<not> (55296 \<le> code \<and> code < 57344) then accept code (utf8_decode rest') else None
              | _ \<Rightarrow> None)
         | _ \<Rightarrow> None)
      else if 240 \<le> unat a \<and> unat a < 248 then
        (case rest of
           b # c # d # rest' \<Rightarrow>
             (case (cont b, cont c, cont d) of
                (Some x, Some y, Some z) \<Rightarrow>
                  let code = (unat a - 240) * 262144 + x * 4096 + y * 64 + z
                  in if 65536 \<le> code \<and> code < 1114112 then accept code (utf8_decode rest') else None
              | _ \<Rightarrow> None)
         | _ \<Rightarrow> None)
      else None)"

text \<open>The bytes of a sequence are sums, since the bits the source joins do not overlap.\<close>

lemma or_sum: "x < 2 ^ k \<Longrightarrow> (c * 2 ^ k) OR x = c * 2 ^ k + (x :: nat)"
proof -
  assume x: "x < 2 ^ k"
  have "\<not> bit x n" if "k \<le> n" for n
    using x that by (metis bit_take_bit_iff linorder_not_less take_bit_nat_eq_self)
  then have "(c * 2 ^ k) AND x = 0"
    by (intro bit_eqI) (auto simp: bit_and_iff push_bit_eq_mult [symmetric] bit_push_bit_iff)
  then show ?thesis by (simp add: disjunctive_add_eq_or)
qed

lemma unat_cont: "unat (ucast (0x80 OR (w AND 0x3F) :: u32) :: u8) = 128 + unat w mod 64"
proof -
  have m: "(0x3F :: u32) = mask 6" by (simp add: mask_eq_exp_minus_1)
  have "unat (w AND 0x3F) = unat w mod 64"
    unfolding m take_bit_eq_mask [symmetric] unsigned_take_bit_eq by (simp add: take_bit_eq_mod)
  then have "unat (0x80 OR (w AND 0x3F)) = 128 OR unat w mod 64" by (simp add: unsigned_or_eq)
  also have "\<dots> = 128 + unat w mod 64" using or_sum [of "unat w mod 64" 6 2] by simp
  finally have "unat (0x80 OR (w AND 0x3F)) = 128 + unat w mod 64" .
  moreover have "unat w mod 64 < 64" by simp
  ultimately show ?thesis by (simp add: unsigned_ucast_eq take_bit_eq_mod)
qed

lemma unat_shr: "unat (drop_bit k w :: u32) = unat w div 2 ^ k"
  unfolding unat_drop_bit_eq by (rule drop_bit_eq_div)

lemma cont_cont: "cont (ucast (0x80 OR (w AND 0x3F) :: u32)) = Some (unat w mod 64)"
  unfolding cont_def unat_cont by simp

lemma unat_lead:
  assumes "unat x < 2 ^ k" and "unat (lead :: u32) = c * 2 ^ k" and "c * 2 ^ k + 2 ^ k \<le> 256"
  shows "unat (ucast (lead OR x) :: u8) = c * 2 ^ k + unat x"
proof -
  have "unat (lead OR x) = c * 2 ^ k + unat x"
    using or_sum [OF assms(1), of c] assms(2) by (simp add: unsigned_or_eq)
  then show ?thesis using assms by (simp add: unsigned_ucast_eq take_bit_eq_mod)
qed

lemma unat_lead_2: "unat w < 0x800 \<Longrightarrow> unat (ucast (0xC0 OR drop_bit 6 w :: u32) :: u8) = 192 + unat w div 64"
  using unat_lead [of "drop_bit 6 w" 5 "0xC0" 6] by (simp add: unat_shr)

lemma unat_lead_3: "unat w < 0x10000 \<Longrightarrow> unat (ucast (0xE0 OR drop_bit 12 w :: u32) :: u8) = 224 + unat w div 4096"
  using unat_lead [of "drop_bit 12 w" 4 "0xE0" 14] by (simp add: unat_shr)

lemma utf8_split_2: "(n :: nat) div 64 * 64 + n mod 64 = n"
  by (rule div_mult_mod_eq)

lemma utf8_split_3: "(n :: nat) div 4096 * 4096 + n div 64 mod 64 * 64 + n mod 64 = n"
proof -
  have "n div 4096 * 64 + n div 64 mod 64 = n div 64"
    using div_mult_mod_eq [of "n div 64" 64] by (simp add: div_mult2_eq [symmetric])
  then have "(n div 4096 * 64 + n div 64 mod 64) * 64 + n mod 64 = n" by (simp only: div_mult_mod_eq)
  then show ?thesis by (simp add: algebra_simps)
qed

text \<open>What \<open>unicode_to_utf8\<close> stores for a scalar value of the basic plane is its UTF-8 form.\<close>

lemma decode_utf8:
  assumes "unat w < 0x10000" and "unat w < 0xD800 \<or> 0xE000 \<le> unat w"
  shows "\<exists>bs. unicode_to_utf8 w = Some bs \<and> utf8_decode (bs @ out) = accept (unat w) (utf8_decode out)"
proof -
  consider (one) "unat w < 0x80" | (two) "0x80 \<le> unat w" "unat w < 0x800"
    | (three) "0x800 \<le> unat w" by linarith
  then show ?thesis
  proof cases
    case one
    then have "unat (ucast w :: u8) = unat w" by (simp add: unsigned_ucast_eq take_bit_eq_mod)
    with one show ?thesis by (simp add: unicode_to_utf8_def word_less_nat_alt)
  next
    case two
    have "unat w div 64 < 32" using two(2) by (simp add: less_mult_imp_div_less)
    with two show ?thesis
      by (simp add: unicode_to_utf8_def word_less_nat_alt unat_lead_2 cont_cont utf8_split_2)
  next
    case three
    have "unat w div 4096 < 16" using assms(1) by (simp add: less_mult_imp_div_less)
    with three assms show ?thesis
      by (simp add: unicode_to_utf8_def word_less_nat_alt unat_lead_3 cont_cont unat_shr utf8_split_3 Let_def)
        auto
  qed
qed

subsection \<open>The conversion\<close>

text \<open>The code point of a byte in an encoding: the first half is ASCII, the second the table.\<close>

definition code_point :: "bytes \<Rightarrow> u8 \<Rightarrow> nat" where
  "code_point encoding ch =
     (if unat ch < 128 then unat ch
      else if encoding = str ''koi8r'' then unat (koi8r_to_unicode ! (unat ch - 128))
      else if encoding = str ''cp1251'' then unat (cp1251_to_unicode ! (unat ch - 128))
      else unat (iso8859_5_to_unicode ! (unat ch - 160)))"

definition supported :: "bytes \<Rightarrow> bool" where
  "supported encoding \<longleftrightarrow> encoding \<in> {str ''koi8r'', str ''cp1251'', str ''8859-5''}"

text \<open>The bytes an encoding defines: ISO 8859-5 leaves 0x80 to 0x9F to control codes.\<close>

definition defined_byte :: "bytes \<Rightarrow> u8 \<Rightarrow> bool" where
  "defined_byte encoding ch \<longleftrightarrow> \<not> (encoding = str ''8859-5'' \<and> 128 \<le> unat ch \<and> unat ch < 160)"

definition scalar_table :: "u16 list \<Rightarrow> bool" where
  "scalar_table tab \<longleftrightarrow> list_all (\<lambda>c. c < 0xD800) tab"

lemma tables_scalar:
  "scalar_table koi8r_to_unicode" "scalar_table cp1251_to_unicode" "scalar_table iso8859_5_to_unicode"
  by (simp_all add: scalar_table_def koi8r_to_unicode_def cp1251_to_unicode_def iso8859_5_to_unicode_def)

lemma tables_length:
  "length koi8r_to_unicode = 128" "length cp1251_to_unicode = 128" "length iso8859_5_to_unicode = 96"
  by (simp_all add: koi8r_to_unicode_def cp1251_to_unicode_def iso8859_5_to_unicode_def)

lemma scalar_table_nth: "scalar_table tab \<Longrightarrow> i < length tab \<Longrightarrow> unat (tab ! i) < 0xD800"
  by (auto simp: scalar_table_def list_all_length word_less_nat_alt)

lemma byte_minus_128: "128 \<le> unat ch \<Longrightarrow> unat (ch - 0x80 :: u8) = unat ch - 128 \<and> unat ch - 128 < 128"
proof -
  assume "128 \<le> unat ch"
  moreover have "unat ch < 256" using unsigned_less [of ch] by simp
  ultimately show ?thesis by (simp add: unat_sub word_le_nat_alt)
qed

lemma encoding_names: "str ''koi8r'' \<noteq> str ''cp1251''" "str ''koi8r'' \<noteq> str ''8859-5''" "str ''cp1251'' \<noteq> str ''8859-5''"
  by (simp_all add: str_inj)

text \<open>One byte: the mapping function of the encoding gives its code point or is out of range.\<close>

lemma get_unicode_code_point:
  assumes "supported encoding" and "check_encoding encoding = Some get_unicode" and "128 \<le> unat ch"
  shows "if defined_byte encoding ch
    then \<exists>code. get_unicode (ch - 0x80) = Inr code \<and> unat code = code_point encoding ch \<and> unat code < 0xD800
    else get_unicode (ch - 0x80) = Inl Ub_OobRead"
proof -
  note m = byte_minus_128 [OF assms(3)]
  consider "encoding = str ''koi8r''" | "encoding = str ''cp1251''" | "encoding = str ''8859-5''"
    using assms(1) by (auto simp: supported_def)
  then show ?thesis
  proof cases
    case 1
    then have "get_unicode = map_koi8r" using assms(2) by (simp add: check_encoding_def strcmp_eq_def)
    with 1 m assms(3) show ?thesis
      using scalar_table_nth [OF tables_scalar(1), of "unat ch - 128"]
      by (simp add: map_koi8r_def table_read_def tables_length code_point_def defined_byte_def encoding_names)
  next
    case 2
    then have "get_unicode = map_cp1251"
      using assms(2) encoding_names by (simp add: check_encoding_def strcmp_eq_def cstr_str str_inj split: if_splits)
    with 2 m assms(3) show ?thesis
      using scalar_table_nth [OF tables_scalar(2), of "unat ch - 128"]
      by (simp add: map_cp1251_def table_read_def tables_length code_point_def defined_byte_def
        encoding_names encoding_names(1) [symmetric])
  next
    case 3
    then have "get_unicode = map_iso8859_5"
      using assms(2) encoding_names by (simp add: check_encoding_def strcmp_eq_def cstr_str str_inj split: if_splits)
    with 3 m assms(3) show ?thesis
      using scalar_table_nth [OF tables_scalar(3), of "unat ch - 160"]
      by (auto simp: map_iso8859_5_def table_read_def tables_length code_point_def defined_byte_def
        encoding_names encoding_names(2,3) [symmetric])
  qed
qed

text \<open>The code a character is converted from, and the step of the loop that writes it.\<close>

definition char_code :: "unifunc_t \<Rightarrow> u8 \<Rightarrow> ub + u16" where
  "char_code get_unicode ch = (if ch < 0x80 then Inr (ucast ch) else get_unicode (ch - 0x80))"

lemma char_code_correct:
  assumes "supported encoding" and "check_encoding encoding = Some get_unicode"
  shows "if defined_byte encoding ch
    then \<exists>code. char_code get_unicode ch = Inr code \<and> unat code = code_point encoding ch \<and> unat code < 0xD800
    else char_code get_unicode ch = Inl Ub_OobRead"
proof (cases "unat ch < 128")
  case True
  have "unat (ucast ch :: u16) = unat ch"
    using True by (simp add: unsigned_ucast_eq take_bit_nat_eq_self)
  with True show ?thesis by (simp add: char_code_def word_less_nat_alt defined_byte_def code_point_def)
next
  case False
  with get_unicode_code_point [OF assms, of ch] show ?thesis by (simp add: char_code_def word_less_nat_alt)
qed

lemma convert_step:
  assumes "char_code get_unicode ch = Inr code" and "unat code < 0xD800"
    and "convert get_unicode chars = Inr out" and "utf8_decode out = Some codes"
  shows "\<exists>out'. convert get_unicode (ch # chars) = Inr out' \<and> utf8_decode out' = Some (unat code # codes)"
proof -
  have "unat (ucast code :: u32) = unat code"
    using assms(2) by (simp only: unsigned_ucast_eq) (simp add: take_bit_nat_eq_self)
  then obtain bs where "unicode_to_utf8 (ucast code) = Some bs"
      and "utf8_decode (bs @ out) = accept (unat code) (utf8_decode out)"
    using decode_utf8 [of "ucast code" out] assms(2) by auto
  with assms show ?thesis by (simp add: char_code_def [symmetric] accept_def Let_def)
qed

text \<open>The conversion faults at the first byte its encoding leaves undefined; otherwise all is converted.\<close>

lemma convert_correct:
  assumes "supported encoding" and "check_encoding encoding = Some get_unicode"
  shows "if list_all (defined_byte encoding) chars
    then \<exists>out. convert get_unicode chars = Inr out \<and> utf8_decode out = Some (map (code_point encoding) chars)
    else convert get_unicode chars = Inl Ub_OobRead"
proof (induction chars)
  case (Cons ch chars)
  show ?case
  proof (cases "defined_byte encoding ch")
    case True
    then obtain code where code: "char_code get_unicode ch = Inr code" "unat code = code_point encoding ch"
        "unat code < 0xD800"
      using char_code_correct [OF assms, of ch] by auto
    show ?thesis
    proof (cases "list_all (defined_byte encoding) chars")
      case all: True
      with Cons.IH obtain out where "convert get_unicode chars = Inr out"
          "utf8_decode out = Some (map (code_point encoding) chars)"
        by auto
      from convert_step [OF code(1,3) this] code(2) True all show ?thesis by simp
    next
      case False
      with Cons.IH code(1) show ?thesis by (simp add: char_code_def [symmetric] Let_def)
    qed
  next
    case False
    then have "char_code get_unicode ch = Inl Ub_OobRead"
      using char_code_correct [OF assms, of ch] by simp
    with False show ?thesis by (simp add: char_code_def [symmetric])
  qed
qed simp

text \<open>
  C38: with a supported encoding and files that open, the program ends with exit code 0 and an
  output file that is well-formed UTF-8 whose code points are those the encoding's table gives for
  the input bytes, in order, unless the encoding is ISO 8859-5 and the input holds a byte from 0x80
  to 0x9F: then the table is read out of its bounds.
\<close>

theorem encodings_utf8:
  assumes "length argv = 4" and "supported (argv ! 3)"
  shows "if list_all (defined_byte (argv ! 3)) chars
    then \<exists>out. encodings_main argv (Some chars) True = Inr (0, Some out) \<and>
           utf8_decode out = Some (map (code_point (argv ! 3)) chars)
    else encodings_main argv (Some chars) True = Inl Ub_OobRead"
proof -
  from assms(2) obtain get_unicode where g: "check_encoding (argv ! 3) = Some get_unicode"
    by (cases "check_encoding (argv ! 3)") (auto simp: supported_def check_encoding_def strcmp_eq_def split: if_splits)
  from convert_correct [OF assms(2) g, of chars] show ?thesis
    by (auto simp: encodings_main_def assms(1) g)
qed

lemma encodings_utf8_witness:
  "\<exists>out. encodings_main [str ''main'', str ''a'', str ''b'', str ''koi8r''] (Some [0xF0, 0x21]) True = Inr (0, Some out) \<and>
     utf8_decode out = Some [0x041F, 0x21]"
  using encodings_utf8 [of "[str ''main'', str ''a'', str ''b'', str ''koi8r'']" "[0xF0, 0x21]"]
  by (simp add: supported_def defined_byte_def encoding_names code_point_def koi8r_to_unicode_def)

text \<open>No two bytes of an encoding share a code point, except byte 0x98 of CP1251, which is mapped to 0.\<close>

definition one_to_one :: "u16 list \<Rightarrow> bool" where
  "one_to_one tab \<longleftrightarrow> distinct tab \<and> list_all (\<lambda>c. c = 0 \<or> 0x80 \<le> c) tab"

lemma distinct_unat: "distinct (map unat tab) \<Longrightarrow> distinct tab"
  by (simp add: distinct_map)

lemma tables_distinct:
  "distinct koi8r_to_unicode" "distinct cp1251_to_unicode" "distinct iso8859_5_to_unicode"
  by (rule distinct_unat, simp add: koi8r_to_unicode_def cp1251_to_unicode_def iso8859_5_to_unicode_def)+

lemma tables_high:
  "list_all (\<lambda>c. c = 0 \<or> 0x80 \<le> c) koi8r_to_unicode"
  "list_all (\<lambda>c. c = 0 \<or> 0x80 \<le> c) cp1251_to_unicode"
  "list_all (\<lambda>c. c = 0 \<or> 0x80 \<le> c) iso8859_5_to_unicode"
  by (simp_all add: koi8r_to_unicode_def cp1251_to_unicode_def iso8859_5_to_unicode_def)

lemma tables_one_to_one:
  "one_to_one koi8r_to_unicode" "one_to_one cp1251_to_unicode" "one_to_one iso8859_5_to_unicode"
  using tables_distinct tables_high by (simp_all add: one_to_one_def)

lemma one_to_one_nth:
  "one_to_one tab \<Longrightarrow> i < length tab \<Longrightarrow> j < length tab \<Longrightarrow> tab ! i = tab ! j \<Longrightarrow> i = j"
  by (simp add: one_to_one_def nth_eq_iff_index_eq)

lemma one_to_one_high: "one_to_one tab \<Longrightarrow> i < length tab \<Longrightarrow> tab ! i \<noteq> 0 \<Longrightarrow> 128 \<le> unat (tab ! i)"
  by (auto simp: one_to_one_def list_all_length word_le_nat_alt)

text \<open>The bytes whose code point is theirs alone.\<close>

definition own_code :: "bytes \<Rightarrow> u8 \<Rightarrow> bool" where
  "own_code encoding ch \<longleftrightarrow> defined_byte encoding ch \<and> \<not> (encoding = str ''cp1251'' \<and> ch = 0x98)"

lemma own_high:
  assumes "supported encoding" and "own_code encoding ch" and "128 \<le> unat ch"
  shows "\<exists>tab base. (\<forall>b. 128 \<le> unat b \<longrightarrow> code_point encoding b = unat (tab ! (unat b - base)))
    \<and> (\<forall>b. own_code encoding b \<longrightarrow> 128 \<le> unat b \<longrightarrow>
          base \<le> unat b \<and> unat b - base < length tab \<and> tab ! (unat b - base) \<noteq> 0) \<and> one_to_one tab"
proof -
  have byte: "unat (b :: u8) < 256" for b using unsigned_less [of b] by simp
  have zero: "i < length cp1251_to_unicode \<Longrightarrow> cp1251_to_unicode ! i = 0 \<Longrightarrow> i = 24" for i
    using one_to_one_nth [OF tables_one_to_one(2), of i 24] by (simp add: cp1251_to_unicode_def)
  have nz: "list_all (\<lambda>c. c \<noteq> 0) koi8r_to_unicode" "list_all (\<lambda>c. c \<noteq> 0) iso8859_5_to_unicode"
    by (simp_all add: koi8r_to_unicode_def iso8859_5_to_unicode_def)
  consider "encoding = str ''koi8r''" | "encoding = str ''cp1251''" | "encoding = str ''8859-5''"
    using assms(1) by (auto simp: supported_def)
  then show ?thesis
  proof cases
    case 1
    have "unat b - 128 < 128 \<and> koi8r_to_unicode ! (unat b - 128) \<noteq> 0" if "128 \<le> unat b" for b :: u8
      using nz(1) byte [of b] that by (auto simp: list_all_length tables_length)
    with 1 show ?thesis
      by (intro exI [of _ koi8r_to_unicode] exI [of _ 128]) (simp add: code_point_def tables_length tables_one_to_one)
  next
    case 2
    have "unat b - 128 < 128 \<and> cp1251_to_unicode ! (unat b - 128) \<noteq> 0" if "128 \<le> unat b" "b \<noteq> 0x98" for b :: u8
    proof -
      have "unat b \<noteq> 152" using that(2) by (simp add: word_unat_eq_iff)
      moreover have i: "unat b - 128 < 128" using byte [of b] that(1) by linarith
      ultimately have "unat b - 128 \<noteq> 24" using that(1) by linarith
      with i show ?thesis using zero [of "unat b - 128"] by (auto simp: tables_length)
    qed
    with 2 show ?thesis
      by (intro exI [of _ cp1251_to_unicode] exI [of _ 128])
        (simp add: code_point_def tables_length tables_one_to_one own_code_def encoding_names(1) [symmetric])
  next
    case 3
    have "unat b - 160 < 96 \<and> iso8859_5_to_unicode ! (unat b - 160) \<noteq> 0" if "160 \<le> unat b" for b :: u8
      using nz(2) byte [of b] that by (auto simp: list_all_length tables_length)
    with 3 show ?thesis
      by (intro exI [of _ iso8859_5_to_unicode] exI [of _ 160])
        (auto simp: code_point_def tables_length tables_one_to_one own_code_def defined_byte_def not_less
          encoding_names(2,3) [symmetric])
  qed
qed

lemma code_point_inj:
  assumes "supported encoding" and "own_code encoding a" and "own_code encoding b"
    and "code_point encoding a = code_point encoding b"
  shows "a = b"
proof -
  have low: "c = d" if "unat c < 128" "unat d < 128" "code_point encoding c = code_point encoding d" for c d
    using that by (simp add: code_point_def word_unat_eq_iff)
  have mixed: False if "unat c < 128" "own_code encoding d" "128 \<le> unat d"
      "code_point encoding c = code_point encoding d" for c d
    using own_high [OF assms(1) that(2,3)] that one_to_one_high by (fastforce simp: code_point_def [of _ c])
  have high: "c = d" if "128 \<le> unat c" "128 \<le> unat d" "own_code encoding c" "own_code encoding d"
      "code_point encoding c = code_point encoding d" for c d
  proof -
    from own_high [OF assms(1) that(3,1)] obtain tab base where
      p: "\<And>b. 128 \<le> unat b \<Longrightarrow> code_point encoding b = unat (tab ! (unat b - base))"
        "\<And>b. own_code encoding b \<Longrightarrow> 128 \<le> unat b \<Longrightarrow> base \<le> unat b \<and> unat b - base < length tab"
        "one_to_one tab"
      by blast
    from that p have "tab ! (unat c - base) = tab ! (unat d - base)" by (simp add: word_unat_eq_iff)
    then have "unat c - base = unat d - base" using one_to_one_nth [OF p(3)] p(2) that by blast
    then have "unat c = unat d" using p(2) [OF that(3,1)] p(2) [OF that(4,2)] by linarith
    then show ?thesis by (simp add: word_unat_eq_iff)
  qed
  show ?thesis using low mixed high assms by (metis linorder_not_less)
qed

text \<open>
  the conversion loses nothing: two inputs of bytes the encoding defines (and, for CP1251,
  without byte 0x98, whose entry is missing in the table) with the same output are equal.
\<close>

theorem encodings_lossless:
  assumes "length argv = 4" and "supported (argv ! 3)"
    and "list_all (own_code (argv ! 3)) chars" and "list_all (own_code (argv ! 3)) chars'"
    and "encodings_main argv (Some chars) True = encodings_main argv (Some chars') True"
  shows "chars = chars'"
proof -
  obtain get_unicode where g: "check_encoding (argv ! 3) = Some get_unicode"
    using assms(2)
    by (cases "check_encoding (argv ! 3)") (auto simp: supported_def check_encoding_def strcmp_eq_def split: if_splits)
  have d: "list_all (defined_byte (argv ! 3)) cs" if "list_all (own_code (argv ! 3)) cs" for cs
    using that by (auto simp: own_code_def list_all_iff)
  have "map (code_point (argv ! 3)) chars = map (code_point (argv ! 3)) chars'"
    using convert_correct [OF assms(2) g, of chars] convert_correct [OF assms(2) g, of chars'] d assms
    by (auto simp: encodings_main_def g)
  then show ?thesis
    using assms(3,4) code_point_inj [OF assms(2)]
    by (intro map_inj_on [of "code_point (argv ! 3)"]) (auto simp: inj_on_def list_all_iff)
qed

lemma encodings_lossless_witness:
  "encodings_main [str ''main'', str ''a'', str ''b'', str ''8859-5''] (Some [0xB0]) True
    \<noteq> encodings_main [str ''main'', str ''a'', str ''b'', str ''8859-5''] (Some [0xB1]) True"
  using encodings_lossless [of "[str ''main'', str ''a'', str ''b'', str ''8859-5'']" "[0xB0]" "[0xB1]"]
  by (auto simp: supported_def own_code_def defined_byte_def encoding_names)

end
