(* ===== verification/ZipScan.thy ===== *)
theory ZipScan
  imports CStd
begin

text \<open>
  HW_01-Files: the search for zip records in a file (a picture with an archive appended). A window
  of four bytes runs over buffers of 8192 bytes; at a local file header the name is listed.
\<close>

subsection \<open>The scan of a buffer\<close>

definition ZIP_SIGNATURE :: u32 where "ZIP_SIGNATURE = 0x504b0304"
definition BUF_SIZE :: nat where "BUF_SIZE = 8192"

text \<open>The buffer is the list of its bytes that have ever been read into it.\<close>

definition buf_get :: "bytes \<Rightarrow> nat \<Rightarrow> ub + u8" where
  "buf_get buffer i =
     (if i < length buffer then Inr (buffer ! i)
      else if i < BUF_SIZE then Inl Ub_Uninit else Inl Ub_OobRead)"

text \<open>The names found, the window, and the bytes to go back by after the buffer.\<close>

function scan_buffer :: "bytes \<Rightarrow> nat \<Rightarrow> nat \<Rightarrow> u32 \<Rightarrow> bytes list \<Rightarrow> ub + u32 \<times> nat \<times> bytes list" where
  "scan_buffer buffer bytes i window names =
     (if i < bytes then
        (case buf_get buffer i of
           Inl u \<Rightarrow> Inl u
         | Inr b \<Rightarrow>
             let window = push_bit 8 window OR (ucast b AND 0xFF) in
             if window = ZIP_SIGNATURE then
               (if bytes < i + 24 then Inr (window, 24, names)
                else case (buf_get buffer (i + 23), buf_get buffer (i + 24)) of
                    (Inr lo, Inr hi) \<Rightarrow>
                      let len = unat (lo OR hi) in
                      if bytes < i + 27 + len then Inr (window, i + 27 + len - bytes, names)
                      else scan_buffer buffer bytes (i + 1) window
                             (names @ [cstr (take len (drop (i + 27) buffer))])
                  | (Inl u, _) \<Rightarrow> Inl u
                  | (_, Inl u) \<Rightarrow> Inl u)
             else scan_buffer buffer bytes (i + 1) window names)
      else Inr (window, 3, names))"
  by pat_completeness auto
termination by (relation "measure (\<lambda>(buffer, bytes, i, window, names). bytes - i)") auto

declare scan_buffer.simps [simp del]

text \<open>
  The loop over the buffers from a position of the file: every pass moves on, since it goes back by
  fewer bytes than it has read.
\<close>

function extract_loop :: "bytes \<Rightarrow> nat \<Rightarrow> bytes \<Rightarrow> u32 \<Rightarrow> bytes list \<Rightarrow> ub + bytes list" where
  "extract_loop fin pos buffer window names =
     (let chunk = take BUF_SIZE (drop pos fin) in
      if chunk = [] then Inr names
      else
        case scan_buffer (chunk @ drop (length chunk) buffer) (length chunk) 0 window names of
          Inl u \<Rightarrow> Inl u
        | Inr (window, offset, names) \<Rightarrow>
            extract_loop fin (pos + length chunk - (if offset < length chunk then offset else 0))
              (chunk @ drop (length chunk) buffer) window names)"
  by pat_completeness auto
termination
  by (relation "measure (\<lambda>(fin, pos, buffer, window, names). length fin - pos)") (auto simp: BUF_SIZE_def)

declare extract_loop.simps [simp del]

text \<open>The result and what is printed, which goes to the output file too.\<close>

definition extract_files :: "bytes \<Rightarrow> ub + int \<times> bytes" where
  "extract_files fin =
     (case extract_loop fin 0 [] 0 [] of
        Inl u \<Rightarrow> Inl u
      | Inr names \<Rightarrow>
          Inr (if length names \<noteq> 0 then 1 else 0,
               concat (map (\<lambda>name. name @ [c_nl]) names)
                 @ str ''Total records = '' @ show_dec (length names) @ [c_nl]))"

text \<open>
  The program on its arguments, the content of the file when it opens, and whether the output
  opens: the exit code, the standard output and the content of the output file.
\<close>

definition zip_main :: "bytes list \<Rightarrow> bytes option \<Rightarrow> bool \<Rightarrow> ub + int \<times> bytes \<times> bytes option" where
  "zip_main argv fin out_opens =
     (if length argv \<noteq> 2 then Inr (1, str ''USAGE: '' @ cstr (argv ! 0) @ str '' <file>'' @ [c_nl], None)
      else
        let name = cstr (argv ! 1); shown = name @ [c_nl] in
        if 256 < strlen (argv ! 1) + 14 + 1 then Inl Ub_OobWrite
        else case fin of
          None \<Rightarrow> Inr (1, shown @ str ''Failed to open '' @ name @ str '' for reading!'' @ [c_nl],
                      if out_opens then Some [] else None)
        | Some content \<Rightarrow>
            if \<not> out_opens then Inl Ub_NullDeref
            else case extract_files content of
              Inl u \<Rightarrow> Inl u
            | Inr (found, listing) \<Rightarrow>
                Inr (0, shown @ listing
                       @ (if found = 0 then str ''NOT A RARJPG FILE <'' @ name @ str ''>'' @ [c_nl] else []),
                     Some listing))"

subsection \<open>The window\<close>

definition window_of :: "bytes \<Rightarrow> u32" where
  "window_of bs = foldl (\<lambda>w b. push_bit 8 w OR (ucast b AND 0xFF)) 0 bs"

lemma window_snoc: "window_of (bs @ [b]) = push_bit 8 (window_of bs) OR (ucast b AND 0xFF)"
  by (simp add: window_of_def)

definition signature :: bytes where
  "signature = [0x50, 0x4B, 0x03, 0x04]"

lemma window_last4: "window_of (bs @ [a, b, c, d]) = be32 [a, b, c, d]"
proof -
  have ff: "(0xFF :: u32) = mask 8" by (simp add: mask_eq_exp_minus_1)
  have "ucast (x :: u8) AND 0xFF = (ucast x :: u32)" for x
    by (rule bit_eqI) (auto simp: ff bit_simps dest: bit_imp_le_length)
  then show ?thesis
    by (intro bit_eqI) (auto simp: window_of_def be32_def bit_simps dest: bit_imp_le_length)
qed

lemma byte_bit: "8 \<le> n \<Longrightarrow> \<not> bit (b :: u8) n"
  using bit_imp_le_length [of b n] by auto

lemma be32_bytes_be32: "be32_bytes (be32 [a, b, c, d]) = [a, b, c, d]"
  by (auto simp: be32_bytes_def be32_def bit_simps byte_bit intro!: bit_eqI)

lemma be32_signature: "be32 [a, b, c, d] = ZIP_SIGNATURE \<longleftrightarrow> [a, b, c, d] = signature"
proof
  assume "be32 [a, b, c, d] = ZIP_SIGNATURE"
  then have "[a, b, c, d] = be32_bytes ZIP_SIGNATURE" using be32_bytes_be32 [of a b c d] by simp
  then show "[a, b, c, d] = signature" by (simp add: be32_bytes_def ZIP_SIGNATURE_def signature_def)
qed (simp add: be32_def signature_def ZIP_SIGNATURE_def)

lemma window_zeros: "window_of (replicate n 0 @ bs) = window_of bs"
proof -
  have "foldl (\<lambda>w b. push_bit 8 w OR (ucast b AND 0xFF)) 0 (replicate n (0 :: u8)) = (0 :: u32)"
    by (induction n) simp_all
  then show ?thesis by (simp add: window_of_def)
qed

lemma last_four: "p + 3 < length bs \<Longrightarrow>
  take (Suc (p + 3)) bs = take p bs @ [bs ! p, bs ! (p + 1), bs ! (p + 2), bs ! (p + 3)]"
  by (simp add: take_Suc_conv_app_nth numeral_3_eq_3)

lemma take_4_drop: "p + 3 < length bs \<Longrightarrow> take 4 (drop p bs) = [bs ! p, bs ! (p + 1), bs ! (p + 2), bs ! (p + 3)]"
  by (intro nth_equalityI) (auto simp: less_Suc_eq numeral_eq_Suc)

definition signature_at :: "bytes \<Rightarrow> nat \<Rightarrow> bool" where
  "signature_at bs p \<longleftrightarrow> take 4 (drop p bs) = signature"

lemma window_signature:
  assumes "i < length bs"
  shows "window_of (take (Suc i) bs) = ZIP_SIGNATURE \<longleftrightarrow> 3 \<le> i \<and> signature_at bs (i - 3)"
proof (cases "3 \<le> i")
  case True
  then obtain p where p: "i = p + 3" by (metis add.commute le_Suc_ex)
  then have "window_of (take (Suc i) bs) = be32 [bs ! p, bs ! (p + 1), bs ! (p + 2), bs ! (p + 3)]"
    using assms by (simp only: last_four window_last4)
  then show ?thesis using p assms by (simp only: be32_signature signature_at_def take_4_drop) simp
next
  case False
  let ?bs = "replicate 4 0 @ bs" and ?p = "i + 1"
  have "window_of (take (Suc i) bs) = window_of (replicate 4 0 @ take (Suc i) bs)"
    by (simp only: window_zeros)
  also have "replicate 4 0 @ take (Suc i) bs = take (Suc (?p + 3)) ?bs" by simp
  also have "window_of \<dots> = be32 [?bs ! ?p, ?bs ! (?p + 1), ?bs ! (?p + 2), ?bs ! (?p + 3)]"
    using assms by (subst last_four) (simp_all only: window_last4, simp)
  finally have w: "window_of (take (Suc i) bs) = be32 [?bs ! ?p, ?bs ! (?p + 1), ?bs ! (?p + 2), ?bs ! (?p + 3)]" .
  have "?bs ! ?p = 0" using False by (subst nth_append) auto
  then have "[?bs ! ?p, ?bs ! (?p + 1), ?bs ! (?p + 2), ?bs ! (?p + 3)] \<noteq> signature"
    by (simp add: signature_def)
  with w False show ?thesis by (simp only: be32_signature) simp
qed

subsection \<open>A file of one buffer\<close>

text \<open>The record at a position: its name, and whether the file holds all of it.\<close>

definition name_length :: "bytes \<Rightarrow> nat \<Rightarrow> nat" where
  "name_length bs p = unat (bs ! (p + 26) OR bs ! (p + 27))"

definition record_name :: "bytes \<Rightarrow> nat \<Rightarrow> bytes" where
  "record_name bs p = cstr (take (name_length bs p) (drop (p + 30) bs))"

definition complete_at :: "bytes \<Rightarrow> nat \<Rightarrow> bool" where
  "complete_at bs p \<longleftrightarrow> p + 30 \<le> length bs \<and> p + 30 + name_length bs p \<le> length bs"

definition names_from :: "bytes \<Rightarrow> nat \<Rightarrow> bytes list" where
  "names_from bs p = map (record_name bs) (filter (signature_at bs) [p..<length bs - 3])"

lemma names_from_step:
  assumes "i < length bs"
  shows "names_from bs (i - 3)
    = (if 3 \<le> i \<and> signature_at bs (i - 3) then [record_name bs (i - 3)] else []) @ names_from bs (Suc i - 3)"
proof (cases "3 \<le> i")
  case True
  then have "i - 3 < length bs - 3" and "Suc i - 3 = Suc (i - 3)" using assms by linarith+
  then have "[i - 3..<length bs - 3] = (i - 3) # [Suc i - 3..<length bs - 3]"
    by (simp only: upt_conv_Cons)
  then show ?thesis using True by (simp add: names_from_def)
qed (simp add: names_from_def)

lemma scan_whole:
  assumes complete: "\<And>p. signature_at bs p \<Longrightarrow> complete_at bs p"
  shows "i \<le> length bs \<Longrightarrow>
    scan_buffer bs (length bs) i (window_of (take i bs)) names = Inr (window_of bs, 3, names @ names_from bs (i - 3))"
proof (induction "length bs - i" arbitrary: i names)
  case 0
  then have "i = length bs" by simp
  then show ?case by (simp add: scan_buffer.simps names_from_def)
next
  case (Suc n)
  then have i: "i < length bs" by simp
  have w: "push_bit 8 (window_of (take i bs)) OR (ucast (bs ! i) AND 0xFF) = window_of (take (Suc i) bs)"
    using i by (simp only: take_Suc_conv_app_nth window_snoc)
  have IH: "scan_buffer bs (length bs) (Suc i) (window_of (take (Suc i) bs)) ns
      = Inr (window_of bs, 3, ns @ names_from bs (Suc i - 3))" for ns
    using Suc by (intro Suc.hyps(1)) simp_all
  show ?case
  proof (cases "3 \<le> i \<and> signature_at bs (i - 3)")
    case True
    then have c: "complete_at bs (i - 3)" using complete by blast
    have idx: "i - 3 + 26 = i + 23" "i - 3 + 27 = i + 24" "i - 3 + 30 = i + 27" using True by simp_all
    have len: "unat (bs ! (i + 23) OR bs ! (i + 24)) = name_length bs (i - 3)"
      by (simp only: name_length_def idx)
    have name: "cstr (take (name_length bs (i - 3)) (drop (i + 27) bs)) = record_name bs (i - 3)"
      by (simp only: record_name_def idx)
    from c have bounds: "i + 27 + name_length bs (i - 3) \<le> length bs" unfolding complete_at_def idx by simp
    show ?thesis
      using True i w window_signature [OF i] bounds IH
      by (subst scan_buffer.simps) (simp add: buf_get_def Let_def len name names_from_step [OF i])
  next
    case False
    then show ?thesis
      using i w window_signature [OF i] IH
      by (subst scan_buffer.simps) (auto simp: buf_get_def Let_def names_from_step [OF i])
  qed
qed

text \<open>The last three bytes are read a second time: no window over them is the signature again.\<close>

lemma scan_none:
  assumes "bytes \<le> length buffer"
    and "\<And>j. j < bytes \<Longrightarrow> window_of (xs @ take (Suc j) buffer) \<noteq> ZIP_SIGNATURE"
  shows "i \<le> bytes \<Longrightarrow> \<exists>w. scan_buffer buffer bytes i (window_of (xs @ take i buffer)) names = Inr (w, 3, names)"
proof (induction "bytes - i" arbitrary: i)
  case 0
  then show ?case by (simp add: scan_buffer.simps)
next
  case (Suc n)
  then have i: "i < bytes" "i < length buffer" using assms(1) by simp_all
  have "push_bit 8 (window_of (xs @ take i buffer)) OR (ucast (buffer ! i) AND 0xFF)
      = window_of (xs @ take (Suc i) buffer)"
    using i(2) by (simp only: take_Suc_conv_app_nth append_assoc [symmetric] window_snoc)
  moreover have "\<exists>w. scan_buffer buffer bytes (Suc i) (window_of (xs @ take (Suc i) buffer)) names = Inr (w, 3, names)"
    using Suc by (intro Suc.hyps(1)) simp_all
  ultimately show ?case
    using i assms(2) [OF i(1)] by (subst scan_buffer.simps) (simp add: buf_get_def Let_def)
qed

lemma second_reading:
  assumes "3 < length bs" and "j < 3" and "chunk = drop (length bs - 3) bs"
  shows "window_of (bs @ take (Suc j) (chunk @ rest)) \<noteq> ZIP_SIGNATURE"
proof
  let ?p = "length bs - 3 + j"
  have c: "length chunk = 3" using assms by simp
  have t: "bs @ take (Suc j) (chunk @ rest) = take (Suc (?p + 3)) (bs @ chunk)"
    using assms c by simp
  have p: "?p + 3 < length (bs @ chunk)" using assms(1,2) c by simp
  assume "window_of (bs @ take (Suc j) (chunk @ rest)) = ZIP_SIGNATURE"
  then have "signature_at (bs @ chunk) ?p"
    unfolding t using window_signature [OF p] by simp
  then have "(bs @ chunk) ! ?p = 0x50" "(bs @ chunk) ! (?p + 3) = 0x04"
    unfolding signature_at_def take_4_drop [OF p] signature_def by simp_all
  moreover have "?p < length bs" "?p + 3 = length bs + j" using assms(1,2) by linarith+
  then have "(bs @ chunk) ! ?p = bs ! ?p" and "(bs @ chunk) ! (?p + 3) = chunk ! j"
    by (simp_all only: nth_append_left nth_append_length_plus)
  moreover have "chunk ! j = bs ! ?p" using assms by simp
  ultimately show False by simp
qed

lemma extract_one_buffer:
  assumes len: "length bs \<le> 8192" and complete: "\<And>p. signature_at bs p \<Longrightarrow> complete_at bs p"
  shows "extract_loop bs 0 [] 0 [] = Inr (names_from bs 0)"
proof (cases "bs = []")
  case True
  then show ?thesis by (simp add: extract_loop.simps names_from_def)
next
  case False
  let ?n = "length bs"
  have scan: "scan_buffer bs ?n 0 0 [] = Inr (window_of bs, 3, names_from bs 0)"
    using scan_whole [of bs 0 "[]"] complete by (simp add: window_of_def)
  have end_loop: "extract_loop bs ?n buffer w names = Inr names" for buffer w names
    by (subst extract_loop.simps) simp
  have first: "extract_loop bs 0 [] 0 [] = extract_loop bs (if 3 < ?n then ?n - 3 else ?n) bs (window_of bs) (names_from bs 0)"
    using False len scan by (subst extract_loop.simps) (simp add: BUF_SIZE_def Let_def)
  show ?thesis
  proof (cases "3 < ?n")
    case True
    let ?chunk = "drop (?n - 3) bs"
    have chunk: "take BUF_SIZE (drop (?n - 3) bs) = ?chunk" "length ?chunk = 3" "?chunk \<noteq> []"
      using True by (simp_all add: BUF_SIZE_def)
    have "\<exists>w. scan_buffer (?chunk @ drop 3 bs) 3 0 (window_of (bs @ take 0 (?chunk @ drop 3 bs))) (names_from bs 0)
        = Inr (w, 3, names_from bs 0)"
      using True by (intro scan_none second_reading) simp_all
    then obtain w where "scan_buffer (?chunk @ drop 3 bs) 3 0 (window_of bs) (names_from bs 0) = Inr (w, 3, names_from bs 0)"
      by auto
    then have "extract_loop bs (?n - 3) bs (window_of bs) (names_from bs 0)
        = extract_loop bs ?n (?chunk @ drop 3 bs) w (names_from bs 0)"
      using True chunk(3) by (subst extract_loop.simps) (simp only: chunk Let_def, simp)
    then show ?thesis using first True end_loop by simp
  next
    case False
    then show ?thesis using first end_loop by simp
  qed
qed

text \<open>
  for a file of at most one buffer whose records are all complete, what is printed is the list
  of the names of exactly the records in the file, in order, and their number; the bytes that are
  read twice at its end add nothing. No read leaves the buffer.
\<close>

theorem zip_names_listed:
  assumes "length bs \<le> 8192" and "\<forall>p. signature_at bs p \<longrightarrow> complete_at bs p"
  shows "extract_files bs = Inr (if names_from bs 0 = [] then 0 else 1,
    concat (map (\<lambda>name. name @ [c_nl]) (names_from bs 0))
      @ str ''Total records = '' @ show_dec (length (names_from bs 0)) @ [c_nl])"
  using assms by (simp add: extract_files_def extract_one_buffer)

definition sample_zip :: bytes where
  "sample_zip = [1, 2] @ signature @ [0, 0, 0, 0, 0, 0, 0, 0, 0, 0, 0, 0, 0, 0, 0, 0, 0, 0, 0, 0, 0, 0, 2, 0, 0, 0] @ str ''hi'' @ [9]"

lemma sample_signatures: "signature_at sample_zip p \<longleftrightarrow> p = 2"
proof
  assume a: "signature_at sample_zip p"
  show "p = 2"
  proof (rule ccontr)
    assume "p \<noteq> 2"
    have "length (take 4 (drop p sample_zip)) = 4" using a by (simp add: signature_at_def signature_def)
    then have p: "p + 3 < length sample_zip" by simp
    from a have "sample_zip ! p = 0x50" by (simp add: signature_at_def take_4_drop [OF p] signature_def)
    moreover have "list_all (\<lambda>i. i = 2 \<or> sample_zip ! i \<noteq> 0x50) [0..<length sample_zip]"
      by (simp add: sample_zip_def signature_def byte_simps upt_rec)
    ultimately show False using \<open>p \<noteq> 2\<close> p unfolding list_all_iff by auto
  qed
qed (simp add: signature_at_def sample_zip_def signature_def)

lemma zip_names_listed_witness:
  "extract_files sample_zip = Inr (1, str ''hi'' @ [c_nl] @ str ''Total records = '' @ show_dec 1 @ [c_nl])"
proof -
  have "length sample_zip = 35" by (simp add: sample_zip_def signature_def)
  moreover have l: "name_length sample_zip 2 = 2"
    by (simp add: name_length_def sample_zip_def signature_def byte_simps)
  moreover have "complete_at sample_zip 2" using calculation by (simp add: complete_at_def)
  moreover have "record_name sample_zip 2 = str ''hi''"
    unfolding record_name_def l by (simp add: sample_zip_def signature_def cstr_def byte_simps)
  moreover have "filter (signature_at sample_zip) [0..<32] = [2]"
    by (simp add: sample_signatures upt_rec)
  ultimately show ?thesis
    using zip_names_listed [of sample_zip] by (simp add: sample_signatures names_from_def)
qed

end
