(* ===== verification/LogTables.thy ===== *)
theory LogTables
  imports CStd "HOL-Library.Multiset"
begin

text \<open>
  HW_10-Log-Parser: the two hash tables of parser.c, urls with the bytes they served and referers
  with the number of their requests. A table is the list of its chains, a string the list of its
  bytes before the terminating zero. Sums are taken at the width of \<open>long long\<close> and \<open>int\<close> with
  wrap-around; allocations succeed.
\<close>

subsection \<open>The tables\<close>

definition HASH_TABLE_SIZE :: nat where "HASH_TABLE_SIZE = 2048"
definition HASH_BASE :: u64 where "HASH_BASE = 5381"

definition hash_string :: "bytes \<Rightarrow> u64" where
  "hash_string s = foldl (\<lambda>hash c. (push_bit 5 hash + hash) + ucast c) HASH_BASE s"

definition bucket_of :: "nat \<Rightarrow> bytes \<Rightarrow> nat" where
  "bucket_of n s = unat (hash_string s) mod n"

record UrlNode =
  un_url :: bytes
  un_total :: u64

record RefererNode =
  rn_referer :: bytes
  rn_count :: u32

type_synonym UrlHashTable = "UrlNode list list"
type_synonym RefererHashTable = "RefererNode list list"

definition create_table :: "nat \<Rightarrow> 'n list list" where
  "create_table n = replicate n []"

text \<open>The walk along a chain: the first node that matches is bumped, else a new one goes in front.\<close>

primrec bump_first :: "('n \<Rightarrow> bool) \<Rightarrow> ('n \<Rightarrow> 'n) \<Rightarrow> 'n list \<Rightarrow> 'n list" where
  "bump_first same bump [] = []"
| "bump_first same bump (current # rest) =
     (if same current then bump current # rest else current # bump_first same bump rest)"

definition chain_update :: "('n \<Rightarrow> bool) \<Rightarrow> ('n \<Rightarrow> 'n) \<Rightarrow> 'n \<Rightarrow> 'n list \<Rightarrow> 'n list" where
  "chain_update same bump new_node chain =
     (if list_ex same chain then bump_first same bump chain else new_node # chain)"

definition update_url_table :: "bytes \<Rightarrow> u64 \<Rightarrow> UrlHashTable \<Rightarrow> UrlHashTable" where
  "update_url_table url bytes table =
     (if url = [] then table
      else
        let hash = bucket_of (length table) url in
        table[hash := chain_update (\<lambda>n. un_url n = url) (\<lambda>n. n\<lparr>un_total := un_total n + bytes\<rparr>)
                        \<lparr>un_url = url, un_total = bytes\<rparr> (table ! hash)])"

definition update_referer_table :: "bytes \<Rightarrow> RefererHashTable \<Rightarrow> RefererHashTable" where
  "update_referer_table referer table =
     (if referer = [] \<or> referer = str ''-'' then table
      else
        let hash = bucket_of (length table) referer in
        table[hash := chain_update (\<lambda>n. rn_referer n = referer) (\<lambda>n. n\<lparr>rn_count := rn_count n + 1\<rparr>)
                        \<lparr>rn_referer = referer, rn_count = 1\<rparr> (table ! hash)])"

definition merge_url_tables :: "UrlHashTable \<Rightarrow> UrlHashTable \<Rightarrow> UrlHashTable" where
  "merge_url_tables src dst = fold (\<lambda>n. update_url_table (un_url n) (un_total n)) (concat src) dst"

definition merge_referer_tables :: "RefererHashTable \<Rightarrow> RefererHashTable \<Rightarrow> RefererHashTable" where
  "merge_referer_tables src dst =
     fold (\<lambda>n dst. (update_referer_table (rn_referer n) ^^ nat (sint (rn_count n))) dst) (concat src) dst"

text \<open>The arrays the report is made from, and the comparisons they are sorted with.\<close>

definition table_to_array :: "'n list list \<Rightarrow> 'n list" where
  "table_to_array table = concat table"

definition compare_urls :: "UrlNode \<Rightarrow> UrlNode \<Rightarrow> int" where
  "compare_urls u1 u2 =
     (if sint (un_total u1) < sint (un_total u2) then 1
      else if sint (un_total u2) < sint (un_total u1) then - 1 else 0)"

definition compare_referers :: "RefererNode \<Rightarrow> RefererNode \<Rightarrow> int" where
  "compare_referers r1 r2 =
     (if sint (rn_count r1) < sint (rn_count r2) then 1
      else if sint (rn_count r2) < sint (rn_count r1) then - 1 else 0)"

subsection \<open>Chained tables\<close>

text \<open>
  What both tables share: every node is in the chain of its key, at most one for each key, and the
  total of a key is what its nodes hold.
\<close>

definition chains_ok :: "('n \<Rightarrow> bytes) \<Rightarrow> 'n list list \<Rightarrow> bool" where
  "chains_ok key t \<longleftrightarrow> 0 < length t \<and>
     (\<forall>i<length t. distinct (map key (t ! i)) \<and> (\<forall>n\<in>set (t ! i). bucket_of (length t) (key n) = i))"

definition table_total :: "('n \<Rightarrow> bytes) \<Rightarrow> ('n \<Rightarrow> 'v::comm_monoid_add) \<Rightarrow> 'n list list \<Rightarrow> bytes \<Rightarrow> 'v" where
  "table_total key val t k = sum_list (map val (filter (\<lambda>n. key n = k) (concat t)))"

definition table_keys :: "('n \<Rightarrow> bytes) \<Rightarrow> 'n list list \<Rightarrow> bytes set" where
  "table_keys key t = key ` set (concat t)"

lemma chains_ok_create: "0 < n \<Longrightarrow> chains_ok key (create_table n)"
  by (simp add: chains_ok_def create_table_def)

lemma create_table_empty: "table_total key val (create_table n) k = 0" "table_keys key (create_table n) = {}"
  by (simp_all add: table_total_def table_keys_def create_table_def)

lemma bump_first_map: "(\<And>n. f (bump n) = f n) \<Longrightarrow> map f (bump_first same bump chain) = map f chain"
  by (induction chain) simp_all

locale chained =
  fixes key :: "'n \<Rightarrow> bytes" and val :: "'n \<Rightarrow> 'v::comm_monoid_add"
    and bump :: "'v \<Rightarrow> 'n \<Rightarrow> 'n" and fresh :: "bytes \<Rightarrow> 'v \<Rightarrow> 'n"
  assumes key_bump: "key (bump v n) = key n" and val_bump: "val (bump v n) = val n + v"
    and key_fresh: "key (fresh k v) = k" and val_fresh: "val (fresh k v) = v"
begin

definition put :: "bytes \<Rightarrow> 'v \<Rightarrow> 'n list list \<Rightarrow> 'n list list" where
  "put k v t = t[bucket_of (length t) k :=
     chain_update (\<lambda>n. key n = k) (bump v) (fresh k v) (t ! bucket_of (length t) k)]"

lemma keys_chain:
  "key ` set (chain_update (\<lambda>n. key n = k) (bump v) (fresh k v) chain) = insert k (key ` set chain)"
proof -
  have "set (map key (bump_first same (bump v) chain)) = key ` set chain" for same
    by (simp only: bump_first_map key_bump set_map)
  then show ?thesis by (auto simp: chain_update_def key_fresh list_ex_iff)
qed

lemma distinct_chain:
  "distinct (map key chain) \<Longrightarrow> distinct (map key (chain_update (\<lambda>n. key n = k) (bump v) (fresh k v) chain))"
  by (auto simp: chain_update_def key_fresh bump_first_map key_bump list_ex_iff)

lemma total_chain:
  "sum_list (map val (filter (\<lambda>n. key n = k') (chain_update (\<lambda>n. key n = k) (bump v) (fresh k v) chain)))
   = sum_list (map val (filter (\<lambda>n. key n = k') chain)) + (if k = k' then v else 0)"
proof -
  have found: "list_ex (\<lambda>n. key n = k) chain \<Longrightarrow>
    sum_list (map val (filter (\<lambda>n. key n = k') (bump_first (\<lambda>n. key n = k) (bump v) chain)))
    = sum_list (map val (filter (\<lambda>n. key n = k') chain)) + (if k = k' then v else 0)"
    by (induction chain) (auto simp: key_bump val_bump add.assoc add.commute add.left_commute)
  show ?thesis
  proof (cases "list_ex (\<lambda>n. key n = k) chain")
    case True
    from found [OF this] True show ?thesis by (simp only: chain_update_def if_True)
  next
    case False
    then show ?thesis by (simp add: chain_update_def key_fresh val_fresh add.commute)
  qed
qed

lemma bucket_less: "chains_ok key t \<Longrightarrow> bucket_of (length t) k < length t"
  by (simp add: chains_ok_def bucket_of_def)

lemma put_ok: "chains_ok key t \<Longrightarrow> chains_ok key (put k v t)"
proof -
  assume ok: "chains_ok key t"
  let ?h = "bucket_of (length t) k"
  let ?c = "chain_update (\<lambda>n. key n = k) (bump v) (fresh k v) (t ! ?h)"
  have c: "distinct (map key ?c)" "\<forall>n\<in>set ?c. bucket_of (length t) (key n) = ?h"
  proof -
    show "distinct (map key ?c)"
      using ok bucket_less [OF ok] by (intro distinct_chain) (simp add: chains_ok_def)
    show "\<forall>n\<in>set ?c. bucket_of (length t) (key n) = ?h"
    proof
      fix n assume "n \<in> set ?c"
      then have "key n \<in> insert k (key ` set (t ! ?h))" using keys_chain by blast
      then show "bucket_of (length t) (key n) = ?h"
        using ok bucket_less [OF ok, of k] by (auto simp: chains_ok_def)
    qed
  qed
  have "distinct (map key (put k v t ! i)) \<and> (\<forall>n\<in>set (put k v t ! i). bucket_of (length t) (key n) = i)"
    if "i < length t" for i
    using c that ok by (cases "i = ?h") (simp_all add: chains_ok_def put_def)
  then show ?thesis using ok by (simp add: chains_ok_def put_def)
qed

lemma split_update:
  assumes "h < length t"
  shows "concat (t[h := c]) = concat (take h t) @ c @ concat (drop (Suc h) t)"
    and "concat t = concat (take h t) @ t ! h @ concat (drop (Suc h) t)"
proof -
  show "concat (t[h := c]) = concat (take h t) @ c @ concat (drop (Suc h) t)"
    using assms by (simp add: upd_conv_take_nth_drop)
  have "concat (take h t @ t ! h # drop (Suc h) t) = concat (take h t) @ t ! h @ concat (drop (Suc h) t)"
    by simp
  then show "concat t = concat (take h t) @ t ! h @ concat (drop (Suc h) t)"
    by (simp only: id_take_nth_drop [OF assms, symmetric])
qed

lemma put_total:
  assumes "chains_ok key t"
  shows "table_total key val (put k v t) k' = table_total key val t k' + (if k = k' then v else 0)"
  unfolding table_total_def put_def split_update(1) [OF bucket_less [OF assms]]
    split_update(2) [OF bucket_less [OF assms, of k]]
  by (simp only: filter_append map_append sum_list_append total_chain) (simp add: add.assoc add.commute add.left_commute)

lemma put_keys: "chains_ok key t \<Longrightarrow> table_keys key (put k v t) = insert k (table_keys key t)"
  using split_update [OF bucket_less, of t k] unfolding table_keys_def put_def
  by (simp only: set_append image_Un keys_chain) auto

text \<open>The nodes of a table have different keys, and each holds the total of its key.\<close>

lemma distinct_nodes: "chains_ok key t \<Longrightarrow> distinct (map key (concat t))"
proof -
  assume ok: "chains_ok key t"
  have "distinct (map key (concat (take i t))) \<and> (\<forall>n\<in>set (concat (take i t)). bucket_of (length t) (key n) < i)"
    if "i \<le> length t" for i
    using that
  proof (induction i)
    case (Suc i)
    then have i: "i < length t" by simp
    then have c: "distinct (map key (t ! i))" "\<forall>n\<in>set (t ! i). bucket_of (length t) (key n) = i"
      using ok by (auto simp: chains_ok_def)
    with Suc have "key ` set (concat (take i t)) \<inter> key ` set (t ! i) = {}" by fastforce
    with Suc c i show ?case by (auto simp: take_Suc_conv_app_nth less_Suc_eq)
  qed simp
  from this [of "length t"] show ?thesis by simp
qed

lemma node_total: "chains_ok key t \<Longrightarrow> n \<in> set (concat t) \<Longrightarrow> table_total key val t (key n) = val n"
proof -
  assume ok: "chains_ok key t" and n: "n \<in> set (concat t)"
  have "filter (\<lambda>m. key m = key n) ns = [n]" if "n \<in> set ns" "distinct (map key ns)" for ns
    using that
  proof (induction ns)
    case (Cons m ns)
    show ?case
    proof (cases "m = n")
      case True
      then have "filter (\<lambda>m. key m = key n) ns = []" using Cons.prems by (auto simp: filter_empty_conv image_iff)
      with True show ?thesis by simp
    next
      case False
      with Cons show ?thesis by auto
    qed
  qed simp
  from this [OF n distinct_nodes [OF ok]] show ?thesis by (simp add: table_total_def)
qed

end

subsection \<open>Tallies\<close>

text \<open>
  What a table promises its clients: an update adds an amount to the total of its key, unless the key
  is one that is not counted. A table represents a multiset of updates.
\<close>

locale tally =
  fixes upd :: "'e \<Rightarrow> 't \<Rightarrow> 't" and key :: "'e \<Rightarrow> bytes" and amount :: "'e \<Rightarrow> 'v::comm_monoid_add"
    and counted :: "bytes \<Rightarrow> bool"
    and total :: "'t \<Rightarrow> bytes \<Rightarrow> 'v" and keys :: "'t \<Rightarrow> bytes set" and ok :: "'t \<Rightarrow> bool"
  assumes upd_ok: "ok t \<Longrightarrow> ok (upd e t)"
    and upd_total: "ok t \<Longrightarrow> total (upd e t) k = total t k + (if key e = k \<and> counted k then amount e else 0)"
    and upd_keys: "ok t \<Longrightarrow> keys (upd e t) = (if counted (key e) then insert (key e) (keys t) else keys t)"
begin

definition tallied :: "'e multiset \<Rightarrow> bytes \<Rightarrow> 'v" where
  "tallied M k = sum_mset (image_mset amount (filter_mset (\<lambda>e. key e = k \<and> counted k) M))"

definition tallied_keys :: "'e multiset \<Rightarrow> bytes set" where
  "tallied_keys M = {k \<in> key ` set_mset M. counted k}"

definition represents :: "'t \<Rightarrow> 'e multiset \<Rightarrow> bool" where
  "represents t M \<longleftrightarrow> ok t \<and> (\<forall>k. total t k = tallied M k) \<and> keys t = tallied_keys M"

lemma represents_upd: "represents t M \<Longrightarrow> represents (upd e t) (add_mset e M)"
  by (auto simp: represents_def upd_ok upd_total upd_keys tallied_def tallied_keys_def add.commute)

lemma represents_fold: "represents t M \<Longrightarrow> represents (fold upd es t) (M + mset es)"
proof (induction es arbitrary: t M)
  case (Cons e es)
  from Cons.IH [OF represents_upd [OF Cons.prems]] show ?case by simp
qed simp

text \<open>A merge makes up for the updates of the source by others with the same totals.\<close>

lemma represents_merge:
  assumes dst: "represents dst M" and src: "represents src N"
    and same: "\<And>k. counted k \<Longrightarrow> sum_list (map amount (filter (\<lambda>e. key e = k) es)) = total src k"
    and keys: "key ` set es = keys src"
  shows "represents (fold upd es dst) (M + N)"
proof -
  have "tallied (mset es) k = tallied N k" for k
  proof (cases "counted k")
    case True
    have "tallied (mset es) k = sum_list (map amount (filter (\<lambda>e. key e = k) es))"
      by (simp add: tallied_def True sum_mset_sum_list [symmetric] flip: mset_filter mset_map)
    with same [OF True] src show ?thesis by (simp add: represents_def)
  qed (simp add: tallied_def)
  moreover have "tallied_keys (mset es) = tallied_keys N"
    using keys src by (auto simp: represents_def tallied_keys_def)
  ultimately show ?thesis
    using represents_fold [OF dst, of es]
    by (simp add: represents_def) (auto simp: tallied_def tallied_keys_def)
qed

end

text \<open>The urls.\<close>

abbreviation url_ok :: "UrlHashTable \<Rightarrow> bool" where "url_ok \<equiv> chains_ok un_url"
abbreviation url_total :: "UrlHashTable \<Rightarrow> bytes \<Rightarrow> u64" where "url_total \<equiv> table_total un_url un_total"
abbreviation url_keys :: "UrlHashTable \<Rightarrow> bytes set" where "url_keys \<equiv> table_keys un_url"

interpretation url_chains: chained un_url un_total
  "\<lambda>v n. n\<lparr>un_total := un_total n + v\<rparr>" "\<lambda>k v. \<lparr>un_url = k, un_total = v\<rparr>"
  by unfold_locales simp_all

lemma update_url_put:
  "update_url_table url bytes t = (if url = [] then t else url_chains.put url bytes t)"
  by (simp add: update_url_table_def url_chains.put_def Let_def)

interpretation url: tally "\<lambda>(url, bytes). update_url_table url bytes" fst snd "\<lambda>url. url \<noteq> []"
  url_total url_keys url_ok
  by unfold_locales
    (auto simp: update_url_put url_chains.put_ok url_chains.put_total url_chains.put_keys)

text \<open>The referers.\<close>

definition counted_referer :: "bytes \<Rightarrow> bool" where
  "counted_referer referer \<longleftrightarrow> referer \<noteq> [] \<and> referer \<noteq> str ''-''"

abbreviation referer_ok :: "RefererHashTable \<Rightarrow> bool" where "referer_ok \<equiv> chains_ok rn_referer"
abbreviation referer_total :: "RefererHashTable \<Rightarrow> bytes \<Rightarrow> u32" where
  "referer_total \<equiv> table_total rn_referer rn_count"
abbreviation referer_keys :: "RefererHashTable \<Rightarrow> bytes set" where "referer_keys \<equiv> table_keys rn_referer"

interpretation referer_chains: chained rn_referer rn_count
  "\<lambda>v n. n\<lparr>rn_count := rn_count n + v\<rparr>" "\<lambda>k v. \<lparr>rn_referer = k, rn_count = v\<rparr>"
  by unfold_locales simp_all

lemma update_referer_put:
  "update_referer_table r t = (if counted_referer r then referer_chains.put r 1 t else t)"
  by (simp add: update_referer_table_def referer_chains.put_def Let_def counted_referer_def)

interpretation referer: tally update_referer_table "\<lambda>r. r" "\<lambda>r. 1" counted_referer
  referer_total referer_keys referer_ok
  by unfold_locales
    (auto simp: update_referer_put referer_chains.put_ok referer_chains.put_total referer_chains.put_keys)

lemma url_represents_create: "0 < n \<Longrightarrow> url.represents (create_table n) {#}"
  by (simp add: url.represents_def chains_ok_create create_table_empty url.tallied_def url.tallied_keys_def)

lemma referer_represents_create: "0 < n \<Longrightarrow> referer.represents (create_table n) {#}"
  by (simp add: referer.represents_def chains_ok_create create_table_empty referer.tallied_def referer.tallied_keys_def)

subsection \<open>Merging\<close>

lemma merge_urls:
  assumes dst: "url.represents dst M" and src: "url.represents src N"
  shows "url.represents (merge_url_tables src dst) (M + N)"
proof -
  let ?es = "map (\<lambda>n. (un_url n, un_total n)) (concat src)"
  have "merge_url_tables src dst = fold (\<lambda>(url, bytes). update_url_table url bytes) ?es dst"
    by (simp add: merge_url_tables_def fold_map o_def)
  moreover have "url.represents (fold (\<lambda>(url, bytes). update_url_table url bytes) ?es dst) (M + N)"
    using dst src
    by (rule url.represents_merge) (simp_all add: table_total_def table_keys_def filter_map o_def image_image)
  ultimately show ?thesis by simp
qed

text \<open>The count of a node, as long as the updates fit in an \<open>int\<close>.\<close>

lemma referer_tallied: "referer.tallied N k = of_nat (size (filter_mset (\<lambda>r. r = k \<and> counted_referer k) N))"
  by (simp add: referer.tallied_def)

lemma small_sint: "m < 2 ^ 31 \<Longrightarrow> sint (word_of_nat m :: u32) = int m"
  by (simp add: signed_take_bit_int_eq_self sint_sbintrunc' signed_of_nat)

lemma referer_count:
  assumes r: "referer.represents t N" and "size N < 2 ^ 31" and n: "n \<in> set (concat t)"
  shows "sint (rn_count n) = int (count N (rn_referer n))" and "0 < count N (rn_referer n)"
proof -
  have ok: "referer_ok t" using r by (simp add: referer.represents_def)
  have "rn_referer n \<in> referer.tallied_keys N"
    using r n by (auto simp: referer.represents_def table_keys_def)
  then have c: "counted_referer (rn_referer n)" "rn_referer n \<in># N"
    by (auto simp: referer.tallied_keys_def)
  have "rn_count n = referer.tallied N (rn_referer n)"
    using referer_chains.node_total [OF ok n] r by (simp add: referer.represents_def)
  also have "\<dots> = word_of_nat (count N (rn_referer n))"
    by (simp add: referer_tallied c(1) count_conv_size_mset)
  finally have e: "rn_count n = word_of_nat (count N (rn_referer n))" .
  have "count N (rn_referer n) \<le> size N" by (rule count_le_size)
  with assms(2) have "count N (rn_referer n) < 2 ^ 31" by linarith
  then show "sint (rn_count n) = int (count N (rn_referer n))" by (simp only: e small_sint)
  show "0 < count N (rn_referer n)" using c(2) by simp
qed

text \<open>The updates a merge of referers makes.\<close>

definition merge_updates :: "RefererNode list \<Rightarrow> bytes list" where
  "merge_updates ns = concat (map (\<lambda>n. replicate (nat (sint (rn_count n))) (rn_referer n)) ns)"

lemma merge_referer_updates:
  "merge_referer_tables src dst = fold update_referer_table (merge_updates (concat src)) dst"
proof -
  have "fold update_referer_table (merge_updates ns) dst
      = fold (\<lambda>n dst. (update_referer_table (rn_referer n) ^^ nat (sint (rn_count n))) dst) ns dst" for ns
    by (induction ns arbitrary: dst) (simp_all add: merge_updates_def fold_replicate)
  then show ?thesis by (simp add: merge_referer_tables_def)
qed

lemma merge_updates_sum:
  assumes "\<forall>n\<in>set ns. 0 \<le> sint (rn_count n)"
  shows "sum_list (map (\<lambda>r. 1 :: u32) (filter (\<lambda>r. r = k) (merge_updates ns)))
    = sum_list (map rn_count (filter (\<lambda>n. rn_referer n = k) ns))"
  using assms
proof (induction ns)
  case (Cons n ns)
  have "(word_of_nat (nat (sint (rn_count n))) :: u32) = rn_count n"
    using Cons.prems by (simp add: of_nat_nat)
  with Cons show ?case by (simp add: merge_updates_def sum_list_triv)
qed (simp add: merge_updates_def)

lemma merge_referers:
  assumes dst: "referer.represents dst M" and src: "referer.represents src N" and "size N < 2 ^ 31"
  shows "referer.represents (merge_referer_tables src dst) (M + N)"
proof -
  have pos: "0 < sint (rn_count n)" if "n \<in> set (concat src)" for n
    using referer_count [OF src assms(3) that] by simp
  have "set (merge_updates (concat src)) = rn_referer ` set (concat src)"
    using pos by (force simp: merge_updates_def image_iff)
  with dst src show ?thesis
    unfolding merge_referer_updates
    by (intro referer.represents_merge)
      (simp_all add: table_total_def table_keys_def merge_updates_sum pos less_imp_le del: set_concat)
qed

end
