(* ===== verification/LogParser.thy ===== *)
theory LogParser
  imports LogTables
begin

text \<open>
  HW_10-Log-Parser: a line of a web server's log, and what a thread gathers from a file. A pointer
  into the line is the rest of the line; its end is the terminating zero.
\<close>

subsection \<open>A line\<close>

definition BYTES_LEN :: nat where "BYTES_LEN = 32"

definition skip_spaces :: "bytes \<Rightarrow> bytes" where
  "skip_spaces p = dropWhile isspace p"

definition skip_chars :: "bytes \<Rightarrow> bytes" where
  "skip_chars p = dropWhile (\<lambda>c. \<not> isspace c) p"

text \<open>\<open>*p == c\<close>\<close>

definition starts :: "u8 \<Rightarrow> bytes \<Rightarrow> bool" where
  "starts c p = (case p of [] \<Rightarrow> False | x # _ \<Rightarrow> x = c)"

definition atoll :: "bytes \<Rightarrow> int" where
  "atoll s = (case strtol (s @ [c_nul]) of Some (v, _) \<Rightarrow> v | None \<Rightarrow> 0)"

record log_entry =
  lg_url :: bytes
  lg_bytes :: int
  lg_referer :: "bytes option"

text \<open>
  The three parts of the parser: from the end of the request, from its opening quote, from the start
  of the line. \<open>None\<close> is the result 0, with nothing left in \<open>*url\<close>.
\<close>

definition parse_sent :: "bytes \<Rightarrow> bytes \<Rightarrow> log_entry option" where
  "parse_sent url p =
     (let p = skip_spaces (skip_chars (skip_spaces p));
          bytes_str = take (BYTES_LEN - 1) (takeWhile (\<lambda>c. \<not> isspace c) p);
          bytes = atoll bytes_str;
          p = skip_spaces (skip_chars p) in
      if \<not> starts c_quote p then Some \<lparr>lg_url = url, lg_bytes = bytes, lg_referer = None\<rparr>
      else
      let ref = takeWhile (\<lambda>c. c \<noteq> c_quote) (tl p);
          p = dropWhile (\<lambda>c. c \<noteq> c_quote) (tl p) in
      if \<not> starts c_quote p then None
      else Some \<lparr>lg_url = url, lg_bytes = bytes,
             lg_referer = (if ref \<noteq> [] \<and> \<not> list_all (\<lambda>c. c = c_minus) ref then Some ref else None)\<rparr>)"

definition parse_request :: "bytes \<Rightarrow> log_entry option" where
  "parse_request p =
     (if \<not> starts c_quote p then None
      else
      let p = skip_spaces (skip_chars (tl p));
          url = takeWhile (\<lambda>c. \<not> isspace c \<and> c \<noteq> c_quote) p in
      if url = [] then None
      else
      let p = dropWhile (\<lambda>c. c \<noteq> c_quote) (drop (length url) p) in
      if \<not> starts c_quote p then None
      else parse_sent url (tl p))"

definition parse_log_line :: "bytes \<Rightarrow> log_entry option" where
  "parse_log_line line =
     (let p = skip_spaces (skip_chars line);
          p = skip_spaces (skip_chars p);
          p = skip_spaces (skip_chars p) in
      if \<not> starts c_lbracket p then None
      else
      let p = dropWhile (\<lambda>c. c \<noteq> c_rbracket) p in
      if p = [] then None
      else parse_request (skip_spaces (tl p)))"

subsection \<open>A file\<close>

text \<open>\<open>getline\<close>: the lines with their newlines; the last one may have none.\<close>

function getlines :: "bytes \<Rightarrow> bytes list" where
  "getlines content =
     (if content = [] then []
      else case memchr c_nl content of
        None \<Rightarrow> [content]
      | Some i \<Rightarrow> take (Suc i) content # getlines (drop (Suc i) content))"
  by pat_completeness auto
termination by (relation "measure length") auto

declare getlines.simps [simp del]

record ThreadData =
  td_url_table :: UrlHashTable
  td_referer_table :: RefererHashTable
  td_total_bytes :: u64

definition line_entry :: "bytes \<Rightarrow> log_entry option" where
  "line_entry raw =
     (let line = (if 0 < length raw \<and> last raw = c_nl then butlast raw else raw)
      in if length raw \<le> 1 then None else parse_log_line (cstr line))"

definition add_entry :: "log_entry \<Rightarrow> ThreadData \<Rightarrow> ThreadData" where
  "add_entry e data =
     (let data = data\<lparr>td_total_bytes := td_total_bytes data + word_of_int (lg_bytes e)\<rparr>;
          data = (if lg_url e \<noteq> []
                  then data\<lparr>td_url_table := update_url_table (lg_url e) (word_of_int (lg_bytes e)) (td_url_table data)\<rparr>
                  else data)
      in case lg_referer e of
           Some referer \<Rightarrow>
             if referer \<noteq> []
             then data\<lparr>td_referer_table := update_referer_table referer (td_referer_table data)\<rparr>
             else data
         | None \<Rightarrow> data)"

text \<open>The content of the file, or that it cannot be opened. Lines that do not parse are only reported.\<close>

definition process_file :: "bytes option \<Rightarrow> ThreadData \<Rightarrow> ThreadData" where
  "process_file file data =
     (case file of
        None \<Rightarrow> data
      | Some content \<Rightarrow>
          fold (\<lambda>raw data. case line_entry raw of Some e \<Rightarrow> add_entry e data | None \<Rightarrow> data) (getlines content) data)"

definition thread_start :: ThreadData where
  "thread_start = \<lparr>td_url_table = create_table HASH_TABLE_SIZE,
     td_referer_table = create_table HASH_TABLE_SIZE, td_total_bytes = 0\<rparr>"

subsection \<open>Well-formed lines\<close>

definition field :: "bytes \<Rightarrow> bool" where
  "field s \<longleftrightarrow> s \<noteq> [] \<and> (\<forall>c\<in>set s. \<not> isspace c)"

lemma isspace_ascii [byte_simps]:
  "isspace c_space" "\<not> isspace c_lbracket" "\<not> isspace c_rbracket" "\<not> isspace c_quote" "\<not> isspace c_minus"
  by (simp_all add: isspace_def)

lemma skip_field: "field s \<Longrightarrow> skip_chars (s @ c_space # rest) = c_space # rest"
  unfolding skip_chars_def field_def by (intro takeWhile_append_stop) (auto simp: byte_simps)

lemma skip_space: "skip_spaces (c_space # rest) = skip_spaces rest"
  by (simp add: skip_spaces_def byte_simps)

lemma skip_to_field: "field s \<Longrightarrow> skip_spaces (s @ rest) = s @ rest"
  by (cases s) (simp_all add: skip_spaces_def field_def)

lemma skip_to_char: "\<not> isspace c \<Longrightarrow> skip_spaces (c # rest) = c # rest"
  by (simp add: skip_spaces_def)

lemmas skips = skip_field skip_space skip_to_field skip_to_char

lemma field_show_int: "field (show_int i)"
proof -
  have d: "\<forall>c\<in>set (show_dec n). \<not> isspace c" for n
    using isdigit_show_dec isdigit_not_isspace by blast
  then show ?thesis using show_dec_nonempty by (auto simp: field_def show_int_def byte_simps)
qed

lemma atoll_show_int:
  assumes "- (2 ^ 63) \<le> i" and "i < 2 ^ 63"
  shows "atoll (show_int i) = i"
  using strtol_show_int [of i c_nul "[]"] assms by (simp add: atoll_def LONG_MIN_def LONG_MAX_def isdigit_def)

lemma show_int_short:
  assumes "- (2 ^ 63) \<le> i" and "i < 2 ^ 63"
  shows "length (show_int i) < BYTES_LEN"
proof -
  have "length (show_dec n) \<le> 19" if "n \<le> 2 ^ 63" for n
    using that length_show_base [of 10 n 19] by (simp add: show_dec_def)
  from this [of "nat i"] this [of "nat (- i)"] assms
  have "length (show_int i) \<le> 20" by (cases "i < 0") (simp_all add: show_int_def nat_le_iff)
  then show ?thesis by (simp add: BYTES_LEN_def)
qed

text \<open>A line of the combined log format.\<close>

definition log_line ::
    "bytes \<Rightarrow> bytes \<Rightarrow> bytes \<Rightarrow> bytes \<Rightarrow> bytes \<Rightarrow> bytes \<Rightarrow> bytes \<Rightarrow> bytes \<Rightarrow> int \<Rightarrow> bytes \<Rightarrow> bytes \<Rightarrow> bytes" where
  "log_line ip ident user time verb url proto status size_sent ref rest =
     ip @ c_space # ident @ c_space # user @ c_space # c_lbracket # time @ c_rbracket # c_space
     # c_quote # verb @ c_space # url @ c_space # proto @ c_quote # c_space # status @ c_space
     # show_int size_sent @ c_space # c_quote # ref @ c_quote # rest"

text \<open>The parts of the line up to its end, from the back to the front.\<close>

definition log_line_ok :: "bytes \<Rightarrow> bytes \<Rightarrow> bytes \<Rightarrow> bytes \<Rightarrow> bytes \<Rightarrow> bytes \<Rightarrow> bytes \<Rightarrow> bytes \<Rightarrow> int \<Rightarrow> bytes \<Rightarrow> bool" where
  "log_line_ok ip ident user time verb url proto status size_sent ref \<longleftrightarrow>
     field ip \<and> field ident \<and> field user \<and> c_rbracket \<notin> set time \<and> field verb \<and> field url \<and> c_quote \<notin> set url
     \<and> c_quote \<notin> set proto \<and> field status \<and> - (2 ^ 63) \<le> size_sent \<and> size_sent < 2 ^ 63 \<and> c_quote \<notin> set ref"

lemma until_char: "c \<notin> set xs \<Longrightarrow> dropWhile (\<lambda>x. x \<noteq> c) (xs @ c # ys) = c # ys"
    "c \<notin> set xs \<Longrightarrow> takeWhile (\<lambda>x. x \<noteq> c) (xs @ c # ys) = xs"
  by (rule takeWhile_append_stop; auto)+

lemma take_field: "field s \<Longrightarrow> takeWhile (\<lambda>c. \<not> isspace c) (s @ c_space # rest) = s"
  unfolding field_def by (intro takeWhile_append_stop) (auto simp: byte_simps)

lemma take_url: "field url \<Longrightarrow> c_quote \<notin> set url \<Longrightarrow>
  takeWhile (\<lambda>c. \<not> isspace c \<and> c \<noteq> c_quote) (url @ c_space # rest) = url"
  unfolding field_def by (intro takeWhile_append_stop) (auto simp: byte_simps)

text \<open>
  C37: a line of the combined log format is read back as its url, its number of bytes sent and its
  referer; a referer of dashes only counts as none.
\<close>

theorem parse_log_line_fields:
  assumes ok: "log_line_ok ip ident user time verb url proto status size_sent ref"
  shows "parse_log_line (log_line ip ident user time verb url proto status size_sent ref rest)
    = Some \<lparr>lg_url = url, lg_bytes = size_sent,
        lg_referer = (if ref \<noteq> [] \<and> \<not> list_all (\<lambda>c. c = c_minus) ref then Some ref else None)\<rparr>"
proof -
  let ?entry = "Some \<lparr>lg_url = url, lg_bytes = size_sent,
    lg_referer = (if ref \<noteq> [] \<and> \<not> list_all (\<lambda>c. c = c_minus) ref then Some ref else None)\<rparr>"
  let ?tail = "c_quote # ref @ c_quote # rest"
  let ?sent = "show_int size_sent @ c_space # ?tail"
  let ?after = "c_space # status @ c_space # ?sent"
  let ?req = "c_quote # verb @ c_space # url @ c_space # proto @ c_quote # ?after"
  note f = ok [unfolded log_line_ok_def]
  have p: "skip_spaces (skip_chars (skip_spaces ?after)) = ?sent"
    using f field_show_int by (simp add: skips)
  have number: "atoll (take (BYTES_LEN - 1) (takeWhile (\<lambda>c. \<not> isspace c) ?sent)) = size_sent"
    using f show_int_short [of size_sent] by (simp add: take_field field_show_int atoll_show_int)
  have tail: "skip_spaces (skip_chars ?sent) = ?tail"
    using field_show_int by (simp add: skips byte_simps)
  have sent: "parse_sent url ?after = ?entry"
    unfolding parse_sent_def p Let_def number tail using f by (simp add: starts_def until_char)
  have verb: "skip_spaces (skip_chars (verb @ c_space # url @ c_space # proto @ c_quote # ?after))
      = url @ c_space # proto @ c_quote # ?after"
    using f by (simp add: skips)
  have quote: "dropWhile (\<lambda>c. c \<noteq> c_quote) (proto @ c_quote # ?after) = c_quote # ?after"
    using f by (simp add: until_char)
  have url: "takeWhile (\<lambda>c. \<not> isspace c \<and> c \<noteq> c_quote) (url @ c_space # proto @ c_quote # ?after) = url"
    using f take_url by blast
  have "url \<noteq> []" using f by (simp add: field_def)
  then have request: "parse_request ?req = ?entry"
    unfolding parse_request_def Let_def list.sel verb url by (simp add: starts_def quote sent del: dropWhile_append)
  have user: "skip_spaces (skip_chars (skip_spaces (skip_chars (skip_spaces (skip_chars
      (log_line ip ident user time verb url proto status size_sent ref rest))))))
      = c_lbracket # time @ c_rbracket # c_space # ?req"
    using f by (simp add: log_line_def skips byte_simps)
  have bracket: "dropWhile (\<lambda>c. c \<noteq> c_rbracket) (c_lbracket # time @ c_rbracket # c_space # ?req)
      = c_rbracket # c_space # ?req"
    using f until_char(1) [of c_rbracket time] by simp
  have "skip_spaces (c_space # ?req) = ?req" by (simp add: skips byte_simps)
  then show ?thesis
    unfolding parse_log_line_def Let_def user bracket by (simp add: starts_def request)
qed

lemma parse_log_line_fields_witness:
  "parse_log_line (log_line (str ''18.217.223.118'') (str ''-'') (str ''admin'') (str ''19/Jul/2020:07:14:55 +0000'')
     (str ''GET'') (str ''/'') (str ''HTTP/1.1'') (str ''301'') 178 (str ''http://a'') (str '' x''))
   = Some \<lparr>lg_url = str ''/'', lg_bytes = 178, lg_referer = Some (str ''http://a'')\<rparr>"
  by (subst parse_log_line_fields)
    (simp_all add: log_line_ok_def field_def isspace_def byte_simps)

text \<open>
  A request line without a space shifts the fields: what follows its quote is taken for the url.
\<close>

lemma parse_dash_request:
  "parse_log_line (str ''1.2.3.4 - - [t] '' @ c_quote # str ''-'' @ c_quote # str '' 400 0 '' @ c_quote # str ''-'' @ [c_quote])
   = Some \<lparr>lg_url = str ''400'', lg_bytes = 0, lg_referer = None\<rparr>"
  by (simp add: parse_log_line_def parse_request_def parse_sent_def byte_simps skip_spaces_def skip_chars_def isspace_def starts_def Let_def
    atoll_def strtol_def isdigit_def BYTES_LEN_def)

end
