(* ===== verification/LogThreads.thy ===== *)
theory LogThreads
  imports LogParser
begin

text \<open>
  HW_10-Log-Parser: the threads that share the list of files, the merge of what they gathered, and
  the report. What a mutex protects is one step; the steps of the threads interleave freely.
\<close>

subsection \<open>The files of the directory\<close>

definition PATH_LENGTH :: nat where "PATH_LENGTH = 1024"
definition TOP_N :: nat where "TOP_N = 10"

text \<open>
  The names in the directory, when it opens; \<open>regular\<close> says for which paths \<open>stat\<close> finds a regular
  file. The result, and what \<open>*files_ptr\<close> points to (\<open>None\<close> for the null pointer it starts with).
\<close>

definition find_files :: "bytes \<Rightarrow> bytes list option \<Rightarrow> (bytes \<Rightarrow> bool) \<Rightarrow> int \<times> bytes list option" where
  "find_files log_dir dir regular =
     (case dir of
        None \<Rightarrow> (1, None)
      | Some names \<Rightarrow>
          let names = filter (\<lambda>name. name \<noteq> str ''.'' \<and> name \<noteq> str ''..'') names;
              paths = map (\<lambda>name. snprintf PATH_LENGTH (log_dir @ str ''/'' @ name)) names;
              files = filter regular paths
          in if files = [] then (0, None) else (int (length files), Some files))"

text \<open>The start of main: an exit code, or the number of files, the files and the number of threads.\<close>

definition log_prepare ::
    "bytes list \<Rightarrow> (bytes \<Rightarrow> bytes list option) \<Rightarrow> (bytes \<Rightarrow> bool) \<Rightarrow> int + int \<times> bytes list option \<times> nat" where
  "log_prepare argv dir regular =
     (if length argv \<noteq> 3 then Inl 1
      else
        let num_threads = sint (word_of_int (atoll (argv ! 2)) :: u32) in
        if num_threads \<le> 0 then Inl 1
        else
          case find_files (argv ! 1) (dir (argv ! 1)) regular of
            (file_count, files) \<Rightarrow>
              if 0 < file_count then Inr (file_count, files, nat num_threads) else Inl 1)"

text \<open>\<open>data->files[file_index]\<close>\<close>

definition file_at :: "bytes list option \<Rightarrow> nat \<Rightarrow> ub + bytes" where
  "file_at files i = (case files of None \<Rightarrow> Inl Ub_NullDeref | Some paths \<Rightarrow> Inr (paths ! i))"

subsection \<open>The threads\<close>

text \<open>Where a thread is: before it runs, asking for a file, in a file, about to merge, gone.\<close>

datatype phase =
  Created
| Asking ThreadData
| Parsing nat ThreadData
| Leaving ThreadData
| Exited

record log_state =
  ls_next_file :: nat
  ls_phase :: "nat \<Rightarrow> phase"
  ls_total_bytes :: u64
  ls_url_table :: UrlHashTable
  ls_referer_table :: RefererHashTable

definition set_phase :: "nat \<Rightarrow> phase \<Rightarrow> log_state \<Rightarrow> log_state" where
  "set_phase t ph st = st\<lparr>ls_phase := (ls_phase st)(t := ph)\<rparr>"

definition merge_thread :: "ThreadData \<Rightarrow> log_state \<Rightarrow> log_state" where
  "merge_thread data st =
     st\<lparr>ls_total_bytes := ls_total_bytes st + td_total_bytes data,
        ls_url_table := merge_url_tables (td_url_table data) (ls_url_table st),
        ls_referer_table := merge_referer_tables (td_referer_table data) (ls_referer_table st)\<rparr>"

definition log_start :: log_state where
  "log_start = \<lparr>ls_next_file = 0, ls_phase = (\<lambda>_. Created), ls_total_bytes = 0,
     ls_url_table = create_table (HASH_TABLE_SIZE * 2), ls_referer_table = create_table (HASH_TABLE_SIZE * 2)\<rparr>"

text \<open>\<open>read\<close> gives the content of a file by its path, if it opens.\<close>

inductive log_step :: "(bytes \<Rightarrow> bytes option) \<Rightarrow> bytes list \<Rightarrow> nat \<Rightarrow> log_state \<Rightarrow> log_state \<Rightarrow> bool"
  for read files threads
where
  start_thread: "t < threads \<Longrightarrow> ls_phase st t = Created \<Longrightarrow>
    log_step read files threads st (set_phase t (Asking thread_start) st)"
| take_file: "t < threads \<Longrightarrow> ls_phase st t = Asking data \<Longrightarrow> ls_next_file st < length files \<Longrightarrow>
    log_step read files threads st
      (set_phase t (Parsing (ls_next_file st) data) (st\<lparr>ls_next_file := ls_next_file st + 1\<rparr>))"
| no_file: "t < threads \<Longrightarrow> ls_phase st t = Asking data \<Longrightarrow> \<not> ls_next_file st < length files \<Longrightarrow>
    log_step read files threads st (set_phase t (Leaving data) st)"
| parse_file: "t < threads \<Longrightarrow> ls_phase st t = Parsing i data \<Longrightarrow>
    log_step read files threads st (set_phase t (Asking (process_file (read (files ! i)) data)) st)"
| leave: "t < threads \<Longrightarrow> ls_phase st t = Leaving data \<Longrightarrow>
    log_step read files threads st (set_phase t Exited (merge_thread data st))"

inductive_cases log_step_elim: "log_step read files threads st st'"

definition all_exited :: "nat \<Rightarrow> log_state \<Rightarrow> bool" where
  "all_exited threads st \<longleftrightarrow> (\<forall>t<threads. ls_phase st t = Exited)"

subsection \<open>The report\<close>

definition top_urls :: "UrlHashTable \<Rightarrow> (bytes \<times> int) list" where
  "top_urls table = map (\<lambda>n. (un_url n, sint (un_total n))) (take TOP_N (qsort compare_urls (table_to_array table)))"

definition top_referers :: "RefererHashTable \<Rightarrow> (bytes \<times> int) list" where
  "top_referers table =
     map (\<lambda>n. (rn_referer n, sint (rn_count n))) (take TOP_N (qsort compare_referers (table_to_array table)))"

definition numbered :: "bytes \<Rightarrow> (bytes \<times> int) list \<Rightarrow> bytes" where
  "numbered unit_name listed =
     concat (map (\<lambda>i. case listed ! i of (key, v) \<Rightarrow>
       show_dec (i + 1) @ str ''. '' @ key @ str '' - '' @ show_int v @ unit_name @ [c_nl]) [0..<length listed])"

text \<open>What main prints, without the times.\<close>

definition log_report :: "log_state \<Rightarrow> bytes" where
  "log_report st =
     [c_nl] @ str ''=== LOG ANALYSIS RESULTS ==='' @ [c_nl, c_nl]
     @ str ''Total bytes served: '' @ show_int (sint (ls_total_bytes st)) @ [c_nl, c_nl]
     @ str ''Top 10 URLs by traffic:'' @ [c_nl] @ str ''-------------------------'' @ [c_nl]
     @ numbered (str '' bytes'') (top_urls (ls_url_table st))
     @ (if table_to_array (ls_url_table st) = [] then str ''(no URLs found)'' @ [c_nl] else []) @ [c_nl]
     @ str ''Top 10 Referers by frequency:'' @ [c_nl] @ str ''-----------------------------'' @ [c_nl]
     @ numbered (str '' requests'') (top_referers (ls_referer_table st))
     @ (if table_to_array (ls_referer_table st) = [] then str ''(no referers found)'' @ [c_nl] else [])"

subsection \<open>What a set of tables holds\<close>

definition entry_url :: "log_entry \<Rightarrow> bytes \<times> u64" where
  "entry_url e = (lg_url e, word_of_int (lg_bytes e))"

definition referers_of :: "log_entry multiset \<Rightarrow> bytes multiset" where
  "referers_of E = image_mset (\<lambda>e. the (lg_referer e)) (filter_mset (\<lambda>e. lg_referer e \<noteq> None) E)"

definition holds :: "u64 \<Rightarrow> UrlHashTable \<Rightarrow> RefererHashTable \<Rightarrow> log_entry multiset \<Rightarrow> bool" where
  "holds served urls referers E \<longleftrightarrow>
     served = (\<Sum>e\<in>#E. word_of_int (lg_bytes e)) \<and>
     url.represents urls (image_mset entry_url E) \<and> referer.represents referers (referers_of E)"

definition data_holds :: "ThreadData \<Rightarrow> log_entry multiset \<Rightarrow> bool" where
  "data_holds data E = holds (td_total_bytes data) (td_url_table data) (td_referer_table data) E"

lemma holds_create: "0 < n \<Longrightarrow> holds 0 (create_table n) (create_table n) {#}"
  by (simp add: holds_def referers_of_def url_represents_create referer_represents_create)

text \<open>The tests for empty strings repeat those of the updates.\<close>

lemma add_entry_eq:
  "add_entry e data = \<lparr>td_url_table = update_url_table (lg_url e) (word_of_int (lg_bytes e)) (td_url_table data),
     td_referer_table = (case lg_referer e of Some r \<Rightarrow> update_referer_table r | None \<Rightarrow> id) (td_referer_table data),
     td_total_bytes = td_total_bytes data + word_of_int (lg_bytes e)\<rparr>"
  by (cases data; cases "lg_referer e")
    (auto simp: add_entry_def Let_def update_url_table_def update_referer_table_def)

lemma add_entry_holds:
  assumes "data_holds data E"
  shows "data_holds (add_entry e data) (add_mset e E)"
proof -
  have "url.represents (update_url_table (lg_url e) (word_of_int (lg_bytes e)) (td_url_table data))
      (image_mset entry_url (add_mset e E))"
    using assms url.represents_upd [of "td_url_table data" "image_mset entry_url E" "entry_url e"]
    by (simp add: data_holds_def holds_def entry_url_def)
  moreover have "referer.represents (update_referer_table r (td_referer_table data)) (add_mset r (referers_of E))" for r
    using assms referer.represents_upd [of "td_referer_table data" "referers_of E" r]
    by (simp add: data_holds_def holds_def)
  ultimately show ?thesis
    using assms
    by (cases "lg_referer e")
      (simp_all add: add_entry_eq data_holds_def holds_def referers_of_def add.commute)
qed

definition file_entries :: "bytes option \<Rightarrow> log_entry list" where
  "file_entries file =
     (case file of None \<Rightarrow> [] | Some content \<Rightarrow> List.map_filter line_entry (getlines content))"

lemma process_file_holds:
  assumes "data_holds data E"
  shows "data_holds (process_file file data) (E + mset (file_entries file))"
proof (cases "file")
  case None
  with assms show ?thesis by (simp add: process_file_def file_entries_def)
next
  case (Some content)
  have "data_holds (fold (\<lambda>raw data. case line_entry raw of Some e \<Rightarrow> add_entry e data | None \<Rightarrow> data) raws data)
      (E + mset (List.map_filter line_entry raws))" for raws
    using assms
  proof (induction raws arbitrary: data E)
    case (Cons raw raws)
    show ?case
    proof (cases "line_entry raw")
      case None
      with Cons show ?thesis by (simp add: map_filter_simps)
    next
      case (Some e)
      with Cons.IH [OF add_entry_holds [OF Cons.prems]] show ?thesis by (simp add: map_filter_simps)
    qed
  qed (simp add: map_filter_simps)
  with Some show ?thesis by (simp add: process_file_def file_entries_def)
qed

lemma merge_holds:
  assumes "holds served urls referers G" and "data_holds data E" and "size E < 2 ^ 31"
  shows "holds (served + td_total_bytes data) (merge_url_tables (td_url_table data) urls)
    (merge_referer_tables (td_referer_table data) referers) (G + E)"
proof -
  have "size (referers_of E) \<le> size E" by (simp add: referers_of_def)
  with assms(3) have "size (referers_of E) < 2 ^ 31" by linarith
  moreover have "referers_of (G + E) = referers_of G + referers_of E" by (simp add: referers_of_def)
  ultimately show ?thesis
    using assms(1,2) merge_urls merge_referers by (simp add: holds_def data_holds_def)
qed

subsection \<open>No line is lost or counted twice\<close>

text \<open>
  The invariant: what the global tables hold, what each thread holds and what is in the file it is
  parsing make up exactly the files taken so far.
\<close>

abbreviation entries_of :: "(bytes \<Rightarrow> bytes option) \<Rightarrow> bytes list \<Rightarrow> nat \<Rightarrow> log_entry multiset" where
  "entries_of read files i \<equiv> mset (file_entries (read (files ! i)))"

primrec phase_holds :: "nat \<Rightarrow> phase \<Rightarrow> log_entry multiset \<Rightarrow> bool" where
  "phase_holds n Created E \<longleftrightarrow> E = {#}"
| "phase_holds n (Asking data) E \<longleftrightarrow> data_holds data E"
| "phase_holds n (Parsing i data) E \<longleftrightarrow> i < n \<and> data_holds data E"
| "phase_holds n (Leaving data) E \<longleftrightarrow> data_holds data E"
| "phase_holds n Exited E \<longleftrightarrow> E = {#}"

primrec pending :: "(bytes \<Rightarrow> bytes option) \<Rightarrow> bytes list \<Rightarrow> phase \<Rightarrow> log_entry multiset" where
  "pending read files Created = {#}"
| "pending read files (Asking data) = {#}"
| "pending read files (Parsing i data) = entries_of read files i"
| "pending read files (Leaving data) = {#}"
| "pending read files Exited = {#}"

primrec is_leaving :: "phase \<Rightarrow> bool" where
  "is_leaving Created = False"
| "is_leaving (Asking data) = False"
| "is_leaving (Parsing i data) = False"
| "is_leaving (Leaving data) = True"
| "is_leaving Exited = True"

definition globals_hold :: "log_state \<Rightarrow> log_entry multiset \<Rightarrow> bool" where
  "globals_hold st G = holds (ls_total_bytes st) (ls_url_table st) (ls_referer_table st) G"

definition accounted ::
    "(bytes \<Rightarrow> bytes option) \<Rightarrow> bytes list \<Rightarrow> nat \<Rightarrow> log_state \<Rightarrow> (nat \<Rightarrow> log_entry multiset) \<Rightarrow> log_entry multiset \<Rightarrow> bool" where
  "accounted read files threads st E G \<longleftrightarrow>
     (\<forall>t<threads. phase_holds (length files) (ls_phase st t) (E t)
        \<and> (is_leaving (ls_phase st t) \<longrightarrow> ls_next_file st = length files)) \<and>
     globals_hold st G \<and> ls_next_file st \<le> length files \<and>
     G + (\<Sum>t<threads. E t + pending read files (ls_phase st t)) = (\<Sum>i<ls_next_file st. entries_of read files i)"

lemma sum_change:
  fixes F :: "nat \<Rightarrow> 'a multiset"
  assumes "t < n"
  shows "(\<Sum>s<n. F s) = F t + (\<Sum>s\<in>{..<n} - {t}. F s)"
  using assms by (intro sum.remove) simp_all

text \<open>A thread moves to another phase with other entries; the rest of the sum stays.\<close>

lemma accounted_move:
  assumes acc: "accounted read files threads st E G" and t: "t < threads"
    and next': "ls_next_file st' = nxt" "nxt \<le> length files" "ls_next_file st \<le> nxt"
    and phase': "ls_phase st' = (ls_phase st)(t := ph)"
    and ph: "phase_holds (length files) ph E'" "is_leaving ph \<Longrightarrow> nxt = length files"
    and globals': "globals_hold st' G'"
    and balance: "G' + (E' + pending read files ph) + (\<Sum>i<ls_next_file st. entries_of read files i)
      = G + (E t + pending read files (ls_phase st t)) + (\<Sum>i<nxt. entries_of read files i)"
  shows "accounted read files threads st' (E(t := E')) G'"
proof -
  let ?F = "\<lambda>s. E s + pending read files (ls_phase st s)"
  let ?F' = "\<lambda>s. (E(t := E')) s + pending read files (ls_phase st' s)"
  have rest: "(\<Sum>s\<in>{..<threads} - {t}. ?F' s) = (\<Sum>s\<in>{..<threads} - {t}. ?F s)"
    by (rule sum.cong) (simp_all add: phase')
  let ?R = "\<Sum>s\<in>{..<threads} - {t}. ?F s"
  have sofar: "G + (?F t + ?R) = (\<Sum>i<ls_next_file st. entries_of read files i)"
    using acc sum_change [OF t, of ?F] by (simp only: accounted_def)
  have "(G' + (E' + pending read files ph + ?R)) + (G + ?F t) = G' + (E' + pending read files ph) + (G + (?F t + ?R))"
    by (simp only: ac_simps)
  also have "\<dots> = (\<Sum>i<nxt. entries_of read files i) + (G + ?F t)"
    unfolding sofar balance by (simp only: ac_simps)
  finally have "G' + (E' + pending read files ph + ?R) = (\<Sum>i<nxt. entries_of read files i)"
    by (rule add_right_imp_eq)
  then have "G' + (\<Sum>s<threads. ?F' s) = (\<Sum>i<nxt. entries_of read files i)"
    using rest sum_change [OF t, of ?F'] by (simp add: phase')
  then show ?thesis
    using acc ph next' globals' by (auto simp: accounted_def phase' fun_upd_def)
qed

lemma accounted_size:
  assumes "accounted read files threads st E G" and "t < threads"
  shows "size (E t) \<le> size (\<Sum>i<length files. entries_of read files i)"
proof -
  have mono: "(\<Sum>i<m. entries_of read files i) \<subseteq># (\<Sum>i<n. entries_of read files i)" if "m \<le> n" for m n
  proof -
    have e: "{..<n} = {..<m} \<union> {m..<n}" using that by auto
    have "(\<Sum>i<n. entries_of read files i) = (\<Sum>i<m. entries_of read files i) + (\<Sum>i=m..<n. entries_of read files i)"
      by (subst e) (rule sum.union_disjoint; auto)
    then show ?thesis by simp
  qed
  have "G + (\<Sum>s<threads. E s + pending read files (ls_phase st s)) = (\<Sum>i<ls_next_file st. entries_of read files i)"
    using assms(1) by (simp add: accounted_def)
  then have "E t + (G + pending read files (ls_phase st t)
      + (\<Sum>s\<in>{..<threads} - {t}. E s + pending read files (ls_phase st s)))
      = (\<Sum>i<ls_next_file st. entries_of read files i)"
    unfolding sum_change [OF assms(2)] by (simp only: ac_simps)
  then have "E t \<subseteq># (\<Sum>i<ls_next_file st. entries_of read files i)"
    by (rule subst) (rule mset_subset_eq_add_left)
  also have "\<dots> \<subseteq># (\<Sum>i<length files. entries_of read files i)"
    using assms(1) by (intro mono) (simp add: accounted_def)
  finally show ?thesis by (rule size_mset_mono)
qed

lemma set_phase_simps [simp]:
  "ls_phase (set_phase t ph st) = (ls_phase st)(t := ph)" "ls_next_file (set_phase t ph st) = ls_next_file st"
  "globals_hold (set_phase t ph st) G = globals_hold st G"
  "ls_phase (merge_thread data st) = ls_phase st" "ls_next_file (merge_thread data st) = ls_next_file st"
  "globals_hold (st\<lparr>ls_next_file := n\<rparr>) G = globals_hold st G"
  by (simp_all add: set_phase_def merge_thread_def globals_hold_def)

lemma thread_start_holds: "data_holds thread_start {#}"
  using holds_create [of HASH_TABLE_SIZE] by (simp add: data_holds_def thread_start_def HASH_TABLE_SIZE_def)

lemma accounted_start: "accounted read files threads log_start (\<lambda>_. {#}) {#}"
  using holds_create [of "HASH_TABLE_SIZE * 2"]
  by (simp add: accounted_def log_start_def globals_hold_def HASH_TABLE_SIZE_def)

lemma log_step_accounted:
  assumes "log_step read files threads st st'" and acc: "accounted read files threads st E G"
    and small: "size (\<Sum>i<length files. entries_of read files i) < 2 ^ 31"
  shows "\<exists>E' G'. accounted read files threads st' E' G'"
  using assms(1)
proof cases
  case (start_thread t)
  with acc have e: "E t = {#}" by (auto simp: accounted_def)
  have "accounted read files threads st' (E(t := {#})) G"
    by (rule accounted_move [OF acc start_thread(2), where nxt = "ls_next_file st" and ph = "Asking thread_start"])
      (use acc start_thread e in \<open>simp_all add: accounted_def thread_start_holds\<close>)
  then show ?thesis by blast
next
  case (take_file t data)
  with acc have d: "data_holds data (E t)" by (force simp: accounted_def)
  have "accounted read files threads st' (E(t := E t)) G"
    by (rule accounted_move [OF acc take_file(2), where nxt = "ls_next_file st + 1"
          and ph = "Parsing (ls_next_file st) data"])
      (use acc take_file d in \<open>simp_all add: accounted_def lessThan_Suc ac_simps\<close>)
  then show ?thesis by blast
next
  case (no_file t data)
  with acc have d: "data_holds data (E t)" by (force simp: accounted_def)
  have "accounted read files threads st' (E(t := E t)) G"
    by (rule accounted_move [OF acc no_file(2), where nxt = "ls_next_file st" and ph = "Leaving data"])
      (use acc no_file d in \<open>simp_all add: accounted_def\<close>)
  then show ?thesis by blast
next
  case (parse_file t i data)
  with acc have d: "data_holds data (E t)" by (force simp: accounted_def)
  have "accounted read files threads st' (E(t := E t + entries_of read files i)) G"
    by (rule accounted_move [OF acc parse_file(2), where nxt = "ls_next_file st"
          and ph = "Asking (process_file (read (files ! i)) data)"])
      (use acc parse_file process_file_holds [OF d] in \<open>simp_all add: accounted_def\<close>)
  then show ?thesis by blast
next
  case (leave t data)
  with acc have d: "data_holds data (E t)" and last: "ls_next_file st = length files"
    by (force simp: accounted_def)+
  have "size (E t) < 2 ^ 31" using accounted_size [OF acc leave(2)] small by linarith
  then have g: "globals_hold st' (G + E t)"
    using merge_holds [of "ls_total_bytes st" "ls_url_table st" "ls_referer_table st" G data "E t"] d acc
    by (simp add: leave(1) accounted_def) (simp add: globals_hold_def merge_thread_def)
  have "accounted read files threads st' (E(t := {#})) (G + E t)"
    by (rule accounted_move [OF acc leave(2), where nxt = "ls_next_file st" and ph = Exited])
      (use acc leave last g in \<open>simp_all add: accounted_def\<close>)
  then show ?thesis by blast
qed

lemma log_run_accounted:
  assumes "(log_step read files threads)\<^sup>*\<^sup>* log_start st"
    and "size (\<Sum>i<length files. entries_of read files i) < 2 ^ 31"
  shows "\<exists>E G. accounted read files threads st E G"
  using assms(1)
proof (induction rule: rtranclp_induct)
  case base
  show ?case using accounted_start by blast
next
  case (step st st')
  then show ?case using log_step_accounted assms(2) by blast
qed

subsection \<open>The result of a complete run\<close>

definition log_entries :: "(bytes \<Rightarrow> bytes option) \<Rightarrow> bytes list \<Rightarrow> log_entry list" where
  "log_entries read files = concat (map (\<lambda>path. file_entries (read path)) files)"

lemma sum_files: "(\<Sum>i<length files. entries_of read files i) = mset (log_entries read files)"
proof -
  have "(\<Sum>i<length files. entries_of read files i) = (\<Sum>path\<leftarrow>files. mset (file_entries (read path)))"
    by (simp add: sum_list_sum_nth atLeast0LessThan)
  also have "\<dots> = mset (log_entries read files)"
    by (induction files) (simp_all add: log_entries_def)
  finally show ?thesis .
qed

lemma final_tables:
  assumes run: "(log_step read files threads)\<^sup>*\<^sup>* log_start st" and exited: "all_exited threads st"
    and "0 < threads" and small: "length (log_entries read files) < 2 ^ 31"
  shows "globals_hold st (mset (log_entries read files))"
proof -
  from small have "size (\<Sum>i<length files. entries_of read files i) < 2 ^ 31"
    by (simp only: sum_files size_mset)
  from log_run_accounted [OF run this] obtain E G where acc: "accounted read files threads st E G" by blast
  from acc exited \<open>0 < threads\<close> have "ls_next_file st = length files"
    by (auto simp: accounted_def all_exited_def)
  moreover have "(\<Sum>t<threads. E t + pending read files (ls_phase st t)) = {#}"
    using acc exited by (intro sum.neutral) (auto simp: accounted_def all_exited_def)
  ultimately have "G = mset (log_entries read files)"
    using acc by (simp add: accounted_def sum_files)
  with acc show ?thesis by (simp add: accounted_def)
qed

text \<open>The url of a parsed line is never empty.\<close>

lemma parse_url_nonempty: "parse_log_line p = Some e \<Longrightarrow> lg_url e \<noteq> []"
proof -
  have sent: "parse_sent url p = Some e \<Longrightarrow> lg_url e = url" for url p
    by (auto simp: parse_sent_def Let_def split: if_splits)
  have request: "parse_request p = Some e \<Longrightarrow> lg_url e \<noteq> []" for p
    unfolding parse_request_def Let_def by (auto dest: sent split: if_splits)
  assume "parse_log_line p = Some e"
  then show ?thesis unfolding parse_log_line_def Let_def by (auto dest: request split: if_splits)
qed

lemma entries_url_nonempty: "e \<in> set (log_entries read files) \<Longrightarrow> lg_url e \<noteq> []"
proof -
  assume "e \<in> set (log_entries read files)"
  then obtain content raw where "line_entry raw = Some e"
    by (auto simp: log_entries_def file_entries_def map_filter_def split: option.splits)
  then show ?thesis by (auto simp: line_entry_def Let_def dest: parse_url_nonempty split: if_splits)
qed

text \<open>What a list of the largest amounts is.\<close>

definition is_top :: "nat \<Rightarrow> (bytes \<Rightarrow> int) \<Rightarrow> bytes set \<Rightarrow> (bytes \<times> int) list \<Rightarrow> bool" where
  "is_top n amount keys listed \<longleftrightarrow>
     distinct (map fst listed) \<and> fst ` set listed \<subseteq> keys \<and> length listed = min n (card keys) \<and>
     (\<forall>(k, v)\<in>set listed. v = amount k) \<and> sorted_wrt (\<lambda>x y. snd y \<le> snd x) listed \<and>
     (\<forall>k\<in>keys - fst ` set listed. \<forall>(k', v)\<in>set listed. amount k \<le> v)"

lemma qsort_is_top:
  fixes key :: "'n \<Rightarrow> bytes" and val :: "'n \<Rightarrow> int"
  assumes cmp: "\<And>x y. cmp x y \<le> 0 \<longleftrightarrow> val y \<le> val x" and distinct: "distinct (map key xs)"
    and val: "\<And>n. n \<in> set xs \<Longrightarrow> val n = amount (key n)"
  shows "is_top m amount (key ` set xs) (map (\<lambda>n. (key n, val n)) (take m (qsort cmp xs)))"
proof -
  let ?ys = "qsort cmp xs"
  have "card (set (map key ?ys)) = length (map key ?ys)"
    using distinct_card [OF distinct] by simp
  then have d: "distinct (map key ?ys)" by (rule card_distinct)
  then have dt: "distinct (map key (take m ?ys))" by (simp add: take_map [symmetric])
  have split: "set ?ys = set (take m ?ys) \<union> set (drop m ?ys)" by (simp flip: set_append)
  have sorted: "sorted_wrt (\<lambda>x y. val y \<le> val x) (take m ?ys @ drop m ?ys)"
    using sorted_qsort [where k = val, OF cmp, of xs] by simp
  have card: "card (key ` set xs) = length xs" using distinct_card [OF distinct] by simp
  have keys: "set (take m ?ys) \<subseteq> set xs" using set_take_subset [of m ?ys] by simp
  have below: "amount k \<le> val n'" if "k \<in> key ` set xs" "k \<notin> key ` set (take m ?ys)" "n' \<in> set (take m ?ys)" for k n'
  proof -
    from that(1) obtain n where n: "k = key n" "n \<in> set xs" by blast
    with that(2) split have "n \<in> set (drop m ?ys)" by auto
    then have "val n \<le> val n'" using sorted that(3) unfolding sorted_wrt_append by blast
    with n val show ?thesis by simp
  qed
  show ?thesis
    unfolding is_top_def
    using dt keys card sorted below val
    by (auto simp: o_def sorted_wrt_map sorted_wrt_append image_image min_def)
qed

text \<open>What the lines of all files say: bytes by url, requests by referer, bytes in all.\<close>

definition url_bytes :: "log_entry list \<Rightarrow> bytes \<Rightarrow> int" where
  "url_bytes es k = sint (\<Sum>e\<leftarrow>filter (\<lambda>e. lg_url e = k) es. word_of_int (lg_bytes e) :: u64)"

definition referer_requests :: "log_entry list \<Rightarrow> bytes \<Rightarrow> int" where
  "referer_requests es k = int (length (filter (\<lambda>e. lg_referer e = Some k) es))"

definition referer_set :: "log_entry list \<Rightarrow> bytes set" where
  "referer_set es = {r. Some r \<in> lg_referer ` set es \<and> counted_referer r}"

lemma top_urls_correct:
  assumes "url.represents table (image_mset entry_url (mset es))" and nonempty: "\<And>e. e \<in> set es \<Longrightarrow> lg_url e \<noteq> []"
  shows "is_top TOP_N (url_bytes es) (lg_url ` set es) (top_urls table)"
proof -
  let ?M = "image_mset entry_url (mset es)"
  from assms(1) have ok: "url_ok table" and tot: "url_total table k = url.tallied ?M k"
      and ks: "url_keys table = url.tallied_keys ?M" for k
    by (simp_all add: url.represents_def)
  have keys: "un_url ` set (table_to_array table) = lg_url ` set es"
    using ks nonempty by (auto simp: table_keys_def table_to_array_def url.tallied_keys_def entry_url_def image_iff)
  have amount: "sint (un_total n) = url_bytes es (un_url n)" if "n \<in> set (table_to_array table)" for n
  proof -
    have "un_url n \<noteq> []" using that keys nonempty by (metis imageE image_eqI)
    let ?F = "filter (\<lambda>e. lg_url e = un_url n) es"
    from \<open>un_url n \<noteq> []\<close> have "filter_mset (\<lambda>e. fst e = un_url n \<and> un_url n \<noteq> []) ?M = mset (map entry_url ?F)"
      by (induction es) (auto simp: entry_url_def)
    then have "url.tallied ?M (un_url n) = sum_mset (image_mset snd (mset (map entry_url ?F)))"
      by (simp only: url.tallied_def)
    also have "\<dots> = (\<Sum>e\<leftarrow>?F. word_of_int (lg_bytes e))"
      by (simp only: mset_map [symmetric] sum_mset_sum_list) (simp add: entry_url_def o_def)
    finally have "url.tallied ?M (un_url n) = (\<Sum>e\<leftarrow>?F. word_of_int (lg_bytes e))" .
    then show ?thesis
      using url_chains.node_total [OF ok, of n] that tot by (simp add: table_to_array_def url_bytes_def)
  qed
  have "distinct (map un_url (table_to_array table))"
    using url_chains.distinct_nodes [OF ok] by (simp add: table_to_array_def)
  from qsort_is_top [where key = un_url and val = "\<lambda>n. sint (un_total n)" and cmp = compare_urls, OF _ this amount]
  show ?thesis by (simp add: top_urls_def compare_urls_def keys)
qed

lemma top_referers_correct:
  assumes r: "referer.represents table (referers_of (mset es))" and small: "length es < 2 ^ 31"
  shows "is_top TOP_N (referer_requests es) (referer_set es) (top_referers table)"
proof -
  let ?M = "referers_of (mset es)"
  have ok: "referer_ok table" using r by (simp add: referer.represents_def)
  have keys: "rn_referer ` set (table_to_array table) = referer_set es"
  proof -
    have "rn_referer ` set (table_to_array table) = referer.tallied_keys ?M"
      using r by (simp add: referer.represents_def table_keys_def table_to_array_def)
    moreover have "set_mset ?M = {r. Some r \<in> lg_referer ` set es}"
      by (induction es) (auto simp: referers_of_def)
    ultimately show ?thesis by (auto simp: referer.tallied_keys_def referer_set_def)
  qed
  have size: "size ?M < 2 ^ 31"
    using small size_filter_mset_lesseq [of "\<lambda>e. lg_referer e \<noteq> None" "mset es"] by (simp add: referers_of_def)
  have count: "count (referers_of (mset es)) k = length (filter (\<lambda>e. lg_referer e = Some k) es)" for k
    by (induction es) (auto simp: referers_of_def)
  have amount: "sint (rn_count n) = referer_requests es (rn_referer n)" if "n \<in> set (table_to_array table)" for n
    using referer_count(1) [OF r size, of n] that by (simp add: table_to_array_def referer_requests_def count)
  have "distinct (map rn_referer (table_to_array table))"
    using referer_chains.distinct_nodes [OF ok] by (simp add: table_to_array_def)
  from qsort_is_top [where key = rn_referer and val = "\<lambda>n. sint (rn_count n)" and cmp = compare_referers, OF _ this amount]
  show ?thesis by (simp add: top_referers_def compare_referers_def keys)
qed


definition sample_log :: bytes where
  "sample_log = str ''a - - [t] '' @ c_quote # str ''G /x H'' @ c_quote # str '' 200 5 '' @ c_quote # str ''r''
     @ [c_quote, c_nl]"

lemma sample_entries:
  "log_entries (\<lambda>_. Some sample_log) [p] = [\<lparr>lg_url = str ''/x'', lg_bytes = 5, lg_referer = Some (str ''r'')\<rparr>]"
proof -
  have lines: "getlines sample_log = [sample_log]"
    by (simp add: getlines.simps memchr_def sample_log_def byte_simps)
  have "line_entry sample_log = Some \<lparr>lg_url = str ''/x'', lg_bytes = 5, lg_referer = Some (str ''r'')\<rparr>"
    by (simp add: line_entry_def sample_log_def parse_log_line_def parse_request_def parse_sent_def byte_simps
      skip_spaces_def skip_chars_def isspace_def starts_def Let_def atoll_def strtol_def isdigit_def BYTES_LEN_def
      cstr_def clamp_long_def LONG_MIN_def LONG_MAX_def digits_val_def digit_val_def)
  with lines show ?thesis by (simp add: log_entries_def file_entries_def map_filter_simps)
qed

lemma sample_run:
  "\<exists>st. (log_step (\<lambda>_. Some sample_log) [p] 1)\<^sup>*\<^sup>* log_start st \<and> all_exited 1 st"
proof -
  let ?read = "\<lambda>_. Some sample_log" and ?go = "log_step (\<lambda>_. Some sample_log) [p] 1"
  define s1 where "s1 = set_phase 0 (Asking thread_start) log_start"
  define s2 where "s2 = set_phase 0 (Parsing 0 thread_start) (s1\<lparr>ls_next_file := 1\<rparr>)"
  define d where "d = process_file (?read ([p] ! 0)) thread_start"
  define s3 where "s3 = set_phase 0 (Asking d) s2"
  define s4 where "s4 = set_phase 0 (Leaving d) s3"
  define s5 where "s5 = set_phase 0 Exited (merge_thread d s4)"
  have "?go log_start s1" unfolding s1_def by (rule start_thread) (simp_all add: log_start_def)
  moreover have "?go s1 s2"
    using take_file [of 0 1 s1 thread_start "[p]" ?read] by (simp add: s1_def s2_def log_start_def)
  moreover have "?go s2 s3" unfolding s3_def d_def by (rule parse_file) (simp_all add: s2_def)
  moreover have "?go s3 s4" unfolding s4_def by (rule no_file) (simp_all add: s3_def s2_def set_phase_def)
  moreover have "?go s4 s5" unfolding s5_def by (rule leave) (simp_all add: s4_def)
  ultimately have "?go\<^sup>*\<^sup>* log_start s5" by (meson converse_rtranclp_into_rtranclp rtranclp.rtrancl_refl)
  moreover have "all_exited 1 s5" by (simp add: all_exited_def s5_def)
  ultimately show ?thesis by blast
qed


text \<open>
  when the directory cannot be opened, main does not stop: it takes the result 1 for the number
  of files and starts the threads, and the first of them to ask for a file follows a null pointer.
\<close>

theorem unopened_directory_dereferenced:
  assumes "length argv = 3" and "0 < atoll (argv ! 2)" and "atoll (argv ! 2) < 2 ^ 31" and "dir (argv ! 1) = None"
  shows "\<exists>threads > 0. log_prepare argv dir regular = Inr (1, None, threads) \<and> file_at None 0 = Inl Ub_NullDeref"
proof -
  have "sint (word_of_int (atoll (argv ! 2)) :: u32) = atoll (argv ! 2)"
    using small_sint [of "nat (atoll (argv ! 2))"] assms(2,3) by (simp add: nat_less_iff of_nat_nat)
  with assms show ?thesis by (simp add: log_prepare_def find_files_def file_at_def)
qed

lemma unopened_directory_dereferenced_witness:
  "\<exists>threads. log_prepare [str ''parser'', str ''logs'', str ''4''] (\<lambda>_. None) (\<lambda>_. True) = Inr (1, None, threads)
     \<and> file_at None 0 = Inl Ub_NullDeref"
proof -
  have "atoll (str ''4'') = 4"
    by (simp add: atoll_def strtol_def byte_simps isspace_def isdigit_def Let_def clamp_long_def LONG_MIN_def
      LONG_MAX_def digits_val_def digit_val_def)
  then show ?thesis
    using unopened_directory_dereferenced [of "[str ''parser'', str ''logs'', str ''4'']" "\<lambda>_. None" "\<lambda>_. True"] by auto
qed

text \<open>The threads come to an end: every step lowers a measure, and only exited threads have none.\<close>

primrec phase_weight :: "phase \<Rightarrow> nat" where
  "phase_weight Created = 3"
| "phase_weight (Asking data) = 2"
| "phase_weight (Parsing i data) = 3"
| "phase_weight (Leaving data) = 1"
| "phase_weight Exited = 0"

definition log_measure :: "bytes list \<Rightarrow> nat \<Rightarrow> log_state \<Rightarrow> nat" where
  "log_measure files threads st =
     (\<Sum>t<threads. phase_weight (ls_phase st t)) + 2 * (length files - ls_next_file st)"

lemma weight_change:
  assumes "t < threads"
  shows "(\<Sum>s<threads. phase_weight (((ls_phase st)(t := ph)) s)) + phase_weight (ls_phase st t)
    = (\<Sum>s<threads. phase_weight (ls_phase st s)) + phase_weight ph"
proof -
  have "(\<Sum>s<threads. w s) = w t + (\<Sum>s\<in>{..<threads} - {t}. w s)" for w :: "nat \<Rightarrow> nat"
    using assms by (intro sum.remove) simp_all
  note split = this [of "\<lambda>s. phase_weight (ls_phase st s)"] this [of "\<lambda>s. phase_weight (((ls_phase st)(t := ph)) s)"]
  have "(\<Sum>s\<in>{..<threads} - {t}. phase_weight (((ls_phase st)(t := ph)) s))
      = (\<Sum>s\<in>{..<threads} - {t}. phase_weight (ls_phase st s))"
    by (rule sum.cong) simp_all
  then show ?thesis using split by (simp only: fun_upd_same)
qed

lemma log_step_decreases:
  assumes "log_step read files threads st st'"
  shows "log_measure files threads st' < log_measure files threads st"
  using assms
proof cases
  case (start_thread t)
  with weight_change [of t threads st "Asking thread_start"] show ?thesis by (simp add: log_measure_def)
next
  case (take_file t data)
  with weight_change [of t threads st "Parsing (ls_next_file st) data"] show ?thesis by (simp add: log_measure_def)
next
  case (no_file t data)
  with weight_change [of t threads st "Leaving data"] show ?thesis by (simp add: log_measure_def)
next
  case (parse_file t i data)
  with weight_change [of t threads st "Asking (process_file (read (files ! i)) data)"]
  show ?thesis by (simp add: log_measure_def)
next
  case (leave t data)
  with weight_change [of t threads st Exited] show ?thesis by (simp add: log_measure_def)
qed

lemma log_step_progress: "\<not> all_exited threads st \<Longrightarrow> \<exists>st'. log_step read files threads st st'"
proof -
  assume "\<not> all_exited threads st"
  then obtain t where t: "t < threads" "ls_phase st t \<noteq> Exited" by (auto simp: all_exited_def)
  then show ?thesis
    by (cases "ls_phase st t"; cases "ls_next_file st < length files") (blast intro: log_step.intros)+
qed

end
