(* ===== verification/WebServer.thy ===== *)
theory WebServer
  imports CStd
begin

text \<open>
  HW_12_WebServer: the request of a connection put together from what arrives, its parsing, the
  check of the path, the answers. Files, \<open>realpath\<close>, the clock and the answers of \<open>recv\<close> and
  \<open>sendfile\<close> are parameters. Paths and requests are strings without their terminating zero.
\<close>

subsection \<open>Requests\<close>

definition BUFFER_SIZE :: nat where "BUFFER_SIZE = 4096"
definition MAX_PATH_LEN :: nat where "MAX_PATH_LEN = 4096"
definition METHOD_LEN :: nat where "METHOD_LEN = 16"
definition PATH_LEN :: nat where "PATH_LEN = 1024"
definition PROTOCOL_LEN :: nat where "PROTOCOL_LEN = 16"
definition MAX_HTML_LEN :: nat where "MAX_HTML_LEN = 1024 * 1024"

record http_request_t =
  rq_method :: bytes
  rq_path :: bytes
  rq_protocol :: bytes

text \<open>\<open>%<n>s\<close>: spaces are skipped, then up to \<open>n\<close> other characters are stored.\<close>

definition scan_word :: "nat \<Rightarrow> bytes \<Rightarrow> (bytes \<times> bytes) option" where
  "scan_word n s =
     (let s = dropWhile isspace s;
          w = take n (takeWhile (\<lambda>c. \<not> isspace c) s)
      in if w = [] then None else Some (w, drop (length w) s))"

definition parse_http_request :: "bytes \<Rightarrow> http_request_t option" where
  "parse_http_request request =
     (case scan_word (METHOD_LEN - 1) request of
        None \<Rightarrow> None
      | Some (method, s) \<Rightarrow>
          (case scan_word (PATH_LEN - 1) s of
             None \<Rightarrow> None
           | Some (path, s) \<Rightarrow>
               (case scan_word (PROTOCOL_LEN - 1) s of
                  None \<Rightarrow> None
                | Some (protocol, _) \<Rightarrow>
                    Some \<lparr>rq_method = method, rq_path = path, rq_protocol = protocol\<rparr>)))"

text \<open>
  The request lies in uninitialised memory and \<open>strncpy\<close> copies one byte less than a field has: a
  path that fills its field is read on into the byte that was never stored. The comparisons with
  GET and / stop before that byte.
\<close>

definition path_text :: "http_request_t \<Rightarrow> ub + bytes" where
  "path_text req = (if length (rq_path req) < PATH_LEN - 1 then Inr (rq_path req) else Inl Ub_Uninit)"

subsection \<open>Paths\<close>

definition is_safe_path :: "(bytes \<Rightarrow> bytes option) \<Rightarrow> bytes \<Rightarrow> bytes \<Rightarrow> bool" where
  "is_safe_path realpath base_dir requested_path =
     (case realpath base_dir of
        None \<Rightarrow> False
      | Some real_base \<Rightarrow>
          (case realpath (snprintf (MAX_PATH_LEN * 2) (base_dir @ str ''/'' @ requested_path)) of
             None \<Rightarrow> False
           | Some real_requested \<Rightarrow> take (length real_base) real_requested = real_base))"

definition get_mime_type :: "bytes \<Rightarrow> bytes" where
  "get_mime_type filename =
     (case strrchr c_dot filename of
        None \<Rightarrow> str ''application/octet-stream''
      | Some ext \<Rightarrow>
          if ext = str ''.html'' \<or> ext = str ''.htm'' then str ''text/html''
          else if ext = str ''.css'' then str ''text/css''
          else if ext = str ''.js'' then str ''application/javascript''
          else if ext = str ''.jpg'' \<or> ext = str ''.jpeg'' then str ''image/jpeg''
          else if ext = str ''.png'' then str ''image/png''
          else if ext = str ''.gif'' then str ''image/gif''
          else if ext = str ''.txt'' \<or> ext = str ''.c'' \<or> ext = str ''.conf'' \<or> ext = str ''.h''
            then str ''text/plain''
          else if ext = str ''.json'' then str ''application/json''
          else if ext = str ''.pdf'' then str ''application/pdf''
          else str ''application/octet-stream'')"

subsection \<open>The list of a directory\<close>

record file_stat =
  st_is_dir :: bool
  st_size :: nat
  st_mtime :: bytes

definition size_formatted :: "file_stat \<Rightarrow> bytes" where
  "size_formatted st =
     (if st_is_dir st then str ''-''
      else snprintf 32
        (if st_size st < 1024 then show_dec (st_size st) @ str '' B''
         else if st_size st < 1024 * 1024 then show_tenths (st_size st) 1024 @ str '' KB''
         else show_tenths (st_size st) (1024 * 1024) @ str '' MB''))"

definition html_lines :: "bytes list \<Rightarrow> bytes" where
  "html_lines ls = concat (map (\<lambda>l. l @ [c_nl]) ls)"

definition list_header :: "bytes \<Rightarrow> bytes" where
  "list_header dir_path = html_lines
     [str ''<!DOCTYPE html>'',
      str ''<html>'',
      str ''<head>'',
      str ''    <title>Directory Listing</title>'',
      str ''    <style>'',
      str ''        body { font-family: Arial, sans-serif; margin: 40px; }'',
      str ''        h1 { color: #333; }'',
      str ''        table { border-collapse: collapse; width: 100%; }'',
      str ''        th, td { padding: 8px; text-align: left; border-bottom: 1px solid #ddd; }'',
      str ''        tr:hover { background-color: #f5f5f5; }'',
      str ''        a { text-decoration: none; color: #0066cc; }'',
      str ''        a:hover { text-decoration: underline; }'',
      str ''        .size { text-align: right; }'',
      str ''        .dir { font-weight: bold; }'',
      str ''    </style>'',
      str ''</head>'',
      str ''<body>'',
      str ''    <h1>Directory Listing: '' @ dir_path @ str ''</h1>'',
      str ''    <table>'',
      str ''        <tr>'',
      str ''            <th>Name</th>'',
      str ''            <th>Size</th>'',
      str ''            <th>Modified</th>'',
      str ''        </tr>'',
      str ''        <tr>'',
      str ''            <td><a href=\"../\">..</a></td>'',
      str ''            <td class=\"size\">-</td>'',
      str ''            <td>-</td>'',
      str ''        </tr>'']"

definition list_row :: "bytes \<Rightarrow> file_stat \<Rightarrow> bytes" where
  "list_row name st = html_lines
     [str ''        <tr>'',
      str ''            <td class=\"'' @ (if st_is_dir st then str ''dir'' else []) @ str ''\"><a href=\"''
        @ name @ (if st_is_dir st then str ''/'' else []) @ str ''\">'' @ name @ str ''</a></td>'',
      str ''            <td class=\"size\">'' @ size_formatted st @ str ''</td>'',
      str ''            <td>'' @ st_mtime st @ str ''</td>'',
      str ''        </tr>'']"

definition list_footer :: bytes where
  "list_footer = html_lines [str ''    </table>'', str ''</body>'', str ''</html>'']"

text \<open>The loop over the entries: what is written behind the header, until a row does not fit.\<close>

fun list_rows :: "(bytes \<Rightarrow> file_stat option) \<Rightarrow> bytes \<Rightarrow> bytes list \<Rightarrow> nat \<Rightarrow> bytes" where
  "list_rows stat dir_path [] remaining = []"
| "list_rows stat dir_path (name # names) remaining =
     (if name = str ''.'' \<or> name = str ''..'' then list_rows stat dir_path names remaining
      else case stat (snprintf MAX_PATH_LEN (dir_path @ str ''/'' @ name)) of
        None \<Rightarrow> list_rows stat dir_path names remaining
      | Some st \<Rightarrow>
          let row = list_row name st
          in if remaining \<le> length row then []
             else row @ list_rows stat dir_path names (remaining - length row))"

definition generate_file_list ::
    "(bytes \<Rightarrow> bytes list option) \<Rightarrow> (bytes \<Rightarrow> file_stat option) \<Rightarrow> bytes \<Rightarrow> nat \<Rightarrow> bytes option" where
  "generate_file_list readdir stat dir_path max_size =
     (case readdir dir_path of
        None \<Rightarrow> None
      | Some names \<Rightarrow>
          let header = list_header dir_path
          in if max_size \<le> length header then None
             else
               let rows = list_rows stat dir_path names (max_size - length header)
               in if max_size - length header - length rows \<le> length list_footer then None
                  else Some (header @ rows @ list_footer))"

text \<open>What is written fits, whatever the directory holds.\<close>

lemma list_rows_fit: "length (list_rows stat dir_path names remaining) \<le> remaining"
proof (induction names arbitrary: remaining)
  case (Cons name names)
  have "length row + length (list_rows stat dir_path names (remaining - length row)) \<le> remaining"
    if "length row < remaining" for row :: bytes
    using Cons [of "remaining - length row"] that by linarith
  then show ?case using Cons by (auto simp: Let_def not_le split: option.splits)
qed simp

lemma generate_file_list_fits:
  "generate_file_list readdir stat dir_path max_size = Some html \<Longrightarrow> length html < max_size"
  by (auto simp: generate_file_list_def Let_def split: option.splits if_splits)

subsection \<open>Answers\<close>

text \<open>The calls of \<open>send\<close>: a header that always fits its buffer, and the body when there is one.\<close>

definition line :: "bytes \<Rightarrow> bytes" where
  "line s = s @ [c_cr, c_nl]"

definition send_http_response :: "bytes \<Rightarrow> nat \<Rightarrow> bytes \<Rightarrow> bytes option \<Rightarrow> bytes option \<Rightarrow> bytes list" where
  "send_http_response date status_code status_text content_type body =
     (let body_len = (case body of Some b \<Rightarrow> length b | None \<Rightarrow> 0);
          header = line (str ''HTTP/1.1 '' @ show_dec status_code @ str '' '' @ status_text)
            @ line (str ''Date: '' @ date)
            @ line (str ''Server: Simple HTTP Server'')
            @ line (str ''Connection: close'')
            @ line (str ''Content-Length: '' @ show_dec body_len)
            @ (case content_type of Some t \<Rightarrow> line (str ''Content-Type: '' @ t) | None \<Rightarrow> [])
            @ line []
      in header # (case body of Some b \<Rightarrow> if b \<noteq> [] then [b] else [] | None \<Rightarrow> []))"

text \<open>An error is reported with its text, code and all, as the status and as the body.\<close>

definition send_error :: "bytes \<Rightarrow> nat \<Rightarrow> bytes \<Rightarrow> bytes list" where
  "send_error date code message = send_http_response date code message (Some (str ''text/html'')) (Some message)"

definition file_header :: "bytes \<Rightarrow> bytes \<Rightarrow> nat \<Rightarrow> bytes" where
  "file_header date mime_type size_sent =
     line (str ''HTTP/1.1 200 OK'')
     @ line (str ''Date: '' @ date)
     @ line (str ''Server: Simple HTTP Server'')
     @ line (str ''Content-Type: '' @ mime_type)
     @ line (str ''Content-Length: '' @ show_dec size_sent)
     @ line (str ''Connection: close'')
     @ line []"

text \<open>
  What \<open>sendfile\<close> answers, and the loop over it: the offset it ends with, or \<open>None\<close> when the
  answers are used up before it ends.
\<close>

datatype sendfile_answer = Sent nat | Would_block | Failed

fun sendfile_loop :: "sendfile_answer list \<Rightarrow> nat \<Rightarrow> nat \<Rightarrow> nat option" where
  "sendfile_loop answers offset file_size =
     (if file_size \<le> offset then Some offset
      else case answers of
        [] \<Rightarrow> None
      | Sent n # answers \<Rightarrow> sendfile_loop answers (offset + n) file_size
      | Would_block # answers \<Rightarrow> sendfile_loop answers offset file_size
      | Failed # answers \<Rightarrow> Some offset)"

declare sendfile_loop.simps [simp del]

record web_env =
  we_realpath :: "bytes \<Rightarrow> bytes option"
  we_stat :: "bytes \<Rightarrow> file_stat option"
  we_readable :: "bytes \<Rightarrow> bool"
  we_readdir :: "bytes \<Rightarrow> bytes list option"
  we_open :: "bytes \<Rightarrow> bytes option"
  we_date :: bytes
  we_memory :: bool
  we_sendfile :: "sendfile_answer list"

text \<open>
  The answer to a request: what is sent, piece by piece, or \<open>None\<close> when the loop over \<open>sendfile\<close>
  has not ended.
\<close>

definition handle_http_request :: "web_env \<Rightarrow> bytes \<Rightarrow> bytes \<Rightarrow> ub + bytes list option" where
  "handle_http_request env request base_dir =
     (case parse_http_request request of
        None \<Rightarrow> Inr (Some (send_error (we_date env) 400 (str ''400 Bad Request'')))
      | Some req \<Rightarrow>
          if rq_method req \<noteq> str ''GET''
          then Inr (Some (send_error (we_date env) 405 (str ''405 Method Not Allowed'')))
          else
            case path_text req of
              Inl u \<Rightarrow> Inl u
            | Inr path \<Rightarrow>
                let file_path = (if path = str ''/'' then snprintf (MAX_PATH_LEN * 2) base_dir
                                 else snprintf (MAX_PATH_LEN * 2) (base_dir @ path)) in
                if \<not> is_safe_path (we_realpath env) base_dir path
                then Inr (Some (send_error (we_date env) 403 (str ''403 Forbidden'')))
                else
                  case we_stat env file_path of
                    None \<Rightarrow> Inr (Some (send_error (we_date env) 404 (str ''404 Not Found'')))
                  | Some st \<Rightarrow>
                      if \<not> we_readable env file_path
                      then Inr (Some (send_error (we_date env) 403 (str ''403 Forbidden'')))
                      else if st_is_dir st then
                        (if \<not> we_memory env
                         then Inr (Some (send_error (we_date env) 500 (str ''500 Internal Server Error'')))
                         else case generate_file_list (we_readdir env) (we_stat env) file_path MAX_HTML_LEN of
                             Some html \<Rightarrow>
                               Inr (Some (send_http_response (we_date env) 200 (str ''OK'') (Some (str ''text/html'')) (Some html)))
                           | None \<Rightarrow> Inr (Some (send_error (we_date env) 500 (str ''500 Internal Server Error''))))
                      else
                        case we_open env file_path of
                          None \<Rightarrow> Inr (Some (send_error (we_date env) 404 (str ''404 Not Found'')))
                        | Some content \<Rightarrow>
                            (case sendfile_loop (we_sendfile env) 0 (st_size st) of
                               None \<Rightarrow> Inr None
                             | Some offset \<Rightarrow>
                                 Inr (Some [file_header (we_date env) (get_mime_type file_path) (st_size st),
                                            take offset content])))"

subsection \<open>A connection\<close>

definition CRLF2 :: bytes where
  "CRLF2 = [c_cr, c_nl, c_cr, c_nl]"

text \<open>
  What the socket of a client yields: data (of which \<open>recv\<close> takes what fits), nothing for now, the
  end, an error, and the events that close the connection unread.
\<close>

datatype client_event = Data bytes | Again | Eof | Recv_error | Hangup

text \<open>
  A connection: still collecting, answered on a complete request, refused because its buffer is full,
  or closed without an answer.
\<close>

datatype connection = Collecting bytes | Request bytes | Refused | Closed

fun client_events :: "client_event list \<Rightarrow> bytes \<Rightarrow> connection" where
  "client_events [] buffer = Collecting buffer"
| "client_events (Data bs # events) buffer =
     (let room = BUFFER_SIZE - length buffer - 1;
          buffer = buffer @ take room bs in
      if bs = [] \<or> room = 0 then Closed
      else
        case (if 4 \<le> length buffer then strstr (cstr buffer) CRLF2 else None) of
          Some end_pos \<Rightarrow> Request (take (end_pos + 4) buffer)
        | None \<Rightarrow>
            if BUFFER_SIZE - 1 \<le> length buffer then Refused
            else client_events events buffer)"
| "client_events (Again # events) buffer = client_events events buffer"
| "client_events (Eof # events) buffer = Closed"
| "client_events (Recv_error # events) buffer = Closed"
| "client_events (Hangup # events) buffer = Closed"

definition serve_client :: "web_env \<Rightarrow> bytes \<Rightarrow> client_event list \<Rightarrow> ub + bytes list option" where
  "serve_client env base_dir events =
     (case client_events events [] of
        Collecting _ \<Rightarrow> Inr None
      | Request request \<Rightarrow> handle_http_request env request base_dir
      | Refused \<Rightarrow> Inr (Some (send_error (we_date env) 400 (str ''400 Bad Request'')))
      | Closed \<Rightarrow> Inr (Some []))"

subsection \<open>The arguments of main\<close>

definition atoi :: "bytes \<Rightarrow> int" where
  "atoi s = (case strtol (s @ [c_nul]) of Some (v, _) \<Rightarrow> sint (word_of_int v :: u32) | None \<Rightarrow> 0)"

definition host_port :: "bytes \<Rightarrow> bytes \<times> int" where
  "host_port arg =
     (let host_copy = take 255 arg in
      if c_colon \<in> set host_copy
      then (takeWhile (\<lambda>c. c \<noteq> c_colon) host_copy, atoi (tl (dropWhile (\<lambda>c. c \<noteq> c_colon) host_copy)))
      else (str ''0.0.0.0'', atoi host_copy))"

subsection \<open>However the data is split\<close>

text \<open>The answer to a text that does not depend on how it arrives.\<close>

definition answer_to :: "bytes \<Rightarrow> connection" where
  "answer_to chars =
     (case strstr (take (BUFFER_SIZE - 1) chars) CRLF2 of
        Some i \<Rightarrow> Request (take (i + 4) chars)
      | None \<Rightarrow> if BUFFER_SIZE - 1 \<le> length chars then Refused else Collecting chars)"

lemma take_prefix: "n \<le> length xs \<Longrightarrow> take n (xs @ ys) = take n xs"
  by simp

lemma collect_answer:
  assumes "c_nul \<notin> set (buffer @ concat chunks)" and "\<forall>bs\<in>set chunks. bs \<noteq> []"
    and "length buffer < BUFFER_SIZE - 1" and "strstr buffer CRLF2 = None"
  shows "client_events (map Data chunks) buffer = answer_to (buffer @ concat chunks)"
  using assms
proof (induction chunks arbitrary: buffer)
  case Nil
  then show ?case by (simp add: answer_to_def)
next
  case (Cons bs chunks)
  let ?room = "BUFFER_SIZE - length buffer - 1" and ?all = "buffer @ concat (bs # chunks)"
  let ?b = "buffer @ take ?room bs"
  have room: "0 < ?room" "?room = BUFFER_SIZE - 1 - length buffer" using Cons.prems(3) by simp_all
  have prefix: "take (BUFFER_SIZE - 1) ?all = ?b @ drop (length ?b) (take (BUFFER_SIZE - 1) ?all)"
    using Cons.prems(3) by (simp add: room(2))
  have whole: "?all = ?b @ (drop ?room bs @ concat chunks)" by simp
  have cstr: "cstr ?b = ?b"
    using Cons.prems(1) set_take_subset [of ?room bs] by (intro cstr_id) auto
  show ?case
  proof (cases "strstr ?b CRLF2")
    case (Some i)
    then have "4 \<le> length ?b" "i + 4 \<le> length ?b" using strstr_bound [OF Some] by (simp_all add: CRLF2_def)
    moreover have "strstr (take (BUFFER_SIZE - 1) ?all) CRLF2 = Some i"
      by (subst prefix) (rule strstr_append [OF Some])
    moreover have "take (i + 4) ?all = take (i + 4) ?b"
      unfolding whole by (rule take_prefix [OF calculation(2)])
    ultimately show ?thesis
      using Some Cons.prems(2) room(1) cstr by (simp add: answer_to_def Let_def)
  next
    case None
    show ?thesis
    proof (cases "BUFFER_SIZE - 1 \<le> length ?b")
      case True
      then have "?b = take (BUFFER_SIZE - 1) ?all" using Cons.prems(3) by (simp add: room(2)) 
      with None True show ?thesis
        using Cons.prems(2) room(1) cstr by (simp add: answer_to_def Let_def)
    next
      case False
      then have fit: "length buffer + length bs < BUFFER_SIZE - 1"
        using Cons.prems(3) by (simp add: min_def split: if_splits)
      then have "take ?room bs = bs" by simp
      with False None Cons.IH [of "buffer @ bs"] Cons.prems show ?thesis
        using room(1) cstr fit by (simp add: Let_def)
    qed
  qed
qed

text \<open>
  what a connection comes to does not depend on how the data is split over the reads: for a
  text without zero bytes it is the request up to the first empty line when that lies within 4095
  bytes, a refusal when there are that many bytes without one, and waiting otherwise.
\<close>

theorem request_any_split:
  assumes "c_nul \<notin> set (concat chunks)" and "\<forall>bs\<in>set chunks. bs \<noteq> []"
  shows "client_events (map Data chunks) [] = answer_to (concat chunks)"
proof -
  have "strstr [] CRLF2 = None" by (simp add: strstr.simps CRLF2_def)
  with collect_answer [of "[]" chunks] assms show ?thesis by (simp add: BUFFER_SIZE_def)
qed

lemma request_any_split_witness:
  "client_events [Data (str ''GET / H''), Data [c_cr, c_nl, c_cr], Data [c_nl, 7]] []
    = Request (str ''GET / H'' @ CRLF2)"
proof -
  have "answer_to (concat [str ''GET / H'', [c_cr, c_nl, c_cr], [c_nl, 7]]) = Request (str ''GET / H'' @ CRLF2)"
    by (simp add: answer_to_def BUFFER_SIZE_def CRLF2_def byte_simps strstr.simps)
  with request_any_split [of "[str ''GET / H'', [c_cr, c_nl, c_cr], [c_nl, 7]]"]
  show ?thesis by (simp add: byte_simps)
qed

subsection \<open>A file\<close>

definition progress :: "sendfile_answer list \<Rightarrow> nat" where
  "progress answers = sum_list (map (\<lambda>a. case a of Sent n \<Rightarrow> n | _ \<Rightarrow> 0) answers)"

text \<open>Without a failure the loop ends when all has been sent, and only then.\<close>

lemma sendfile_loop_complete:
  assumes "Failed \<notin> set answers" and "offset \<le> file_size" and "offset + progress answers = file_size"
  shows "sendfile_loop answers offset file_size = Some file_size"
  using assms
proof (induction answers arbitrary: offset)
  case Nil
  then show ?case by (simp add: sendfile_loop.simps progress_def)
next
  case (Cons a answers)
  show ?case
  proof (cases "file_size \<le> offset")
    case True
    then show ?thesis using Cons.prems(2) by (simp add: sendfile_loop.simps)
  next
    case False
    then show ?thesis
      using Cons by (cases a) (simp_all add: sendfile_loop.simps [of "_ # _"] progress_def)
  qed
qed

text \<open>A file that has become shorter answers 0 for ever, and the loop never ends.\<close>

lemma sendfile_zero_loops: "offset < file_size \<Longrightarrow> sendfile_loop (replicate n (Sent 0)) offset file_size = None"
  by (induction n) (simp_all add: sendfile_loop.simps)

subsection \<open>The check of the path\<close>

text \<open>The request of a path.\<close>

definition get_request :: "bytes \<Rightarrow> bytes" where
  "get_request path = str ''GET '' @ path @ str '' HTTP/1.1'' @ CRLF2"

lemma parse_get_request:
  assumes "path \<noteq> []" and "\<forall>c\<in>set path. \<not> isspace c" and "length path < PATH_LEN - 1"
  shows "parse_http_request (get_request path)
    = Some \<lparr>rq_method = str ''GET'', rq_path = path, rq_protocol = str ''HTTP/1.1''\<rparr>"
proof -
  have space: "isspace c_space" by (simp add: isspace_def)
  have path: "scan_word (PATH_LEN - 1) (c_space # path @ c_space # rest) = Some (path, c_space # rest)" for rest
  proof -
    have "dropWhile isspace (c_space # path @ c_space # rest) = path @ c_space # rest"
      using assms(1,2) space by (cases path) simp_all
    moreover have "takeWhile (\<lambda>c. \<not> isspace c) (path @ c_space # rest) = path"
      using assms(2) space by (intro takeWhile_append_stop) simp_all
    ultimately show ?thesis using assms(1,3) space by (simp add: scan_word_def)
  qed
  have "scan_word (METHOD_LEN - 1) (get_request path) = Some (str ''GET'', c_space # path @ c_space # str ''HTTP/1.1'' @ CRLF2)"
    by (simp add: scan_word_def METHOD_LEN_def get_request_def byte_simps isspace_def)
  moreover have "scan_word (PROTOCOL_LEN - 1) (c_space # str ''HTTP/1.1'' @ CRLF2) = Some (str ''HTTP/1.1'', CRLF2)"
    by (simp add: scan_word_def PROTOCOL_LEN_def CRLF2_def byte_simps isspace_def)
  ultimately show ?thesis
    using path [of "str ''HTTP/1.1'' @ CRLF2"] by (simp add: parse_http_request_def)
qed

text \<open>
  C39: the check compares the real path with that of the served directory as strings only: a file
  whose real path continues the name of the directory, as in a sibling with a longer name, is
  outside of it and yet sent to the client.
\<close>

theorem sibling_directory_served:
  assumes path: "path \<noteq> []" "\<forall>c\<in>set path. \<not> isspace c" "length path < PATH_LEN - 1" "path \<noteq> str ''/''"
    and base: "length base_dir + length path + 1 < MAX_PATH_LEN * 2" "we_realpath env base_dir = Some real_base"
    and outside: "we_realpath env (base_dir @ str ''/'' @ path) = Some (real_base @ suffix)"
      "suffix \<noteq> []" "hd suffix \<noteq> c_slash"
    and file_there: "we_stat env (base_dir @ path) = Some st" "\<not> st_is_dir st" "we_readable env (base_dir @ path)"
      "we_open env (base_dir @ path) = Some content" "st_size st = length content"
    and sent: "Failed \<notin> set (we_sendfile env)" "progress (we_sendfile env) = length content"
  shows "handle_http_request env (get_request path) base_dir
    = Inr (Some [file_header (we_date env) (get_mime_type (base_dir @ path)) (length content), content])"
proof -
  have f: "snprintf (MAX_PATH_LEN * 2) (base_dir @ path) = base_dir @ path"
      "snprintf (MAX_PATH_LEN * 2) (base_dir @ str ''/'' @ path) = base_dir @ str ''/'' @ path"
    using base(1) by (simp_all add: snprintf_fits)
  have "is_safe_path (we_realpath env) base_dir path"
    using base outside by (simp add: is_safe_path_def f)
  moreover have "sendfile_loop (we_sendfile env) 0 (length content) = Some (length content)"
    using sent by (intro sendfile_loop_complete) simp_all
  ultimately show ?thesis
    using path file_there
    by (simp add: handle_http_request_def parse_get_request path_text_def f Let_def)
qed

definition sample_env :: web_env where
  "sample_env = \<lparr>we_realpath = (\<lambda>p. if p = str ''www'' then Some (str ''/srv/www'')
       else if p = str ''www//../www-old/key'' then Some (str ''/srv/www-old/key'') else None),
     we_stat = (\<lambda>p. if p = str ''www/../www-old/key'' then Some \<lparr>st_is_dir = False, st_size = 3, st_mtime = []\<rparr> else None),
     we_readable = (\<lambda>_. True), we_readdir = (\<lambda>_. None),
     we_open = (\<lambda>p. if p = str ''www/../www-old/key'' then Some (str ''abc'') else None),
     we_date = [], we_memory = True, we_sendfile = [Sent 2, Would_block, Sent 1]\<rparr>"

lemma sibling_directory_served_witness:
  "handle_http_request sample_env (get_request (str ''/../www-old/key'')) (str ''www'')
    = Inr (Some [file_header [] (str ''application/octet-stream'') 3, str ''abc''])"
proof -
  have "handle_http_request sample_env (get_request (str ''/../www-old/key'')) (str ''www'')
    = Inr (Some [file_header (we_date sample_env) (get_mime_type (str ''www'' @ str ''/../www-old/key'')) (length (str ''abc'')),
        str ''abc''])"
    by (rule sibling_directory_served [where real_base = "str ''/srv/www''" and suffix = "str ''-old/key''"
          and st = "\<lparr>st_is_dir = False, st_size = 3, st_mtime = []\<rparr>"])
      (simp_all add: sample_env_def byte_simps isspace_def PATH_LEN_def MAX_PATH_LEN_def progress_def)
  moreover have "get_mime_type (str ''www'' @ str ''/../www-old/key'') = str ''application/octet-stream''"
    by (simp add: get_mime_type_def byte_simps)
  moreover have "length (str ''abc'') = 3" "we_date sample_env = []" by (simp_all add: sample_env_def)
  ultimately show ?thesis by (simp only:)
qed

text \<open>A path with no file behind it has no real path: the answer is 403, never the 404 that follows.\<close>

lemma missing_file_forbidden:
  assumes "path \<noteq> []" and "\<forall>c\<in>set path. \<not> isspace c" and "length path < PATH_LEN - 1"
    and "we_realpath env (snprintf (MAX_PATH_LEN * 2) (base_dir @ str ''/'' @ path)) = None"
  shows "handle_http_request env (get_request path) base_dir
    = Inr (Some (send_error (we_date env) 403 (str ''403 Forbidden'')))"
proof -
  have "\<not> is_safe_path (we_realpath env) base_dir path"
    using assms(4) by (simp add: is_safe_path_def split: option.splits)
  with assms(1-3) show ?thesis
    by (simp add: handle_http_request_def parse_get_request path_text_def Let_def)
qed

end
