(* ===== verification/WebEvents.thy ===== *)
theory WebEvents
  imports WebServer
begin

text \<open>
  HW_12_WebServer: the set-up of the server and its loop over the events of \<open>epoll\<close>. The kernel's
  side is a socket per connection, with the bytes not read yet and the mark that an event is due; it
  marks an event when something arrives (\<open>EPOLLET\<close>) and takes the mark back when \<open>epoll_wait\<close>
  reports it. Clients act between any two steps of the server. A connection is named by its number
  in the order of the connects, which also stands for its \<open>client_data_t\<close>; the descriptors behind
  it and the halves of \<open>epoll_data_t\<close> are not told apart any further.
\<close>

subsection \<open>The set-up in main\<close>

datatype fd = Server_fd | Epoll_fd

record web_sys =
  ws_is_dir :: bool
  ws_socket :: bool
  ws_nonblocking :: bool
  ws_setsockopt :: bool
  ws_inet_pton :: "bytes \<Rightarrow> u32 option"
  ws_bind :: bool
  ws_listen :: bool
  ws_epoll_create :: bool
  ws_epoll_ctl :: bool

text \<open>
  The exit code with the descriptors that are still open, or the two descriptors with the address
  and the port in host order.
\<close>

definition web_setup :: "web_sys \<Rightarrow> bytes list \<Rightarrow> (int \<times> fd list) + (fd list \<times> u32 \<times> u16)" where
  "web_setup sys args =
     (case args of
        [_, base_dir, host_port_arg] \<Rightarrow>
          (let (host, port) = host_port host_port_arg in
           if \<not> ws_is_dir sys then Inl (1, [])
           else if \<not> ws_socket sys then Inl (1, [])
           else
             let open_fds = [Server_fd] in
             if \<not> ws_nonblocking sys \<or> \<not> ws_setsockopt sys then Inl (1, remove1 Server_fd open_fds)
             else
               case (case ws_inet_pton sys host of
                   Some addr \<Rightarrow> Some addr
                 | None \<Rightarrow> if host = str ''0.0.0.0'' then Some 0 else None) of
                 None \<Rightarrow> Inl (1, remove1 Server_fd open_fds)
               | Some addr \<Rightarrow>
                   if \<not> ws_bind sys \<or> \<not> ws_listen sys \<or> \<not> ws_epoll_create sys
                   then Inl (1, remove1 Server_fd open_fds)
                   else
                     let open_fds = [Server_fd, Epoll_fd] in
                     if \<not> ws_epoll_ctl sys then Inl (1, remove1 Server_fd (remove1 Epoll_fd open_fds))
                     else Inr (open_fds, addr, word_of_int port))
      | _ \<Rightarrow> Inl (1, []))"

text \<open>Every failure of the set-up exits with 1 and leaves nothing open.\<close>

lemma web_setup_closes: "web_setup sys args = Inl (ret, fds) \<Longrightarrow> ret = 1 \<and> fds = []"
  by (auto simp: web_setup_def Let_def split: list.splits if_splits option.splits prod.splits)

subsection \<open>The state\<close>

definition MAX_EVENTS :: nat where "MAX_EVENTS = 1024"

record sock =
  so_data :: bytes
  so_closed :: bool
  so_edge :: bool

text \<open>
  What \<open>epoll_wait\<close> reports: a connect, or something of a client, with the flag that it has closed
  its side or reset the connection; without that flag it is \<open>EPOLLIN\<close>.
\<close>

datatype item = Accept_ready | Client_ready nat bool

record server =
  sv_next :: nat
  sv_backlog :: "nat list"
  sv_listen_edge :: bool
  sv_socks :: "nat \<Rightarrow> sock"
  sv_clients :: "nat \<rightharpoonup> bytes"
  sv_batch :: "item list"
  sv_outcomes :: "(nat \<times> connection) list"

definition no_sock :: sock where
  "no_sock = \<lparr>so_data = [], so_closed = False, so_edge = False\<rparr>"

definition web_start :: server where
  "web_start = \<lparr>sv_next = 0, sv_backlog = [], sv_listen_edge = False, sv_socks = (\<lambda>_. no_sock),
     sv_clients = Map.empty, sv_batch = [], sv_outcomes = []\<rparr>"

definition set_sock :: "nat \<Rightarrow> sock \<Rightarrow> server \<Rightarrow> server" where
  "set_sock c k s = s\<lparr>sv_socks := (sv_socks s)(c := k)\<rparr>"

subsection \<open>The steps of the server\<close>

text \<open>
  A new connection: \<open>accept\<close> fails; the client cannot be set up (\<open>fcntl\<close>, \<open>malloc\<close> or \<open>epoll_ctl\<close>
  fails) and is closed; or it is set up. Its registration marks an event when there is one already.
\<close>

datatype accept_answer = Accept_failed | Setup_failed | Set_up

definition accept_client :: "accept_answer \<Rightarrow> server \<Rightarrow> server" where
  "accept_client answer s =
     (case sv_backlog s of
        [] \<Rightarrow> s
      | c # backlog \<Rightarrow>
          let k = sv_socks s c in
          case answer of
            Accept_failed \<Rightarrow> s
          | Setup_failed \<Rightarrow> s\<lparr>sv_backlog := backlog\<rparr>
          | Set_up \<Rightarrow>
              set_sock c (k\<lparr>so_edge := (so_data k \<noteq> [] \<or> so_closed k)\<rparr>)
                (s\<lparr>sv_backlog := backlog, sv_clients := (sv_clients s)(c \<mapsto> [])\<rparr>))"

text \<open>\<open>epoll_ctl (EPOLL_CTL_DEL)\<close>, \<open>close\<close> and \<open>free\<close> of a client with what became of it.\<close>

definition end_client :: "nat \<Rightarrow> connection \<Rightarrow> server \<Rightarrow> server" where
  "end_client c r s = s\<lparr>sv_clients := (sv_clients s)(c := None), sv_outcomes := sv_outcomes s @ [(c, r)]\<rparr>"

text \<open>What \<open>recv\<close> yields in the loop of one event: all there is, then the end or nothing for now.\<close>

definition recv_events :: "sock \<Rightarrow> client_event list" where
  "recv_events k = (if so_data k = [] then [] else [Data (so_data k)]) @ [if so_closed k then Eof else Again]"

text \<open>An event of a client whose \<open>client_data_t\<close> has been freed is a use after free.\<close>

definition client_ready :: "nat \<Rightarrow> bool \<Rightarrow> server \<Rightarrow> server option" where
  "client_ready c hup s =
     (case sv_clients s c of
        None \<Rightarrow> None
      | Some buffer \<Rightarrow>
          if hup then Some (end_client c Closed s)
          else
            let k = sv_socks s c in
            case client_events (recv_events k) buffer of
              Collecting buffer \<Rightarrow> Some (set_sock c (k\<lparr>so_data := []\<rparr>) (s\<lparr>sv_clients := (sv_clients s)(c \<mapsto> buffer)\<rparr>))
            | r \<Rightarrow> Some (end_client c r s))"

fun handle_item :: "accept_answer \<Rightarrow> item \<Rightarrow> server \<Rightarrow> server option" where
  "handle_item answer Accept_ready s = Some (accept_client answer s)"
| "handle_item answer (Client_ready c hup) s = client_ready c hup s"

text \<open>What \<open>epoll_wait\<close> can report, and its taking the marks back.\<close>

fun ready :: "server \<Rightarrow> item \<Rightarrow> bool" where
  "ready s Accept_ready = (sv_listen_edge s \<and> sv_backlog s \<noteq> [])"
| "ready s (Client_ready c hup) =
     (sv_clients s c \<noteq> None \<and> so_edge (sv_socks s c) \<and>
      (so_data (sv_socks s c) \<noteq> [] \<or> so_closed (sv_socks s c)) \<and> hup = so_closed (sv_socks s c))"

fun clear_edge :: "item \<Rightarrow> server \<Rightarrow> server" where
  "clear_edge Accept_ready s = s\<lparr>sv_listen_edge := False\<rparr>"
| "clear_edge (Client_ready c hup) s = set_sock c (sv_socks s c\<lparr>so_edge := False\<rparr>) s"

definition epoll_report :: "item list \<Rightarrow> server \<Rightarrow> server" where
  "epoll_report items s = fold clear_edge items s\<lparr>sv_batch := items\<rparr>"

subsection \<open>Runs\<close>

text \<open>
  A client connects, sends, closes; \<open>epoll_wait\<close> returns with a batch of events, and the body of the
  loop handles the first event of what is left of the batch.
\<close>

datatype web_event = Connect | Send nat bytes | Close nat | Wait "item list" | Handle accept_answer

inductive web_step :: "server \<Rightarrow> web_event \<Rightarrow> server \<Rightarrow> bool" where
  connect: "c = sv_next s \<Longrightarrow>
    web_step s Connect (s\<lparr>sv_next := Suc c, sv_backlog := sv_backlog s @ [c], sv_listen_edge := True\<rparr>)"
| send: "c < sv_next s \<Longrightarrow> k = sv_socks s c \<Longrightarrow> \<not> so_closed k \<Longrightarrow> bs \<noteq> [] \<Longrightarrow>
    web_step s (Send c bs) (set_sock c (k\<lparr>so_data := so_data k @ bs, so_edge := True\<rparr>) s)"
| close: "c < sv_next s \<Longrightarrow> k = sv_socks s c \<Longrightarrow>
    web_step s (Close c) (set_sock c (k\<lparr>so_closed := True, so_edge := True\<rparr>) s)"
| wait: "sv_batch s = [] \<Longrightarrow> items \<noteq> [] \<Longrightarrow> distinct items \<Longrightarrow> length items \<le> MAX_EVENTS \<Longrightarrow>
    \<forall>it\<in>set items. ready s it \<Longrightarrow> web_step s (Wait items) (epoll_report items s)"
| handle: "sv_batch s = it # batch \<Longrightarrow> handle_item answer it (s\<lparr>sv_batch := batch\<rparr>) = Some s' \<Longrightarrow>
    web_step s (Handle answer) s'"

inductive_cases web_step_elim: "web_step s ev s'"
inductive_simps web_step_simps:
  "web_step s Connect s'" "web_step s (Send c bs) s'" "web_step s (Close c) s'" "web_step s (Wait items) s'"
  "web_step s (Handle answer) s'"

inductive web_run :: "server \<Rightarrow> web_event list \<Rightarrow> server \<Rightarrow> bool" where
  run_nil: "web_run s [] s"
| run_step: "web_run s evs s' \<Longrightarrow> web_step s' ev s'' \<Longrightarrow> web_run s (evs @ [ev]) s''"

lemma web_run_Cons:
  "web_run s (ev # evs) s'' \<longleftrightarrow> (\<exists>s'. web_step s ev s' \<and> web_run s' evs s'')"
proof
  have "web_run s evs' s'' \<Longrightarrow> evs' = ev # evs \<Longrightarrow> \<exists>s'. web_step s ev s' \<and> web_run s' evs s''" for evs'
  proof (induction arbitrary: evs rule: web_run.induct)
    case (run_step s evs1 s1 ev1 s2)
    then show ?case by (cases evs1) (auto intro: web_run.intros elim: web_run.cases)
  qed simp
  then show "web_run s (ev # evs) s'' \<Longrightarrow> \<exists>s'. web_step s ev s' \<and> web_run s' evs s''" by simp
next
  have "web_run s' evs s'' \<Longrightarrow> web_step s ev s' \<Longrightarrow> web_run s (ev # evs) s''" for s'
  proof (induction rule: web_run.induct)
    case (run_nil s')
    then show ?case using web_run.intros(2) [OF web_run.intros(1)] by fastforce
  next
    case (run_step s1 evs1 s2 ev1 s3)
    then show ?case using web_run.intros(2) [of s "ev # evs1" s2 ev1 s3] by simp
  qed
  then show "\<exists>s'. web_step s ev s' \<and> web_run s' evs s'' \<Longrightarrow> web_run s (ev # evs) s''" by blast
qed

lemma web_run_Nil: "web_run s [] s' \<longleftrightarrow> s' = s"
  by (auto intro: web_run.intros elim: web_run.cases)

subsection \<open>What a step changes\<close>

lemma set_sock_simps [simp]:
  "sv_next (set_sock c k s) = sv_next s" "sv_backlog (set_sock c k s) = sv_backlog s"
  "sv_listen_edge (set_sock c k s) = sv_listen_edge s" "sv_socks (set_sock c k s) = (sv_socks s)(c := k)"
  "sv_clients (set_sock c k s) = sv_clients s" "sv_batch (set_sock c k s) = sv_batch s"
  "sv_outcomes (set_sock c k s) = sv_outcomes s"
  by (simp_all add: set_sock_def)

lemma end_client_simps [simp]:
  "sv_next (end_client c r s) = sv_next s" "sv_backlog (end_client c r s) = sv_backlog s"
  "sv_listen_edge (end_client c r s) = sv_listen_edge s" "sv_socks (end_client c r s) = sv_socks s"
  "sv_clients (end_client c r s) = (sv_clients s)(c := None)" "sv_batch (end_client c r s) = sv_batch s"
  "sv_outcomes (end_client c r s) = sv_outcomes s @ [(c, r)]"
  by (simp_all add: end_client_def)

text \<open>The connections a batch has events of.\<close>

definition conns :: "item list \<Rightarrow> nat list" where
  "conns items = concat (List.map (\<lambda>it. case it of Accept_ready \<Rightarrow> [] | Client_ready c _ \<Rightarrow> [c]) items)"

lemma conns_simps [simp]:
  "conns [] = []" "conns (Accept_ready # items) = conns items"
  "conns (Client_ready c hup # items) = c # conns items"
  by (simp_all add: conns_def)

lemma in_conns: "c \<in> set (conns items) \<longleftrightarrow> (\<exists>hup. Client_ready c hup \<in> set items)"
  by (force simp: conns_def split: item.splits)

lemma fold_clear_edge [simp]:
  "sv_next (fold clear_edge items s) = sv_next s" "sv_backlog (fold clear_edge items s) = sv_backlog s"
  "sv_clients (fold clear_edge items s) = sv_clients s" "sv_outcomes (fold clear_edge items s) = sv_outcomes s"
  "sv_batch (fold clear_edge items s) = sv_batch s"
  "sv_listen_edge (fold clear_edge items s) = (sv_listen_edge s \<and> Accept_ready \<notin> set items)"
  "sv_socks (fold clear_edge items s) c =
     (if c \<in> set (conns items) then sv_socks s c\<lparr>so_edge := False\<rparr> else sv_socks s c)"
proof (induction items arbitrary: s)
  case (Cons it items)
  { case 1 show ?case using Cons by (cases it) simp_all }
  { case 2 show ?case using Cons by (cases it) simp_all }
  { case 3 show ?case using Cons by (cases it) simp_all }
  { case 4 show ?case using Cons by (cases it) simp_all }
  { case 5 show ?case using Cons by (cases it) simp_all }
  { case 6 show ?case using Cons by (cases it) simp_all }
  { case 7 show ?case using Cons by (cases it) simp_all }
qed simp_all

lemma epoll_report_simps [simp]:
  "sv_next (epoll_report items s) = sv_next s" "sv_backlog (epoll_report items s) = sv_backlog s"
  "sv_clients (epoll_report items s) = sv_clients s" "sv_outcomes (epoll_report items s) = sv_outcomes s"
  "sv_batch (epoll_report items s) = items"
  "sv_listen_edge (epoll_report items s) = (sv_listen_edge s \<and> Accept_ready \<notin> set items)"
  "sv_socks (epoll_report items s) c =
     (if c \<in> set (conns items) then sv_socks s c\<lparr>so_edge := False\<rparr> else sv_socks s c)"
  by (simp_all add: epoll_report_def)

text \<open>The events of one report concern different connections: the flag is that of the socket.\<close>

lemma distinct_conns:
  assumes "distinct items" and "\<forall>it\<in>set items. ready s it"
  shows "distinct (conns items)"
  using assms
proof (induction items)
  case (Cons it items)
  then show ?case by (cases it) (auto simp: in_conns)
qed simp

text \<open>The outcome of an event of a client, in three cases.\<close>

lemma client_ready_cases:
  assumes "client_ready c hup s = Some s'"
  obtains (gone) buffer where "sv_clients s c = Some buffer" and "hup" and "s' = end_client c Closed s"
  | (collects) buffer buffer' where "sv_clients s c = Some buffer" and "\<not> hup"
      and "client_events (recv_events (sv_socks s c)) buffer = Collecting buffer'"
      and "s' = set_sock c (sv_socks s c\<lparr>so_data := []\<rparr>) (s\<lparr>sv_clients := (sv_clients s)(c \<mapsto> buffer')\<rparr>)"
  | (ends) buffer r where "sv_clients s c = Some buffer" and "\<not> hup"
      and "client_events (recv_events (sv_socks s c)) buffer = r" and "\<forall>b. r \<noteq> Collecting b"
      and "s' = end_client c r s"
  using assms by (auto simp: client_ready_def Let_def split: option.splits if_splits connection.splits)

subsection \<open>The invariant of the loop\<close>

text \<open>
  Connections in the backlog are not clients yet; the events left in a batch are of live clients and
  of different ones; a client with something to read has its mark or an event in the batch; the
  sockets of connections to come are untouched.
\<close>

definition web_inv :: "server \<Rightarrow> bool" where
  "web_inv s \<longleftrightarrow>
     distinct (sv_backlog s) \<and> (\<forall>c\<in>set (sv_backlog s). c < sv_next s \<and> sv_clients s c = None) \<and>
     distinct (conns (sv_batch s)) \<and> (\<forall>c\<in>set (conns (sv_batch s)). sv_clients s c \<noteq> None) \<and>
     (\<forall>c. sv_clients s c \<noteq> None \<longrightarrow> c < sv_next s) \<and>
     (\<forall>c. sv_clients s c \<noteq> None \<and> (so_data (sv_socks s c) \<noteq> [] \<or> so_closed (sv_socks s c)) \<longrightarrow>
        so_edge (sv_socks s c) \<or> c \<in> set (conns (sv_batch s))) \<and>
     (\<forall>c. sv_next s \<le> c \<longrightarrow> sv_socks s c = no_sock)"

lemma web_inv_start: "web_inv web_start"
  by (simp add: web_inv_def web_start_def)

lemma accept_inv:
  assumes "web_inv s"
  shows "web_inv (accept_client answer s)"
proof (cases "sv_backlog s")
  case Nil
  with assms show ?thesis by (simp add: accept_client_def)
next
  case (Cons c backlog)
  then show ?thesis
    using assms by (cases answer) (auto simp: accept_client_def web_inv_def Let_def)
qed

text \<open>All that was there has been read, so no mark is needed; a closed socket ends the client.\<close>

lemma recv_events_closed:
  assumes "client_events (recv_events k) buffer = Collecting buffer'"
  shows "\<not> so_closed k"
  using assms by (auto simp: recv_events_def Let_def split: if_splits option.splits)

lemma client_inv:
  assumes "web_inv (s\<lparr>sv_batch := Client_ready c hup # batch\<rparr>)"
    and "client_ready c hup (s\<lparr>sv_batch := batch\<rparr>) = Some s'"
  shows "web_inv s'"
  using assms(2)
proof (cases rule: client_ready_cases)
  case (gone buffer)
  then show ?thesis using assms(1) by (auto simp: web_inv_def)
next
  case (collects buffer buffer')
  then show ?thesis using assms(1) recv_events_closed [OF collects(3)] by (auto simp: web_inv_def)
next
  case (ends buffer r)
  then show ?thesis using assms(1) by (auto simp: web_inv_def)
qed

lemma web_inv_step:
  assumes "web_step s ev s'" and "web_inv s"
  shows "web_inv s'"
  using assms(1)
proof cases
  case (connect c)
  then show ?thesis using assms(2) by (auto simp: web_inv_def le_Suc_eq)
next
  case (send c k bs)
  then show ?thesis using assms(2) by (auto simp: web_inv_def)
next
  case (close c k)
  then show ?thesis using assms(2) by (auto simp: web_inv_def)
next
  case (wait items)
  have "sv_clients s c \<noteq> None" if "c \<in> set (conns items)" for c
    using that wait(7) by (force simp: in_conns)
  then show ?thesis
    using wait assms(2) distinct_conns [OF wait(5,7)] by (auto simp: web_inv_def no_sock_def)
next
  case (handle it batch answer)
  have s: "s = s\<lparr>sv_batch := it # batch\<rparr>" using handle(2) by simp
  show ?thesis
  proof (cases it)
    case Accept_ready
    have "web_inv (s\<lparr>sv_batch := batch\<rparr>)" using assms(2) handle(2) Accept_ready by (simp add: web_inv_def)
    then show ?thesis using handle(3) Accept_ready accept_inv by auto
  next
    case (Client_ready c hup)
    then show ?thesis using client_inv [of c hup batch s s'] handle(3) assms(2) s by simp
  qed
qed

lemma web_run_inv: "web_run s evs s' \<Longrightarrow> web_inv s \<Longrightarrow> web_inv s'"
  by (induction rule: web_run.induct) (auto dest: web_inv_step)

lemmas web_reach_inv = web_run_inv [OF _ web_inv_start]

subsection \<open>No client is forgotten\<close>


text \<open>A server with nothing to report has read all that its clients sent.\<close>

lemma asleep_all_read:
  assumes "web_inv s" and "sv_batch s = []" and "\<forall>it. \<not> ready s it" and "sv_clients s c = Some buffer"
  shows "so_data (sv_socks s c) = [] \<and> \<not> so_closed (sv_socks s c)"
proof -
  have "so_edge (sv_socks s c)" if "so_data (sv_socks s c) \<noteq> [] \<or> so_closed (sv_socks s c)"
    using that assms(1,2,4) by (force simp: web_inv_def)
  with assms(3) [rule_format, of "Client_ready c (so_closed (sv_socks s c))"] assms(4)
  show ?thesis by auto
qed

text \<open>
  with connects it is otherwise. One event of the listening socket accepts one connection; those
  that came with it wait, without an event, until somebody else connects: nothing else the clients
  do lets the server accept them.
\<close>

theorem second_connect_waits:
  assumes "web_run s evs s'" and "Connect \<notin> set evs"
    and "\<not> sv_listen_edge s" and "Accept_ready \<notin> set (sv_batch s)"
  shows "sv_backlog s' = sv_backlog s"
proof -
  have "sv_backlog s' = sv_backlog s \<and> \<not> sv_listen_edge s' \<and> Accept_ready \<notin> set (sv_batch s')"
    using assms
  proof (induction rule: web_run.induct)
    case (run_step s evs s1 ev s2)
    then have "sv_backlog s1 = sv_backlog s" "\<not> sv_listen_edge s1" "Accept_ready \<notin> set (sv_batch s1)"
      "ev \<noteq> Connect" by auto
    with \<open>web_step s1 ev s2\<close> show ?case
    proof cases
      case (wait items)
      moreover have "Accept_ready \<notin> set items" using wait \<open>\<not> sv_listen_edge s1\<close> by force
      ultimately show ?thesis
        using \<open>sv_backlog s1 = sv_backlog s\<close> \<open>\<not> sv_listen_edge s1\<close> by simp
    next
      case (handle it batch answer)
      then obtain c hup where "it = Client_ready c hup" using \<open>Accept_ready \<notin> set (sv_batch s1)\<close> by (cases it) auto
      then have "client_ready c hup (s1\<lparr>sv_batch := batch\<rparr>) = Some s2" using handle by simp
      moreover have "Accept_ready \<notin> set batch" using handle \<open>Accept_ready \<notin> set (sv_batch s1)\<close> by simp
      ultimately show ?thesis
        using \<open>sv_backlog s1 = sv_backlog s\<close> \<open>\<not> sv_listen_edge s1\<close>
        by (cases rule: client_ready_cases) simp_all
    qed simp_all
  qed simp
  then show ?thesis ..
qed

subsection \<open>The answers\<close>

text \<open>All a client sends in a run.\<close>

definition sent :: "nat \<Rightarrow> web_event list \<Rightarrow> bytes" where
  "sent c evs = concat (List.map (\<lambda>ev. case ev of Send d bs \<Rightarrow> if d = c then bs else [] | _ \<Rightarrow> []) evs)"

lemma sent_simps [simp]:
  "sent c [] = []" "sent c (evs @ [Connect]) = sent c evs" "sent c (evs @ [Close d]) = sent c evs"
  "sent c (evs @ [Send d bs]) = sent c evs @ (if d = c then bs else [])"
  "sent c (evs @ [Wait items]) = sent c evs" "sent c (evs @ [Handle answer]) = sent c evs"
  by (simp_all add: sent_def)

definition final :: "connection \<Rightarrow> bool" where
  "final r \<longleftrightarrow> (case r of Request _ \<Rightarrow> True | Refused \<Rightarrow> True | _ \<Rightarrow> False)"

text \<open>A complete request and a full buffer stay what they are, whatever comes after them.\<close>

lemma answer_to_append:
  assumes "final (answer_to chars)"
  shows "answer_to (chars @ rest) = answer_to chars"
proof (cases "strstr (take (BUFFER_SIZE - 1) chars) CRLF2")
  case None
  then have "BUFFER_SIZE - 1 \<le> length chars"
    using assms by (auto simp: answer_to_def final_def split: if_splits)
  then show ?thesis using None by (simp add: answer_to_def)
next
  case (Some i)
  let ?t = "take (BUFFER_SIZE - 1)"
  have "strstr (?t chars @ take (BUFFER_SIZE - 1 - length chars) rest) CRLF2 = Some i"
    by (rule strstr_append [OF Some])
  moreover have "i + 4 \<le> length chars" using strstr_bound [OF Some] by (simp add: CRLF2_def)
  ultimately show ?thesis using Some by (simp add: answer_to_def)
qed

lemma client_events_append:
  "client_events (xs @ ys) buffer =
     (case client_events xs buffer of Collecting buffer \<Rightarrow> client_events ys buffer | r \<Rightarrow> r)"
  by (induction xs buffer rule: client_events.induct) (auto simp: Let_def split: option.splits)

text \<open>What one event of a client comes to, by the bytes that are there.\<close>

lemma recv_answer:
  assumes "c_nul \<notin> set (buffer @ so_data k)" and "length buffer < BUFFER_SIZE - 1" and "strstr buffer CRLF2 = None"
  shows "client_events (recv_events k) buffer =
     (case answer_to (buffer @ so_data k) of
        Collecting b \<Rightarrow> if so_closed k then Closed else Collecting b
      | r \<Rightarrow> r)"
proof -
  let ?xs = "if so_data k = [] then [] else [so_data k]"
  have "client_events (map Data ?xs) buffer = answer_to (buffer @ concat ?xs)"
    using assms by (intro collect_answer) auto
  moreover have "concat ?xs = so_data k" by simp
  moreover have "recv_events k = map Data ?xs @ [if so_closed k then Eof else Again]"
    by (simp add: recv_events_def)
  ultimately show ?thesis by (simp add: client_events_append split: connection.splits)
qed

definition flow :: "nat \<Rightarrow> bytes \<Rightarrow> server \<Rightarrow> bool" where
  "flow c chars s \<longleftrightarrow>
     (\<forall>b. sv_clients s c = Some b \<longrightarrow>
        chars = b @ so_data (sv_socks s c) \<and> length b < BUFFER_SIZE - 1 \<and> strstr b CRLF2 = None) \<and>
     (c \<in> set (sv_backlog s) \<longrightarrow> chars = so_data (sv_socks s c)) \<and>
     (sv_next s \<le> c \<longrightarrow> chars = []) \<and>
     (\<forall>r. (c, r) \<in> set (sv_outcomes s) \<longrightarrow> r \<noteq> Closed \<longrightarrow> final r \<and> answer_to chars = r)"

lemma flow_client:
  assumes "flow c chars (s\<lparr>sv_batch := it # batch\<rparr>)" and "web_inv (s\<lparr>sv_batch := it # batch\<rparr>)"
    and "client_ready d hup (s\<lparr>sv_batch := batch\<rparr>) = Some s'" and "c_nul \<notin> set chars"
  shows "flow c chars s'"
  using assms(3)
proof (cases rule: client_ready_cases)
  case (gone buffer)
  then show ?thesis using assms(1) by (auto simp: flow_def)
next
  case (collects buffer buffer')
  show ?thesis
  proof (cases "d = c")
    case True
    have b: "chars = buffer @ so_data (sv_socks s c)" "length buffer < BUFFER_SIZE - 1" "strstr buffer CRLF2 = None"
      using collects(1) True assms(1) by (simp_all add: flow_def)
    then have "answer_to chars = Collecting buffer'"
      using collects(3) True recv_answer [of buffer "sv_socks s c"] assms(4)
      by (auto split: connection.splits if_splits)
    then have "buffer' = chars" "length chars < BUFFER_SIZE - 1" "strstr chars CRLF2 = None"
      by (auto simp: answer_to_def split: option.splits if_splits)
    then show ?thesis
      using collects True assms(1,2) by (auto simp: flow_def web_inv_def)
  next
    case False
    then show ?thesis using collects assms(1) by (simp add: flow_def)
  qed
next
  case (ends buffer r)
  show ?thesis
  proof (cases "d = c")
    case True
    have b: "chars = buffer @ so_data (sv_socks s c)" "length buffer < BUFFER_SIZE - 1" "strstr buffer CRLF2 = None"
      using ends(1) True assms(1) by (simp_all add: flow_def)
    then have "r \<noteq> Closed \<longrightarrow> final r \<and> answer_to chars = r"
      using ends(3,4) True recv_answer [of buffer "sv_socks s c"] assms(4)
      by (auto simp: final_def split: connection.splits if_splits)
    then show ?thesis using ends True assms(1) by (auto simp: flow_def)
  next
    case False
    then show ?thesis using ends assms(1) by (simp add: flow_def)
  qed
qed

lemma flow_accept:
  assumes "flow c chars s" and "web_inv s"
  shows "flow c chars (accept_client answer s)"
proof (cases "sv_backlog s")
  case Nil
  with assms show ?thesis by (simp add: accept_client_def)
next
  case (Cons d backlog)
  have "strstr [] CRLF2 = None" by (simp add: strstr.simps CRLF2_def)
  then show ?thesis
    using Cons assms by (cases answer; cases "d = c")
      (auto simp: accept_client_def flow_def Let_def web_inv_def BUFFER_SIZE_def)
qed

lemma flow_step:
  assumes "web_step s ev s'" and "flow c (sent c evs) s" and "web_inv s" and "c_nul \<notin> set (sent c (evs @ [ev]))"
  shows "flow c (sent c (evs @ [ev])) s'"
  using assms(1)
proof cases
  case (connect d)
  then show ?thesis using assms(2,3) by (auto simp: flow_def web_inv_def no_sock_def)
next
  case (send d k bs)
  then show ?thesis
    using assms(2) answer_to_append [of "sent c evs" bs] by (auto simp: flow_def)
next
  case (close d k)
  then show ?thesis using assms(2) by (auto simp: flow_def)
next
  case (wait items)
  then show ?thesis using assms(2) by (auto simp: flow_def)
next
  case (handle it batch answer)
  have s: "s\<lparr>sv_batch := it # batch\<rparr> = s" using handle(2) by simp
  show ?thesis
  proof (cases it)
    case Accept_ready
    have "flow c (sent c evs) (s\<lparr>sv_batch := batch\<rparr>)" "web_inv (s\<lparr>sv_batch := batch\<rparr>)"
      using assms(2,3) handle Accept_ready by (simp_all add: web_inv_def flow_def)
    then show ?thesis using handle Accept_ready flow_accept by auto
  next
    case (Client_ready d hup)
    then show ?thesis
      using flow_client [of c "sent c evs" it batch s d hup s', unfolded s] handle assms(2-4) by simp
  qed
qed

lemma web_run_flow:
  assumes "web_run s0 evs s" and "s0 = web_start" and "c_nul \<notin> set (sent c evs)"
  shows "flow c (sent c evs) s"
  using assms
proof (induction rule: web_run.induct)
  case (run_nil s)
  then show ?case by (simp add: flow_def web_start_def no_sock_def)
next
  case (run_step s evs s1 ev s2)
  then have "c_nul \<notin> set (sent c evs)" by (cases ev) auto
  then show ?case using run_step flow_step web_reach_inv by metis
qed

text \<open>
  C12: however connects, data and closes come, and however their events fall into batches: a connection
  that was answered was answered to the request its bytes begin with, and one that was refused has
  sent a full buffer without the end of a request.
\<close>

theorem web_answers_any_schedule:
  assumes "web_run web_start evs s" and "(c, r) \<in> set (sv_outcomes s)" and "r \<noteq> Closed"
    and "c_nul \<notin> set (sent c evs)"
  shows "answer_to (sent c evs) = r \<and> (r = Refused \<or> (\<exists>request. r = Request request))"
proof -
  have "final r \<and> answer_to (sent c evs) = r"
    using web_run_flow [OF assms(1) refl assms(4)] assms(2,3) by (simp add: flow_def)
  then show ?thesis by (auto simp: final_def split: connection.splits)
qed

text \<open>
  C13: when the server sleeps in \<open>epoll_wait\<close> with nothing to report, none of its clients has sent a
  whole request or filled its buffer, and none has closed its side: all that was sent has been read.
\<close>

theorem sleeps_only_on_partial_requests:
  assumes "web_run web_start evs s" and "sv_batch s = []" and "\<forall>it. \<not> ready s it"
    and "sv_clients s c = Some buffer" and "c_nul \<notin> set (sent c evs)"
  shows "buffer = sent c evs \<and> answer_to (sent c evs) = Collecting (sent c evs) \<and> \<not> so_closed (sv_socks s c)"
proof -
  have "so_data (sv_socks s c) = [] \<and> \<not> so_closed (sv_socks s c)"
    by (rule asleep_all_read [OF web_reach_inv [OF assms(1)] assms(2-4)])
  moreover have "flow c (sent c evs) s" by (rule web_run_flow [OF assms(1) refl assms(5)])
  ultimately show ?thesis using assms(4) by (auto simp: flow_def answer_to_def)
qed

subsection \<open>A run\<close>

text \<open>Two clients connect at once; the first sends a request in two parts, the second a request in one.\<close>

definition sample_events :: "web_event list" where
  "sample_events =
     [Connect, Connect, Send 0 (str ''GET / H''), Wait [Accept_ready], Handle Set_up,
      Wait [Client_ready 0 False], Send 1 (str ''GET / H'' @ CRLF2), Handle Set_up]"

lemmas run_eval = web_run_Cons web_run_Nil web_step_simps epoll_report_def set_sock_def accept_client_def
  client_ready_def recv_events_def end_client_def web_start_def no_sock_def MAX_EVENTS_def BUFFER_SIZE_def
  CRLF2_def strstr.simps byte_simps Let_def

lemma web_sample_run:
  "\<exists>s. web_run web_start sample_events s \<and> sv_backlog s = [1] \<and> \<not> sv_listen_edge s \<and>
     sv_batch s = [] \<and> sv_clients s = [0 \<mapsto> str ''GET / H''] \<and> so_data (sv_socks s 0) = [] \<and>
     \<not> so_closed (sv_socks s 0)"
  by (simp add: sample_events_def run_eval cstr_def fun_eq_iff)


lemma second_connect_waits_witness:
  "\<exists>s s'. web_run web_start sample_events s \<and> sv_backlog s' = [1] \<and>
     web_run s [Close 0, Wait [Client_ready 0 True], Handle Set_up] s'"
proof -
  let ?evs = "[Close 0, Wait [Client_ready 0 True], Handle Set_up]"
  have "\<exists>s. web_run web_start sample_events s \<and> sv_backlog s = [1] \<and> \<not> sv_listen_edge s \<and> sv_batch s = [] \<and>
      (\<exists>s'. web_run s ?evs s')"
    by (simp add: sample_events_def run_eval cstr_def)
  then obtain s s' where s: "web_run web_start sample_events s" "sv_backlog s = [1]" "\<not> sv_listen_edge s"
      "sv_batch s = []" "web_run s ?evs s'" by blast
  then have "sv_backlog s' = [1]" using second_connect_waits [of s ?evs s'] by simp
  with s show ?thesis by blast
qed

lemma web_answers_any_schedule_witness:
  "\<exists>s. web_run web_start (sample_events @ [Send 0 CRLF2, Wait [Client_ready 0 False], Handle Set_up]) s \<and>
     answer_to (str ''GET / H'' @ CRLF2) = Request (str ''GET / H'' @ CRLF2)"
proof -
  let ?evs = "sample_events @ [Send 0 CRLF2, Wait [Client_ready 0 False], Handle Set_up]"
  have "\<exists>s. web_run web_start ?evs s \<and> sv_outcomes s = [(0, Request (str ''GET / H'' @ CRLF2))]"
    by (simp add: sample_events_def run_eval cstr_def)
  then obtain s where s: "web_run web_start ?evs s" "sv_outcomes s = [(0, Request (str ''GET / H'' @ CRLF2))]"
    by blast
  have "sent 0 ?evs = str ''GET / H'' @ CRLF2" by (simp add: sent_def sample_events_def)
  moreover have "c_nul \<notin> set (str ''GET / H'' @ CRLF2)" by (simp add: CRLF2_def byte_simps)
  ultimately have "answer_to (str ''GET / H'' @ CRLF2) = Request (str ''GET / H'' @ CRLF2)"
    using web_answers_any_schedule [OF s(1), of 0 "Request (str ''GET / H'' @ CRLF2)"] s(2) by simp
  with s(1) show ?thesis by blast
qed

lemma sleeps_only_on_partial_requests_witness:
  "\<exists>s. web_run web_start sample_events s \<and>
     answer_to (sent 0 sample_events) = Collecting (sent 0 sample_events) \<and> \<not> so_closed (sv_socks s 0)"
proof -
  obtain s where s: "web_run web_start sample_events s" "sv_backlog s = [1]" "\<not> sv_listen_edge s"
      "sv_batch s = []" "sv_clients s = [0 \<mapsto> str ''GET / H'']" "so_data (sv_socks s 0) = []"
      "\<not> so_closed (sv_socks s 0)"
    using web_sample_run by blast
  have "\<not> ready s it" for it using s by (cases it) auto
  moreover have "c_nul \<notin> set (sent 0 sample_events)" by (simp add: sent_def sample_events_def byte_simps)
  ultimately show ?thesis
    using sleeps_only_on_partial_requests [OF s(1,4), of 0 "str ''GET / H''"] s(1,5) by auto
qed

end
