(* ===== verification/Logger.thy ===== *)
theory Logger
  imports CStd
begin

text \<open>
  HW_07-Logging: the logger of logger.c with its mutex, level and stream. The clock, the terminal
  test and the symbols of a backtrace are parameters; a call that waits for a mutex nobody will
  release blocks.
\<close>

subsection \<open>Levels\<close>

datatype LogLevel = LOG_DEBUG | LOG_INFO | LOG_WARNING | LOG_ERROR

text \<open>The order of the enumeration.\<close>

primrec level_number :: "LogLevel \<Rightarrow> nat" where
  "level_number LOG_DEBUG = 0"
| "level_number LOG_INFO = 1"
| "level_number LOG_WARNING = 2"
| "level_number LOG_ERROR = 3"

lemma level_number_inj: "level_number a = level_number b \<Longrightarrow> a = b"
  by (cases a; cases b) simp_all

instantiation LogLevel :: linorder
begin

definition less_eq_LogLevel :: "LogLevel \<Rightarrow> LogLevel \<Rightarrow> bool" where
  "less_eq_LogLevel a b \<longleftrightarrow> level_number a \<le> level_number b"

definition less_LogLevel :: "LogLevel \<Rightarrow> LogLevel \<Rightarrow> bool" where
  "less_LogLevel a b \<longleftrightarrow> level_number a < level_number b"

instance
  by standard (auto simp: less_eq_LogLevel_def less_LogLevel_def dest: level_number_inj)

end

primrec level_strings :: "LogLevel \<Rightarrow> bytes" where
  "level_strings LOG_DEBUG = str ''DEBUG''"
| "level_strings LOG_INFO = str ''INFO''"
| "level_strings LOG_WARNING = str ''WARNING''"
| "level_strings LOG_ERROR = str ''ERROR''"

abbreviation c_esc :: u8 where "c_esc \<equiv> 0x1B"

primrec level_colors :: "LogLevel \<Rightarrow> bytes" where
  "level_colors LOG_DEBUG = c_esc # str ''[36m''"
| "level_colors LOG_INFO = c_esc # str ''[32m''"
| "level_colors LOG_WARNING = c_esc # str ''[33m''"
| "level_colors LOG_ERROR = c_esc # str ''[31m''"

definition RESET_TERMINAL :: bytes where
  "RESET_TERMINAL = c_esc # str ''[0m''"

subsection \<open>The logger\<close>

datatype stream = Stderr | LogFile bytes

text \<open>
  The mutex, the level, the stream (\<open>None\<close> for the null pointer), the streams that have been closed
  and what has been written, oldest first.
\<close>

record logger =
  lg_locked :: bool
  lg_level :: LogLevel
  lg_stream :: "stream option"
  lg_closed :: "stream set"
  lg_written :: "(stream \<times> bytes) list"

definition log_loaded :: logger where
  "log_loaded = \<lparr>lg_locked = False, lg_level = LOG_INFO, lg_stream = None, lg_closed = {}, lg_written = []\<rparr>"

text \<open>A call returns, waits for ever, or uses a stream that is closed.\<close>

datatype outcome = Returns logger | Blocks | Closed_stream

definition emit :: "stream \<Rightarrow> bytes \<Rightarrow> logger \<Rightarrow> outcome" where
  "emit s bs lg = (if s \<in> lg_closed lg then Closed_stream else Returns (lg\<lparr>lg_written := lg_written lg @ [(s, bs)]\<rparr>))"

definition close_stream :: "stream \<Rightarrow> logger \<Rightarrow> outcome" where
  "close_stream s lg = (if s \<in> lg_closed lg then Closed_stream else Returns (lg\<lparr>lg_closed := insert s (lg_closed lg)\<rparr>))"

definition bind :: "outcome \<Rightarrow> (logger \<Rightarrow> outcome) \<Rightarrow> outcome" where
  "bind r f = (case r of Returns lg \<Rightarrow> f lg | Blocks \<Rightarrow> Blocks | Closed_stream \<Rightarrow> Closed_stream)"

text \<open>The file name, and whether the file opens; a file that is opened again is a stream again.\<close>

definition log_init :: "bytes option \<Rightarrow> bool \<Rightarrow> logger \<Rightarrow> outcome" where
  "log_init filename opens lg =
     bind (case lg_stream lg of Some s \<Rightarrow> close_stream s lg | None \<Rightarrow> Returns lg)
       (\<lambda>lg. bind (case filename of
            Some name \<Rightarrow>
              if opens
              then Returns (lg\<lparr>lg_stream := Some (LogFile name), lg_closed := lg_closed lg - {LogFile name}\<rparr>)
              else bind (emit Stderr (str ''Cannot open log file: '' @ name @ [c_nl]) lg)
                     (\<lambda>lg. Returns (lg\<lparr>lg_stream := Some Stderr\<rparr>))
          | None \<Rightarrow> Returns (lg\<lparr>lg_stream := Some Stderr\<rparr>))
        (\<lambda>lg. if the (lg_stream lg) \<in> lg_closed lg then Closed_stream else Returns lg))"

definition log_close :: "logger \<Rightarrow> outcome" where
  "log_close lg =
     bind (case lg_stream lg of
             Some s \<Rightarrow> if s \<noteq> Stderr then close_stream s lg else Returns lg
           | None \<Rightarrow> Returns lg)
       (\<lambda>lg. Returns (lg\<lparr>lg_stream := None\<rparr>))"

definition log_set_level :: "LogLevel \<Rightarrow> logger \<Rightarrow> outcome" where
  "log_set_level level lg = Returns (lg\<lparr>lg_level := level\<rparr>)"

text \<open>\<open>%2d\<close>\<close>

definition pad2 :: "nat \<Rightarrow> bytes" where
  "pad2 n = replicate (2 - length (show_dec n)) c_space @ show_dec n"

text \<open>The symbols of the backtrace, the first of which is skipped.\<close>

definition print_backtrace :: "bytes list option \<Rightarrow> bytes" where
  "print_backtrace symbols =
     (case symbols of
        None \<Rightarrow> []
      | Some ss \<Rightarrow>
          str ''Backtrace:'' @ [c_nl]
            @ concat (map (\<lambda>i. str ''  '' @ pad2 i @ str '': '' @ ss ! i @ [c_nl]) [1..<length ss]))"

definition base_name :: "bytes \<Rightarrow> bytes" where
  "base_name path =
     (case strrchr c_slash path of
        Some s \<Rightarrow> tl s
      | None \<Rightarrow> (case strrchr 0x5C path of Some s \<Rightarrow> tl s | None \<Rightarrow> path))"

text \<open>Where a message comes from, its text as formatted, and what the system says at that time.\<close>

record message =
  ms_level :: LogLevel
  ms_file :: bytes
  ms_line :: nat
  ms_func :: bytes
  ms_body :: bytes
  ms_timestamp :: bytes
  ms_tty :: bool
  ms_symbols :: "bytes list option"

definition message_text :: "message \<Rightarrow> bytes" where
  "message_text m =
     (if ms_tty m then level_colors (ms_level m) else [])
     @ str ''['' @ ms_timestamp m @ str ''] ['' @ level_strings (ms_level m) @ str ''] ['' @ base_name (ms_file m)
     @ str '':'' @ show_dec (ms_line m) @ str '':'' @ ms_func m @ str ''] '' @ ms_body m @ [c_nl]
     @ (if ms_tty m then RESET_TERMINAL else [])
     @ (if ms_level m = LOG_ERROR then print_backtrace (ms_symbols m) else [])"

definition log_message :: "message \<Rightarrow> logger \<Rightarrow> outcome" where
  "log_message m lg =
     (if lg_locked lg then Blocks
      else
        let lg = lg\<lparr>lg_locked := True\<rparr> in
        if ms_level m < lg_level lg then Returns lg
        else
          let s = (case lg_stream lg of Some s \<Rightarrow> s | None \<Rightarrow> Stderr);
              lg = lg\<lparr>lg_stream := Some s\<rparr>
          in bind (emit s (message_text m) lg) (\<lambda>lg. Returns (lg\<lparr>lg_locked := False\<rparr>)))"

subsection \<open>Sequences of calls\<close>

datatype call = Init "bytes option" bool | Close | Set_level LogLevel | Message message

fun log_call :: "call \<Rightarrow> logger \<Rightarrow> outcome" where
  "log_call (Init filename opens) lg = log_init filename opens lg"
| "log_call Close lg = log_close lg"
| "log_call (Set_level level) lg = log_set_level level lg"
| "log_call (Message m) lg = log_message m lg"

definition log_calls :: "call list \<Rightarrow> logger \<Rightarrow> outcome" where
  "log_calls calls lg = fold (\<lambda>c r. bind r (log_call c)) calls (Returns lg)"

fun_cases log_call_elim: "log_call c lg = r"

lemma bind_simps [simp]:
  "bind (Returns lg) f = f lg" "bind Blocks f = Blocks" "bind Closed_stream f = Closed_stream"
  by (simp_all add: bind_def)

lemma log_calls_Nil [simp]: "log_calls [] lg = Returns lg"
  by (simp add: log_calls_def)

lemma log_calls_fail: "fold (\<lambda>c r. bind r (log_call c)) calls Blocks = Blocks"
    "fold (\<lambda>c r. bind r (log_call c)) calls Closed_stream = Closed_stream"
  by (induction calls) simp_all

lemma log_calls_Cons [simp]: "log_calls (c # calls) lg = bind (log_call c lg) (log_calls calls)"
  by (cases "log_call c lg") (simp_all add: log_calls_def log_calls_fail)

lemma log_calls_append: "log_calls (xs @ ys) lg = bind (log_calls xs lg) (log_calls ys)"
proof (induction xs arbitrary: lg)
  case (Cons c xs)
  show ?case by (cases "log_call c lg") (simp_all add: Cons.IH)
qed simp

subsection \<open>Messages that are logged\<close>

text \<open>Messages at or above the level are written one after the other, each whole, and the mutex is free again.\<close>

lemma messages_in_order:
  assumes "\<not> lg_locked lg" and "lg_stream lg = Some s" and "s \<notin> lg_closed lg"
    and "\<forall>m\<in>set ms. lg_level lg \<le> ms_level m"
  shows "log_calls (map Message ms) lg = Returns (lg\<lparr>lg_written := lg_written lg @ map (\<lambda>m. (s, message_text m)) ms\<rparr>)"
  using assms
proof (induction ms arbitrary: lg)
  case (Cons m ms)
  let ?lg = "lg\<lparr>lg_written := lg_written lg @ [(s, message_text m)]\<rparr>"
  have "log_message m lg = Returns ?lg"
    using Cons.prems by (cases lg) (simp add: log_message_def Let_def emit_def not_less)
  with Cons.IH [of ?lg] Cons.prems show ?case by simp
qed simp

subsection \<open>Messages that are not\<close>

text \<open>No other call gives the mutex back.\<close>

lemma other_calls_keep_lock:
  assumes "\<forall>m. c \<noteq> Message m" and "lg_locked lg"
  shows "log_call c lg \<noteq> Blocks" and "log_call c lg = Returns lg' \<Longrightarrow> lg_locked lg'"
proof -
  show "log_call c lg \<noteq> Blocks"
    using assms
    by (cases c) (auto simp: log_init_def log_close_def log_set_level_def close_stream_def emit_def
      split: option.splits if_splits)
  show "log_call c lg = Returns lg' \<Longrightarrow> lg_locked lg'"
    using assms
    by (auto elim!: log_call_elim simp: log_init_def log_close_def log_set_level_def close_stream_def emit_def
      split: option.splits if_splits)
qed

text \<open>
  a message below the level returns without giving the mutex back: whatever calls come between,
  as long as they end, the next message, of any level, blocks for ever.
\<close>

theorem filtered_message_blocks:
  assumes "\<not> lg_locked lg" and "ms_level m < lg_level lg"
    and "\<forall>c\<in>set between. \<forall>m. c \<noteq> Message m"
    and "log_calls (Message m # between) lg = Returns lg'"
  shows "log_calls (Message m # between @ Message m' # later) lg = Blocks"
proof -
  have first: "log_message m lg = Returns (lg\<lparr>lg_locked := True\<rparr>)"
    using assms(1,2) by (simp add: log_message_def Let_def)
  have kept: "lg_locked l' " if "lg_locked l" "log_calls between l = Returns l'" for l l'
    using that assms(3)
  proof (induction between arbitrary: l)
    case (Cons c cs)
    from Cons.prems(2) obtain l1 where "log_call c l = Returns l1" "log_calls cs l1 = Returns l'"
      by (cases "log_call c l") auto
    with Cons other_calls_keep_lock(2) [of c l l1] show ?case by simp
  qed simp
  from assms(4) first have b: "log_calls between (lg\<lparr>lg_locked := True\<rparr>) = Returns lg'" by simp
  then have "lg_locked lg'" using kept [of "lg\<lparr>lg_locked := True\<rparr>"] by simp
  then have "log_message m' lg' = Blocks" by (simp add: log_message_def)
  with first b show ?thesis by (simp add: log_calls_append)
qed

definition sample_message :: "LogLevel \<Rightarrow> message" where
  "sample_message level = \<lparr>ms_level = level, ms_file = str ''a.c'', ms_line = 1, ms_func = str ''f'', ms_body = str ''x'',
     ms_timestamp = [], ms_tty = False, ms_symbols = None\<rparr>"

lemma filtered_message_blocks_witness:
  "log_calls (Message (sample_message LOG_DEBUG) # [Set_level LOG_DEBUG] @ Message (sample_message LOG_ERROR) # []) log_loaded
    = Blocks"
  by (rule filtered_message_blocks)
    (simp_all add: log_loaded_def sample_message_def less_LogLevel_def log_message_def log_set_level_def)

text \<open>A logger that falls back on the standard error closes it when it is set up again.\<close>

lemma init_closes_stderr:
  "log_calls [Init None True, Init (Some f) True] log_loaded
    = Returns (log_loaded\<lparr>lg_stream := Some (LogFile f), lg_closed := {Stderr}\<rparr>)"
  by (simp add: log_loaded_def log_init_def close_stream_def)

lemma init_stderr_twice: "log_calls [Init None True, Init None True] log_loaded = Closed_stream"
  by (simp add: log_loaded_def log_init_def close_stream_def)

end
