(* ===== verification/FsDaemon.thy ===== *)
theory FsDaemon
  imports CStd
begin

text \<open>
  HW_08-Daemon: the daemon that tells its clients the size of a file. Its configuration, its answers,
  the start as a daemon and the loop over its clients; the answers of the system are parameters and
  the log is left out.
\<close>

subsection \<open>The configuration\<close>

record daemon_config =
  dc_file_path :: bytes
  dc_socket_path :: bytes
  dc_daemonize :: bool
  dc_run_as_uid :: nat
  dc_run_as_gid :: nat

definition DEFAULT_SOCKET_PATH :: bytes where "DEFAULT_SOCKET_PATH = str ''/tmp/fs-daemon.sock''"
definition DEFAULT_FILE_PATH :: bytes where "DEFAULT_FILE_PATH = str ''/tmp/testfile.txt''"
definition CONFIG_FILE :: bytes where "CONFIG_FILE = str ''./fs-daemon.conf''"

text \<open>The ids of the process and those of the users and groups it knows.\<close>

record id_env =
  ie_uid :: nat
  ie_gid :: nat
  ie_getpwnam :: "bytes \<Rightarrow> nat option"
  ie_getgrnam :: "bytes \<Rightarrow> nat option"

definition default_config :: "id_env \<Rightarrow> daemon_config" where
  "default_config env = \<lparr>dc_file_path = DEFAULT_FILE_PATH, dc_socket_path = DEFAULT_SOCKET_PATH,
     dc_daemonize = True, dc_run_as_uid = ie_uid env, dc_run_as_gid = ie_gid env\<rparr>"

text \<open>\<open>strtok\<close>: the next token and what follows the character that ends it.\<close>

definition is_delim :: "u8 \<Rightarrow> bool" where
  "is_delim c \<longleftrightarrow> c \<in> {c_space, 9, 0x3D, c_nl}"

definition strtok :: "bytes \<Rightarrow> bytes option \<times> bytes" where
  "strtok s =
     (let s = dropWhile is_delim s;
          token = takeWhile (\<lambda>c. \<not> is_delim c) s
      in if s = [] then (None, []) else (Some token, drop (Suc (length token)) s))"

abbreviation c_hash :: u8 where "c_hash \<equiv> 0x23"

definition cut_comment :: "bytes \<Rightarrow> bytes" where
  "cut_comment s = takeWhile (\<lambda>c. c \<noteq> c_hash) s"

text \<open>A setting with the value as a string, which the null pointer is not.\<close>

definition apply_setting :: "id_env \<Rightarrow> bytes \<Rightarrow> bytes option \<Rightarrow> daemon_config \<Rightarrow> ub + daemon_config" where
  "apply_setting env key value config =
     (if key = str ''file'' then
        (case value of None \<Rightarrow> Inl Ub_NullDeref | Some v \<Rightarrow> Inr (config\<lparr>dc_file_path := v\<rparr>))
      else if key = str ''socket'' then
        (case value of None \<Rightarrow> Inl Ub_NullDeref | Some v \<Rightarrow> Inr (config\<lparr>dc_socket_path := v\<rparr>))
      else if key = str ''daemonize'' then
        (case value of
           None \<Rightarrow> Inl Ub_NullDeref
         | Some v \<Rightarrow> Inr (config\<lparr>dc_daemonize :=
             (v = str ''yes'' \<or> v = str ''1'' \<or> v = str ''true'' \<or> v = str ''on'')\<rparr>))
      else if key = str ''user'' then
        (case value of
           None \<Rightarrow> Inl Ub_NullDeref
         | Some v \<Rightarrow>
             (case ie_getpwnam env v of
                Some uid \<Rightarrow> Inr (config\<lparr>dc_run_as_uid := uid\<rparr>)
              | None \<Rightarrow> Inr config))
      else if key = str ''group'' then
        (case value of
           None \<Rightarrow> Inl Ub_NullDeref
         | Some v \<Rightarrow>
             (case ie_getgrnam env v of
                Some gid \<Rightarrow> Inr (config\<lparr>dc_run_as_gid := gid\<rparr>)
              | None \<Rightarrow> Inr config))
      else Inr config)"

definition config_line :: "id_env \<Rightarrow> bytes \<Rightarrow> daemon_config \<Rightarrow> ub + daemon_config" where
  "config_line env text_line config =
     (case strtok (cstr text_line) of
        (None, _) \<Rightarrow> Inr config
      | (Some key, rest) \<Rightarrow>
          let value = fst (strtok rest) in
          if hd key = c_hash then Inr config
          else apply_setting env (cut_comment key) (map_option cut_comment value) config)"

function config_lines :: "id_env \<Rightarrow> bytes \<Rightarrow> daemon_config \<Rightarrow> ub + daemon_config" where
  "config_lines env content config =
     (if content = [] then Inr config
      else case fgets 256 content of
             (l, rest) \<Rightarrow>
               (case config_line env l config of
                  Inl u \<Rightarrow> Inl u
                | Inr config \<Rightarrow> config_lines env rest config))"
  by pat_completeness auto
termination
  by (relation "measure (\<lambda>(env, content, config). length content)")
    (auto simp: fgets_def Let_def split: option.splits dest: memchr_Some)

declare config_lines.simps [simp del]

text \<open>The content of the file when it opens.\<close>

definition parse_config :: "id_env \<Rightarrow> bytes option \<Rightarrow> ub + daemon_config" where
  "parse_config env config_file =
     (case config_file of
        None \<Rightarrow> Inr (default_config env)
      | Some content \<Rightarrow> config_lines env content (default_config env))"

subsection \<open>The answer to a client\<close>

definition get_error_string :: "int \<Rightarrow> bytes" where
  "get_error_string errnum =
     (if errnum = 2 then str ''File not found''
      else if errnum = 13 then str ''Permission denied''
      else if errnum = 1 then str ''Operation not permitted''
      else if errnum = 5 then str ''I/O error''
      else if errnum = 28 then str ''No space left on device''
      else if errnum = 21 then str ''Is a directory''
      else if errnum = 40 then str ''Too many symbolic links''
      else if errnum = 36 then str ''File name too long''
      else if errnum = 20 then str ''Not a directory''
      else if errnum = 30 then str ''Read-only file system''
      else if errnum = 22 then str ''Invalid argument''
      else str ''Unknown error'')"

text \<open>What \<open>stat\<close> says: an error number, a regular file of a size, something else.\<close>

datatype stat_answer = Stat_error nat | Regular nat | Not_regular

definition EINVAL :: int where "EINVAL = 22"

definition get_file_size :: "stat_answer \<Rightarrow> int" where
  "get_file_size st =
     (case st of Stat_error e \<Rightarrow> - int e | Not_regular \<Rightarrow> - EINVAL | Regular n \<Rightarrow> int n)"

definition DAEMON_BUFFER_SIZE :: nat where "DAEMON_BUFFER_SIZE = 1024"

definition handle_client :: "stat_answer \<Rightarrow> bytes" where
  "handle_client st =
     (let file_size = get_file_size st in
      snprintf DAEMON_BUFFER_SIZE
        (if file_size < 0 then str ''ERROR: '' @ get_error_string (- file_size) @ [c_nl]
         else show_int file_size @ [c_nl]))"

text \<open>\<open>access\<close> for existence and for reading, by error numbers; 0 is success.\<close>

definition check_file_access :: "nat \<Rightarrow> nat \<Rightarrow> int" where
  "check_file_access exists_error read_error =
     (if exists_error \<noteq> 0 then - int exists_error
      else if read_error \<noteq> 0 then - int read_error
      else 0)"

subsection \<open>The start\<close>

text \<open>The arguments behind the program's name: the file and whether to stay in the foreground; \<open>None\<close> for help.\<close>

fun daemon_args :: "bytes list \<Rightarrow> bytes \<times> bool \<Rightarrow> (bytes \<times> bool) option" where
  "daemon_args [] s = Some s"
| "daemon_args (a # rest) (custom_config, daemon_flag) =
     (if a = str ''--no-daemon'' \<or> a = str ''-n'' then daemon_args rest (custom_config, True)
      else if a = str ''--config'' \<or> a = str ''-c'' then
        (case rest of
           [] \<Rightarrow> Some (custom_config, daemon_flag)
         | c # rest' \<Rightarrow> daemon_args rest' (c, daemon_flag))
      else if a = str ''--help'' \<or> a = str ''-h'' then None
      else daemon_args rest (custom_config, daemon_flag))"

text \<open>What becomes of the process: it exits as a parent, fails, or goes on as the daemon.\<close>

datatype fork_result = Parent_exits | Fork_fails | In_daemon

definition create_daemon :: "int \<Rightarrow> bool \<Rightarrow> int \<Rightarrow> fork_result" where
  "create_daemon first_pid setsid_ok second_pid =
     (if first_pid < 0 then Fork_fails
      else if 0 < first_pid then Parent_exits
      else if \<not> setsid_ok then Fork_fails
      else if second_pid < 0 then Fork_fails
      else if 0 < second_pid then Parent_exits
      else In_daemon)"

text \<open>The ids of the process after the change, or its exit; the group goes first.\<close>

record ids =
  id_uid :: nat
  id_gid :: nat

definition drop_privileges ::
    "(nat \<Rightarrow> ids \<Rightarrow> ids option) \<Rightarrow> (nat \<Rightarrow> ids \<Rightarrow> ids option) \<Rightarrow> nat \<Rightarrow> nat \<Rightarrow> ids \<Rightarrow> ids option" where
  "drop_privileges setgid setuid uid gid p =
     (if id_uid p = 0
      then (case setgid gid p of None \<Rightarrow> None | Some p \<Rightarrow> setuid uid p)
      else Some p)"

text \<open>The path the socket is bound to: what fits in \<open>sun_path\<close>.\<close>

definition sun_path :: "bytes \<Rightarrow> bytes" where
  "sun_path socket_path = take 107 socket_path"

subsection \<open>The loop\<close>

text \<open>
  What \<open>select\<close> comes back with: nothing for a second, a signal that ended the wait (whose handler has
  cleared \<open>running\<close> when it was one of the handled ones), an error, a client, for which \<open>accept\<close>
  may fail; the file is looked at when the client is there.
\<close>

datatype loop_event = Timeout | Signal bool | Select_error | Client_failed | Client stat_answer

text \<open>The answers sent until the loop ends, and whether it has ended.\<close>

fun daemon_loop :: "loop_event list \<Rightarrow> bytes list \<times> bool" where
  "daemon_loop [] = ([], False)"
| "daemon_loop (Timeout # events) = daemon_loop events"
| "daemon_loop (Signal stop # events) = (if stop then ([], True) else daemon_loop events)"
| "daemon_loop (Select_error # events) = ([], True)"
| "daemon_loop (Client_failed # events) = daemon_loop events"
| "daemon_loop (Client st # events) =
     (case daemon_loop events of (answers, ended) \<Rightarrow> (handle_client st # answers, ended))"

subsection \<open>Settings\<close>

text \<open>A word that can be a key or a value, and the line that sets a key.\<close>

definition plain :: "bytes \<Rightarrow> bool" where
  "plain s \<longleftrightarrow> s \<noteq> [] \<and> (\<forall>c\<in>set s. \<not> is_delim c \<and> c \<noteq> c_hash \<and> c \<noteq> c_nul)"

definition setting_line :: "bytes \<times> bytes \<Rightarrow> bytes" where
  "setting_line kv = (case kv of (k, v) \<Rightarrow> k @ str '' = '' @ v @ [c_nl])"

definition setting_ok :: "bytes \<times> bytes \<Rightarrow> bool" where
  "setting_ok kv = (case kv of (k, v) \<Rightarrow> plain k \<and> plain v \<and> length k + length v < 250)"

text \<open>A setting with a value never fails.\<close>

definition set_value :: "id_env \<Rightarrow> bytes \<times> bytes \<Rightarrow> daemon_config \<Rightarrow> daemon_config" where
  "set_value env kv config = (case apply_setting env (fst kv) (Some (snd kv)) config of Inr c \<Rightarrow> c | Inl _ \<Rightarrow> config)"

lemma apply_setting_value: "apply_setting env k (Some v) config = Inr (set_value env (k, v) config)"
  by (simp add: set_value_def apply_setting_def split: option.splits)

lemma delims [byte_simps]: "is_delim c_space" "is_delim 0x3D" "is_delim c_nl"
  by (simp_all add: is_delim_def)

lemma strtok_word: "plain w \<Longrightarrow> is_delim d \<Longrightarrow> strtok (w @ d # rest) = (Some w, rest)"
proof -
  assume w: "plain w" and d: "is_delim d"
  then have "dropWhile is_delim (w @ d # rest) = w @ d # rest" by (cases w) (simp_all add: plain_def)
  moreover have "takeWhile (\<lambda>c. \<not> is_delim c) (w @ d # rest) = w"
    using w d by (intro takeWhile_append_stop) (simp_all add: plain_def)
  ultimately show ?thesis using w by (simp add: strtok_def plain_def)
qed

lemma strtok_skip: "is_delim d \<Longrightarrow> strtok (d # rest) = strtok rest"
  by (simp add: strtok_def)

lemma cut_plain: "plain w \<Longrightarrow> cut_comment w = w"
  by (simp add: cut_comment_def plain_def takeWhile_eq_all_conv)

lemma config_line_setting:
  assumes "setting_ok (k, v)"
  shows "config_line env (setting_line (k, v)) config = Inr (set_value env (k, v) config)"
proof -
  have k: "plain k" and v: "plain v" using assms by (simp_all add: setting_ok_def)
  have "cstr (setting_line (k, v)) = k @ c_space # 0x3D # c_space # v @ [c_nl]"
    using k v by (subst cstr_id) (auto simp: setting_line_def plain_def byte_simps)
  moreover have "strtok (k @ c_space # 0x3D # c_space # v @ [c_nl]) = (Some k, 0x3D # c_space # v @ [c_nl])"
    using k by (simp add: strtok_word byte_simps)
  moreover have "strtok (0x3D # c_space # v @ [c_nl]) = (Some v, [])"
    using v by (simp add: strtok_skip strtok_word byte_simps)
  moreover have "hd k \<noteq> c_hash" using k by (cases k) (simp_all add: plain_def)
  ultimately show ?thesis
    using k v by (simp add: config_line_def cut_plain apply_setting_value)
qed

lemma config_lines_settings:
  "\<forall>kv\<in>set kvs. setting_ok kv \<Longrightarrow>
    config_lines env (concat (map setting_line kvs)) config = Inr (fold (set_value env) kvs config)"
proof (induction kvs arbitrary: config)
  case Nil
  then show ?case by (simp add: config_lines.simps)
next
  case (Cons kv kvs)
  obtain k v where kv: "kv = (k, v)" by (cases kv)
  let ?l = "k @ str '' = '' @ v"
  have line: "setting_line kv = ?l @ [c_nl]" by (simp add: setting_line_def kv)
  have "c_nl \<notin> set ?l" "Suc (length ?l) < 256"
    using Cons.prems by (auto simp: kv setting_ok_def plain_def byte_simps)
  then have "fgets 256 (setting_line kv @ concat (map setting_line kvs)) = (setting_line kv, concat (map setting_line kvs))"
    unfolding line by (rule fgets_line)
  moreover have "setting_line kv \<noteq> []" by (simp add: line)
  moreover have "config_line env (setting_line kv) config = Inr (set_value env kv config)"
    using Cons.prems config_line_setting [of k v] by (simp add: kv)
  ultimately have "config_lines env (setting_line kv @ concat (map setting_line kvs)) config
      = config_lines env (concat (map setting_line kvs)) (set_value env kv config)"
    by (subst config_lines.simps) simp
  then show ?case using Cons by simp
qed

text \<open>The value of the last setting of a key that passes a test.\<close>

definition last_value :: "(bytes \<Rightarrow> bool) \<Rightarrow> bytes \<Rightarrow> (bytes \<times> bytes) list \<Rightarrow> bytes option" where
  "last_value good k kvs = map_of (rev (filter (\<lambda>kv. good (snd kv)) kvs)) k"

lemma last_value_Nil [simp]: "last_value good k [] = None"
  by (simp add: last_value_def)

lemma last_value_snoc [simp]:
  "last_value good k (kvs @ [(k', v)]) = (if good v \<and> k = k' then Some v else last_value good k kvs)"
  by (simp add: last_value_def)

lemma key_names:
  "str ''file'' \<noteq> str ''socket''" "str ''file'' \<noteq> str ''daemonize''" "str ''file'' \<noteq> str ''user''"
  "str ''file'' \<noteq> str ''group''" "str ''socket'' \<noteq> str ''daemonize''" "str ''socket'' \<noteq> str ''user''"
  "str ''socket'' \<noteq> str ''group''" "str ''daemonize'' \<noteq> str ''user''" "str ''daemonize'' \<noteq> str ''group''"
  "str ''user'' \<noteq> str ''group''"
  by (simp_all add: str_inj)

lemmas key_neqs = key_names key_names [symmetric]

definition switched_on :: "bytes \<Rightarrow> bool" where
  "switched_on v \<longleftrightarrow> v \<in> {str ''yes'', str ''1'', str ''true'', str ''on''}"

text \<open>
  a configuration file of plain settings is read so that the last setting of a key counts, a
  user or group that does not exist is passed over, and what is not set keeps its default.
\<close>

theorem config_last_setting:
  assumes "\<forall>kv\<in>set kvs. setting_ok kv"
  shows "parse_config env (Some (concat (map setting_line kvs))) = Inr
    \<lparr>dc_file_path = (case last_value (\<lambda>_. True) (str ''file'') kvs of Some v \<Rightarrow> v | None \<Rightarrow> DEFAULT_FILE_PATH),
     dc_socket_path = (case last_value (\<lambda>_. True) (str ''socket'') kvs of Some v \<Rightarrow> v | None \<Rightarrow> DEFAULT_SOCKET_PATH),
     dc_daemonize = (case last_value (\<lambda>_. True) (str ''daemonize'') kvs of Some v \<Rightarrow> switched_on v | None \<Rightarrow> True),
     dc_run_as_uid = (case last_value (\<lambda>v. ie_getpwnam env v \<noteq> None) (str ''user'') kvs of
        Some v \<Rightarrow> the (ie_getpwnam env v) | None \<Rightarrow> ie_uid env),
     dc_run_as_gid = (case last_value (\<lambda>v. ie_getgrnam env v \<noteq> None) (str ''group'') kvs of
        Some v \<Rightarrow> the (ie_getgrnam env v) | None \<Rightarrow> ie_gid env)\<rparr>"
    (is "_ = Inr (?config kvs)")
proof -
  have "fold (set_value env) kvs (default_config env) = ?config kvs"
  proof (induction kvs rule: rev_induct)
    case Nil
    show ?case by (simp add: default_config_def)
  next
    case (snoc kv kvs)
    obtain k v where kv: "kv = (k, v)" by (cases kv)
    show ?case
      unfolding fold_append o_apply fold.simps id_apply snoc.IH kv
      by (auto simp: set_value_def apply_setting_def key_neqs switched_on_def split: option.split)
  qed
  then show ?thesis using config_lines_settings [OF assms] by (simp add: parse_config_def)
qed

lemma config_last_setting_witness:
  "parse_config \<lparr>ie_uid = 7, ie_gid = 8, ie_getpwnam = (\<lambda>n. if n = str ''www'' then Some 33 else None), ie_getgrnam = (\<lambda>_. None)\<rparr>
     (Some (concat (map setting_line [(str ''file'', str ''/a''), (str ''user'', str ''www''), (str ''file'', str ''/b''),
        (str ''user'', str ''none''), (str ''daemonize'', str ''no'')])))
   = Inr \<lparr>dc_file_path = str ''/b'', dc_socket_path = DEFAULT_SOCKET_PATH, dc_daemonize = False,
       dc_run_as_uid = 33, dc_run_as_gid = 8\<rparr>"
  by (subst config_last_setting)
    (simp_all add: setting_ok_def plain_def is_delim_def byte_simps last_value_def switched_on_def)

text \<open>A key without a value is a null pointer for \<open>strdup\<close>.\<close>

lemma config_key_without_value: "parse_config env (Some (str ''file'' @ [c_nl])) = Inl Ub_NullDeref"
  by (simp add: parse_config_def config_lines.simps fgets_def memchr_def config_line_def strtok_def is_delim_def
    cut_comment_def apply_setting_def cstr_def byte_simps Let_def)

text \<open>
  Started by root, where the calls do what they document, the daemon ends up with the ids of its
  configuration: the group is changed while it still may.
\<close>

lemma privileges_dropped:
  assumes "\<And>g p. setgid g p = (if id_uid p = 0 \<or> g = id_gid p then Some (p\<lparr>id_gid := g\<rparr>) else None)"
    and "\<And>u p. setuid u p = (if id_uid p = 0 \<or> u = id_uid p then Some (p\<lparr>id_uid := u\<rparr>) else None)"
  shows "drop_privileges setgid setuid uid gid \<lparr>id_uid = 0, id_gid = g\<rparr> = Some \<lparr>id_uid = uid, id_gid = gid\<rparr>"
  by (simp add: drop_privileges_def assms)

end
