(* ===== verification/DaemonMain.thy ===== *)
theory DaemonMain
  imports FsDaemon
begin

text \<open>
  HW_08-Daemon: the program \<open>main\<close> as a whole, from the arguments over the change into a daemon, the
  socket and the change of the user to the loop and the end. The state is what the calls change: the
  ids and the directory of the process, the socket files, and the answers sent, each with the ids
  under which the file was looked at. What the system answers is a parameter.
\<close>

subsection \<open>The state and the system\<close>

record daemon_world =
  dw_ids :: ids
  dw_cwd :: bytes
  dw_std_null :: bool
  dw_sockets :: "bytes set"
  dw_owner :: "bytes \<rightharpoonup> nat \<times> nat"
  dw_listening :: bool
  dw_answers :: "(ids \<times> bytes) list"

text \<open>An event of the loop; at a client the file system is what it is then.\<close>

datatype arrival =
    Quiet
  | Interrupted bool
  | Select_fails
  | Accept_fails
  | Arrives "bytes \<Rightarrow> stat_answer"

record daemon_env =
  de_ids :: id_env
  de_open :: "bytes \<Rightarrow> bytes option"
  de_fork :: "int \<times> bool \<times> int"
  de_unlink :: "ids \<Rightarrow> bytes \<Rightarrow> bool"
  de_socket :: bool
  de_bind :: "ids \<Rightarrow> bytes \<Rightarrow> bool"
  de_chown :: "ids \<Rightarrow> bool"
  de_listen :: bool
  de_setgid :: "nat \<Rightarrow> ids \<Rightarrow> ids option"
  de_setuid :: "nat \<Rightarrow> ids \<Rightarrow> ids option"
  de_arrivals :: "arrival list"

text \<open>A relative path starts at the working directory; the root is the empty text here.\<close>

definition resolve :: "bytes \<Rightarrow> bytes \<Rightarrow> bytes" where
  "resolve cwd path = (if path \<noteq> [] \<and> hd path = c_slash then path else cwd @ [c_slash] @ path)"

subsection \<open>The steps\<close>

definition unlink :: "daemon_env \<Rightarrow> bytes \<Rightarrow> daemon_world \<Rightarrow> daemon_world" where
  "unlink env path w =
     (let p = resolve (dw_cwd w) path in
      if de_unlink env (dw_ids w) p then w\<lparr>dw_sockets := dw_sockets w - {p}\<rparr> else w)"

text \<open>The rest of \<open>create_daemon\<close> in the second child.\<close>

definition enter_daemon :: "daemon_world \<Rightarrow> daemon_world" where
  "enter_daemon w = w\<lparr>dw_cwd := [], dw_std_null := True\<rparr>"

text \<open>
  \<open>bind\<close> makes the socket file at the path that fits in \<open>sun_path\<close>, and fails when there is one;
  \<open>chown\<close> takes the whole path.
\<close>

definition setup_socket :: "daemon_env \<Rightarrow> bytes \<Rightarrow> nat \<Rightarrow> nat \<Rightarrow> daemon_world \<Rightarrow> bool \<times> daemon_world" where
  "setup_socket env socket_path uid gid w =
     (let w = unlink env socket_path w;
          p = resolve (dw_cwd w) socket_path;
          b = resolve (dw_cwd w) (sun_path socket_path) in
      if \<not> de_socket env then (False, w)
      else if b \<in> dw_sockets w \<or> \<not> de_bind env (dw_ids w) b then (False, w)
      else
        let w = w\<lparr>dw_sockets := insert b (dw_sockets w),
                  dw_owner := (dw_owner w)(b \<mapsto> (id_uid (dw_ids w), id_gid (dw_ids w)))\<rparr>;
            w = (if p \<in> dw_sockets w \<and> de_chown env (dw_ids w)
                 then w\<lparr>dw_owner := (dw_owner w)(p \<mapsto> (uid, gid))\<rparr> else w) in
        if \<not> de_listen env then (False, w)
        else (True, w\<lparr>dw_listening := True\<rparr>))"

fun event_of :: "bytes \<Rightarrow> arrival \<Rightarrow> loop_event" where
  "event_of path Quiet = Timeout"
| "event_of path (Interrupted stop) = Signal stop"
| "event_of path Select_fails = Select_error"
| "event_of path Accept_fails = Client_failed"
| "event_of path (Arrives stat_of) = Client (stat_of path)"

text \<open>The loop, and the end behind it; \<open>None\<close> when it is still running.\<close>

definition serve :: "daemon_env \<Rightarrow> daemon_config \<Rightarrow> daemon_world \<Rightarrow> int option \<times> daemon_world" where
  "serve env config w =
     (let path = resolve (dw_cwd w) (dc_file_path config);
          (answers, ended) = daemon_loop (List.map (event_of path) (de_arrivals env));
          w = w\<lparr>dw_answers := dw_answers w @ List.map (Pair (dw_ids w)) answers\<rparr> in
      if \<not> ended then (None, w)
      else (Some 0, unlink env (dc_socket_path config) (w\<lparr>dw_listening := False\<rparr>)))"

definition daemon_main :: "daemon_env \<Rightarrow> bytes list \<Rightarrow> daemon_world \<Rightarrow> ub + (int option \<times> daemon_world)" where
  "daemon_main env args w =
     (case daemon_args args (CONFIG_FILE, False) of
        None \<Rightarrow> Inr (Some 0, w)
      | Some (custom_config, daemon_flag) \<Rightarrow>
          case parse_config (de_ids env) (de_open env (resolve (dw_cwd w) custom_config)) of
            Inl u \<Rightarrow> Inl u
          | Inr config \<Rightarrow>
              let config = (if daemon_flag then config\<lparr>dc_daemonize := False\<rparr> else config);
                  uid = dc_run_as_uid config; gid = dc_run_as_gid config in
              case (if dc_daemonize config
                    then (case de_fork env of (first, session, second) \<Rightarrow> create_daemon first session second)
                    else In_daemon) of
                Parent_exits \<Rightarrow> Inr (Some 0, w)
              | Fork_fails \<Rightarrow> Inr (Some 1, w)
              | In_daemon \<Rightarrow>
                  let w = (if dc_daemonize config then enter_daemon w else w) in
                  (case setup_socket env (dc_socket_path config) uid gid w of
                     (False, w) \<Rightarrow> Inr (Some 1, w)
                   | (True, w) \<Rightarrow>
                       (case drop_privileges (de_setgid env) (de_setuid env) uid gid (dw_ids w) of
                          None \<Rightarrow> Inr (Some 1, w\<lparr>dw_listening := False\<rparr>)
                        | Some p \<Rightarrow> Inr (serve env config (w\<lparr>dw_ids := p\<rparr>)))))"

subsection \<open>A system that does what it documents\<close>

definition posix_setgid :: "nat \<Rightarrow> ids \<Rightarrow> ids option" where
  "posix_setgid g p = (if id_uid p = 0 \<or> g = id_gid p then Some (p\<lparr>id_gid := g\<rparr>) else None)"

definition posix_setuid :: "nat \<Rightarrow> ids \<Rightarrow> ids option" where
  "posix_setuid u p = (if id_uid p = 0 \<or> u = id_uid p then Some (p\<lparr>id_uid := u\<rparr>) else None)"

text \<open>Root may do everything, the two ids change as documented, nothing else fails.\<close>

definition good_env :: "daemon_env \<Rightarrow> bool" where
  "good_env env \<longleftrightarrow>
     de_socket env \<and> de_listen env \<and> de_fork env = (0, True, 0) \<and>
     (\<forall>p b. id_uid p = 0 \<longrightarrow> de_unlink env p b \<and> de_bind env p b \<and> de_chown env p) \<and>
     de_setgid env = posix_setgid \<and> de_setuid env = posix_setuid"

lemma root_socket:
  assumes "good_env env" and "id_uid (dw_ids w) = 0" and "length socket_path \<le> 107"
  shows "setup_socket env socket_path uid gid w =
    (let b = resolve (dw_cwd w) socket_path in
     (True, w\<lparr>dw_sockets := insert b (dw_sockets w), dw_owner := (dw_owner w)(b \<mapsto> (uid, gid)), dw_listening := True\<rparr>))"
  using assms by (simp add: setup_socket_def unlink_def good_env_def sun_path_def Let_def)

lemma root_drops:
  assumes "good_env env" and "id_uid p = 0"
  shows "drop_privileges (de_setgid env) (de_setuid env) uid gid p = Some \<lparr>id_uid = uid, id_gid = gid\<rparr>"
  using assms by (simp add: drop_privileges_def good_env_def posix_setgid_def posix_setuid_def)

text \<open>The replies to the clients that come before the signal.\<close>

fun replies :: "bytes \<Rightarrow> arrival list \<Rightarrow> bytes list" where
  "replies path [] = []"
| "replies path (Arrives stat_of # rest) = handle_client (stat_of path) # replies path rest"
| "replies path (_ # rest) = replies path rest"

definition peaceful :: "arrival list \<Rightarrow> bool" where
  "peaceful as \<longleftrightarrow> Select_fails \<notin> set as \<and> Interrupted True \<notin> set as"

lemma loop_until_signal:
  assumes "peaceful as"
  shows "daemon_loop (List.map (event_of path) (as @ [Interrupted True])) = (replies path as, True)"
  using assms
proof (induction as)
  case (Cons a as)
  then show ?case by (cases a) (auto simp: peaceful_def)
qed simp

subsection \<open>A whole run\<close>

text \<open>What \<open>main\<close> comes to when it is to become a daemon and the forks succeed.\<close>

lemma daemon_main_runs:
  assumes "good_env env" and "daemon_args args (CONFIG_FILE, False) = Some (config_file, False)"
    and "parse_config (de_ids env) (de_open env (resolve (dw_cwd w) config_file)) = Inr config"
    and "dc_daemonize config" and "id_uid (dw_ids w) = 0"
  shows "daemon_main env args w =
    (case setup_socket env (dc_socket_path config) (dc_run_as_uid config) (dc_run_as_gid config) (enter_daemon w) of
       (False, w) \<Rightarrow> Inr (Some 1, w)
     | (True, w) \<Rightarrow>
         Inr (serve env config (w\<lparr>dw_ids := \<lparr>id_uid = dc_run_as_uid config, id_gid = dc_run_as_gid config\<rparr>\<rparr>)))"
proof -
  let ?s = "setup_socket env (dc_socket_path config) (dc_run_as_uid config) (dc_run_as_gid config) (enter_daemon w)"
  obtain ok w' where s: "?s = (ok, w')" by fastforce
  have "dw_ids (snd ?s) = dw_ids w" by (simp add: setup_socket_def unlink_def enter_daemon_def Let_def)
  then have "dw_ids w' = dw_ids w" by (simp add: s)
  then have "drop_privileges (de_setgid env) (de_setuid env) (dc_run_as_uid config) (dc_run_as_gid config) (dw_ids w')
      = Some \<lparr>id_uid = dc_run_as_uid config, id_gid = dc_run_as_gid config\<rparr>"
    using root_drops [OF assms(1)] assms(5) by simp
  moreover have "create_daemon 0 True 0 = In_daemon" by (simp add: create_daemon_def)
  ultimately show ?thesis
    using assms(1-4) s by (cases ok) (simp_all add: daemon_main_def good_env_def)
qed


text \<open>
  a socket path of more than 107 bytes makes the second start fail: the socket is bound to the
  first 107 bytes, but the whole path is what is removed, at the end and at the next start.
\<close>

theorem long_socket_path_no_restart:
  assumes "good_env env" "good_env env'" and "daemon_args args (CONFIG_FILE, False) = Some (config_file, False)"
    and "parse_config (de_ids env) (de_open env (resolve (dw_cwd w) config_file)) = Inr config"
    and "parse_config (de_ids env') (de_open env' (resolve [] config_file)) = Inr config"
    and "dc_daemonize config" and "id_uid (dw_ids w) = 0" and "107 < length (dc_socket_path config)"
    and "hd (dc_socket_path config) = c_slash"
    and "daemon_main env args w = Inr (Some 0, w1)"
  shows "\<exists>w2. daemon_main env' args (w1\<lparr>dw_ids := \<lparr>id_uid = 0, id_gid = 0\<rparr>\<rparr>) = Inr (Some 1, w2)"
proof -
  let ?path = "dc_socket_path config" and ?b = "sun_path (dc_socket_path config)"
  have b: "?b \<noteq> ?path" "resolve cwd ?path = ?path" "resolve cwd ?b = ?b" for cwd
    using assms(8,9) by (auto simp: sun_path_def resolve_def hd_take dest: arg_cong [where f = length])
  have bound: "?b \<in> dw_sockets w1" and cwd: "dw_cwd w1 = []"
    using assms(10) daemon_main_runs [OF assms(1,3,4,6,7)] b
    by (auto simp: setup_socket_def unlink_def enter_daemon_def serve_def Let_def split: if_splits prod.splits)
  let ?w = "w1\<lparr>dw_ids := \<lparr>id_uid = 0, id_gid = 0\<rparr>\<rparr>"
  have "fst (setup_socket env' ?path (dc_run_as_uid config) (dc_run_as_gid config) (enter_daemon ?w)) = False"
    using bound b by (simp add: setup_socket_def unlink_def enter_daemon_def Let_def)
  then obtain w2 where "setup_socket env' ?path (dc_run_as_uid config) (dc_run_as_gid config) (enter_daemon ?w) = (False, w2)"
    by (metis prod.collapse)
  then show ?thesis
    using daemon_main_runs [OF assms(2,3), of ?w config] assms(5,6) cwd by simp
qed

subsection \<open>Examples\<close>

text \<open>A system with a user 33 in the configuration; the directories of the socket belong to root.\<close>

definition posix_env :: "bytes option \<Rightarrow> arrival list \<Rightarrow> daemon_env" where
  "posix_env config_text arrivals =
     \<lparr>de_ids = \<lparr>ie_uid = 33, ie_gid = 33, ie_getpwnam = Map.empty, ie_getgrnam = Map.empty\<rparr>,
      de_open = (\<lambda>_. config_text), de_fork = (0, True, 0), de_unlink = (\<lambda>p _. id_uid p = 0), de_socket = True,
      de_bind = (\<lambda>p _. id_uid p = 0), de_chown = (\<lambda>p. id_uid p = 0), de_listen = True,
      de_setgid = posix_setgid, de_setuid = posix_setuid, de_arrivals = arrivals\<rparr>"

definition root_world :: daemon_world where
  "root_world = \<lparr>dw_ids = \<lparr>id_uid = 0, id_gid = 0\<rparr>, dw_cwd = str ''/root'', dw_std_null = False, dw_sockets = {},
     dw_owner = Map.empty, dw_listening = False, dw_answers = []\<rparr>"

lemma good_posix_env: "good_env (posix_env config_text arrivals)"
  by (simp add: good_env_def posix_env_def)


definition long_socket :: bytes where
  "long_socket = c_slash # replicate 120 0x61"

lemma long_socket_config:
  "parse_config ids (Some (setting_line (str ''socket'', long_socket))) = Inr ((default_config ids)\<lparr>dc_socket_path := long_socket\<rparr>)"
proof -
  have "setting_ok (str ''socket'', long_socket)"
    by (simp add: setting_ok_def plain_def is_delim_def long_socket_def byte_simps)
  then have "config_lines ids (concat (map setting_line [(str ''socket'', long_socket)])) (default_config ids)
      = Inr (fold (set_value ids) [(str ''socket'', long_socket)] (default_config ids))"
    by (intro config_lines_settings) simp
  then show ?thesis by (simp add: parse_config_def set_value_def apply_setting_def key_neqs)
qed

lemma long_socket_path_no_restart_witness:
  "\<exists>w1 w2. daemon_main (posix_env (Some (setting_line (str ''socket'', long_socket))) [Interrupted True]) [] root_world = Inr (Some 0, w1) \<and>
     daemon_main (posix_env (Some (setting_line (str ''socket'', long_socket))) []) [] (w1\<lparr>dw_ids := \<lparr>id_uid = 0, id_gid = 0\<rparr>\<rparr>) = Inr (Some 1, w2)"
proof -
  let ?env = "posix_env (Some (setting_line (str ''socket'', long_socket)))"
  let ?config = "(default_config (de_ids (?env [])))\<lparr>dc_socket_path := long_socket\<rparr>"
  have conf: "parse_config (de_ids (?env as)) (de_open (?env as) f) = Inr ?config" for as f
    by (simp add: posix_env_def long_socket_config)
  have args: "daemon_args [] (CONFIG_FILE, False) = Some (CONFIG_FILE, False)" by simp
  have d: "dc_daemonize ?config" "id_uid (dw_ids root_world) = 0" by (simp_all add: default_config_def root_world_def)
  have "\<exists>w1. daemon_main (?env [Interrupted True]) [] root_world = Inr (Some 0, w1)"
    using daemon_main_runs [OF good_posix_env args conf d, of "[Interrupted True]"]
    by (simp add: setup_socket_def unlink_def enter_daemon_def serve_def Let_def root_world_def posix_env_def)
  then obtain w1 where w1: "daemon_main (?env [Interrupted True]) [] root_world = Inr (Some 0, w1)" by blast
  have "\<exists>w2. daemon_main (?env []) [] (w1\<lparr>dw_ids := \<lparr>id_uid = 0, id_gid = 0\<rparr>\<rparr>) = Inr (Some 1, w2)"
    by (rule long_socket_path_no_restart [OF good_posix_env good_posix_env args conf conf d _ _ w1])
      (simp_all add: long_socket_def)
  with w1 show ?thesis by blast
qed

end
