(* ===== verification/Telehack.thy ===== *)
theory Telehack
  imports CStd
begin

text \<open>
  HW_11_Telehack: the client that asks a telnet service for a text in large letters. What the
  resolver, the connection and the socket yield are parameters.
\<close>

definition MAX_READ :: nat where "MAX_READ = 1500"
definition MAX_COMMAND_LENGTH :: nat where "MAX_COMMAND_LENGTH = 256"
definition TELNET_BUFFER :: nat where "TELNET_BUFFER = 4096"
definition MORE_FULL :: bytes where "MORE_FULL = str ''--More--(100''"
definition MORE_PATTERN :: bytes where "MORE_PATTERN = str ''--More--''"
definition MORE_COMMAND :: bytes where "MORE_COMMAND = [c_cr, c_nl]"

text \<open>A read with its time limit: data, of which at most the buffer's size less one, silence or an error.\<close>

datatype reading = Got bytes | Silence | Read_error

text \<open>What \<open>select\<close> and then \<open>recv\<close> answer; the end of the connection reads like silence.\<close>

datatype select_answer = Select_failed | Select_timeout | Select_ready "bytes option"

definition read_with_timeout :: "nat \<Rightarrow> select_answer \<Rightarrow> reading" where
  "read_with_timeout n answer =
     (case answer of
        Select_failed \<Rightarrow> Read_error
      | Select_timeout \<Rightarrow> Silence
      | Select_ready None \<Rightarrow> Read_error
      | Select_ready (Some bs) \<Rightarrow> if take (n - 1) bs = [] then Silence else Got (take (n - 1) bs))"

subsection \<open>The connection\<close>

record tel_sys =
  ts_gethostbyname :: "bytes \<Rightarrow> bytes list option"
  ts_socket :: bool
  ts_connect :: "bytes \<Rightarrow> u16 \<Rightarrow> bool"

text \<open>
  The first address of the host; whether a socket was opened, and whether it is still open. The time
  limits on the socket may fail without an effect on what follows.
\<close>

definition connect_to_server :: "tel_sys \<Rightarrow> bytes \<Rightarrow> nat \<Rightarrow> (bytes \<times> u16) option \<times> bool" where
  "connect_to_server sys hostname port =
     (case ts_gethostbyname sys hostname of
        None \<Rightarrow> (None, False)
      | Some addrs \<Rightarrow>
          if \<not> ts_socket sys then (None, False)
          else
            case addrs of
              [] \<Rightarrow> (None, False)
            | addr # _ \<Rightarrow>
                if \<not> ts_connect sys addr (word_of_nat port) then (None, False)
                else (Some (addr, word_of_nat port), True))"

definition TELNET_PORT :: nat where "TELNET_PORT = 23"

subsection \<open>The conversation\<close>

text \<open>The banner is read until the prompt, or until it is too long; what follows is left to be read.\<close>

fun skip_banner :: "reading list \<Rightarrow> nat \<Rightarrow> reading list" where
  "skip_banner [] total_read = []"
| "skip_banner (Got bs # rest) total_read =
     (let total_read = total_read + length bs in
      if strstr (cstr bs) [c_nl, c_cr, c_dot] \<noteq> None then rest
      else if MAX_READ < total_read then rest
      else skip_banner rest total_read)"
| "skip_banner (Silence # rest) total_read = rest"
| "skip_banner (Read_error # rest) total_read = rest"

definition figlet_command :: "bytes \<Rightarrow> bytes \<Rightarrow> bytes" where
  "figlet_command font chars =
     snprintf TELNET_BUFFER (str ''figlet /'' @ font @ str '' '' @ chars @ [c_cr, c_nl])"

text \<open>
  The loop over the answer: the echo still to come, what has been printed, how often more was asked
  for, whether a part without \<open>--More--\<close> was seen; the result is whether the last read failed.
\<close>

record art =
  art_printed :: bytes
  art_asked :: nat
  art_result_printed :: bool

fun art_loop :: "reading list \<Rightarrow> nat \<Rightarrow> art \<Rightarrow> art \<times> bool" where
  "art_loop [] command_length a = (a, False)"
| "art_loop (Silence # rest) command_length a = (a, False)"
| "art_loop (Read_error # rest) command_length a = (a, True)"
| "art_loop (Got bs # rest) command_length a =
     (if bs = [] then (a, False)
      else if strstr (cstr bs) MORE_FULL \<noteq> None then (a, False)
      else
        let shown = (if command_length \<noteq> 0 \<and> command_length < length bs then cstr (drop command_length bs)
                     else if command_length \<noteq> 0 then [] else cstr bs);
            left = (if command_length \<noteq> 0 \<and> command_length < length bs then 0
                    else command_length - length bs);
            a = a\<lparr>art_printed := art_printed a @ shown\<rparr>
        in if strstr (cstr bs) MORE_PATTERN = None
           then art_loop rest left (a\<lparr>art_result_printed := True\<rparr>)
           else art_loop rest left (a\<lparr>art_asked := art_asked a + 1\<rparr>))"

text \<open>What is sent first, what is printed, and the result.\<close>

definition send_figlet_command :: "bool \<Rightarrow> reading list \<Rightarrow> bytes \<Rightarrow> bytes \<Rightarrow> bytes \<times> bytes \<times> int" where
  "send_figlet_command send_ok readings font chars =
     (let command = figlet_command font chars;
          command_length = min (length command) MAX_COMMAND_LENGTH in
      if \<not> send_ok then (command, [], - 1)
      else
        case art_loop readings command_length \<lparr>art_printed = [], art_asked = 0, art_result_printed = False\<rparr> of
          (a, failed) \<Rightarrow>
            (command, art_printed a @ [c_cr, c_nl],
             if failed then - 1 else if \<not> art_result_printed a then - 1 else 0))"

definition telehack_main :: "tel_sys \<Rightarrow> bytes list \<Rightarrow> bool \<Rightarrow> select_answer list \<Rightarrow> int \<times> bytes" where
  "telehack_main sys argv send_ok answers =
     (if length argv \<noteq> 3 then (1, [])
      else
        case connect_to_server sys (str ''telehack.com'') TELNET_PORT of
          (None, _) \<Rightarrow> (1, [])
        | (Some _, _) \<Rightarrow>
            let readings = List.map (read_with_timeout TELNET_BUFFER) answers in
            case send_figlet_command send_ok (skip_banner readings 0) (argv ! 1) (argv ! 2) of
              (_, printed, result) \<Rightarrow> (if result = 0 then 0 else 1, printed))"

lemma no_connection:
  "connect_to_server sys host port = (None, open) \<Longrightarrow> \<not> open"
  by (auto simp: connect_to_server_def split: option.splits if_splits list.splits)

text \<open>
  The text that comes in one read with the mark of the last page is dropped: the mark is looked for
  first, and nothing of such a read is printed.
\<close>

lemma last_page_dropped:
  assumes "c_nul \<notin> set page"
  shows "art_loop (Got (page @ MORE_FULL @ rest) # readings) n a = (a, False)"
proof -
  have "strstr MORE_FULL MORE_FULL \<noteq> None" by (simp add: strstr.simps MORE_FULL_def byte_simps)
  then have "strstr (page @ MORE_FULL) MORE_FULL \<noteq> None" by (induction page) (simp_all add: strstr.simps)
  moreover have "cstr (page @ MORE_FULL @ rest) = (page @ MORE_FULL) @ cstr rest"
  proof -
    have "\<forall>c\<in>set (page @ MORE_FULL). c \<noteq> c_nul" using assms by (auto simp: MORE_FULL_def byte_simps)
    then show ?thesis unfolding cstr_def append_assoc [symmetric] by (subst takeWhile_append2) auto
  qed
  ultimately have "strstr (cstr (page @ MORE_FULL @ rest)) MORE_FULL \<noteq> None"
    using strstr_append [of "page @ MORE_FULL" MORE_FULL _ "cstr rest"] by (metis not_None_eq)
  moreover have "page @ MORE_FULL @ rest \<noteq> []" by (simp add: MORE_FULL_def byte_simps)
  ultimately show ?thesis by simp
qed

text \<open>
  The echo of the command is left out and the rest printed, however both are split over the reads,
  as long as no read shows a page break.
\<close>

definition no_break :: "bytes \<Rightarrow> bool" where
  "no_break bs \<longleftrightarrow> bs \<noteq> [] \<and> c_nul \<notin> set bs \<and> strstr bs MORE_PATTERN = None \<and> strstr bs MORE_FULL = None"

lemma art_loop_echo:
  assumes "\<forall>bs\<in>set parts. no_break bs"
  shows "art_loop (map Got parts @ [Silence]) n a =
    (a\<lparr>art_printed := art_printed a @ drop n (concat parts),
       art_result_printed := (art_result_printed a \<or> parts \<noteq> [])\<rparr>, False)"
  using assms
proof (induction parts arbitrary: n a)
  case (Cons bs parts)
  then have b: "bs \<noteq> []" "cstr bs = bs" "strstr bs MORE_PATTERN = None" "strstr bs MORE_FULL = None"
    by (auto simp: no_break_def cstr_id)
  have d: "cstr (drop n bs) = drop n bs"
    using Cons.prems by (intro cstr_id) (auto simp: no_break_def dest: in_set_dropD)
  show ?case
    using Cons.IH Cons.prems b d by (auto simp: Let_def)
qed simp

text \<open>
  when the service echoes the command and then sends a text that fits the screen, exactly that
  text is printed, however the echo and the text are split over the reads.
\<close>

theorem figlet_prints_answer:
  assumes "\<forall>bs\<in>set parts. no_break bs" and "length (figlet_command font chars) \<le> MAX_COMMAND_LENGTH"
    and "concat parts = figlet_command font chars @ answer"
  shows "send_figlet_command True (map Got parts @ [Silence]) font chars
    = (figlet_command font chars, answer @ [c_cr, c_nl], 0)"
proof -
  have "figlet_command font chars \<noteq> []"
    by (simp add: figlet_command_def snprintf_def TELNET_BUFFER_def str_def)
  then have "parts \<noteq> []" using assms(3) by auto
  with assms show ?thesis by (simp add: send_figlet_command_def art_loop_echo min_def)
qed

lemma figlet_prints_answer_witness:
  "send_figlet_command True [Got (str ''figlet /a ''), Got (str ''b'' @ [c_cr, c_nl, 0x23]), Got [0x23], Silence] (str ''a'') (str ''b'')
    = (figlet_command (str ''a'') (str ''b''), [0x23, 0x23] @ [c_cr, c_nl], 0)"
proof -
  let ?parts = "[str ''figlet /a '', str ''b'' @ [c_cr, c_nl, 0x23], [0x23]]"
  have c: "figlet_command (str ''a'') (str ''b'') = str ''figlet /a b'' @ [c_cr, c_nl]"
    by (simp add: figlet_command_def snprintf_def TELNET_BUFFER_def byte_simps)
  have "\<forall>bs\<in>set ?parts. no_break bs"
    by (simp add: no_break_def byte_simps strstr.simps MORE_PATTERN_def MORE_FULL_def)
  moreover have "length (figlet_command (str ''a'') (str ''b'')) \<le> MAX_COMMAND_LENGTH"
    by (simp only: c) (simp add: MAX_COMMAND_LENGTH_def)
  moreover have "concat ?parts = figlet_command (str ''a'') (str ''b'') @ [0x23, 0x23]"
    by (simp only: c) (simp add: byte_simps)
  ultimately have "send_figlet_command True (map Got ?parts @ [Silence]) (str ''a'') (str ''b'')
      = (figlet_command (str ''a'') (str ''b''), [0x23, 0x23] @ [c_cr, c_nl], 0)"
    by (rule figlet_prints_answer)
  then show ?thesis by simp
qed

end
