(* ===== verification/LinkedList.thy ===== *)
theory LinkedList
  imports CStd
begin

text \<open>
  HW_03-Assembler: the C version of the list program. The nodes live in a heap of cells, so that what
  is shared and what is freed can be told.
\<close>

subsection \<open>The heap\<close>

record list_t =
  l_value :: int
  l_next :: "nat option"

text \<open>The live cells and the next address; \<open>malloc\<close> succeeds, as the program aborts otherwise.\<close>

record heap =
  h_cells :: "nat \<Rightarrow> list_t option"
  h_fresh :: nat

definition add_element :: "nat option \<Rightarrow> int \<Rightarrow> heap \<Rightarrow> nat option \<times> heap" where
  "add_element nxt v h =
     (Some (h_fresh h),
      \<lparr>h_cells = (h_cells h)(h_fresh h \<mapsto> \<lparr>l_value = v, l_next = nxt\<rparr>), h_fresh = h_fresh h + 1\<rparr>)"

text \<open>
  The recursive functions follow the list; the first argument bounds the recursion and is the number
  of cells, which every list stays below. A cell that is not live is a fault.
\<close>

fun filter_f :: "nat \<Rightarrow> nat option \<Rightarrow> nat option \<Rightarrow> (int \<Rightarrow> int) \<Rightarrow> heap \<Rightarrow> (nat option \<times> heap) option" where
  "filter_f 0 list store func h = None"
| "filter_f (Suc fuel) list store func h =
     (case list of
        None \<Rightarrow> Some (store, h)
      | Some a \<Rightarrow>
          (case h_cells h a of
             None \<Rightarrow> None
           | Some node \<Rightarrow>
               (case (if func (l_value node) \<noteq> 0 then add_element store (l_value node) h else (store, h)) of
                  (store, h) \<Rightarrow> filter_f fuel (l_next node) store func h)))"

text \<open>What the function prints for every element is collected.\<close>

fun map_m :: "nat \<Rightarrow> nat option \<Rightarrow> (int \<Rightarrow> bytes) \<Rightarrow> heap \<Rightarrow> bytes option" where
  "map_m 0 list func h = None"
| "map_m (Suc fuel) list func h =
     (case list of
        None \<Rightarrow> Some []
      | Some a \<Rightarrow>
          (case h_cells h a of
             None \<Rightarrow> None
           | Some node \<Rightarrow> map_option (\<lambda>rest. func (l_value node) @ rest) (map_m fuel (l_next node) func h)))"

fun free_list :: "nat \<Rightarrow> nat option \<Rightarrow> heap \<Rightarrow> heap option" where
  "free_list 0 list h = None"
| "free_list (Suc fuel) list h =
     (case list of
        None \<Rightarrow> Some h
      | Some a \<Rightarrow>
          (case h_cells h a of
             None \<Rightarrow> None
           | Some node \<Rightarrow>
               (case free_list fuel (l_next node) h of
                  None \<Rightarrow> None
                | Some h \<Rightarrow> Some (h\<lparr>h_cells := (h_cells h)(a := None)\<rparr>))))"

definition print_int :: "int \<Rightarrow> bytes" where
  "print_int v = show_int v @ [c_space]"

definition parity_p :: "int \<Rightarrow> int" where
  "parity_p a = a AND 1"

definition list_data :: "int list" where
  "list_data = [4, 8, 15, 16, 23, 42]"

definition empty_heap :: heap where
  "empty_heap = \<lparr>h_cells = (\<lambda>_. None), h_fresh = 0\<rparr>"

text \<open>The program: what it prints and the heap it leaves.\<close>

definition list_main :: "(bytes \<times> heap) option" where
  "list_main =
     (let bound = 2 * length list_data + 1;
          (list, h) = foldr (\<lambda>v (list, h). add_element list v h) list_data (None, empty_heap) in
      case map_m bound list print_int h of
        None \<Rightarrow> None
      | Some all \<Rightarrow>
          (case filter_f bound list None parity_p h of
             None \<Rightarrow> None
           | Some (filtered, h) \<Rightarrow>
               (case map_m bound filtered print_int h of
                  None \<Rightarrow> None
                | Some odd_ones \<Rightarrow>
                    (case free_list bound list h of
                       None \<Rightarrow> None
                     | Some h \<Rightarrow>
                         (case free_list bound filtered h of
                            None \<Rightarrow> None
                          | Some h \<Rightarrow> Some (all @ [c_nl] @ odd_ones @ [c_nl], h))))))"

subsection \<open>Lists in the heap\<close>

text \<open>The values from a pointer on and the cells they are in.\<close>

fun is_list :: "heap \<Rightarrow> nat option \<Rightarrow> nat list \<Rightarrow> int list \<Rightarrow> bool" where
  "is_list h list [] vs \<longleftrightarrow> list = None \<and> vs = []"
| "is_list h list (a # as) vs \<longleftrightarrow>
     list = Some a \<and> a < h_fresh h \<and> a \<notin> set as \<and>
     (\<exists>node vs'. h_cells h a = Some node \<and> vs = l_value node # vs' \<and> is_list h (l_next node) as vs')"

lemma is_list_length: "is_list h list as vs \<Longrightarrow> length vs = length as"
  by (induction as arbitrary: list vs) auto

lemma is_list_fresh: "is_list h list as vs \<Longrightarrow> \<forall>a\<in>set as. a < h_fresh h"
  by (induction as arbitrary: list vs) auto

lemma is_list_cong:
  assumes "is_list h list as vs" and "\<forall>a\<in>set as. h_cells h' a = h_cells h a" and "h_fresh h \<le> h_fresh h'"
  shows "is_list h' list as vs"
  using assms by (induction as arbitrary: list vs) fastforce+

lemma add_element_list:
  assumes "is_list h list as vs"
  shows "is_list (snd (add_element list v h)) (fst (add_element list v h)) (h_fresh h # as) (v # vs)"
proof -
  have "\<forall>a\<in>set as. a \<noteq> h_fresh h" using is_list_fresh [OF assms] by auto
  then show ?thesis
    using is_list_cong [OF assms, of "snd (add_element list v h)"] by (auto simp: add_element_def)
qed

lemma add_element_other:
  assumes "is_list h list as vs"
  shows "is_list (snd (add_element l v h)) list as vs"
  using is_list_fresh [OF assms] by (intro is_list_cong [OF assms]) (auto simp: add_element_def)

text \<open>A heap that has grown keeps its lists.\<close>

definition grown :: "heap \<Rightarrow> heap \<Rightarrow> bool" where
  "grown h h' \<longleftrightarrow> h_fresh h \<le> h_fresh h' \<and> (\<forall>a<h_fresh h. h_cells h' a = h_cells h a)"

lemma grown_list: "grown h h' \<Longrightarrow> is_list h list as vs \<Longrightarrow> is_list h' list as vs"
  using is_list_fresh [of h list as vs] by (auto simp: grown_def intro: is_list_cong)

lemma grown_add: "grown h (snd (add_element l v h))"
  by (simp add: grown_def add_element_def)

lemma grown_trans: "grown h h1 \<Longrightarrow> grown h1 h2 \<Longrightarrow> grown h h2"
  by (auto simp: grown_def)

lemma grown_refl: "grown h h"
  by (simp add: grown_def)

text \<open>The filter turns the order round: it puts what it keeps in front of what it has kept.\<close>

lemma filter_f_reverses:
  assumes "is_list h list as vs" and "is_list h store bs ws" and "length as < fuel"
  shows "\<exists>store' h' bs'. filter_f fuel list store func h = Some (store', h')
    \<and> is_list h' store' bs' (rev (filter (\<lambda>v. func v \<noteq> 0) vs) @ ws) \<and> grown h h'"
  using assms
proof (induction as arbitrary: list vs store bs ws fuel h)
  case Nil
  then show ?case by (cases fuel) (auto simp: grown_refl)
next
  case (Cons a as)
  then obtain fuel' where fuel: "fuel = Suc fuel'" "length as < fuel'" by (cases fuel) auto
  from Cons.prems(1) obtain node vs' where n: "list = Some a" "h_cells h a = Some node" "vs = l_value node # vs'"
      "is_list h (l_next node) as vs'"
    by auto
  obtain store1 h1 where e: "(if func (l_value node) \<noteq> 0 then add_element store (l_value node) h else (store, h)) = (store1, h1)"
    by force
  have g: "grown h h1" using e grown_add [of h store "l_value node"] by (auto simp: grown_refl split: if_splits)
  have "\<exists>bs1. is_list h1 store1 bs1 ((if func (l_value node) \<noteq> 0 then [l_value node] else []) @ ws)"
  proof (cases "func (l_value node) = 0")
    case True
    with e Cons.prems(2) show ?thesis by auto
  next
    case False
    with e add_element_list [OF Cons.prems(2), of "l_value node"]
    have "is_list h1 store1 (h_fresh h # bs) (l_value node # ws)" by (simp del: is_list.simps)
    with False show ?thesis by (intro exI [of _ "h_fresh h # bs"]) (simp del: is_list.simps)
  qed
  then obtain bs1 where s1: "is_list h1 store1 bs1 ((if func (l_value node) \<noteq> 0 then [l_value node] else []) @ ws)" ..
  from Cons.IH [OF grown_list [OF g n(4)] s1 fuel(2)] obtain store' h' bs' where
    r: "filter_f fuel' (l_next node) store1 func h1 = Some (store', h')"
      "is_list h' store' bs' (rev (filter (\<lambda>v. func v \<noteq> 0) vs') @ (if func (l_value node) \<noteq> 0 then [l_value node] else []) @ ws)"
      "grown h1 h'"
    by blast
  have "filter_f fuel list store func h = Some (store', h')" using fuel(1) n(1,2) e r(1) by simp
  moreover have "rev (filter (\<lambda>v. func v \<noteq> 0) vs') @ (if func (l_value node) \<noteq> 0 then [l_value node] else []) @ ws
      = rev (filter (\<lambda>v. func v \<noteq> 0) vs) @ ws"
    by (simp add: n(3))
  ultimately show ?case using r(2,3) grown_trans [OF g] by metis
qed

lemma map_m_collects:
  "is_list h list as vs \<Longrightarrow> length as < fuel \<Longrightarrow> map_m fuel list func h = Some (concat (map func vs))"
proof (induction as arbitrary: list vs fuel)
  case Nil
  then show ?case by (cases fuel) auto
next
  case (Cons a as)
  then obtain fuel' where "fuel = Suc fuel'" "length as < fuel'" by (cases fuel) auto
  with Cons show ?case by auto
qed

text \<open>Freeing a list frees its cells, each once, and no other.\<close>

lemma free_list_frees:
  "is_list h list as vs \<Longrightarrow> length as < fuel \<Longrightarrow>
    free_list fuel list h = Some (h\<lparr>h_cells := (\<lambda>a. if a \<in> set as then None else h_cells h a)\<rparr>)"
proof (induction as arbitrary: list vs fuel)
  case Nil
  then show ?case by (cases fuel) auto
next
  case (Cons a as)
  then obtain fuel' where "fuel = Suc fuel'" "length as < fuel'" by (cases fuel) auto
  with Cons show ?case by (auto simp: fun_eq_iff)
qed

text \<open>
  the program prints its six numbers and then the odd ones among them in reverse order, and
  frees every cell of both lists exactly once.
\<close>

theorem list_main_output:
  "\<exists>h. list_main = Some (str ''4 8 15 16 23 42 '' @ [c_nl] @ str ''23 15 '' @ [c_nl], h) \<and> h_cells h = (\<lambda>_. None)"
proof -
  have bound: "2 * length list_data + 1 = Suc (Suc (Suc (Suc (Suc (Suc (Suc (Suc (Suc (Suc (Suc (Suc (Suc 0))))))))))))"
    by (simp add: list_data_def)
  have digits: "print_int 4 = str ''4 ''" "print_int 8 = str ''8 ''" "print_int 15 = str ''15 ''" "print_int 16 = str ''16 ''"
      "print_int 23 = str ''23 ''" "print_int 42 = str ''42 ''"
    by (simp_all add: print_int_def show_int_def show_dec_def show_base.simps digit_def byte_simps)
  have odd: "parity_p 4 = 0" "parity_p 8 = 0" "parity_p 15 = 1" "parity_p 16 = 0" "parity_p 23 = 1" "parity_p 42 = 0"
    by (simp_all add: parity_p_def)
  show ?thesis
    unfolding list_main_def bound
    by (simp add: list_data_def empty_heap_def add_element_def digits odd byte_simps Let_def)
qed

end
