(* ===== verification/Weather.thy ===== *)
theory Weather
  imports CStd
begin

text \<open>
  HW_02-Weather: the client of a weather service. libcurl and cJSON are parameters: what the transfer
  hands to the callback, whether it succeeds, and the parser and accessors of JSON values.
\<close>

subsection \<open>The request\<close>

definition isalpha :: "u8 \<Rightarrow> bool" where
  "isalpha c \<longleftrightarrow> 0x41 \<le> c \<and> c \<le> 0x5A \<or> 0x61 \<le> c \<and> c \<le> 0x7A"

fun name_is_ok :: "bytes \<Rightarrow> bool" where
  "name_is_ok [] = True"
| "name_is_ok (c # rest) = (if isalpha c then name_is_ok rest else False)"

lemma name_is_ok_iff: "name_is_ok s \<longleftrightarrow> (\<forall>c\<in>set s. isalpha c)"
  by (induction s) auto

definition URL_LEN :: nat where "URL_LEN = 256"

text \<open>The url is put together in 256 bytes.\<close>

definition weather_url :: "bytes \<Rightarrow> ub + bytes" where
  "weather_url name =
     (let url = str ''https://wttr.in/'' @ name @ str ''?format=j2''
      in if length url < URL_LEN then Inr url else Inl Ub_OobWrite)"

subsection \<open>The answer\<close>

record response_t =
  rs_memory :: bytes
  rs_size :: nat

text \<open>The memory is what has been stored in it; the first byte of the initial block is not.\<close>

definition response_init :: response_t where
  "response_init = \<lparr>rs_memory = [], rs_size = 0\<rparr>"

text \<open>A block is appended with a terminating zero, when there is memory; the result is what was taken.\<close>

definition mem_cb :: "bool \<Rightarrow> bytes \<Rightarrow> response_t \<Rightarrow> nat \<times> response_t" where
  "mem_cb mem_ok contents mem =
     (if \<not> mem_ok then (0, mem)
      else (length contents,
            \<lparr>rs_memory = take (rs_size mem) (rs_memory mem) @ contents @ [c_nul],
             rs_size = rs_size mem + length contents\<rparr>))"

definition receive :: "bytes list \<Rightarrow> response_t" where
  "receive blocks = fold (\<lambda>b mem. snd (mem_cb True b mem)) blocks response_init"

subsection \<open>The report\<close>

text \<open>What is used of cJSON on its values.\<close>

record 'j json_api =
  js_object_item :: "'j \<Rightarrow> bytes \<Rightarrow> 'j option"
  js_is_array :: "'j \<Rightarrow> bool"
  js_array_item :: "'j \<Rightarrow> nat \<Rightarrow> 'j option"
  js_string :: "'j \<Rightarrow> bytes option"

text \<open>The first element of the array that an object has under a name.\<close>

definition first_of :: "'j json_api \<Rightarrow> 'j \<Rightarrow> bytes \<Rightarrow> 'j option" where
  "first_of api j key =
     (case js_object_item api j key of
        None \<Rightarrow> None
      | Some a \<Rightarrow> if js_is_array api a then js_array_item api a 0 else None)"

definition string_of :: "'j json_api \<Rightarrow> 'j \<Rightarrow> bytes \<Rightarrow> bytes option" where
  "string_of api j key = (case js_object_item api j key of None \<Rightarrow> None | Some v \<Rightarrow> js_string api v)"

definition print_value :: "bytes \<Rightarrow> bytes option \<Rightarrow> bytes" where
  "print_value label v = (case v of None \<Rightarrow> [] | Some s \<Rightarrow> label @ str '': '' @ s @ [c_nl])"

definition print_weather_info :: "'j json_api \<Rightarrow> 'j \<Rightarrow> bytes" where
  "print_weather_info api root =
     (case first_of api root (str ''nearest_area'') of
        None \<Rightarrow> []
      | Some area \<Rightarrow>
          (case first_of api area (str ''region'') of
             None \<Rightarrow> []
           | Some city \<Rightarrow> print_value (str ''Location'') (string_of api city (str ''value''))))
     @ (case first_of api root (str ''current_condition'') of
          None \<Rightarrow> []
        | Some condition \<Rightarrow>
            (case first_of api condition (str ''weatherDesc'') of
               None \<Rightarrow> []
             | Some desc \<Rightarrow> print_value (str ''Weather description'') (string_of api desc (str ''value'')))
            @ print_value (str ''Wind speed'') (string_of api condition (str ''windspeedKmph''))
            @ print_value (str ''Wind degree'') (string_of api condition (str ''winddirDegree''))
            @ print_value (str ''Current temp'') (string_of api condition (str ''temp_C'')))
     @ (case first_of api root (str ''weather'') of
          None \<Rightarrow> []
        | Some today \<Rightarrow>
            print_value (str ''Min temp'') (string_of api today (str ''mintempC''))
            @ print_value (str ''Max temp'') (string_of api today (str ''maxtempC'')))"

text \<open>
  The program: the exit code and the standard output. A transfer that succeeds without a block leaves
  the memory as \<open>malloc\<close> gave it, which the parser then reads.
\<close>

definition weather_main ::
    "'j json_api \<Rightarrow> (bytes \<Rightarrow> 'j option) \<Rightarrow> bytes list \<Rightarrow> int \<Rightarrow> bool \<Rightarrow> bytes list option \<Rightarrow> ub + int \<times> bytes" where
  "weather_main api parse argv global_init handle transfer =
     (if length argv \<noteq> 2 then Inr (1, str ''USAGE: '' @ argv ! 0 @ str '' <City name>'' @ [c_nl])
      else if \<not> name_is_ok (argv ! 1)
      then Inr (1, str ''Wrong name! Use only latin letters.'' @ [c_nl])
      else case weather_url (argv ! 1) of
        Inl u \<Rightarrow> Inl u
      | Inr url \<Rightarrow>
          let shown = str ''URL: '' @ url @ [c_nl] in
          if global_init \<noteq> 0 then Inr (global_init, shown)
          else if \<not> handle then Inr (0, shown)
          else case transfer of
            None \<Rightarrow> Inr (0, shown @ str ''Network error, check the connection.'' @ [c_nl])
          | Some blocks \<Rightarrow>
              if blocks = [] then Inl Ub_Uninit
              else
                (case parse (cstr (rs_memory (receive blocks))) of
                   None \<Rightarrow> Inr (0, shown)
                 | Some root \<Rightarrow> Inr (0, shown @ print_weather_info api root)))"

subsection \<open>Properties\<close>

text \<open>The blocks are put together whole, with the terminating zero behind them.\<close>

lemma receive_blocks: "blocks \<noteq> [] \<Longrightarrow> receive blocks = \<lparr>rs_memory = concat blocks @ [c_nul], rs_size = length (concat blocks)\<rparr>"
proof -
  have "fold (\<lambda>b mem. snd (mem_cb True b mem)) blocks \<lparr>rs_memory = xs @ zs, rs_size = length xs\<rparr>
      = \<lparr>rs_memory = xs @ concat blocks @ (if blocks = [] then zs else [c_nul]), rs_size = length (xs @ concat blocks)\<rparr>"
    for xs zs
  proof (induction blocks arbitrary: xs zs)
    case (Cons b blocks)
    have "snd (mem_cb True b \<lparr>rs_memory = xs @ zs, rs_size = length xs\<rparr>)
        = \<lparr>rs_memory = (xs @ b) @ [c_nul], rs_size = length (xs @ b)\<rparr>"
      by (simp add: mem_cb_def)
    with Cons.IH [of "xs @ b" "[c_nul]"] show ?case by simp
  qed simp
  from this [of "[]" "[]"] show "blocks \<noteq> [] \<Longrightarrow> ?thesis" by (simp add: receive_def response_init_def)
qed

text \<open>Names of more than 229 letters overflow the url.\<close>

lemma weather_url_overflow: "weather_url name = Inl Ub_OobWrite \<longleftrightarrow> 229 < length name"
  by (auto simp: weather_url_def URL_LEN_def Let_def)

end
