(* ===== verification/DbStats.thy ===== *)
theory DbStats
  imports Float64
begin

text \<open>
  HW_15-Databases: the statistics of a column, in sqlite_job.c and, for SQLite and MongoDB, in
  test_db_job.c. SQLite and the MongoDB driver are parameters: what their calls answer, the rows and
  the documents. The report is the values handed to \<open>printf\<close>; messages are left out.
\<close>

subsection \<open>Numbers\<close>

text \<open>
  The spaces behind the number are skipped before the test that something was read at all.
\<close>

definition is_numeric :: "bytes option \<Rightarrow> double option" where
  "is_numeric s =
     (case s of
        None \<Rightarrow> None
      | Some bs \<Rightarrow>
          let text = cstr bs in
          if text = [] then None
          else
            let (val, n, erange) = strtod text;
                endptr = n + length (takeWhile isspace (drop n text)) in
            if erange then None
            else if endptr \<noteq> 0 \<and> endptr = length text then Some val
            else None)"

subsection \<open>Statistics\<close>

record Statistics =
  st_count :: nat
  st_sum :: double
  st_sum_sq :: double
  st_min_val :: double
  st_max_val :: double

definition stats_init :: Statistics where
  "stats_init = \<lparr>st_count = 0, st_sum = Fin 0, st_sum_sq = Fin 0, st_min_val = Inf False, st_max_val = Inf True\<rparr>"

definition stats_update :: "Statistics \<Rightarrow> double \<Rightarrow> Statistics" where
  "stats_update stats val =
     \<lparr>st_count = st_count stats + 1,
      st_sum = d_add (st_sum stats) val,
      st_sum_sq = d_add (st_sum_sq stats) (d_mul val val),
      st_min_val =
        (if st_count stats = 0 then val else if d_less val (st_min_val stats) then val else st_min_val stats),
      st_max_val =
        (if st_count stats = 0 then val else if d_less (st_max_val stats) val then val else st_max_val stats)\<rparr>"

record report =
  rp_count :: nat
  rp_sum :: double
  rp_min :: double
  rp_max :: double
  rp_mean :: double
  rp_variance :: double

definition stats_print :: "Statistics \<Rightarrow> report option" where
  "stats_print stats =
     (if st_count stats = 0 then None
      else
        let mean = d_div_count (st_sum stats) (st_count stats);
            variance = d_sub (d_div_count (st_sum_sq stats) (st_count stats)) (d_mul mean mean) in
        Some \<lparr>rp_count = st_count stats, rp_sum = st_sum stats, rp_min = st_min_val stats,
          rp_max = st_max_val stats, rp_mean = mean, rp_variance = variance\<rparr>)"

subsection \<open>SQLite\<close>

text \<open>What the calls answer; the rows of the query as the texts of the column, and how it ends.\<close>

record sqlite =
  sq_open :: bool
  sq_mprintf :: bool
  sq_prepare :: bool
  sq_rows :: "bytes option list"
  sq_done :: bool

datatype handle = H_db | H_query | H_stmt

fun read_rows :: "bytes option list \<Rightarrow> Statistics \<Rightarrow> Statistics option" where
  "read_rows [] stats = Some stats"
| "read_rows (text # rows) stats =
     (case is_numeric text of
        None \<Rightarrow> None
      | Some val \<Rightarrow> read_rows rows (stats_update stats val))"

text \<open>sqlite_job.c: the exit code, the report, and what has not been released.\<close>

definition sqlite_job :: "sqlite \<Rightarrow> bytes list \<Rightarrow> int \<times> report option \<times> handle list" where
  "sqlite_job sq args =
     (if length args \<noteq> 4 then (1, None, [])
      else if \<not> sq_open sq then (1, None, remove1 H_db [H_db])
      else if \<not> sq_mprintf sq then (1, None, remove1 H_db [H_db])
      else
        let live = [H_db, H_query] in
        if \<not> sq_prepare sq then (1, None, remove1 H_db (remove1 H_query live))
        else
          let live = H_stmt # remove1 H_query live in
          case read_rows (sq_rows sq) stats_init of
            None \<Rightarrow> (1, None, remove1 H_db (remove1 H_stmt live))
          | Some stats \<Rightarrow>
              if \<not> sq_done sq then (1, None, remove1 H_db (remove1 H_stmt live))
              else
                let live = remove1 H_stmt live in
                if st_count stats = 0 then (1, None, remove1 H_db live)
                else (0, stats_print stats, remove1 H_db live))"

text \<open>test_db_job.c: here a column without rows is a success.\<close>

definition process_sqlite :: "sqlite \<Rightarrow> int \<times> report option \<times> handle list" where
  "process_sqlite sq =
     (if \<not> sq_open sq then (1, None, remove1 H_db [H_db])
      else if \<not> sq_mprintf sq then (1, None, remove1 H_db [H_db])
      else
        let live = [H_db, H_query] in
        if \<not> sq_prepare sq then (1, None, remove1 H_db (remove1 H_query live))
        else
          let live = H_stmt # remove1 H_query live in
          case read_rows (sq_rows sq) stats_init of
            None \<Rightarrow> (1, None, remove1 H_db (remove1 H_stmt live))
          | Some stats \<Rightarrow>
              if \<not> sq_done sq then (1, None, remove1 H_db (remove1 H_stmt live))
              else (0, stats_print stats, remove1 H_db (remove1 H_stmt live)))"

subsection \<open>MongoDB\<close>

datatype bson =
    Int32 int
  | Int64 int
  | Double double
  | Utf8 bytes
  | Bson_null
  | Bson_bool bool
  | Bson_array
  | Bson_document
  | Bson_other

text \<open>A document is the map of its fields; the cursor yields documents and then perhaps an error.\<close>

record mongo =
  mg_client :: bool
  mg_collection :: bool
  mg_docs :: "(bytes \<Rightarrow> bson option) list"
  mg_error :: bool

datatype mongo_handle = M_library | M_client | M_collection | M_query | M_cursor

fun read_docs :: "bytes \<Rightarrow> (bytes \<Rightarrow> bson option) list \<Rightarrow> Statistics \<Rightarrow> Statistics option" where
  "read_docs field_name [] stats = Some stats"
| "read_docs field_name (doc # docs) stats =
     (case doc field_name of
        None \<Rightarrow> None
      | Some (Int32 n) \<Rightarrow> read_docs field_name docs (stats_update stats (round_double (of_int n)))
      | Some (Int64 n) \<Rightarrow> read_docs field_name docs (stats_update stats (round_double (of_int n)))
      | Some (Double v) \<Rightarrow> read_docs field_name docs (stats_update stats v)
      | Some (Utf8 s) \<Rightarrow>
          (case is_numeric (Some s) of
             None \<Rightarrow> None
           | Some val \<Rightarrow> read_docs field_name docs (stats_update stats val))
      | Some _ \<Rightarrow> read_docs field_name docs stats)"

definition mongo_release :: "mongo_handle list \<Rightarrow> mongo_handle list" where
  "mongo_release live =
     remove1 M_library (remove1 M_client (remove1 M_collection (remove1 M_cursor (remove1 M_query live))))"

definition process_mongodb :: "mongo \<Rightarrow> bytes \<Rightarrow> int \<times> report option \<times> mongo_handle list" where
  "process_mongodb mg field_name =
     (if \<not> mg_client mg then (1, None, remove1 M_library [M_library])
      else if \<not> mg_collection mg then (1, None, remove1 M_library (remove1 M_client [M_client, M_library]))
      else
        let live = [M_cursor, M_query, M_collection, M_client, M_library] in
        case read_docs field_name (mg_docs mg) stats_init of
          None \<Rightarrow> (1, None, mongo_release live)
        | Some stats \<Rightarrow>
            if mg_error mg then (1, None, mongo_release live)
            else (0, stats_print stats, mongo_release live))"

text \<open>The usage is printed and 1 returned for other arguments.\<close>

definition test_db_main :: "sqlite \<Rightarrow> mongo \<Rightarrow> bytes list \<Rightarrow> int \<times> report option" where
  "test_db_main sq mg args =
     (if length args < 2 then (1, None)
      else if strcmp_eq (args ! 1) (str ''sqlite'')
      then
        if length args \<noteq> 5 then (1, None)
        else (let (ret, rep, _) = process_sqlite sq in (ret, rep))
      else if strcmp_eq (args ! 1) (str ''mongo'')
      then
        if length args \<noteq> 6 then (1, None)
        else (let (ret, rep, _) = process_mongodb mg (args ! 5) in (ret, rep))
      else (1, None))"

subsection \<open>Exits\<close>

text \<open>Everything is released on every path.\<close>

lemma sqlite_job_releases: "snd (snd (sqlite_job sq args)) = []"
  by (simp add: sqlite_job_def Let_def split: option.splits)

lemma process_sqlite_releases: "snd (snd (process_sqlite sq)) = []"
  by (simp add: process_sqlite_def Let_def split: option.splits)

lemma process_mongodb_releases: "snd (snd (process_mongodb mg field_name)) = []"
  by (simp add: process_mongodb_def mongo_release_def Let_def split: option.splits)

text \<open>The two programs differ only for a column without rows.\<close>

lemma sqlite_programs_agree:
  assumes "length args = 4" and "sq_rows sq \<noteq> []"
  shows "sqlite_job sq args = process_sqlite sq"
proof -
  have count: "st_count stats \<noteq> 0" if "read_rows rows stats0 = Some stats" "rows \<noteq> [] \<or> st_count stats0 \<noteq> 0"
    for rows stats0 stats
    using that by (induction rows stats0 rule: read_rows.induct) (auto simp: stats_update_def split: option.splits)
  show ?thesis
    using assms count [of "sq_rows sq" stats_init]
    by (auto simp: sqlite_job_def process_sqlite_def Let_def split: option.splits)
qed

lemma empty_column:
  assumes "sq_open sq" "sq_mprintf sq" "sq_prepare sq" "sq_done sq" and "sq_rows sq = []" and "length args = 4"
  shows "sqlite_job sq args = (1, None, [])" and "process_sqlite sq = (0, None, [])"
  using assms by (simp_all add: sqlite_job_def process_sqlite_def stats_init_def stats_print_def)

text \<open>A text of spaces counts as the number 0.\<close>

lemma spaces_are_numeric: "is_numeric (Some (replicate (Suc n) c_space)) = Some (Fin 0)"
proof -
  let ?s = "replicate (Suc n) c_space"
  have sp: "isspace c_space" by (simp add: isspace_def)
  then have all: "takeWhile isspace ?s = ?s" "dropWhile isspace ?s = []" by (simp_all add: takeWhile_eq_all_conv)
  have "strtod ?s = (Fin 0, 0, False)"
    unfolding strtod_def Let_def all
    by (simp add: hex_numeral_def decimal_numeral_def word_numeral_def prefix_nocase_def point_digits_def str_Cons)
  moreover have "cstr ?s = ?s" by (intro cstr_id) simp
  ultimately show ?thesis unfolding is_numeric_def Let_def by (simp add: all(1) sp del: replicate_Suc)
qed

text \<open>A document whose field is null, a truth value or nested is passed over.\<close>

lemma mongo_null_passed_over:
  "doc field_name = Some Bson_null \<Longrightarrow> read_docs field_name (doc # docs) stats = read_docs field_name docs stats"
  by simp

subsection \<open>Columns of integers\<close>

lemma digits_not_hex:
  assumes "\<forall>d\<in>set ds. isdigit d"
  shows "hex_numeral ds = None"
proof (cases ds)
  case (Cons a rest)
  show ?thesis
  proof (cases rest)
    case (Cons b more)
    with \<open>ds = a # rest\<close> assms have "isdigit b" by simp
    then have "\<not> 65 \<le> b \<or> \<not> b \<le> 90" "b \<noteq> 0x78" by (auto simp: isdigit_def word_le_nat_alt word_less_nat_alt)
    then have "to_lower b \<noteq> 0x78" by (auto simp: to_lower_def)
    then show ?thesis
      using \<open>ds = a # rest\<close> Cons by (simp add: hex_numeral_def prefix_nocase_def byte_simps)
  qed (simp add: \<open>ds = a # rest\<close> hex_numeral_def prefix_nocase_def byte_simps)
qed (simp add: hex_numeral_def prefix_nocase_def byte_simps)

lemma digits_decimal:
  assumes "\<forall>d\<in>set ds. isdigit d" and "ds \<noteq> []"
  shows "decimal_numeral ds = Some (Num (of_nat (digits_val 10 ds)), length ds)"
proof -
  have all: "takeWhile isdigit ds = ds" "dropWhile isdigit ds = []" using assms(1) by (simp_all add: takeWhile_eq_all_conv)
  have "point_digits isdigit ds = (ds, [], length ds)" unfolding point_digits_def all by simp
  then show ?thesis using assms(2) by (simp add: decimal_numeral_def exponent_part_def)
qed

lemma strtod_show_int:
  assumes "\<bar>i\<bar> < 2 ^ 53"
  shows "strtod (show_int i) = (Fin (of_int i), length (show_int i), False)"
proof -
  let ?n = "nat \<bar>i\<bar>"
  have ds: "\<forall>d\<in>set (show_dec ?n). isdigit d" by (simp add: isdigit_show_dec)
  then have first: "isdigit (hd (show_dec ?n))" by simp
  have sign: "hd (show_dec ?n) \<noteq> c_minus \<and> hd (show_dec ?n) \<noteq> c_plus \<and> \<not> isspace (hd (show_dec ?n))"
    using first isdigit_not_isspace by (auto simp: isdigit_def)
  have body: "hex_numeral (show_dec ?n) = None"
    "decimal_numeral (show_dec ?n) = Some (Num (of_int \<bar>i\<bar>), length (show_dec ?n))"
    using digits_not_hex [OF ds] digits_decimal [OF ds] by (simp_all add: of_nat_nat)
  have v: "round_double (of_int \<bar>i\<bar>) = Fin (of_int \<bar>i\<bar>)" using assms by (intro round_double_int) simp
  then have u: "\<not> underflows (of_int \<bar>i\<bar>)" by (simp add: underflows_def)
  have ws: "takeWhile isspace (show_dec ?n) = []" "dropWhile isspace (show_dec ?n) = show_dec ?n"
    using sign by (cases "show_dec ?n"; simp)+
  have msp: "\<not> isspace c_minus" by (simp add: isspace_def)
  show ?thesis
  proof (cases "i < 0")
    case True
    then have "show_int i = c_minus # show_dec ?n" by (simp add: show_int_def)
    then show ?thesis using True body v u msp by (simp add: strtod_def Let_def)
  next
    case False
    then have "show_int i = show_dec ?n" by (simp add: show_int_def)
    then show ?thesis using False body v u ws sign by (simp add: strtod_def Let_def)
  qed
qed

lemma is_numeric_show_int:
  assumes "\<bar>i\<bar> < 2 ^ 53"
  shows "is_numeric (Some (show_int i)) = Some (Fin (of_int i))"
proof -
  have "c_nul \<notin> set (show_dec n)" for n
    using isdigit_show_dec [of c_nul n] by (auto simp: isdigit_def)
  then have "cstr (show_int i) = show_int i" by (intro cstr_id) (auto simp: show_int_def)
  moreover have "show_int i \<noteq> []" by (simp add: show_int_def)
  ultimately show ?thesis using strtod_show_int [OF assms] by (simp add: is_numeric_def)
qed

definition int_column :: "int list \<Rightarrow> bytes option list" where
  "int_column vs = List.map (\<lambda>v. Some (show_int v)) vs"

text \<open>The squares bound everything else.\<close>

lemma abs_le_square: "\<bar>v :: int\<bar> \<le> v * v"
proof (cases "v = 0")
  case False
  then have "\<bar>v\<bar> * 1 \<le> \<bar>v\<bar> * \<bar>v\<bar>" by (intro mult_left_mono) auto
  then show ?thesis by simp
qed simp

definition squares :: "int list \<Rightarrow> int" where
  "squares vs = sum_list (List.map (\<lambda>v. v * v) vs)"

lemma squares_nonneg: "0 \<le> squares vs"
  unfolding squares_def by (induction vs) auto

text \<open>After the first row the sums are exact and the smallest and the largest value are kept.\<close>

definition exact_stats :: "nat \<Rightarrow> int \<Rightarrow> int \<Rightarrow> int \<Rightarrow> int \<Rightarrow> Statistics" where
  "exact_stats n a b low high =
     \<lparr>st_count = n, st_sum = Fin (of_int a), st_sum_sq = Fin (of_int b), st_min_val = Fin (of_int low),
      st_max_val = Fin (of_int high)\<rparr>"

lemma update_exact:
  assumes "0 < n" and "\<bar>a\<bar> \<le> b" and "b + v * v < 2 ^ 53"
  shows "stats_update (exact_stats n a b low high) (Fin (of_int v))
    = exact_stats (n + 1) (a + v) (b + v * v) (min low v) (max high v)"
proof -
  have v: "\<bar>v\<bar> \<le> v * v" by (rule abs_le_square)
  have "d_add (Fin (of_int a)) (Fin (of_int v)) = Fin (of_int (a + v))"
    using assms v by (intro d_add_int) linarith
  moreover have "d_mul (Fin (of_int v)) (Fin (of_int v)) = Fin (of_int (v * v))"
    using assms v by (intro d_mul_int) linarith
  moreover have "d_add (Fin (of_int b)) (Fin (of_int (v * v))) = Fin (of_int (b + v * v))"
    using assms v by (intro d_add_int) linarith
  ultimately show ?thesis
    using assms(1) by (auto simp: stats_update_def exact_stats_def min_def max_def simp del: d_add.simps d_mul.simps)
qed

lemma read_rows_exact:
  assumes "0 < n" and "\<bar>a\<bar> \<le> b" and "b + squares vs < 2 ^ 53"
  shows "read_rows (int_column vs) (exact_stats n a b low high)
    = Some (exact_stats (n + length vs) (a + sum_list vs) (b + squares vs) (fold min vs low) (fold max vs high))"
  using assms
proof (induction vs arbitrary: n a b low high)
  case Nil
  then show ?case by (simp add: int_column_def squares_def)
next
  case (Cons v vs)
  have v: "\<bar>v\<bar> \<le> v * v" by (rule abs_le_square)
  have sq: "squares (v # vs) = v * v + squares vs" "0 \<le> squares vs" by (simp add: squares_def, rule squares_nonneg)
  then have "is_numeric (Some (show_int v)) = Some (Fin (of_int v))"
    using Cons.prems v by (intro is_numeric_show_int) linarith
  moreover have "stats_update (exact_stats n a b low high) (Fin (of_int v))
      = exact_stats (n + 1) (a + v) (b + v * v) (min low v) (max high v)"
    using Cons.prems sq by (intro update_exact) linarith+
  moreover have "read_rows (int_column vs) (exact_stats (n + 1) (a + v) (b + v * v) (min low v) (max high v))
      = Some (exact_stats (n + 1 + length vs) (a + v + sum_list vs) (b + v * v + squares vs)
          (fold min vs (min low v)) (fold max vs (max high v)))"
    using Cons.prems sq v by (intro Cons.IH) linarith+
  ultimately show ?case
    using sq(1) by (simp add: int_column_def min.commute max.commute add.assoc)
qed

lemma read_int_column:
  assumes "vs \<noteq> []" and "squares vs < 2 ^ 53"
  shows "read_rows (int_column vs) stats_init
    = Some (exact_stats (length vs) (sum_list vs) (squares vs) (Min (set vs)) (Max (set vs)))"
proof (cases vs)
  case (Cons v ws)
  have v: "\<bar>v\<bar> \<le> v * v" by (rule abs_le_square)
  have sq: "squares vs = v * v + squares ws" "0 \<le> squares ws" by (simp add: Cons squares_def, rule squares_nonneg)
  have num: "is_numeric (Some (show_int v)) = Some (Fin (of_int v))"
    using assms sq v by (intro is_numeric_show_int) linarith
  have "d_mul (Fin (of_int v)) (Fin (of_int v)) = Fin (of_int (v * v))" "d_add (Fin 0) (Fin (of_int v)) = Fin (of_int v)"
    "d_add (Fin 0) (Fin (of_int (v * v))) = Fin (of_int (v * v))"
    using assms sq v d_mul_int [of v v] d_add_int [of 0 v] d_add_int [of 0 "v * v"] by auto
  then have "stats_update stats_init (Fin (of_int v)) = exact_stats 1 v (v * v) v v"
    by (simp add: stats_update_def stats_init_def exact_stats_def del: d_add.simps d_mul.simps)
  moreover have "read_rows (int_column ws) (exact_stats 1 v (v * v) v v)
      = Some (exact_stats (1 + length ws) (v + sum_list ws) (v * v + squares ws) (fold min ws v) (fold max ws v))"
    using assms sq v by (intro read_rows_exact) simp_all
  moreover have "fold min ws v = Min (set vs)" "fold max ws v = Max (set vs)"
    unfolding Cons by (simp_all only: Min.set_eq_fold Max.set_eq_fold)
  ultimately show ?thesis using num sq(1) Cons by (simp add: int_column_def)
qed (use assms in simp)

lemma process_int_column:
  assumes "vs \<noteq> []" and "squares vs < 2 ^ 53"
    and "sq_open sq" "sq_mprintf sq" "sq_prepare sq" "sq_done sq" and "sq_rows sq = int_column vs"
  shows "process_sqlite sq =
    (0, stats_print (exact_stats (length vs) (sum_list vs) (squares vs) (Min (set vs)) (Max (set vs))), [])"
  using assms read_int_column [OF assms(1,2)] by (simp add: process_sqlite_def)

text \<open>
  C18: for a column of integers whose squares sum to less than 2^53 nothing is lost before the mean: the
  count, the sum, the smallest and the largest value are exact, the mean is the exact one rounded
  once, and the variance is computed from the exact sum of the squares.
\<close>

theorem integer_column_report:
  assumes "vs \<noteq> []" and "squares vs < 2 ^ 53" and "length vs < 2 ^ 53"
    and "sq_open sq" "sq_mprintf sq" "sq_prepare sq" "sq_done sq" and "sq_rows sq = int_column vs"
    and "mean = round_double (of_int (sum_list vs) / of_nat (length vs))"
  shows "process_sqlite sq =
     (0, Some \<lparr>rp_count = length vs, rp_sum = Fin (of_int (sum_list vs)), rp_min = Fin (of_int (Min (set vs))),
        rp_max = Fin (of_int (Max (set vs))), rp_mean = mean,
        rp_variance = d_sub (round_double (of_int (squares vs) / of_nat (length vs))) (d_mul mean mean)\<rparr>, [])"
proof -
  have "round_double (of_nat (length vs)) = Fin (of_nat (length vs))"
    using round_double_int [of "int (length vs)"] assms(3) by simp
  then show ?thesis
    using assms process_int_column [OF assms(1,2,4-8)]
    by (simp add: stats_print_def exact_stats_def d_div_count_def Let_def)
qed

lemma integer_column_report_witness:
  "\<exists>mean. process_sqlite \<lparr>sq_open = True, sq_mprintf = True, sq_prepare = True, sq_rows = int_column [3, -1, 7], sq_done = True\<rparr>
    = (0, Some \<lparr>rp_count = 3, rp_sum = Fin 9, rp_min = Fin (- 1), rp_max = Fin 7, rp_mean = mean,
        rp_variance = d_sub (round_double (59 / 3)) (d_mul mean mean)\<rparr>, [])"
  using integer_column_report [of "[3, -1, 7]" "\<lparr>sq_open = True, sq_mprintf = True, sq_prepare = True,
      sq_rows = int_column [3, -1, 7], sq_done = True\<rparr>", OF _ _ _ _ _ _ _ _ refl]
  by (simp add: squares_def)

text \<open>Equal integers have no variance.\<close>

lemma sum_list_replicate_int: "sum_list (replicate n (v :: int)) = int n * v"
  by (induction n) (simp_all add: algebra_simps)

lemma equal_integers_no_variance:
  assumes "0 < n" and "n < 2 ^ 53" and "int n * (v * v) < 2 ^ 53"
    and "sq_open sq" "sq_mprintf sq" "sq_prepare sq" "sq_done sq" and "sq_rows sq = int_column (replicate n v)"
  shows "map_option rp_variance (fst (snd (process_sqlite sq))) = Some (Fin 0)"
proof -
  let ?vs = "replicate n v"
  have "\<bar>v\<bar> \<le> v * v" "v * v \<le> int n * (v * v)" using abs_le_square [of v] assms(1) by (simp_all add: mult_le_cancel_right1)
  then have small: "\<bar>v\<bar> < 2 ^ 53" "\<bar>v * v\<bar> < 2 ^ 53" using assms(3) by linarith+
  have sq: "squares ?vs = v * v * int n" "sum_list ?vs = v * int n"
    by (simp_all add: squares_def sum_list_replicate_int)
  have "process_sqlite sq = (0, stats_print (exact_stats n (v * int n) (v * v * int n) (Min (set ?vs)) (Max (set ?vs))), [])"
    using process_int_column [of ?vs sq] assms sq by (simp add: mult.commute)
  moreover have "d_div_count (Fin (of_int (v * int n))) n = Fin (of_int v)"
    "d_div_count (Fin (of_int (v * v * int n))) n = Fin (of_int (v * v))"
    using assms(1,2) small by (simp_all only: d_div_count_exact)
  moreover have "d_sub (Fin (of_int (v * v))) (d_mul (Fin (of_int v)) (Fin (of_int v))) = Fin 0"
    using d_mul_int [OF small(2)] by (simp add: d_sub_def round_double_def del: d_mul.simps)
  ultimately show ?thesis using assms(1) by (simp add: stats_print_def exact_stats_def Let_def del: d_mul.simps)
qed

subsection \<open>A variance below zero\<close>

text \<open>
  The variance is the difference of two rounded numbers. For three rows with the text 0.1 it comes
  out as \<open>- 1 / 2 ^ 59\<close>, printed as \<open>-1.73472e-18\<close>.
\<close>

lemma round_double_near:
  assumes "pow2 (e + 52) \<le> x" and "x < pow2 (e + 53)" and "- 1074 \<le> e" and "e < 900" and "m \<le> 2 ^ 53"
    and "\<bar>x / pow2 e - of_int m\<bar> < 1 / 2 \<or> (even m \<and> x / pow2 e - of_int (m - 1) = 1 / 2)"
  shows "round_double x = Fin (of_int m * pow2 e)"
proof -
  have m: "round_even (x / pow2 e) = m"
    using assms(6) round_even_near [of "x / pow2 e" m] round_even_half [of "x / pow2 e" "m - 1"] by auto
  have "(of_int m :: rat) \<le> of_int (2 ^ 53)" using assms(5) by (simp only: of_int_le_iff)
  then have "of_int m * pow2 e \<le> 2 ^ 53 * pow2 e"
    using less_imp_le [OF pow2_pos [of e]] by (intro mult_right_mono) simp_all
  also have "\<dots> < pow2 1024"
  proof (cases "0 \<le> e")
    case True
    then have "(2 :: rat) ^ 53 * pow2 e = 2 ^ (53 + nat e)" by (simp add: pow2_def power_add)
    also have "\<dots> < 2 ^ 1024" using assms(4) by (intro power_strict_increasing) auto
    finally show ?thesis by (simp add: pow2_def)
  next
    case False
    then have "pow2 e \<le> 1" by (simp add: pow2_def)
    moreover have "(2 :: rat) ^ 53 * 1 < pow2 1024" by (simp add: pow2_def)
    ultimately show ?thesis by (meson less_le_trans mult_left_mono not_le zero_le_numeral zero_le_power)
  qed
  finally show ?thesis using round_double_binade [of e x] assms(1-3) m by simp
qed

definition tenth :: rat where "tenth = 7205759403792794 / 2 ^ 56"

lemma round_tenth: "round_double (1 / 10) = Fin tenth"
  using round_double_near [of "- 56" "1 / 10" 7205759403792794] by (simp add: pow2_def tenth_def)

lemma no_underflow: "\<not> underflows (1 / 10)"
proof -
  have "log2_floor (1 / 10) = - 4" by (rule log2_floor_eq) (simp_all add: pow2_def)
  moreover have "round_even ((1 / 10) / pow2 (- 56)) = 7205759403792794"
    by (rule round_even_near) (simp add: pow2_def)
  ultimately show ?thesis by (simp add: underflows_def round_to_def pow2_def)
qed

lemma tenth_numeric: "is_numeric (Some (str ''0.1'')) = Some (Fin tenth)"
  using round_tenth no_underflow
  by (simp add: is_numeric_def cstr_def strtod_def hex_numeral_def decimal_numeral_def prefix_nocase_def
      point_digits_def exponent_part_def isdigit_def isspace_def to_lower_def digits_val_def digit_val_def
      byte_simps)

definition tenth2 :: rat where "tenth2 = 7205759403792794 / 2 ^ 55"
definition tenth3 :: rat where "tenth3 = 5404319552844596 / 2 ^ 54"
definition tenth_mean :: rat where "tenth_mean = 7205759403792795 / 2 ^ 56"
definition square :: rat where "square = 5764607523034236 / 2 ^ 59"
definition square2 :: rat where "square2 = 5764607523034236 / 2 ^ 58"
definition square3 :: rat where "square3 = 8646911284551354 / 2 ^ 58"
definition mean_square :: rat where "mean_square = 5764607523034237 / 2 ^ 59"

lemmas tenth_defs = tenth_def tenth2_def tenth3_def tenth_mean_def square_def square2_def square3_def mean_square_def

lemma tenth_sums:
  "d_add (Fin 0) (Fin tenth) = Fin tenth" "d_add (Fin tenth) (Fin tenth) = Fin tenth2"
  "d_add (Fin tenth2) (Fin tenth) = Fin tenth3"
  using round_double_near [of "- 56" tenth 7205759403792794]
    round_double_near [of "- 55" "tenth + tenth" 7205759403792794]
    round_double_near [of "- 54" "tenth2 + tenth" 5404319552844596]
  by (simp_all add: pow2_def tenth_defs)

lemma tenth_squares:
  "d_mul (Fin tenth) (Fin tenth) = Fin square" "d_add (Fin 0) (Fin square) = Fin square"
  "d_add (Fin square) (Fin square) = Fin square2" "d_add (Fin square2) (Fin square) = Fin square3"
  using round_double_near [of "- 59" "tenth * tenth" 5764607523034236]
    round_double_near [of "- 59" square 5764607523034236]
    round_double_near [of "- 58" "square + square" 5764607523034236]
    round_double_near [of "- 58" "square2 + square" 8646911284551354]
  by (simp_all add: pow2_def tenth_defs)

lemma tenth_means:
  "d_div_count (Fin tenth3) 3 = Fin tenth_mean" "d_div_count (Fin square3) 3 = Fin square"
  "d_mul (Fin tenth_mean) (Fin tenth_mean) = Fin mean_square"
  using round_double_int [of 3]
    round_double_near [of "- 56" "tenth3 / 3" 7205759403792795]
    round_double_near [of "- 59" "square3 / 3" 5764607523034236]
    round_double_near [of "- 59" "tenth_mean * tenth_mean" 5764607523034237]
  by (simp_all add: pow2_def tenth_defs d_div_count_def)

lemma round_minus: "0 < x \<Longrightarrow> round_double x = Fin y \<Longrightarrow> round_double (- x) = Fin (- y)"
  by (auto simp: round_double_def Let_def split: if_splits)

lemma tenth_difference: "d_sub (Fin square) (Fin mean_square) = Fin (- 1 / 2 ^ 59)"
  using round_minus [of "1 / 2 ^ 59" "1 / 2 ^ 59"] round_double_near [of "- 111" "1 / 2 ^ 59" 4503599627370496]
  by (simp add: d_sub_def pow2_def tenth_defs)

text \<open>
  three equal texts 0.1 are reported with a variance below zero.
\<close>

theorem negative_variance:
  assumes "sq_open sq" "sq_mprintf sq" "sq_prepare sq" "sq_done sq"
    and "sq_rows sq = replicate 3 (Some (str ''0.1''))"
  shows "map_option rp_variance (fst (snd (process_sqlite sq))) = Some (Fin (- 1 / 2 ^ 59))"
proof -
  have irrefl: "\<not> d_less (Fin x) (Fin x)" for x by simp
  have "read_rows (sq_rows sq) stats_init = Some
      \<lparr>st_count = 3, st_sum = Fin tenth3, st_sum_sq = Fin square3, st_min_val = Fin tenth, st_max_val = Fin tenth\<rparr>"
    using tenth_numeric
    by (simp add: assms(5) stats_update_def stats_init_def tenth_sums tenth_squares irrefl numeral_3_eq_3
        del: d_add.simps d_mul.simps d_less.simps)
  then show ?thesis
    using assms(1-4) tenth_difference
    by (simp add: process_sqlite_def stats_print_def tenth_means Let_def del: d_mul.simps)
qed

lemma negative_variance_witness:
  "map_option rp_variance (fst (snd (process_sqlite \<lparr>sq_open = True, sq_mprintf = True, sq_prepare = True,
      sq_rows = replicate 3 (Some (str ''0.1'')), sq_done = True\<rparr>))) = Some (Fin (- 1 / 2 ^ 59))"
  by (rule negative_variance) simp_all

end
