(* ===== verification/TreeView.thy ===== *)
theory TreeView
  imports CStd
begin

text \<open>
  HW_06_GTK: the rows the file browser puts into its tree model. GLib's view of the files is a
  parameter: the names \<open>g_dir_read_name\<close> yields, the test for a directory (which follows links) and
  the sizes \<open>g_stat\<close> finds. The widgets are not modelled.
\<close>

record gfiles =
  gf_dir :: "bytes \<Rightarrow> bytes list option"
  gf_is_dir :: "bytes \<Rightarrow> bool"
  gf_stat :: "bytes \<Rightarrow> nat option"

text \<open>A row of the tree: name, type, size, whether it is a directory, and the rows below it.\<close>

datatype tree_row = Row bytes bytes bytes bool "tree_row list"

text \<open>\<open>g_build_filename\<close> of two parts: one separator between them.\<close>

definition build_filename :: "bytes \<Rightarrow> bytes \<Rightarrow> bytes" where
  "build_filename path name = rev (dropWhile (\<lambda>c. c = c_slash) (rev path)) @ [c_slash] @ name"

definition size_str :: "gfiles \<Rightarrow> bytes \<Rightarrow> bytes" where
  "size_str fs full_path =
     (if gf_is_dir fs full_path then []
      else
        case gf_stat fs full_path of
          None \<Rightarrow> str ''Unknown''
        | Some n \<Rightarrow>
            if n < 1024 then show_dec n @ str '' B''
            else if n < 1024 * 1024 then show_tenths n 1024 @ str '' KB''
            else show_tenths n (1024 * 1024) @ str '' MB'')"

text \<open>The loop over the names of a directory; the scan of a subdirectory starts it anew.\<close>

partial_function (option) scan_names :: "gfiles \<Rightarrow> bytes \<Rightarrow> bytes list \<Rightarrow> tree_row list option" where
  "scan_names fs path names =
     (case names of
        [] \<Rightarrow> Some []
      | name # rest \<Rightarrow>
          let full_path = build_filename path name; is_dir = gf_is_dir fs full_path in
          Option.bind
            (if is_dir
             then (case gf_dir fs full_path of None \<Rightarrow> Some [] | Some ns \<Rightarrow> scan_names fs full_path ns)
             else Some [])
            (\<lambda>children.
               Option.bind (scan_names fs path rest)
                 (\<lambda>rows. Some (Row name (if is_dir then str ''Directory'' else str ''File'') (size_str fs full_path)
                    is_dir children # rows))))"

definition scan_directory :: "gfiles \<Rightarrow> bytes \<Rightarrow> tree_row list option" where
  "scan_directory fs path =
     (case gf_dir fs path of None \<Rightarrow> Some [] | Some names \<Rightarrow> scan_names fs path names)"

definition create_and_fill_model :: "gfiles \<Rightarrow> bytes \<Rightarrow> tree_row option" where
  "create_and_fill_model fs cwd =
     map_option (Row cwd (str ''Root Directory'') [] True) (scan_directory fs cwd)"

subsection \<open>A finite tree of files\<close>

datatype dirtree = Dir "(bytes \<times> dirtree) list" | Locked | Plain nat | Vanished

fun found :: "gfiles \<Rightarrow> bytes \<Rightarrow> dirtree \<Rightarrow> bool" where
  "found fs path (Dir es) =
     (gf_is_dir fs path \<and> gf_dir fs path = Some (List.map fst es) \<and>
      (\<forall>e\<in>set es. found fs (build_filename path (fst e)) (snd e)))"
| "found fs path Locked = (gf_is_dir fs path \<and> gf_dir fs path = None)"
| "found fs path (Plain n) = (\<not> gf_is_dir fs path \<and> gf_stat fs path = Some n)"
| "found fs path Vanished = (\<not> gf_is_dir fs path \<and> gf_stat fs path = None)"

fun mirror :: "bytes \<times> dirtree \<Rightarrow> tree_row" where
  "mirror (name, Dir es) = Row name (str ''Directory'') [] True (List.map mirror es)"
| "mirror (name, Locked) = Row name (str ''Directory'') [] True []"
| "mirror (name, Plain n) = Row name (str ''File'')
     (if n < 1024 then show_dec n @ str '' B''
      else if n < 1024 * 1024 then show_tenths n 1024 @ str '' KB''
      else show_tenths n (1024 * 1024) @ str '' MB'') False []"
| "mirror (name, Vanished) = Row name (str ''File'') (str ''Unknown'') False []"

lemma size_entries: "size_list (\<lambda>e. size (snd e)) es \<le> size_list (size_prod (\<lambda>x. 0) size) es"
proof (induction es)
  case (Cons e es)
  then show ?case by (cases e) simp
qed simp

lemma scan_found:
  "\<forall>e\<in>set es. found fs (build_filename path (fst e)) (snd e) \<Longrightarrow>
     scan_names fs path (List.map fst es) = Some (List.map mirror es)"
proof (induction "size_list (\<lambda>e. size (snd e)) es" arbitrary: es path rule: less_induct)
  case less
  show ?case
  proof (cases es)
    case Nil
    then show ?thesis by (simp add: scan_names.simps)
  next
    case (Cons e rest)
    obtain name t where e: "e = (name, t)" by (cases e)
    have here: "found fs (build_filename path name) t" using less.prems Cons e by simp
    have rest: "scan_names fs path (List.map fst rest) = Some (List.map mirror rest)"
      using less.prems Cons by (intro less.hyps) auto
    show ?thesis
    proof (cases t)
      case (Dir cs)
      have "scan_names fs (build_filename path name) (List.map fst cs) = Some (List.map mirror cs)"
        using here Cons e Dir size_entries [of cs] by (intro less.hyps) auto
      then show ?thesis
        using here rest Cons e Dir by (subst scan_names.simps) (simp add: size_str_def)
    qed (use here rest Cons e in \<open>subst scan_names.simps; simp add: size_str_def\<close>)+
  qed
qed

text \<open>
  C19: where the files below a directory form a finite tree, the scan returns, and the model is that
  tree: a row for every entry in the order of the directory, with its type and its size, and below a
  directory that can be read the rows of its entries.
\<close>

theorem model_mirrors_tree:
  assumes "found fs cwd (Dir es)"
  shows "create_and_fill_model fs cwd = Some (Row cwd (str ''Root Directory'') [] True (List.map mirror es))"
  using assms scan_found [of es fs cwd] by (simp add: create_and_fill_model_def scan_directory_def)

lemma model_mirrors_tree_witness:
  "create_and_fill_model
     \<lparr>gf_dir = (\<lambda>p. if p = str ''/h'' then Some [str ''a'', str ''d''] else None),
      gf_is_dir = (\<lambda>p. p = str ''/h'' \<or> p = str ''/h/d''), gf_stat = (\<lambda>p. if p = str ''/h/a'' then Some 1536 else None)\<rparr> (str ''/h'')
   = Some (Row (str ''/h'') (str ''Root Directory'') [] True
       [Row (str ''a'') (str ''File'') (show_tenths 1536 1024 @ str '' KB'') False [], Row (str ''d'') (str ''Directory'') [] True []])"
  (is "create_and_fill_model ?fs _ = _")
proof -
  have "found ?fs (str ''/h'') (Dir [(str ''a'', Plain 1536), (str ''d'', Locked)])"
    by (simp add: build_filename_def byte_simps)
  from model_mirrors_tree [OF this] show ?thesis by simp
qed

subsection \<open>Links\<close>

text \<open>
  Links to the directory itself are followed as deep as the system lets a path go through links.
  With two of them the number of rows doubles at every level.
\<close>

fun loop_tree :: "bytes \<Rightarrow> bytes \<Rightarrow> nat \<Rightarrow> dirtree" where
  "loop_tree a b 0 = Vanished"
| "loop_tree a b (Suc d) = Dir [(a, loop_tree a b d), (b, loop_tree a b d)]"

fun row_count :: "tree_row \<Rightarrow> nat" where
  "row_count (Row _ _ _ _ rows) = Suc (sum_list (List.map row_count rows))"

lemma row_count_loop: "row_count (mirror (n, loop_tree a b d)) + 1 = 2 ^ Suc d"
proof (induction d arbitrary: n)
  case (Suc d)
  from Suc [of a] Suc [of b] show ?case by simp
qed simp

lemma links_double_rows:
  assumes "found fs cwd (loop_tree a b (Suc d))"
  shows "\<exists>row. create_and_fill_model fs cwd = Some row \<and> row_count row + 1 = 2 ^ (d + 2)"
proof -
  have "create_and_fill_model fs cwd = Some (Row cwd (str ''Root Directory'') [] True
      (List.map mirror [(a, loop_tree a b d), (b, loop_tree a b d)]))"
    using scan_found [of "[(a, loop_tree a b d), (b, loop_tree a b d)]" fs cwd] assms
    by (simp add: create_and_fill_model_def scan_directory_def)
  then show ?thesis
    using row_count_loop [of a a b d] row_count_loop [of b a b d] by simp
qed

text \<open>Where a directory contains itself without an end, as in a loop of mounts, the scan does not return.\<close>

lemma scan_loop_diverges:
  assumes loop: "\<And>p. looping p \<Longrightarrow> gf_is_dir fs (build_filename p l) \<and> looping (build_filename p l) \<and>
      (\<exists>ns. gf_dir fs (build_filename p l) = Some ns \<and> l \<in> set ns)"
    and "looping path" and "l \<in> set names"
  shows "scan_names fs path names = None"
proof -
  let ?P = "\<lambda>f path names. f = fs \<longrightarrow> looping path \<longrightarrow> l \<notin> set names"
  have "?P f path names" if "scan_names f path names = Some rows" for f path names rows
  proof (rule scan_names.raw_induct [OF _ that])
    fix scan f path names rows
    assume IH: "\<And>f path names rows. scan f path names = Some rows \<Longrightarrow> ?P f path names"
      and body: "(case names of
        [] \<Rightarrow> Some []
      | name # rest \<Rightarrow>
          let full_path = build_filename path name; is_dir = gf_is_dir f full_path in
          Option.bind
            (if is_dir
             then (case gf_dir f full_path of None \<Rightarrow> Some [] | Some ns \<Rightarrow> scan f full_path ns)
             else Some [])
            (\<lambda>children.
               Option.bind (scan f path rest)
                 (\<lambda>rows. Some (Row name (if is_dir then str ''Directory'' else str ''File'') (size_str f full_path)
                    is_dir children # rows)))) = Some rows"
    show "?P f path names"
    proof (cases names)
      case (Cons name rest)
      have "l \<notin> set rest" if "f = fs" "looping path"
        using body IH [of f path rest] Cons that by (auto simp: Let_def bind_eq_Some_conv)
      moreover have "name \<noteq> l" if f: "f = fs" and lp: "looping path"
      proof
        assume "name = l"
        obtain ns where "gf_dir fs (build_filename path l) = Some ns" "l \<in> set ns" "gf_is_dir fs (build_filename path l)"
          "looping (build_filename path l)" using loop [OF lp] by blast
        then show False
          using body IH [of f "build_filename path l" ns] Cons f lp \<open>name = l\<close> by (auto simp: Let_def bind_eq_Some_conv)
      qed
      ultimately show ?thesis using Cons by auto
    qed simp
  qed
  then show ?thesis using assms(2,3) by (cases "scan_names fs path names") auto
qed

end
