(* ===== verification/Scenes.thy ===== *)
theory Scenes
  imports Float64 "HOL-Library.Word"
begin

unbundle bit_operations_syntax

text \<open>
  HW_16-OpenGL: the scenes of cube.c and cube_moon.c. Modelled are the mesh of the cube as the calls
  between \<open>glBegin (GL_QUADS)\<close> and \<open>glEnd\<close>, the texture of a checkerboard, the upload of an image and
  the angles the timer changes; what stb_image finds in a file and what OpenGL reads of a buffer are
  parameters. The matrices and the light are not modelled.
\<close>

subsection \<open>The cube\<close>

type_synonym vec = "rat \<times> rat \<times> rat"

datatype gl_call = Normal vec | Tex_coord "rat \<times> rat" | Vertex vec

definition drawCube :: "gl_call list" where
  "drawCube =
     [Normal (0, 0, 1),
      Tex_coord (0, 0), Vertex (- 1/2, - 1/2, 1/2), Tex_coord (1, 0), Vertex (1/2, - 1/2, 1/2),
      Tex_coord (1, 1), Vertex (1/2, 1/2, 1/2), Tex_coord (0, 1), Vertex (- 1/2, 1/2, 1/2),
      Normal (0, 0, - 1),
      Tex_coord (0, 0), Vertex (- 1/2, - 1/2, - 1/2), Tex_coord (1, 0), Vertex (- 1/2, 1/2, - 1/2),
      Tex_coord (1, 1), Vertex (1/2, 1/2, - 1/2), Tex_coord (0, 1), Vertex (1/2, - 1/2, - 1/2),
      Normal (- 1, 0, 0),
      Tex_coord (0, 0), Vertex (- 1/2, - 1/2, - 1/2), Tex_coord (1, 0), Vertex (- 1/2, - 1/2, 1/2),
      Tex_coord (1, 1), Vertex (- 1/2, 1/2, 1/2), Tex_coord (0, 1), Vertex (- 1/2, 1/2, - 1/2),
      Normal (1, 0, 0),
      Tex_coord (0, 0), Vertex (1/2, - 1/2, - 1/2), Tex_coord (1, 0), Vertex (1/2, 1/2, - 1/2),
      Tex_coord (1, 1), Vertex (1/2, 1/2, 1/2), Tex_coord (0, 1), Vertex (1/2, - 1/2, 1/2),
      Normal (0, - 1, 0),
      Tex_coord (0, 0), Vertex (- 1/2, - 1/2, - 1/2), Tex_coord (1, 0), Vertex (1/2, - 1/2, - 1/2),
      Tex_coord (1, 1), Vertex (1/2, - 1/2, 1/2), Tex_coord (0, 1), Vertex (- 1/2, - 1/2, 1/2),
      Normal (0, 1, 0),
      Tex_coord (0, 0), Vertex (- 1/2, 1/2, - 1/2), Tex_coord (1, 0), Vertex (- 1/2, 1/2, 1/2),
      Tex_coord (1, 1), Vertex (1/2, 1/2, 1/2), Tex_coord (0, 1), Vertex (1/2, 1/2, - 1/2)]"

text \<open>What OpenGL keeps of the calls: a vertex with the normal and the coordinates set before it.\<close>

fun gl_vertices :: "gl_call list \<Rightarrow> vec \<Rightarrow> rat \<times> rat \<Rightarrow> (vec \<times> vec) list" where
  "gl_vertices [] n t = []"
| "gl_vertices (Normal n # cs) _ t = gl_vertices cs n t"
| "gl_vertices (Tex_coord t # cs) n _ = gl_vertices cs n t"
| "gl_vertices (Vertex v # cs) n t = (n, v) # gl_vertices cs n t"

fun quads :: "'a list \<Rightarrow> ('a \<times> 'a \<times> 'a \<times> 'a) list" where
  "quads (a # b # c # d # rest) = (a, b, c, d) # quads rest"
| "quads _ = []"

fun vsub :: "vec \<Rightarrow> vec \<Rightarrow> vec" where
  "vsub (a, b, c) (x, y, z) = (a - x, b - y, c - z)"

fun cross :: "vec \<Rightarrow> vec \<Rightarrow> vec" where
  "cross (a, b, c) (x, y, z) = (b * z - c * y, c * x - a * z, a * y - b * x)"

fun dot :: "vec \<Rightarrow> vec \<Rightarrow> rat" where
  "dot (a, b, c) (x, y, z) = a * x + b * y + c * z"

text \<open>
  A face turns counterclockwise around its normal, seen from outside: at each corner the next two
  edges span the normal, and the plane of the face is half a unit away from the centre.
\<close>

definition face_ok :: "(vec \<times> vec) \<times> (vec \<times> vec) \<times> (vec \<times> vec) \<times> (vec \<times> vec) \<Rightarrow> bool" where
  "face_ok q =
     (case q of ((n, a), (n2, b), (n3, c), (n4, d)) \<Rightarrow>
        n2 = n \<and> n3 = n \<and> n4 = n \<and>
        cross (vsub b a) (vsub c b) = n \<and> cross (vsub c b) (vsub d c) = n \<and>
        cross (vsub d c) (vsub a d) = n \<and> cross (vsub a d) (vsub b a) = n \<and> dot n a = 1/2)"

definition face_edges :: "(vec \<times> vec) \<times> (vec \<times> vec) \<times> (vec \<times> vec) \<times> (vec \<times> vec) \<Rightarrow> (vec \<times> vec) list" where
  "face_edges q = (case q of ((_, a), (_, b), (_, c), (_, d)) \<Rightarrow> [(a, b), (b, c), (c, d), (d, a)])"

definition cube_faces :: "((vec \<times> vec) \<times> (vec \<times> vec) \<times> (vec \<times> vec) \<times> (vec \<times> vec)) list" where
  "cube_faces = quads (gl_vertices drawCube (0, 0, 1) (0, 0))"

definition cube_edges :: "(vec \<times> vec) list" where
  "cube_edges = concat (List.map face_edges cube_faces)"

lemmas cube_eval = cube_edges_def cube_faces_def drawCube_def face_edges_def face_ok_def

text \<open>
  the six faces of the cube make a closed surface that is seen from outside: every face turns
  counterclockwise around the normal it gives, which points outwards, and every directed edge occurs
  once and once in the other direction.
\<close>

theorem cube_closed:
  "length cube_faces = 6 \<and> list_all face_ok cube_faces \<and> distinct cube_edges \<and>
   set (List.map prod.swap cube_edges) = set cube_edges"
proof (intro conjI)
  show "length cube_faces = 6" by (simp add: cube_eval)
  show "list_all face_ok cube_faces" by (simp add: cube_eval)
  show "distinct cube_edges" by code_simp
  show "set (List.map prod.swap cube_edges) = set cube_edges" by code_simp
qed

subsection \<open>The checkerboard\<close>

definition checker :: "nat \<Rightarrow> nat \<Rightarrow> u8" where
  "checker i j = (if (i AND 0x8 = 0) \<noteq> (j AND 0x8 = 0) then 255 else 0)"

definition createCheckerboardTexture :: bytes where
  "createCheckerboardTexture =
     concat (List.map (\<lambda>i. concat (List.map (\<lambda>j. [checker i j, checker i j, checker i j]) [0..<64])) [0..<64])"

lemma length_concat_blocks:
  "(\<And>i. length (f i) = m) \<Longrightarrow> length (concat (List.map f [0..<n])) = n * m"
  by (induction n) simp_all

lemma nth_concat_blocks:
  assumes "\<And>i. length (f i) = m" and "i < n" and "k < m"
  shows "concat (List.map f [0..<n]) ! (i * m + k) = f i ! k"
  using assms(2)
proof (induction n)
  case (Suc n)
  have len: "length (concat (List.map f [0..<n])) = n * m" using assms(1) by (rule length_concat_blocks)
  show ?case
  proof (cases "i = n")
    case True
    then show ?thesis using len by (simp add: nth_append)
  next
    case False
    then have "Suc i * m \<le> n * m" using Suc.prems by (intro mult_le_mono1) simp
    then have "i * m + k < n * m" using assms(3) by simp
    then show ?thesis using Suc False len by (simp add: nth_append)
  qed
qed simp

text \<open>
  The texture has 64 rows of 64 grey texels; squares of eight by eight alternate between black and
  white.
\<close>

lemma checker_squares: "checker i j = (if even (i div 8 + j div 8) then 0 else 255)"
proof -
  have "n AND 8 = 0 \<longleftrightarrow> even (n div 8)" for n :: nat
  proof -
    have eq: "bit (n AND 8) k = (k = 3 \<and> bit n 3)" for k
    proof -
      have "bit (8 :: nat) k = (k = 3)" using bit_exp_iff [where 'a = nat, of 3 k] by auto
      then show ?thesis by (auto simp: bit_and_iff)
    qed
    have "n AND 8 = 0 \<longleftrightarrow> \<not> bit n 3" using eq by (auto simp: bit_eq_iff)
    then show ?thesis by (simp add: bit_iff_odd)
  qed
  then show ?thesis by (simp add: checker_def)
qed

lemma checkerboard_texels:
  assumes "i < 64" and "j < 64" and "k < 3"
  shows "createCheckerboardTexture ! ((i * 64 + j) * 3 + k) = (if even (i div 8 + j div 8) then 0 else 255)"
    and "length createCheckerboardTexture = 64 * 64 * 3"
proof -
  let ?texel = "\<lambda>i j. [checker i j, checker i j, checker i j]"
  let ?row = "\<lambda>i. concat (List.map (?texel i) [0..<64])"
  have row: "length (?row i) = 64 * 3" for i by (rule length_concat_blocks) simp
  have "concat (List.map ?row [0..<64]) ! (i * (64 * 3) + (j * 3 + k)) = ?row i ! (j * 3 + k)"
    using assms by (intro nth_concat_blocks row) auto
  also have "\<dots> = ?texel i j ! k" using assms by (intro nth_concat_blocks) auto
  also have "\<dots> = checker i j"
  proof -
    have "k = 0 \<or> k = 1 \<or> k = 2" using assms(3) by auto
    then show ?thesis by auto
  qed
  finally show "createCheckerboardTexture ! ((i * 64 + j) * 3 + k) = (if even (i div 8 + j div 8) then 0 else 255)"
    by (simp only: createCheckerboardTexture_def checker_squares)
      (simp add: algebra_simps createCheckerboardTexture_def)
  show "length createCheckerboardTexture = 64 * 64 * 3"
    using length_concat_blocks [of ?row "64 * 3" 64, OF row] by (simp add: createCheckerboardTexture_def)
qed

subsection \<open>The upload of an image\<close>

text \<open>
  \<open>img\<close> is what \<open>stbi_load\<close> gives: the width, the height and the channels, with a buffer of their
  product; \<open>gl_reads\<close> is how many bytes OpenGL takes from it for a format of so many components.
  The name of the texture, or 0 when the file cannot be loaded.
\<close>

definition loadTextureFromFile ::
    "(nat \<Rightarrow> nat \<Rightarrow> nat \<Rightarrow> nat) \<Rightarrow> nat \<Rightarrow> (nat \<times> nat \<times> nat) option \<Rightarrow> ub + nat" where
  "loadTextureFromFile gl_reads name img =
     (case img of
        None \<Rightarrow> Inr 0
      | Some (width, height, channels) \<Rightarrow>
          let components = (if channels = 4 then 4 else 3) in
          if width * height * channels < gl_reads width height components then Inl Ub_OobRead
          else Inr name)"

lemma row_stride: "4 * ((w * 3 + 3) div 4) = w * 3 \<longleftrightarrow> w mod 4 = (0 :: nat)"
proof -
  define q r where "q = w div 4" and "r = w mod 4"
  have w: "w = 4 * q + r" and "r < 4" by (simp_all add: q_def r_def)
  then have "r = 0 \<or> r = 1 \<or> r = 2 \<or> r = 3" by auto
  moreover have "(w * 3 + 3) div 4 = 3 * q + (r * 3 + 3) div 4"
    using div_mult_self4 [of 4 "3 * q" "r * 3 + 3"] by (simp add: w algebra_simps)
  ultimately show ?thesis unfolding r_def [symmetric] by (auto simp: w)
qed

text \<open>
  with the alignment of rows OpenGL starts with, to four bytes, the upload of an image stays in
  the buffer exactly when the image has an alpha channel, or three channels and a width that is a
  multiple of four, or only one row; images with one or two channels are always read past their end.
\<close>

theorem texture_upload_in_bounds:
  assumes "\<And>w h n. gl_reads w h n = (h - 1) * (4 * ((w * n + 3) div 4)) + w * n"
    and "0 < width" and "0 < height" and "channels \<in> {1, 2, 3, 4}"
  shows "loadTextureFromFile gl_reads name (Some (width, height, channels)) = Inr name \<longleftrightarrow>
    channels = 4 \<or> (channels = 3 \<and> (width mod 4 = 0 \<or> height = 1))"
proof -
  obtain h where h: "height = Suc h" using assms(3) by (cases height) auto
  consider "channels = 4" | "channels = 3" | "channels = 1 \<or> channels = 2" using assms(4) by auto
  then show ?thesis
  proof cases
    case 1
    have "(width * 4 + 3) div 4 = width" by simp
    then have "gl_reads width height 4 = h * (4 * width) + width * 4" unfolding assms(1) h by simp
    also have "\<dots> = width * height * 4" by (simp add: h distrib_left mult.commute mult.left_commute)
    finally show ?thesis using 1 by (simp add: loadTextureFromFile_def)
  next
    case 2
    let ?stride = "4 * ((width * 3 + 3) div 4)"
    have "?stride \<ge> width * 3" by linarith
    moreover have "?stride = width * 3 \<longleftrightarrow> width mod 4 = 0" by (rule row_stride)
    ultimately have "h * ?stride \<le> h * (width * 3) \<longleftrightarrow> width mod 4 = 0 \<or> h = 0"
      by (cases "h = 0") auto
    moreover have "width * height * 3 < gl_reads width height 3 \<longleftrightarrow> \<not> h * ?stride \<le> h * (width * 3)"
      unfolding assms(1) h by (simp add: distrib_left mult.commute mult.left_commute) linarith
    ultimately show ?thesis using 2 by (simp add: loadTextureFromFile_def h)
  next
    case 3
    have "width * 3 \<le> 4 * ((width * 3 + 3) div 4)" by linarith
    then have "h * (width * 3) \<le> h * (4 * ((width * 3 + 3) div 4))" by (rule mult_le_mono2)
    then have "width * height * 3 \<le> gl_reads width height 3"
      unfolding assms(1) h by (simp add: distrib_left mult.commute mult.left_commute)
    moreover have "width * height * channels < width * height * 3" using 3 assms(2,3) by auto
    ultimately have "width * height * channels < gl_reads width height 3" by linarith
    then show ?thesis using 3 by (auto simp: loadTextureFromFile_def)
  qed
qed

lemma texture_upload_in_bounds_witness:
  "loadTextureFromFile (\<lambda>w h n. (h - 1) * (4 * ((w * n + 3) div 4)) + w * n) 7 (Some (5, 2, 3)) \<noteq> Inr 7"
  using texture_upload_in_bounds [of "\<lambda>w h n. (h - 1) * (4 * ((w * n + 3) div 4)) + w * n" 5 2 3 7] by simp

subsection \<open>The angles\<close>

text \<open>The constants: \<open>M_PI\<close> is a double of the program's own, the speeds are of type \<open>float\<close>.\<close>

definition M_PI :: double where "M_PI = round_double (314159265354 / 10 ^ 11)"
definition ORBIT_SPEED :: double where "ORBIT_SPEED = round_single (2 / 100)"
definition SPHERE_ROT_SPEED :: double where "SPHERE_ROT_SPEED = round_single (1 / 2)"

record scene =
  sc_cubeAngle :: double
  sc_orbitAngle :: double
  sc_sphereRotAngle :: double

definition scene_start :: scene where
  "scene_start = \<lparr>sc_cubeAngle = Fin 0, sc_orbitAngle = Fin 0, sc_sphereRotAngle = Fin 0\<rparr>"

definition advance :: "double \<Rightarrow> double \<Rightarrow> double" where
  "advance speed angle =
     (let angle = f_add angle speed in
      if d_less (Fin 360) angle then f_add angle (Fin (- 360)) else angle)"

text \<open>The angle of the orbit is compared with a double and reduced as one.\<close>

definition timer :: "scene \<Rightarrow> scene" where
  "timer s =
     (let two_pi = d_mul (Fin 2) M_PI;
          orbit = f_add (sc_orbitAngle s) ORBIT_SPEED in
      \<lparr>sc_cubeAngle = advance (Fin 1) (sc_cubeAngle s),
       sc_orbitAngle = (if d_less two_pi orbit then to_single (d_sub orbit two_pi) else orbit),
       sc_sphereRotAngle = advance SPHERE_ROT_SPEED (sc_sphereRotAngle s)\<rparr>)"

lemma half_exact: "\<bar>n\<bar> < 2 ^ 24 \<Longrightarrow> round_single (of_int n / 2) = Fin (of_int n / 2)"
  using round_single_exact [of n 1] by simp

text \<open>Angles that are multiples of a half go round exactly, \<open>k\<close> halves at a time.\<close>

lemma advance_halves:
  assumes "0 \<le> m" and "m \<le> 720" and "0 < k" and "k \<le> 2"
  shows "advance (Fin (of_int k / 2)) (Fin (of_int m / 2))
    = Fin (of_int (if 720 < m + k then m + k - 720 else m + k) / 2)"
proof -
  have "f_add (Fin (of_int m / 2)) (Fin (of_int k / 2)) = Fin (of_int (m + k) / 2)"
    using half_exact [of "m + k"] assms by (simp add: add_divide_distrib)
  moreover have "f_add (Fin (of_int (m + k) / 2)) (Fin (- 360)) = Fin (of_int (m + k - 720) / 2)"
    using half_exact [of "m + k - 720"] assms by (simp add: diff_divide_distrib)
  moreover have "d_less (Fin 360) (Fin (of_int (m + k) / 2)) \<longleftrightarrow> 720 < m + k"
  proof -
    have "(360 :: rat) < of_int (m + k) / 2 \<longleftrightarrow> of_int 720 < (of_int (m + k) :: rat)" by simp
    then show ?thesis by (simp only: d_less.simps of_int_less_iff)
  qed
  ultimately show ?thesis by (simp add: advance_def Let_def del: f_add.simps d_less.simps of_int_add of_int_diff)
qed

text \<open>How many halves the angle shows after \<open>n\<close> steps of \<open>k\<close> halves.\<close>

definition halves :: "int \<Rightarrow> nat \<Rightarrow> int" where
  "halves k n = (if n = 0 then 0 else k * ((int n - 1) mod (720 div k)) + k)"

lemma halves_step:
  assumes "k = 1 \<or> k = 2"
  shows "0 \<le> halves k n \<and> halves k n \<le> 720 \<and>
    halves k (Suc n) = (if 720 < halves k n + k then halves k n + k - 720 else halves k n + k)"
proof (cases n)
  case (Suc m)
  let ?p = "720 div k"
  have p: "0 < ?p" "k * ?p = 720" using assms by auto
  have b: "0 \<le> int m mod ?p" "int m mod ?p < ?p" using p(1) by simp_all
  have s: "(int m + 1) mod ?p = (if int m mod ?p = ?p - 1 then 0 else int m mod ?p + 1)"
  proof -
    have e: "(int m + 1) mod ?p = (int m mod ?p + 1) mod ?p" by (rule mod_add_left_eq [symmetric])
    show ?thesis
    proof (cases "int m mod ?p = ?p - 1")
      case True
      show ?thesis unfolding e True by simp
    next
      case False
      then have "(int m mod ?p + 1) mod ?p = int m mod ?p + 1" using b by (intro mod_pos_pos_trivial) linarith+
      then show ?thesis using False by (simp only: e if_False)
    qed
  qed
  have h: "halves k n = k * (int m mod ?p) + k" by (simp add: halves_def Suc)
  have h': "halves k (Suc n) = k * (if int m mod ?p = ?p - 1 then 0 else int m mod ?p + 1) + k"
    unfolding s [symmetric] by (simp add: halves_def Suc add.commute)
  show ?thesis unfolding h h' using assms
  proof
    assume "k = 1"
    then show "0 \<le> k * (int m mod ?p) + k \<and> k * (int m mod ?p) + k \<le> 720 \<and>
        k * (if int m mod ?p = ?p - 1 then 0 else int m mod ?p + 1) + k =
        (if 720 < k * (int m mod ?p) + k + k then k * (int m mod ?p) + k + k - 720 else k * (int m mod ?p) + k + k)"
      using b by auto
  next
    assume "k = 2"
    then show "0 \<le> k * (int m mod ?p) + k \<and> k * (int m mod ?p) + k \<le> 720 \<and>
        k * (if int m mod ?p = ?p - 1 then 0 else int m mod ?p + 1) + k =
        (if 720 < k * (int m mod ?p) + k + k then k * (int m mod ?p) + k + k - 720 else k * (int m mod ?p) + k + k)"
      using b by auto
  qed
qed (use assms in \<open>auto simp: halves_def\<close>)

text \<open>
  the cube turns by exactly one degree a frame and the sphere by half a degree, without an error
  that adds up: after the first frame the angles run through 1 to 360 degrees again and again.
\<close>

theorem timer_angles:
  "sc_cubeAngle ((timer ^^ n) scene_start) = Fin (of_int (halves 2 n) / 2) \<and>
   sc_sphereRotAngle ((timer ^^ n) scene_start) = Fin (of_int (halves 1 n) / 2)"
proof (induction n)
  case 0
  show ?case by (simp add: scene_start_def halves_def)
next
  case (Suc n)
  have speed: "SPHERE_ROT_SPEED = Fin (of_int 1 / 2)" using half_exact [of 1] by (simp add: SPHERE_ROT_SPEED_def)
  have one: "Fin 1 = Fin (of_int 2 / 2)" by simp
  show ?case
    using Suc halves_step [of 2 n] halves_step [of 1 n] advance_halves [of "halves 2 n" 2] advance_halves [of "halves 1 n" 1]
    by (simp only: funpow.simps o_apply timer_def Let_def scene.simps speed one) auto
qed

end
