(* ===== verification/ClibPackage.thy ===== *)
theory ClibPackage
  imports CStd "HOL-Library.Multiset"
begin

text \<open>
  HW_05-Valgrind/clib/clib-package.c, first part: the blocks of memory, the options, the addresses and
  the package a manifest describes. The exercise mends a leak of this file, so ownership is what is
  modelled: a pointer names its block and the text in it, and the state keeps which blocks are live.
  The JSON parser, the parser of repository names and the lists are libraries outside the sources: the
  first two are parameters, a list is a list of what it holds and its operations succeed.
\<close>

subsection \<open>Memory\<close>

text \<open>A text is what the C string holds before its terminating zero, so its length is \<open>strlen\<close>.\<close>

datatype cptr = Null | Literal bytes | Block nat bytes

fun text_of :: "cptr \<Rightarrow> bytes" where
  "text_of Null = []"
| "text_of (Literal s) = s"
| "text_of (Block i s) = s"

text \<open>
  The options of the program and the state: the number of the next block, the live blocks, which
  allocations fail, the first undefined behaviour, the mutex with the times it was unlocked while it
  was not locked, whether the transfers share their data yet, the visited packages, the number of
  threads started, and the calls to the network, the cache and the system.
\<close>

record clib_opts =
  op_skip_cache :: int
  op_prefix :: "bytes option"
  op_global :: int
  op_force :: int
  op_token :: "bytes option"
  op_concurrency :: int

datatype call =
    Http_get bytes
  | Http_get_file bytes bytes
  | Cache_delete_json bytes bytes bytes
  | Cache_save_json bytes bytes bytes bytes
  | Cache_delete_package bytes bytes bytes
  | Cache_save_package bytes bytes bytes
  | Mkdirp bytes
  | Fs_write bytes bytes
  | Setenv bytes "bytes option"
  | System bytes
  | Spawn nat
  | Join nat

record clib =
  cl_next :: nat
  cl_live :: "nat set"
  cl_full :: "nat \<Rightarrow> bool"
  cl_fault :: "ub option"
  cl_locked :: bool
  cl_bad_unlocks :: nat
  cl_share :: bool
  cl_opts :: clib_opts
  cl_visited :: "bytes set"
  cl_threads :: nat
  cl_calls :: "call list"

definition fault :: "ub \<Rightarrow> clib \<Rightarrow> clib" where
  "fault u m = (if cl_fault m = None then m\<lparr>cl_fault := Some u\<rparr> else m)"

text \<open>An allocation with what is then stored in it; \<open>strdup\<close> reads its argument first.\<close>

definition c_new :: "bytes \<Rightarrow> clib \<Rightarrow> cptr \<times> clib" where
  "c_new s m =
     (if cl_full m (cl_next m) then (Null, m\<lparr>cl_next := Suc (cl_next m)\<rparr>)
      else (Block (cl_next m) s, m\<lparr>cl_next := Suc (cl_next m), cl_live := insert (cl_next m) (cl_live m)\<rparr>))"

fun c_free :: "cptr \<Rightarrow> clib \<Rightarrow> clib" where
  "c_free Null m = m"
| "c_free (Literal s) m = fault Ub_BadFree m"
| "c_free (Block i s) m =
     (if i \<in> cl_live m then m\<lparr>cl_live := cl_live m - {i}\<rparr> else fault Ub_DoubleFree m)"

fun c_read :: "cptr \<Rightarrow> clib \<Rightarrow> clib" where
  "c_read Null m = fault Ub_NullDeref m"
| "c_read (Literal s) m = m"
| "c_read (Block i s) m = (if i \<in> cl_live m then m else fault Ub_UseAfterFree m)"

definition strdup :: "cptr \<Rightarrow> clib \<Rightarrow> cptr \<times> clib" where
  "strdup p m = c_new (text_of p) (c_read p m)"

definition copy_of :: "bytes option \<Rightarrow> clib \<Rightarrow> cptr \<times> clib" where
  "copy_of v m = (case v of None \<Rightarrow> (Null, m) | Some s \<Rightarrow> c_new s m)"

text \<open>\<open>malloc (n)\<close>, then \<open>sprintf\<close> of a text into it.\<close>

definition sprintf_into :: "nat \<Rightarrow> bytes \<Rightarrow> clib \<Rightarrow> cptr \<times> clib" where
  "sprintf_into n s m =
     (case c_new s m of
        (p, m) \<Rightarrow> (p, if p = Null \<or> length s < n then m else fault Ub_OobWrite m))"

definition lock :: "clib \<Rightarrow> clib" where "lock m = m\<lparr>cl_locked := True\<rparr>"

definition unlock :: "clib \<Rightarrow> clib" where
  "unlock m = m\<lparr>cl_locked := False, cl_bad_unlocks := cl_bad_unlocks m + (if cl_locked m then 0 else 1)\<rparr>"

definition call :: "call \<Rightarrow> clib \<Rightarrow> clib" where
  "call c m = m\<lparr>cl_calls := cl_calls m @ [c]\<rparr>"

subsection \<open>Options\<close>

definition set_flag :: "int \<Rightarrow> int \<Rightarrow> int" where
  "set_flag old new = (if old = 1 \<and> new = 0 then 0 else if old = 0 \<and> new = 1 then 1 else old)"

definition set_text :: "bytes option \<Rightarrow> bytes option \<Rightarrow> bytes option" where
  "set_text old new = (case new of None \<Rightarrow> old | Some s \<Rightarrow> if length s = 0 then None else Some s)"

definition clib_package_set_opts :: "clib_opts \<Rightarrow> clib_opts \<Rightarrow> clib_opts" where
  "clib_package_set_opts opts o_new =
     \<lparr>op_skip_cache = set_flag (op_skip_cache opts) (op_skip_cache o_new),
      op_prefix = set_text (op_prefix opts) (op_prefix o_new),
      op_global = set_flag (op_global opts) (op_global o_new),
      op_force = set_flag (op_force opts) (op_force o_new),
      op_token = set_text (op_token opts) (op_token o_new),
      op_concurrency =
        (let c = (if op_concurrency o_new \<noteq> 0 then op_concurrency o_new
                  else if op_concurrency o_new < 0 then 0 else op_concurrency opts)
         in if c < 0 then 0 else c)\<rparr>"

definition default_opts :: clib_opts where
  "default_opts = \<lparr>op_skip_cache = 1, op_prefix = None, op_global = 0, op_force = 0, op_token = None, op_concurrency = 4\<rparr>"

subsection \<open>Addresses\<close>

definition DEFAULT_REPO_VERSION :: bytes where "DEFAULT_REPO_VERSION = str ''master''"
definition DEFAULT_REPO_OWNER :: bytes where "DEFAULT_REPO_OWNER = str ''clibs''"
definition GITHUB_CONTENT_URL :: bytes where "GITHUB_CONTENT_URL = str ''https://raw.githubusercontent.com/''"

abbreviation c_at :: u8 where "c_at \<equiv> 0x40"

definition clib_package_file_url :: "cptr \<Rightarrow> cptr \<Rightarrow> clib \<Rightarrow> cptr \<times> clib" where
  "clib_package_file_url url file m =
     (if url = Null \<or> file = Null then (Null, m)
      else sprintf_into (length (text_of url) + 1 + length (text_of file) + 1) (text_of url @ [c_slash] @ text_of file)
        (c_read file (c_read url m)))"

definition clib_package_slug :: "cptr \<Rightarrow> cptr \<Rightarrow> cptr \<Rightarrow> clib \<Rightarrow> cptr \<times> clib" where
  "clib_package_slug author name version m =
     sprintf_into (length (text_of author) + 1 + length (text_of name) + 1 + length (text_of version) + 1)
       (text_of author @ [c_slash] @ text_of name @ [c_at] @ text_of version)
       (c_read version (c_read name (c_read author m)))"

definition clib_package_repo :: "cptr \<Rightarrow> cptr \<Rightarrow> clib \<Rightarrow> cptr \<times> clib" where
  "clib_package_repo author name m =
     sprintf_into (length (text_of author) + 1 + length (text_of name) + 1)
       (text_of author @ [c_slash] @ text_of name) (c_read name (c_read author m))"

text \<open>With a token the address starts with it and an @.\<close>

definition github_url :: "bytes option \<Rightarrow> bytes" where
  "github_url token =
     (case token of None \<Rightarrow> GITHUB_CONTENT_URL
      | Some t \<Rightarrow> str ''https://'' @ t @ [c_at] @ str ''raw.githubusercontent.com/'')"

definition token_size :: "bytes option \<Rightarrow> nat" where
  "token_size token = (case token of None \<Rightarrow> 0 | Some t \<Rightarrow> length t + 1)"

definition clib_package_url :: "cptr \<Rightarrow> cptr \<Rightarrow> cptr \<Rightarrow> clib \<Rightarrow> cptr \<times> clib" where
  "clib_package_url author name version m =
     (if author = Null \<or> name = Null \<or> version = Null then (Null, m)
      else
        let token = op_token (cl_opts m);
            n = length GITHUB_CONTENT_URL + length (text_of author) + 1 + length (text_of name) + 1
              + length (text_of version) + 1 + token_size token in
        sprintf_into n (github_url token @ text_of author @ [c_slash] @ text_of name @ [c_slash] @ text_of version)
          (c_read version (c_read name (c_read author m))))"

definition clib_package_url_from_repo :: "cptr \<Rightarrow> cptr \<Rightarrow> clib \<Rightarrow> cptr \<times> clib" where
  "clib_package_url_from_repo repo version m =
     (if repo = Null \<or> version = Null then (Null, m)
      else
        let token = op_token (cl_opts m);
            n = length GITHUB_CONTENT_URL + length (text_of repo) + 1 + length (text_of version) + 1 + token_size token in
        sprintf_into n (github_url token @ text_of repo @ [c_slash] @ text_of version)
          (c_read version (c_read repo m)))"

subsection \<open>Packages\<close>

record dependency =
  dp_block :: cptr
  dp_name :: cptr
  dp_author :: cptr
  dp_version :: cptr

text \<open>The file name of a package is one of the constants of the program.\<close>

record package =
  pk_block :: cptr
  pk_json :: cptr
  pk_name :: cptr
  pk_repo :: cptr
  pk_version :: cptr
  pk_license :: cptr
  pk_description :: cptr
  pk_configure :: cptr
  pk_install :: cptr
  pk_makefile :: cptr
  pk_prefix :: cptr
  pk_flags :: cptr
  pk_author :: cptr
  pk_repo_name :: cptr
  pk_url :: cptr
  pk_src :: "cptr list option"
  pk_dependencies :: "dependency list option"
  pk_development :: "dependency list option"
  pk_filename :: "bytes option"
  pk_refs :: int

text \<open>
  What the JSON library finds in a manifest: the strings, the arrays with their elements that are
  strings, the objects with the names and the strings of their entries.
\<close>

record manifest =
  mf_string :: "bytes \<Rightarrow> bytes option"
  mf_array :: "bytes \<Rightarrow> bytes option list option"
  mf_object :: "bytes \<Rightarrow> (bytes option \<times> bytes option) list option"

datatype json_root = Not_object | Manifest manifest

record clib_api =
  ca_json_parse :: "bytes \<Rightarrow> json_root option"
  ca_repo_owner :: "bytes \<Rightarrow> bytes \<Rightarrow> bytes option"
  ca_repo_name :: "bytes \<Rightarrow> bytes option"
  ca_repo_version :: "bytes \<Rightarrow> bytes \<Rightarrow> bytes option"

definition json_object_get_string_safe :: "manifest \<Rightarrow> bytes \<Rightarrow> clib \<Rightarrow> cptr \<times> clib" where
  "json_object_get_string_safe obj key m = copy_of (mf_string obj key) m"

definition json_array_get_string_safe :: "bytes option list \<Rightarrow> nat \<Rightarrow> clib \<Rightarrow> cptr \<times> clib" where
  "json_array_get_string_safe arr i m = copy_of (arr ! i) m"

definition clib_package_parse_author :: "'a clib_api_scheme \<Rightarrow> cptr \<Rightarrow> clib \<Rightarrow> cptr \<times> clib" where
  "clib_package_parse_author api slug m = copy_of (ca_repo_owner api (text_of slug) DEFAULT_REPO_OWNER) (c_read slug m)"

definition clib_package_parse_version :: "'a clib_api_scheme \<Rightarrow> cptr \<Rightarrow> clib \<Rightarrow> cptr \<times> clib" where
  "clib_package_parse_version api slug m = copy_of (ca_repo_version api (text_of slug) DEFAULT_REPO_VERSION) (c_read slug m)"

definition clib_package_parse_name :: "'a clib_api_scheme \<Rightarrow> cptr \<Rightarrow> clib \<Rightarrow> cptr \<times> clib" where
  "clib_package_parse_name api slug m = copy_of (ca_repo_name api (text_of slug)) (c_read slug m)"

subsection \<open>Release\<close>

text \<open>A list is destroyed with \<open>free\<close>, or the function below, for each of its values.\<close>

definition free_ptrs :: "cptr list \<Rightarrow> clib \<Rightarrow> clib" where
  "free_ptrs ps m = fold c_free ps m"

definition clib_package_dependency_free :: "dependency \<Rightarrow> clib \<Rightarrow> clib" where
  "clib_package_dependency_free dep m =
     c_free (dp_block dep) (c_free (dp_version dep) (c_free (dp_author dep) (c_free (dp_name dep) m)))"

definition destroy_deps :: "dependency list option \<Rightarrow> clib \<Rightarrow> clib" where
  "destroy_deps ds m = (case ds of None \<Rightarrow> m | Some ds \<Rightarrow> fold clib_package_dependency_free ds m)"

definition clib_package_free :: "package option \<Rightarrow> clib \<Rightarrow> clib" where
  "clib_package_free pkg m =
     (case pkg of
        None \<Rightarrow> m
      | Some pkg \<Rightarrow>
          if pk_refs pkg \<noteq> 0 then m
          else
            let m = free_ptrs [pk_author pkg, pk_description pkg, pk_install pkg, pk_json pkg, pk_license pkg,
                      pk_name pkg, pk_makefile pkg, pk_configure pkg, pk_repo pkg, pk_repo_name pkg, pk_url pkg,
                      pk_version pkg, pk_flags pkg] m;
                m = (case pk_src pkg of None \<Rightarrow> m | Some files \<Rightarrow> free_ptrs files m);
                m = destroy_deps (pk_dependencies pkg) m;
                m = destroy_deps (pk_development pkg) m in
            c_free (pk_block pkg) m)"

subsection \<open>Dependencies\<close>

definition clib_package_dependency_new :: "'a clib_api_scheme \<Rightarrow> cptr \<Rightarrow> cptr \<Rightarrow> clib \<Rightarrow> dependency option \<times> clib" where
  "clib_package_dependency_new api repo version m =
     (if repo = Null \<or> version = Null then (None, m)
      else
        let (self, m) = c_new [] m in
        if self = Null then (None, m)
        else
            let (version', m) = (if str ''*'' = text_of version then c_new DEFAULT_REPO_VERSION (c_read version m)
                                 else strdup version m);
                (name, m) = clib_package_parse_name api repo m;
                (author, m) = clib_package_parse_author api repo m in
            (Some \<lparr>dp_block = self, dp_name = name, dp_author = author, dp_version = version'\<rparr>, m))"

text \<open>The names belong to the JSON value, which lives until the package is made.\<close>

fun deps_loop :: "'a clib_api_scheme \<Rightarrow> (bytes option \<times> bytes option) list \<Rightarrow> dependency list \<Rightarrow> clib \<Rightarrow> dependency list option \<times> clib" where
  "deps_loop api [] ds m = (Some ds, m)"
| "deps_loop api ((name, value) # entries) ds m =
     (case name of
        None \<Rightarrow> (None, destroy_deps (Some ds) m)
      | Some name \<Rightarrow>
          (case copy_of value m of
             (version, m) \<Rightarrow>
               if version = Null then (None, destroy_deps (Some ds) m)
               else
                 (case clib_package_dependency_new api (Literal name) version m of
                    (None, m) \<Rightarrow> (None, destroy_deps (Some ds) (c_free version m))
                  | (Some dep, m) \<Rightarrow> deps_loop api entries (ds @ [dep]) (c_free version m))))"

definition parse_package_deps :: "'a clib_api_scheme \<Rightarrow> (bytes option \<times> bytes option) list \<Rightarrow> clib \<Rightarrow> dependency list option \<times> clib" where
  "parse_package_deps api obj m = deps_loop api obj [] m"

subsection \<open>A package from a manifest\<close>

text \<open>
  The loop over an array of flags; \<open>None\<close> when \<open>asprintf\<close> fails, which leaves the pointer it was to
  set undefined. The text the pointer had before is not released.
\<close>

fun flags_loop :: "bytes option list \<Rightarrow> cptr \<Rightarrow> clib \<Rightarrow> cptr option \<times> clib" where
  "flags_loop [] flags m = (Some flags, m)"
| "flags_loop (e # es) flags m =
     (case copy_of e m of
        (flag, m) \<Rightarrow>
          if flag = Null then flags_loop es flags m
          else
            let old = (if flags = Null then Literal [] else flags) in
            (case c_new (text_of old @ [c_space] @ text_of flag) (c_read old m) of
               (new, m) \<Rightarrow> if new = Null then (None, m) else flags_loop es new (c_free flag m)))"

definition package_flags :: "manifest \<Rightarrow> clib \<Rightarrow> cptr option \<times> clib" where
  "package_flags obj m =
     (let (flags, m) = json_object_get_string_safe obj (str ''flags'') m in
      if flags \<noteq> Null then (Some flags, m)
      else
        let (flags, m) = json_object_get_string_safe obj (str ''cflags'') m in
        if flags \<noteq> Null then (Some flags, m)
        else
          case (case mf_array obj (str ''flags'') of None \<Rightarrow> mf_array obj (str ''cflags'') | Some a \<Rightarrow> Some a) of
            None \<Rightarrow> (Some Null, m)
          | Some flags \<Rightarrow> flags_loop flags Null m)"

text \<open>The files so far, and whether all elements were strings.\<close>

fun src_loop :: "bytes option list \<Rightarrow> cptr list \<Rightarrow> clib \<Rightarrow> cptr list \<times> bool \<times> clib" where
  "src_loop [] files m = (files, True, m)"
| "src_loop (e # es) files m =
     (case copy_of e m of
        (p, m) \<Rightarrow> if p = Null then (files, False, m) else src_loop es (files @ [p]) m)"

definition empty_package :: "cptr \<Rightarrow> package" where
  "empty_package self =
     \<lparr>pk_block = self, pk_json = Null, pk_name = Null, pk_repo = Null, pk_version = Null, pk_license = Null,
      pk_description = Null, pk_configure = Null, pk_install = Null, pk_makefile = Null, pk_prefix = Null,
      pk_flags = Null, pk_author = Null, pk_repo_name = Null, pk_url = Null, pk_src = None,
      pk_dependencies = None, pk_development = None, pk_filename = None, pk_refs = 0\<rparr>"

text \<open>The fields that are strings, in the order of the code.\<close>

definition string_fields :: "(bytes \<times> ((cptr \<Rightarrow> cptr) \<Rightarrow> package \<Rightarrow> package)) list" where
  "string_fields =
     [(str ''name'', pk_name_update), (str ''repo'', pk_repo_update), (str ''version'', pk_version_update),
      (str ''license'', pk_license_update), (str ''description'', pk_description_update),
      (str ''configure'', pk_configure_update), (str ''install'', pk_install_update),
      (str ''makefile'', pk_makefile_update), (str ''prefix'', pk_prefix_update)]"

fun get_fields :: "manifest \<Rightarrow> (bytes \<times> ((cptr \<Rightarrow> cptr) \<Rightarrow> package \<Rightarrow> package)) list \<Rightarrow> package \<Rightarrow> clib \<Rightarrow> package \<times> clib" where
  "get_fields obj [] pkg m = (pkg, m)"
| "get_fields obj ((key, upd) # fs) pkg m =
     (case json_object_get_string_safe obj key m of
        (p, m) \<Rightarrow> get_fields obj fs (upd (\<lambda>_. p) pkg) m)"

text \<open>
  The author and the name of the repository. The branch that would make up a repository needs an
  author, which no package has at that point.
\<close>

definition package_repo :: "'a clib_api_scheme \<Rightarrow> package \<Rightarrow> clib \<Rightarrow> package \<times> clib" where
  "package_repo api pkg m =
     (let (repo, m) = (if pk_repo pkg = Null \<and> pk_author pkg \<noteq> Null \<and> pk_name pkg \<noteq> Null
                       then c_new (text_of (pk_author pkg) @ [c_slash] @ text_of (pk_name pkg)) m
                       else (pk_repo pkg, m));
          pkg = pkg\<lparr>pk_repo := repo\<rparr> in
      if pk_repo pkg \<noteq> Null then
        let (author, m) = clib_package_parse_author api (pk_repo pkg) m;
            (repo_name, m) = clib_package_parse_name api (pk_repo pkg) m in
        (pkg\<lparr>pk_author := author, pk_repo_name := repo_name\<rparr>, m)
      else (pkg\<lparr>pk_author := Null, pk_repo_name := Null\<rparr>, m))"

definition package_src :: "manifest \<Rightarrow> package \<Rightarrow> clib \<Rightarrow> package \<times> bool \<times> clib" where
  "package_src obj pkg m =
     (case (case mf_array obj (str ''src'') of None \<Rightarrow> mf_array obj (str ''files'') | Some a \<Rightarrow> Some a) of
        None \<Rightarrow> (pkg\<lparr>pk_src := None\<rparr>, True, m)
      | Some src \<Rightarrow> (case src_loop src [] m of (files, ok, m) \<Rightarrow> (pkg\<lparr>pk_src := Some files\<rparr>, ok, m)))"

definition package_deps :: "'a clib_api_scheme \<Rightarrow> manifest \<Rightarrow> bytes \<Rightarrow> clib \<Rightarrow> dependency list option \<times> bool \<times> clib" where
  "package_deps api obj key m =
     (case mf_object obj key of
        None \<Rightarrow> (None, True, m)
      | Some entries \<Rightarrow>
          (case parse_package_deps api entries m of (ds, m) \<Rightarrow> (ds, ds \<noteq> None, m)))"

definition clib_package_new :: "'a clib_api_scheme \<Rightarrow> cptr \<Rightarrow> clib \<Rightarrow> package option \<times> clib" where
  "clib_package_new api json m =
     (if json = Null then (None, m)
      else
        case ca_json_parse api (text_of json) of
          None \<Rightarrow> (None, c_read json m)
        | Some Not_object \<Rightarrow> (None, c_read json m)
        | Some (Manifest obj) \<Rightarrow>
            (case c_new [] (c_read json m) of
               (self, m) \<Rightarrow>
                 if self = Null then (None, m) else
                 let cleanup = (\<lambda>pkg m. (None, clib_package_free (Some pkg) m));
                     (json', m) = strdup json m;
                     (pkg, m) = get_fields obj string_fields ((empty_package self)\<lparr>pk_json := json'\<rparr>) m in
                 (case package_flags obj m of
                    (None, m) \<Rightarrow> cleanup pkg (fault Ub_Uninit m)
                  | (Some flags, m) \<Rightarrow>
                      let (pkg, m) = package_repo api (pkg\<lparr>pk_flags := flags\<rparr>) m;
                          (pkg, ok, m) = package_src obj pkg m in
                      if \<not> ok then cleanup pkg m
                      else
                        let (ds, ok, m) = package_deps api obj (str ''dependencies'') m;
                            pkg = pkg\<lparr>pk_dependencies := ds\<rparr> in
                        if \<not> ok then cleanup pkg m
                        else
                          let (ds, ok, m) = package_deps api obj (str ''development'') m;
                              pkg = pkg\<lparr>pk_development := ds\<rparr> in
                          if \<not> ok then cleanup pkg m else (Some pkg, m))))"

subsection \<open>Ownership\<close>

text \<open>
  The blocks of a list of pointers. \<open>holds m0 ps m\<close>: since the state \<open>m0\<close> exactly the blocks of the
  pointers \<open>ps\<close> have become live, each held once, without undefined behaviour on the way.
\<close>

fun block_of :: "cptr \<Rightarrow> nat list" where
  "block_of (Block i s) = [i]"
| "block_of _ = []"

definition blocks :: "cptr list \<Rightarrow> nat list" where
  "blocks ps = concat (List.map block_of ps)"

lemma blocks_simps [simp]:
  "blocks [] = []" "blocks (p # ps) = block_of p @ blocks ps" "blocks (ps @ qs) = blocks ps @ blocks qs"
  by (simp_all add: blocks_def)

lemma mset_blocks: "mset (blocks ps) = sum_mset (image_mset (\<lambda>p. mset (block_of p)) (mset ps))"
  by (induction ps) simp_all

definition holds :: "clib \<Rightarrow> cptr list \<Rightarrow> clib \<Rightarrow> bool" where
  "holds m0 ps m \<longleftrightarrow>
     cl_live m = cl_live m0 \<union> set (blocks ps) \<and> cl_full m = cl_full m0 \<and> cl_fault m = cl_fault m0 \<and>
     cl_opts m = cl_opts m0 \<and> cl_next m0 \<le> cl_next m \<and>
     distinct (blocks ps) \<and> (\<forall>i\<in>set (blocks ps). cl_next m0 \<le> i \<and> i < cl_next m) \<and>
     (\<forall>s. Literal s \<notin> set ps)"

text \<open>A state whose live blocks are numbered below the next one, and where allocations succeed.\<close>

definition sound :: "clib \<Rightarrow> bool" where
  "sound m \<longleftrightarrow> (\<forall>i\<in>cl_live m. i < cl_next m) \<and> cl_full m = (\<lambda>_. False)"

fun ptext :: "cptr \<Rightarrow> bytes option" where
  "ptext Null = None"
| "ptext p = Some (text_of p)"

lemma ptext_iff [simp]: "ptext p = None \<longleftrightarrow> p = Null" by (cases p) simp_all

lemma holds_refl: "holds m [] m" by (simp add: holds_def)

lemma holds_perm: "holds m0 ps m \<Longrightarrow> mset ps = mset qs \<Longrightarrow> holds m0 qs m"
proof -
  assume h: "holds m0 ps m" and e: "mset ps = mset qs"
  have b: "mset (blocks ps) = mset (blocks qs)" by (simp add: mset_blocks e)
  have "set (blocks ps) = set (blocks qs)" "set ps = set qs" using b e by (metis set_mset_mset)+
  moreover have "distinct (blocks ps) = distinct (blocks qs)" using b by (rule mset_eq_imp_distinct_iff)
  ultimately show ?thesis using h by (simp add: holds_def)
qed

lemma holds_keeps:
  assumes "holds m0 ps m"
  shows "cl_full m = cl_full m0" "cl_fault m = cl_fault m0" "cl_opts m = cl_opts m0"
    "cl_live m = cl_live m0 \<union> set (blocks ps)"
  using assms by (simp_all add: holds_def)

lemma holds_new:
  assumes "sound m0" and "holds m0 ps m" and "c_new s m = (p, m')"
  shows "holds m0 (p # ps) m'" and "p \<noteq> Null" and "ptext p = Some s" and "text_of p = s" and "p = Block (cl_next m) s"
proof -
  have f: "cl_full m = (\<lambda>_. False)" using assms(1) holds_keeps(1) [OF assms(2)] by (simp add: sound_def)
  then have p: "p = Block (cl_next m) s"
    and m': "m' = m\<lparr>cl_next := Suc (cl_next m), cl_live := insert (cl_next m) (cl_live m)\<rparr>"
    using assms(3) by (auto simp: c_new_def)
  from p show "p \<noteq> Null" "ptext p = Some s" "text_of p = s" "p = Block (cl_next m) s" by simp_all
  show "holds m0 (p # ps) m'" using assms(2) unfolding p m' 
    by (auto simp: holds_def)
qed

lemma holds_copy:
  assumes "sound m0" and "holds m0 ps m" and "copy_of v m = (p, m')"
  shows "holds m0 (p # ps) m'" and "ptext p = v"
    and "p = (case v of None \<Rightarrow> Null | Some s \<Rightarrow> Block (cl_next m) s)"
proof -
  show "holds m0 (p # ps) m'" "ptext p = v"
    using assms(2,3) holds_new [OF assms(1,2)] by (auto simp: copy_of_def holds_def split: option.splits)
  show "p = (case v of None \<Rightarrow> Null | Some s \<Rightarrow> Block (cl_next m) s)"
    using assms(2,3) holds_new(5) [OF assms(1,2)] by (auto simp: copy_of_def split: option.splits)
qed

lemma holds_free:
  assumes "sound m0" and "holds m0 (p # ps) m"
  shows "holds m0 ps (c_free p m)"
proof (cases p)
  case (Block i s)
  have "i \<in> cl_live m" using holds_keeps(4) [OF assms(2)] Block by simp
  moreover have "cl_live m - {i} = cl_live m0 \<union> set (blocks ps)"
    using assms holds_keeps(4) [OF assms(2)] unfolding Block sound_def holds_def by fastforce
  ultimately show ?thesis using assms(2) unfolding Block by (auto simp: holds_def)
qed (use assms in \<open>auto simp: holds_def\<close>)

lemma holds_read:
  assumes "holds m0 ps m" and "p \<in> set ps" and "p \<noteq> Null"
  shows "c_read p m = m"
proof (cases p)
  case (Block i s)
  have "i \<in> set (blocks ps)" using assms(2) unfolding Block blocks_def by force
  then show ?thesis using holds_keeps(4) [OF assms(1)] by (simp add: Block)
qed (use assms in auto)

lemma read_literal: "c_read (Literal s) m = m" by simp

lemma holds_free_ptrs:
  assumes "sound m0" and "holds m0 (qs @ ps) m"
  shows "holds m0 ps (free_ptrs qs m)"
  using assms(2)
proof (induction qs arbitrary: m)
  case (Cons q qs)
  then show ?case using holds_free [OF assms(1), of q "qs @ ps" m] by (simp add: free_ptrs_def)
qed (simp add: free_ptrs_def)

definition dep_ptrs :: "dependency \<Rightarrow> cptr list" where
  "dep_ptrs d = [dp_name d, dp_author d, dp_version d, dp_block d]"

definition deps_ptrs :: "dependency list option \<Rightarrow> cptr list" where
  "deps_ptrs ds = (case ds of None \<Rightarrow> [] | Some ds \<Rightarrow> concat (List.map dep_ptrs ds))"

lemma dep_free_ptrs: "clib_package_dependency_free d m = free_ptrs (dep_ptrs d) m"
  by (simp add: clib_package_dependency_free_def free_ptrs_def dep_ptrs_def)

lemma free_ptrs_append: "free_ptrs (ps @ qs) m = free_ptrs qs (free_ptrs ps m)"
  by (simp add: free_ptrs_def)

lemma destroy_deps_ptrs: "destroy_deps ds m = free_ptrs (deps_ptrs ds) m"
proof (cases ds)
  case (Some ds')
  have "fold clib_package_dependency_free ds' m = free_ptrs (concat (List.map dep_ptrs ds')) m"
    by (induction ds' arbitrary: m) (simp_all add: free_ptrs_append dep_free_ptrs, simp add: free_ptrs_def)
  then show ?thesis by (simp add: Some destroy_deps_def deps_ptrs_def)
qed (simp add: destroy_deps_def deps_ptrs_def free_ptrs_def)

text \<open>What a package gives back when it is released, and what it owns: the prefix as well.\<close>

definition freed_ptrs :: "package \<Rightarrow> cptr list" where
  "freed_ptrs pkg =
     [pk_author pkg, pk_description pkg, pk_install pkg, pk_json pkg, pk_license pkg, pk_name pkg,
      pk_makefile pkg, pk_configure pkg, pk_repo pkg, pk_repo_name pkg, pk_url pkg, pk_version pkg, pk_flags pkg] @
     (case pk_src pkg of None \<Rightarrow> [] | Some files \<Rightarrow> files) @
     deps_ptrs (pk_dependencies pkg) @ deps_ptrs (pk_development pkg) @ [pk_block pkg]"

lemma package_free_ptrs: "pk_refs pkg = 0 \<Longrightarrow> clib_package_free (Some pkg) m = free_ptrs (freed_ptrs pkg) m"
  by (simp add: clib_package_free_def freed_ptrs_def destroy_deps_ptrs free_ptrs_append Let_def split: option.split)
    (simp add: free_ptrs_def)

lemma holds_dep_new:
  assumes "sound m0" and "holds m0 ps m" and "version \<in> set ps" and "version \<noteq> Null"
    and "clib_package_dependency_new api (Literal name) version m = (r, m')"
  shows "\<exists>d. r = Some d \<and> holds m0 (dep_ptrs d @ ps) m' \<and> ptext (dp_name d) = ca_repo_name api name \<and>
    ptext (dp_author d) = ca_repo_owner api name DEFAULT_REPO_OWNER \<and>
    ptext (dp_version d) = Some (if text_of version = str ''*'' then DEFAULT_REPO_VERSION else text_of version)"
proof -
  obtain self m1 where 1: "c_new [] m = (self, m1)" by fastforce
  note h1 = holds_new [OF assms(1,2) 1]
  have rv: "c_read version m1 = m1" using holds_read [OF h1(1), of version] assms(3,4) by simp
  let ?v = "if text_of version = str ''*'' then DEFAULT_REPO_VERSION else text_of version"
  obtain v m2 where 2: "c_new ?v m1 = (v, m2)" by fastforce
  note h2 = holds_new [OF assms(1) h1(1) 2]
  obtain n m3 where 3: "copy_of (ca_repo_name api name) m2 = (n, m3)" by fastforce
  note h3 = holds_copy [OF assms(1) h2(1) 3]
  obtain a m4 where 4: "copy_of (ca_repo_owner api name DEFAULT_REPO_OWNER) m3 = (a, m4)" by fastforce
  note h4 = holds_copy [OF assms(1) h3(1) 4]
  note self = h1(5)
  have r: "r = Some \<lparr>dp_block = self, dp_name = n, dp_author = a, dp_version = v\<rparr>" "m' = m4"
    using assms(4,5) 1 2 3 4 rv
    by (auto simp: clib_package_dependency_new_def strdup_def clib_package_parse_name_def clib_package_parse_author_def
        self eq_commute [of "str ''*''"] split: if_splits)
  have "holds m0 (dep_ptrs \<lparr>dp_block = self, dp_name = n, dp_author = a, dp_version = v\<rparr> @ ps) m4"
    using h4(1) by (rule holds_perm) (simp add: dep_ptrs_def)
  then show ?thesis using r h4(2) h3(2) h2(3) by simp
qed

definition dep_texts :: "dependency \<Rightarrow> bytes option \<times> bytes option \<times> bytes option" where
  "dep_texts d = (ptext (dp_author d), ptext (dp_name d), ptext (dp_version d))"

text \<open>What an entry of a list of dependencies means.\<close>

definition entry_texts :: "'a clib_api_scheme \<Rightarrow> bytes option \<times> bytes option \<Rightarrow> bytes option \<times> bytes option \<times> bytes option" where
  "entry_texts api e =
     (ca_repo_owner api (the (fst e)) DEFAULT_REPO_OWNER, ca_repo_name api (the (fst e)),
      Some (if the (snd e) = str ''*'' then DEFAULT_REPO_VERSION else the (snd e)))"

definition entries_ok :: "(bytes option \<times> bytes option) list \<Rightarrow> bool" where
  "entries_ok es \<longleftrightarrow> (\<forall>(n, v)\<in>set es. n \<noteq> None \<and> v \<noteq> None)"

lemma deps_ptrs_simps [simp]:
  "deps_ptrs None = []" "deps_ptrs (Some []) = []" "deps_ptrs (Some (d # ds)) = dep_ptrs d @ deps_ptrs (Some ds)"
  "deps_ptrs (Some (ds @ [d])) = deps_ptrs (Some ds) @ dep_ptrs d"
  by (simp_all add: deps_ptrs_def)

lemma holds_deps_loop:
  assumes "sound m0"
  shows "holds m0 (deps_ptrs (Some ds) @ ps) m \<Longrightarrow> deps_loop api es ds m = (r, m') \<Longrightarrow>
    holds m0 (deps_ptrs r @ ps) m' \<and>
    map_option (List.map dep_texts) r = (if entries_ok es then Some (List.map dep_texts ds @ List.map (entry_texts api) es) else None)"
proof (induction api es ds m rule: deps_loop.induct)
  case (1 api ds m)
  then have "r = Some ds" "m' = m" by simp_all
  then show ?case using 1(1) by (simp add: entries_ok_def)
next
  case (2 api name item entries ds m)
  note IH = "2.IH" and h = "2.prems"(1) and run = "2.prems"(2)
  have gone: "holds m0 ps (destroy_deps (Some ds) m1)" if "holds m0 (deps_ptrs (Some ds) @ ps) m1" for m1
    unfolding destroy_deps_ptrs by (rule holds_free_ptrs [OF assms that])
  show ?case
  proof (cases name)
    case None
    then show ?thesis using run gone [OF h] by (auto simp: entries_ok_def)
  next
    case (Some n)
    obtain v m1 where 1: "copy_of item m = (v, m1)" by fastforce
    note h1 = holds_copy [OF assms h 1]
    show ?thesis
    proof (cases "v = Null")
      case True
      then have "item = None" using h1(2) by simp
      moreover have "holds m0 (deps_ptrs (Some ds) @ ps) m1" using h1(1) True by (simp add: holds_def)
      ultimately show ?thesis using run 1 gone True Some by (auto simp: entries_ok_def)
    next
      case False
      obtain i s where v: "v = Block i s" using h1(3) False by (cases item) auto
      then have val: "item = Some s" using h1(2) by simp
      obtain q m2 where 2: "clib_package_dependency_new api (Literal n) v m1 = (q, m2)" by fastforce
      obtain d where d: "q = Some d" "holds m0 (dep_ptrs d @ v # deps_ptrs (Some ds) @ ps) m2"
        "ptext (dp_name d) = ca_repo_name api n" "ptext (dp_author d) = ca_repo_owner api n DEFAULT_REPO_OWNER"
        "ptext (dp_version d) = Some (if text_of v = str ''*'' then DEFAULT_REPO_VERSION else text_of v)"
        using holds_dep_new [OF assms h1(1) _ False 2] by auto
      have "holds m0 (v # deps_ptrs (Some (ds @ [d])) @ ps) m2"
        using d(2) by (rule holds_perm) (simp add: ac_simps)
      from holds_free [OF assms this]
      have h3: "holds m0 (deps_ptrs (Some (ds @ [d])) @ ps) (c_free v m2)" .
      have loop: "deps_loop api entries (ds @ [d]) (c_free v m2) = (r, m')"
        using \<open>deps_loop api ((name, item) # entries) ds m = (r, m')\<close> Some 1 2 d(1) v by simp
      have "dep_texts d = entry_texts api (name, item)" using d(3-5) by (simp add: entry_texts_def dep_texts_def Some val v)
      moreover have "entries_ok ((name, item) # entries) = entries_ok entries" by (simp add: entries_ok_def Some val)
      ultimately show ?thesis
        using IH [OF Some 1 [symmetric] False 2 [symmetric] d(1) h3 loop] by simp
    qed
  qed
qed

text \<open>The flags that are put together from the strings of an array.\<close>

definition somes :: "'a option list \<Rightarrow> 'a list" where
  "somes es = List.map the (List.filter (\<lambda>e. e \<noteq> None) es)"

lemma somes_simps [simp]: "somes [] = []" "somes (None # es) = somes es" "somes (Some x # es) = x # somes es"
  by (simp_all add: somes_def)

definition flags_text :: "bytes option \<Rightarrow> bytes list \<Rightarrow> bytes option" where
  "flags_text start fs =
     (if fs = [] then start
      else Some ((case start of None \<Rightarrow> [] | Some s \<Rightarrow> s) @ concat (List.map (\<lambda>f. c_space # f) fs)))"

lemma holds_flags_loop:
  assumes "sound m0"
  shows "holds m0 (flags # ps) m \<Longrightarrow> flags_loop es flags m = (r, m') \<Longrightarrow>
    \<exists>f lost. r = Some f \<and> holds m0 (f # lost @ ps) m' \<and> Null \<notin> set lost \<and> ptext f = flags_text (ptext flags) (somes es) \<and>
      length lost = (if flags = Null then length (somes es) - 1 else length (somes es))"
proof (induction es flags m arbitrary: ps rule: flags_loop.induct)
  case (1 flags m)
  then have "r = Some flags" "m' = m" by simp_all
  then show ?case using 1(1) by (intro exI [of _ flags] exI [of _ "[]"]) (simp add: flags_text_def)
next
  case (2 e es flags m)
  note IH = "2.IH" and h = "2.prems"(1) and run = "2.prems"(2)
  show ?case
  proof (cases e)
    case None
    then have "copy_of e m = (Null, m)" by (simp add: copy_of_def)
    moreover from this have "flags_loop es flags m = (r, m')" using run by simp
    ultimately show ?thesis unfolding None somes_simps using IH(1) [OF _ refl h] None by metis
  next
    case (Some s)
    obtain flag m1 where 1: "copy_of e m = (flag, m1)" by fastforce
    note h1 = holds_copy [OF assms h 1]
    have flag: "flag = Block (cl_next m) s" using h1(3) Some by simp
    define old where "old = (if flags = Null then Literal [] else flags)"
    have rd: "c_read old m1 = m1" using holds_read [OF h1(1), of flags] by (simp add: old_def)
    obtain new m2 where 2: "c_new (text_of old @ [c_space] @ text_of flag) m1 = (new, m2)" by fastforce
    note h2 = holds_new [OF assms h1(1) 2]
    have "holds m0 (flag # new # flags # ps) m2" using h2(1) by (rule holds_perm) simp
    note h3 = holds_free [OF assms this]
    have go: "flags_loop es new (c_free flag m2) = (r, m')"
      using run 1 2 rd h2(5) unfolding flag by (simp add: old_def Let_def)
    have new_text: "ptext new = Some ((case ptext flags of None \<Rightarrow> [] | Some s \<Rightarrow> s) @ c_space # s)"
      using h2(3) by (cases flags) (simp_all add: old_def flag)
    have "\<exists>f lost. r = Some f \<and> holds m0 (f # lost @ flags # ps) m' \<and> Null \<notin> set lost \<and>
      ptext f = flags_text (ptext new) (somes es) \<and>
      length lost = (if new = Null then length (somes es) - 1 else length (somes es))"
      using IH(2) [OF 1 [symmetric] _ old_def _ h2(2) h3 go] flag rd 2 by simp
    then obtain f lost where f: "r = Some f" "holds m0 (f # lost @ flags # ps) m'" "Null \<notin> set lost"
      "ptext f = flags_text (ptext new) (somes es)" "length lost = length (somes es)"
      using h2(2) by auto
    have ftext: "ptext f = flags_text (ptext flags) (somes (e # es))"
      unfolding f(4) new_text Some by (cases "somes es") (simp_all add: flags_text_def)
    show ?thesis
    proof (cases "flags = Null")
      case True
      have "holds m0 (f # lost @ ps) m'" using f(2) by (simp add: holds_def True)
      then show ?thesis using f(1,3,5) ftext True Some by auto
    next
      case False
      have "holds m0 (f # (lost @ [flags]) @ ps) m'" using f(2) by (rule holds_perm) simp
      then show ?thesis using f(1,3,5) ftext False Some
        by (intro exI [of _ f] exI [of _ "lost @ [flags]"]) simp
    qed
  qed
qed

lemma holds_src_loop:
  assumes "sound m0"
  shows "holds m0 (files @ ps) m \<Longrightarrow> src_loop es files m = (fs, ok, m') \<Longrightarrow>
    holds m0 (fs @ ps) m' \<and> (ok \<longleftrightarrow> None \<notin> set es) \<and> (ok \<longrightarrow> List.map ptext fs = List.map ptext files @ es)"
proof (induction es files m rule: src_loop.induct)
  case (2 e es files m)
  obtain p m1 where 1: "copy_of e m = (p, m1)" by fastforce
  note h1 = holds_copy [OF assms "2.prems"(1) 1]
  show ?case
  proof (cases "p = Null")
    case True
    have "holds m0 (files @ ps) m1" using h1(1) True by (simp add: holds_def)
    then show ?thesis using "2.prems"(2) 1 True h1(2) by auto
  next
    case False
    then obtain t where e: "e = Some t" using h1(2) by (cases e) auto
    have "holds m0 ((files @ [p]) @ ps) m1" using h1(1) by (rule holds_perm) simp
    then show ?thesis using "2.IH" [OF 1 [symmetric] False] "2.prems"(2) 1 False h1(2) e by auto
  qed
qed auto

lemma holds_get_fields:
  assumes "sound m0"
  shows "holds m0 ps m \<Longrightarrow> get_fields obj fs pkg m = (pkg', m') \<Longrightarrow>
    \<exists>qs. holds m0 (rev qs @ ps) m' \<and> List.map ptext qs = List.map (mf_string obj \<circ> fst) fs \<and>
      pkg' = fold (\<lambda>((_, upd), q). upd (\<lambda>_. q)) (zip fs qs) pkg"
proof (induction obj fs pkg m arbitrary: ps rule: get_fields.induct)
  case (2 obj key upd fs pkg m)
  obtain p m1 where 1: "json_object_get_string_safe obj key m = (p, m1)" by fastforce
  note h1 = holds_copy [OF assms "2.prems"(1) 1 [unfolded json_object_get_string_safe_def]]
  have "get_fields obj fs (upd (\<lambda>_. p) pkg) m1 = (pkg', m')" using "2.prems"(2) 1 by simp
  then obtain qs where "holds m0 (rev qs @ p # ps) m'" "List.map ptext qs = List.map (mf_string obj \<circ> fst) fs"
    "pkg' = fold (\<lambda>((_, upd), q). upd (\<lambda>_. q)) (zip fs qs) (upd (\<lambda>_. p) pkg)"
    using "2.IH" [OF 1 [symmetric] h1(1)] by auto
  then show ?case using h1(2) by (intro exI [of _ "p # qs"]) simp
qed (simp add: exI [of _ "[]"])

lemma holds_Null [simp]:
  "holds m0 (Null # ps) m = holds m0 ps m" "holds m0 (p # Null # ps) m = holds m0 (p # ps) m"
  by (simp_all add: holds_def)

text \<open>The elements of the array the flags are taken from.\<close>

definition flags_array :: "manifest \<Rightarrow> bytes list" where
  "flags_array obj =
     (if mf_string obj (str ''flags'') \<noteq> None \<or> mf_string obj (str ''cflags'') \<noteq> None then []
      else case mf_array obj (str ''flags'') of
        Some a \<Rightarrow> somes a
      | None \<Rightarrow> (case mf_array obj (str ''cflags'') of None \<Rightarrow> [] | Some a \<Rightarrow> somes a))"

lemma holds_package_flags:
  assumes "sound m0" and "holds m0 ps m" and "package_flags obj m = (r, m')"
  shows "\<exists>f lost. r = Some f \<and> holds m0 (f # lost @ ps) m' \<and> Null \<notin> set lost \<and> length lost = length (flags_array obj) - 1"
proof -
  obtain a m1 where 1: "copy_of (mf_string obj (str ''flags'')) m = (a, m1)" by fastforce
  note h1 = holds_copy [OF assms(1,2) 1]
  obtain b m2 where 2: "copy_of (mf_string obj (str ''cflags'')) m1 = (b, m2)" by fastforce
  note h2 = holds_copy [OF assms(1) h1(1) 2]
  note run = assms(3) [unfolded package_flags_def json_object_get_string_safe_def Let_def 1 2 prod.case]
  show ?thesis
  proof (cases "a = Null \<and> b = Null")
    case False
    have "\<exists>f. r = Some f \<and> holds m0 (f # ps) m'"
      using False run h1(1) h2(1) by (cases "a = Null") (auto split: prod.splits simp: 2)
    moreover have "flags_array obj = []" using False h1(2) h2(2) by (auto simp: flags_array_def)
    ultimately show ?thesis by (metis append_Nil diff_0_eq_0 empty_iff empty_set list.size(3))
  next
    case True
    then have none: "mf_string obj (str ''flags'') = None" "mf_string obj (str ''cflags'') = None"
      using h1(2) h2(2) by auto
    have h: "holds m0 (Null # ps) m2" using h2(1) True by simp
    show ?thesis
    proof (cases "case mf_array obj (str ''flags'') of None \<Rightarrow> mf_array obj (str ''cflags'') | Some a \<Rightarrow> Some a")
      case None
      then have "flags_array obj = []" by (auto simp: flags_array_def split: option.splits)
      moreover have "r = Some Null" "m' = m2" using run True None by (auto simp: 2)
      ultimately show ?thesis using h by (intro exI [of _ Null] exI [of _ "[]"]) simp
    next
      case (Some es)
      then have arr: "flags_array obj = somes es" using none by (auto simp: flags_array_def split: option.splits)
      have "flags_loop es Null m2 = (r, m')" using run True Some by (auto simp: 2)
      from holds_flags_loop [OF assms(1) h this] show ?thesis by (auto simp: arr)
    qed
  qed
qed

lemma string_fields_package:
  assumes "sound m0" and "holds m0 ps m" and "get_fields obj string_fields pkg m = (pkg', m')"
  obtains name repo version license description configure install makefile prefix where
    "holds m0 ([prefix, makefile, install, configure, description, license, version, repo, name] @ ps) m'"
    "pkg' = pkg\<lparr>pk_name := name, pk_repo := repo, pk_version := version, pk_license := license, pk_description := description,
      pk_configure := configure, pk_install := install, pk_makefile := makefile, pk_prefix := prefix\<rparr>"
    "List.map ptext [name, repo, version, license, description, configure, install, makefile, prefix] =
      List.map (mf_string obj) [str ''name'', str ''repo'', str ''version'', str ''license'', str ''description'',
        str ''configure'', str ''install'', str ''makefile'', str ''prefix'']"
proof -
  obtain qs where qs: "holds m0 (rev qs @ ps) m'" "List.map ptext qs = List.map (mf_string obj \<circ> fst) string_fields"
      "pkg' = fold (\<lambda>((_, upd), q). upd (\<lambda>_. q)) (zip string_fields qs) pkg"
    using holds_get_fields [OF assms] by blast
  have "length qs = 9" using arg_cong [where f = length, OF qs(2)] by (simp add: string_fields_def)
  then obtain a b c d e f g h i where q: "qs = [a, b, c, d, e, f, g, h, i]"
    by (auto simp: numeral_eq_Suc length_Suc_conv)
  show thesis
  proof (rule that)
    show "holds m0 ([i, h, g, f, e, d, c, b, a] @ ps) m'" using qs(1) by (simp add: q)
    show "pkg' = pkg\<lparr>pk_name := a, pk_repo := b, pk_version := c, pk_license := d, pk_description := e,
      pk_configure := f, pk_install := g, pk_makefile := h, pk_prefix := i\<rparr>"
      unfolding qs(3) q string_fields_def by (simp only: zip_Cons_Cons fold_Cons zip_Nil fold_Nil o_apply id_apply prod.case list.simps)
    show "List.map ptext [a, b, c, d, e, f, g, h, i] =
      List.map (mf_string obj) [str ''name'', str ''repo'', str ''version'', str ''license'', str ''description'',
        str ''configure'', str ''install'', str ''makefile'', str ''prefix'']"
      using qs(2) unfolding q string_fields_def by (simp only: list.map o_apply fst_conv)
  qed
qed

lemma holds_package_repo:
  assumes "sound m0" and "holds m0 (freed_ptrs pkg @ lost) m" and "pk_author pkg = Null" and "pk_repo_name pkg = Null"
    and "package_repo api pkg m = (pkg', m')"
  shows "\<exists>a n. pkg' = pkg\<lparr>pk_author := a, pk_repo_name := n\<rparr> \<and> holds m0 (freed_ptrs pkg' @ lost) m' \<and>
    ptext a = Option.bind (ptext (pk_repo pkg)) (\<lambda>r. ca_repo_owner api r DEFAULT_REPO_OWNER) \<and>
    ptext n = Option.bind (ptext (pk_repo pkg)) (ca_repo_name api)"
proof (cases "pk_repo pkg = Null")
  case True
  then have "pkg' = pkg" "m' = m" using assms(3-5) by (auto simp: package_repo_def)
  then show ?thesis using assms(2-4) True by (intro exI [of _ Null]) simp
next
  case False
  then obtain r where r: "ptext (pk_repo pkg) = Some r" "text_of (pk_repo pkg) = r" by (cases "pk_repo pkg") auto
  have rd: "c_read (pk_repo pkg) m = m" using holds_read [OF assms(2) _ False] by (simp add: freed_ptrs_def)
  obtain a m1 where 1: "copy_of (ca_repo_owner api r DEFAULT_REPO_OWNER) m = (a, m1)" by fastforce
  note h1 = holds_copy [OF assms(1,2) 1]
  have rd1: "c_read (pk_repo pkg) m1 = m1" using holds_read [OF h1(1) _ False] by (simp add: freed_ptrs_def)
  obtain n m2 where 2: "copy_of (ca_repo_name api r) m1 = (n, m2)" by fastforce
  note h2 = holds_copy [OF assms(1) h1(1) 2]
  have e: "pkg' = pkg\<lparr>pk_author := a, pk_repo_name := n\<rparr>" "m' = m2"
    using assms(3,5) False 1 2 r(2) rd rd1
    by (auto simp: package_repo_def clib_package_parse_author_def clib_package_parse_name_def)
  have "holds m0 (Null # Null # freed_ptrs pkg' @ lost) m2"
    using h2(1) by (rule holds_perm) (simp add: e freed_ptrs_def assms(3,4))
  then have "holds m0 (freed_ptrs pkg' @ lost) m2" by simp
  then show ?thesis using e h1(2) h2(2) r(1) by auto
qed

definition files_of :: "manifest \<Rightarrow> bytes option list option" where
  "files_of obj = (case mf_array obj (str ''src'') of None \<Rightarrow> mf_array obj (str ''files'') | Some a \<Rightarrow> Some a)"

lemma holds_package_src:
  assumes "sound m0" and "holds m0 (freed_ptrs pkg @ lost) m" and "pk_src pkg = None"
    and "package_src obj pkg m = (pkg', ok, m')"
  shows "\<exists>fs. pkg' = pkg\<lparr>pk_src := fs\<rparr> \<and> holds m0 (freed_ptrs pkg' @ lost) m' \<and>
    (ok \<longleftrightarrow> (\<forall>es. files_of obj = Some es \<longrightarrow> None \<notin> set es)) \<and> (ok \<longrightarrow> map_option (List.map ptext) fs = files_of obj)"
proof (cases "files_of obj")
  case None
  moreover have same: "pkg\<lparr>pk_src := None\<rparr> = pkg" using assms(3) by (cases pkg) simp
  ultimately have "pkg' = pkg" "ok" "m' = m" using assms(4) by (auto simp: package_src_def files_of_def)
  then show ?thesis using assms(2) None same by (intro exI [of _ None]) simp
next
  case (Some es)
  obtain fs where fs: "src_loop es [] m = (fs, ok, m')" "pkg' = pkg\<lparr>pk_src := Some fs\<rparr>"
    using assms(4) Some by (auto simp: package_src_def files_of_def split: prod.splits)
  have "holds m0 ([] @ freed_ptrs pkg @ lost) m" using assms(2) by simp
  note h = holds_src_loop [OF assms(1) this fs(1)]
  have "holds m0 (freed_ptrs pkg' @ lost) m'"
    using conjunct1 [OF h] by (rule holds_perm) (simp add: fs(2) freed_ptrs_def assms(3))
  then show ?thesis using h fs(2) Some by (intro exI [of _ "Some fs"]) auto
qed

definition object_ok :: "manifest \<Rightarrow> bytes \<Rightarrow> bool" where
  "object_ok obj key \<longleftrightarrow> (case mf_object obj key of None \<Rightarrow> True | Some es \<Rightarrow> entries_ok es)"

lemma holds_package_deps:
  assumes "sound m0" and "holds m0 ps m" and "package_deps api obj key m = (ds, ok, m')"
  shows "holds m0 (deps_ptrs ds @ ps) m' \<and> (ok \<longleftrightarrow> object_ok obj key) \<and>
    (ok \<longrightarrow> map_option (List.map dep_texts) ds = map_option (List.map (entry_texts api)) (mf_object obj key))"
proof (cases "mf_object obj key")
  case None
  then show ?thesis using assms by (auto simp: package_deps_def object_ok_def)
next
  case (Some es)
  obtain q where q: "deps_loop api es [] m = (q, m')" "ds = q" "ok = (q \<noteq> None)"
    using assms(3) Some by (auto simp: package_deps_def parse_package_deps_def split: prod.splits)
  have "holds m0 (deps_ptrs (Some []) @ ps) m" using assms(2) by simp
  note h = holds_deps_loop [OF assms(1) this q(1)]
  have "ok \<longleftrightarrow> entries_ok es" using conjunct2 [OF h] q(3) by (cases "entries_ok es") auto
  then show ?thesis using h q(2,3) Some by (auto simp: object_ok_def split: if_splits)
qed

lemma holds_released:
  assumes "sound m0" and "holds m0 (freed_ptrs pkg @ lost) m" and "pk_refs pkg = 0"
  shows "holds m0 lost (clib_package_free (Some pkg) m)"
  unfolding package_free_ptrs [OF assms(3)] by (rule holds_free_ptrs [OF assms(1,2)])

lemma length_blocks_real:
  assumes "holds m0 (ps @ qs) m" and "Null \<notin> set ps"
  shows "length (blocks ps) = length ps"
proof -
  have "\<forall>s. Literal s \<notin> set ps" using assms(1) by (simp add: holds_def)
  then show ?thesis using assms(2)
  proof (induction ps)
    case (Cons p ps)
    then show ?case by (cases p) auto
  qed simp
qed

subsection \<open>The package of a manifest\<close>

text \<open>
  A manifest that is accepted, what the package for it holds, and how many blocks are lost on the way:
  the prefix is never released, and neither is any flag text but the last.
\<close>

definition manifest_ok :: "manifest \<Rightarrow> bool" where
  "manifest_ok obj \<longleftrightarrow> (\<forall>es. files_of obj = Some es \<longrightarrow> None \<notin> set es) \<and>
     object_ok obj (str ''dependencies'') \<and> object_ok obj (str ''development'')"

definition describes :: "'a clib_api_scheme \<Rightarrow> manifest \<Rightarrow> bytes \<Rightarrow> package \<Rightarrow> bool" where
  "describes api obj json pkg \<longleftrightarrow>
     ptext (pk_json pkg) = Some json \<and> ptext (pk_name pkg) = mf_string obj (str ''name'') \<and>
     ptext (pk_repo pkg) = mf_string obj (str ''repo'') \<and> ptext (pk_version pkg) = mf_string obj (str ''version'') \<and>
     ptext (pk_configure pkg) = mf_string obj (str ''configure'') \<and> ptext (pk_install pkg) = mf_string obj (str ''install'') \<and>
     ptext (pk_makefile pkg) = mf_string obj (str ''makefile'') \<and>
     ptext (pk_author pkg) = Option.bind (mf_string obj (str ''repo'')) (\<lambda>r. ca_repo_owner api r DEFAULT_REPO_OWNER) \<and>
     pk_url pkg = Null \<and> pk_refs pkg = 0 \<and> pk_filename pkg = None \<and>
     map_option (List.map ptext) (pk_src pkg) = files_of obj \<and>
     map_option (List.map dep_texts) (pk_dependencies pkg) = map_option (List.map (entry_texts api)) (mf_object obj (str ''dependencies'')) \<and>
     map_option (List.map dep_texts) (pk_development pkg) = map_option (List.map (entry_texts api)) (mf_object obj (str ''development''))"

definition lost_blocks :: "manifest \<Rightarrow> nat" where
  "lost_blocks obj = (if mf_string obj (str ''prefix'') = None then 0 else 1) + (length (flags_array obj) - 1)"

definition owned :: "package option \<Rightarrow> cptr list" where
  "owned r = (case r of None \<Rightarrow> [] | Some pkg \<Rightarrow> freed_ptrs pkg)"

lemma fault_same: "fault u m = m \<longleftrightarrow> cl_fault m \<noteq> None"
proof
  assume "fault u m = m"
  from arg_cong [where f = cl_fault, OF this] show "cl_fault m \<noteq> None" by (auto simp: fault_def split: if_splits)
qed (auto simp: fault_def)

lemma still_readable: "c_read p m0 = m0 \<Longrightarrow> holds m0 ps m \<Longrightarrow> c_read p m = m"
  using holds_keeps(2,4) [of m0 ps m] by (cases p) (auto simp: fault_same)

lemma holds_package_new:
  assumes "sound m" and "json \<noteq> Null" and "c_read json m = m"
    and "ca_json_parse api (text_of json) = Some (Manifest obj)" and "clib_package_new api json m = (r, m')"
  shows "\<exists>lost. holds m (owned r @ lost) m' \<and> length (blocks lost) = lost_blocks obj \<and>
    (case r of None \<Rightarrow> \<not> manifest_ok obj | Some pkg \<Rightarrow> manifest_ok obj \<and> describes api obj (text_of json) pkg)"
proof -
  obtain self m1 where 1: "c_new [] m = (self, m1)" by fastforce
  note h1 = holds_new [OF assms(1) holds_refl 1]
  have rd: "c_read json m1 = m1"
    using assms(3) h1(1) by (rule still_readable)
  obtain json' m2 where 2: "c_new (text_of json) m1 = (json', m2)" by fastforce
  note h2 = holds_new [OF assms(1) h1(1) 2]
  obtain p0 m3 where 3: "get_fields obj string_fields ((empty_package self)\<lparr>pk_json := json'\<rparr>) m2 = (p0, m3)" by fastforce
  obtain name repo version license description configure install makefile prefix where
    f: "holds m ([prefix, makefile, install, configure, description, license, version, repo, name] @ [json', self]) m3"
      "p0 = (empty_package self)\<lparr>pk_json := json', pk_name := name, pk_repo := repo, pk_version := version, pk_license := license,
        pk_description := description, pk_configure := configure, pk_install := install, pk_makefile := makefile, pk_prefix := prefix\<rparr>"
      "List.map ptext [name, repo, version, license, description, configure, install, makefile, prefix] =
        List.map (mf_string obj) [str ''name'', str ''repo'', str ''version'', str ''license'', str ''description'',
          str ''configure'', str ''install'', str ''makefile'', str ''prefix'']"
    using string_fields_package [OF assms(1) h2(1) 3] .
  obtain fl m4 where 4: "package_flags obj m3 = (fl, m4)" by fastforce
  obtain flags chain where flags: "fl = Some flags"
      "holds m (flags # chain @ [prefix, makefile, install, configure, description, license, version, repo, name, json', self]) m4"
      "Null \<notin> set chain" "length chain = length (flags_array obj) - 1"
    using holds_package_flags [OF assms(1) f(1) 4] by auto
  define lost where "lost = prefix # chain"
  define p1 where "p1 = p0\<lparr>pk_flags := flags\<rparr>"
  have p1: "pk_author p1 = Null" "pk_repo_name p1 = Null" "pk_src p1 = None" "pk_refs p1 = 0" "pk_dependencies p1 = None"
    "pk_development p1 = None" by (simp_all add: p1_def f(2) empty_package_def)
  have h4: "holds m (freed_ptrs p1 @ lost) m4"
  proof -
    have "holds m (Null # Null # Null # flags # chain @ [prefix, makefile, install, configure, description, license,
        version, repo, name, json', self]) m4" using flags(2) by simp
    then show ?thesis by (rule holds_perm) (simp add: p1_def f(2) empty_package_def freed_ptrs_def lost_def)
  qed
  have lost: "length (blocks lost) = lost_blocks obj"
  proof -
    have "holds m (chain @ flags # [prefix, makefile, install, configure, description, license, version, repo, name, json', self]) m4"
      using flags(2) by (rule holds_perm) simp
    from length_blocks_real [OF this flags(3)] have "length (blocks chain) = length (flags_array obj) - 1" using flags(4) by simp
    moreover have "length (block_of prefix) = (if mf_string obj (str ''prefix'') = None then 0 else 1)"
      using f(1,3) by (cases prefix) (auto simp: holds_def)
    ultimately show ?thesis by (simp add: lost_def lost_blocks_def)
  qed
  obtain p2 m5 where 5: "package_repo api p1 m4 = (p2, m5)" by fastforce
  obtain a n where p2: "p2 = p1\<lparr>pk_author := a, pk_repo_name := n\<rparr>" "holds m (freed_ptrs p2 @ lost) m5"
      "ptext a = Option.bind (ptext repo) (\<lambda>r. ca_repo_owner api r DEFAULT_REPO_OWNER)"
    using holds_package_repo [OF assms(1) h4 p1(1,2) 5] by (auto simp: p1_def f(2))
  obtain p3 ok m6 where 6: "package_src obj p2 m5 = (p3, ok, m6)" by (metis prod_cases3)
  have "pk_src p2 = None" using p1(3) by (simp add: p2(1))
  from holds_package_src [OF assms(1) p2(2) this 6]
  obtain fs where p3: "p3 = p2\<lparr>pk_src := fs\<rparr>" "holds m (freed_ptrs p3 @ lost) m6"
    "ok \<longleftrightarrow> (\<forall>es. files_of obj = Some es \<longrightarrow> None \<notin> set es)" "ok \<longrightarrow> map_option (List.map ptext) fs = files_of obj" by auto
  obtain ds ok1 m7 where 7: "package_deps api obj (str ''dependencies'') m6 = (ds, ok1, m7)" by (metis prod_cases3)
  note d1 = holds_package_deps [OF assms(1) p3(2) 7]
  define p4 where "p4 = p3\<lparr>pk_dependencies := ds\<rparr>"
  have h7: "holds m (freed_ptrs p4 @ lost) m7"
    using conjunct1 [OF d1] by (rule holds_perm) (simp add: p4_def p3(1) p2(1) p1 freed_ptrs_def)
  obtain vs ok2 m8 where 8: "package_deps api obj (str ''development'') m7 = (vs, ok2, m8)" by (metis prod_cases3)
  note d2 = holds_package_deps [OF assms(1) h7 8]
  define p5 where "p5 = p4\<lparr>pk_development := vs\<rparr>"
  have h8: "holds m (freed_ptrs p5 @ lost) m8"
    using conjunct1 [OF d2] by (rule holds_perm) (simp add: p5_def p4_def p3(1) p2(1) p1 freed_ptrs_def)
  have refs: "pk_refs p3 = 0" "pk_refs p4 = 0" "pk_refs p5 = 0" by (simp_all add: p5_def p4_def p3(1) p2(1) p1)
  have run: "(r, m') =
    (if \<not> ok then (None, clib_package_free (Some p3) m6)
     else if \<not> ok1 then (None, clib_package_free (Some p4) m7)
     else if \<not> ok2 then (None, clib_package_free (Some p5) m8) else (Some p5, m8))"
    using assms(2-5) 1 2 3 4 5 6 7 8 h1(2) rd
    by (cases ok; cases ok1; cases ok2;
        simp add: clib_package_new_def strdup_def flags(1) p1_def [symmetric] p4_def [symmetric] p5_def [symmetric] Let_def)
  show ?thesis
  proof (cases "ok \<and> ok1 \<and> ok2")
    case True
    have "describes api obj (text_of json) p5"
      using True f(3) p2(3) p3(4) d1 d2 h2(3)
      by (simp add: describes_def p5_def p4_def p3(1) p2(1) p1_def f(2) empty_package_def)
    moreover have "manifest_ok obj" using True p3(3) d1 d2 by (simp add: manifest_ok_def)
    moreover have "r = Some p5" "m' = m8" using run True by simp_all
    ultimately show ?thesis using h8 lost by (intro exI [of _ lost]) (simp add: owned_def)
  next
    case False
    then have no: "\<not> manifest_ok obj" using p3(3) d1 d2 by (auto simp: manifest_ok_def)
    have "r = None \<and> holds m lost m'"
      using False run holds_released [OF assms(1) p3(2) refs(1)] holds_released [OF assms(1) h7 refs(2)]
        holds_released [OF assms(1) h8 refs(3)] by (auto split: if_splits)
    then show ?thesis using no lost by (intro exI [of _ lost]) (simp add: owned_def)
  qed

qed

lemma holds_live:
  assumes "sound m" and "holds m ps m'"
  shows "cl_live m \<subseteq> cl_live m'" and "card (cl_live m' - cl_live m) = length (blocks ps)"
proof -
  have l: "cl_live m' = cl_live m \<union> set (blocks ps)" by (rule holds_keeps(4) [OF assms(2)])
  have "distinct (blocks ps)" "set (blocks ps) \<inter> cl_live m = {}"
    using assms by (auto simp: holds_def sound_def) (meson not_less)
  moreover from this(2) have "cl_live m' - cl_live m = set (blocks ps)" using l by auto
  ultimately show "cl_live m \<subseteq> cl_live m'" "card (cl_live m' - cl_live m) = length (blocks ps)"
    using l by (auto simp: distinct_card)
qed


definition sample_manifest :: manifest where
  "sample_manifest =
     \<lparr>mf_string = (\<lambda>k. if k = str ''name'' then Some (str ''n'') else if k = str ''prefix'' then Some (str ''p'') else None),
      mf_array = (\<lambda>k. if k = str ''cflags'' then Some [Some (str ''a''), None, Some (str ''b'')] else None),
      mf_object = (\<lambda>k. if k = str ''dependencies'' then Some [(Some (str ''o/d''), Some (str ''*''))] else None)\<rparr>"

definition sample_api :: clib_api where
  "sample_api = \<lparr>ca_json_parse = (\<lambda>_. Some (Manifest sample_manifest)), ca_repo_owner = (\<lambda>_ d. Some d),
     ca_repo_name = (\<lambda>s. Some s), ca_repo_version = (\<lambda>_ d. Some d)\<rparr>"

definition empty_state :: clib where
  "empty_state = \<lparr>cl_next = 0, cl_live = {}, cl_full = (\<lambda>_. False), cl_fault = None, cl_locked = False,
     cl_bad_unlocks = 0, cl_share = False, cl_opts = default_opts, cl_visited = {}, cl_threads = 0, cl_calls = []\<rparr>"


text \<open>
  every address the program puts together fits the block allocated for it, with a token and without.
\<close>

theorem addresses_fit:
  assumes "\<forall>p\<in>{a, n, v}. p \<noteq> Null \<and> c_read p m = m"
  shows "clib_package_url a n v m =
       c_new (github_url (op_token (cl_opts m)) @ text_of a @ [c_slash] @ text_of n @ [c_slash] @ text_of v) m \<and>
     clib_package_url_from_repo a v m = c_new (github_url (op_token (cl_opts m)) @ text_of a @ [c_slash] @ text_of v) m \<and>
     clib_package_slug a n v m = c_new (text_of a @ [c_slash] @ text_of n @ [c_at] @ text_of v) m \<and>
     clib_package_file_url a n m = c_new (text_of a @ [c_slash] @ text_of n) m \<and>
     clib_package_repo a n m = c_new (text_of a @ [c_slash] @ text_of n) m"
proof -
  have rd: "c_read a m = m" "c_read n m = m" "c_read v m = m" "a \<noteq> Null" "n \<noteq> Null" "v \<noteq> Null" using assms by auto
  have tok: "length (github_url (op_token (cl_opts m))) = length GITHUB_CONTENT_URL + token_size (op_token (cl_opts m))"
    by (cases "op_token (cl_opts m)") (simp_all add: github_url_def token_size_def GITHUB_CONTENT_URL_def)
  have fits: "sprintf_into k s m = c_new s m" if "length s < k" for k s
    using that by (simp add: sprintf_into_def split: prod.split)
  show ?thesis
    using rd tok
    by (simp add: clib_package_url_def clib_package_url_from_repo_def clib_package_slug_def clib_package_file_url_def
        clib_package_repo_def fits Let_def)
qed

lemma addresses_fit_witness:
  "clib_package_url (Literal (str ''a'')) (Literal (str ''n'')) (Literal (str ''v'')) empty_state =
     c_new (str ''https://raw.githubusercontent.com/a/n/v'') empty_state"
  using addresses_fit [of "Literal (str ''a'')" "Literal (str ''n'')" "Literal (str ''v'')" empty_state]
  by (simp add: sound_def empty_state_def default_opts_def github_url_def GITHUB_CONTENT_URL_def byte_simps)

end
