(* ===== verification/ClibSlug.thy ===== *)
theory ClibSlug
  imports ClibPackage
begin

text \<open>
  HW_05-Valgrind/clib/clib-package.c, second part: a package from the slug of its repository, with the
  cache of manifests, the three attempts to fetch one, and the release of everything on the way out.
  The cache and the transfers are parameters.
\<close>

subsection \<open>Fetching a manifest\<close>

record slug_api = clib_api +
  ca_cache_has_json :: "bytes \<Rightarrow> bytes \<Rightarrow> bytes \<Rightarrow> bool"
  ca_cache_read_json :: "bytes \<Rightarrow> bytes \<Rightarrow> bytes \<Rightarrow> bytes option"
  ca_http_get :: "bytes \<Rightarrow> nat \<Rightarrow> (bytes option \<times> bool) option"

text \<open>The response to the attempt with so many retries left; \<open>None\<close> is a null pointer.\<close>

record response =
  re_block :: cptr
  re_data :: cptr
  re_ok :: bool

definition http_get_shared :: "'a slug_api_scheme \<Rightarrow> bytes \<Rightarrow> nat \<Rightarrow> clib \<Rightarrow> response option \<times> clib" where
  "http_get_shared api url n m =
     (let m = call (Http_get url) m in
      case ca_http_get api url n of
        None \<Rightarrow> (None, m)
      | Some (data, ok) \<Rightarrow>
          (case c_new [] m of
             (self, m) \<Rightarrow>
               if self = Null then (None, m)
               else case copy_of data m of (p, m) \<Rightarrow> (Some \<lparr>re_block = self, re_data = p, re_ok = ok\<rparr>, m)))"

definition http_get_free :: "response \<Rightarrow> clib \<Rightarrow> clib" where
  "http_get_free res m = c_free (re_block res) (c_free (re_data res) m)"

definition init_curl_share :: "clib \<Rightarrow> clib" where
  "init_curl_share m = (if cl_share m then m else unlock ((lock m)\<lparr>cl_share := True\<rparr>))"

record slug_vars =
  sv_author :: cptr
  sv_name :: cptr
  sv_version :: cptr
  sv_url :: cptr
  sv_json_url :: cptr
  sv_repo :: cptr
  sv_json :: cptr
  sv_res :: "response option"
  sv_pkg :: "package option"
  sv_retries :: int

definition slug_start :: slug_vars where
  "slug_start = \<lparr>sv_author = Null, sv_name = Null, sv_version = Null, sv_url = Null, sv_json_url = Null,
     sv_repo = Null, sv_json = Null, sv_res = None, sv_pkg = None, sv_retries = 3\<rparr>"

text \<open>
  The label \<open>download\<close> and the jumps back to it: each time the mutex is unlocked first. The flag is
  whether a good response came.
\<close>

fun slug_download :: "'a slug_api_scheme \<Rightarrow> nat \<Rightarrow> slug_vars \<Rightarrow> clib \<Rightarrow> bool \<times> slug_vars \<times> clib" where
  "slug_download api 0 v m = (False, v\<lparr>sv_retries := - 1\<rparr>, unlock m)"
| "slug_download api (Suc n) v m =
     (let m = init_curl_share (unlock m);
          m = (case sv_res v of None \<Rightarrow> m | Some res \<Rightarrow> http_get_free res m);
          (res, m) = http_get_shared api (text_of (sv_json_url v)) n (c_read (sv_json_url v) m) in
      case res of
        None \<Rightarrow> (False, v\<lparr>sv_res := None, sv_json := Null, sv_retries := int n\<rparr>, fault Ub_NullDeref m)
      | Some res \<Rightarrow>
          let v = v\<lparr>sv_res := Some res, sv_json := re_data res, sv_retries := int n\<rparr> in
          if \<not> re_ok res then slug_download api n v m else (True, v, m))"

text \<open>The cache comes first, unless it is to be skipped.\<close>

definition slug_fetch :: "'a slug_api_scheme \<Rightarrow> slug_vars \<Rightarrow> clib \<Rightarrow> bool \<times> slug_vars \<times> clib" where
  "slug_fetch api v m =
     (let a = text_of (sv_author v); n = text_of (sv_name v); ver = text_of (sv_version v); m = lock m in
      if ca_cache_has_json api a n ver then
        if op_skip_cache (cl_opts m) \<noteq> 0 then slug_download api 3 v (call (Cache_delete_json a n ver) m)
        else
          case copy_of (ca_cache_read_json api a n ver) m of
            (json, m) \<Rightarrow>
              if json = Null then slug_download api 3 (v\<lparr>sv_json := json\<rparr>) m
              else (True, v\<lparr>sv_json := json\<rparr>, unlock m)
      else slug_download api 3 v m)"

subsection \<open>The package\<close>

text \<open>The label \<open>error\<close>; the warning reads the author and the name.\<close>

definition slug_error :: "bool \<Rightarrow> slug_vars \<Rightarrow> clib \<Rightarrow> package option \<times> clib" where
  "slug_error verbose v m =
     (let m = (if sv_retries v = 0 \<and> verbose \<and> sv_author v \<noteq> Null \<and> sv_name v \<noteq> Null
               then c_read (sv_name v) (c_read (sv_author v) m) else m);
          m = free_ptrs [sv_author v, sv_name v, sv_version v, sv_url v, sv_json_url v, sv_repo v] m;
          m = (if sv_res v = None \<and> sv_json v \<noteq> Null then c_free (sv_json v) m else m);
          m = (case sv_res v of None \<Rightarrow> m | Some res \<Rightarrow> http_get_free res m) in
      (None, clib_package_free (sv_pkg v) m))"

text \<open>The version and the author of the slug take the place of those in the manifest.\<close>

definition force_version :: "cptr \<Rightarrow> package \<Rightarrow> clib \<Rightarrow> package \<times> clib" where
  "force_version version pkg m =
     (if pk_version pkg \<noteq> Null then
        if version \<noteq> Null then
          if text_of version \<noteq> DEFAULT_REPO_VERSION
          then (pkg\<lparr>pk_version := version\<rparr>, c_free (pk_version pkg) (c_read version m))
          else (pkg, c_free version (c_read version m))
        else (pkg, m)
      else (pkg\<lparr>pk_version := version\<rparr>, m))"

definition force_author :: "cptr \<Rightarrow> package \<Rightarrow> clib \<Rightarrow> package \<times> clib" where
  "force_author author pkg m =
     (if author \<noteq> Null \<and> pk_author pkg \<noteq> Null then
        if text_of author \<noteq> text_of (pk_author pkg)
        then (pkg\<lparr>pk_author := author\<rparr>, c_free (pk_author pkg) (c_read (pk_author pkg) (c_read author m)))
        else (pkg, c_free author (c_read (pk_author pkg) (c_read author m)))
      else case strdup author m of (p, m) \<Rightarrow> (pkg\<lparr>pk_author := p\<rparr>, m))"

definition cache_json :: "package \<Rightarrow> cptr \<Rightarrow> clib \<Rightarrow> clib" where
  "cache_json pkg json m =
     (let m = lock m;
          m = (if pk_author pkg \<noteq> Null \<and> pk_name pkg \<noteq> Null \<and> pk_version pkg \<noteq> Null
               then call (Cache_save_json (text_of (pk_author pkg)) (text_of (pk_name pkg)) (text_of (pk_version pkg)) (text_of json))
                 (c_read json m)
               else m) in
      unlock m)"

definition slug_package :: "'a slug_api_scheme \<Rightarrow> bool \<Rightarrow> slug_vars \<Rightarrow> clib \<Rightarrow> package option \<times> clib" where
  "slug_package api verbose v m =
     (let m = c_free (sv_name v) (c_free (sv_json_url v) m);
          (pkg, m) = (if sv_json v \<noteq> Null then clib_package_new api (sv_json v) m else (None, m)) in
      case pkg of
        None \<Rightarrow> slug_error verbose v m
      | Some pkg \<Rightarrow>
          let (pkg, m) = force_version (sv_version v) pkg m;
              (pkg, m) = force_author (sv_author v) pkg m;
              (repo, m) = clib_package_repo (pk_author pkg) (pk_name pkg) m in
          if repo = Null then slug_error verbose (v\<lparr>sv_pkg := Some pkg\<rparr>) m
          else
            let (url, m) = (if pk_repo pkg \<noteq> Null \<and> text_of repo \<noteq> text_of (pk_repo pkg)
                            then clib_package_url_from_repo (pk_repo pkg) (pk_version pkg) (c_free (sv_url v) m)
                            else (sv_url v, m)) in
            if url = Null then slug_error verbose (v\<lparr>sv_pkg := Some pkg, sv_repo := repo, sv_url := Null\<rparr>) m
            else
              let (pkg, m) = (if pk_repo pkg \<noteq> Null then (pkg, c_free repo m) else (pkg\<lparr>pk_repo := repo\<rparr>, m));
                  pkg = pkg\<lparr>pk_url := url\<rparr>;
                  m = cache_json pkg (sv_json v) m in
              (Some pkg, case sv_res v of None \<Rightarrow> c_free (sv_json v) m | Some res \<Rightarrow> http_get_free res m))"

definition clib_package_new_from_slug_with_package_name ::
    "'a slug_api_scheme \<Rightarrow> cptr \<Rightarrow> bool \<Rightarrow> bytes \<Rightarrow> clib \<Rightarrow> package option \<times> clib" where
  "clib_package_new_from_slug_with_package_name api slug verbose file m =
     (let v = slug_start in
      if slug = Null then slug_error verbose v m
      else
        let (p, m) = clib_package_parse_author api slug m; v = v\<lparr>sv_author := p\<rparr> in
        if p = Null then slug_error verbose v m
        else
          let (p, m) = clib_package_parse_name api slug m; v = v\<lparr>sv_name := p\<rparr> in
          if p = Null then slug_error verbose v m
          else
            let (p, m) = clib_package_parse_version api slug m; v = v\<lparr>sv_version := p\<rparr> in
            if p = Null then slug_error verbose v m
            else
              let (p, m) = clib_package_url (sv_author v) (sv_name v) (sv_version v) m; v = v\<lparr>sv_url := p\<rparr> in
              if p = Null then slug_error verbose v m
              else
                let (p, m) = clib_package_file_url (sv_url v) (Literal file) m; v = v\<lparr>sv_json_url := p\<rparr> in
                if p = Null then slug_error verbose v m
                else
                  let (fetched, v, m) = slug_fetch api v m in
                  if fetched then slug_package api verbose v m else slug_error verbose v m)"

definition manifest_names :: "bytes list" where
  "manifest_names = [str ''clib.json'', str ''package.json'']"

text \<open>Both names of a manifest are tried in turn.\<close>

fun try_names :: "'a slug_api_scheme \<Rightarrow> cptr \<Rightarrow> bool \<Rightarrow> bytes list \<Rightarrow> clib \<Rightarrow> package option \<times> clib" where
  "try_names api slug verbose [] m = (None, m)"
| "try_names api slug verbose (name # names) m =
     (case clib_package_new_from_slug_with_package_name api slug verbose name m of
        (None, m) \<Rightarrow> try_names api slug verbose names m
      | (Some pkg, m) \<Rightarrow> (Some (pkg\<lparr>pk_filename := Some name\<rparr>), m))"

definition clib_package_new_from_slug :: "'a slug_api_scheme \<Rightarrow> cptr \<Rightarrow> bool \<Rightarrow> clib \<Rightarrow> package option \<times> clib" where
  "clib_package_new_from_slug api slug verbose m = try_names api slug verbose manifest_names m"

subsection \<open>The mutex and the calls\<close>

lemma holds_sync:
  assumes "holds m0 ps m"
  shows "holds m0 ps (unlock m)" "holds m0 ps (lock m)" "holds m0 ps (call c m)" "holds m0 ps (init_curl_share m)"
  using assms by (simp_all add: holds_def unlock_def lock_def call_def init_curl_share_def)

lemma holds_sound: "sound m0 \<Longrightarrow> holds m0 ps m \<Longrightarrow> sound m"
  by (fastforce simp: holds_def sound_def)

lemma holds_trans:
  assumes "sound m0" and "holds m0 ps m1" and "holds m1 qs m2"
  shows "holds m0 (qs @ ps) m2"
proof -
  have "\<forall>i\<in>set (blocks ps). i < cl_next m1" using assms(2) by (simp add: holds_def)
  then have "set (blocks ps) \<inter> set (blocks qs) = {}" using assms(3) by (fastforce simp: holds_def)
  then show ?thesis using assms(2,3) unfolding holds_def by (auto simp: le_trans) 
qed

text \<open>Only these operations change the mutex.\<close>

lemma bad_unlocks_kept [simp]:
  "cl_bad_unlocks (fault u m) = cl_bad_unlocks m" "cl_locked (fault u m) = cl_locked m"
  "cl_bad_unlocks (c_free p m) = cl_bad_unlocks m" "cl_locked (c_free p m) = cl_locked m"
  "cl_bad_unlocks (c_read p m) = cl_bad_unlocks m" "cl_locked (c_read p m) = cl_locked m"
  "cl_bad_unlocks (snd (c_new s m)) = cl_bad_unlocks m" "cl_locked (snd (c_new s m)) = cl_locked m"
  "cl_bad_unlocks (snd (copy_of t m)) = cl_bad_unlocks m" "cl_locked (snd (copy_of t m)) = cl_locked m"
  "cl_bad_unlocks (call c m) = cl_bad_unlocks m" "cl_locked (call c m) = cl_locked m"
  by (cases p; simp add: fault_def c_new_def copy_of_def call_def split: option.split)+

subsection \<open>The attempts\<close>

definition res_ptrs :: "response option \<Rightarrow> cptr list" where
  "res_ptrs r = (case r of None \<Rightarrow> [] | Some r \<Rightarrow> [re_data r, re_block r])"

text \<open>The data of the first good response, with the retries left then.\<close>

fun fetched :: "'a slug_api_scheme \<Rightarrow> bytes \<Rightarrow> nat \<Rightarrow> (bytes option \<times> nat) option" where
  "fetched api url 0 = None"
| "fetched api url (Suc n) =
     (case ca_http_get api url n of Some (data, True) \<Rightarrow> Some (data, n) | _ \<Rightarrow> fetched api url n)"

lemma holds_http_get:
  assumes "sound m0" and "holds m0 ps m" and "ca_http_get api url n = Some (data, ok)" and "http_get_shared api url n m = (r, m')"
  shows "\<exists>res. r = Some res \<and> holds m0 (res_ptrs r @ ps) m' \<and> ptext (re_data res) = data \<and> re_ok res = ok"
proof -
  obtain self m1 where 1: "c_new [] (call (Http_get url) m) = (self, m1)" by fastforce
  note h1 = holds_new [OF assms(1) holds_sync(3) [OF assms(2)] 1]
  obtain p m2 where 2: "copy_of data m1 = (p, m2)" by fastforce
  note h2 = holds_copy [OF assms(1) h1(1) 2]
  show ?thesis using assms(3,4) 1 2 h1(2) h2 by (auto simp: http_get_shared_def res_ptrs_def Let_def)
qed

lemma holds_http_free: "sound m0 \<Longrightarrow> holds m0 (res_ptrs (Some r) @ ps) m \<Longrightarrow> holds m0 ps (http_get_free r m)"
  unfolding http_get_free_def res_ptrs_def using holds_free by simp

lemma holds_download:
  assumes "sound m0" and "\<forall>k<n. ca_http_get api (text_of (sv_json_url v)) k \<noteq> None"
    and "holds m0 (res_ptrs (sv_res v) @ ps) m" and "sv_json_url v \<in> set ps" and "sv_json_url v \<noteq> Null"
    and "slug_download api n v m = (ok, v', m')"
  shows "holds m0 (res_ptrs (sv_res v') @ ps) m' \<and>
    (\<exists>res json rt. v' = v\<lparr>sv_res := res, sv_json := json, sv_retries := rt\<rparr>) \<and>
    (case fetched api (text_of (sv_json_url v)) n of
       None \<Rightarrow> \<not> ok \<and> sv_retries v' = - 1 \<and> (n = 0 \<or> sv_res v' \<noteq> None)
     | Some (data, k) \<Rightarrow> ok \<and> sv_retries v' = int k \<and>
         (\<exists>r. sv_res v' = Some r \<and> sv_json v' = re_data r \<and> ptext (re_data r) = data))"
  using assms(2-6)
proof (induction n arbitrary: v m)
  case 0
  have "v\<lparr>sv_retries := - 1\<rparr> = v\<lparr>sv_res := sv_res v, sv_json := sv_json v, sv_retries := - 1\<rparr>" by simp
  then have ex: "\<exists>res json rt. v\<lparr>sv_retries := - 1\<rparr> = v\<lparr>sv_res := res, sv_json := json, sv_retries := rt\<rparr>" by blast
  have e: "ok = False" "v' = v\<lparr>sv_retries := - 1\<rparr>" "m' = unlock m" using 0(5) by simp_all
  show ?case unfolding e by (intro conjI ex) (use holds_sync(1) [OF 0(2)] in simp_all)
next
  case (Suc n)
  define m1 where "m1 = (case sv_res v of None \<Rightarrow> init_curl_share (unlock m) | Some res \<Rightarrow> http_get_free res (init_curl_share (unlock m)))"
  have "holds m0 (res_ptrs (sv_res v) @ ps) (init_curl_share (unlock m))" using Suc.prems(2) by (intro holds_sync)
  then have h1: "holds m0 ps m1" using holds_http_free [OF assms(1)] by (auto simp: m1_def res_ptrs_def split: option.split)
  have rd: "c_read (sv_json_url v) m1 = m1" by (rule holds_read [OF h1 Suc.prems(3,4)])
  obtain data good where get: "ca_http_get api (text_of (sv_json_url v)) n = Some (data, good)"
    using Suc.prems(1) by (metis lessI not_None_eq prod.collapse)
  obtain r m2 where 2: "http_get_shared api (text_of (sv_json_url v)) n m1 = (r, m2)" by fastforce
  obtain res where res: "r = Some res" "holds m0 (res_ptrs r @ ps) m2" "ptext (re_data res) = data" "re_ok res = good"
    using holds_http_get [OF assms(1) h1 get 2] by blast
  define v1 where "v1 = v\<lparr>sv_res := Some res, sv_json := re_data res, sv_retries := int n\<rparr>"
  have run: "slug_download api (Suc n) v m = (if \<not> good then slug_download api n v1 m2 else (True, v1, m2))"
    using rd 2 res(1,4) by (simp add: m1_def [symmetric] v1_def [symmetric] Let_def)
  show ?case
  proof (cases good)
    case True
    then show ?thesis using Suc.prems(5) run res get by (auto simp: v1_def)
  next
    case False
    have url: "sv_json_url v1 = sv_json_url v" "sv_res v1 = r" by (simp_all add: v1_def res(1))
    have "slug_download api n v1 m2 = (ok, v', m')" using Suc.prems(5) run False by simp
    moreover have "holds m0 (res_ptrs (sv_res v1) @ ps) m2" using res(2) url by simp
    ultimately have ih: "holds m0 (res_ptrs (sv_res v') @ ps) m' \<and>
      (\<exists>res json rt. v' = v1\<lparr>sv_res := res, sv_json := json, sv_retries := rt\<rparr>) \<and>
      (case fetched api (text_of (sv_json_url v)) n of
         None \<Rightarrow> \<not> ok \<and> sv_retries v' = - 1 \<and> (n = 0 \<or> sv_res v' \<noteq> None)
       | Some (data, k) \<Rightarrow> ok \<and> sv_retries v' = int k \<and>
           (\<exists>r. sv_res v' = Some r \<and> sv_json v' = re_data r \<and> ptext (re_data r) = data))"
      using Suc.IH [of v1 m2] Suc.prems(1,3,4) url by simp
    have "v' = v1\<lparr>sv_retries := - 1\<rparr>" if "n = 0" using \<open>slug_download api n v1 m2 = _\<close> that by simp
    then show ?thesis using ih get False res(1) by (auto simp: v1_def split: option.splits)
  qed
qed

subsection \<open>The way to the manifest\<close>

definition slug_parses :: "'a slug_api_scheme \<Rightarrow> cptr \<Rightarrow> bytes \<Rightarrow> bytes \<Rightarrow> bytes \<Rightarrow> bool" where
  "slug_parses api slug a n v \<longleftrightarrow>
     slug \<noteq> Null \<and> ca_repo_owner api (text_of slug) DEFAULT_REPO_OWNER = Some a \<and>
     ca_repo_name api (text_of slug) = Some n \<and> ca_repo_version api (text_of slug) DEFAULT_REPO_VERSION = Some v"

definition package_url_text :: "clib \<Rightarrow> bytes \<Rightarrow> bytes \<Rightarrow> bytes \<Rightarrow> bytes" where
  "package_url_text m a n v = github_url (op_token (cl_opts m)) @ a @ [c_slash] @ n @ [c_slash] @ v"

definition slug_run :: "'a slug_api_scheme \<Rightarrow> bool \<Rightarrow> bool \<times> slug_vars \<times> clib \<Rightarrow> package option \<times> clib" where
  "slug_run api verbose r = (case r of (ok, v, m) \<Rightarrow> if ok then slug_package api verbose v m else slug_error verbose v m)"

lemma ptext_Some: "ptext p = Some s \<longleftrightarrow> p \<noteq> Null \<and> text_of p = s"
  by (cases p) auto

lemma slug_prefix:
  assumes "sound m" and "c_read slug m = m" and "slug_parses api slug a n v"
  shows "\<exists>pa pn pv pu pj m0.
    clib_package_new_from_slug_with_package_name api slug verbose file m =
      slug_run api verbose (slug_fetch api (slug_start\<lparr>sv_author := pa, sv_name := pn, sv_version := pv, sv_url := pu, sv_json_url := pj\<rparr>) m0) \<and>
    holds m [pj, pu, pv, pn, pa] m0 \<and> ptext pa = Some a \<and> ptext pn = Some n \<and> ptext pv = Some v \<and>
    ptext pu = Some (package_url_text m a n v) \<and> ptext pj = Some (package_url_text m a n v @ [c_slash] @ file) \<and>
    cl_locked m0 = cl_locked m \<and> cl_bad_unlocks m0 = cl_bad_unlocks m"
proof -
  note parses = assms(3) [unfolded slug_parses_def]
  obtain pa m1 where 1: "copy_of (Some a) m = (pa, m1)" by fastforce
  note h1 = holds_copy [OF assms(1) holds_refl 1]
  note r1 = still_readable [OF assms(2) h1(1)]
  obtain pn m2 where 2: "copy_of (Some n) m1 = (pn, m2)" by fastforce
  note h2 = holds_copy [OF assms(1) h1(1) 2]
  note r2 = still_readable [OF assms(2) h2(1)]
  obtain pv m3 where 3: "copy_of (Some v) m2 = (pv, m3)" by fastforce
  note h3 = holds_copy [OF assms(1) h2(1) 3]
  have nn: "pa \<noteq> Null" "pn \<noteq> Null" "pv \<noteq> Null" "text_of pa = a" "text_of pn = n" "text_of pv = v"
    using h1(2) h2(2) h3(2) by (auto simp: ptext_Some)
  have "\<forall>p\<in>{pa, pn, pv}. p \<noteq> Null \<and> c_read p m3 = m3" using nn holds_read [OF h3(1)] by auto
  note urls = addresses_fit [OF this]
  obtain pu m4 where 4: "c_new (package_url_text m a n v) m3 = (pu, m4)" by fastforce
  note h4 = holds_new [OF assms(1) h3(1) 4]
  have u: "clib_package_url pa pn pv m3 = (pu, m4)"
    using urls 4 nn holds_keeps(3) [OF h3(1)] by (simp add: package_url_text_def)
  have "\<forall>p\<in>{pu, Literal file, pu}. p \<noteq> Null \<and> c_read p m4 = m4" using h4(2) holds_read [OF h4(1)] by auto
  note urls2 = addresses_fit [OF this]
  obtain pj m5 where 5: "c_new (package_url_text m a n v @ [c_slash] @ file) m4 = (pj, m5)" by fastforce
  note h5 = holds_new [OF assms(1) h4(1) 5]
  have j: "clib_package_file_url pu (Literal file) m4 = (pj, m5)" using urls2 5 h4(4) by simp
  let ?v = "slug_start\<lparr>sv_author := pa, sv_name := pn, sv_version := pv, sv_url := pu, sv_json_url := pj\<rparr>"
  have run: "clib_package_new_from_slug_with_package_name api slug verbose file m = slug_run api verbose (slug_fetch api ?v m5)"
    using parses 1 2 3 u j nn h4(2) h5(2) assms(2) r1 r2
    by (simp add: clib_package_new_from_slug_with_package_name_def slug_run_def Let_def clib_package_parse_author_def
        clib_package_parse_name_def clib_package_parse_version_def)
  have sync: "cl_locked m5 = cl_locked m" "cl_bad_unlocks m5 = cl_bad_unlocks m"
    using bad_unlocks_kept(7-10) 1 2 3 4 5 by (metis snd_conv)+
  have fresh: "ptext pu = Some (package_url_text m a n v)" "ptext pj = Some (package_url_text m a n v @ [c_slash] @ file)"
    "holds m [pj, pu, pv, pn, pa] m5" using h4(3) h5(1,3) by simp_all
  show ?thesis
    by (intro exI [of _ pa] exI [of _ pn] exI [of _ pv] exI [of _ pu] exI [of _ pj] exI [of _ m5] conjI)
      (use run sync fresh h1(2) h2(2) h3(2) in simp_all)
qed

text \<open>Without a manifest in the cache the attempts follow, with the mutex locked before the first.\<close>

lemma slug_fetch_uncached:
  "\<not> ca_cache_has_json api (text_of (sv_author v)) (text_of (sv_name v)) (text_of (sv_version v)) \<Longrightarrow>
     slug_fetch api v m = slug_download api 3 v (lock m)"
  by (simp add: slug_fetch_def Let_def)

lemma holds_error:
  assumes "sound m0" and "holds m0 (res_ptrs (sv_res v) @ [sv_json_url v, sv_url v, sv_version v, sv_name v, sv_author v]) m"
    and "sv_retries v \<noteq> 0" and "sv_res v \<noteq> None" and "sv_repo v = Null" and "sv_pkg v = None"
  shows "slug_error verbose v m = (None, snd (slug_error verbose v m)) \<and> holds m0 [] (snd (slug_error verbose v m))"
proof -
  obtain r where r: "sv_res v = Some r" using assms(4) by auto
  have "holds m0 ([sv_author v, sv_name v, sv_version v, sv_url v, sv_json_url v, sv_repo v] @ res_ptrs (Some r)) m"
  proof -
    have "holds m0 (Null # res_ptrs (Some r) @ [sv_json_url v, sv_url v, sv_version v, sv_name v, sv_author v]) m"
      using assms(2) r by simp
    then show ?thesis by (rule holds_perm) (simp add: assms(5) ac_simps)
  qed
  from holds_free_ptrs [OF assms(1) this] have "holds m0 (res_ptrs (Some r) @ [])
      (free_ptrs [sv_author v, sv_name v, sv_version v, sv_url v, sv_json_url v, sv_repo v] m)" by simp
  from holds_http_free [OF assms(1) this] show ?thesis
    by (simp add: slug_error_def r assms(3,6) clib_package_free_def Let_def)
qed

lemma share_unlocks [simp]:
  "cl_bad_unlocks (init_curl_share m) = cl_bad_unlocks m"
  "\<not> cl_locked m \<Longrightarrow> \<not> cl_locked (init_curl_share m)"
  by (simp_all add: init_curl_share_def unlock_def lock_def)

lemma new_sync:
  "c_new s m = (p, m') \<Longrightarrow> cl_bad_unlocks m' = cl_bad_unlocks m \<and> cl_locked m' = cl_locked m \<and> cl_full m' = cl_full m"
  "copy_of t m = (p, m') \<Longrightarrow> cl_bad_unlocks m' = cl_bad_unlocks m \<and> cl_locked m' = cl_locked m \<and> cl_full m' = cl_full m"
  by (auto simp: c_new_def copy_of_def split: option.splits if_splits)

lemma full_kept [simp]:
  "cl_full (unlock m) = cl_full m" "cl_full (lock m) = cl_full m" "cl_full (call c m) = cl_full m"
  "cl_full (init_curl_share m) = cl_full m" "cl_full (c_free p m) = cl_full m" "cl_full (c_read p m) = cl_full m"
  by (cases p; simp add: unlock_def lock_def call_def init_curl_share_def fault_def)+

lemma http_sync:
  assumes "http_get_shared api url n m = (r, m')"
  shows "cl_bad_unlocks m' = cl_bad_unlocks m \<and> cl_locked m' = cl_locked m \<and> cl_full m' = cl_full m"
  using assms by (auto simp: http_get_shared_def Let_def dest!: new_sync split: option.splits prod.splits if_splits)

lemma http_free_sync [simp]:
  "cl_bad_unlocks (http_get_free r m) = cl_bad_unlocks m" "cl_locked (http_get_free r m) = cl_locked m"
  "cl_full (http_get_free r m) = cl_full m"
  by (simp_all add: http_get_free_def)

lemma http_get_bad:
  assumes "cl_full m = (\<lambda>_. False)" and "ca_http_get api url n = Some (data, False)" and "http_get_shared api url n m = (r, m')"
  shows "\<exists>res. r = Some res \<and> re_ok res = False"
  using assms by (auto simp: http_get_shared_def Let_def c_new_def call_def split: prod.splits)

lemma free_ptrs_unlocks [simp]:
  "cl_bad_unlocks (free_ptrs ps m) = cl_bad_unlocks m" "cl_locked (free_ptrs ps m) = cl_locked m"
  unfolding free_ptrs_def by (induction ps arbitrary: m) simp_all

text \<open>Only the first of the unlocks before the attempts finds the mutex locked.\<close>

lemma download_unlocks:
  assumes "\<forall>k<n. \<exists>data. ca_http_get api (text_of (sv_json_url v)) k = Some (data, False)" and "cl_full m = (\<lambda>_. False)"
  shows "cl_bad_unlocks (snd (snd (slug_download api n v m))) = cl_bad_unlocks m + (if cl_locked m then 0 else 1) + n"
  using assms
proof (induction n arbitrary: v m)
  case 0
  then show ?case by (simp add: unlock_def)
next
  case (Suc n)
  define m1 where "m1 = (case sv_res v of None \<Rightarrow> init_curl_share (unlock m) | Some res \<Rightarrow> http_get_free res (init_curl_share (unlock m)))"
  obtain res m2 where 2: "http_get_shared api (text_of (sv_json_url v)) n (c_read (sv_json_url v) m1) = (res, m2)" by fastforce
  have m1: "\<not> cl_locked m1" "cl_bad_unlocks m1 = cl_bad_unlocks m + (if cl_locked m then 0 else 1)" "cl_full m1 = (\<lambda>_. False)"
    using Suc.prems(2) by (simp_all add: m1_def unlock_def split: option.split)
  note m2 = http_sync [OF 2]
  obtain data where "ca_http_get api (text_of (sv_json_url v)) n = Some (data, False)" using Suc.prems(1) by blast
  from http_get_bad [OF _ this 2] obtain r where r: "res = Some r" "re_ok r = False" using m1(3) by auto
  define v1 where "v1 = v\<lparr>sv_res := Some r, sv_json := re_data r, sv_retries := int n\<rparr>"
  have "slug_download api (Suc n) v m = slug_download api n v1 m2"
    using 2 r by (simp add: m1_def [symmetric] v1_def [symmetric] Let_def)
  moreover have "cl_bad_unlocks (snd (snd (slug_download api n v1 m2))) = cl_bad_unlocks m2 + (if cl_locked m2 then 0 else 1) + n"
    using Suc.IH [of v1 m2] Suc.prems(1) m1(3) m2 by (simp add: v1_def)
  ultimately show ?case using m1 m2 by simp
qed

text \<open>What a manifest must be for a package to be made of it.\<close>

definition accepted :: "'a clib_api_scheme \<Rightarrow> bytes option \<Rightarrow> manifest option" where
  "accepted api data =
     (case data of
        None \<Rightarrow> None
      | Some json \<Rightarrow>
          (case ca_json_parse api json of
             Some (Manifest obj) \<Rightarrow> if manifest_ok obj then Some obj else None
           | _ \<Rightarrow> None))"

lemma package_refused:
  assumes "sound m" and "json = Null \<or> c_read json m = m" and "accepted api (ptext json) = None"
    and "clib_package_new api json m = (r, m')"
  shows "r = None \<and> (\<exists>lost. holds m lost m')"
proof (cases "json = Null \<or> (\<forall>obj. ca_json_parse api (text_of json) \<noteq> Some (Manifest obj))")
  case True
  then have "r = None" "m' = m"
    using assms(2,4) by (auto simp: clib_package_new_def split: option.splits json_root.splits if_splits)
  then show ?thesis using holds_refl by blast
next
  case False
  then obtain obj where obj: "json \<noteq> Null" "ca_json_parse api (text_of json) = Some (Manifest obj)" by auto
  then have "\<not> manifest_ok obj" using assms(3) by (cases json) (auto simp: accepted_def split: if_splits)
  then show ?thesis
    using holds_package_new [OF assms(1) obj(1) _ obj(2) assms(4)] assms(2) obj(1)
    by (cases r) (auto simp: owned_def)
qed

subsection \<open>After undefined behaviour\<close>

lemma fault_stays [simp]:
  "cl_fault m = Some u \<Longrightarrow> cl_fault (c_free p m) = Some u" "cl_fault m = Some u \<Longrightarrow> cl_fault (c_read p m) = Some u"
  by (cases p; simp add: fault_def)+

lemma fault_stays_frees [simp]: "cl_fault m = Some u \<Longrightarrow> cl_fault (free_ptrs ps m) = Some u"
  unfolding free_ptrs_def by (induction ps arbitrary: m) simp_all

lemma fault_stays_error:
  "cl_fault m = Some u \<Longrightarrow> sv_pkg v = None \<Longrightarrow> cl_fault (snd (slug_error verbose v m)) = Some u"
  by (simp add: slug_error_def http_get_free_def clib_package_free_def Let_def split: option.split)

text \<open>A block that has been freed stays dead, however many are allocated after it.\<close>

lemma freed_stays_dead:
  assumes "sound m0" and "holds m0 (Block i s # ps) m1" and "cl_next m2 = cl_next m1" and "holds m0 ps m2" and "holds m2 qs m3"
  shows "i \<notin> cl_live m3"
proof -
  have i: "cl_next m0 \<le> i" "i < cl_next m1" "i \<notin> set (blocks ps)" using assms(2) by (simp_all add: holds_def)
  then have "i \<notin> cl_live m2" using assms(1,4) by (auto simp: holds_def sound_def)
  moreover have "\<forall>j\<in>set (blocks qs). cl_next m2 \<le> j" using assms(5) by (simp add: holds_def)
  ultimately show ?thesis using i(2) assms(3) holds_keeps(4) [OF assms(5)] by auto
qed

lemma next_free [simp]: "cl_next (c_free p m) = cl_next m"
  by (cases p) (simp_all add: fault_def)

subsection \<open>The outcomes\<close>

definition uncached :: "'a slug_api_scheme \<Rightarrow> bytes \<Rightarrow> bytes \<Rightarrow> bytes \<Rightarrow> bool" where
  "uncached api a n v \<longleftrightarrow> \<not> ca_cache_has_json api a n v"

definition manifest_url :: "clib \<Rightarrow> bytes \<Rightarrow> bytes \<Rightarrow> bytes \<Rightarrow> bytes \<Rightarrow> bytes" where
  "manifest_url m a n v file = package_url_text m a n v @ [c_slash] @ file"

text \<open>The state after the attempts, with the variables of the function.\<close>

lemma slug_attempts:
  assumes "sound m" and "c_read slug m = m" and "slug_parses api slug a n v" and "uncached api a n v"
    and "\<forall>k<3. ca_http_get api (manifest_url m a n v file) k \<noteq> None"
  shows "\<exists>m0 v0 v' ok m1. clib_package_new_from_slug_with_package_name api slug verbose file m = slug_run api verbose (ok, v', m1) \<and>
    slug_download api 3 v0 (lock m0) = (ok, v', m1) \<and> cl_bad_unlocks m0 = cl_bad_unlocks m \<and> cl_full m0 = cl_full m \<and>
    text_of (sv_json_url v0) = manifest_url m a n v file \<and>
    holds m (res_ptrs (sv_res v') @ [sv_json_url v', sv_url v', sv_version v', sv_name v', sv_author v']) m1 \<and>
    ptext (sv_author v') = Some a \<and> ptext (sv_name v') = Some n \<and> ptext (sv_version v') = Some v \<and>
    ptext (sv_url v') = Some (package_url_text m a n v) \<and> sv_repo v' = Null \<and> sv_pkg v' = None \<and>
    (case fetched api (manifest_url m a n v file) 3 of
       None \<Rightarrow> \<not> ok \<and> sv_retries v' = - 1 \<and> sv_res v' \<noteq> None
     | Some (data, k) \<Rightarrow> ok \<and> sv_retries v' = int k \<and>
         (\<exists>r. sv_res v' = Some r \<and> sv_json v' = re_data r \<and> ptext (re_data r) = data))"
proof -
  obtain pa pn pv pu pj m0 where
    run: "clib_package_new_from_slug_with_package_name api slug verbose file m =
      slug_run api verbose (slug_fetch api (slug_start\<lparr>sv_author := pa, sv_name := pn, sv_version := pv, sv_url := pu, sv_json_url := pj\<rparr>) m0)"
    and h0: "holds m [pj, pu, pv, pn, pa] m0"
    and t: "ptext pa = Some a" "ptext pn = Some n" "ptext pv = Some v" "ptext pu = Some (package_url_text m a n v)"
      "ptext pj = Some (manifest_url m a n v file)" and sync: "cl_bad_unlocks m0 = cl_bad_unlocks m"
    using slug_prefix [OF assms(1-3), of verbose "file"] unfolding manifest_url_def by blast
  define V where "V = slug_start\<lparr>sv_author := pa, sv_name := pn, sv_version := pv, sv_url := pu, sv_json_url := pj\<rparr>"
  have fetch: "slug_fetch api V m0 = slug_download api 3 V (lock m0)"
    using assms(4) t by (intro slug_fetch_uncached) (simp add: V_def ptext_Some uncached_def)
  obtain ok v' m1 where dl: "slug_download api 3 V (lock m0) = (ok, v', m1)" by (metis prod_cases3)
  have V: "sv_json_url V = pj" "sv_res V = None" "text_of pj = manifest_url m a n v file" "pj \<noteq> Null"
    using t(5) by (simp_all add: V_def slug_start_def ptext_Some)
  have hl: "holds m (res_ptrs (sv_res V) @ [pj, pu, pv, pn, pa]) (lock m0)" using holds_sync(2) [OF h0] by (simp add: V res_ptrs_def)
  have get: "\<forall>k<3. ca_http_get api (text_of (sv_json_url V)) k \<noteq> None" using assms(5) V by force
  have "sv_json_url V \<in> set [pj, pu, pv, pn, pa]" "sv_json_url V \<noteq> Null" using V by simp_all
  note d = holds_download [OF assms(1) get hl this dl, unfolded V]
  from d obtain res json rt where v': "v' = V\<lparr>sv_res := res, sv_json := json, sv_retries := rt\<rparr>" by blast
  have fields: "sv_json_url v' = pj" "sv_url v' = pu" "sv_version v' = pv" "sv_name v' = pn" "sv_author v' = pa"
    "sv_repo v' = Null" "sv_pkg v' = None" by (simp_all add: v' V_def slug_start_def)
  have run': "clib_package_new_from_slug_with_package_name api slug verbose file m = slug_run api verbose (ok, v', m1)"
    using run fetch dl by (simp add: V_def)
  show ?thesis
    by (rule exI [of _ m0], rule exI [of _ V], rule exI [of _ v'], rule exI [of _ ok], rule exI [of _ m1], intro conjI run' dl)
      (use d fields t sync holds_keeps(1) [OF h0] V in \<open>simp_all split: option.splits prod.splits\<close>)
qed

lemma fetched_none: "\<forall>k<n. \<exists>data. ca_http_get api url k = Some (data, False) \<Longrightarrow> fetched api url n = None"
proof (induction n)
  case (Suc n)
  then obtain data where "ca_http_get api url n = Some (data, False)" by blast
  then show ?case using Suc by simp
qed simp

text \<open>
  when all three attempts to fetch a manifest fail, nothing is lost and nothing is freed twice; but
  before each attempt but the first, and once more at the end, the mutex is unlocked by a thread that
  does not hold it.
\<close>

theorem unreachable_manifest:
  assumes "sound m" and "c_read slug m = m" and "slug_parses api slug a n v" and "uncached api a n v"
    and "\<forall>k<3. \<exists>data. ca_http_get api (manifest_url m a n v file) k = Some (data, False)"
    and "clib_package_new_from_slug_with_package_name api slug verbose file m = (r, m')"
  shows "r = None \<and> cl_live m' = cl_live m \<and> cl_fault m' = cl_fault m \<and> cl_bad_unlocks m' = cl_bad_unlocks m + 3"
proof -
  have get: "\<forall>k<3. ca_http_get api (manifest_url m a n v file) k \<noteq> None"
  proof (intro allI impI)
    fix k :: nat assume "k < 3"
    then obtain data where "ca_http_get api (manifest_url m a n v file) k = Some (data, False)" using assms(5) by blast
    then show "ca_http_get api (manifest_url m a n v file) k \<noteq> None" by simp
  qed
  obtain m0 v0 v' ok m1 where
    run: "(r, m') = slug_run api verbose (ok, v', m1)" and dl: "slug_download api 3 v0 (lock m0) = (ok, v', m1)"
    and kept: "cl_bad_unlocks m0 = cl_bad_unlocks m" "cl_full m0 = cl_full m" "text_of (sv_json_url v0) = manifest_url m a n v file"
    and h: "holds m (res_ptrs (sv_res v') @ [sv_json_url v', sv_url v', sv_version v', sv_name v', sv_author v']) m1"
    and v': "sv_repo v' = Null" "sv_pkg v' = None" "\<not> ok" "sv_retries v' = - 1" "sv_res v' \<noteq> None"
    using slug_attempts [OF assms(1-4) get, of verbose, unfolded assms(6) fetched_none [OF assms(5)] option.case]
    by (elim exE conjE) (rule that)
  have e: "slug_error verbose v' m1 = (None, snd (slug_error verbose v' m1))" "holds m [] (snd (slug_error verbose v' m1))"
    using holds_error [OF assms(1) h, of verbose] v' by auto
  have "cl_bad_unlocks m1 = cl_bad_unlocks m + 3"
    using download_unlocks [of 3 api v0 "lock m0"] assms(1,5) kept dl by (simp add: lock_def sound_def)
  moreover have "cl_bad_unlocks (snd (slug_error verbose v' m1)) = cl_bad_unlocks m1"
    using v' by (simp add: slug_error_def clib_package_free_def Let_def split: option.split)
  moreover have "(r, m') = slug_error verbose v' m1" using run v'(3) by (simp add: slug_run_def)
  moreover have "r = None" "m' = snd (slug_error verbose v' m1)"
    using \<open>(r, m') = slug_error verbose v' m1\<close> e(1) by (metis prod.inject)+
  ultimately show ?thesis using holds_keeps(2,4) [OF e(2)] by simp
qed

text \<open>A dangling pointer that is freed, or read, again.\<close>

lemma error_tail:
  assumes "cl_fault (free_ptrs [sv_author v, sv_name v, sv_version v, sv_url v, sv_json_url v, sv_repo v]
      (if sv_retries v = 0 \<and> verbose \<and> sv_author v \<noteq> Null \<and> sv_name v \<noteq> Null
       then c_read (sv_name v) (c_read (sv_author v) m) else m)) = Some u" and "sv_pkg v = None"
  shows "cl_fault (snd (slug_error verbose v m)) = Some u"
proof -
  have "cl_fault (snd (None, clib_package_free None (case sv_res v of None \<Rightarrow> M' | Some res \<Rightarrow> http_get_free res M'))) = Some u"
    if "M' = (if sv_res v = None \<and> sv_json v \<noteq> Null then c_free (sv_json v) M else M)" "cl_fault M = Some u" for M M'
    using that by (simp add: clib_package_free_def http_get_free_def split: option.split)
  from this [OF refl assms(1)] show ?thesis unfolding slug_error_def Let_def assms(2) .
qed

lemma error_dangling:
  assumes "holds m0 (sv_author v # ps) m" and "sound m0" and "cl_fault m0 = None" and "sv_name v = Block i s" and "i \<notin> cl_live m"
    and "sv_author v \<noteq> Null" and "sv_pkg v = None"
  shows "cl_fault (snd (slug_error verbose v m)) = Some (if sv_retries v = 0 \<and> verbose then Ub_UseAfterFree else Ub_DoubleFree)"
proof (cases "sv_retries v = 0 \<and> verbose")
  case True
  have rd: "c_read (sv_author v) m = m" using holds_read [OF assms(1)] assms(6) by simp
  have "cl_fault (c_read (sv_name v) (c_read (sv_author v) m)) = Some Ub_UseAfterFree"
    unfolding rd using assms(3-5) holds_keeps(2) [OF assms(1)] by (simp add: fault_def)
  from fault_stays_frees [OF this] show ?thesis using True assms(4,6,7) by (intro trans [OF error_tail]) auto
next
  case False
  have f: "cl_fault (c_free (sv_author v) m) = None" using holds_keeps(2) [OF holds_free [OF assms(2,1)]] assms(3) by simp
  have "i \<notin> cl_live (c_free (sv_author v) m)" using assms(5) by (cases "sv_author v") (auto simp: fault_def)
  then have "cl_fault (c_free (sv_name v) (c_free (sv_author v) m)) = Some Ub_DoubleFree"
    unfolding assms(4) using f by (simp add: fault_def)
  then have "cl_fault (free_ptrs [sv_author v, sv_name v, sv_version v, sv_url v, sv_json_url v, sv_repo v] m) = Some Ub_DoubleFree"
    by (simp add: free_ptrs_def)
  then show ?thesis using False assms(7) by (intro trans [OF error_tail]) auto
qed

text \<open>
  C33: when a manifest is fetched but no package can be made of it, the address and the name that were
  released before are released again: the run ends in undefined behaviour, by a second \<open>free\<close> or, when
  the last attempt was the one that succeeded, by the warning that reads the name.
\<close>

theorem bad_manifest_freed_twice:
  assumes "sound m" and "c_read slug m = m" and "slug_parses api slug a n v" and "uncached api a n v"
    and "\<forall>k<3. ca_http_get api (manifest_url m a n v file) k \<noteq> None"
    and "fetched api (manifest_url m a n v file) 3 = Some (data, k)" and "accepted api data = None" and "cl_fault m = None"
    and "clib_package_new_from_slug_with_package_name api slug verbose file m = (r, m')"
  shows "r = None \<and> cl_fault m' = Some (if k = 0 \<and> verbose then Ub_UseAfterFree else Ub_DoubleFree)"
proof -
  obtain v' m1 res where run: "(r, m') = slug_run api verbose (True, v', m1)"
    and h1: "holds m (res_ptrs (Some res) @ [sv_json_url v', sv_url v', sv_version v', sv_name v', sv_author v']) m1"
    and t: "ptext (sv_author v') = Some a" "ptext (sv_name v') = Some n" "sv_pkg v' = None" "sv_retries v' = int k"
      "sv_res v' = Some res" "sv_json v' = re_data res" "ptext (re_data res) = data"
    using slug_attempts [OF assms(1-5), of verbose, unfolded assms(6,9) option.case prod.case] 
    by (elim exE conjE) (rule that, simp_all)
  let ?rest = "[sv_author v', sv_version v', sv_url v'] @ res_ptrs (Some res)"
  have "holds m (sv_json_url v' # sv_name v' # ?rest) m1" using h1 by (rule holds_perm) simp
  from holds_free [OF assms(1) this] have h2: "holds m (sv_name v' # ?rest) (c_free (sv_json_url v') m1)" .
  define m3 where "m3 = c_free (sv_name v') (c_free (sv_json_url v') m1)"
  have h3: "holds m ?rest m3" unfolding m3_def by (rule holds_free [OF assms(1) h2])
  have js: "re_data res = Null \<or> c_read (re_data res) m3 = m3" using holds_read [OF h3] by (auto simp: res_ptrs_def)
  obtain q m4 where 4: "clib_package_new api (re_data res) m3 = (q, m4)" by fastforce
  obtain lost where q: "q = None" "holds m3 lost m4"
    using package_refused [OF holds_sound [OF assms(1) h3] js _ 4] assms(7) t(7) by auto
  have res: "(r, m') = slug_error verbose v' m4"
    using run q(1) 4 t(6) by (auto simp: slug_run_def slug_package_def m3_def [symmetric] clib_package_new_def Let_def split: if_splits)
  have "holds m (lost @ ?rest) m4" by (rule holds_trans [OF assms(1) h3 q(2)])
  then have h4: "holds m (sv_author v' # lost @ [sv_version v', sv_url v'] @ res_ptrs (Some res)) m4" by (rule holds_perm) simp
  obtain i where name: "sv_name v' = Block i n" using t(2) h2 by (cases "sv_name v'") (auto simp: holds_def)
  have "i \<notin> cl_live m4" using freed_stays_dead [OF assms(1) h2 [unfolded name] _ h3 q(2)] by (simp add: m3_def)
  from error_dangling [OF h4 assms(1,8) name this _ t(3), of verbose] t(1,4)
  have "cl_fault m' = Some (if k = 0 \<and> verbose then Ub_UseAfterFree else Ub_DoubleFree)"
    using res by (metis of_nat_eq_0_iff ptext_Some snd_conv)
  moreover have "r = None" using res by (simp add: slug_error_def Let_def)
  ultimately show ?thesis by simp
qed

subsection \<open>A package that is made\<close>

definition version_of :: "bytes \<Rightarrow> bytes option \<Rightarrow> bytes" where
  "version_of v mv = (case mv of None \<Rightarrow> v | Some w \<Rightarrow> if v = DEFAULT_REPO_VERSION then w else v)"

lemma freed_ptrs_version: "mset (freed_ptrs (pkg\<lparr>pk_version := x\<rparr>)) + {#pk_version pkg#} = mset (freed_ptrs pkg) + {#x#}"
  by (simp add: freed_ptrs_def)

lemma freed_ptrs_author: "mset (freed_ptrs (pkg\<lparr>pk_author := x\<rparr>)) + {#pk_author pkg#} = mset (freed_ptrs pkg) + {#x#}"
  by (simp add: freed_ptrs_def)

lemma freed_ptrs_repo: "mset (freed_ptrs (pkg\<lparr>pk_repo := x\<rparr>)) + {#pk_repo pkg#} = mset (freed_ptrs pkg) + {#x#}"
  by (simp add: freed_ptrs_def)

lemma freed_ptrs_url: "mset (freed_ptrs (pkg\<lparr>pk_url := x\<rparr>)) + {#pk_url pkg#} = mset (freed_ptrs pkg) + {#x#}"
  by (simp add: freed_ptrs_def)

text \<open>A field takes the place of the block it held, which is released.\<close>

lemma holds_swap:
  assumes "sound m0" and "holds m0 (new # qs @ rest) m" and "mset qs' + {#old#} = mset qs + {#new#}"
  shows "holds m0 (qs' @ rest) (c_free old m)"
proof -
  have "holds m0 (old # qs' @ rest) m"
    using assms(2) by (rule holds_perm) (use assms(3) in \<open>simp add: union_commute add_mset_add_single [symmetric]\<close>)
  then show ?thesis by (rule holds_free [OF assms(1)])
qed

lemma holds_force_version:
  assumes "sound m0" and "holds m0 (version # freed_ptrs pkg @ rest) m" and "ptext version = Some v"
    and "force_version version pkg m = (pkg', m')"
  shows "\<exists>x. pkg' = pkg\<lparr>pk_version := x\<rparr> \<and> ptext x = Some (version_of v (ptext (pk_version pkg))) \<and> holds m0 (freed_ptrs pkg' @ rest) m'"
proof -
  have v: "version \<noteq> Null" "text_of version = v" using assms(3) by (simp_all add: ptext_Some)
  have rd: "c_read version m = m" using holds_read [OF assms(2) _ v(1)] by simp
  consider "pk_version pkg = Null" | "pk_version pkg \<noteq> Null" "v \<noteq> DEFAULT_REPO_VERSION" | "pk_version pkg \<noteq> Null" "v = DEFAULT_REPO_VERSION" by blast
  then show ?thesis
  proof cases
    case 1
    have "holds m0 (freed_ptrs (pkg\<lparr>pk_version := version\<rparr>) @ rest) (c_free (pk_version pkg) m)"
      by (rule holds_swap [OF assms(1,2) freed_ptrs_version])
    then show ?thesis using assms(3,4) 1 by (auto simp: force_version_def version_of_def)
  next
    case 2
    have "holds m0 (freed_ptrs (pkg\<lparr>pk_version := version\<rparr>) @ rest) (c_free (pk_version pkg) m)"
      by (rule holds_swap [OF assms(1,2) freed_ptrs_version])
    then show ?thesis using assms(3,4) 2 v rd by (cases "pk_version pkg") (auto simp: force_version_def version_of_def)
  next
    case 3
    have "pkg\<lparr>pk_version := pk_version pkg\<rparr> = pkg" by simp
    then show ?thesis using holds_free [OF assms(1,2)] assms(4) 3 v rd
      by (intro exI [of _ "pk_version pkg"]) (cases "pk_version pkg"; auto simp: force_version_def version_of_def)
  qed
qed

lemma holds_force_author:
  assumes "sound m0" and "holds m0 (author # freed_ptrs pkg @ rest) m" and "ptext author = Some a"
    and "force_author author pkg m = (pkg', m')"
  shows "\<exists>x. pkg' = pkg\<lparr>pk_author := x\<rparr> \<and> ptext x = Some a \<and>
    holds m0 (freed_ptrs pkg' @ (if pk_author pkg = Null then [author] else []) @ rest) m'"
proof -
  have a: "author \<noteq> Null" "text_of author = a" using assms(3) by (simp_all add: ptext_Some)
  have rd: "c_read author m = m" using holds_read [OF assms(2) _ a(1)] by simp
  show ?thesis
  proof (cases "pk_author pkg = Null")
    case True
    obtain p m1 where 1: "c_new a m = (p, m1)" by fastforce
    note h1 = holds_new [OF assms(1,2) 1]
    have "holds m0 (freed_ptrs (pkg\<lparr>pk_author := p\<rparr>) @ author # rest) (c_free (pk_author pkg) m1)"
    proof (rule holds_swap [OF assms(1) _ freed_ptrs_author])
      show "holds m0 (p # freed_ptrs pkg @ author # rest) m1" using h1(1) by (rule holds_perm) simp
    qed
    then show ?thesis using assms(4) True 1 rd a h1(3) by (auto simp: force_author_def strdup_def)
  next
    case False
    have rd2: "c_read (pk_author pkg) m = m" using holds_read [OF assms(2) _ False] by (simp add: freed_ptrs_def)
    show ?thesis
    proof (cases "a = text_of (pk_author pkg)")
      case True
      have "pkg\<lparr>pk_author := pk_author pkg\<rparr> = pkg" by simp
      then show ?thesis using holds_free [OF assms(1,2)] assms(4) False True a rd rd2
        by (intro exI [of _ "pk_author pkg"]) (auto simp: force_author_def ptext_Some)
    next
      case diff: False
      have "holds m0 (freed_ptrs (pkg\<lparr>pk_author := author\<rparr>) @ rest) (c_free (pk_author pkg) m)"
        by (rule holds_swap [OF assms(1,2) freed_ptrs_author])
      then show ?thesis using assms(3,4) False diff a rd rd2 by (auto simp: force_author_def)
    qed
  qed
qed

text \<open>The address: of the slug, or of the repository the manifest names when that is another.\<close>

definition final_url :: "clib \<Rightarrow> bytes \<Rightarrow> bytes \<Rightarrow> bytes \<Rightarrow> bytes \<Rightarrow> bytes \<Rightarrow> bytes option \<Rightarrow> bytes" where
  "final_url m a n v nm ver repo =
     (case repo of
        Some r \<Rightarrow> if a @ [c_slash] @ nm \<noteq> r then github_url (op_token (cl_opts m)) @ r @ [c_slash] @ ver
                   else package_url_text m a n v
      | None \<Rightarrow> package_url_text m a n v)"

text \<open>The end of the function, from the two fields that are forced.\<close>

lemma holds_slug_end:
  assumes "sound m0" and "holds m0 (url # freed_ptrs pkg @ rest) m" and "ptext (pk_author pkg) = Some a"
    and "ptext (pk_name pkg) = Some nm" and "ptext (pk_version pkg) = Some ver" and "pk_url pkg = Null" and "ptext url = Some u"
    and "clib_package_repo (pk_author pkg) (pk_name pkg) m = (repo, m1)"
    and "(if pk_repo pkg \<noteq> Null \<and> text_of repo \<noteq> text_of (pk_repo pkg)
          then clib_package_url_from_repo (pk_repo pkg) (pk_version pkg) (c_free url m1) else (url, m1)) = (url', m2)"
    and "(if pk_repo pkg \<noteq> Null then (pkg, c_free repo m2) else (pkg\<lparr>pk_repo := repo\<rparr>, m2)) = (pkg', m3)"
  shows "repo \<noteq> Null \<and> ptext url' = Some (case ptext (pk_repo pkg) of
        Some r \<Rightarrow> if a @ [c_slash] @ nm \<noteq> r then github_url (op_token (cl_opts m0)) @ r @ [c_slash] @ ver else u | None \<Rightarrow> u) \<and>
    (\<exists>x. pkg' = pkg\<lparr>pk_repo := x\<rparr>) \<and> holds m0 (freed_ptrs (pkg'\<lparr>pk_url := url'\<rparr>) @ rest) m3"
proof -
  have p: "pk_author pkg \<noteq> Null" "pk_name pkg \<noteq> Null" "pk_version pkg \<noteq> Null" "text_of (pk_author pkg) = a"
    "text_of (pk_name pkg) = nm" "text_of (pk_version pkg) = ver" using assms(3-5) by (simp_all add: ptext_Some)
  have rd: "c_read (pk_author pkg) m = m" "c_read (pk_name pkg) m = m"
    using holds_read [OF assms(2)] p by (simp_all add: freed_ptrs_def)
  then have "\<forall>p\<in>{pk_author pkg, pk_name pkg, pk_author pkg}. p \<noteq> Null \<and> c_read p m = m" using p by simp
  from addresses_fit [OF this] have 1: "c_new (a @ [c_slash] @ nm) m = (repo, m1)" using assms(8) p by simp
  note h1 = holds_new [OF assms(1,2) 1]
  have url_in: "holds m0 (freed_ptrs (pkg\<lparr>pk_url := x\<rparr>) @ repo # rest) mx" if "holds m0 (repo # x # freed_ptrs pkg @ rest) mx" for x mx
  proof -
    have "holds m0 (x # freed_ptrs pkg @ repo # rest) mx" using that by (rule holds_perm) simp
    from holds_swap [OF assms(1) this freed_ptrs_url] show ?thesis using assms(6) by simp
  qed
  have two: "ptext url' = Some (case ptext (pk_repo pkg) of
        Some r \<Rightarrow> if a @ [c_slash] @ nm \<noteq> r then github_url (op_token (cl_opts m0)) @ r @ [c_slash] @ ver else u | None \<Rightarrow> u) \<and>
      holds m0 (freed_ptrs (pkg\<lparr>pk_url := url'\<rparr>) @ repo # rest) m2"
  proof (cases "pk_repo pkg \<noteq> Null \<and> text_of repo \<noteq> text_of (pk_repo pkg)")
    case False
    then have "url' = url" "m2 = m1" using assms(9) by auto
    then show ?thesis using False url_in [OF h1(1)] assms(7) h1(4) by (cases "pk_repo pkg") auto
  next
    case True
    have "holds m0 (url # repo # freed_ptrs pkg @ rest) m1" using h1(1) by (rule holds_perm) simp
    note h2 = holds_free [OF assms(1) this]
    have "c_read (pk_repo pkg) (c_free url m1) = c_free url m1" "c_read (pk_version pkg) (c_free url m1) = c_free url m1"
      using holds_read [OF h2] True p by (simp_all add: freed_ptrs_def)
    then have "\<forall>p\<in>{pk_repo pkg, pk_version pkg, pk_version pkg}. p \<noteq> Null \<and> c_read p (c_free url m1) = c_free url m1"
      using True p by simp
    from addresses_fit [OF this]
    have 2: "c_new (github_url (op_token (cl_opts m0)) @ text_of (pk_repo pkg) @ [c_slash] @ ver) (c_free url m1) = (url', m2)"
      using assms(9) True p holds_keeps(3) [OF h2] by simp
    note h3 = holds_new [OF assms(1) h2 2]
    have "holds m0 (repo # url' # freed_ptrs pkg @ rest) m2" using h3(1) by (rule holds_perm) simp
    from url_in [OF this] show ?thesis using h3(3) True h1(4) by (cases "pk_repo pkg") auto
  qed
  have "holds m0 (freed_ptrs (pkg'\<lparr>pk_url := url'\<rparr>) @ rest) m3 \<and> (\<exists>x. pkg' = pkg\<lparr>pk_repo := x\<rparr>)"
  proof (cases "pk_repo pkg = Null")
    case True
    have "holds m0 (repo # freed_ptrs (pkg\<lparr>pk_url := url'\<rparr>) @ rest) m2" using conjunct2 [OF two] by (rule holds_perm) simp
    note swapped = holds_swap [OF assms(1) this freed_ptrs_repo]
    have "freed_ptrs (pkg\<lparr>pk_repo := repo, pk_url := url'\<rparr>) = freed_ptrs (pkg\<lparr>pk_url := url', pk_repo := repo\<rparr>)"
      by (simp add: freed_ptrs_def)
    then show ?thesis using swapped True assms(10) by auto
  next
    case False
    have same: "pkg\<lparr>pk_repo := pk_repo pkg\<rparr> = pkg" by simp
    have "holds m0 (repo # freed_ptrs (pkg\<lparr>pk_url := url'\<rparr>) @ rest) m2" using conjunct2 [OF two] by (rule holds_perm) simp
    from holds_free [OF assms(1) this] show ?thesis using False assms(10) same by (auto intro: exI [of _ "pk_repo pkg"])
  qed
  then show ?thesis using two h1(2) by simp
qed

lemma holds_cache_json:
  assumes "holds m0 ps m" and "json \<in> set ps" and "json \<noteq> Null"
  shows "holds m0 ps (cache_json pkg json m)"
  using holds_read [OF holds_sync(2) [OF assms(1)] assms(2,3)] holds_sync [OF assms(1)]
  by (auto simp: cache_json_def Let_def intro!: holds_sync(1) holds_sync(2) holds_sync(3) assms(1))

lemma holds_forced:
  assumes "sound m0" and "holds m0 (version # freed_ptrs pkg @ author # rest) m" and "ptext version = Some v" and "ptext author = Some a"
    and "force_version version pkg m = (p1, m1)" and "force_author author p1 m1 = (p2, m2)"
  shows "\<exists>x y. p2 = pkg\<lparr>pk_version := x, pk_author := y\<rparr> \<and> ptext x = Some (version_of v (ptext (pk_version pkg))) \<and> ptext y = Some a \<and>
    holds m0 (freed_ptrs p2 @ (if pk_author pkg = Null then [author] else []) @ rest) m2"
proof -
  obtain x where p1: "p1 = pkg\<lparr>pk_version := x\<rparr>" "ptext x = Some (version_of v (ptext (pk_version pkg)))"
      "holds m0 (freed_ptrs p1 @ author # rest) m1"
    using holds_force_version [OF assms(1-3,5)] by blast
  have "holds m0 (author # freed_ptrs p1 @ rest) m1" using p1(3) by (rule holds_perm) simp
  from holds_force_author [OF assms(1) this assms(4,6)] obtain y where "p2 = p1\<lparr>pk_author := y\<rparr>" "ptext y = Some a"
    "holds m0 (freed_ptrs p2 @ (if pk_author p1 = Null then [author] else []) @ rest) m2" by blast
  then show ?thesis using p1(1,2) by (intro exI [of _ x] exI [of _ y]) auto
qed


definition sample_slug_api :: "(bytes option \<times> bool) option \<Rightarrow> json_root option \<Rightarrow> slug_api" where
  "sample_slug_api answer root =
     \<lparr>ca_json_parse = (\<lambda>_. root), ca_repo_owner = (\<lambda>_ d. Some d), ca_repo_name = (\<lambda>s. Some s),
      ca_repo_version = (\<lambda>_ d. Some d), ca_cache_has_json = (\<lambda>_ _ _. False), ca_cache_read_json = (\<lambda>_ _ _. None),
      ca_http_get = (\<lambda>_ _. answer)\<rparr>"

lemma sample_slug_ready:
  "sound empty_state" "c_read (Literal s) empty_state = empty_state" "cl_fault empty_state = None" "cl_bad_unlocks empty_state = 0"
  "slug_parses (sample_slug_api answer root) (Literal s) DEFAULT_REPO_OWNER s DEFAULT_REPO_VERSION"
  "uncached (sample_slug_api answer root) DEFAULT_REPO_OWNER s DEFAULT_REPO_VERSION"
  by (simp_all add: sound_def empty_state_def slug_parses_def uncached_def sample_slug_api_def)

lemma unreachable_manifest_witness:
  "\<exists>m'. clib_package_new_from_slug_with_package_name (sample_slug_api (Some (None, False)) None) (Literal (str ''n'')) True
     (str ''clib.json'') empty_state = (None, m') \<and> cl_bad_unlocks m' = 3"
proof -
  let ?api = "sample_slug_api (Some (None, False)) None"
  obtain r m' where run: "clib_package_new_from_slug_with_package_name ?api (Literal (str ''n'')) True (str ''clib.json'') empty_state = (r, m')"
    by fastforce
  have "\<forall>k<3. \<exists>data. ca_http_get ?api (manifest_url empty_state DEFAULT_REPO_OWNER (str ''n'') DEFAULT_REPO_VERSION (str ''clib.json'')) k
    = Some (data, False)" by (simp add: sample_slug_api_def)
  from unreachable_manifest [OF sample_slug_ready(1,2,5,6) this run] run show ?thesis by (simp add: sample_slug_ready)
qed

lemma bad_manifest_freed_twice_witness:
  "\<exists>m'. clib_package_new_from_slug_with_package_name (sample_slug_api (Some (Some (str ''x''), True)) None) (Literal (str ''n'')) True
     (str ''clib.json'') empty_state = (None, m') \<and> cl_fault m' = Some Ub_DoubleFree"
proof -
  let ?api = "sample_slug_api (Some (Some (str ''x''), True)) None"
  let ?url = "manifest_url empty_state DEFAULT_REPO_OWNER (str ''n'') DEFAULT_REPO_VERSION (str ''clib.json'')"
  obtain r m' where run: "clib_package_new_from_slug_with_package_name ?api (Literal (str ''n'')) True (str ''clib.json'') empty_state = (r, m')"
    by fastforce
  have "\<forall>k<3. ca_http_get ?api ?url k \<noteq> None" "fetched ?api ?url 3 = Some (Some (str ''x''), 2)" "accepted ?api (Some (str ''x'')) = None"
    by (simp_all add: sample_slug_api_def accepted_def numeral_3_eq_3)
  from bad_manifest_freed_twice [OF sample_slug_ready(1,2,5,6) this sample_slug_ready(3) run] run show ?thesis by simp
qed


end
