(* ===== verification/ClibInstall.thy ===== *)
theory ClibInstall
  imports ClibSlug
begin

text \<open>
  HW_05-Valgrind/clib/clib-package.c, third part: the installation of a package with its files, which
  threads fetch, its commands and its dependencies. The file system, the shell, the environment, the
  transfers and the creation of threads are parameters. Texts a call makes for itself and releases at
  its end are not followed as blocks, \<open>asprintf\<close> succeeds.
\<close>

subsection \<open>Fetching a file\<close>

text \<open>
  \<open>ca_path_join\<close> takes a missing name as \<open>None\<close>; \<open>ca_running\<close> tells whether a thread nobody waits for
  is still running when its package is looked at again.
\<close>

record install_api = slug_api +
  ca_getenv :: "bytes \<Rightarrow> bytes option"
  ca_realpath :: "bytes \<Rightarrow> bytes"
  ca_tempdir :: "bytes option"
  ca_path_join :: "bytes \<Rightarrow> bytes option \<Rightarrow> bytes option"
  ca_mkdirp :: "bytes \<Rightarrow> bool"
  ca_fs_write :: "bytes \<Rightarrow> bool"
  ca_fs_exists :: "bytes \<Rightarrow> bool"
  ca_http_get_file :: "bytes \<Rightarrow> bytes \<Rightarrow> int"
  ca_cache_has_package :: "bytes \<Rightarrow> bytes \<Rightarrow> bytes \<Rightarrow> bool"
  ca_cache_load_package :: "bytes \<Rightarrow> bytes \<Rightarrow> bytes \<Rightarrow> bytes \<Rightarrow> int"
  ca_system :: "bytes \<Rightarrow> int"
  ca_create :: "nat \<Rightarrow> int"
  ca_running :: "nat \<Rightarrow> bool"

text \<open>\<open>basename\<close> of libgen: the last component without trailing slashes.\<close>

definition libgen_basename :: "bytes \<Rightarrow> bytes" where
  "libgen_basename path =
     (if path = [] then [c_dot]
      else
        let p = dropWhile (\<lambda>c. c = c_slash) (rev path) in
        if p = [] then [c_slash] else rev (takeWhile (\<lambda>c. c \<noteq> c_slash) p))"

text \<open>The result of the thread, and the url and the path of the transfer when there is one.\<close>

definition fetch_package_file_work ::
    "'a install_api_scheme \<Rightarrow> clib_opts \<Rightarrow> package \<Rightarrow> bytes \<Rightarrow> bytes \<Rightarrow> bool \<Rightarrow> int \<times> (bytes \<times> bytes) option" where
  "fetch_package_file_work api opts pkg dir fname verbose =
     (if pk_url pkg = Null then (1, None)
      else
        let url = (if take 4 fname = str ''http'' then fname else text_of (pk_url pkg) @ [c_slash] @ fname) in
        case ca_path_join api dir (Some (libgen_basename fname)) of
          None \<Rightarrow> (1, None)
        | Some path \<Rightarrow>
            if op_force opts = 1 \<or> \<not> ca_fs_exists api path then
              let rc = ca_http_get_file api url path in
              (if rc = - 1 \<and> verbose then 1 else rc, Some (url, path))
            else (0, None))"

text \<open>
  A thread: its number, the block of its data, the block it stores its result in, and the result. The
  thread is started with what it is going to do on record; the references to the package count the
  threads started and not ended.
\<close>

record thread =
  th_id :: nat
  th_data :: cptr
  th_status :: cptr
  th_rc :: int

definition fetch_package_file ::
    "'a install_api_scheme \<Rightarrow> package \<Rightarrow> bytes \<Rightarrow> bytes \<Rightarrow> bool \<Rightarrow> clib \<Rightarrow> int \<times> thread option \<times> package \<times> clib" where
  "fetch_package_file api pkg dir fname verbose m =
     (case c_new [] m of
        (data, m) \<Rightarrow>
          if data = Null then (- 1, None, pkg, m)
          else
            let t = cl_threads m; pkg = pkg\<lparr>pk_refs := pk_refs pkg + 1\<rparr>; rc = ca_create api t in
            if rc \<noteq> 0 then (rc, None, pkg, c_free data m)
            else
              let (status, m) = c_new [] (call (Spawn t) (m\<lparr>cl_threads := t + 1\<rparr>));
                  m = (if status = Null then fault Ub_NullDeref m else m);
                  (work, transfer) = fetch_package_file_work api (cl_opts m) pkg dir fname verbose;
                  m = (case transfer of None \<Rightarrow> m | Some (url, path) \<Rightarrow> call (Http_get_file url path) m) in
              (0, Some \<lparr>th_id = t, th_data = data, th_status = status, th_rc = work\<rparr>, pkg, m))"

definition end_of_thread :: "package \<Rightarrow> package" where
  "end_of_thread pkg = pkg\<lparr>pk_refs := pk_refs pkg - 1\<rparr>"

text \<open>
  \<open>pthread_join\<close> in the loops over the sources is given a null pointer for the result, which is then
  lost with the block it is in; the data is released.
\<close>

definition join_source :: "thread \<Rightarrow> package \<Rightarrow> clib \<Rightarrow> package \<times> clib" where
  "join_source th pkg m = (end_of_thread pkg, c_free (th_data th) (call (Join (th_id th)) m))"

fun join_down :: "nat \<Rightarrow> (nat \<Rightarrow> thread option) \<Rightarrow> package \<Rightarrow> clib \<Rightarrow> (nat \<Rightarrow> thread option) \<times> package \<times> clib" where
  "join_down 0 fetchs pkg m = (fetchs, pkg, m)"
| "join_down (Suc i) fetchs pkg m =
     (case fetchs i of
        None \<Rightarrow> (fetchs, pkg, fault Ub_NullDeref m)
      | Some th \<Rightarrow> (case join_source th pkg m of (pkg, m) \<Rightarrow> join_down i (fetchs(i := None)) pkg m))"

text \<open>
  The loop over the sources. The index goes up to the number of concurrent threads; there all threads
  below it are waited for and it becomes -1. When the list is done the threads below the index are
  waited for.
\<close>

fun download_loop ::
    "'a install_api_scheme \<Rightarrow> bytes \<Rightarrow> bool \<Rightarrow> cptr list \<Rightarrow> int \<Rightarrow> (nat \<Rightarrow> thread option) \<Rightarrow> package \<Rightarrow> clib \<Rightarrow> int \<times> package \<times> clib" where
  "download_loop api dir verbose [] i fetchs pkg m =
     (case join_down (nat i) fetchs pkg m of (fetchs, pkg, m) \<Rightarrow> (0, pkg, m))"
| "download_loop api dir verbose (source # rest) i fetchs pkg m =
     (case fetch_package_file api pkg dir (text_of source) verbose (c_read source m) of
        (rc, fetch, pkg, m) \<Rightarrow>
          if rc \<noteq> 0 then (- 1, pkg, m)
          else
            let i = (if i < 0 then 0 else i); fetchs = fetchs(nat i := fetch) in
            if i < op_concurrency (cl_opts m) then download_loop api dir verbose rest (i + 1) fetchs pkg m
            else
              case join_down (nat i) fetchs pkg m of
                (fetchs, pkg, m) \<Rightarrow> download_loop api dir verbose rest (- 1) fetchs pkg m)"

text \<open>The makefile: its thread is waited for with its result, its data is not released.\<close>

definition fetch_makefile :: "'a install_api_scheme \<Rightarrow> bytes \<Rightarrow> bool \<Rightarrow> package \<Rightarrow> clib \<Rightarrow> int \<times> package \<times> clib" where
  "fetch_makefile api pkg_dir verbose pkg m =
     (case fetch_package_file api pkg pkg_dir (text_of (pk_makefile pkg)) verbose (c_read (pk_makefile pkg) m) of
        (rc, fetch, pkg, m) \<Rightarrow>
          if rc \<noteq> 0 then (rc, pkg, m)
          else
            case fetch of
              None \<Rightarrow> (0, pkg, m)
            | Some th \<Rightarrow> (0, end_of_thread pkg, c_free (th_status th) (call (Join (th_id th)) m)))"

text \<open>The threads nobody waited for that have ended by then give their reference back.\<close>

definition settle :: "'a install_api_scheme \<Rightarrow> nat \<Rightarrow> package \<Rightarrow> clib \<Rightarrow> package" where
  "settle api t0 pkg m =
     pkg\<lparr>pk_refs := pk_refs pkg -
       int (length [t \<leftarrow> [t0..<cl_threads m]. Join t \<notin> set (cl_calls m) \<and> \<not> ca_running api t])\<rparr>"

definition download :: "'a install_api_scheme \<Rightarrow> bytes \<Rightarrow> bool \<Rightarrow> package \<Rightarrow> clib \<Rightarrow> int \<times> package \<times> clib" where
  "download api pkg_dir verbose pkg m =
     (case download_loop api pkg_dir verbose (case pk_src pkg of None \<Rightarrow> [] | Some src \<Rightarrow> src) 0 (\<lambda>_. None) pkg m of
        (rc, pkg', m') \<Rightarrow>
          (rc, settle api (cl_threads m) pkg' m',
           if rc \<noteq> 0 then m'
           else call (Cache_save_package (text_of (pk_author pkg)) (text_of (pk_name pkg)) (text_of (pk_version pkg))) m'))"

subsection \<open>Dependencies\<close>

text \<open>
  The functions that install each other get the one that installs a package as an argument; its result
  is \<open>None\<close> when it does not return. Only -1 counts as a failure. A package whose installation fails is
  not released.
\<close>

type_synonym installer = "package \<Rightarrow> bytes \<Rightarrow> clib \<Rightarrow> (int \<times> package \<times> clib) option"

fun packages_loop :: "'a install_api_scheme \<Rightarrow> bool \<Rightarrow> installer \<Rightarrow> bytes \<Rightarrow> dependency list \<Rightarrow> package list \<Rightarrow> clib
    \<Rightarrow> (int \<times> package list \<times> clib) option" where
  "packages_loop api verbose rec dir [] freelist m = Some (0, freelist, m)"
| "packages_loop api verbose rec dir (dep # deps) freelist m =
     (case clib_package_slug (dp_author dep) (dp_name dep) (dp_version dep) m of
        (slug, m) \<Rightarrow>
          if slug = Null then Some (- 1, freelist, m)
          else
            (case clib_package_new_from_slug api slug verbose m of
               (None, m) \<Rightarrow> Some (- 1, freelist, c_free slug m)
             | (Some pkg, m) \<Rightarrow>
                 (case rec pkg dir m of
                    None \<Rightarrow> None
                  | Some (rc, pkg, m) \<Rightarrow>
                      if rc = - 1 then Some (- 1, freelist, c_free slug m)
                      else packages_loop api verbose rec dir deps (freelist @ [pkg]) (c_free slug m))))"

definition install_packages :: "'a install_api_scheme \<Rightarrow> bool \<Rightarrow> installer \<Rightarrow> dependency list option \<Rightarrow> bytes option \<Rightarrow> clib
    \<Rightarrow> (int \<times> clib) option" where
  "install_packages api verbose rec list dir m =
     (case (list, dir) of
        (Some deps, Some dir) \<Rightarrow>
          (case packages_loop api verbose rec dir deps [] m of
             None \<Rightarrow> None
           | Some (rc, freelist, m) \<Rightarrow> Some (rc, fold (\<lambda>pkg. clib_package_free (Some pkg)) freelist m))
      | _ \<Rightarrow> Some (- 1, fault Ub_Uninit m))"

definition clib_package_install_dependencies :: "'a install_api_scheme \<Rightarrow> bool \<Rightarrow> installer \<Rightarrow> package \<Rightarrow> bytes option \<Rightarrow> clib
    \<Rightarrow> (int \<times> clib) option" where
  "clib_package_install_dependencies api verbose rec pkg dir m =
     (if dir = None then Some (- 1, m)
      else if pk_dependencies pkg = None then Some (0, m)
      else install_packages api verbose rec (pk_dependencies pkg) dir m)"

definition clib_package_install_development :: "'a install_api_scheme \<Rightarrow> bool \<Rightarrow> installer \<Rightarrow> package \<Rightarrow> bytes option \<Rightarrow> clib
    \<Rightarrow> (int \<times> clib) option" where
  "clib_package_install_development api verbose rec pkg dir m =
     (if dir = None then Some (- 1, m)
      else if pk_development pkg = None then Some (0, m)
      else install_packages api verbose rec (pk_development pkg) dir m)"

subsection \<open>Commands\<close>

definition set_prefix :: "'a install_api_scheme \<Rightarrow> bool \<Rightarrow> package \<Rightarrow> clib \<Rightarrow> clib" where
  "set_prefix api mkdir pkg m =
     (if op_prefix (cl_opts m) = None \<and> pk_prefix pkg = Null then m
      else
        let path = ca_realpath api (case op_prefix (cl_opts m) of Some p \<Rightarrow> p | None \<Rightarrow> text_of (pk_prefix pkg));
            m = call (Setenv (str ''PREFIX'') (Some path)) m in
        if mkdir then call (Mkdirp path) m else m)"

definition run_command :: "'a install_api_scheme \<Rightarrow> bytes \<Rightarrow> clib \<Rightarrow> int \<times> clib" where
  "run_command api command m = (ca_system api command, call (System command) m)"

text \<open>\<open>setenv\<close> is given the old value of \<open>CFLAGS\<close>, which may be a null pointer.\<close>

definition set_cflags :: "'a install_api_scheme \<Rightarrow> package \<Rightarrow> clib \<Rightarrow> clib" where
  "set_cflags api pkg m =
     (if pk_flags pkg = Null then m
      else
        case ca_getenv api (str ''CFLAGS'') of
          None \<Rightarrow> fault Ub_NullDeref m
        | Some cflags \<Rightarrow> call (Setenv (str ''CFLAGS'') (Some cflags)) m)"

definition executable_end :: "'a install_api_scheme \<Rightarrow> package \<Rightarrow> bytes \<Rightarrow> bytes \<Rightarrow> clib \<Rightarrow> int \<times> clib" where
  "executable_end api pkg dir_path unpack_dir m =
     (let (rc, m) =
        (if op_global (cl_opts m) = 0 \<and> pk_makefile pkg \<noteq> Null
         then run_command api (str ''cp -fr '' @ dir_path @ [c_slash] @ text_of (pk_name pkg) @ [c_slash] @
                libgen_basename (text_of (pk_makefile pkg)) @ [c_space] @ unpack_dir) m
         else (0, m)) in
      if rc \<noteq> 0 then (rc, m)
      else
        let m = set_cflags api pkg m in
        run_command api (str ''cd '' @ unpack_dir @ str '' && '' @ text_of (pk_install pkg)) m)"

definition clib_package_install_executable :: "'a install_api_scheme \<Rightarrow> bool \<Rightarrow> installer \<Rightarrow> package \<Rightarrow> bytes \<Rightarrow> clib
    \<Rightarrow> (int \<times> clib) option" where
  "clib_package_install_executable api verbose rec pkg dir m =
     (case (ca_tempdir api, ptext (pk_repo pkg)) of
        (Some tmp, Some repo) \<Rightarrow>
          (case strrchr c_slash repo of
             None \<Rightarrow> Some (- 1, m)
           | Some slash \<Rightarrow>
               let reponame = drop 1 slash;
                   m = c_read (pk_version pkg) m; version = text_of (pk_version pkg);
                   url = str ''https://github.com/'' @ repo @ str ''/archive/'' @ version @ str ''.tar.gz'';
                   fname = reponame @ [c_minus] @ version @ str ''.tar.gz'';
                   tarball = tmp @ [c_slash] @ fname;
                   m = call (Http_get_file url tarball) m; rc = ca_http_get_file api url tarball in
               if rc \<noteq> 0 then Some (rc, m)
               else
                 let (rc, m) = run_command api (str ''cd '' @ tmp @ str '' && gzip -dc '' @ fname @ str '' | tar x'') m in
                 if rc \<noteq> 0 then Some (rc, m)
                 else
                   let m = set_prefix api True pkg m;
                       dir_path = ca_realpath api dir;
                       short = (case version of c # rest \<Rightarrow> if c = 0x76 then rest else version | [] \<Rightarrow> version);
                       unpack_dir = tmp @ [c_slash] @ reponame @ [c_minus] @ short in
                   if pk_dependencies pkg \<noteq> None then
                     (case clib_package_install_dependencies api verbose rec pkg (Some (unpack_dir @ str ''/deps'')) m of
                        None \<Rightarrow> None
                      | Some (rc, m) \<Rightarrow>
                          if rc = - 1 then Some (rc, m) else Some (executable_end api pkg dir_path unpack_dir m))
                   else Some (executable_end api pkg dir_path unpack_dir m))
      | _ \<Rightarrow> Some (- 1, m))"

subsection \<open>Installation\<close>

definition fetch_sources :: "'a install_api_scheme \<Rightarrow> bool \<Rightarrow> bytes \<Rightarrow> package \<Rightarrow> clib \<Rightarrow> int \<times> package \<times> clib" where
  "fetch_sources api verbose pkg_dir pkg m =
     (let a = text_of (pk_author pkg); n = text_of (pk_name pkg); ver = text_of (pk_version pkg) in
      if op_global (cl_opts m) \<noteq> 0 \<or> pk_src pkg = None then (0, pkg, m)
      else if ca_cache_has_package api a n ver then
        if op_skip_cache (cl_opts m) \<noteq> 0 then download api pkg_dir verbose pkg (call (Cache_delete_package a n ver) m)
        else if ca_cache_load_package api a n ver pkg_dir \<noteq> 0 then download api pkg_dir verbose pkg m
        else (0, pkg, m)
      else download api pkg_dir verbose pkg m)"

definition run_install :: "'a install_api_scheme \<Rightarrow> bool \<Rightarrow> installer \<Rightarrow> bytes \<Rightarrow> package \<Rightarrow> clib \<Rightarrow> (int \<times> package \<times> clib) option" where
  "run_install api verbose rec dir pkg m =
     (let (rc, m) =
        (if pk_configure pkg \<noteq> Null
         then run_command api (str ''cd '' @ dir @ [c_slash] @ text_of (pk_name pkg) @ str '' && '' @ text_of (pk_configure pkg))
                (set_prefix api False pkg m)
         else (0, m)) in
      if rc \<noteq> 0 then Some (rc, pkg, m)
      else
        case (if pk_install pkg \<noteq> Null then clib_package_install_executable api verbose rec pkg dir m else Some (0, m)) of
          None \<Rightarrow> None
        | Some (rc, m) \<Rightarrow>
            if rc \<noteq> 0 then Some (rc, pkg, m)
            else map_option (\<lambda>(rc, m). (rc, pkg, m)) (clib_package_install_dependencies api verbose rec pkg (Some dir) m))"

text \<open>From the list of the packages visited on.\<close>

definition install_files :: "'a install_api_scheme \<Rightarrow> bool \<Rightarrow> installer \<Rightarrow> bytes \<Rightarrow> bytes \<Rightarrow> package \<Rightarrow> clib \<Rightarrow> (int \<times> package \<times> clib) option" where
  "install_files api verbose rec dir pkg_dir pkg m =
     (let local = (op_global (cl_opts m) = 0);
          m = (if pk_name pkg \<noteq> Null then m\<lparr>cl_visited := insert (text_of (pk_name pkg)) (cl_visited m)\<rparr> else m);
          (rc, pkg, m) = (if local \<and> pk_makefile pkg \<noteq> Null then fetch_makefile api pkg_dir verbose pkg m else (0, pkg, m)) in
      if rc \<noteq> 0 then Some (rc, pkg, m)
      else
        let (rc, pkg, m) = fetch_sources api verbose pkg_dir pkg m in
        if rc \<noteq> 0 then Some (rc, pkg, m) else run_install api verbose rec dir pkg m)"

text \<open>From the directory of the package on.\<close>

definition install_in :: "'a install_api_scheme \<Rightarrow> bool \<Rightarrow> installer \<Rightarrow> bytes \<Rightarrow> bytes \<Rightarrow> package \<Rightarrow> clib \<Rightarrow> (int \<times> package \<times> clib) option" where
  "install_in api verbose rec dir pkg_dir pkg m =
     (let local = (op_global (cl_opts m) = 0); m = (if local then call (Mkdirp pkg_dir) m else m) in
      if local \<and> \<not> ca_mkdirp api pkg_dir then Some (- 1, pkg, m)
      else
        let (url, m) = (if pk_url pkg = Null then clib_package_url (pk_author pkg) (pk_repo_name pkg) (pk_version pkg) m else (pk_url pkg, m));
            pkg = pkg\<lparr>pk_url := url\<rparr> in
        if url = Null then Some (- 1, pkg, m)
        else
          case ca_path_join api pkg_dir (pk_filename pkg) of
            None \<Rightarrow> Some (- 1, pkg, m)
          | Some package_json \<Rightarrow>
              let m = (if local \<and> pk_src pkg \<noteq> None then call (Fs_write package_json (text_of (pk_json pkg))) (c_read (pk_json pkg) m) else m) in
              if local \<and> pk_src pkg \<noteq> None \<and> \<not> ca_fs_write api package_json then Some (- 1, pkg, m)
              else
                install_files api verbose rec dir pkg_dir pkg m)"

text \<open>The prefix of the environment, and the packages visited: the first entry is empty.\<close>

definition install_setup :: "'a install_api_scheme \<Rightarrow> clib \<Rightarrow> clib" where
  "install_setup api m =
     (let m = (case op_prefix (cl_opts m) of
                 Some p \<Rightarrow> m
               | None \<Rightarrow> (case ca_getenv api (str ''PREFIX'') of
                            None \<Rightarrow> m
                          | Some p \<Rightarrow> m\<lparr>cl_opts := (cl_opts m)\<lparr>op_prefix := Some p\<rparr>\<rparr>)) in
      m\<lparr>cl_visited := insert [] (cl_visited m)\<rparr>)"

definition install_body :: "'a install_api_scheme \<Rightarrow> bool \<Rightarrow> installer \<Rightarrow> installer" where
  "install_body api verbose rec pkg dir m =
     (let m = install_setup api m in
      if op_force (cl_opts m) = 0 \<and> pk_name pkg \<noteq> Null \<and> text_of (pk_name pkg) \<in> cl_visited m then Some (0, pkg, m)
      else
        case ca_path_join api dir (ptext (pk_name pkg)) of
          None \<Rightarrow> Some (- 1, pkg, m)
        | Some pkg_dir \<Rightarrow> install_in api verbose rec dir pkg_dir pkg m)"

text \<open>The first argument bounds the depth of the recursion; \<open>None\<close> when it is not enough.\<close>

fun clib_package_install :: "nat \<Rightarrow> 'a install_api_scheme \<Rightarrow> bool \<Rightarrow> installer" where
  "clib_package_install 0 api verbose pkg dir m = None"
| "clib_package_install (Suc n) api verbose pkg dir m = install_body api verbose (clib_package_install n api verbose) pkg dir m"

text \<open>What \<open>clib_package_cleanup\<close> leaves of the packages visited.\<close>

definition clib_package_cleanup :: "clib \<Rightarrow> clib" where
  "clib_package_cleanup m = m\<lparr>cl_visited := {}\<rparr>"

subsection \<open>Local manifests\<close>

text \<open>\<open>fs_read\<close> gives the contents of a file that exists, or nothing.\<close>

definition clib_package_load_from_manifest :: "'a install_api_scheme \<Rightarrow> (bytes \<Rightarrow> bytes option) \<Rightarrow> bytes \<Rightarrow> clib \<Rightarrow> package option \<times> clib" where
  "clib_package_load_from_manifest api fs_read manifest m =
     (if \<not> ca_fs_exists api manifest then (None, m)
      else
        case copy_of (fs_read manifest) m of
          (json, m) \<Rightarrow>
            (let (pkg, m) = (if json = Null then (None, m) else clib_package_new api json m) in (pkg, c_free json m)))"

fun load_first :: "'a install_api_scheme \<Rightarrow> (bytes \<Rightarrow> bytes option) \<Rightarrow> bytes list \<Rightarrow> clib \<Rightarrow> package option \<times> clib" where
  "load_first api fs_read [] m = (None, m)"
| "load_first api fs_read (name # names) m =
     (case clib_package_load_from_manifest api fs_read name m of
        (None, m) \<Rightarrow> load_first api fs_read names m
      | (Some pkg, m) \<Rightarrow> (Some pkg, m))"

definition clib_package_load_local_manifest :: "'a install_api_scheme \<Rightarrow> (bytes \<Rightarrow> bytes option) \<Rightarrow> clib \<Rightarrow> package option \<times> clib" where
  "clib_package_load_local_manifest api fs_read m = load_first api fs_read manifest_names m"

subsection \<open>Which threads are waited for\<close>

definition joined :: "clib \<Rightarrow> nat set" where
  "joined m = {t. Join t \<in> set (cl_calls m)}"

lemma calls_kept [simp]:
  "cl_calls (fault u m) = cl_calls m" "cl_calls (c_free p m) = cl_calls m" "cl_calls (c_read p m) = cl_calls m"
  "cl_threads (fault u m) = cl_threads m" "cl_threads (c_free p m) = cl_threads m" "cl_threads (c_read p m) = cl_threads m"
  "cl_opts (fault u m) = cl_opts m" "cl_opts (c_free p m) = cl_opts m" "cl_opts (c_read p m) = cl_opts m"
  "cl_threads (call c m) = cl_threads m" "cl_opts (call c m) = cl_opts m"
  by (cases p; simp add: fault_def call_def)+

lemma joined_simps [simp]:
  "joined (fault u m) = joined m" "joined (c_free p m) = joined m" "joined (c_read p m) = joined m"
  "joined (call (Join t) m) = insert t (joined m)" "joined (call (Spawn t) m) = joined m"
  "joined (call (Http_get_file url path) m) = joined m" "joined (call (Cache_save_package x y z) m) = joined m"
  "joined (m\<lparr>cl_threads := k\<rparr>) = joined m"
  by (auto simp: joined_def call_def)

lemma fetch_started:
  assumes "cl_full m = (\<lambda>_. False)" and "ca_create api (cl_threads m) = 0"
    and "fetch_package_file api pkg dir fname verbose m = (rc, fetch, pkg', m')"
  shows "rc = 0 \<and> (\<exists>th. fetch = Some th \<and> th_id th = cl_threads m) \<and> cl_threads m' = Suc (cl_threads m) \<and>
    joined m' = joined m \<and> cl_opts m' = cl_opts m \<and> cl_full m' = cl_full m"
  using assms
  by (auto simp: fetch_package_file_def c_new_def call_def fault_def Let_def joined_def split: prod.splits option.splits if_splits)

lemma join_down_all:
  assumes "\<forall>j<i. \<exists>th. fetchs j = Some th \<and> th_id th = t + j" and "join_down i fetchs pkg m = (fetchs', pkg', m')"
  shows "joined m' = joined m \<union> {t..<t + i} \<and> cl_threads m' = cl_threads m \<and> cl_opts m' = cl_opts m \<and> cl_full m' = cl_full m"
  using assms
proof (induction i arbitrary: fetchs pkg m)
  case (Suc i)
  obtain th where th: "fetchs i = Some th" "th_id th = t + i" using Suc.prems(1) by blast
  have inv: "\<forall>j<i. \<exists>th. (fetchs(i := None)) j = Some th \<and> th_id th = t + j" using Suc.prems(1) by (auto simp: less_Suc_eq)
  have run: "join_down i (fetchs(i := None)) (end_of_thread pkg) (c_free (th_data th) (call (Join (t + i)) m)) = (fetchs', pkg', m')"
    using Suc.prems(2) th by (simp add: join_source_def)
  show ?case using Suc.IH [OF inv run] by (auto simp: atLeastLessThanSuc)
qed simp

text \<open>Of every round of one thread more than are to run at a time, all but the last are waited for.\<close>

definition waited :: "nat \<Rightarrow> nat \<Rightarrow> nat \<Rightarrow> nat set" where
  "waited t n c = {t + k |k. k < n \<and> k mod (c + 1) \<noteq> c}"

lemma waited_round: "waited t (c + 1 + n) c = {t..<t + c} \<union> waited (t + c + 1) n c"
proof
  show "waited t (c + 1 + n) c \<subseteq> {t..<t + c} \<union> waited (t + c + 1) n c"
  proof
    fix x assume "x \<in> waited t (c + 1 + n) c"
    then obtain k where k: "x = t + k" "k < c + 1 + n" "k mod (c + 1) \<noteq> c" by (auto simp: waited_def)
    show "x \<in> {t..<t + c} \<union> waited (t + c + 1) n c"
    proof (cases "k < c + 1")
      case True
      then show ?thesis using k by (cases "k = c") auto
    next
      case False
      then have "k - (c + 1) < n" "(k - (c + 1)) mod (c + 1) \<noteq> c" "x = t + c + 1 + (k - (c + 1))"
        using k le_mod_geq [of "c + 1" k] by auto
      then show ?thesis unfolding waited_def by blast
    qed
  qed
  show "{t..<t + c} \<union> waited (t + c + 1) n c \<subseteq> waited t (c + 1 + n) c"
  proof
    fix x assume "x \<in> {t..<t + c} \<union> waited (t + c + 1) n c"
    then consider "t \<le> x" "x < t + c" | k where "x = t + c + 1 + k" "k < n" "k mod (c + 1) \<noteq> c" by (auto simp: waited_def)
    then show "x \<in> waited t (c + 1 + n) c"
    proof cases
      case 1
      then have "x = t + (x - t)" "x - t < c + 1 + n" "(x - t) mod (c + 1) \<noteq> c" by auto
      then show ?thesis unfolding waited_def by blast
    next
      case 2
      then have "x = t + (c + 1 + k)" "c + 1 + k < c + 1 + n" by simp_all
      moreover have "(c + 1 + k) mod (c + 1) \<noteq> c" unfolding mod_add_self1 by (rule 2(3))
      ultimately have "x = t + (c + 1 + k)" "c + 1 + k < c + 1 + n" "(c + 1 + k) mod (c + 1) \<noteq> c" by this+
      then show ?thesis unfolding waited_def by blast
    qed
  qed
qed

lemma waited_start: "n \<le> c \<Longrightarrow> waited t n c = {t..<t + n}"
proof -
  assume n: "n \<le> c"
  have "x \<in> waited t n c \<longleftrightarrow> x \<in> {t..<t + n}" for x
  proof
    assume "x \<in> {t..<t + n}"
    then have "x = t + (x - t)" "x - t < n" "(x - t) mod (c + 1) \<noteq> c" using n by auto
    then show "x \<in> waited t n c" unfolding waited_def by blast
  qed (auto simp: waited_def)
  then show ?thesis by blast
qed

lemma download_waits:
  assumes "\<forall>t. ca_create api t = 0"
  shows "\<lbrakk>cl_full m = (\<lambda>_. False); op_concurrency (cl_opts m) = int c; - 1 \<le> i; i \<le> int c; nat i \<le> cl_threads m;
      \<forall>j<nat i. \<exists>th. fetchs j = Some th \<and> th_id th = cl_threads m - nat i + j;
      download_loop api dir verbose srcs i fetchs pkg m = (rc, pkg', m')\<rbrakk> \<Longrightarrow>
    rc = 0 \<and> joined m' = joined m \<union> waited (cl_threads m - nat i) (nat i + length srcs) c \<and> cl_threads m' = cl_threads m + length srcs"
proof (induction srcs arbitrary: i fetchs pkg m)
  case Nil
  obtain f' p' m1 where 1: "join_down (nat i) fetchs pkg m = (f', p', m1)" by (metis prod_cases3)
  from join_down_all [OF Nil.prems(6) 1] show ?case
    using Nil.prems(4,5,7) 1 waited_start [of "nat i" c "cl_threads m - nat i"] by auto
next
  case (Cons src srcs)
  obtain rc1 fetch p1 m1 where 1: "fetch_package_file api pkg dir (text_of src) verbose (c_read src m) = (rc1, fetch, p1, m1)"
    by (metis prod_cases4)
  have "cl_full (c_read src m) = (\<lambda>_. False)" using Cons.prems(1) by simp
  from fetch_started [OF this _ 1] assms obtain th where th: "rc1 = 0" "fetch = Some th" "th_id th = cl_threads m"
    "cl_threads m1 = Suc (cl_threads m)" "joined m1 = joined m" "cl_opts m1 = cl_opts m" "cl_full m1 = cl_full m" by auto
  define k where "k = nat i"
  define f1 where "f1 = fetchs(k := Some th)"
  have k: "k \<le> c" "k \<le> cl_threads m" "nat (if i < 0 then 0 else i) = k" using Cons.prems(4,5) by (auto simp: k_def)
  have f1: "\<forall>j<Suc k. \<exists>th. f1 j = Some th \<and> th_id th = cl_threads m1 - Suc k + j"
    using Cons.prems(6) th(3,4) k(2) by (auto simp: f1_def k_def less_Suc_eq)
  show ?case
  proof (cases "k < c")
    case True
    have i: "(if i < 0 then 0 else i) = int k" using Cons.prems(3) by (auto simp: k_def)
    have "download_loop api dir verbose srcs (int k + 1) f1 p1 m1 = (rc, pkg', m')"
      using Cons.prems(2,7) 1 th True i by (simp add: f1_def Let_def)
    with Cons.IH [of m1 "int k + 1" f1 p1] f1 th k True Cons.prems(1,2) show ?thesis
      by (simp add: k_def [symmetric] nat_add_distrib Suc_as_int [symmetric])
  next
    case False
    then have kc: "k = c" using k(1) by simp
    obtain f2 p2 m2 where 2: "join_down c f1 p1 m1 = (f2, p2, m2)" by (metis prod_cases3)
    have "\<forall>j<c. \<exists>th. f1 j = Some th \<and> th_id th = cl_threads m - c + j" using f1 th(4) kc by auto
    note j = join_down_all [OF this 2]
    have i: "(if i < 0 then 0 else i) = int c" using Cons.prems(3) kc by (auto simp: k_def)
    have "download_loop api dir verbose srcs (- 1) f2 p2 m2 = (rc, pkg', m')"
      using Cons.prems(2,7) 1 2 th kc i by (simp add: f1_def Let_def)
    with Cons.IH [of m2 "- 1" f2 p2] j th Cons.prems(1,2)
    have "rc = 0" "joined m' = joined m2 \<union> waited (cl_threads m2) (length srcs) c" "cl_threads m' = cl_threads m2 + length srcs"
      by simp_all
    moreover have "waited (cl_threads m - c) (c + Suc (length srcs)) c = {cl_threads m - c..<cl_threads m} \<union> waited (Suc (cl_threads m)) (length srcs) c"
      using waited_round [of "cl_threads m - c" c "length srcs"] k(2) kc by simp
    ultimately show ?thesis using j th k(2) kc by (auto simp: k_def [symmetric])
  qed
qed

text \<open>
  with at most \<open>c\<close> threads at a time, every file number \<open>c\<close> of each round of \<open>c + 1\<close> is never waited
  for, and the results of the others are thrown away: the download succeeds and the package is put in the
  cache whatever the transfers return.
\<close>

theorem sources_not_awaited:
  assumes "\<forall>t. ca_create api t = 0" and "cl_full m = (\<lambda>_. False)" and "op_concurrency (cl_opts m) = int c"
    and "pk_src pkg = Some srcs" and "\<forall>t\<ge>cl_threads m. Join t \<notin> set (cl_calls m)"
    and "download api pkg_dir verbose pkg m = (rc, pkg', m')" and "k < length srcs"
  shows "rc = 0 \<and> (Join (cl_threads m + k) \<in> set (cl_calls m') \<longleftrightarrow> k mod (c + 1) \<noteq> c) \<and> (\<exists>a n ver. last (cl_calls m') = Cache_save_package a n ver)"
proof -
  obtain rc1 p1 m1 where 1: "download_loop api pkg_dir verbose srcs 0 (\<lambda>_. None) pkg m = (rc1, p1, m1)" by (metis prod_cases3)
  from download_waits [OF assms(1-3) _ _ _ _ 1]
  have d: "rc1 = 0" "joined m1 = joined m \<union> waited (cl_threads m) (length srcs) c" by simp_all
  have run: "rc = 0" "m' = call (Cache_save_package (text_of (pk_author p1)) (text_of (pk_name p1)) (text_of (pk_version p1))) m1 \<or>
      (\<exists>a n ver. m' = call (Cache_save_package a n ver) m1)"
    using assms(4,6) 1 d(1) by (auto simp: download_def)
  have "cl_threads m + k \<notin> joined m" using assms(5) by (auto simp: joined_def)
  then have "cl_threads m + k \<in> joined m1 \<longleftrightarrow> k mod (c + 1) \<noteq> c" using assms(7) by (auto simp: d(2) waited_def)
  moreover have "joined m' = joined m1" using run(2) by auto
  ultimately show ?thesis using run by (auto simp: joined_def call_def)
qed

definition sample_install_api :: install_api where
  "sample_install_api =
     \<lparr>ca_json_parse = (\<lambda>_. None), ca_repo_owner = (\<lambda>_ d. Some d), ca_repo_name = (\<lambda>s. Some s), ca_repo_version = (\<lambda>_ d. Some d),
      ca_cache_has_json = (\<lambda>_ _ _. False), ca_cache_read_json = (\<lambda>_ _ _. None), ca_http_get = (\<lambda>_ _. None),
      ca_getenv = (\<lambda>_. None), ca_realpath = (\<lambda>p. p), ca_tempdir = None, ca_path_join = (\<lambda>d f. map_option (\<lambda>f. d @ [c_slash] @ f) f),
      ca_mkdirp = (\<lambda>_. True), ca_fs_write = (\<lambda>_. True), ca_fs_exists = (\<lambda>_. False), ca_http_get_file = (\<lambda>_ _. 1),
      ca_cache_has_package = (\<lambda>_ _ _. False), ca_cache_load_package = (\<lambda>_ _ _ _. 0), ca_system = (\<lambda>_. 0),
      ca_create = (\<lambda>_. 0), ca_running = (\<lambda>_. False)\<rparr>"

lemma sources_not_awaited_witness:
  "\<exists>pkg' m'. download sample_install_api (str ''d'') False
     ((empty_package Null)\<lparr>pk_src := Some (replicate 6 (Literal (str ''a.c'')))\<rparr>) (empty_state\<lparr>cl_opts := default_opts\<lparr>op_concurrency := 4\<rparr>\<rparr>) = (0, pkg', m') \<and>
     Join 4 \<notin> set (cl_calls m') \<and> Join 5 \<in> set (cl_calls m')"
proof -
  let ?pkg = "(empty_package Null)\<lparr>pk_src := Some (replicate 6 (Literal (str ''a.c'')))\<rparr>"
  let ?m = "empty_state\<lparr>cl_opts := default_opts\<lparr>op_concurrency := 4\<rparr>\<rparr>"
  obtain rc pkg' m' where run: "download sample_install_api (str ''d'') False ?pkg ?m = (rc, pkg', m')" by (metis prod_cases3)
  have ok: "\<forall>t. ca_create sample_install_api t = 0" "cl_full ?m = (\<lambda>_. False)" "op_concurrency (cl_opts ?m) = int 4"
    "pk_src ?pkg = Some (replicate 6 (Literal (str ''a.c'')))" "\<forall>t\<ge>cl_threads ?m. Join t \<notin> set (cl_calls ?m)"
    by (simp_all add: sample_install_api_def empty_state_def)
  from sources_not_awaited [OF ok run, of 4] sources_not_awaited [OF ok run, of 5] run show ?thesis by (simp add: empty_state_def)
qed

end
