(* ===== verification/ClibReturns.thy ===== *)
theory ClibReturns
  imports ClibInstall
begin

text \<open>
  HW_05-Valgrind/clib/clib-package.c: the recursion of the installation over dependencies ends. Only
  the installation of a package adds to the packages visited, none is ever forgotten, and a package
  is looked at again only when it has not been visited.
\<close>

subsection \<open>What the recursion depends on\<close>

definition env :: "clib \<Rightarrow> bytes set \<times> clib_opts \<times> (nat \<Rightarrow> bool)" where
  "env m = (cl_visited m, cl_opts m, cl_full m)"

named_theorems env_simps \<open>operations that leave the packages visited and the options alone\<close>

lemma env_basic [env_simps]:
  "env (fault u m) = env m" "env (c_free p m) = env m" "env (c_read p m) = env m" "env (lock m) = env m" "env (unlock m) = env m"
  "env (call c m) = env m" "env (init_curl_share m) = env m" "env (snd (c_new s m)) = env m"
  "env (m\<lparr>cl_threads := k\<rparr>) = env m"
  by (cases p; simp add: env_def fault_def lock_def unlock_def call_def init_curl_share_def c_new_def)+

lemmas env_unfold = Let_def case_prod_beta

lemma env_copies [env_simps]:
  "env (snd (copy_of v m)) = env m" "env (snd (strdup p m)) = env m" "env (snd (sprintf_into n s m)) = env m"
  "env (snd (json_object_get_string_safe obj key m)) = env m" "env (free_ptrs ps m) = env m"
proof -
  show "env (snd (copy_of v m)) = env m" "env (snd (strdup p m)) = env m" "env (snd (sprintf_into n s m)) = env m"
    "env (snd (json_object_get_string_safe obj key m)) = env m"
    by (simp_all add: copy_of_def strdup_def sprintf_into_def json_object_get_string_safe_def env_simps env_unfold split: option.split)
  show "env (free_ptrs ps m) = env m" unfolding free_ptrs_def by (induction ps arbitrary: m) (simp_all add: env_simps)
qed

lemma env_parse [env_simps]:
  "env (snd (clib_package_parse_author api slug m)) = env m" "env (snd (clib_package_parse_name api slug m)) = env m"
  "env (snd (clib_package_parse_version api slug m)) = env m" "env (snd (clib_package_url a n v m)) = env m"
  "env (snd (clib_package_file_url a n m)) = env m" "env (snd (clib_package_url_from_repo a n m)) = env m"
  "env (snd (clib_package_repo a n m)) = env m" "env (snd (clib_package_slug a n v m)) = env m"
  by (simp_all add: clib_package_parse_author_def clib_package_parse_name_def clib_package_parse_version_def clib_package_url_def
      clib_package_file_url_def clib_package_url_from_repo_def clib_package_repo_def clib_package_slug_def env_simps env_unfold)

lemma env_release [env_simps]:
  "env (destroy_deps ds m) = env m" "env (clib_package_free r m) = env m" "env (http_get_free res m) = env m"
  by (simp_all add: destroy_deps_ptrs clib_package_free_def http_get_free_def env_simps env_unfold split: option.split)

lemma env_dep_new [env_simps]: "env (snd (clib_package_dependency_new api repo version m)) = env m"
  by (simp add: clib_package_dependency_new_def env_simps env_unfold)

lemma env_loops [env_simps]:
  "env (snd (deps_loop api es ds m)) = env m" "env (snd (flags_loop fs f m)) = env m" "env (snd (snd (src_loop ss files m))) = env m"
  "env (snd (get_fields obj gs pkg m)) = env m"
proof -
  show "env (snd (deps_loop api es ds m)) = env m"
  proof (induction es arbitrary: ds m)
    case (Cons e es)
    obtain name item where "e = (name, item)" by (cases e)
    then show ?case by (simp add: Cons.IH env_simps env_unfold split: option.split)
  qed simp
  show "env (snd (flags_loop fs f m)) = env m"
  proof (induction fs arbitrary: f m)
    case (Cons s fs)
    show ?case by (cases s) (simp_all add: Cons.IH env_simps env_unfold)
  qed simp
  show "env (snd (snd (src_loop ss files m))) = env m"
    by (induction ss files m rule: src_loop.induct) (auto simp: env_simps env_unfold)
  show "env (snd (get_fields obj gs pkg m)) = env m"
    by (induction obj gs pkg m rule: get_fields.induct) (auto simp: env_simps env_unfold)
qed

lemma env_package_parts [env_simps]:
  "env (snd (package_flags obj m)) = env m" "env (snd (package_repo api pkg m)) = env m"
  "env (snd (snd (package_src obj pkg m))) = env m" "env (snd (snd (package_deps api obj key m))) = env m"
  by (simp_all add: package_flags_def package_repo_def package_src_def package_deps_def parse_package_deps_def
      env_simps env_unfold split: option.split)

lemma env_package_new [env_simps]: "env (snd (clib_package_new api json m)) = env m"
  by (simp add: clib_package_new_def env_simps env_unfold split: option.split json_root.split)

lemma env_http_get [env_simps]: "env (snd (http_get_shared api url n m)) = env m"
  by (simp add: http_get_shared_def env_simps env_unfold split: option.split)

lemma env_slug_download [env_simps]: "env (snd (snd (slug_download api n v m))) = env m"
  by (induction n arbitrary: v m) (simp_all add: env_simps env_unfold split: option.split)

lemma env_slug_fetch [env_simps]: "env (snd (snd (slug_fetch api v m))) = env m"
  by (simp add: slug_fetch_def env_simps env_unfold)

lemma env_slug_error [env_simps]: "env (snd (slug_error verbose v m)) = env m"
  by (simp add: slug_error_def env_simps env_unfold split: option.split)

lemma env_slug_parts [env_simps]:
  "env (snd (force_version p pkg m)) = env m" "env (snd (force_author p pkg m)) = env m" "env (cache_json pkg p m) = env m"
  by (simp_all add: force_version_def force_author_def cache_json_def env_simps env_unfold)

lemma env_slug_package [env_simps]: "env (snd (slug_package api verbose v m)) = env m"
  by (simp add: slug_package_def env_simps env_unfold split: option.split)

lemma env_from_slug [env_simps]:
  "env (snd (clib_package_new_from_slug_with_package_name api slug verbose fname m)) = env m"
  "env (snd (clib_package_new_from_slug api slug verbose m)) = env m"
proof -
  show one: "env (snd (clib_package_new_from_slug_with_package_name api slug verbose fname m)) = env m" for fname m
    by (simp add: clib_package_new_from_slug_with_package_name_def env_simps env_unfold)
  have "env (snd (try_names api slug verbose names m)) = env m" for names
  proof (induction names arbitrary: m)
    case (Cons name names)
    obtain r m1 where 1: "clib_package_new_from_slug_with_package_name api slug verbose name m = (r, m1)" by fastforce
    then show ?case using one [of name m] Cons.IH [of m1] by (cases r) simp_all
  qed simp
  then show "env (snd (clib_package_new_from_slug api slug verbose m)) = env m" by (simp add: clib_package_new_from_slug_def)
qed


lemma env_fetch [env_simps]:
  "env (snd (snd (snd (fetch_package_file api pkg dir fname verbose m)))) = env m"
  "env (snd (join_source th pkg m)) = env m" "env (snd (snd (join_down i fetchs pkg m))) = env m"
proof -
  show "env (snd (snd (snd (fetch_package_file api pkg dir fname verbose m)))) = env m"
    by (simp add: fetch_package_file_def env_simps env_unfold split: option.split)
  show j: "env (snd (join_source th pkg m)) = env m" for th pkg m by (simp add: join_source_def env_simps)
  show "env (snd (snd (join_down i fetchs pkg m))) = env m"
    by (induction i arbitrary: fetchs pkg m) (simp_all add: j env_simps env_unfold split: option.split)
qed

lemma env_download [env_simps]:
  "env (snd (snd (download_loop api dir verbose srcs i fetchs pkg m))) = env m"
  "env (snd (snd (download api dir verbose pkg m))) = env m"
  "env (snd (snd (fetch_makefile api dir verbose pkg m))) = env m"
proof -
  show l: "env (snd (snd (download_loop api dir verbose srcs i fetchs pkg m))) = env m" for srcs i fetchs pkg m
    by (induction srcs arbitrary: i fetchs pkg m) (simp_all add: env_simps env_unfold)
  show "env (snd (snd (download api dir verbose pkg m))) = env m"
    by (simp add: download_def l env_simps env_unfold)
  show "env (snd (snd (fetch_makefile api dir verbose pkg m))) = env m"
    by (simp add: fetch_makefile_def env_simps env_unfold split: option.split)
qed

lemma env_commands [env_simps]:
  "env (set_prefix api mk pkg m) = env m" "env (snd (run_command api cmd m)) = env m" "env (set_cflags api pkg m) = env m"
  "env (snd (executable_end api pkg dir_path unpack m)) = env m" "env (snd (snd (fetch_sources api verbose pkg_dir pkg m))) = env m"
proof -
  show p: "env (set_prefix api mk pkg m) = env m" "env (snd (run_command api cmd m)) = env m" "env (set_cflags api pkg m) = env m" for m cmd
    by (simp_all add: set_prefix_def run_command_def set_cflags_def env_simps env_unfold split: option.split)
  show "env (snd (executable_end api pkg dir_path unpack m)) = env m" by (simp add: executable_end_def p env_simps env_unfold)
  show "env (snd (snd (fetch_sources api verbose pkg_dir pkg m))) = env m" by (simp add: fetch_sources_def env_simps env_unfold)
qed

subsection \<open>The names of packages\<close>

definition named :: "bytes set \<Rightarrow> package \<Rightarrow> bool" where
  "named S pkg \<longleftrightarrow> pk_name pkg \<noteq> Null \<and> text_of (pk_name pkg) \<in> S"

definition manifests_named :: "'a clib_api_scheme \<Rightarrow> bytes set \<Rightarrow> bool" where
  "manifests_named api S \<longleftrightarrow> (\<forall>s obj. ca_json_parse api s = Some (Manifest obj) \<longrightarrow> (\<exists>n\<in>S. mf_string obj (str ''name'') = Some n))"

lemma regular_env: "env m' = env m \<Longrightarrow> cl_full m' = cl_full m \<and> cl_visited m' = cl_visited m \<and> cl_opts m' = cl_opts m"
  by (simp add: env_def)

lemma fields_named:
  assumes "cl_full m = (\<lambda>_. False)" and "mf_string obj (str ''name'') = Some n"
  shows "pk_name (fst (get_fields obj string_fields pkg m)) \<noteq> Null \<and> text_of (pk_name (fst (get_fields obj string_fields pkg m))) = n"
  using assms by (simp add: string_fields_def json_object_get_string_safe_def copy_of_def c_new_def case_prod_beta)

lemma parts_named:
  "pk_name (fst (package_repo api pkg m)) = pk_name pkg" "pk_name (fst (package_src obj pkg m)) = pk_name pkg"
  "pk_name (fst (force_version p pkg m)) = pk_name pkg" "pk_name (fst (force_author p pkg m)) = pk_name pkg"
  by (simp_all add: package_repo_def package_src_def force_version_def force_author_def env_unfold split: option.split)

lemma package_new_named:
  assumes "cl_full m = (\<lambda>_. False)" and "manifests_named api S" and "fst (clib_package_new api json m) = Some pkg"
  shows "named S pkg"
proof -
  obtain obj where obj: "ca_json_parse api (text_of json) = Some (Manifest obj)" "json \<noteq> Null"
    using assms(3) by (auto simp: clib_package_new_def split: if_splits option.splits json_root.splits)
  obtain n where n: "n \<in> S" "mf_string obj (str ''name'') = Some n" using obj(1) assms(2) by (auto simp: manifests_named_def)
  obtain self m1 where 1: "c_new [] (c_read json m) = (self, m1)" by fastforce
  obtain json' m2 where 2: "strdup json m1 = (json', m2)" by fastforce
  obtain p3 m3 where 3: "get_fields obj string_fields ((empty_package self)\<lparr>pk_json := json'\<rparr>) m2 = (p3, m3)" by fastforce
  have "env m2 = env m" using arg_cong [OF 1, of "\<lambda>x. env (snd x)"] arg_cong [OF 2, of "\<lambda>x. env (snd x)"] by (simp add: env_simps)
  then have "cl_full m2 = (\<lambda>_. False)" using assms(1) by (simp add: env_def)
  from fields_named [OF this n(2)] 3 have p3: "pk_name p3 \<noteq> Null" "text_of (pk_name p3) = n" by (metis fst_conv)+
  have "pk_name pkg = pk_name p3"
    using assms(3) obj 1 2 3
    by (auto simp: clib_package_new_def Let_def parts_named case_prod_beta split: if_splits option.splits)
  then show ?thesis using p3 n(1) by (simp add: named_def)
qed


lemma slug_package_named:
  assumes "cl_full m = (\<lambda>_. False)" and "manifests_named api S" and "fst (slug_package api verbose v m) = Some pkg"
  shows "named S pkg"
proof -
  define m1 where "m1 = c_free (sv_name v) (c_free (sv_json_url v) m)"
  have "env m1 = env m" by (simp add: m1_def env_simps)
  then have f: "cl_full m1 = (\<lambda>_. False)" using assms(1) by (simp add: env_def)
  obtain p m2 where 2: "clib_package_new api (sv_json v) m1 = (p, m2)" by fastforce
  have none: "fst (slug_error verbose v m) = None" for v m by (simp add: slug_error_def Let_def)
  have "\<exists>p1. p = Some p1 \<and> sv_json v \<noteq> Null \<and> pk_name pkg = pk_name p1"
    using assms(3) 2 none
    by (cases p) (auto simp: slug_package_def m1_def [symmetric] Let_def case_prod_beta parts_named split: if_splits)
  then obtain p1 where "p = Some p1" "pk_name pkg = pk_name p1" by blast
  with package_new_named [OF f assms(2), of "sv_json v" p1] 2 show ?thesis by (simp add: named_def)
qed

lemma from_slug_named:
  assumes "cl_full m = (\<lambda>_. False)" and "manifests_named api S" and "clib_package_new_from_slug api slug verbose m = (Some pkg, m')"
  shows "named S pkg"
proof -
  have one: "named S pkg" if no: "cl_full m = (\<lambda>_. False)"
    and got: "fst (clib_package_new_from_slug_with_package_name api slug verbose fname m) = Some pkg" for fname m pkg
  proof -
    have none: "fst (slug_error verbose v m) = None" for v m by (simp add: slug_error_def Let_def)
    obtain v m1 where "fst (slug_package api verbose v m1) = Some pkg" "env m1 = env m"
      using got none
      by (auto simp: clib_package_new_from_slug_with_package_name_def env_unfold env_simps split: if_splits)
    with slug_package_named [OF _ assms(2), of m1 verbose v pkg] no show ?thesis by (simp add: env_def)
  qed
  have "named S pkg" if "cl_full m = (\<lambda>_. False)" "try_names api slug verbose names m = (Some pkg, m')" for names
    using that
  proof (induction names arbitrary: m)
    case (Cons fname names)
    obtain r m1 where 1: "clib_package_new_from_slug_with_package_name api slug verbose fname m = (r, m1)" by fastforce
    have "env m1 = env m" using arg_cong [OF 1, of "\<lambda>x. env (snd x)"] by (simp add: env_simps)
    then have f: "cl_full m1 = (\<lambda>_. False)" using Cons.prems(1) by (simp add: env_def)
    show ?case
    proof (cases r)
      case None
      then show ?thesis using Cons.IH [OF f] Cons.prems(2) 1 by simp
    next
      case (Some p1)
      then show ?thesis using one [OF Cons.prems(1), of fname p1] Cons.prems(2) 1 by (auto simp: named_def)
    qed
  qed simp
  then show ?thesis using assms(1,3) by (simp add: clib_package_new_from_slug_def)
qed

subsection \<open>The recursion ends\<close>

definition regular :: "clib \<Rightarrow> bool" where
  "regular m \<longleftrightarrow> op_force (cl_opts m) = 0 \<and> cl_full m = (\<lambda>_. False)"

text \<open>An operation returns, and forgets no package it has visited.\<close>

definition grows :: "clib \<Rightarrow> clib \<Rightarrow> bool" where
  "grows m m' \<longleftrightarrow> cl_visited m \<subseteq> cl_visited m' \<and> (regular m \<longrightarrow> regular m')"

lemma grows_env: "env m' = env m \<Longrightarrow> grows m m'" by (simp add: env_def grows_def regular_def)

lemma grows_trans: "grows m1 m2 \<Longrightarrow> grows m2 m3 \<Longrightarrow> grows m1 m3" by (auto simp: grows_def)

definition returns :: "bytes set \<Rightarrow> nat \<Rightarrow> installer \<Rightarrow> bool" where
  "returns S k rec \<longleftrightarrow>
     (\<forall>pkg dir m. named S pkg \<and> regular m \<and> card (S - cl_visited m) < k \<longrightarrow>
       (\<exists>rc pkg' m'. rec pkg dir m = Some (rc, pkg', m') \<and> grows m m'))"

lemma fewer_left: "finite S \<Longrightarrow> grows m m' \<Longrightarrow> card (S - cl_visited m') \<le> card (S - cl_visited m)"
  by (auto simp: grows_def intro!: card_mono)

lemma packages_loop_returns:
  assumes "finite S" and "manifests_named api S" and "returns S k rec"
  shows "regular m \<Longrightarrow> card (S - cl_visited m) < k \<Longrightarrow>
    \<exists>rc fl m'. packages_loop api verbose rec dir deps freelist m = Some (rc, fl, m') \<and> grows m m'"
proof (induction deps arbitrary: freelist m)
  case Nil
  show ?case by (simp add: grows_def)
next
  case (Cons dep deps)
  obtain slug m1 where 1: "clib_package_slug (dp_author dep) (dp_name dep) (dp_version dep) m = (slug, m1)" by fastforce
  have e1: "env m1 = env m" using arg_cong [OF 1, of "\<lambda>x. env (snd x)"] by (simp add: env_simps)
  obtain r m2 where 2: "clib_package_new_from_slug api slug verbose m1 = (r, m2)" by fastforce
  have e2: "env m2 = env m" using arg_cong [OF 2, of "\<lambda>x. env (snd x)"] e1 by (simp add: env_simps)
  have g: "grows m m1" "grows m (c_free slug m2)" "grows m m2" using e1 e2 by (simp_all add: grows_env env_simps)
  show ?case
  proof (cases "slug = Null \<or> r = None")
    case True
    then show ?thesis using 1 2 g by auto
  next
    case False
    then obtain pkg where r: "r = Some pkg" "slug \<noteq> Null" by blast
    have "cl_full m1 = (\<lambda>_. False)" using e1 Cons.prems(1) by (simp add: env_def regular_def)
    from from_slug_named [OF this assms(2)] 2 r(1) have n: "named S pkg" by blast
    have "regular m2" "card (S - cl_visited m2) < k" using g(3) Cons.prems e2 by (simp_all add: grows_def env_def)
    with n assms(3) obtain rc p3 m3 where 3: "rec pkg dir m2 = Some (rc, p3, m3)" "grows m2 m3" unfolding returns_def by blast
    have g3: "grows m (c_free slug m3)" using g(3) 3(2) grows_trans grows_env [OF env_basic(2)] by blast
    show ?thesis
    proof (cases "rc = - 1")
      case True
      then show ?thesis using 1 2 3 r g3 by simp
    next
      case no: False
      have "regular (c_free slug m3)" "card (S - cl_visited (c_free slug m3)) < k"
        using g3 Cons.prems fewer_left [OF assms(1) g3] by (auto simp: grows_def)
      from Cons.IH [OF this, of "freelist @ [p3]"] obtain rc' fl m' where
        "packages_loop api verbose rec dir deps (freelist @ [p3]) (c_free slug m3) = Some (rc', fl, m')" "grows (c_free slug m3) m'" by blast
      then show ?thesis using 1 2 3 r no grows_trans [OF g3] by simp
    qed
  qed
qed

lemma env_free_all: "env (fold (\<lambda>pkg. clib_package_free (Some pkg)) fl m) = env m"
  by (induction fl arbitrary: m) (simp_all add: env_simps)

lemma dependencies_return:
  assumes "finite S" and "manifests_named api S" and "returns S k rec" and "regular m" and "card (S - cl_visited m) < k"
  shows "\<exists>rc m'. clib_package_install_dependencies api verbose rec pkg dir m = Some (rc, m') \<and> grows m m'"
proof (cases "dir = None \<or> pk_dependencies pkg = None")
  case True
  then show ?thesis by (auto simp: clib_package_install_dependencies_def grows_def)
next
  case False
  then obtain d deps where d: "dir = Some d" "pk_dependencies pkg = Some deps" by auto
  obtain rc fl m' where "packages_loop api verbose rec d deps [] m = Some (rc, fl, m')" "grows m m'"
    using packages_loop_returns [OF assms] by blast
  then show ?thesis using d grows_trans [OF _ grows_env [OF env_free_all]]
    by (auto simp: clib_package_install_dependencies_def install_packages_def)
qed


lemma executable_returns:
  assumes "finite S" and "manifests_named api S" and "returns S k rec" and "regular m" and "card (S - cl_visited m) < k"
  shows "\<exists>rc m'. clib_package_install_executable api verbose rec pkg dir m = Some (rc, m') \<and> grows m m'"
proof -
  have over: "\<exists>rc m'. Some x = Some (rc, m') \<and> grows m m'" if "env (snd x) = env m" for x :: "int \<times> clib"
    using that grows_env by (cases x) auto
  have deps: "\<exists>rc m'. clib_package_install_dependencies api verbose rec pkg d m1 = Some (rc, m') \<and> grows m1 m'" if "env m1 = env m" for d m1
  proof -
    have "regular m1" "card (S - cl_visited m1) < k" using that assms(4,5) by (simp_all add: env_def regular_def)
    then show ?thesis using dependencies_return [OF assms(1-3)] by blast
  qed
  have rest: "\<exists>rc m'. (case clib_package_install_dependencies api verbose rec pkg d m1 of None \<Rightarrow> None
        | Some (rc, m2) \<Rightarrow> if rc = - 1 then Some (rc, m2) else Some (executable_end api pkg dp un m2)) = Some (rc, m') \<and> grows m m'"
    if same: "env m1 = env m" for d m1 dp un
  proof -
    obtain rc m2 where 2: "clib_package_install_dependencies api verbose rec pkg d m1 = Some (rc, m2)" "grows m1 m2"
      using deps [OF same] by blast
    obtain rc' m3 where 3: "executable_end api pkg dp un m2 = (rc', m3)" by fastforce
    have "env m3 = env m2" using arg_cong [OF 3, of "\<lambda>x. env (snd x)"] by (simp add: env_simps)
    then have "grows m m2" "grows m m3" using grows_trans [OF grows_env [OF same]] 2(2) grows_trans grows_env by blast+
    then show ?thesis using 2(1) 3 by simp
  qed
  have branch: "\<exists>rc m'. (if b then x else y) = Some (rc, m') \<and> grows m m'"
    if "\<exists>rc m'. x = Some (rc, m') \<and> grows m m'" "\<exists>rc m'. y = Some (rc, m') \<and> grows m m'"
    for b and x y :: "(int \<times> clib) option" using that by (cases b) simp_all
  have stop: "\<exists>rc m'. Some (- 1 :: int, m) = Some (rc, m') \<and> grows m m'" by (simp add: grows_def)
  show ?thesis
  proof (cases "ca_tempdir api = None \<or> ptext (pk_repo pkg) = None \<or> strrchr c_slash (the (ptext (pk_repo pkg))) = None")
    case True
    then show ?thesis by (auto simp: clib_package_install_executable_def grows_def split: option.split)
  next
    case False
    then obtain tmp repo slash where "ca_tempdir api = Some tmp" "ptext (pk_repo pkg) = Some repo" "strrchr c_slash repo = Some slash"
      by (cases "ca_tempdir api"; cases "ptext (pk_repo pkg)") auto
    then show ?thesis unfolding clib_package_install_executable_def Let_def case_prod_beta
      by (simp only: fst_conv snd_conv option.case, intro branch rest [unfolded case_prod_beta] over) (simp_all add: env_simps)
  qed
qed


lemma run_install_returns:
  assumes "finite S" and "manifests_named api S" and "returns S k rec" and "regular m" and "card (S - cl_visited m) < k"
  shows "\<exists>rc pkg' m'. run_install api verbose rec dir pkg m = Some (rc, pkg', m') \<and> grows m m'"
proof -
  define c where "c = (if pk_configure pkg \<noteq> Null
         then run_command api (str ''cd '' @ dir @ [c_slash] @ text_of (pk_name pkg) @ str '' && '' @ text_of (pk_configure pkg))
                (set_prefix api False pkg m)
         else (0, m))"
  obtain rc1 m1 where 1: "c = (rc1, m1)" by fastforce
  have "env (snd c) = env m" by (simp add: c_def env_simps)
  then have g1: "grows m m1" "regular m1" "card (S - cl_visited m1) < k"
    using 1 assms(4,5) by (simp_all add: grows_env) (simp_all add: env_def regular_def)
  obtain rc2 m2 where 2: "(if pk_install pkg \<noteq> Null then clib_package_install_executable api verbose rec pkg dir m1 else Some (0, m1)) = Some (rc2, m2)"
      "grows m1 m2"
    using executable_returns [OF assms(1-3) g1(2,3), of verbose pkg dir] grows_env [of m1 m1] by (cases "pk_install pkg = Null") auto
  have g2: "regular m2" "card (S - cl_visited m2) < k" using g1 2(2) fewer_left [OF assms(1) 2(2)] by (auto simp: grows_def)
  obtain rc3 m3 where 3: "clib_package_install_dependencies api verbose rec pkg (Some dir) m2 = Some (rc3, m3)" "grows m2 m3"
    using dependencies_return [OF assms(1-3) g2] by blast
  have "grows m m2" "grows m m3" using grows_trans g1(1) 2(2) 3(2) by blast+
  then show ?thesis
    using g1(1) 1 2(1) 3(1) unfolding run_install_def c_def [symmetric] by simp
qed

text \<open>The package that is being installed is among those visited before its dependencies are.\<close>

lemma install_files_returns:
  assumes "finite S" and "manifests_named api S" and "returns S k rec" and "regular m" and "named S pkg"
    and "text_of (pk_name pkg) \<notin> cl_visited m" and "card (S - cl_visited m) < Suc k"
  shows "\<exists>rc pkg' m'. install_files api verbose rec dir pkg_dir pkg m = Some (rc, pkg', m') \<and> grows m m'"
proof -
  define m1 where "m1 = m\<lparr>cl_visited := insert (text_of (pk_name pkg)) (cl_visited m)\<rparr>"
  have "S - cl_visited m1 = (S - cl_visited m) - {text_of (pk_name pkg)}" by (auto simp: m1_def)
  moreover have "text_of (pk_name pkg) \<in> S - cl_visited m" using assms(5,6) by (simp add: named_def)
  ultimately have fewer: "card (S - cl_visited m1) < k"
    using card_Diff1_less [of "S - cl_visited m" "text_of (pk_name pkg)"] assms(1,7) by simp
  have g1: "grows m m1" "regular m1" using assms(4) by (auto simp: m1_def grows_def regular_def)
  obtain rc2 p2 m2 where 2: "(if op_global (cl_opts m) = 0 \<and> pk_makefile pkg \<noteq> Null then fetch_makefile api pkg_dir verbose pkg m1 else (0, pkg, m1)) =
      (rc2, p2, m2)" by (metis prod_cases3)
  have e2: "env m2 = env m1" using arg_cong [OF 2, of "\<lambda>x. env (snd (snd x))"] by (simp add: env_simps split: if_splits)
  obtain rc3 p3 m3 where 3: "fetch_sources api verbose pkg_dir p2 m2 = (rc3, p3, m3)" by (metis prod_cases3)
  have e3: "env m3 = env m1" using arg_cong [OF 3, of "\<lambda>x. env (snd (snd x))"] e2 by (simp add: env_simps)
  have g: "grows m m2" "grows m m3" "grows m1 m3" "regular m3" "card (S - cl_visited m3) < k"
    using grows_trans [OF g1(1)] grows_env e2 e3 g1(2) fewer by (auto simp: env_def regular_def)
  obtain rc4 p4 m4 where 4: "run_install api verbose rec dir p3 m3 = Some (rc4, p4, m4)" "grows m3 m4"
    using run_install_returns [OF assms(1-3) g(4,5)] by blast
  have run: "install_files api verbose rec dir pkg_dir pkg m =
      (if rc2 \<noteq> 0 then Some (rc2, p2, m2) else if rc3 \<noteq> 0 then Some (rc3, p3, m3) else Some (rc4, p4, m4))"
    using assms(5) 2 3 4(1) by (simp add: install_files_def m1_def [symmetric] named_def Let_def)
  then show ?thesis using g(1,2) grows_trans [OF g(2) 4(2)] by auto
qed

lemma install_in_returns:
  assumes "finite S" and "manifests_named api S" and "returns S k rec" and "regular m" and "named S pkg"
    and "text_of (pk_name pkg) \<notin> cl_visited m" and "card (S - cl_visited m) < Suc k"
  shows "\<exists>rc pkg' m'. install_in api verbose rec dir pkg_dir pkg m = Some (rc, pkg', m') \<and> grows m m'"
proof -
  define local where "local \<longleftrightarrow> op_global (cl_opts m) = 0"
  define m1 where "m1 = (if local then call (Mkdirp pkg_dir) m else m)"
  obtain url m2 where 2: "(if pk_url pkg = Null then clib_package_url (pk_author pkg) (pk_repo_name pkg) (pk_version pkg) m1 else (pk_url pkg, m1)) =
      (url, m2)" by fastforce
  define p2 where "p2 = pkg\<lparr>pk_url := url\<rparr>"
  have e1: "env m1 = env m" by (simp add: m1_def env_simps)
  have e2: "env m2 = env m" using arg_cong [OF 2, of "\<lambda>x. env (snd x)"] e1 by (simp add: env_simps split: if_splits)
  show ?thesis
  proof (cases "(local \<and> \<not> ca_mkdirp api pkg_dir) \<or> url = Null \<or> ca_path_join api pkg_dir (pk_filename pkg) = None")
    case True
    then have "install_in api verbose rec dir pkg_dir pkg m =
        (if local \<and> \<not> ca_mkdirp api pkg_dir then Some (- 1, pkg, m1) else Some (- 1, p2, m2))"
      using 2 unfolding install_in_def local_def [symmetric] Let_def m1_def [symmetric] by (auto simp: p2_def)
    then show ?thesis using grows_env [OF e1] grows_env [OF e2] by auto
  next
    case False
    then obtain path where path: "ca_path_join api pkg_dir (pk_filename pkg) = Some path" by auto
    define m3 where "m3 = (if local \<and> pk_src pkg \<noteq> None then call (Fs_write path (text_of (pk_json pkg))) (c_read (pk_json pkg) m2) else m2)"
    have e3: "env m3 = env m" using e2 by (simp add: m3_def env_simps)
    have run: "install_in api verbose rec dir pkg_dir pkg m =
        (if local \<and> pk_src pkg \<noteq> None \<and> \<not> ca_fs_write api path then Some (- 1, p2, m3)
         else install_files api verbose rec dir pkg_dir p2 m3)"
      using False path 2 unfolding install_in_def local_def [symmetric] Let_def m1_def [symmetric] by (auto simp: m3_def p2_def)
    have "regular m3" "named S p2" "text_of (pk_name p2) \<notin> cl_visited m3" "card (S - cl_visited m3) < Suc k"
      using e3 assms(4-7) by (simp_all add: env_def regular_def named_def p2_def)
    from install_files_returns [OF assms(1-3) this, of verbose dir pkg_dir] grows_trans [OF grows_env [OF e3]] grows_env [OF e3]
    show ?thesis unfolding run by (cases "local \<and> pk_src pkg \<noteq> None \<and> \<not> ca_fs_write api path") auto
  qed
qed

lemma install_body_returns:
  assumes "finite S" and "manifests_named api S" and "returns S k rec"
  shows "returns S (Suc k) (install_body api verbose rec)"
  unfolding returns_def
proof (intro allI impI, elim conjE)
  fix pkg dir m assume n: "named S pkg" and r: "regular m" and c: "card (S - cl_visited m) < Suc k"
  define m1 where "m1 = install_setup api m"
  have g: "grows m m1" "regular m1"
    using r by (auto simp: m1_def install_setup_def Let_def grows_def regular_def split: option.split)
  have c1: "card (S - cl_visited m1) < Suc k" using fewer_left [OF assms(1) g(1)] c by simp
  show "\<exists>rc pkg' m'. install_body api verbose rec pkg dir m = Some (rc, pkg', m') \<and> grows m m'"
  proof (cases "text_of (pk_name pkg) \<in> cl_visited m1")
    case True
    then show ?thesis using g n by (simp add: install_body_def m1_def [symmetric] Let_def regular_def named_def)
  next
    case False
    show ?thesis
    proof (cases "ca_path_join api dir (ptext (pk_name pkg))")
      case None
      then show ?thesis using False g by (simp add: install_body_def m1_def [symmetric] Let_def)
    next
      case (Some pkg_dir)
      then show ?thesis
        using install_in_returns [OF assms g(2) n False c1, of verbose dir pkg_dir] grows_trans [OF g(1)] False
        by (simp add: install_body_def m1_def [symmetric] Let_def) blast
    qed
  qed
qed

lemma install_returns:
  assumes "finite S" and "manifests_named api S"
  shows "returns S n (clib_package_install n api verbose)"
proof (induction n)
  case 0
  show ?case by (simp add: returns_def)
next
  case (Suc n)
  have "clib_package_install (Suc n) api verbose = install_body api verbose (clib_package_install n api verbose)" by (intro ext) simp
  then show ?case using install_body_returns [OF assms Suc.IH] by simp
qed



end
