(* ===== verification/CurlDynbuf.thy ===== *)
theory CurlDynbuf
  imports ByteSink CStd
begin

text \<open>
  curl 8.16.0, lib/curlx/dynbuf.c: the growing buffer with an upper limit that curl puts its texts
  together in, and the error codes of curl that the modelled parts return. \<open>alloc n\<close> says whether an
  allocation of \<open>n\<close> bytes succeeds. The assertions are compiled out of a release and not modelled.
\<close>

datatype CURLcode =
    CURLE_OK
  | CURLE_URL_MALFORMAT
  | CURLE_PARTIAL_FILE
  | CURLE_WRITE_ERROR
  | CURLE_READ_ERROR
  | CURLE_OUT_OF_MEMORY
  | CURLE_ABORTED_BY_CALLBACK
  | CURLE_BAD_FUNCTION_ARGUMENT
  | CURLE_RECV_ERROR
  | CURLE_BAD_CONTENT_ENCODING
  | CURLE_AGAIN
  | CURLE_TOO_LARGE

subsection \<open>Operations\<close>

text \<open>
  The block is \<open>None\<close> for a null pointer, otherwise the bytes in front of the terminating zero; it has
  \<open>dy_allc\<close> bytes.
\<close>

record curl_dynbuf =
  dy_bufr :: "bytes option"
  dy_allc :: nat
  dy_toobig :: nat

definition MIN_FIRST_ALLOC :: nat where "MIN_FIRST_ALLOC = 32"

definition dy_data :: "curl_dynbuf \<Rightarrow> bytes" where
  "dy_data s = (case dy_bufr s of None \<Rightarrow> [] | Some b \<Rightarrow> b)"

definition curlx_dyn_init :: "nat \<Rightarrow> curl_dynbuf" where
  "curlx_dyn_init toobig = \<lparr>dy_bufr = None, dy_allc = 0, dy_toobig = toobig\<rparr>"

definition curlx_dyn_free :: "curl_dynbuf \<Rightarrow> curl_dynbuf" where
  "curlx_dyn_free s = s\<lparr>dy_bufr := None, dy_allc := 0\<rparr>"

text \<open>Doubling until it fits.\<close>

function grow_to :: "nat \<Rightarrow> nat \<Rightarrow> nat" where
  "grow_to a fit = (if 0 < a \<and> a < fit then grow_to (a * 2) fit else a)"
  by pat_completeness auto
termination by (relation "measure (\<lambda>(a, fit). fit - a)") auto

declare grow_to.simps [simp del]

definition dyn_nappend :: "(nat \<Rightarrow> bool) \<Rightarrow> curl_dynbuf \<Rightarrow> bytes \<Rightarrow> CURLcode \<times> curl_dynbuf" where
  "dyn_nappend alloc s mem =
     (let fit = length mem + length (dy_data s) + 1 in
      if fit > dy_toobig s then (CURLE_TOO_LARGE, curlx_dyn_free s)
      else
        let a = (if dy_allc s = 0 then
                   (if MIN_FIRST_ALLOC > dy_toobig s then dy_toobig s
                    else if fit < MIN_FIRST_ALLOC then MIN_FIRST_ALLOC else fit)
                 else let a = grow_to (dy_allc s) fit in if a > dy_toobig s then dy_toobig s else a) in
        if a \<noteq> dy_allc s \<and> \<not> alloc a then (CURLE_OUT_OF_MEMORY, curlx_dyn_free s)
        else (CURLE_OK, s\<lparr>dy_bufr := Some (dy_data s @ mem), dy_allc := a\<rparr>))"

definition curlx_dyn_reset :: "curl_dynbuf \<Rightarrow> curl_dynbuf" where
  "curlx_dyn_reset s = s\<lparr>dy_bufr := map_option (\<lambda>_. []) (dy_bufr s)\<rparr>"

definition curlx_dyn_tail :: "curl_dynbuf \<Rightarrow> nat \<Rightarrow> CURLcode \<times> curl_dynbuf" where
  "curlx_dyn_tail s trail =
     (let leng = length (dy_data s) in
      if trail > leng then (CURLE_BAD_FUNCTION_ARGUMENT, s)
      else if trail = leng then (CURLE_OK, s)
      else if trail = 0 then (CURLE_OK, curlx_dyn_reset s)
      else (CURLE_OK, s\<lparr>dy_bufr := Some (drop (leng - trail) (dy_data s))\<rparr>))"

definition curlx_dyn_addn :: "(nat \<Rightarrow> bool) \<Rightarrow> curl_dynbuf \<Rightarrow> bytes \<Rightarrow> CURLcode \<times> curl_dynbuf" where
  "curlx_dyn_addn alloc s mem = dyn_nappend alloc s mem"

definition curlx_dyn_add :: "(nat \<Rightarrow> bool) \<Rightarrow> curl_dynbuf \<Rightarrow> bytes \<Rightarrow> CURLcode \<times> curl_dynbuf" where
  "curlx_dyn_add alloc s text = dyn_nappend alloc s (cstr text)"

definition curlx_dyn_ptr :: "curl_dynbuf \<Rightarrow> bytes option" where
  "curlx_dyn_ptr s = dy_bufr s"

definition curlx_dyn_len :: "curl_dynbuf \<Rightarrow> nat" where
  "curlx_dyn_len s = length (dy_data s)"

definition curlx_dyn_take :: "curl_dynbuf \<Rightarrow> bytes option \<times> nat \<times> curl_dynbuf" where
  "curlx_dyn_take s = (dy_bufr s, length (dy_data s), s\<lparr>dy_bufr := None, dy_allc := 0\<rparr>)"

text \<open>The terminating zero is written through the pointer even when there is no block.\<close>

definition curlx_dyn_setlen :: "curl_dynbuf \<Rightarrow> nat \<Rightarrow> ub + CURLcode \<times> curl_dynbuf" where
  "curlx_dyn_setlen s n =
     (if n > length (dy_data s) then Inr (CURLE_BAD_FUNCTION_ARGUMENT, s)
      else
        case dy_bufr s of
          None \<Rightarrow> Inl Ub_NullDeref
        | Some b \<Rightarrow> Inr (CURLE_OK, s\<lparr>dy_bufr := Some (take n b)\<rparr>))"

subsection \<open>The invariant\<close>

text \<open>A block has room for the data and the zero, and is never larger than the limit.\<close>

definition dyn_inv :: "curl_dynbuf \<Rightarrow> bool" where
  "dyn_inv s \<longleftrightarrow>
     (case dy_bufr s of None \<Rightarrow> dy_allc s = 0 | Some b \<Rightarrow> length b < dy_allc s) \<and> dy_allc s \<le> dy_toobig s"

lemma grow_to_fits: "0 < a \<Longrightarrow> fit \<le> grow_to a fit \<and> a \<le> grow_to a fit"
proof (induction a fit rule: grow_to.induct)
  case (1 a fit)
  show ?case
  proof (cases "a < fit")
    case True
    then show ?thesis using 1 by (subst (1 2) grow_to.simps) auto
  next
    case False
    then show ?thesis by (subst (1 2) grow_to.simps) auto
  qed
qed

lemma dyn_inv_init: "dyn_inv (curlx_dyn_init n)" and dyn_inv_free: "dyn_inv (curlx_dyn_free s)"
  by (simp_all add: dyn_inv_def curlx_dyn_init_def curlx_dyn_free_def)

lemma dyn_nappend_ok:
  assumes "dyn_inv s" and "length (dy_data s) + length mem < dy_toobig s" and "\<And>n. alloc n"
  shows "\<exists>a. dyn_nappend alloc s mem = (CURLE_OK, s\<lparr>dy_bufr := Some (dy_data s @ mem), dy_allc := a\<rparr>) \<and>
    length (dy_data s) + length mem < a \<and> a \<le> dy_toobig s"
  using assms grow_to_fits [of "dy_allc s" "length mem + length (dy_data s) + 1"]
  by (auto simp: dyn_nappend_def Let_def dyn_inv_def dy_data_def MIN_FIRST_ALLOC_def split: option.splits)

lemma dyn_nappend_data:
  assumes "dyn_nappend alloc s mem = (r, s')"
  shows "dy_toobig s' = dy_toobig s" and "dy_data s' = (if r = CURLE_OK then dy_data s @ mem else [])"
    and "r = CURLE_OK \<Longrightarrow> dy_bufr s' \<noteq> None" and "r \<in> {CURLE_OK, CURLE_TOO_LARGE, CURLE_OUT_OF_MEMORY}"
    and "r = CURLE_TOO_LARGE \<longleftrightarrow> dy_toobig s \<le> length (dy_data s) + length mem"
  using assms by (auto simp: dyn_nappend_def Let_def curlx_dyn_free_def dy_data_def split: if_splits option.splits)

lemma dyn_inv_nappend:
  assumes "dyn_inv s" and "dyn_nappend alloc s mem = (r, s')"
  shows "dyn_inv s'"
  using assms grow_to_fits [of "dy_allc s" "length mem + length (dy_data s) + 1"]
  by (auto simp: dyn_nappend_def Let_def dyn_inv_def dy_data_def MIN_FIRST_ALLOC_def curlx_dyn_free_def split: option.splits if_splits)

lemma dyn_inv_ops:
  assumes "dyn_inv s"
  shows "dyn_inv (curlx_dyn_reset s)" and "dyn_inv (snd (curlx_dyn_tail s n))" and "dyn_inv (snd (snd (curlx_dyn_take s)))"
  using assms
  by (auto simp: dyn_inv_def curlx_dyn_reset_def curlx_dyn_tail_def curlx_dyn_take_def dy_data_def Let_def split: option.splits)

subsection \<open>A buffer with a limit\<close>

text \<open>
  The contract of a buffer that refuses what does not fit: an append below the limit extends the
  contents, one that reaches it fails.
\<close>

locale limited_sink =
  fixes append :: "'b \<Rightarrow> bytes \<Rightarrow> 'b option"
    and contents :: "'b \<Rightarrow> bytes"
    and limit :: "'b \<Rightarrow> nat"
    and inv :: "'b \<Rightarrow> bool"
  assumes append_fits: "inv b \<Longrightarrow> length (contents b) + length src < limit b \<Longrightarrow>
      \<exists>b'. append b src = Some b' \<and> inv b' \<and> contents b' = contents b @ src \<and> limit b' = limit b"
    and append_over: "inv b \<Longrightarrow> limit b \<le> length (contents b) + length src \<Longrightarrow> append b src = None"
begin

text \<open>A run of appends that stops at the first failure.\<close>

lemma appends_fit:
  assumes "inv b" and "length (contents b) + length (concat xs) < limit b"
  shows "\<exists>b'. foldl (\<lambda>b src. Option.bind b (\<lambda>b. append b src)) (Some b) xs = Some b' \<and> inv b' \<and>
    contents b' = contents b @ concat xs \<and> limit b' = limit b"
  using assms
proof (induction xs arbitrary: b)
  case (Cons x xs)
  obtain b1 where b1: "append b x = Some b1" "inv b1" "contents b1 = contents b @ x" "limit b1 = limit b"
    using append_fits [OF Cons.prems(1), of x] Cons.prems(2) by auto
  show ?case using Cons.IH [OF b1(2)] b1 Cons.prems(2) by auto
qed simp

lemma appends_stopped: "foldl (\<lambda>b src. Option.bind b (\<lambda>b. append b src)) None xs = None"
  by (induction xs) simp_all

lemma appends_over:
  assumes "inv b" and "xs \<noteq> []" and "limit b \<le> length (contents b) + length (concat xs)"
  shows "foldl (\<lambda>b src. Option.bind b (\<lambda>b. append b src)) (Some b) xs = None"
  using assms
proof (induction xs arbitrary: b)
  case (Cons x xs)
  show ?case
  proof (cases "length (contents b) + length x < limit b")
    case True
    then obtain b1 where b1: "append b x = Some b1" "inv b1" "contents b1 = contents b @ x" "limit b1 = limit b"
      using append_fits [OF Cons.prems(1)] by blast
    show ?thesis using Cons.IH [OF b1(2)] b1 Cons.prems(3) True by (cases "xs = []") auto
  next
    case False
    then show ?thesis using append_over [OF Cons.prems(1), of x] by (simp add: appends_stopped)
  qed
qed simp

end

definition dyn_append :: "(nat \<Rightarrow> bool) \<Rightarrow> curl_dynbuf \<Rightarrow> bytes \<Rightarrow> curl_dynbuf option" where
  "dyn_append alloc s mem = (case curlx_dyn_addn alloc s mem of (r, s') \<Rightarrow> if r = CURLE_OK then Some s' else None)"

interpretation curl_dyn: limited_sink "dyn_append (\<lambda>_. True)" dy_data dy_toobig dyn_inv
proof
  fix b :: curl_dynbuf and src :: bytes
  assume inv: "dyn_inv b" and fit: "length (dy_data b) + length src < dy_toobig b"
  obtain r b' where 1: "dyn_nappend (\<lambda>_. True) b src = (r, b')" by fastforce
  have "r = CURLE_OK" using dyn_nappend_ok [OF inv fit, of "\<lambda>_. True"] 1 by auto
  then show "\<exists>b'. dyn_append (\<lambda>_. True) b src = Some b' \<and> dyn_inv b' \<and> dy_data b' = dy_data b @ src \<and> dy_toobig b' = dy_toobig b"
    using dyn_nappend_data [OF 1] dyn_inv_nappend [OF inv 1] 1 by (simp add: dyn_append_def curlx_dyn_addn_def)
next
  fix b :: curl_dynbuf and src :: bytes
  assume "dy_toobig b \<le> length (dy_data b) + length src"
  moreover obtain r b' where "dyn_nappend (\<lambda>_. True) b src = (r, b')" by fastforce
  ultimately show "dyn_append (\<lambda>_. True) b src = None"
    using dyn_nappend_data(5) [of "\<lambda>_. True" b src] by (auto simp: dyn_append_def curlx_dyn_addn_def)
qed

end
