(* ===== verification/CurlEscape.thy ===== *)
theory CurlEscape
  imports CurlDynbuf
begin

text \<open>
  curl 8.16.0, lib/escape.c: escaping of texts for addresses and back, and hexadecimal output; the
  classes of characters are those of lib/curl_ctype.h, the values of digits those of
  lib/curlx/strparse.c.
\<close>

subsection \<open>Characters\<close>

definition ISDIGIT :: "u8 \<Rightarrow> bool" where "ISDIGIT x \<longleftrightarrow> 0x30 \<le> x \<and> x \<le> 0x39"
definition ISLOWER :: "u8 \<Rightarrow> bool" where "ISLOWER x \<longleftrightarrow> 0x61 \<le> x \<and> x \<le> 0x7A"
definition ISUPPER :: "u8 \<Rightarrow> bool" where "ISUPPER x \<longleftrightarrow> 0x41 \<le> x \<and> x \<le> 0x5A"
definition ISALNUM :: "u8 \<Rightarrow> bool" where "ISALNUM x \<longleftrightarrow> ISDIGIT x \<or> ISLOWER x \<or> ISUPPER x"
definition ISXDIGIT :: "u8 \<Rightarrow> bool" where
  "ISXDIGIT x \<longleftrightarrow> ISDIGIT x \<or> (0x61 \<le> x \<and> x \<le> 0x66) \<or> (0x41 \<le> x \<and> x \<le> 0x46)"
definition ISURLPUNTCS :: "u8 \<Rightarrow> bool" where
  "ISURLPUNTCS x \<longleftrightarrow> x = 0x2D \<or> x = 0x2E \<or> x = 0x5F \<or> x = 0x7E"
definition ISUNRESERVED :: "u8 \<Rightarrow> bool" where "ISUNRESERVED x \<longleftrightarrow> ISALNUM x \<or> ISURLPUNTCS x"

definition Curl_hexasciitable :: bytes where
  "Curl_hexasciitable =
     [16, 1, 2, 3, 4, 5, 6, 7, 8, 9,
      0, 0, 0, 0, 0, 0, 0,
      10, 11, 12, 13, 14, 15,
      0, 0, 0, 0, 0, 0, 0, 0, 0, 0, 0, 0, 0, 0, 0, 0, 0, 0, 0, 0, 0, 0, 0, 0, 0, 0,
      10, 11, 12, 13, 14, 15]"

text \<open>The index is at least 0 and in the table where the code asks: after \<open>ISXDIGIT\<close>.\<close>

definition Curl_hexval :: "u8 \<Rightarrow> u8" where
  "Curl_hexval x = Curl_hexasciitable ! (unat x - 0x30) AND 0x0F"

definition Curl_udigits :: bytes where "Curl_udigits = str ''0123456789ABCDEF''"
definition Curl_ldigits :: bytes where "Curl_ldigits = str ''0123456789abcdef''"

definition Curl_hexbyte :: "u8 \<Rightarrow> bytes" where
  "Curl_hexbyte val = [Curl_udigits ! unat (drop_bit 4 val), Curl_udigits ! unat (val AND 0x0F)]"

text \<open>The output with its terminating zero, as much as fits.\<close>

fun hexencode_loop :: "bytes \<Rightarrow> nat \<Rightarrow> bytes" where
  "hexencode_loop [] olen = [0]"
| "hexencode_loop (c # src) olen =
     (if olen \<ge> 3
      then Curl_ldigits ! unat (drop_bit 4 c) # Curl_ldigits ! unat (c AND 0x0F) # hexencode_loop src (olen - 2)
      else [0])"

definition Curl_hexencode :: "bytes \<Rightarrow> nat \<Rightarrow> bytes" where
  "Curl_hexencode src olen =
     (if src \<noteq> [] \<and> olen \<ge> 3 then hexencode_loop src olen else if olen \<noteq> 0 then [0] else [])"

subsection \<open>Escaping\<close>

definition escaped :: "u8 \<Rightarrow> bytes" where
  "escaped c = (if ISUNRESERVED c then [c] else c_percent # Curl_hexbyte c)"

fun escape_loop :: "(nat \<Rightarrow> bool) \<Rightarrow> bytes \<Rightarrow> curl_dynbuf \<Rightarrow> bytes option" where
  "escape_loop alloc [] d = curlx_dyn_ptr d"
| "escape_loop alloc (c # string) d =
     (case curlx_dyn_addn alloc d (escaped c) of
        (r, d) \<Rightarrow> if r \<noteq> CURLE_OK then None else escape_loop alloc string d)"

text \<open>A length of 0 means a C string; \<open>None\<close> is a null pointer.\<close>

definition curl_easy_escape :: "(nat \<Rightarrow> bool) \<Rightarrow> bytes option \<Rightarrow> int \<Rightarrow> bytes option" where
  "curl_easy_escape alloc string inlength =
     (case string of
        None \<Rightarrow> None
      | Some string \<Rightarrow>
          if inlength < 0 then None
          else
            let input = (if inlength \<noteq> 0 then take (nat inlength) string else cstr string) in
            if input = [] then (if alloc 1 then Some [] else None)
            else escape_loop alloc input (curlx_dyn_init (length input * 3 + 1)))"

definition curl_escape :: "(nat \<Rightarrow> bool) \<Rightarrow> bytes option \<Rightarrow> int \<Rightarrow> bytes option" where
  "curl_escape alloc string inlength = curl_easy_escape alloc string inlength"

subsection \<open>Unescaping\<close>

datatype urlreject = REJECT_NADA | REJECT_CTRL | REJECT_ZERO

definition rejected :: "urlreject \<Rightarrow> u8 \<Rightarrow> bool" where
  "rejected ctrl c \<longleftrightarrow> (ctrl = REJECT_CTRL \<and> c < 0x20) \<or> (ctrl = REJECT_ZERO \<and> c = 0)"

text \<open>The next byte, with what follows it.\<close>

definition urldecode_next :: "u8 \<Rightarrow> bytes \<Rightarrow> u8 \<times> bytes" where
  "urldecode_next c string =
     (case string of
        h # l # rest \<Rightarrow>
          if c = c_percent \<and> ISXDIGIT h \<and> ISXDIGIT l then (push_bit 4 (Curl_hexval h) OR Curl_hexval l, rest)
          else (c, string)
      | _ \<Rightarrow> (c, string))"

lemma urldecode_next_shorter: "length (snd (urldecode_next c string)) \<le> length string"
  by (simp add: urldecode_next_def split: list.split)

function urldecode_loop :: "urlreject \<Rightarrow> bytes \<Rightarrow> CURLcode + bytes" where
  "urldecode_loop ctrl [] = Inr []"
| "urldecode_loop ctrl (c # string) =
     (let b = fst (urldecode_next c string) in
      if rejected ctrl b then Inl CURLE_URL_MALFORMAT
      else
        case urldecode_loop ctrl (snd (urldecode_next c string)) of
          Inl e \<Rightarrow> Inl e
        | Inr out \<Rightarrow> Inr (b # out))"
  by pat_completeness auto
termination by (relation "measure (\<lambda>(ctrl, string). length string)") (auto simp: le_imp_less_Suc urldecode_next_shorter)

definition Curl_urldecode :: "(nat \<Rightarrow> bool) \<Rightarrow> bytes \<Rightarrow> nat \<Rightarrow> urlreject \<Rightarrow> CURLcode + bytes" where
  "Curl_urldecode alloc string len ctrl =
     (let input = (if len \<noteq> 0 then take len string else cstr string) in
      if \<not> alloc (length input + 1) then Inl CURLE_OUT_OF_MEMORY else urldecode_loop ctrl input)"

text \<open>The text and its length; when the length is asked for and is no int the text is released.\<close>

definition curl_easy_unescape :: "(nat \<Rightarrow> bool) \<Rightarrow> bytes option \<Rightarrow> int \<Rightarrow> bool \<Rightarrow> (bytes option \<times> int option)" where
  "curl_easy_unescape alloc string len olen =
     (case string of
        None \<Rightarrow> (None, None)
      | Some string \<Rightarrow>
          if len < 0 then (None, None)
          else
            case Curl_urldecode alloc string (nat len) REJECT_NADA of
              Inl _ \<Rightarrow> (None, None)
            | Inr out \<Rightarrow>
                if \<not> olen then (Some out, None)
                else if length out \<le> 2 ^ 31 - 1 then (Some out, Some (int (length out)))
                else (None, None))"

definition curl_unescape :: "(nat \<Rightarrow> bool) \<Rightarrow> bytes option \<Rightarrow> int \<Rightarrow> bytes option" where
  "curl_unescape alloc string len = fst (curl_easy_unescape alloc string len False)"

subsection \<open>Back and forth\<close>

lemma hex_digit: "list_all (\<lambda>n. ISXDIGIT (Curl_udigits ! n) \<and> Curl_hexval (Curl_udigits ! n) = word_of_nat n) [0..<16]"
  by code_simp

lemma hex_unreserved: "list_all (\<lambda>n. ISUNRESERVED (Curl_udigits ! n)) [0..<16]"
  by code_simp

lemma percent_reserved: "\<not> ISUNRESERVED c_percent"
  by code_simp

lemma nibble_bound: "unat (drop_bit 4 (c :: u8)) < 16" "unat (c AND 0x0F) < 16"
proof -
  show "unat (drop_bit 4 c) < 16" using unsigned_less [of c, where 'a = nat] by (simp add: drop_bit_eq_div unat_div)
  show "unat (c AND 0x0F) < 16" using word_and_le1 [of c "0x0F"] by (simp add: word_le_nat_alt)
qed

lemma nibbles: "push_bit 4 (drop_bit 4 c) OR (c AND 0x0F) = (c :: u8)"
proof -
  have m: "(0x0F :: u8) = mask 4" by (simp add: mask_eq_exp_minus_1)
  show ?thesis unfolding m by (rule bit_word_eqI) (auto simp: bit_or_iff bit_push_bit_iff bit_drop_bit_eq bit_and_iff bit_mask_iff)
qed

lemma hexbyte_digits:
  "\<exists>h l. Curl_hexbyte c = [h, l] \<and> ISXDIGIT h \<and> ISXDIGIT l \<and> push_bit 4 (Curl_hexval h) OR Curl_hexval l = c"
  using hex_digit nibble_bound [of c] nibbles [of c]
  by (simp add: Curl_hexbyte_def list_all_iff)

lemma unescape_escaped: "rejected ctrl c = False \<Longrightarrow>
  urldecode_loop ctrl (escaped c @ rest) = (case urldecode_loop ctrl rest of Inl e \<Rightarrow> Inl e | Inr out \<Rightarrow> Inr (c # out))"
proof -
  assume no: "rejected ctrl c = False"
  obtain h l where hl: "Curl_hexbyte c = [h, l]" "ISXDIGIT h" "ISXDIGIT l" "push_bit 4 (Curl_hexval h) OR Curl_hexval l = c"
    using hexbyte_digits by blast
  show ?thesis
  proof (cases "ISUNRESERVED c")
    case True
    then have "c \<noteq> c_percent" using percent_reserved by auto
    then show ?thesis using True no by (simp add: escaped_def urldecode_next_def split: list.split)
  next
    case False
    then show ?thesis using no hl by (simp add: escaped_def urldecode_next_def)
  qed
qed

lemma escape_loop_run:
  "dyn_inv d \<Longrightarrow> dy_bufr d \<noteq> None \<or> string \<noteq> [] \<Longrightarrow> length (dy_data d) + length (concat (map escaped string)) < dy_toobig d \<Longrightarrow>
    escape_loop (\<lambda>_. True) string d = Some (dy_data d @ concat (map escaped string))"
proof (induction string arbitrary: d)
  case Nil
  then show ?case by (auto simp: curlx_dyn_ptr_def dy_data_def)
next
  case (Cons c string)
  obtain r d' where 1: "dyn_nappend (\<lambda>_. True) d (escaped c) = (r, d')" by fastforce
  have fit: "length (dy_data d) + length (escaped c) < dy_toobig d" using Cons.prems(3) by simp
  have r: "r = CURLE_OK" using dyn_nappend_ok [OF Cons.prems(1) fit, of "\<lambda>_. True"] 1 by auto
  note d' = dyn_nappend_data [OF 1] dyn_inv_nappend [OF Cons.prems(1) 1]
  show ?case using Cons.IH [of d'] d' r Cons.prems(3) 1 by (simp add: curlx_dyn_addn_def)
qed

lemma escaped_length: "length (escaped c) \<le> 3"
  by (simp add: escaped_def Curl_hexbyte_def)

lemma escaped_all_length: "length (concat (map escaped s)) \<le> length s * 3"
  by (induction s) (auto intro: add_mono [OF escaped_length])

text \<open>
  a text of any bytes that is escaped consists of unreserved characters and percent signs with
  two digits, and unescaping it with its length gives the text back.
\<close>

theorem escape_roundtrip:
  assumes "s \<noteq> []" and "length s < 2 ^ 31"
  shows "\<exists>e. curl_easy_escape (\<lambda>_. True) (Some s) (int (length s)) = Some e \<and> list_all (\<lambda>c. ISUNRESERVED c \<or> c = c_percent) e \<and>
    curl_easy_unescape (\<lambda>_. True) (Some e) 0 True = (Some s, Some (int (length s)))"
proof -
  let ?e = "concat (map escaped s)"
  have e: "curl_easy_escape (\<lambda>_. True) (Some s) (int (length s)) = Some ?e"
    using escape_loop_run [of "curlx_dyn_init (length s * 3 + 1)" s] escaped_all_length [of s] assms(1)
    by (simp add: curl_easy_escape_def curlx_dyn_init_def dyn_inv_def dy_data_def Let_def le_imp_less_Suc)
  have chars: "list_all (\<lambda>c. ISUNRESERVED c \<or> c = c_percent) (escaped c)" for c
    using hex_unreserved nibble_bound [of c] by (auto simp: escaped_def Curl_hexbyte_def list_all_iff)
  have all: "list_all (\<lambda>c. ISUNRESERVED c \<or> c = c_percent) ?e" using chars by (induction s) simp_all
  have "0 \<notin> set ?e"
  proof
    assume "0 \<in> set ?e"
    then have "ISUNRESERVED 0 \<or> 0 = c_percent" using all unfolding list_all_iff by (rule bspec [rotated])
    then have "ISUNRESERVED 0" by simp
    moreover have "\<not> ISUNRESERVED 0" by code_simp
    ultimately show False by contradiction
  qed
  then have cstr: "cstr ?e = ?e" by (simp add: cstr_id)
  have "urldecode_loop REJECT_NADA ?e = Inr s"
    using unescape_escaped [of REJECT_NADA] by (induction s) (simp_all add: rejected_def)
  then have "curl_easy_unescape (\<lambda>_. True) (Some ?e) 0 True = (Some s, Some (int (length s)))"
    using assms(2) cstr by (simp add: curl_easy_unescape_def Curl_urldecode_def)
  then show ?thesis using e all by blast
qed

lemma escape_roundtrip_witness:
  "\<exists>e. curl_easy_escape (\<lambda>_. True) (Some [0x2F, 0, 0xFF]) 3 = Some e \<and>
    curl_easy_unescape (\<lambda>_. True) (Some e) 0 True = (Some [0x2F, 0, 0xFF], Some 3)"
proof -
  let ?s = "[0x2F, 0, 0xFF] :: bytes"
  have "?s \<noteq> []" "length ?s < 2 ^ 31" and len: "int (length ?s) = 3" by simp_all
  from escape_roundtrip [OF this(1,2)] show ?thesis unfolding len by blast
qed

end
