(* ===== verification/CurlBufq.thy ===== *)
theory CurlBufq
  imports CurlDynbuf RingBuffer
begin

text \<open>
  curl 8.16.0, lib/bufq.c: a queue of bytes in chunks of a fixed size, with a limit on the chunks that
  is hard or soft, and the chunks it keeps for later, by itself or in a pool, which is a part of the queue that
  uses it. The argument \<open>mem\<close> says whether a chunk can be allocated when the queue has so many.
\<close>

subsection \<open>Chunks\<close>

record buf_chunk =
  ck_mem :: bytes
  ck_r :: nat
  ck_w :: nat

definition chunk_is_empty :: "buf_chunk \<Rightarrow> bool" where
  "chunk_is_empty c \<longleftrightarrow> ck_r c \<ge> ck_w c"

definition chunk_is_full :: "buf_chunk \<Rightarrow> bool" where
  "chunk_is_full c \<longleftrightarrow> ck_w c \<ge> length (ck_mem c)"

definition chunk_len :: "buf_chunk \<Rightarrow> nat" where
  "chunk_len c = ck_w c - ck_r c"

definition chunk_reset :: "buf_chunk \<Rightarrow> buf_chunk" where
  "chunk_reset c = c\<lparr>ck_r := 0, ck_w := 0\<rparr>"

definition chunk_append :: "buf_chunk \<Rightarrow> bytes \<Rightarrow> nat \<times> buf_chunk" where
  "chunk_append c buf =
     (let n = length (ck_mem c) - ck_w c in
      if n \<noteq> 0 then
        let n = min n (length buf) in
        (n, c\<lparr>ck_mem := memcpy_at (ck_w c) (take n buf) (ck_mem c), ck_w := ck_w c + n\<rparr>)
      else (n, c))"

definition chunk_peek_at :: "buf_chunk \<Rightarrow> nat \<Rightarrow> bytes" where
  "chunk_peek_at c offset = take (ck_w c - (ck_r c + offset)) (drop (ck_r c + offset) (ck_mem c))"

definition chunk_peek :: "buf_chunk \<Rightarrow> bytes" where
  "chunk_peek c = take (ck_w c - ck_r c) (drop (ck_r c) (ck_mem c))"

text \<open>How many bytes are read, and which.\<close>

definition chunk_read :: "buf_chunk \<Rightarrow> nat \<Rightarrow> nat \<times> bytes \<times> buf_chunk" where
  "chunk_read c len =
     (let n = ck_w c - ck_r c in
      if n = 0 then (0, [], c)
      else if n \<le> len then (n, take n (drop (ck_r c) (ck_mem c)), c\<lparr>ck_r := 0, ck_w := 0\<rparr>)
      else (len, take len (drop (ck_r c) (ck_mem c)), c\<lparr>ck_r := ck_r c + len\<rparr>))"

definition chunk_skip :: "buf_chunk \<Rightarrow> nat \<Rightarrow> nat \<times> buf_chunk" where
  "chunk_skip c amount =
     (let n = ck_w c - ck_r c in
      if n \<noteq> 0 then
        let n = min n amount; r = ck_r c + n in
        (n, if r = ck_w c then c\<lparr>ck_r := 0, ck_w := 0\<rparr> else c\<lparr>ck_r := r\<rparr>)
      else (n, c))"

text \<open>
  A reader is asked for at most so many bytes and gives a code, the bytes it has stored and its new
  state.
\<close>

type_synonym 's bufq_reader = "'s \<Rightarrow> nat \<Rightarrow> CURLcode \<times> bytes \<times> 's"

definition chunk_slurpn :: "buf_chunk \<Rightarrow> nat \<Rightarrow> 's bufq_reader \<Rightarrow> 's \<Rightarrow> CURLcode \<times> nat \<times> buf_chunk \<times> 's" where
  "chunk_slurpn c max_len reader s =
     (let n = length (ck_mem c) - ck_w c in
      if n = 0 then (CURLE_AGAIN, 0, c, s)
      else
        case reader s (if max_len \<noteq> 0 \<and> n > max_len then max_len else n) of
          (result, got, s) \<Rightarrow>
            if result = CURLE_OK
            then (result, length got, c\<lparr>ck_mem := memcpy_at (ck_w c) got (ck_mem c), ck_w := ck_w c + length got\<rparr>, s)
            else (result, length got, c, s))"

subsection \<open>Pools\<close>

record bufc_pool =
  cp_spare :: "buf_chunk list"
  cp_chunk_size :: nat
  cp_spare_count :: nat
  cp_spare_max :: nat

definition Curl_bufcp_init :: "nat \<Rightarrow> nat \<Rightarrow> bufc_pool" where
  "Curl_bufcp_init chunk_size spare_max =
     \<lparr>cp_spare = [], cp_chunk_size = chunk_size, cp_spare_count = 0, cp_spare_max = spare_max\<rparr>"

text \<open>\<open>calloc\<close> of a chunk; \<open>SIZE_MAX\<close> less the size of the structure.\<close>

definition new_chunk :: "bool \<Rightarrow> nat \<Rightarrow> buf_chunk option" where
  "new_chunk ok chunk_size =
     (if chunk_size > 2 ^ 64 - 1 - 40 \<or> \<not> ok then None
      else Some \<lparr>ck_mem = replicate chunk_size 0, ck_r = 0, ck_w = 0\<rparr>)"

definition bufcp_take :: "bool \<Rightarrow> bufc_pool \<Rightarrow> CURLcode \<times> buf_chunk option \<times> bufc_pool" where
  "bufcp_take ok pool =
     (case cp_spare pool of
        chunk # spare \<Rightarrow>
          (CURLE_OK, Some (chunk_reset chunk), pool\<lparr>cp_spare := spare, cp_spare_count := cp_spare_count pool - 1\<rparr>)
      | [] \<Rightarrow>
          (case new_chunk ok (cp_chunk_size pool) of
             None \<Rightarrow> (CURLE_OUT_OF_MEMORY, None, pool)
           | Some chunk \<Rightarrow> (CURLE_OK, Some chunk, pool)))"

definition bufcp_put :: "bufc_pool \<Rightarrow> buf_chunk \<Rightarrow> bufc_pool" where
  "bufcp_put pool chunk =
     (if cp_spare_count pool \<ge> cp_spare_max pool then pool
      else pool\<lparr>cp_spare := chunk_reset chunk # cp_spare pool, cp_spare_count := cp_spare_count pool + 1\<rparr>)"

definition Curl_bufcp_free :: "bufc_pool \<Rightarrow> bufc_pool" where
  "Curl_bufcp_free pool = pool\<lparr>cp_spare := [], cp_spare_count := 0\<rparr>"

subsection \<open>Queues\<close>

text \<open>The chunks from the head to the tail.\<close>

record bufq =
  bq_chunks :: "buf_chunk list"
  bq_spare :: "buf_chunk list"
  bq_pool :: "bufc_pool option"
  bq_chunk_count :: nat
  bq_max_chunks :: nat
  bq_chunk_size :: nat
  bq_soft :: bool
  bq_no_spares :: bool

definition bufq_init :: "bufc_pool option \<Rightarrow> nat \<Rightarrow> nat \<Rightarrow> bool \<Rightarrow> bool \<Rightarrow> bufq" where
  "bufq_init pool chunk_size max_chunks soft no_spares =
     \<lparr>bq_chunks = [], bq_spare = [], bq_pool = pool, bq_chunk_count = 0, bq_max_chunks = max_chunks,
      bq_chunk_size = chunk_size, bq_soft = soft, bq_no_spares = no_spares\<rparr>"

definition Curl_bufq_init2 :: "nat \<Rightarrow> nat \<Rightarrow> bool \<Rightarrow> bool \<Rightarrow> bufq" where
  "Curl_bufq_init2 chunk_size max_chunks soft no_spares = bufq_init None chunk_size max_chunks soft no_spares"

definition Curl_bufq_init :: "nat \<Rightarrow> nat \<Rightarrow> bufq" where
  "Curl_bufq_init chunk_size max_chunks = bufq_init None chunk_size max_chunks False False"

definition Curl_bufq_initp :: "bufc_pool \<Rightarrow> nat \<Rightarrow> bool \<Rightarrow> bool \<Rightarrow> bufq" where
  "Curl_bufq_initp pool max_chunks soft no_spares = bufq_init (Some pool) (cp_chunk_size pool) max_chunks soft no_spares"

definition Curl_bufq_free :: "bufq \<Rightarrow> bufq" where
  "Curl_bufq_free q = q\<lparr>bq_chunks := [], bq_spare := [], bq_chunk_count := 0\<rparr>"

definition Curl_bufq_reset :: "bufq \<Rightarrow> bufq" where
  "Curl_bufq_reset q = q\<lparr>bq_chunks := [], bq_spare := rev (bq_chunks q) @ bq_spare q\<rparr>"

definition Curl_bufq_len :: "bufq \<Rightarrow> nat" where
  "Curl_bufq_len q = sum_list (map chunk_len (bq_chunks q))"

definition Curl_bufq_is_empty :: "bufq \<Rightarrow> bool" where
  "Curl_bufq_is_empty q \<longleftrightarrow> bq_chunks q = [] \<or> chunk_is_empty (hd (bq_chunks q))"

definition Curl_bufq_is_full :: "bufq \<Rightarrow> bool" where
  "Curl_bufq_is_full q \<longleftrightarrow>
     (if bq_chunks q = [] \<or> bq_spare q \<noteq> [] then False
      else if bq_chunk_count q < bq_max_chunks q then False
      else if bq_chunk_count q > bq_max_chunks q then True
      else chunk_is_full (last (bq_chunks q)))"

definition get_spare :: "(nat \<Rightarrow> bool) \<Rightarrow> bufq \<Rightarrow> buf_chunk option \<times> bufq" where
  "get_spare mem q =
     (case bq_spare q of
        chunk # spare \<Rightarrow> (Some (chunk_reset chunk), q\<lparr>bq_spare := spare\<rparr>)
      | [] \<Rightarrow>
          if bq_chunk_count q \<ge> bq_max_chunks q \<and> \<not> bq_soft q then (None, q)
          else
            case bq_pool q of
              Some pool \<Rightarrow>
                (case bufcp_take (mem (bq_chunk_count q)) pool of
                   (result, chunk, pool) \<Rightarrow>
                     if result \<noteq> CURLE_OK then (None, q\<lparr>bq_pool := Some pool\<rparr>)
                     else (chunk, q\<lparr>bq_pool := Some pool, bq_chunk_count := bq_chunk_count q + 1\<rparr>))
            | None \<Rightarrow>
                (case new_chunk (mem (bq_chunk_count q)) (bq_chunk_size q) of
                   None \<Rightarrow> (None, q)
                 | Some chunk \<Rightarrow> (Some chunk, q\<lparr>bq_chunk_count := bq_chunk_count q + 1\<rparr>)))"

text \<open>What becomes of a chunk that is read.\<close>

definition drop_chunk :: "buf_chunk \<Rightarrow> bufq \<Rightarrow> bufq" where
  "drop_chunk chunk q =
     (case bq_pool q of
        Some pool \<Rightarrow> q\<lparr>bq_pool := Some (bufcp_put pool chunk), bq_chunk_count := bq_chunk_count q - 1\<rparr>
      | None \<Rightarrow>
          if bq_chunk_count q > bq_max_chunks q \<or> bq_no_spares q then q\<lparr>bq_chunk_count := bq_chunk_count q - 1\<rparr>
          else q\<lparr>bq_spare := chunk # bq_spare q\<rparr>)"

lemma drop_chunk_chunks [simp]: "bq_chunks (drop_chunk c q) = bq_chunks q"
  by (simp add: drop_chunk_def split: option.split)

function prune_head :: "bufq \<Rightarrow> bufq" where
  "prune_head q =
     (case bq_chunks q of
        [] \<Rightarrow> q
      | chunk # chunks \<Rightarrow>
          if chunk_is_empty chunk then prune_head (drop_chunk chunk (q\<lparr>bq_chunks := chunks\<rparr>)) else q)"
  by pat_completeness auto
termination by (relation "measure (\<lambda>q. length (bq_chunks q))") auto

declare prune_head.simps [simp del]

text \<open>Whether there is a tail with room.\<close>

definition get_non_full_tail :: "(nat \<Rightarrow> bool) \<Rightarrow> bufq \<Rightarrow> bool \<times> bufq" where
  "get_non_full_tail mem q =
     (if bq_chunks q \<noteq> [] \<and> \<not> chunk_is_full (last (bq_chunks q)) then (True, q)
      else
        case get_spare mem q of
          (None, q) \<Rightarrow> (False, q)
        | (Some chunk, q) \<Rightarrow> (True, q\<lparr>bq_chunks := bq_chunks q @ [chunk]\<rparr>))"

text \<open>The tail put back.\<close>

definition set_tail :: "buf_chunk \<Rightarrow> bufq \<Rightarrow> bufq" where
  "set_tail c q = q\<lparr>bq_chunks := butlast (bq_chunks q) @ [c]\<rparr>"

subsection \<open>Writing and reading\<close>

text \<open>
  The loop of a write: \<open>Some\<close> code when it returns at once, the bytes taken, the bytes left.
\<close>

function write_loop :: "(nat \<Rightarrow> bool) \<Rightarrow> bufq \<Rightarrow> bytes \<Rightarrow> nat \<Rightarrow> CURLcode option \<times> nat \<times> bytes \<times> bufq" where
  "write_loop mem q buf nwritten =
     (if buf = [] then (None, nwritten, buf, q)
      else
        let (found, q) = get_non_full_tail mem q in
        if \<not> found then
          (if bq_chunk_count q < bq_max_chunks q \<or> bq_soft q then Some CURLE_OUT_OF_MEMORY else None, nwritten, buf, q)
        else
          let (n, tail) = chunk_append (last (bq_chunks q)) buf; q = set_tail tail q in
          if n = 0 then (None, nwritten, buf, q) else write_loop mem q (drop n buf) (nwritten + n))"
  by pat_completeness auto
termination by (relation "measure (\<lambda>(mem, q, buf, n). length buf)") auto

declare write_loop.simps [simp del]

definition Curl_bufq_write :: "(nat \<Rightarrow> bool) \<Rightarrow> bufq \<Rightarrow> bytes \<Rightarrow> CURLcode \<times> nat \<times> bufq" where
  "Curl_bufq_write mem q buf =
     (case write_loop mem q buf 0 of
        (Some result, nwritten, rest, q) \<Rightarrow> (result, nwritten, q)
      | (None, nwritten, rest, q) \<Rightarrow> (if nwritten = 0 \<and> rest \<noteq> [] then CURLE_AGAIN else CURLE_OK, nwritten, q))"

lemma prune_head_shorter: "length (bq_chunks (prune_head q)) \<le> length (bq_chunks q)"
proof (induction q rule: prune_head.induct)
  case (1 q)
  show ?case
  proof (cases "bq_chunks q")
    case (Cons c cs)
    then show ?thesis using "1.IH" [OF Cons] by (subst prune_head.simps) auto
  qed (subst prune_head.simps, simp)
qed

lemma prune_head_drops:
  assumes "bq_chunks q = c # cs" and "chunk_is_empty c"
  shows "length (bq_chunks (prune_head q)) < length (bq_chunks q)"
  using assms prune_head_shorter [of "drop_chunk c (q\<lparr>bq_chunks := cs\<rparr>)"] by (subst prune_head.simps) simp

text \<open>What is left to read of the buffer given, and the bytes read.\<close>

function read_loop :: "bufq \<Rightarrow> nat \<Rightarrow> bytes \<times> bufq" where
  "read_loop q len =
     (case bq_chunks q of
        [] \<Rightarrow> ([], q)
      | chunk # chunks \<Rightarrow>
          if len = 0 then ([], q)
          else
            case chunk_read chunk len of
              (n, got, chunk) \<Rightarrow>
                (case read_loop (prune_head (q\<lparr>bq_chunks := chunk # chunks\<rparr>)) (len - n) of
                   (rest, q) \<Rightarrow> (got @ rest, q)))"
  by pat_completeness auto
termination
proof (relation "measures [\<lambda>(q, len). len, \<lambda>(q, len). length (bq_chunks q)]", goal_cases)
  case (2 q len chunk chunks n y got chunk')
  then show ?case
    using prune_head_drops [of "q\<lparr>bq_chunks := chunk' # chunks\<rparr>" chunk' chunks]
    by (cases "n = 0") (auto simp: chunk_read_def chunk_is_empty_def Let_def split: if_splits)
qed simp

declare read_loop.simps [simp del]

definition Curl_bufq_read :: "bufq \<Rightarrow> nat \<Rightarrow> CURLcode \<times> bytes \<times> bufq" where
  "Curl_bufq_read q len = (case read_loop q len of (got, q) \<Rightarrow> (if got = [] then CURLE_AGAIN else CURLE_OK, got, q))"

definition Curl_bufq_peek :: "bufq \<Rightarrow> bytes option \<times> bufq" where
  "Curl_bufq_peek q =
     (let q = (if bq_chunks q \<noteq> [] \<and> chunk_is_empty (hd (bq_chunks q)) then prune_head q else q) in
      if bq_chunks q \<noteq> [] \<and> \<not> chunk_is_empty (hd (bq_chunks q)) then (Some (chunk_peek (hd (bq_chunks q))), q)
      else (None, q))"

fun peek_at :: "buf_chunk list \<Rightarrow> nat \<Rightarrow> bytes option" where
  "peek_at [] offset = None"
| "peek_at (c # cs) offset =
     (let clen = chunk_len c in
      if clen = 0 then None
      else if offset \<ge> clen then peek_at cs (offset - clen)
      else Some (chunk_peek_at c offset))"

definition Curl_bufq_peek_at :: "bufq \<Rightarrow> nat \<Rightarrow> bytes option" where
  "Curl_bufq_peek_at q offset = peek_at (bq_chunks q) offset"

function Curl_bufq_skip :: "bufq \<Rightarrow> nat \<Rightarrow> bufq" where
  "Curl_bufq_skip q amount =
     (case bq_chunks q of
        [] \<Rightarrow> q
      | chunk # chunks \<Rightarrow>
          if amount = 0 then q
          else
            case chunk_skip chunk amount of
              (n, chunk) \<Rightarrow> Curl_bufq_skip (prune_head (q\<lparr>bq_chunks := chunk # chunks\<rparr>)) (amount - n))"
  by pat_completeness auto
termination
proof (relation "measures [\<lambda>(q, amount). amount, \<lambda>(q, amount). length (bq_chunks q)]", goal_cases)
  case (2 q amount chunk chunks n chunk')
  then show ?case
    using prune_head_drops [of "q\<lparr>bq_chunks := chunk' # chunks\<rparr>" chunk' chunks]
    by (cases "n = 0") (auto simp: chunk_skip_def chunk_is_empty_def Let_def split: if_splits)
qed simp

declare Curl_bufq_skip.simps [simp del]

definition Curl_bufq_cwrite :: "(nat \<Rightarrow> bool) \<Rightarrow> bufq \<Rightarrow> bytes \<Rightarrow> CURLcode \<times> nat \<times> bufq" where
  "Curl_bufq_cwrite mem q buf = Curl_bufq_write mem q buf"

definition Curl_bufq_cread :: "bufq \<Rightarrow> nat \<Rightarrow> CURLcode \<times> bytes \<times> bufq" where
  "Curl_bufq_cread q len = Curl_bufq_read q len"

text \<open>The number of bytes in the queue, for the loops below.\<close>

lemma prune_head_len: "Curl_bufq_len (prune_head q) = Curl_bufq_len q"
proof (induction q rule: prune_head.induct)
  case (1 q)
  show ?case
  proof (cases "bq_chunks q")
    case (Cons c cs)
    then show ?thesis using "1.IH" [OF Cons]
      by (subst prune_head.simps) (auto simp: Curl_bufq_len_def chunk_len_def chunk_is_empty_def)
  qed (subst prune_head.simps, simp)
qed

lemma skip_len:
  "Curl_bufq_len (Curl_bufq_skip q amount) \<le> Curl_bufq_len q \<and>
   (bq_chunks q \<noteq> [] \<longrightarrow> \<not> chunk_is_empty (hd (bq_chunks q)) \<longrightarrow> 0 < amount \<longrightarrow> Curl_bufq_len (Curl_bufq_skip q amount) < Curl_bufq_len q)"
proof (induction q amount rule: Curl_bufq_skip.induct)
  case (1 q amount)
  show ?case
  proof (cases "bq_chunks q = [] \<or> amount = 0")
    case True
    then show ?thesis by (subst (1 2) Curl_bufq_skip.simps) (auto split: list.split)
  next
    case False
    then obtain c cs where q: "bq_chunks q = c # cs" by (cases "bq_chunks q") auto
    obtain n c' where s: "chunk_skip c amount = (n, c')" by fastforce
    let ?q = "prune_head (q\<lparr>bq_chunks := c' # cs\<rparr>)"
    have eq: "Curl_bufq_skip q amount = Curl_bufq_skip ?q (amount - n)"
      using q s False by (subst Curl_bufq_skip.simps) simp
    have "Curl_bufq_len (Curl_bufq_skip ?q (amount - n)) \<le> Curl_bufq_len (q\<lparr>bq_chunks := c' # cs\<rparr>)"
      using "1.IH" [OF q _ s [symmetric]] False by (simp add: prune_head_len)
    moreover have "chunk_len c' \<le> chunk_len c \<and> (\<not> chunk_is_empty c \<longrightarrow> chunk_len c' < chunk_len c)"
      using s False by (auto simp: chunk_skip_def chunk_len_def chunk_is_empty_def Let_def split: if_splits)
    ultimately show ?thesis using eq q by (auto simp: Curl_bufq_len_def)
  qed
qed

lemma peek_len: "Curl_bufq_len (snd (Curl_bufq_peek q)) = Curl_bufq_len q"
  by (simp add: Curl_bufq_peek_def Let_def prune_head_len)

text \<open>
  A writer is given the bytes and gives a code, how many it has taken and its new state. The result of
  the loop has the number of bytes passed so far.
\<close>

type_synonym 's bufq_writer = "'s \<Rightarrow> bytes \<Rightarrow> CURLcode \<times> nat \<times> 's"

function pass_loop :: "bufq \<Rightarrow> 's bufq_writer \<Rightarrow> 's \<Rightarrow> nat \<Rightarrow> CURLcode \<times> nat \<times> bufq \<times> 's" where
  "pass_loop q writer s written =
     (case Curl_bufq_peek q of
        (None, q) \<Rightarrow> (CURLE_OK, written, q, s)
      | (Some buf, q) \<Rightarrow>
          (case writer s buf of
             (result, n, s) \<Rightarrow>
               if result \<noteq> CURLE_OK then
                 (if result = CURLE_AGAIN \<and> written \<noteq> 0 then CURLE_OK else result, written, q, s)
               else if n = 0 then (if written = 0 then CURLE_AGAIN else CURLE_OK, written, q, s)
               else pass_loop (Curl_bufq_skip q n) writer s (written + n)))"
  by pat_completeness auto
termination
proof (relation "measure (\<lambda>(q, writer, s, written). Curl_bufq_len q)", goal_cases)
  case (2 q writer s written opt q' buf result y n s')
  then have "bq_chunks q' \<noteq> []" "\<not> chunk_is_empty (hd (bq_chunks q'))" "Curl_bufq_len q' = Curl_bufq_len q"
    using peek_len [of q] by (auto simp: Curl_bufq_peek_def Let_def split: if_splits)
  then show ?case using skip_len [of q' n] 2 by auto
qed simp

declare pass_loop.simps [simp del]

definition Curl_bufq_pass :: "bufq \<Rightarrow> 's bufq_writer \<Rightarrow> 's \<Rightarrow> CURLcode \<times> nat \<times> bufq \<times> 's" where
  "Curl_bufq_pass q writer s = pass_loop q writer s 0"

text \<open>The result, the bytes taken of the buffer, the queue and the writer.\<close>

function write_pass_loop :: "(nat \<Rightarrow> bool) \<Rightarrow> bufq \<Rightarrow> bytes \<Rightarrow> 's bufq_writer \<Rightarrow> 's \<Rightarrow> nat \<Rightarrow> CURLcode \<times> nat \<times> bufq \<times> 's" where
  "write_pass_loop mem q buf writer s written =
     (if buf = [] then (CURLE_OK, written, q, s)
      else
        let (result, q, s) =
          (if Curl_bufq_is_full q then (case Curl_bufq_pass q writer s of (result, _, q, s) \<Rightarrow> (result, q, s)) else (CURLE_OK, q, s)) in
        if result = CURLE_AGAIN then (if written = 0 then CURLE_AGAIN else CURLE_OK, written, q, s)
        else if result \<noteq> CURLE_OK then (result, written, q, s)
        else
          case Curl_bufq_write mem q buf of
            (result, n, q) \<Rightarrow>
              if result \<noteq> CURLE_OK then
                (if result = CURLE_AGAIN \<and> written \<noteq> 0 then CURLE_OK else result, written, q, s)
              else if n = 0 then (if written = 0 then CURLE_AGAIN else CURLE_OK, written, q, s)
              else write_pass_loop mem q (drop n buf) writer s (written + n))"
  by pat_completeness auto
termination by (relation "measure (\<lambda>(mem, q, buf, writer, s, written). length buf)") auto

declare write_pass_loop.simps [simp del]

definition Curl_bufq_write_pass :: "(nat \<Rightarrow> bool) \<Rightarrow> bufq \<Rightarrow> bytes \<Rightarrow> 's bufq_writer \<Rightarrow> 's \<Rightarrow> CURLcode \<times> nat \<times> bufq \<times> 's" where
  "Curl_bufq_write_pass mem q buf writer s = write_pass_loop mem q buf writer s 0"

definition Curl_bufq_sipn :: "(nat \<Rightarrow> bool) \<Rightarrow> bufq \<Rightarrow> nat \<Rightarrow> 's bufq_reader \<Rightarrow> 's \<Rightarrow> CURLcode \<times> nat \<times> bufq \<times> 's" where
  "Curl_bufq_sipn mem q max_len reader s =
     (let (found, q) = get_non_full_tail mem q in
      if \<not> found then (if bq_chunk_count q < bq_max_chunks q then CURLE_OUT_OF_MEMORY else CURLE_AGAIN, 0, q, s)
      else
        case chunk_slurpn (last (bq_chunks q)) max_len reader s of
          (result, n, tail, s) \<Rightarrow> (result, n, set_tail tail q, s))"

text \<open>With a soft limit and a reader that never ends this loop need not end: then there is no result.\<close>

partial_function (option) bufq_slurpn ::
    "(nat \<Rightarrow> bool) \<Rightarrow> bufq \<Rightarrow> nat \<Rightarrow> 's bufq_reader \<Rightarrow> 's \<Rightarrow> nat \<Rightarrow> (CURLcode \<times> nat \<times> bufq \<times> 's) option" where
  "bufq_slurpn mem q max_len reader s nread =
     (case Curl_bufq_sipn mem q max_len reader s of
        (result, n, q, s) \<Rightarrow>
          if result \<noteq> CURLE_OK then
            Some (if nread = 0 \<or> result \<noteq> CURLE_AGAIN then result else CURLE_OK, nread, q, s)
          else if n = 0 then Some (CURLE_OK, nread, q, s)
          else if max_len \<noteq> 0 \<and> max_len - n = 0 then Some (CURLE_OK, nread + n, q, s)
          else if bq_chunks q \<noteq> [] \<and> \<not> chunk_is_full (last (bq_chunks q)) then Some (CURLE_OK, nread + n, q, s)
          else bufq_slurpn mem q (max_len - n) reader s (nread + n))"

definition Curl_bufq_slurp :: "(nat \<Rightarrow> bool) \<Rightarrow> bufq \<Rightarrow> 's bufq_reader \<Rightarrow> 's \<Rightarrow> (CURLcode \<times> nat \<times> bufq \<times> 's) option" where
  "Curl_bufq_slurp mem q reader s = bufq_slurpn mem q 0 reader s 0"

end
