(* ===== verification/CurlQueue.thy ===== *)
theory CurlQueue
  imports CurlBufq
begin

text \<open>
  curl 8.16.0, lib/bufq.c: the queue of chunks keeps the order of the bytes. The invariant, what every
  operation does to the bytes in the queue, and the contract of a queue of bytes, which a queue of
  a fixed capacity keeps as well.
\<close>

subsection \<open>The invariant\<close>

text \<open>
  Every chunk has the size of the queue and its marks in order; only the tail may be empty or have
  room; the count is that of the chunks in the queue and the spare ones.
\<close>

definition chunk_ok :: "nat \<Rightarrow> buf_chunk \<Rightarrow> bool" where
  "chunk_ok n c \<longleftrightarrow> length (ck_mem c) = n \<and> ck_w c \<le> n \<and> (ck_r c < ck_w c \<or> ck_r c = 0 \<and> ck_w c = 0)"

definition bufq_data :: "bufq \<Rightarrow> bytes" where
  "bufq_data q = concat (map chunk_peek (bq_chunks q))"

definition pool_ok :: "bufq \<Rightarrow> bool" where
  "pool_ok q \<longleftrightarrow>
     (case bq_pool q of
        None \<Rightarrow> True
      | Some p \<Rightarrow> cp_chunk_size p = bq_chunk_size q \<and> cp_spare_count p = length (cp_spare p) \<and>
          (\<forall>c\<in>set (cp_spare p). length (ck_mem c) = cp_chunk_size p))"

definition bufq_inv :: "bufq \<Rightarrow> bool" where
  "bufq_inv q \<longleftrightarrow>
     (\<forall>c\<in>set (bq_chunks q). chunk_ok (bq_chunk_size q) c) \<and>
     (\<forall>c\<in>set (butlast (bq_chunks q)). ck_r c < ck_w c \<and> chunk_is_full c) \<and>
     (\<forall>c\<in>set (bq_spare q). length (ck_mem c) = bq_chunk_size q) \<and>
     bq_chunk_count q = length (bq_chunks q) + length (bq_spare q) \<and>
     0 < bq_chunk_size q \<and> pool_ok q"

text \<open>What no operation changes, and the limit when it is hard.\<close>

definition same_kind :: "bufq \<Rightarrow> bufq \<Rightarrow> bool" where
  "same_kind q q' \<longleftrightarrow>
     bq_max_chunks q' = bq_max_chunks q \<and> bq_chunk_size q' = bq_chunk_size q \<and> bq_soft q' = bq_soft q \<and>
     bq_no_spares q' = bq_no_spares q \<and>
     (\<not> bq_soft q \<longrightarrow> bq_chunk_count q \<le> bq_max_chunks q \<longrightarrow> bq_chunk_count q' \<le> bq_max_chunks q)"

lemma same_kind_refl [simp]: "same_kind q q" by (simp add: same_kind_def)

lemma same_kind_trans: "same_kind q1 q2 \<Longrightarrow> same_kind q2 q3 \<Longrightarrow> same_kind q1 q3"
  by (auto simp: same_kind_def)

lemma chunk_peek_empty: "chunk_is_empty c \<Longrightarrow> chunk_peek c = []"
  by (simp add: chunk_is_empty_def chunk_peek_def)

lemma drop_chunk_kept:
  assumes "bufq_inv q" and "bq_chunks q = c' # cs" and "length (ck_mem c) = length (ck_mem c')"
  shows "bufq_inv (drop_chunk c (q\<lparr>bq_chunks := cs\<rparr>))" and "same_kind q (drop_chunk c (q\<lparr>bq_chunks := cs\<rparr>))"
proof -
  have "\<forall>d\<in>set (butlast cs). d \<in> set (butlast (c' # cs))" by (cases cs) auto
  then show "bufq_inv (drop_chunk c (q\<lparr>bq_chunks := cs\<rparr>))"
    using assms
    by (auto simp: bufq_inv_def drop_chunk_def pool_ok_def chunk_ok_def bufcp_put_def chunk_reset_def split: option.splits)
  show "same_kind q (drop_chunk c (q\<lparr>bq_chunks := cs\<rparr>))"
    by (auto simp: same_kind_def drop_chunk_def split: option.splits)
qed

lemma prune_head_kept:
  "bufq_inv q \<Longrightarrow> bufq_inv (prune_head q) \<and> same_kind q (prune_head q) \<and> bufq_data (prune_head q) = bufq_data q \<and>
    (bq_chunks (prune_head q) \<noteq> [] \<longrightarrow> \<not> chunk_is_empty (hd (bq_chunks (prune_head q))))"
proof (induction q rule: prune_head.induct)
  case (1 q)
  show ?case
  proof (cases "bq_chunks q")
    case Nil
    then show ?thesis using "1.prems" by (subst (1 2 3 4 5) prune_head.simps) simp
  next
    case (Cons c cs)
    show ?thesis
    proof (cases "chunk_is_empty c")
      case True
      let ?q = "drop_chunk c (q\<lparr>bq_chunks := cs\<rparr>)"
      have "prune_head q = prune_head ?q" using Cons True by (subst prune_head.simps) simp
      moreover have "bufq_data ?q = bufq_data q" using Cons True by (simp add: bufq_data_def chunk_peek_empty)
      ultimately show ?thesis
        using "1.IH" [OF Cons True drop_chunk_kept(1) [OF "1.prems" Cons refl]] same_kind_trans [OF drop_chunk_kept(2) [OF "1.prems" Cons refl]]
        by auto
    next
      case False
      then have "prune_head q = q" using Cons by (subst prune_head.simps) simp
      then show ?thesis using "1.prems" Cons False by simp
    qed
  qed
qed

subsection \<open>What is written\<close>

lemma get_spare_ok:
  assumes "bufq_inv q" and "get_spare mem q = (c, q')"
  shows "bq_chunks q' = bq_chunks q \<and> same_kind q q' \<and>
    (case c of
       None \<Rightarrow> bufq_inv q' \<and> bq_chunk_count q' = bq_chunk_count q \<and>
         ((\<forall>n. mem n) \<longrightarrow> bq_chunk_size q \<le> 2 ^ 64 - 1 - 40 \<longrightarrow> bq_max_chunks q \<le> bq_chunk_count q \<and> \<not> bq_soft q)
     | Some d \<Rightarrow> bufq_inv (q'\<lparr>bq_chunk_count := bq_chunk_count q' - 1\<rparr>) \<and> 0 < bq_chunk_count q' \<and>
         length (ck_mem d) = bq_chunk_size q \<and> ck_r d = 0 \<and> ck_w d = 0)"
proof (cases "bq_spare q")
  case (Cons d ds)
  then show ?thesis using assms by (auto simp: get_spare_def bufq_inv_def same_kind_def pool_ok_def chunk_reset_def split: option.splits)
next
  case Nil
  show ?thesis
  proof (cases "bq_pool q")
    case None
    then show ?thesis using assms Nil
      by (auto simp: get_spare_def bufq_inv_def same_kind_def pool_ok_def new_chunk_def split: if_splits)
  next
    case (Some p)
    then show ?thesis using assms Nil
      by (auto simp: get_spare_def bufq_inv_def same_kind_def pool_ok_def bufcp_take_def new_chunk_def chunk_reset_def split: list.splits if_splits)
  qed
qed

lemma get_tail_ok:
  assumes "bufq_inv q" and "get_non_full_tail mem q = (found, q')"
  shows "bufq_inv q' \<and> same_kind q q' \<and> bufq_data q' = bufq_data q \<and>
    (if found then bq_chunks q' \<noteq> [] \<and> \<not> chunk_is_full (last (bq_chunks q'))
     else bq_chunk_count q' = bq_chunk_count q \<and>
       ((\<forall>n. mem n) \<longrightarrow> bq_chunk_size q \<le> 2 ^ 64 - 1 - 40 \<longrightarrow> bq_max_chunks q \<le> bq_chunk_count q \<and> \<not> bq_soft q))"
proof (cases "bq_chunks q \<noteq> [] \<and> \<not> chunk_is_full (last (bq_chunks q))")
  case True
  then show ?thesis using assms by (auto simp: get_non_full_tail_def)
next
  case False
  obtain c q1 where 1: "get_spare mem q = (c, q1)" by fastforce
  note g = get_spare_ok [OF assms(1) 1]
  show ?thesis
  proof (cases c)
    case None
    then have "q' = q1" "\<not> found" using assms(2) 1 False by (auto simp: get_non_full_tail_def)
    then show ?thesis using g None by (simp add: bufq_data_def)
  next
    case (Some d)
    then have q': "q' = q1\<lparr>bq_chunks := bq_chunks q1 @ [d]\<rparr>" "found" using assms(2) 1 False by (auto simp: get_non_full_tail_def)
    have "\<forall>c\<in>set (bq_chunks q). ck_r c < ck_w c \<and> chunk_is_full c"
    proof (cases "bq_chunks q" rule: rev_cases)
      case (snoc cs e)
      then have "chunk_ok (bq_chunk_size q) e" "chunk_is_full e" "\<forall>c\<in>set cs. ck_r c < ck_w c \<and> chunk_is_full c" "0 < bq_chunk_size q"
        using assms(1) False by (auto simp: bufq_inv_def)
      then show ?thesis using snoc by (auto simp: chunk_ok_def chunk_is_full_def)
    qed simp
    then show ?thesis using g Some q'
      by (auto simp: bufq_inv_def same_kind_def bufq_data_def chunk_peek_def chunk_is_full_def chunk_ok_def pool_ok_def split: option.splits)
  qed
qed

text \<open>Bytes stored at the mark of the tail.\<close>

lemma peek_appended:
  assumes "chunk_ok n c" and "ck_w c + length d \<le> n"
  shows "chunk_peek (c\<lparr>ck_mem := memcpy_at (ck_w c) d (ck_mem c), ck_w := ck_w c + length d\<rparr>) = chunk_peek c @ d"
    and "chunk_ok n (c\<lparr>ck_mem := memcpy_at (ck_w c) d (ck_mem c), ck_w := ck_w c + length d\<rparr>)"
proof -
  have r: "ck_r c \<le> ck_w c" "ck_w c \<le> length (ck_mem c)" using assms by (auto simp: chunk_ok_def)
  then show "chunk_peek (c\<lparr>ck_mem := memcpy_at (ck_w c) d (ck_mem c), ck_w := ck_w c + length d\<rparr>) = chunk_peek c @ d"
    by (simp add: chunk_peek_def memcpy_at_def drop_take)
  show "chunk_ok n (c\<lparr>ck_mem := memcpy_at (ck_w c) d (ck_mem c), ck_w := ck_w c + length d\<rparr>)"
    using assms by (auto simp: chunk_ok_def length_memcpy_at)
qed

lemma tail_appended:
  assumes "bufq_inv q" and "bq_chunks q \<noteq> []" and "ck_w (last (bq_chunks q)) + length d \<le> bq_chunk_size q"
    and "c = (last (bq_chunks q))\<lparr>ck_mem := memcpy_at (ck_w (last (bq_chunks q))) d (ck_mem (last (bq_chunks q))), ck_w := ck_w (last (bq_chunks q)) + length d\<rparr>"
  shows "bufq_inv (set_tail c q)" and "bufq_data (set_tail c q) = bufq_data q @ d" and "same_kind q (set_tail c q)"
proof -
  obtain cs e where q: "bq_chunks q = cs @ [e]" using assms(2) by (cases "bq_chunks q" rule: rev_cases) auto
  have ok: "chunk_ok (bq_chunk_size q) e" using assms(1) q by (simp add: bufq_inv_def)
  have c: "c = e\<lparr>ck_mem := memcpy_at (ck_w e) d (ck_mem e), ck_w := ck_w e + length d\<rparr>" using assms(4) q by simp
  note p = peek_appended [OF ok, of d, folded c]
  show "bufq_inv (set_tail c q)" "bufq_data (set_tail c q) = bufq_data q @ d" "same_kind q (set_tail c q)"
    using assms(1,3) p q by (auto simp: bufq_inv_def set_tail_def bufq_data_def same_kind_def pool_ok_def split: option.splits)
qed

text \<open>
  A write takes a prefix of its buffer; what it leaves did not fit under a hard limit or in memory.
\<close>

lemma write_loop_ok:
  assumes "bufq_inv q" and "write_loop mem q buf k = (r, n, rest, q')"
  shows "bufq_inv q' \<and> same_kind q q' \<and> k \<le> n \<and> n - k \<le> length buf \<and> rest = drop (n - k) buf \<and>
    bufq_data q' = bufq_data q @ take (n - k) buf \<and> (r = None \<or> r = Some CURLE_OUT_OF_MEMORY) \<and>
    ((\<forall>i. mem i) \<longrightarrow> bq_chunk_size q \<le> 2 ^ 64 - 1 - 40 \<longrightarrow> r = None \<and> (rest = [] \<or> \<not> bq_soft q))"
  using assms
proof (induction mem q buf k rule: write_loop.induct)
  case (1 mem q buf k)
  show ?case
  proof (cases "buf = []")
    case True
    then show ?thesis using "1.prems" by (subst (asm) write_loop.simps) auto
  next
    case False
    obtain found q1 where g: "get_non_full_tail mem q = (found, q1)" by fastforce
    note g1 = get_tail_ok [OF "1.prems"(1) g]
    show ?thesis
    proof (cases found)
      case no: False
      then have "r = (if bq_chunk_count q1 < bq_max_chunks q1 \<or> bq_soft q1 then Some CURLE_OUT_OF_MEMORY else None) \<and>
          n = k \<and> rest = buf \<and> q' = q1"
        using "1.prems"(2) g False by (auto simp: write_loop.simps [of mem q buf k])
      then show ?thesis using g1 no by (cases "bq_chunk_count q1 < bq_max_chunks q1 \<or> bq_soft q1") (auto simp: same_kind_def)
    next
      case True
      let ?t = "last (bq_chunks q1)"
      obtain m tail where a: "chunk_append ?t buf = (m, tail)" by fastforce
      have t: "bq_chunks q1 \<noteq> []" "\<not> chunk_is_full ?t" "chunk_ok (bq_chunk_size q1) ?t"
        using g1 True by (auto simp: bufq_inv_def)
      have m: "m = min (length (ck_mem ?t) - ck_w ?t) (length buf)" "0 < m"
          "tail = ?t\<lparr>ck_mem := memcpy_at (ck_w ?t) (take m buf) (ck_mem ?t), ck_w := ck_w ?t + length (take m buf)\<rparr>"
        using a t(2) False by (auto simp: chunk_append_def chunk_is_full_def Let_def)
      have "ck_w ?t + length (take m buf) \<le> bq_chunk_size q1" using m(1) t(3) by (auto simp: chunk_ok_def)
      note s = tail_appended [OF _ t(1) this m(3)]
      have run: "write_loop mem (set_tail tail q1) (drop m buf) (k + m) = (r, n, rest, q')"
        using "1.prems"(2) g a True m(2) False by (simp add: write_loop.simps [of mem q buf k])
      have ih: "bufq_inv q' \<and> same_kind (set_tail tail q1) q' \<and> k + m \<le> n \<and> n - (k + m) \<le> length (drop m buf) \<and>
          rest = drop (n - (k + m)) (drop m buf) \<and> bufq_data q' = bufq_data (set_tail tail q1) @ take (n - (k + m)) (drop m buf) \<and>
          (r = None \<or> r = Some CURLE_OUT_OF_MEMORY) \<and>
          ((\<forall>i. mem i) \<longrightarrow> bq_chunk_size (set_tail tail q1) \<le> 2 ^ 64 - 1 - 40 \<longrightarrow> r = None \<and> (rest = [] \<or> \<not> bq_soft (set_tail tail q1)))"
        using "1.IH" [OF False refl g [symmetric] _ refl a [symmetric] refl _ _ run] True m(2) s(1) g1 by auto
      then obtain j where j: "n = k + m + j" using le_Suc_ex by blast
      have "m \<le> length buf" using m(1) by simp
      moreover have "same_kind q q'" using same_kind_trans g1 s ih by blast
      moreover have "bq_chunk_size (set_tail tail q1) = bq_chunk_size q" "bq_soft (set_tail tail q1) = bq_soft q"
        using g1 by (auto simp: set_tail_def same_kind_def)
      moreover have "bufq_data (set_tail tail q1) = bufq_data q @ take m buf" using s(2) g1 by simp
      moreover have "take m buf @ take j (drop m buf) = take (m + j) buf" by (simp add: take_add)
      ultimately show ?thesis using ih unfolding j by (auto simp: add.commute)
    qed
  qed
qed

lemma write_ok:
  assumes "bufq_inv q" and "Curl_bufq_write mem q buf = (r, n, q')"
  shows "bufq_inv q' \<and> same_kind q q' \<and> n \<le> length buf \<and> bufq_data q' = bufq_data q @ take n buf \<and>
    (r = CURLE_AGAIN \<longrightarrow> n = 0) \<and>
    ((\<forall>i. mem i) \<longrightarrow> bq_chunk_size q \<le> 2 ^ 64 - 1 - 40 \<longrightarrow> bq_soft q \<longrightarrow> r = CURLE_OK \<and> n = length buf)"
proof -
  obtain r1 m rest q1 where 1: "write_loop mem q buf 0 = (r1, m, rest, q1)" by (metis prod_cases4)
  show ?thesis using write_loop_ok [OF assms(1) 1] assms(2) 1 by (auto simp: Curl_bufq_write_def split: option.splits if_splits)
qed

text \<open>The head after a part of it was read; it is dropped when it is empty.\<close>

lemma head_step:
  assumes "bufq_inv q" and "bq_chunks q = c # cs" and "ck_mem c' = ck_mem c" and "chunk_is_empty c' \<or> ck_w c' = ck_w c"
  shows "bufq_inv (prune_head (q\<lparr>bq_chunks := c' # cs\<rparr>))" and "same_kind q (prune_head (q\<lparr>bq_chunks := c' # cs\<rparr>))"
    and "bufq_data (prune_head (q\<lparr>bq_chunks := c' # cs\<rparr>)) = chunk_peek c' @ concat (map chunk_peek cs)"
proof -
  let ?q = "q\<lparr>bq_chunks := c' # cs\<rparr>"
  have "bufq_inv (prune_head ?q) \<and> same_kind q (prune_head ?q) \<and> bufq_data (prune_head ?q) = chunk_peek c' @ concat (map chunk_peek cs)"
  proof (cases "chunk_is_empty c'")
    case True
    let ?d = "drop_chunk c' (q\<lparr>bq_chunks := cs\<rparr>)"
    have "prune_head ?q = prune_head ?d" using True by (subst prune_head.simps) simp
    moreover note d = drop_chunk_kept [OF assms(1,2), of c']
    moreover have "bufq_data ?d = concat (map chunk_peek cs)" by (simp add: bufq_data_def)
    ultimately show ?thesis
      using prune_head_kept [of ?d] same_kind_trans assms(3) True by (auto simp: chunk_peek_empty)
  next
    case False
    then have w: "ck_w c' = ck_w c" "ck_r c' < ck_w c" using assms(4) by (auto simp: chunk_is_empty_def)
    have "prune_head ?q = ?q" using False by (subst prune_head.simps) simp
    moreover have "bufq_inv ?q"
      using assms(1-3) w by (auto simp: bufq_inv_def chunk_ok_def chunk_is_full_def pool_ok_def split: option.splits if_splits)
    ultimately show ?thesis by (simp add: bufq_data_def same_kind_def)
  qed
  then show "bufq_inv (prune_head ?q)" "same_kind q (prune_head ?q)" "bufq_data (prune_head ?q) = chunk_peek c' @ concat (map chunk_peek cs)"
    by simp_all
qed

lemma chunk_read_ok:
  assumes "chunk_ok k c" and "chunk_read c len = (n, got, c')"
  shows "n = min len (chunk_len c)" and "got = take len (chunk_peek c)" and "chunk_peek c' = drop len (chunk_peek c)"
    and "ck_mem c' = ck_mem c" and "chunk_is_empty c' \<or> ck_w c' = ck_w c"
  using assms by (auto simp: chunk_read_def chunk_ok_def chunk_len_def chunk_peek_def chunk_is_empty_def Let_def drop_take add.commute
      split: if_splits)

lemma chunk_skip_ok:
  assumes "chunk_ok k c" and "chunk_skip c len = (n, c')"
  shows "n = min len (chunk_len c)" and "chunk_peek c' = drop len (chunk_peek c)"
    and "ck_mem c' = ck_mem c" and "chunk_is_empty c' \<or> ck_w c' = ck_w c"
  using assms by (auto simp: chunk_skip_def chunk_ok_def chunk_len_def chunk_peek_def chunk_is_empty_def Let_def drop_take add.commute
      split: if_splits)

lemma chunk_len_peek: "chunk_ok k c \<Longrightarrow> length (chunk_peek c) = chunk_len c"
  by (auto simp: chunk_ok_def chunk_peek_def chunk_len_def)

text \<open>A read gives the front of the bytes.\<close>

lemma read_loop_ok:
  "bufq_inv q \<Longrightarrow> read_loop q len = (got, q') \<Longrightarrow>
    bufq_inv q' \<and> same_kind q q' \<and> got = take len (bufq_data q) \<and> bufq_data q' = drop len (bufq_data q)"
proof (induction q len arbitrary: got q' rule: read_loop.induct)
  case (1 q len)
  show ?case
  proof (cases "bq_chunks q = [] \<or> len = 0")
    case True
    then show ?thesis using "1.prems" by (subst (asm) read_loop.simps) (auto simp: bufq_data_def split: list.splits)
  next
    case False
    then obtain c cs where q: "bq_chunks q = c # cs" by (cases "bq_chunks q") auto
    obtain n g c' where r: "chunk_read c len = (n, g, c')" by (metis prod_cases3)
    let ?q = "prune_head (q\<lparr>bq_chunks := c' # cs\<rparr>)"
    obtain rest q2 where 2: "read_loop ?q (len - n) = (rest, q2)" by fastforce
    have ok: "chunk_ok (bq_chunk_size q) c" using "1.prems"(1) q by (simp add: bufq_inv_def)
    note c' = chunk_read_ok [OF ok r]
    note h = head_step [OF "1.prems"(1) q c'(4,5)]
    have "got = g @ rest" "q' = q2" using "1.prems"(2) q r 2 False by (auto simp: read_loop.simps [of q len])
    moreover have "bufq_inv q2 \<and> same_kind ?q q2 \<and> rest = take (len - n) (bufq_data ?q) \<and> bufq_data q2 = drop (len - n) (bufq_data ?q)"
      using "1.IH" [OF q _ r [symmetric] refl h(1) 2] False by simp
    moreover have "n = min len (length (chunk_peek c))" using c'(1) chunk_len_peek [OF ok] by simp
    ultimately show ?thesis
      using h same_kind_trans c'(2,3) by (auto simp: bufq_data_def q min_def split: if_splits)
  qed
qed

lemma read_ok:
  assumes "bufq_inv q" and "Curl_bufq_read q len = (r, got, q')"
  shows "bufq_inv q' \<and> same_kind q q' \<and> got = take len (bufq_data q) \<and> bufq_data q' = drop len (bufq_data q) \<and>
    r = (if len = 0 \<or> bufq_data q = [] then CURLE_AGAIN else CURLE_OK)"
proof -
  obtain g q1 where 1: "read_loop q len = (g, q1)" by fastforce
  show ?thesis using read_loop_ok [OF assms(1) 1] assms(2) 1 by (auto simp: Curl_bufq_read_def)
qed

lemma skip_ok:
  "bufq_inv q \<Longrightarrow> bufq_inv (Curl_bufq_skip q len) \<and> same_kind q (Curl_bufq_skip q len) \<and> bufq_data (Curl_bufq_skip q len) = drop len (bufq_data q)"
proof (induction q len rule: Curl_bufq_skip.induct)
  case (1 q len)
  show ?case
  proof (cases "bq_chunks q = [] \<or> len = 0")
    case True
    then have "Curl_bufq_skip q len = q" by (subst Curl_bufq_skip.simps) (auto split: list.split)
    then show ?thesis using "1.prems" True by (auto simp: bufq_data_def)
  next
    case False
    then obtain c cs where q: "bq_chunks q = c # cs" by (cases "bq_chunks q") auto
    obtain n c' where r: "chunk_skip c len = (n, c')" by fastforce
    let ?q = "prune_head (q\<lparr>bq_chunks := c' # cs\<rparr>)"
    have ok: "chunk_ok (bq_chunk_size q) c" using "1.prems"(1) q by (simp add: bufq_inv_def)
    note c' = chunk_skip_ok [OF ok r]
    note h = head_step [OF "1.prems"(1) q c'(3,4)]
    have "Curl_bufq_skip q len = Curl_bufq_skip ?q (len - n)" using q r False by (simp add: Curl_bufq_skip.simps [of q len])
    moreover note "1.IH" [OF q _ r [symmetric] h(1)]
    moreover have "n = min len (length (chunk_peek c))" using c'(1) chunk_len_peek [OF ok] by simp
    ultimately show ?thesis
      using h same_kind_trans c'(2) False by (auto simp: bufq_data_def q min_def split: if_splits)
  qed
qed

lemma peek_ok:
  assumes "bufq_inv q" and "Curl_bufq_peek q = (buf, q')"
  shows "bufq_inv q' \<and> same_kind q q' \<and> bufq_data q' = bufq_data q \<and>
    (case buf of None \<Rightarrow> bufq_data q = [] | Some b \<Rightarrow> b \<noteq> [] \<and> b = take (length b) (bufq_data q))"
proof -
  define q1 where "q1 = (if bq_chunks q \<noteq> [] \<and> chunk_is_empty (hd (bq_chunks q)) then prune_head q else q)"
  have k: "bufq_inv q1 \<and> same_kind q q1 \<and> bufq_data q1 = bufq_data q \<and> (bq_chunks q1 \<noteq> [] \<longrightarrow> \<not> chunk_is_empty (hd (bq_chunks q1)))"
    using prune_head_kept [OF assms(1)] assms(1) by (simp add: q1_def)
  have run: "q' = q1" "buf = (if bq_chunks q1 = [] then None else Some (chunk_peek (hd (bq_chunks q1))))"
    using assms(2) k by (auto simp: Curl_bufq_peek_def q1_def [symmetric] Let_def split: if_splits)
  show ?thesis
  proof (cases "bq_chunks q1")
    case Nil
    then show ?thesis using k run by (auto simp: bufq_data_def)
  next
    case (Cons c cs)
    then have "chunk_ok (bq_chunk_size q1) c" "\<not> chunk_is_empty c" using k by (auto simp: bufq_inv_def)
    then have "chunk_peek c \<noteq> []" by (auto simp: chunk_ok_def chunk_peek_def chunk_is_empty_def)
    moreover have "bufq_data q = chunk_peek c @ concat (map chunk_peek cs)" using k Cons by (auto simp: bufq_data_def)
    ultimately show ?thesis using k run Cons by simp
  qed
qed

lemma peek_at_ok:
  assumes "bufq_inv q"
  shows "Curl_bufq_peek_at q k = (if k < length (bufq_data q) then Some (the (Curl_bufq_peek_at q k)) else None) \<and>
    (\<forall>b. Curl_bufq_peek_at q k = Some b \<longrightarrow> b \<noteq> [] \<and> b = take (length b) (drop k (bufq_data q)))"
proof -
  have "(peek_at cs k \<noteq> None \<longleftrightarrow> k < length (concat (map chunk_peek cs))) \<and>
    (\<forall>b. peek_at cs k = Some b \<longrightarrow> b \<noteq> [] \<and> b = take (length b) (drop k (concat (map chunk_peek cs))))"
    if "\<forall>c\<in>set cs. chunk_ok n c" "\<forall>c\<in>set (butlast cs). ck_r c < ck_w c" for cs n
    using that
  proof (induction cs arbitrary: k)
    case (Cons c cs)
    have ok: "chunk_ok n c" "\<forall>c\<in>set cs. chunk_ok n c" using Cons.prems(1) by simp_all
    have rest: "\<forall>c\<in>set (butlast cs). ck_r c < ck_w c" using Cons.prems(2) by (cases cs) auto
    note len = chunk_len_peek [OF ok(1)]
    show ?case
    proof (cases "chunk_len c = 0")
      case True
      then have "cs = []" using Cons.prems(2) by (cases cs) (auto simp: chunk_len_def)
      then show ?thesis using True len by simp
    next
      case False
      have "chunk_peek_at c k = drop k (chunk_peek c)" for k
        by (simp add: chunk_peek_at_def chunk_peek_def drop_take add.commute)
      then show ?thesis using False len Cons.IH [OF ok(2) rest, of "k - chunk_len c"]
        by (cases "chunk_len c \<le> k") (auto simp: Let_def)
    qed
  qed simp
  from this [of "bq_chunks q" "bq_chunk_size q"] assms show ?thesis
    by (auto simp: bufq_inv_def Curl_bufq_peek_at_def bufq_data_def)
qed

subsection \<open>The contract of a queue of bytes\<close>

text \<open>
  A queue takes a prefix of what is put and says how long it is, and gives its front. A queue of a fixed
  capacity is one.
\<close>

locale byte_queue =
  fixes put :: "'s \<Rightarrow> 'a list \<Rightarrow> nat \<times> 's"
    and get :: "'s \<Rightarrow> nat \<Rightarrow> 'a list \<times> 's"
    and contents :: "'s \<Rightarrow> 'a list"
    and inv :: "'s \<Rightarrow> bool"
  assumes put_taken: "inv s \<Longrightarrow> put s d = (n, s') \<Longrightarrow> contents s' = contents s @ take n d \<and> inv s'"
    and get_front: "inv s \<Longrightarrow> get s n = (d, s') \<Longrightarrow> d = take n (contents s) \<and> contents s' = drop n (contents s) \<and> inv s'"

text \<open>A run of operations: the final state, the bytes taken in and the bytes given out.\<close>

fun queue_run :: "('s \<Rightarrow> 'a list \<Rightarrow> nat \<times> 's) \<Rightarrow> ('s \<Rightarrow> nat \<Rightarrow> 'a list \<times> 's) \<Rightarrow> 'a fifo_op list \<Rightarrow> 's \<Rightarrow> 's \<times> 'a list \<times> 'a list" where
  "queue_run put get [] s = (s, [], [])"
| "queue_run put get (Put d # ops) s =
     (case put s d of (n, s1) \<Rightarrow>
        (case queue_run put get ops s1 of (s', inp, out) \<Rightarrow> (s', take n d @ inp, out)))"
| "queue_run put get (Get n # ops) s =
     (case get s n of (d, s1) \<Rightarrow>
        (case queue_run put get ops s1 of (s', inp, out) \<Rightarrow> (s', inp, d @ out)))"

context byte_queue
begin

lemma queue_order:
  "inv s \<Longrightarrow> queue_run put get ops s = (s', inp, out) \<Longrightarrow> contents s @ inp = out @ contents s' \<and> inv s'"
proof (induction ops arbitrary: s s' inp out)
  case (Cons op ops)
  show ?case
  proof (cases op)
    case (Put d)
    obtain n s1 where p: "put s d = (n, s1)" by fastforce
    obtain s2 i o' where r: "queue_run put get ops s1 = (s2, i, o')" by (metis prod_cases3)
    have "s2 = s'" "inp = take n d @ i" "o' = out" using Cons.prems(2) Put p r by auto
    then show ?thesis using Cons.IH [OF _ r] put_taken [OF Cons.prems(1) p] by simp
  next
    case (Get n)
    obtain d s1 where p: "get s n = (d, s1)" by fastforce
    obtain s2 i o' where r: "queue_run put get ops s1 = (s2, i, o')" by (metis prod_cases3)
    have "s2 = s'" "inp = i" "out = d @ o'" using Cons.prems(2) Get p r by auto
    then show ?thesis using Cons.IH [OF _ r] get_front [OF Cons.prems(1) p] append_take_drop_id [of n "contents s"]
      by (metis append.assoc)
  qed
qed simp

end

sublocale bounded_fifo \<subseteq> byte_queue "\<lambda>s d. (capacity s - length (contents s), put s d)" get contents inv
  using put_contents put_inv get_contents get_inv by unfold_locales auto

text \<open>The write and the read of the queue of chunks.\<close>

definition bufq_put :: "(nat \<Rightarrow> bool) \<Rightarrow> bufq \<Rightarrow> bytes \<Rightarrow> nat \<times> bufq" where
  "bufq_put mem q d = snd (Curl_bufq_write mem q d)"

definition bufq_get :: "bufq \<Rightarrow> nat \<Rightarrow> bytes \<times> bufq" where
  "bufq_get q n = snd (Curl_bufq_read q n)"

interpretation bufq: byte_queue "bufq_put mem" bufq_get bufq_data "\<lambda>q. bufq_inv q \<and> same_kind q0 q" for mem q0
proof
  fix q :: bufq and d n q'
  assume i: "bufq_inv q \<and> same_kind q0 q" and p: "bufq_put mem q d = (n, q')"
  from p obtain r where "Curl_bufq_write mem q d = (r, n, q')" by (cases "Curl_bufq_write mem q d") (auto simp: bufq_put_def)
  from write_ok [OF _ this] i show "bufq_data q' = bufq_data q @ take n d \<and> bufq_inv q' \<and> same_kind q0 q'"
    using same_kind_trans by auto
next
  fix q :: bufq and d n q'
  assume i: "bufq_inv q \<and> same_kind q0 q" and p: "bufq_get q n = (d, q')"
  from p obtain r where "Curl_bufq_read q n = (r, d, q')" by (cases "Curl_bufq_read q n") (auto simp: bufq_get_def)
  from read_ok [OF _ this] i
  show "d = take n (bufq_data q) \<and> bufq_data q' = drop n (bufq_data q) \<and> bufq_inv q' \<and> same_kind q0 q'"
    using same_kind_trans by auto
qed

text \<open>The length of the queue, and the most that fits under a hard limit.\<close>

lemma sum_lens: "\<forall>c\<in>set cs. chunk_ok n c \<Longrightarrow> sum_list (map chunk_len cs) = length (concat (map chunk_peek cs))"
  by (induction cs) (auto simp: chunk_len_peek)

lemma bufq_len_data: "bufq_inv q \<Longrightarrow> Curl_bufq_len q = length (bufq_data q)"
  using sum_lens [of "bq_chunks q" "bq_chunk_size q"] by (simp add: bufq_inv_def Curl_bufq_len_def bufq_data_def)

lemma chunks_fit: "\<forall>c\<in>set cs. chunk_ok n c \<Longrightarrow> sum_list (map ck_w cs) \<le> length cs * n"
  by (induction cs) (auto simp: chunk_ok_def)

lemma bufq_data_bound:
  assumes "bufq_inv q"
  shows "length (bufq_data q) \<le> bq_chunk_count q * bq_chunk_size q"
proof -
  have ok: "\<forall>c\<in>set (bq_chunks q). chunk_ok (bq_chunk_size q) c" and n: "length (bq_chunks q) \<le> bq_chunk_count q"
    using assms by (simp_all add: bufq_inv_def)
  have "length (bufq_data q) = sum_list (map chunk_len (bq_chunks q))" using ok by (simp add: bufq_data_def sum_lens)
  also have "\<dots> \<le> sum_list (map ck_w (bq_chunks q))" by (rule sum_list_mono) (simp add: chunk_len_def)
  also have "\<dots> \<le> length (bq_chunks q) * bq_chunk_size q" by (rule chunks_fit [OF ok])
  also have "\<dots> \<le> bq_chunk_count q * bq_chunk_size q" using n by (rule mult_le_mono1)
  finally show ?thesis .
qed

definition put_all :: "'a fifo_op list \<Rightarrow> 'a list" where
  "put_all ops = concat (map (\<lambda>op. case op of Put d \<Rightarrow> d | Get n \<Rightarrow> []) ops)"

lemma soft_run:
  assumes "\<forall>i. mem i" and "csize \<le> 2 ^ 64 - 1 - 40"
  shows "bufq_inv q \<Longrightarrow> bq_soft q \<Longrightarrow> bq_chunk_size q = csize \<Longrightarrow> queue_run (bufq_put mem) bufq_get ops q = (q', inp, out) \<Longrightarrow> inp = put_all ops"
proof (induction ops arbitrary: q q' inp out)
  case (Cons op ops)
  show ?case
  proof (cases op)
    case (Put d)
    obtain r n q1 where p: "Curl_bufq_write mem q d = (r, n, q1)" by (metis prod_cases3)
    obtain q2 i o' where r: "queue_run (bufq_put mem) bufq_get ops q1 = (q2, i, o')" by (metis prod_cases3)
    have w: "n = length d" "bufq_inv q1" "bq_soft q1" "bq_chunk_size q1 = csize"
      using write_ok [OF Cons.prems(1) p] Cons.prems(2,3) assms by (simp_all add: same_kind_def)
    moreover have "bufq_put mem q d = (n, q1)" using p by (simp add: bufq_put_def)
    then have "inp = take n d @ i" using Cons.prems(4) Put r by simp
    ultimately show ?thesis using Cons.IH [OF w(2-4) r] Put by (simp add: put_all_def)
  next
    case (Get n)
    obtain r d q1 where p: "Curl_bufq_read q n = (r, d, q1)" by (metis prod_cases3)
    obtain q2 i o' where r: "queue_run (bufq_put mem) bufq_get ops q1 = (q2, i, o')" by (metis prod_cases3)
    have w: "bufq_inv q1" "bq_soft q1" "bq_chunk_size q1 = csize"
      using read_ok [OF Cons.prems(1) p] Cons.prems(2,3) by (simp_all add: same_kind_def)
    moreover have "bufq_get q n = (d, q1)" using p by (simp add: bufq_get_def)
    then have "inp = i" using Cons.prems(4) Get r by simp
    ultimately show ?thesis using Cons.IH [OF w r] Get by (simp add: put_all_def)
  qed
qed (simp add: put_all_def)

lemma init2_inv: "0 < csize \<Longrightarrow> bufq_inv (Curl_bufq_init2 csize maxc soft no_spares)"
  by (simp add: bufq_inv_def Curl_bufq_init2_def bufq_init_def pool_ok_def)

text \<open>
  C24: a queue of chunks gives back the bytes in the order they were taken, none lost and none made up,
  over any run of writes and reads and whatever chunks could be allocated; the length it reports is
  that of the bytes in it, a hard limit bounds them, and a soft limit takes every byte while there
  is memory.
\<close>

theorem bufq_in_order:
  assumes "0 < csize" and "queue_run (bufq_put mem) bufq_get ops (Curl_bufq_init2 csize maxc soft no_spares) = (q, inp, out)"
  shows "inp = out @ bufq_data q \<and> Curl_bufq_len q = length (bufq_data q) \<and>
    (soft \<or> length (bufq_data q) \<le> maxc * csize) \<and>
    (soft \<and> (\<forall>i. mem i) \<and> csize \<le> 2 ^ 64 - 41 \<longrightarrow> inp = put_all ops)"
proof -
  let ?q0 = "Curl_bufq_init2 csize maxc soft no_spares"
  have q0: "bufq_inv ?q0" "bufq_data ?q0 = []" using init2_inv [OF assms(1)] by (simp_all add: Curl_bufq_init2_def bufq_init_def bufq_data_def)
  from bufq.queue_order [OF _ assms(2), of ?q0] q0 have r: "inp = out @ bufq_data q" "bufq_inv q" "same_kind ?q0 q" by auto
  moreover have "soft \<or> length (bufq_data q) \<le> maxc * csize"
  proof -
    have "bq_chunk_size q = csize" "soft \<or> bq_chunk_count q \<le> maxc"
      using r(3) by (auto simp: same_kind_def Curl_bufq_init2_def bufq_init_def)
    then show ?thesis using bufq_data_bound [OF r(2)] by (metis le_trans mult_le_mono1)
  qed
  moreover have "soft \<and> (\<forall>i. mem i) \<and> csize \<le> 2 ^ 64 - 41 \<longrightarrow> inp = put_all ops"
  proof
    assume a: "soft \<and> (\<forall>i. mem i) \<and> csize \<le> 2 ^ 64 - 41"
    then have "bq_soft ?q0" "bq_chunk_size ?q0 = csize" "\<forall>i. mem i" "csize \<le> 2 ^ 64 - 1 - 40"
      by (simp_all add: Curl_bufq_init2_def bufq_init_def)
    from soft_run [OF this(3,4) q0(1) this(1,2) assms(2)] show "inp = put_all ops" .
  qed
  ultimately show ?thesis using bufq_len_data [OF r(2)] by blast
qed

theorem bufq_in_order_witness:
  "case queue_run (bufq_put (\<lambda>i. i < 1)) bufq_get [Put [1, 2, 3], Get 2, Put [4], Get 9] (Curl_bufq_init2 2 1 False False) of
     (q, inp, out) \<Rightarrow> inp = [1, 2, 4] \<and> out @ bufq_data q = [1, 2, 4]"
proof -
  have two: "replicate 2 x = [x, x]" for x :: u8 by (simp add: numeral_2_eq_2)
  obtain q inp out where r: "queue_run (bufq_put (\<lambda>i. i < 1)) bufq_get [Put [1, 2, 3], Get 2, Put [4], Get 9] (Curl_bufq_init2 2 1 False False)
      = (q, inp, out)" by (metis prod_cases3)
  moreover have "inp = [1, 2, 4]"
    using r by (simp add: bufq_put_def bufq_get_def Curl_bufq_write_def Curl_bufq_read_def write_loop.simps read_loop.simps prune_head.simps
        get_non_full_tail_def get_spare_def new_chunk_def set_tail_def chunk_append_def chunk_is_full_def chunk_is_empty_def chunk_read_def
        drop_chunk_def chunk_reset_def memcpy_at_def Curl_bufq_init2_def bufq_init_def Let_def two)
  ultimately show ?thesis using bufq_in_order [OF _ r] by auto
qed

subsection \<open>Passing bytes on\<close>

text \<open>
  The contract of a writer: it says how much of what it is given it has taken, when it succeeds; when it is
  to be asked again it has taken nothing. A pass hands the front of the bytes to the writer, chunk by chunk,
  and takes off what the writer has taken.
\<close>

locale byte_writer =
  fixes writer :: "'s bufq_writer" and log :: "'s \<Rightarrow> bytes" and winv :: "'s \<Rightarrow> bool"
  assumes write_law: "winv s \<Longrightarrow> writer s b = (r, n, s') \<Longrightarrow>
    winv s' \<and> n \<le> length b \<and> (r = CURLE_OK \<longrightarrow> log s' = log s @ take n b) \<and> (r = CURLE_AGAIN \<longrightarrow> log s' = log s)"
begin

lemma pass_loop_ok:
  "bufq_inv q \<Longrightarrow> winv s \<Longrightarrow> pass_loop q writer s k = (r, n, q', s') \<Longrightarrow>
    bufq_inv q' \<and> winv s' \<and> same_kind q q' \<and> k \<le> n \<and> n - k \<le> length (bufq_data q) \<and> bufq_data q' = drop (n - k) (bufq_data q) \<and>
    (r = CURLE_OK \<or> r = CURLE_AGAIN \<longrightarrow> log s' = log s @ take (n - k) (bufq_data q))"
proof (induction "length (bufq_data q)" arbitrary: q s k r n q' s' rule: less_induct)
  case (less q)
  obtain b q1 where p: "Curl_bufq_peek q = (b, q1)" by fastforce
  note p1 = peek_ok [OF less.prems(1) p]
  note run = less.prems(3) [unfolded pass_loop.simps [of q writer s k] p prod.case]
  show ?case
  proof (cases b)
    case None
    then show ?thesis using run p1 less.prems(2) by simp
  next
    case (Some buf)
    then have buf: "buf \<noteq> []" "buf = take (length buf) (bufq_data q)" using p1 by simp_all
    from arg_cong [OF buf(2), of length] have len: "length buf \<le> length (bufq_data q)" by (simp add: min_def split: if_splits)
    obtain r1 m s1 where w: "writer s buf = (r1, m, s1)" by (metis prod_cases3)
    note w1 = write_law [OF less.prems(2) w]
    show ?thesis
    proof (cases "r1 = CURLE_OK \<and> m \<noteq> 0")
      case False
      then have "q' = q1 \<and> n = k \<and> s' = s1 \<and> (r = CURLE_OK \<or> r = CURLE_AGAIN \<longrightarrow> r1 = CURLE_OK \<and> m = 0 \<or> r1 = CURLE_AGAIN)"
        using run w Some by (auto split: if_splits)
      then show ?thesis using p1 w1 by auto
    next
      case True
      have m: "m \<le> length (bufq_data q)" "take m buf = take m (bufq_data q)" "0 < m"
        using w1 len True buf(2) take_take [of m "length buf" "bufq_data q"] by (auto simp: min_def)
      let ?q = "Curl_bufq_skip q1 m"
      have sk: "bufq_inv ?q" "same_kind q ?q" "bufq_data ?q = drop m (bufq_data q)"
        using skip_ok [of q1 m] p1 same_kind_trans [of q q1 ?q] by simp_all
      have "pass_loop ?q writer s1 (k + m) = (r, n, q', s')" using run w Some True by simp
      then have ih: "bufq_inv q' \<and> winv s' \<and> same_kind ?q q' \<and> k + m \<le> n \<and> n - (k + m) \<le> length (bufq_data ?q) \<and>
          bufq_data q' = drop (n - (k + m)) (bufq_data ?q) \<and>
          (r = CURLE_OK \<or> r = CURLE_AGAIN \<longrightarrow> log s' = log s1 @ take (n - (k + m)) (bufq_data ?q))"
        using less.hyps [of ?q s1 "k + m" r n q' s'] sk w1 m by simp
      then obtain j where j: "n = k + m + j" using le_Suc_ex by blast
      have "log s1 = log s @ take m (bufq_data q)" using w1 True m(2) by simp
      moreover have "same_kind q q'" using same_kind_trans [OF sk(2)] ih by simp
      moreover have "take m (bufq_data q) @ take j (drop m (bufq_data q)) = take (m + j) (bufq_data q)" by (simp add: take_add)
      ultimately show ?thesis using ih m sk(3) unfolding j by (auto simp: add.commute)
    qed
  qed
qed

lemma pass_ok:
  assumes "bufq_inv q" and "winv s" and "Curl_bufq_pass q writer s = (r, n, q', s')"
  shows "bufq_inv q' \<and> winv s' \<and> same_kind q q' \<and> n \<le> length (bufq_data q) \<and> bufq_data q' = drop n (bufq_data q) \<and>
    (r = CURLE_OK \<or> r = CURLE_AGAIN \<longrightarrow> log s' @ bufq_data q' = log s @ bufq_data q)"
  using pass_loop_ok [OF assms(1,2), of 0 r n q' s'] assms(3) by (auto simp: Curl_bufq_pass_def)

text \<open>A write that makes room by passing: what was taken comes after what was there.\<close>

lemma write_pass_loop_ok:
  "bufq_inv q \<Longrightarrow> winv s \<Longrightarrow> write_pass_loop mem q buf writer s k = (r, n, q', s') \<Longrightarrow>
    bufq_inv q' \<and> winv s' \<and> same_kind q q' \<and> k \<le> n \<and> n - k \<le> length buf \<and>
    (r = CURLE_OK \<or> r = CURLE_AGAIN \<longrightarrow> log s' @ bufq_data q' = log s @ bufq_data q @ take (n - k) buf)"
proof (induction "length buf" arbitrary: buf q s k r n q' s' rule: less_induct)
  case (less buf)
  note run = less.prems(3) [unfolded write_pass_loop.simps [of mem q buf writer s k] Let_def]
  show ?case
  proof (cases "buf = []")
    case True
    then show ?thesis using run less.prems(1,2) by simp
  next
    case False
    obtain r1 q1 s1 where p: "(if Curl_bufq_is_full q then (case Curl_bufq_pass q writer s of (result, _, q, s) \<Rightarrow> (result, q, s)) else (CURLE_OK, q, s)) = (r1, q1, s1)"
      by (metis prod_cases3)
    then obtain x where "Curl_bufq_is_full q \<and> Curl_bufq_pass q writer s = (r1, x, q1, s1) \<or> r1 = CURLE_OK \<and> q1 = q \<and> s1 = s"
      by (auto split: if_splits prod.splits)
    then have p1: "bufq_inv q1 \<and> winv s1 \<and> same_kind q q1 \<and>
        (r1 = CURLE_OK \<or> r1 = CURLE_AGAIN \<longrightarrow> log s1 @ bufq_data q1 = log s @ bufq_data q)"
      using pass_ok [OF less.prems(1,2)] less.prems(1,2) by auto
    obtain r2 m q2 where w: "Curl_bufq_write mem q1 buf = (r2, m, q2)" by (metis prod_cases3)
    have w1: "bufq_inv q2 \<and> same_kind q1 q2 \<and> m \<le> length buf \<and> bufq_data q2 = bufq_data q1 @ take m buf \<and> (r2 = CURLE_AGAIN \<longrightarrow> m = 0)"
      using write_ok [OF _ w] p1 by simp
    have kind: "same_kind q q2" using p1 w1 same_kind_trans by blast
    show ?thesis
    proof (cases "r1 = CURLE_OK \<and> r2 = CURLE_OK \<and> m \<noteq> 0")
      case True
      then have step: "write_pass_loop mem q2 (drop m buf) writer s1 (k + m) = (r, n, q', s')" using run False p w by simp
      have ih: "bufq_inv q' \<and> winv s' \<and> same_kind q2 q' \<and> k + m \<le> n \<and> n - (k + m) \<le> length (drop m buf) \<and>
          (r = CURLE_OK \<or> r = CURLE_AGAIN \<longrightarrow> log s' @ bufq_data q' = log s1 @ bufq_data q2 @ take (n - (k + m)) (drop m buf))"
        by (rule less.hyps [OF _ _ _ step]) (use True w1 p1 False in auto)
      then obtain j where j: "n = k + m + j" using le_Suc_ex by blast
      have "log s1 @ bufq_data q2 = log s @ bufq_data q @ take m buf" using p1 w1 True by (metis append.assoc)
      moreover have "same_kind q q'" using same_kind_trans [OF kind] ih by simp
      moreover have "take m buf @ take j (drop m buf) = take (m + j) buf" by (simp add: take_add)
      ultimately show ?thesis using ih w1 unfolding j by (auto simp: add.commute)
    next
      case stop: False
      then have "s' = s1 \<and> n = k \<and> (q' = q1 \<and> (r = CURLE_OK \<or> r = CURLE_AGAIN \<longrightarrow> r1 = CURLE_AGAIN) \<or>
          q' = q2 \<and> r1 = CURLE_OK \<and> (r = CURLE_OK \<or> r = CURLE_AGAIN \<longrightarrow> m = 0))"
        using run False p w w1 by (auto split: if_splits)
      then show ?thesis using p1 w1 kind by auto
    qed
  qed
qed

end

text \<open>The write of another queue is such a writer.\<close>

interpretation bufq_writer: byte_writer "Curl_bufq_write mem" bufq_data bufq_inv for mem
  using write_ok by unfold_locales (metis append_Nil2 take_0)

text \<open>
  bytes written to a queue that passes them on to a second queue to make room arrive in the order
  they were written, none of them lost, as long as the result is success or that the queues are full.
\<close>

theorem write_pass_in_order:
  assumes "bufq_inv q" and "bufq_inv dst" and "Curl_bufq_write_pass mem q buf (Curl_bufq_write mem') dst = (r, n, q', dst')"
    and "r = CURLE_OK \<or> r = CURLE_AGAIN"
  shows "bufq_data dst' @ bufq_data q' = bufq_data dst @ bufq_data q @ take n buf \<and> n \<le> length buf \<and> bufq_inv q' \<and> bufq_inv dst'"
  using bufq_writer.write_pass_loop_ok [OF assms(1,2), of mem buf mem' 0 r n q' dst'] assms(3,4) by (simp add: Curl_bufq_write_pass_def)

text \<open>A queue of one chunk of two bytes that passes on to another.\<close>

definition sample_bufq :: bufq where
  "sample_bufq = (Curl_bufq_init 2 1)\<lparr>bq_chunks := [\<lparr>ck_mem = [7, 8], ck_r = 0, ck_w = 2\<rparr>], bq_chunk_count := 1\<rparr>"

lemma sample_bufq_inv: "bufq_inv sample_bufq"
  by (simp add: sample_bufq_def bufq_inv_def Curl_bufq_init_def bufq_init_def pool_ok_def chunk_ok_def)

theorem write_pass_in_order_witness:
  "\<exists>n q' dst'. Curl_bufq_write_pass (\<lambda>_. True) sample_bufq [9] (Curl_bufq_write (\<lambda>_. True)) (Curl_bufq_init2 2 1 True False) = (CURLE_OK, n, q', dst') \<and>
     bufq_data dst' @ bufq_data q' = [7, 8] @ take n [9]"
proof -
  let ?dst = "Curl_bufq_init2 2 1 True False"
  obtain r n q' dst' where r: "Curl_bufq_write_pass (\<lambda>_. True) sample_bufq [9] (Curl_bufq_write (\<lambda>_. True)) ?dst = (r, n, q', dst')"
    by (metis prod_cases4)
  have two: "replicate 2 x = [x, x]" for x :: u8 by (simp add: numeral_2_eq_2)
  have "r = CURLE_OK"
    using r by (simp add: Curl_bufq_write_pass_def write_pass_loop.simps Curl_bufq_is_full_def Curl_bufq_pass_def pass_loop.simps Curl_bufq_peek_def
        Curl_bufq_skip.simps chunk_skip_def chunk_peek_def Curl_bufq_write_def write_loop.simps prune_head.simps
        get_non_full_tail_def get_spare_def new_chunk_def set_tail_def chunk_append_def chunk_is_full_def chunk_is_empty_def
        drop_chunk_def chunk_reset_def memcpy_at_def sample_bufq_def Curl_bufq_init_def Curl_bufq_init2_def bufq_init_def Let_def two)
  moreover have "bufq_data ?dst = []" "bufq_data sample_bufq = [7, 8]"
    by (simp_all add: bufq_data_def sample_bufq_def Curl_bufq_init2_def bufq_init_def chunk_peek_def)
  ultimately show ?thesis using write_pass_in_order [OF sample_bufq_inv init2_inv r] r by simp
qed

subsection \<open>Reading in\<close>

text \<open>
  The contract of a reader: it gives the front of what it has, at most what is asked for, and nothing when it
  fails.
\<close>

locale byte_reader =
  fixes reader :: "'s bufq_reader" and source :: "'s \<Rightarrow> bytes" and rinv :: "'s \<Rightarrow> bool"
  assumes read_law: "rinv s \<Longrightarrow> reader s n = (r, got, s') \<Longrightarrow>
    rinv s' \<and> length got \<le> n \<and> source s = got @ source s' \<and> (r \<noteq> CURLE_OK \<longrightarrow> got = [])"
begin

lemma sipn_ok:
  assumes "bufq_inv q" and "rinv s" and "Curl_bufq_sipn mem q max_len reader s = (r, n, q', s')"
  shows "bufq_inv q' \<and> rinv s' \<and> same_kind q q' \<and> bufq_data q' @ source s' = bufq_data q @ source s \<and>
    length (source s) = n + length (source s')"
proof -
  obtain found q1 where g: "get_non_full_tail mem q = (found, q1)" by fastforce
  note g1 = get_tail_ok [OF assms(1) g]
  show ?thesis
  proof (cases found)
    case False
    then show ?thesis using assms g g1 by (auto simp: Curl_bufq_sipn_def split: if_splits)
  next
    case True
    let ?t = "last (bq_chunks q1)"
    have t: "bq_chunks q1 \<noteq> []" "chunk_ok (bq_chunk_size q1) ?t" "length (ck_mem ?t) - ck_w ?t \<noteq> 0"
      using g1 True by (auto simp: bufq_inv_def chunk_is_full_def)
    let ?ask = "if max_len \<noteq> 0 \<and> length (ck_mem ?t) - ck_w ?t > max_len then max_len else length (ck_mem ?t) - ck_w ?t"
    obtain r1 got s1 where rd: "reader s ?ask = (r1, got, s1)" by (metis prod_cases3)
    note rd1 = read_law [OF assms(2) rd]
    let ?c = "?t\<lparr>ck_mem := memcpy_at (ck_w ?t) got (ck_mem ?t), ck_w := ck_w ?t + length got\<rparr>"
    have "ck_w ?t + length got \<le> bq_chunk_size q1" using rd1 t by (auto simp: chunk_ok_def split: if_splits)
    note a = tail_appended [OF _ t(1) this refl]
    have "?t\<lparr>ck_mem := memcpy_at (ck_w ?t) got (ck_mem ?t), ck_w := ck_w ?t + length got\<rparr> = ?t" if "got = []"
      using that t(2) by (simp add: memcpy_at_def chunk_ok_def)
    then have "r = r1 \<and> n = length got \<and> s' = s1 \<and> q' = set_tail ?c q1"
      using assms(3) g True t(3) rd rd1 by (auto simp: Curl_bufq_sipn_def chunk_slurpn_def Let_def split: if_splits)
    moreover have "same_kind q (set_tail ?c q1)" using same_kind_trans g1 a(3) by blast
    ultimately show ?thesis using a g1 rd1 True by simp
  qed
qed

text \<open>The loop ends: every turn but the last takes a byte of the source.\<close>

lemma slurpn_ok:
  "bufq_inv q \<Longrightarrow> rinv s \<Longrightarrow> \<exists>r n q' s'. bufq_slurpn mem q max_len reader s k = Some (r, n, q', s') \<and>
    bufq_inv q' \<and> rinv s' \<and> same_kind q q' \<and> bufq_data q' @ source s' = bufq_data q @ source s"
proof (induction "length (source s)" arbitrary: s q k max_len rule: less_induct)
  case (less s)
  obtain r1 m q1 s1 where p: "Curl_bufq_sipn mem q max_len reader s = (r1, m, q1, s1)" by (metis prod_cases4)
  note p1 = sipn_ok [OF less.prems p]
  note run = bufq_slurpn.simps [of mem q max_len reader s k, unfolded p prod.case]
  show ?case
  proof (cases "r1 \<noteq> CURLE_OK \<or> m = 0 \<or> max_len \<noteq> 0 \<and> max_len - m = 0 \<or> bq_chunks q1 \<noteq> [] \<and> \<not> chunk_is_full (last (bq_chunks q1))")
    case True
    then obtain r n where "bufq_slurpn mem q max_len reader s k = Some (r, n, q1, s1)" using run by (auto split: if_splits)
    then show ?thesis using p1 by blast
  next
    case False
    then have "bufq_slurpn mem q max_len reader s k = bufq_slurpn mem q1 (max_len - m) reader s1 (k + m)" using run by auto
    moreover have "length (source s1) < length (source s)" using p1 False by simp
    then obtain r n q' s' where "bufq_slurpn mem q1 (max_len - m) reader s1 (k + m) = Some (r, n, q', s')"
      "bufq_inv q' \<and> rinv s' \<and> same_kind q1 q' \<and> bufq_data q' @ source s' = bufq_data q1 @ source s1"
      using less.hyps [of s1 q1 "max_len - m" "k + m"] p1 by blast
    ultimately show ?thesis using p1 same_kind_trans [of q q1 q'] by metis
  qed
qed

end

definition bufq_reads :: "bufq bufq_reader" where
  "bufq_reads q n = Curl_bufq_read q n"

interpretation bufq_reader: byte_reader bufq_reads bufq_data bufq_inv
proof
  fix q n r got q'
  assume i: "bufq_inv q" and "bufq_reads q n = (r, got, q')"
  from read_ok [OF i, of n r got q'] this show "bufq_inv q' \<and> length got \<le> n \<and> bufq_data q = got @ bufq_data q' \<and> (r \<noteq> CURLE_OK \<longrightarrow> got = [])"
    by (auto simp: bufq_reads_def split: if_splits)
qed



end
