(* ===== verification/CurlChunks.thy ===== *)
theory CurlChunks
  imports CurlEscape CurlQueue
begin

text \<open>
  curl 8.16.0, lib/http_chunks.c: the state machine that takes the chunked transfer encoding apart, and the
  reader that puts it together in a queue of chunks. The hexadecimal sizes are read with
  lib/curlx/strparse.c. What a client does with the body is a parameter, \<open>wr\<close>, given the kind
  of data, the bytes and its state; what is read to be encoded is one as well.
\<close>

subsection \<open>Numbers\<close>

datatype str_error = STRE_OVERFLOW | STRE_NO_NUM

definition valid_digit :: "u8 \<Rightarrow> u8 \<Rightarrow> bool" where
  "valid_digit x m \<longleftrightarrow> 0x30 \<le> x \<and> x \<le> m \<and> Curl_hexasciitable ! (unat x - 0x30) \<noteq> 0"

definition num_step :: "int \<Rightarrow> int \<Rightarrow> int \<Rightarrow> u8 \<Rightarrow> int option" where
  "num_step maxn base num c =
     (let n = int (unat (Curl_hexval c)) in
      if maxn < base then (if num * base + n > maxn then None else Some (num * base + n))
      else (if num > (maxn - n) div base then None else Some (num * base + n)))"

text \<open>The digits at the front of a text, whose terminating zero is no digit, and what follows them.\<close>

fun num_loop :: "int \<Rightarrow> int \<Rightarrow> u8 \<Rightarrow> int \<Rightarrow> bytes \<Rightarrow> str_error + int \<times> bytes" where
  "num_loop maxn base m num [] = Inr (num, [])"
| "num_loop maxn base m num (c # p) =
     (if valid_digit c m
      then (case num_step maxn base num c of None \<Rightarrow> Inl STRE_OVERFLOW | Some num \<Rightarrow> num_loop maxn base m num p)
      else Inr (num, c # p))"

definition str_num_base :: "bytes \<Rightarrow> int \<Rightarrow> int \<Rightarrow> str_error + int \<times> bytes" where
  "str_num_base line maxn base =
     (let m = (if base = 10 then 0x39 else if base = 16 then 0x66 else 0x37) in
      if line = [] \<or> \<not> valid_digit (hd line) m then Inl STRE_NO_NUM else num_loop maxn base m 0 line)"

definition curlx_str_number :: "bytes \<Rightarrow> int \<Rightarrow> str_error + int \<times> bytes" where
  "curlx_str_number line maxn = str_num_base line maxn 10"

definition curlx_str_hex :: "bytes \<Rightarrow> int \<Rightarrow> str_error + int \<times> bytes" where
  "curlx_str_hex line maxn = str_num_base line maxn 16"

definition curlx_str_octal :: "bytes \<Rightarrow> int \<Rightarrow> str_error + int \<times> bytes" where
  "curlx_str_octal line maxn = str_num_base line maxn 8"

definition CURL_OFF_T_MAX :: int where "CURL_OFF_T_MAX = 2 ^ 63 - 1"

subsection \<open>The decoder\<close>

datatype ChunkyState =
    CHUNK_HEX | CHUNK_LF | CHUNK_DATA | CHUNK_POSTLF | CHUNK_STOP | CHUNK_TRAILER | CHUNK_TRAILER_CR
  | CHUNK_TRAILER_POSTCR | CHUNK_DONE | CHUNK_FAILED

datatype CHUNKcode =
    CHUNKE_OK | CHUNKE_TOO_LONG_HEX | CHUNKE_ILLEGAL_HEX | CHUNKE_BAD_CHUNK | CHUNKE_BAD_ENCODING
  | CHUNKE_OUT_OF_MEMORY | CHUNKE_PASSTHRU_ERROR

definition CHUNK_MAXNUM_LEN :: nat where "CHUNK_MAXNUM_LEN = 8 * 2"

definition DYN_H1_TRAILER :: nat where "DYN_H1_TRAILER = 4096"

text \<open>No value written to the size is negative, so it is a \<open>nat\<close>.\<close>

record Curl_chunker =
  hc_datasize :: nat
  hc_state :: ChunkyState
  hc_last_code :: CHUNKcode
  hc_trailer :: curl_dynbuf
  hc_hexindex :: nat
  hc_hexbuffer :: bytes
  hc_ignore_body :: bool

definition Curl_httpchunk_init :: "Curl_chunker \<Rightarrow> bool \<Rightarrow> Curl_chunker" where
  "Curl_httpchunk_init ch ignore_body =
     ch\<lparr>hc_hexindex := 0, hc_state := CHUNK_HEX, hc_last_code := CHUNKE_OK, hc_trailer := curlx_dyn_init DYN_H1_TRAILER,
        hc_ignore_body := ignore_body\<rparr>"

definition Curl_httpchunk_reset :: "Curl_chunker \<Rightarrow> bool \<Rightarrow> Curl_chunker" where
  "Curl_httpchunk_reset ch ignore_body =
     ch\<lparr>hc_hexindex := 0, hc_state := CHUNK_HEX, hc_last_code := CHUNKE_OK, hc_trailer := curlx_dyn_reset (hc_trailer ch),
        hc_ignore_body := ignore_body\<rparr>"

definition Curl_httpchunk_free :: "Curl_chunker \<Rightarrow> Curl_chunker" where
  "Curl_httpchunk_free ch = ch\<lparr>hc_trailer := curlx_dyn_free (hc_trailer ch)\<rparr>"

definition Curl_httpchunk_is_done :: "Curl_chunker \<Rightarrow> bool" where
  "Curl_httpchunk_is_done ch \<longleftrightarrow> hc_state ch = CHUNK_DONE"

definition CLIENTWRITE_BODY :: int where "CLIENTWRITE_BODY = 1"
definition CLIENTWRITE_HEADER :: int where "CLIENTWRITE_HEADER = 4"
definition CLIENTWRITE_TRAILER :: int where "CLIENTWRITE_TRAILER = 64"
definition CLIENTWRITE_EOS :: int where "CLIENTWRITE_EOS = 128"

type_synonym 's cwriter = "'s \<Rightarrow> int \<Rightarrow> bytes \<Rightarrow> CURLcode \<times> 's"

text \<open>
  A turn of the loop gives the result if the function returns at once, how many bytes it has moved over, the
  decoder and the client.
\<close>

type_synonym 's chunk_turn = "CURLcode option \<times> nat \<times> Curl_chunker \<times> 's"

definition chunk_failed :: "CHUNKcode \<Rightarrow> Curl_chunker \<Rightarrow> Curl_chunker" where
  "chunk_failed code ch = ch\<lparr>hc_state := CHUNK_FAILED, hc_last_code := code\<rparr>"

definition chunk_hex :: "Curl_chunker \<Rightarrow> u8 \<Rightarrow> 's \<Rightarrow> 's chunk_turn" where
  "chunk_hex ch c s =
     (if ISXDIGIT c then
        (if hc_hexindex ch \<ge> CHUNK_MAXNUM_LEN then (Some CURLE_RECV_ERROR, 0, chunk_failed CHUNKE_TOO_LONG_HEX ch, s)
         else (None, 1, ch\<lparr>hc_hexbuffer := (hc_hexbuffer ch)[hc_hexindex ch := c], hc_hexindex := hc_hexindex ch + 1\<rparr>, s))
      else if hc_hexindex ch = 0 then (Some CURLE_RECV_ERROR, 0, chunk_failed CHUNKE_ILLEGAL_HEX ch, s)
      else
        let ch = ch\<lparr>hc_hexbuffer := (hc_hexbuffer ch)[hc_hexindex ch := 0]\<rparr> in
        case curlx_str_hex (cstr (hc_hexbuffer ch)) CURL_OFF_T_MAX of
          Inl _ \<Rightarrow> (Some CURLE_RECV_ERROR, 0, chunk_failed CHUNKE_ILLEGAL_HEX (ch\<lparr>hc_datasize := 0\<rparr>), s)
        | Inr (num, _) \<Rightarrow> (None, 0, ch\<lparr>hc_datasize := nat num, hc_state := CHUNK_LF\<rparr>, s))"

definition chunk_lf :: "Curl_chunker \<Rightarrow> u8 \<Rightarrow> 's \<Rightarrow> 's chunk_turn" where
  "chunk_lf ch c s =
     (None, 1,
      if c = 0x0A then ch\<lparr>hc_state := if hc_datasize ch = 0 then CHUNK_TRAILER else CHUNK_DATA\<rparr> else ch, s)"

definition chunk_data :: "bool \<Rightarrow> 's cwriter \<Rightarrow> Curl_chunker \<Rightarrow> bytes \<Rightarrow> 's \<Rightarrow> 's chunk_turn" where
  "chunk_data te_skip wr ch buf s =
     (let piece = (if hc_datasize ch < length buf then hc_datasize ch else length buf);
          (result, s) = (if \<not> te_skip \<and> \<not> hc_ignore_body ch then wr s CLIENTWRITE_BODY (take piece buf) else (CURLE_OK, s)) in
      if result \<noteq> CURLE_OK then (Some result, 0, chunk_failed CHUNKE_PASSTHRU_ERROR ch, s)
      else
        let ch = ch\<lparr>hc_datasize := hc_datasize ch - piece\<rparr> in
        (None, piece, if hc_datasize ch = 0 then ch\<lparr>hc_state := CHUNK_POSTLF\<rparr> else ch, s))"

definition chunk_postlf :: "Curl_chunker \<Rightarrow> u8 \<Rightarrow> 's \<Rightarrow> 's chunk_turn" where
  "chunk_postlf ch c s =
     (if c = 0x0A then (None, 1, Curl_httpchunk_reset ch (hc_ignore_body ch), s)
      else if c \<noteq> 0x0D then (Some CURLE_RECV_ERROR, 0, chunk_failed CHUNKE_BAD_CHUNK ch, s)
      else (None, 1, ch, s))"

definition chunk_trailer :: "(nat \<Rightarrow> bool) \<Rightarrow> bool \<Rightarrow> 's cwriter \<Rightarrow> Curl_chunker \<Rightarrow> u8 \<Rightarrow> 's \<Rightarrow> 's chunk_turn" where
  "chunk_trailer alloc te_skip wr ch c s =
     (if c = 0x0D \<or> c = 0x0A then
        (case curlx_dyn_ptr (hc_trailer ch) of
           None \<Rightarrow> (None, 0, ch\<lparr>hc_state := CHUNK_TRAILER_POSTCR\<rparr>, s)
         | Some _ \<Rightarrow>
             (case curlx_dyn_addn alloc (hc_trailer ch) [0x0D, 0x0A] of
                (result, trailer) \<Rightarrow>
                  let ch = ch\<lparr>hc_trailer := trailer\<rparr> in
                  if result \<noteq> CURLE_OK then (Some result, 0, chunk_failed CHUNKE_OUT_OF_MEMORY ch, s)
                  else
                    let (result, s) = (if \<not> te_skip then wr s (CLIENTWRITE_HEADER OR CLIENTWRITE_TRAILER) (dy_data trailer) else (CURLE_OK, s)) in
                    if result \<noteq> CURLE_OK then (Some result, 0, chunk_failed CHUNKE_PASSTHRU_ERROR ch, s)
                    else
                      (None, if c = 0x0A then 0 else 1, ch\<lparr>hc_trailer := curlx_dyn_reset trailer, hc_state := CHUNK_TRAILER_CR\<rparr>, s)))
      else
        case curlx_dyn_addn alloc (hc_trailer ch) [c] of
          (result, trailer) \<Rightarrow>
            let ch = ch\<lparr>hc_trailer := trailer\<rparr> in
            if result \<noteq> CURLE_OK then (Some result, 0, chunk_failed CHUNKE_OUT_OF_MEMORY ch, s)
            else (None, 1, ch, s))"

definition chunk_trailer_cr :: "Curl_chunker \<Rightarrow> u8 \<Rightarrow> 's \<Rightarrow> 's chunk_turn" where
  "chunk_trailer_cr ch c s =
     (if c = 0x0A then (None, 1, ch\<lparr>hc_state := CHUNK_TRAILER_POSTCR\<rparr>, s)
      else (Some CURLE_RECV_ERROR, 0, chunk_failed CHUNKE_BAD_CHUNK ch, s))"

definition chunk_postcr :: "Curl_chunker \<Rightarrow> u8 \<Rightarrow> 's \<Rightarrow> 's chunk_turn" where
  "chunk_postcr ch c s =
     (if c \<noteq> 0x0D \<and> c \<noteq> 0x0A then (None, 0, ch\<lparr>hc_state := CHUNK_TRAILER\<rparr>, s)
      else (None, if c = 0x0D then 1 else 0, ch\<lparr>hc_state := CHUNK_STOP\<rparr>, s))"

definition chunk_stop :: "Curl_chunker \<Rightarrow> u8 \<Rightarrow> nat \<Rightarrow> 's \<Rightarrow> 's chunk_turn" where
  "chunk_stop ch c blen s =
     (if c = 0x0A then (Some CURLE_OK, 1, ch\<lparr>hc_datasize := blen - 1, hc_state := CHUNK_DONE\<rparr>, s)
      else (Some CURLE_RECV_ERROR, 0, chunk_failed CHUNKE_BAD_CHUNK ch, s))"

definition chunk_step :: "(nat \<Rightarrow> bool) \<Rightarrow> bool \<Rightarrow> 's cwriter \<Rightarrow> Curl_chunker \<Rightarrow> bytes \<Rightarrow> 's \<Rightarrow> 's chunk_turn" where
  "chunk_step alloc te_skip wr ch buf s =
     (case hc_state ch of
        CHUNK_HEX \<Rightarrow> chunk_hex ch (hd buf) s
      | CHUNK_LF \<Rightarrow> chunk_lf ch (hd buf) s
      | CHUNK_DATA \<Rightarrow> chunk_data te_skip wr ch buf s
      | CHUNK_POSTLF \<Rightarrow> chunk_postlf ch (hd buf) s
      | CHUNK_TRAILER \<Rightarrow> chunk_trailer alloc te_skip wr ch (hd buf) s
      | CHUNK_TRAILER_CR \<Rightarrow> chunk_trailer_cr ch (hd buf) s
      | CHUNK_TRAILER_POSTCR \<Rightarrow> chunk_postcr ch (hd buf) s
      | CHUNK_STOP \<Rightarrow> chunk_stop ch (hd buf) (length buf) s
      | CHUNK_DONE \<Rightarrow> (Some CURLE_OK, 0, ch, s)
      | CHUNK_FAILED \<Rightarrow> (Some CURLE_RECV_ERROR, 0, ch, s))"

text \<open>A turn that moves over nothing goes to a state from which fewer such turns follow.\<close>

fun chunk_rank :: "ChunkyState \<Rightarrow> bytes \<Rightarrow> nat" where
  "chunk_rank CHUNK_HEX buf = 1"
| "chunk_rank CHUNK_DATA buf = 1"
| "chunk_rank CHUNK_TRAILER buf = (if hd buf = 0x0D \<or> hd buf = 0x0A then 2 else 0)"
| "chunk_rank CHUNK_TRAILER_POSTCR buf = 1"
| "chunk_rank _ buf = 0"

lemma chunk_step_progress:
  assumes "buf \<noteq> []" and "chunk_step alloc te_skip wr ch buf s = (None, n, ch', s')"
  shows "n \<le> length buf" and "n = 0 \<Longrightarrow> chunk_rank (hc_state ch') buf < chunk_rank (hc_state ch) buf"
proof -
  have "n \<le> length buf \<and> (n = 0 \<longrightarrow> chunk_rank (hc_state ch') buf < chunk_rank (hc_state ch) buf)"
  proof (cases "hc_state ch")
    case CHUNK_TRAILER
    then show ?thesis using assms
      by (cases buf) (auto simp: chunk_step_def chunk_trailer_def Let_def split: if_splits option.splits prod.splits)
  next
    case CHUNK_DATA
    then show ?thesis using assms
      by (cases buf) (auto simp: chunk_step_def chunk_data_def Let_def split: if_splits prod.splits)
  next
    case CHUNK_HEX
    then show ?thesis using assms
      by (cases buf) (auto simp: chunk_step_def chunk_hex_def Let_def split: if_splits sum.splits prod.splits)
  qed (use assms in \<open>cases buf; auto simp: chunk_step_def chunk_lf_def chunk_postlf_def chunk_trailer_cr_def chunk_postcr_def chunk_stop_def split: if_splits\<close>)+
  then show "n \<le> length buf" and "n = 0 \<Longrightarrow> chunk_rank (hc_state ch') buf < chunk_rank (hc_state ch) buf" by blast+
qed

function chunk_loop :: "(nat \<Rightarrow> bool) \<Rightarrow> bool \<Rightarrow> 's cwriter \<Rightarrow> Curl_chunker \<Rightarrow> bytes \<Rightarrow> 's \<Rightarrow> CURLcode \<times> nat \<times> Curl_chunker \<times> 's" where
  "chunk_loop alloc te_skip wr ch buf s =
     (if buf = [] then (CURLE_OK, 0, ch, s)
      else
        case chunk_step alloc te_skip wr ch buf s of
          (Some result, n, ch, s) \<Rightarrow> (result, n, ch, s)
        | (None, n, ch, s) \<Rightarrow>
            (case chunk_loop alloc te_skip wr ch (drop n buf) s of (result, m, ch, s) \<Rightarrow> (result, n + m, ch, s)))"
  by pat_completeness auto
termination
proof (relation "measures [\<lambda>(alloc, te_skip, wr, ch, buf, s). length buf, \<lambda>(alloc, te_skip, wr, ch, buf, s). chunk_rank (hc_state ch) buf]", goal_cases)
  case (2 alloc te_skip wr ch buf s x y n z ch' s')
  then show ?case using chunk_step_progress [of buf alloc te_skip wr ch s n ch' s'] by (cases "n = 0") auto
qed simp

declare chunk_loop.simps [simp del]

definition httpchunk_readwrite ::
    "(nat \<Rightarrow> bool) \<Rightarrow> bool \<Rightarrow> 's cwriter \<Rightarrow> Curl_chunker \<Rightarrow> bytes \<Rightarrow> 's \<Rightarrow> CURLcode \<times> nat \<times> Curl_chunker \<times> 's" where
  "httpchunk_readwrite alloc te_skip wr ch buf s =
     (if hc_state ch = CHUNK_DONE then (CURLE_OK, 0, ch, s)
      else if hc_state ch = CHUNK_FAILED then (CURLE_RECV_ERROR, 0, ch, s)
      else
        let (result, s) = (if te_skip \<and> \<not> hc_ignore_body ch then wr s CLIENTWRITE_BODY buf else (CURLE_OK, s)) in
        if result \<noteq> CURLE_OK then (result, 0, chunk_failed CHUNKE_PASSTHRU_ERROR ch, s)
        else chunk_loop alloc te_skip wr ch buf s)"

definition Curl_httpchunk_read ::
    "(nat \<Rightarrow> bool) \<Rightarrow> bool \<Rightarrow> 's cwriter \<Rightarrow> Curl_chunker \<Rightarrow> bytes \<Rightarrow> 's \<Rightarrow> CURLcode \<times> nat \<times> Curl_chunker \<times> 's" where
  "Curl_httpchunk_read alloc te_skip client_write ch buf s = httpchunk_readwrite alloc te_skip client_write ch buf s"


definition Curl_chunked_strerror :: "CHUNKcode \<Rightarrow> bytes" where
  "Curl_chunked_strerror code =
     (case code of
        CHUNKE_TOO_LONG_HEX \<Rightarrow> str ''Too long hexadecimal number''
      | CHUNKE_ILLEGAL_HEX \<Rightarrow> str ''Illegal or missing hexadecimal sequence''
      | CHUNKE_BAD_CHUNK \<Rightarrow> str ''Malformed encoding found''
      | CHUNKE_PASSTHRU_ERROR \<Rightarrow> str ''Error writing data to client''
      | CHUNKE_BAD_ENCODING \<Rightarrow> str ''Bad content-encoding found''
      | CHUNKE_OUT_OF_MEMORY \<Rightarrow> str ''Out of memory''
      | _ \<Rightarrow> str ''OK'')"

text \<open>The writer in front of a client; whether the download is done, if that is set.\<close>

definition cw_chunked_init :: "Curl_chunker \<Rightarrow> Curl_chunker" where
  "cw_chunked_init ch = Curl_httpchunk_init ch False"

definition cw_chunked_close :: "Curl_chunker \<Rightarrow> Curl_chunker" where
  "cw_chunked_close ch = Curl_httpchunk_free ch"

definition cw_chunked_write ::
    "(nat \<Rightarrow> bool) \<Rightarrow> bool \<Rightarrow> bool \<Rightarrow> 's cwriter \<Rightarrow> Curl_chunker \<Rightarrow> int \<Rightarrow> bytes \<Rightarrow> 's \<Rightarrow> CURLcode \<times> bool \<times> Curl_chunker \<times> 's" where
  "cw_chunked_write alloc te_skip no_body wr ch kind buf s =
     (if kind AND CLIENTWRITE_BODY = 0 then (case wr s kind buf of (result, s) \<Rightarrow> (result, False, ch, s))
      else
        case httpchunk_readwrite alloc te_skip wr ch buf s of
          (result, consumed, ch, s) \<Rightarrow>
            if result \<noteq> CURLE_OK then (result, False, ch, s)
            else if hc_state ch = CHUNK_DONE then (CURLE_OK, True, ch, s)
            else if kind AND CLIENTWRITE_EOS \<noteq> 0 \<and> \<not> no_body then (CURLE_PARTIAL_FILE, False, ch, s)
            else (CURLE_OK, False, ch, s))"

subsection \<open>The encoder\<close>

definition CURL_CHUNKED_MINLEN :: nat where "CURL_CHUNKED_MINLEN = 1024"
definition CURL_CHUNKED_MAXLEN :: nat where "CURL_CHUNKED_MAXLEN = 64 * 1024"

record chunked_reader =
  cr_chunkbuf :: bufq
  cr_read_eos :: bool
  cr_eos :: bool

text \<open>The next reader is asked for at most so many bytes and says whether they were the last.\<close>

type_synonym 's creader = "'s \<Rightarrow> nat \<Rightarrow> CURLcode \<times> bytes \<times> bool \<times> 's"

text \<open>A created reader is zeroed.\<close>

definition cr_chunked_init :: chunked_reader where
  "cr_chunked_init = \<lparr>cr_chunkbuf = Curl_bufq_init2 CURL_CHUNKED_MAXLEN 2 True False, cr_read_eos = False, cr_eos = False\<rparr>"

definition cr_chunked_close :: "chunked_reader \<Rightarrow> chunked_reader" where
  "cr_chunked_close ctx = ctx\<lparr>cr_chunkbuf := Curl_bufq_free (cr_chunkbuf ctx)\<rparr>"

definition cr_write :: "(nat \<Rightarrow> bool) \<Rightarrow> chunked_reader \<Rightarrow> bytes \<Rightarrow> CURLcode \<times> chunked_reader" where
  "cr_write mem ctx buf = (case Curl_bufq_cwrite mem (cr_chunkbuf ctx) buf of (result, n, q) \<Rightarrow> (result, ctx\<lparr>cr_chunkbuf := q\<rparr>))"

text \<open>A trailer is added when a colon and a space are in it, at its first colon.\<close>

definition trailer_formed :: "bytes \<Rightarrow> bool" where
  "trailer_formed tr \<longleftrightarrow> (case dropWhile (\<lambda>c. c \<noteq> c_colon) (cstr tr) of _ # c # _ \<Rightarrow> c = c_space | _ \<Rightarrow> False)"

fun add_trailers :: "(nat \<Rightarrow> bool) \<Rightarrow> chunked_reader \<Rightarrow> bytes list \<Rightarrow> CURLcode \<times> chunked_reader" where
  "add_trailers mem ctx [] = cr_write mem ctx [0x0D, 0x0A]"
| "add_trailers mem ctx (tr # trs) =
     (if \<not> trailer_formed tr then add_trailers mem ctx trs
      else
        case cr_write mem ctx (cstr tr) of
          (result, ctx) \<Rightarrow>
            let (result, ctx) = (if result = CURLE_OK then cr_write mem ctx [0x0D, 0x0A] else (result, ctx)) in
            if result \<noteq> CURLE_OK then (result, ctx) else add_trailers mem ctx trs)"

text \<open>The callback for trailers, when it is set, has a result and a list.\<close>

definition CURL_TRAILERFUNC_OK :: int where "CURL_TRAILERFUNC_OK = 0"

definition add_last_chunk :: "(nat \<Rightarrow> bool) \<Rightarrow> (int \<times> bytes list) option \<Rightarrow> chunked_reader \<Rightarrow> CURLcode \<times> chunked_reader" where
  "add_last_chunk mem trailer_callback ctx =
     (case trailer_callback of
        None \<Rightarrow> cr_write mem ctx [c_zero, 0x0D, 0x0A, 0x0D, 0x0A]
      | Some (rc, trailers) \<Rightarrow>
          (case cr_write mem ctx [c_zero, 0x0D, 0x0A] of
             (result, ctx) \<Rightarrow>
               if result \<noteq> CURLE_OK then (result, ctx)
               else if rc \<noteq> CURL_TRAILERFUNC_OK then (CURLE_ABORTED_BY_CALLBACK, ctx)
               else add_trailers mem ctx trailers))"

text \<open>\<open>%zx\<close>\<close>

fun show_hex :: "nat \<Rightarrow> bytes" where
  "show_hex n = (if n < 16 then [Curl_ldigits ! n] else show_hex (n div 16) @ [Curl_ldigits ! (n mod 16)])"

declare show_hex.simps [simp del]

text \<open>The bytes read wrapped into a chunk.\<close>

definition put_chunk :: "(nat \<Rightarrow> bool) \<Rightarrow> chunked_reader \<Rightarrow> bytes \<Rightarrow> CURLcode \<times> chunked_reader" where
  "put_chunk mem ctx got =
     (if got = [] then (CURLE_OK, ctx)
      else
        case cr_write mem ctx (snprintf 11 (show_hex (length got) @ [0x0D, 0x0A])) of
          (result, ctx) \<Rightarrow>
            (case (if result = CURLE_OK then cr_write mem ctx got else (result, ctx)) of
               (result, ctx) \<Rightarrow> if result = CURLE_OK then cr_write mem ctx [0x0D, 0x0A] else (result, ctx)))"

definition add_chunk ::
    "(nat \<Rightarrow> bool) \<Rightarrow> (int \<times> bytes list) option \<Rightarrow> 's creader \<Rightarrow> chunked_reader \<Rightarrow> nat \<Rightarrow> 's \<Rightarrow> CURLcode \<times> chunked_reader \<times> 's" where
  "add_chunk mem trailer_callback nx ctx blen s =
     (let blen = min blen CURL_CHUNKED_MAXLEN;
          blen = (if blen < CURL_CHUNKED_MINLEN then CURL_CHUNKED_MINLEN else blen - (8 + 2 + 2)) in
      case nx s blen of
        (result, got, eos, s) \<Rightarrow>
          if result \<noteq> CURLE_OK then (result, ctx, s)
          else
            case put_chunk mem (if eos then ctx\<lparr>cr_read_eos := True\<rparr> else ctx) got of
              (result, ctx) \<Rightarrow>
                if result \<noteq> CURLE_OK then (result, ctx, s)
                else if cr_read_eos ctx then (case add_last_chunk mem trailer_callback ctx of (result, ctx) \<Rightarrow> (result, ctx, s))
                else (CURLE_OK, ctx, s))"

text \<open>The result, the bytes read and whether they are the last.\<close>

definition cr_chunked_read ::
    "(nat \<Rightarrow> bool) \<Rightarrow> (int \<times> bytes list) option \<Rightarrow> 's creader \<Rightarrow> chunked_reader \<Rightarrow> nat \<Rightarrow> 's \<Rightarrow>
     CURLcode \<times> bytes \<times> bool \<times> chunked_reader \<times> 's" where
  "cr_chunked_read mem trailer_callback nx ctx blen s =
     (if cr_eos ctx then (CURLE_OK, [], True, ctx, s)
      else
        let (result, ctx, s) =
          (if \<not> cr_read_eos ctx \<and> Curl_bufq_is_empty (cr_chunkbuf ctx) then add_chunk mem trailer_callback nx ctx blen s
           else (CURLE_OK, ctx, s)) in
        if result \<noteq> CURLE_OK then (result, [], False, ctx, s)
        else if \<not> Curl_bufq_is_empty (cr_chunkbuf ctx) then
          (case Curl_bufq_cread (cr_chunkbuf ctx) blen of
             (result, got, q) \<Rightarrow>
               let ctx = ctx\<lparr>cr_chunkbuf := q\<rparr> in
               if result = CURLE_OK \<and> cr_read_eos ctx \<and> Curl_bufq_is_empty q then (result, got, True, ctx\<lparr>cr_eos := True\<rparr>, s)
               else (result, got, False, ctx, s))
        else (CURLE_OK, [], False, ctx, s))"

definition cr_chunked_total_length :: "chunked_reader \<Rightarrow> int" where
  "cr_chunked_total_length ctx = - 1"

end
