(* ===== verification/CurlTransfer.thy ===== *)
theory CurlTransfer
  imports CurlChunks
begin

text \<open>
  The chunked transfer encoding of curl: the decoder gives the same whatever pieces its input comes
  in, and what the encoder writes is decoded to what it has read.
\<close>

subsection \<open>Input in pieces\<close>

text \<open>A client to which it makes no difference how the data is cut.\<close>

definition writes_through :: "'s cwriter \<Rightarrow> bool" where
  "writes_through wr \<longleftrightarrow>
     (\<forall>s t a b. a \<noteq> [] \<longrightarrow> b \<noteq> [] \<longrightarrow>
        wr s t (a @ b) = (case wr s t a of (r, s') \<Rightarrow> if r = CURLE_OK then wr s' t b else (r, s')))"

text \<open>A turn in the data, with the bytes to be written and what is left.\<close>

definition data_write :: "'s cwriter \<Rightarrow> Curl_chunker \<Rightarrow> bytes \<Rightarrow> 's \<Rightarrow> CURLcode \<times> 's" where
  "data_write wr ch b s = (if hc_ignore_body ch then (CURLE_OK, s) else wr s CLIENTWRITE_BODY b)"

definition data_left :: "Curl_chunker \<Rightarrow> nat \<Rightarrow> Curl_chunker" where
  "data_left ch n = (if hc_datasize ch \<le> n then ch\<lparr>hc_datasize := 0, hc_state := CHUNK_POSTLF\<rparr> else ch\<lparr>hc_datasize := hc_datasize ch - n\<rparr>)"

lemma chunk_data_eq:
  "chunk_data False wr ch buf s =
     (case data_write wr ch (take (hc_datasize ch) buf) s of
        (r, s') \<Rightarrow> if r \<noteq> CURLE_OK then (Some r, 0, chunk_failed CHUNKE_PASSTHRU_ERROR ch, s')
          else (None, min (hc_datasize ch) (length buf), data_left ch (length buf), s'))"
proof (cases "hc_datasize ch < length buf")
  case True
  then show ?thesis by (auto simp: chunk_data_def data_write_def data_left_def Let_def split: prod.split)
next
  case False
  then show ?thesis
    by (cases "hc_datasize ch = length buf") (auto simp: chunk_data_def data_write_def data_left_def Let_def split: prod.split)
qed

lemma data_write_cut:
  assumes "writes_through wr" and "a \<noteq> []" and "b \<noteq> []"
  shows "data_write wr ch (a @ b) s = (case data_write wr ch a s of (r, s') \<Rightarrow> if r = CURLE_OK then data_write wr ch b s' else (r, s'))"
  using assms by (auto simp: data_write_def writes_through_def split: prod.split)

lemma chunk_step_front:
  assumes "a \<noteq> []" and "b \<noteq> []" and "hc_state ch \<noteq> CHUNK_STOP" and "hc_state ch = CHUNK_DATA \<Longrightarrow> hc_datasize ch \<le> length a"
  shows "chunk_step alloc False wr ch (a @ b) s = chunk_step alloc False wr ch a s"
proof (cases "hc_state ch = CHUNK_DATA")
  case True
  then have "min (hc_datasize ch) (length (a @ b)) = min (hc_datasize ch) (length a)" "data_left ch (length (a @ b)) = data_left ch (length a)"
    using assms(4) by (simp_all add: data_left_def)
  then show ?thesis using assms(4) True by (auto simp: chunk_step_def chunk_data_eq split: prod.split)
next
  case False
  then show ?thesis using assms(1,3) by (cases "hc_state ch") (simp_all add: chunk_step_def)
qed

text \<open>Data that does not end in the first piece.\<close>

lemma chunk_data_cut:
  assumes "writes_through wr" and "a \<noteq> []" and "b \<noteq> []" and "length a < hc_datasize ch"
    and "chunk_data False wr ch a s = (None, n, ch1, s1)"
  shows "n = length a \<and> ch1 = ch\<lparr>hc_datasize := hc_datasize ch - length a\<rparr> \<and>
    (case chunk_data False wr ch1 b s1 of
       (None, m, ch2, s2) \<Rightarrow> chunk_data False wr ch (a @ b) s = (None, length a + m, ch2, s2)
     | (Some r, m, ch2, s2) \<Rightarrow> r \<noteq> CURLE_OK \<and> (\<exists>ch'. chunk_data False wr ch (a @ b) s = (Some r, 0, ch', s2) \<and>
         hc_state ch' = hc_state ch2 \<and> hc_last_code ch' = hc_last_code ch2))"
proof -
  let ?ch = "ch\<lparr>hc_datasize := hc_datasize ch - length a\<rparr>"
  have 1: "data_write wr ch a s = (CURLE_OK, s1)" "n = length a" "ch1 = ?ch"
    using assms(4,5) by (auto simp: chunk_data_eq data_left_def split: prod.splits if_splits)
  have b: "take (hc_datasize ch - length a) b \<noteq> []" using assms(3,4) by simp
  have w: "data_write wr ch (take (hc_datasize ch) (a @ b)) s = data_write wr ?ch (take (hc_datasize ch - length a) b) s1"
    using data_write_cut [OF assms(1,2) b, of ch s] 1(1) assms(4) by (simp add: data_write_def)
  obtain r s2 where r: "data_write wr ?ch (take (hc_datasize ch - length a) b) s1 = (r, s2)" by fastforce
  have left: "data_left ?ch (length b) = data_left ch (length (a @ b))" using assms(4) by (auto simp: data_left_def)
  have "min (hc_datasize ch) (length (a @ b)) = length a + min (hc_datasize ch - length a) (length b)" using assms(4) by simp
  then show ?thesis using 1(2,3) w r left assms(4) by (auto simp: chunk_data_eq chunk_failed_def)
qed

text \<open>
  The same decoder, but for the bytes left over, which the decoder counts when it is done.
\<close>

definition same_chunker :: "Curl_chunker \<Rightarrow> Curl_chunker \<Rightarrow> bool" where
  "same_chunker ch ch' \<longleftrightarrow> (\<exists>n. ch' = ch\<lparr>hc_datasize := n\<rparr> \<and> (hc_state ch \<noteq> CHUNK_DONE \<longrightarrow> ch' = ch))"

lemma same_chunker_refl [simp]: "same_chunker ch ch" by (auto simp: same_chunker_def intro: exI [of _ "hc_datasize ch"])

lemma chunk_loop_Nil [simp]: "chunk_loop alloc te wr ch [] s = (CURLE_OK, 0, ch, s)"
  by (simp add: chunk_loop.simps)

lemma chunk_loop_done: "hc_state ch = CHUNK_DONE \<Longrightarrow> chunk_loop alloc te wr ch buf s = (CURLE_OK, 0, ch, s)"
  by (simp add: chunk_loop.simps chunk_step_def)

definition cut_result :: "CURLcode \<times> nat \<times> Curl_chunker \<times> 's \<Rightarrow> nat \<Rightarrow> CURLcode \<times> nat \<times> Curl_chunker \<times> 's \<Rightarrow> bool" where
  "cut_result whole n second \<longleftrightarrow>
     (case (whole, second) of
        ((r', k, ch', s'), (r, m, ch, s)) \<Rightarrow>
          r' = r \<and> s' = s \<and> hc_state ch' = hc_state ch \<and> hc_last_code ch' = hc_last_code ch \<and>
          (r = CURLE_OK \<longrightarrow> k = n + m \<and> same_chunker ch ch'))"

lemma cut_result_refl: "cut_result (r, n + m, ch, s) n (r, m, ch, s)"
  by (simp add: cut_result_def)

lemma chunk_step_ends:
  assumes "a \<noteq> []" and "chunk_step alloc False wr ch a s = (Some CURLE_OK, n, ch1, s1)"
  shows "hc_state ch1 = CHUNK_DONE \<and> (\<exists>d. chunk_step alloc False wr ch (a @ b) s = (Some CURLE_OK, n, ch1\<lparr>hc_datasize := d\<rparr>, s1))"
proof (cases "hc_state ch")
  case CHUNK_DATA
  then show ?thesis using assms by (auto simp: chunk_step_def chunk_data_eq split: prod.splits if_splits)
next
  case CHUNK_TRAILER
  then show ?thesis using assms
    by (auto simp: chunk_step_def chunk_trailer_def Let_def split: if_splits option.splits prod.splits)
next
  case CHUNK_HEX
  then show ?thesis using assms by (auto simp: chunk_step_def chunk_hex_def Let_def split: if_splits sum.splits)
next
  case CHUNK_DONE
  then show ?thesis using assms by (auto simp: chunk_step_def intro: exI [of _ "hc_datasize ch"])
next
  case CHUNK_STOP
  then show ?thesis using assms by (auto simp: chunk_step_def chunk_stop_def intro: exI [of _ "length (a @ b) - 1"] split: if_splits)
qed (use assms in \<open>auto simp: chunk_step_def chunk_lf_def chunk_postlf_def chunk_trailer_cr_def chunk_postcr_def split: if_splits\<close>)

lemma chunk_loop_cut:
  "writes_through wr \<Longrightarrow> b \<noteq> [] \<Longrightarrow> chunk_loop alloc False wr ch a s = (CURLE_OK, n, ch1, s1) \<Longrightarrow>
    cut_result (chunk_loop alloc False wr ch (a @ b) s) n (chunk_loop alloc False wr ch1 b s1)"
proof (induction alloc False wr ch a s arbitrary: n ch1 s1 rule: chunk_loop.induct)
  case (1 alloc wr ch a s)
  note run = "1.prems"(3) [unfolded chunk_loop.simps [of alloc False wr ch a s]]
  show ?case
  proof (cases "a = []")
    case True
    then show ?thesis using run cut_result_refl [of _ 0] by (cases "chunk_loop alloc False wr ch b s") auto
  next
    case False
    obtain opt n0 ch0 s0 where step: "chunk_step alloc False wr ch a s = (opt, n0, ch0, s0)" by (metis prod_cases4)
    show ?thesis
    proof (cases opt)
      case (Some r)
      then have "r = CURLE_OK" "n = n0" "ch1 = ch0" "s1 = s0" using run False step by auto
      then show ?thesis
        using chunk_step_ends [OF False, of alloc wr ch s n0 ch0 s0 b] step Some False
        by (auto simp: chunk_loop.simps [of alloc False wr ch "a @ b" s] chunk_loop_done cut_result_def same_chunker_def)
    next
      case None
      obtain r m where rest: "chunk_loop alloc False wr ch0 (drop n0 a) s0 = (CURLE_OK, m, ch1, s1)" "n = n0 + m"
        using run False step None by (auto split: prod.splits)
      show ?thesis
      proof (cases "hc_state ch = CHUNK_DATA \<and> length a < hc_datasize ch")
        case True
        then have st: "chunk_data False wr ch a s = (None, n0, ch0, s0)" using step None by (simp add: chunk_step_def)
        note cut = chunk_data_cut [OF "1.prems"(1) False "1.prems"(2) conjunct2 [OF True] st]
        then have "n = length a" "ch1 = ch0" "s1 = s0" "hc_state ch0 = CHUNK_DATA"
          using rest True by auto
        moreover obtain o2 m2 ch2 s2 where d: "chunk_data False wr ch0 b s0 = (o2, m2, ch2, s2)" by (metis prod_cases4)
        moreover have "chunk_loop alloc False wr ch0 b s0 =
            (case o2 of Some r \<Rightarrow> (r, m2, ch2, s2)
              | None \<Rightarrow> (case chunk_loop alloc False wr ch2 (drop m2 b) s2 of (r, m, ch, s) \<Rightarrow> (r, m2 + m, ch, s)))"
          using d "1.prems"(2) calculation(4) by (simp add: chunk_loop.simps [of alloc False wr ch0 b s0] chunk_step_def split: option.split prod.split)
        ultimately show ?thesis using cut True False
          by (auto simp: chunk_loop.simps [of alloc False wr ch "a @ b" s] chunk_step_def cut_result_def split: prod.splits option.splits)
      next
        case other: False
        have "hc_state ch \<noteq> CHUNK_STOP" using step None by (auto simp: chunk_step_def chunk_stop_def split: if_splits)
        then have "chunk_step alloc False wr ch (a @ b) s = (None, n0, ch0, s0)"
          using chunk_step_front [OF False "1.prems"(2), of ch alloc wr s] other step None by auto
        moreover have "n0 \<le> length a" using chunk_step_progress(1) [OF False step [unfolded None]] .
        ultimately have "chunk_loop alloc False wr ch (a @ b) s =
            (case chunk_loop alloc False wr ch0 (drop n0 a @ b) s0 of (r, m, ch, s) \<Rightarrow> (r, n0 + m, ch, s))"
          using False by (simp add: chunk_loop.simps [of alloc False wr ch "a @ b" s] split: prod.split)
        moreover have "cut_result (chunk_loop alloc False wr ch0 (drop n0 a @ b) s0) m (chunk_loop alloc False wr ch1 b s1)"
          using "1.hyps" [OF False step [symmetric] None refl refl "1.prems"(1,2) rest(1)] .
        ultimately show ?thesis using rest(2) by (auto simp: cut_result_def split: prod.splits)
      qed
    qed
  qed
qed

text \<open>
  C23: the decoder gives the same whatever pieces the response comes in: when a first piece is decoded
  without error, the two pieces together are decoded to the result, the data for the client and the
  state that decoding the second piece after the first one gives, and as many bytes are consumed.
\<close>

theorem chunks_in_pieces:
  assumes "writes_through wr" and "Curl_httpchunk_read alloc False wr ch a s = (CURLE_OK, n, ch1, s1)" and "b \<noteq> []"
  shows "cut_result (Curl_httpchunk_read alloc False wr ch (a @ b) s) n (Curl_httpchunk_read alloc False wr ch1 b s1)"
proof (cases "hc_state ch = CHUNK_DONE \<or> hc_state ch = CHUNK_FAILED")
  case True
  then show ?thesis using assms(2) by (auto simp: Curl_httpchunk_read_def httpchunk_readwrite_def cut_result_def)
next
  case False
  then have "chunk_loop alloc False wr ch a s = (CURLE_OK, n, ch1, s1)"
    using assms(2) by (simp add: Curl_httpchunk_read_def httpchunk_readwrite_def)
  from chunk_loop_cut [OF assms(1,3) this] False
  have c: "cut_result (Curl_httpchunk_read alloc False wr ch (a @ b) s) n (chunk_loop alloc False wr ch1 b s1)"
    by (simp add: Curl_httpchunk_read_def httpchunk_readwrite_def)
  have "chunk_loop alloc False wr ch1 b s1 = Curl_httpchunk_read alloc False wr ch1 b s1"
    using assms(3) by (auto simp: Curl_httpchunk_read_def httpchunk_readwrite_def chunk_loop.simps [of alloc False wr ch1 b s1] chunk_step_def)
  then show ?thesis using c by simp
qed


text \<open>A client that keeps what it is given.\<close>

definition keep :: "(int \<times> u8) list cwriter" where
  "keep s kind b = (CURLE_OK, s @ map (Pair kind) b)"

lemma keep_through: "writes_through keep"
  by (simp add: writes_through_def keep_def)

definition new_chunker :: Curl_chunker where
  "new_chunker = Curl_httpchunk_init \<lparr>hc_datasize = 0, hc_state = CHUNK_HEX, hc_last_code = CHUNKE_OK, hc_trailer = curlx_dyn_init 0,
     hc_hexindex = 0, hc_hexbuffer = replicate 17 0, hc_ignore_body = False\<rparr> False"

theorem chunks_in_pieces_witness:
  "case Curl_httpchunk_read (\<lambda>_. True) False keep new_chunker [0x33, 0x0D, 0x0A, 7] [] of
     (r, n, ch, s) \<Rightarrow>
       r = CURLE_OK \<and> s = [(CLIENTWRITE_BODY, 7)] \<and>
       cut_result (Curl_httpchunk_read (\<lambda>_. True) False keep new_chunker ([0x33, 0x0D, 0x0A, 7] @ [8, 9, 0x0D, 0x0A]) []) n
         (Curl_httpchunk_read (\<lambda>_. True) False keep ch [8, 9, 0x0D, 0x0A] s)"
proof -
  obtain r n ch s where run: "Curl_httpchunk_read (\<lambda>_. True) False keep new_chunker [0x33, 0x0D, 0x0A, 7] [] = (r, n, ch, s)" by (metis prod_cases4)
  moreover have "fst (Curl_httpchunk_read (\<lambda>_. True) False keep new_chunker [0x33, 0x0D, 0x0A, 7] []) = CURLE_OK"
    "snd (snd (snd (Curl_httpchunk_read (\<lambda>_. True) False keep new_chunker [0x33, 0x0D, 0x0A, 7] []))) = [(CLIENTWRITE_BODY, 7)]"
    by code_simp+
  ultimately show ?thesis using chunks_in_pieces [OF keep_through, of "\<lambda>_. True" new_chunker "[0x33, 0x0D, 0x0A, 7]" "[]" n ch s] by simp
qed

subsection \<open>Sizes\<close>

lemma ldigits: "list_all (\<lambda>n. valid_digit (Curl_ldigits ! n) 0x66 \<and> ISXDIGIT (Curl_ldigits ! n) \<and> unat (Curl_hexval (Curl_ldigits ! n)) = n) [0..<16]"
  by code_simp

lemma ldigit: "n < 16 \<Longrightarrow> valid_digit (Curl_ldigits ! n) 0x66" "n < 16 \<Longrightarrow> ISXDIGIT (Curl_ldigits ! n)"
  "n < 16 \<Longrightarrow> unat (Curl_hexval (Curl_ldigits ! n)) = n"
  using ldigits by (simp_all add: list_all_iff)

lemma show_hex_digits: "list_all ISXDIGIT (show_hex n)"
  by (induction n rule: show_hex.induct) (subst show_hex.simps, auto simp: ldigit)

lemma show_hex_nonempty [simp]: "show_hex n \<noteq> []"
  by (subst show_hex.simps) simp

lemma show_hex_length: "n < 16 ^ k \<Longrightarrow> 0 < k \<Longrightarrow> length (show_hex n) \<le> k"
proof (induction n arbitrary: k rule: show_hex.induct)
  case (1 n)
  show ?case
  proof (cases "n < 16")
    case True
    then show ?thesis using "1.prems" by (subst show_hex.simps) simp
  next
    case False
    then obtain j where k: "k = Suc j" "0 < j" using "1.prems" by (cases k; cases "k = 1") auto
    then have "n div 16 < 16 ^ j" using "1.prems"(1) by (simp add: less_mult_imp_div_less mult.commute)
    then show ?thesis using "1.IH" [OF False] k False by (subst show_hex.simps) simp
  qed
qed

lemma num_loop_hex:
  "int n \<le> maxn \<Longrightarrow> 16 \<le> maxn \<Longrightarrow> num_loop maxn 16 0x66 0 (show_hex n @ rest) = num_loop maxn 16 0x66 (int n) rest"
proof (induction n arbitrary: rest rule: show_hex.induct)
  case (1 n)
  have step: "num_step maxn 16 (int (n div 16)) (Curl_ldigits ! (n mod 16)) = Some (int n)"
  proof -
    have "int (n div 16) * 16 + int (n mod 16) = int n" by presburger
    moreover from this "1.prems"(1) have "int (n div 16) \<le> (maxn - int (n mod 16)) div 16" by linarith
    ultimately show ?thesis using "1.prems"(2) by (simp add: num_step_def ldigit Let_def)
  qed
  show ?case
  proof (cases "n < 16")
    case True
    then show ?thesis using step ldigit [of n] by (subst show_hex.simps) simp
  next
    case False
    have "int (n div 16) \<le> maxn" using "1.prems"(1) by linarith
    then show ?thesis using "1.IH" [OF False _ "1.prems"(2)] step ldigit [of "n mod 16"] False by (subst show_hex.simps) simp
  qed
qed

lemma curlx_str_hex_shown: "int n \<le> CURL_OFF_T_MAX \<Longrightarrow> curlx_str_hex (show_hex n) CURL_OFF_T_MAX = Inr (int n, [])"
proof -
  assume n: "int n \<le> CURL_OFF_T_MAX"
  have "valid_digit (hd (show_hex n)) 0x66"
    by (induction n rule: show_hex.induct) (subst show_hex.simps, auto simp: ldigit)
  then show ?thesis using num_loop_hex [OF n, of "[]"] by (simp add: curlx_str_hex_def str_num_base_def CURL_OFF_T_MAX_def)
qed

subsection \<open>Decoding what is coded\<close>

text \<open>A chunk with the data, none for no data.\<close>

definition chunk_coded :: "bytes \<Rightarrow> bytes" where
  "chunk_coded d = (if d = [] then [] else show_hex (length d) @ [0x0D, 0x0A] @ d @ [0x0D, 0x0A])"

definition last_chunk :: bytes where
  "last_chunk = [c_zero, 0x0D, 0x0A, 0x0D, 0x0A]"

definition takes_body :: "'s cwriter \<Rightarrow> ('s \<Rightarrow> bytes) \<Rightarrow> bool" where
  "takes_body wr log \<longleftrightarrow> (\<forall>s b. fst (wr s CLIENTWRITE_BODY b) = CURLE_OK \<and> log (snd (wr s CLIENTWRITE_BODY b)) = log s @ b)"

definition fresh_chunker :: "Curl_chunker \<Rightarrow> bool" where
  "fresh_chunker ch \<longleftrightarrow> hc_state ch = CHUNK_HEX \<and> hc_hexindex ch = 0 \<and> length (hc_hexbuffer ch) = 17 \<and>
     dy_bufr (hc_trailer ch) = None \<and> \<not> hc_ignore_body ch"

definition moved_on :: "nat \<Rightarrow> CURLcode \<times> nat \<times> Curl_chunker \<times> 's \<Rightarrow> CURLcode \<times> nat \<times> Curl_chunker \<times> 's" where
  "moved_on n res = (case res of (r, m, ch, s) \<Rightarrow> (r, n + m, ch, s))"

lemma moved_on_twice [simp]: "moved_on n (moved_on m res) = moved_on (n + m) res"
  by (cases res) (simp add: moved_on_def)

lemma chunk_loop_turn:
  "buf \<noteq> [] \<Longrightarrow> chunk_step alloc te wr ch buf s = (None, n, ch', s') \<Longrightarrow>
    chunk_loop alloc te wr ch buf s = moved_on n (chunk_loop alloc te wr ch' (drop n buf) s')"
  by (simp add: chunk_loop.simps [of alloc te wr ch buf s] moved_on_def split: prod.split)

lemma hex_run:
  "list_all ISXDIGIT ds \<Longrightarrow> hc_state ch = CHUNK_HEX \<Longrightarrow> hc_hexindex ch + length ds \<le> 16 \<Longrightarrow> length (hc_hexbuffer ch) = 17 \<Longrightarrow>
    chunk_loop alloc te wr ch (ds @ rest) s =
      moved_on (length ds) (chunk_loop alloc te wr (ch\<lparr>hc_hexbuffer := memcpy_at (hc_hexindex ch) ds (hc_hexbuffer ch),
        hc_hexindex := hc_hexindex ch + length ds\<rparr>) rest s)"
proof (induction ds arbitrary: ch)
  case Nil
  then show ?case by (simp add: moved_on_def split: prod.split)
next
  case (Cons d ds)
  let ?ch = "ch\<lparr>hc_hexbuffer := (hc_hexbuffer ch)[hc_hexindex ch := d], hc_hexindex := hc_hexindex ch + 1\<rparr>"
  have "chunk_step alloc te wr ch ((d # ds) @ rest) s = (None, 1, ?ch, s)"
    using Cons.prems by (simp add: chunk_step_def chunk_hex_def CHUNK_MAXNUM_LEN_def)
  then have "chunk_loop alloc te wr ch ((d # ds) @ rest) s = moved_on 1 (chunk_loop alloc te wr ?ch (ds @ rest) s)"
    using chunk_loop_turn [of "(d # ds) @ rest" alloc te wr ch s 1 ?ch s] by simp
  moreover have "memcpy_at (hc_hexindex ch + 1) ds ((hc_hexbuffer ch)[hc_hexindex ch := d]) = memcpy_at (hc_hexindex ch) (d # ds) (hc_hexbuffer ch)"
    using Cons.prems(3,4) by (simp add: memcpy_at_def take_Suc_conv_app_nth list_update_append drop_update_cancel)
  ultimately show ?case using Cons.IH [of ?ch] Cons.prems by simp
qed

lemma header_run:
  assumes "fresh_chunker ch" and "int n \<le> CURL_OFF_T_MAX"
  shows "\<exists>hb i. length hb = 17 \<and> chunk_loop alloc te wr ch (show_hex n @ [0x0D, 0x0A] @ rest) s =
    moved_on (length (show_hex n) + 2) (chunk_loop alloc te wr
      (ch\<lparr>hc_hexbuffer := hb, hc_hexindex := i, hc_datasize := n, hc_state := if n = 0 then CHUNK_TRAILER else CHUNK_DATA\<rparr>) rest s)"
proof -
  let ?ds = "show_hex n" and ?rest = "[0x0D, 0x0A] @ rest"
  have n: "n < 16 ^ 16" using assms(2) by (simp add: CURL_OFF_T_MAX_def)
  then have len: "length ?ds \<le> 16" using show_hex_length [of n 16] by simp
  define hb where "hb = ?ds @ 0 # drop (length ?ds + 1) (hc_hexbuffer ch)"
  define ch1 where "ch1 = ch\<lparr>hc_hexbuffer := memcpy_at 0 ?ds (hc_hexbuffer ch), hc_hexindex := length ?ds\<rparr>"
  define ch2 where "ch2 = ch\<lparr>hc_hexbuffer := hb, hc_hexindex := length ?ds, hc_datasize := n, hc_state := CHUNK_LF\<rparr>"
  define ch3 where "ch3 = ch2\<lparr>hc_state := if n = 0 then CHUNK_TRAILER else CHUNK_DATA\<rparr>"
  have f: "hc_state ch = CHUNK_HEX" "hc_hexindex ch = 0" "length (hc_hexbuffer ch) = 17" using assms(1) by (simp_all add: fresh_chunker_def)
  have 1: "chunk_loop alloc te wr ch (?ds @ ?rest) s = moved_on (length ?ds) (chunk_loop alloc te wr ch1 ?rest s)"
    using hex_run [OF show_hex_digits f(1) _ f(3), of n alloc te wr ?rest s] len f(2) by (simp add: ch1_def)
  have no: "\<not> ISXDIGIT 0x0D" "\<not> ISXDIGIT 0" by code_simp+
  have hb: "(memcpy_at 0 ?ds (hc_hexbuffer ch))[length ?ds := 0] = hb" "length hb = 17"
    using len f(3) by (simp_all add: memcpy_at_def hb_def list_update_append Cons_nth_drop_Suc [symmetric])
  have "c_nul \<notin> set ?ds" using show_hex_digits [of n] no(2) by (auto simp: list_all_iff)
  then have "cstr hb = ?ds" by (simp add: hb_def cstr_terminated)
  then have "chunk_step alloc te wr ch1 ?rest s = (None, 0, ch2, s)"
    using f hb no curlx_str_hex_shown [OF assms(2)] by (simp add: chunk_step_def chunk_hex_def ch1_def ch2_def Let_def)
  moreover have "chunk_step alloc te wr ch2 ?rest s = (None, 1, ch2, s)" "chunk_step alloc te wr ch2 (0x0A # rest) s = (None, 1, ch3, s)"
    by (simp_all add: chunk_step_def chunk_lf_def ch2_def ch3_def)
  ultimately have "chunk_loop alloc te wr ch1 ?rest s = moved_on 2 (chunk_loop alloc te wr ch3 rest s)"
    using chunk_loop_turn [of ?rest alloc te wr ch1 s 0 ch2 s] chunk_loop_turn [of ?rest alloc te wr ch2 s 1 ch2 s]
      chunk_loop_turn [of "0x0A # rest" alloc te wr ch2 s 1 ch3 s] by (simp add: numeral_2_eq_2)
  then show ?thesis using 1 hb(2) by (auto simp: ch3_def ch2_def)
qed

lemma coded_run:
  assumes "fresh_chunker ch" and "takes_body wr log" and "int (length d) \<le> CURL_OFF_T_MAX"
  shows "\<exists>ch' s'. fresh_chunker ch' \<and> log s' = log s @ d \<and>
    chunk_loop alloc False wr ch (chunk_coded d @ rest) s = moved_on (length (chunk_coded d)) (chunk_loop alloc False wr ch' rest s')"
proof (cases "d = []")
  case True
  then show ?thesis using assms(1) by (auto simp: chunk_coded_def moved_on_def split: prod.split)
next
  case False
  obtain hb i where hb: "length hb = 17" and 1: "chunk_loop alloc False wr ch (show_hex (length d) @ [0x0D, 0x0A] @ d @ [0x0D, 0x0A] @ rest) s =
      moved_on (length (show_hex (length d)) + 2) (chunk_loop alloc False wr
        (ch\<lparr>hc_hexbuffer := hb, hc_hexindex := i, hc_datasize := length d, hc_state := CHUNK_DATA\<rparr>) (d @ [0x0D, 0x0A] @ rest) s)"
    using header_run [OF assms(1,3), of alloc False wr "d @ [0x0D, 0x0A] @ rest" s] False by auto
  define ch1 where "ch1 = ch\<lparr>hc_hexbuffer := hb, hc_hexindex := i, hc_datasize := length d, hc_state := CHUNK_DATA\<rparr>"
  define ch2 where "ch2 = ch1\<lparr>hc_datasize := 0, hc_state := CHUNK_POSTLF\<rparr>"
  define ch3 where "ch3 = Curl_httpchunk_reset ch2 (hc_ignore_body ch2)"
  obtain s1 where w: "wr s CLIENTWRITE_BODY d = (CURLE_OK, s1)" "log s1 = log s @ d"
    using assms(2) by (metis takes_body_def prod.collapse)
  have "\<not> hc_ignore_body ch" using assms(1) by (simp add: fresh_chunker_def)
  then have "chunk_step alloc False wr ch1 (d @ [0x0D, 0x0A] @ rest) s = (None, length d, ch2, s1)"
    using w by (simp add: chunk_step_def chunk_data_eq data_write_def data_left_def ch1_def ch2_def)
  moreover have "chunk_step alloc False wr ch2 ([0x0D, 0x0A] @ rest) s1 = (None, 1, ch2, s1)"
    "chunk_step alloc False wr ch2 (0x0A # rest) s1 = (None, 1, ch3, s1)"
    by (simp_all add: chunk_step_def chunk_postlf_def ch2_def ch3_def)
  ultimately have "chunk_loop alloc False wr ch1 (d @ [0x0D, 0x0A] @ rest) s = moved_on (length d + 2) (chunk_loop alloc False wr ch3 rest s1)"
    using chunk_loop_turn [of "d @ [0x0D, 0x0A] @ rest" alloc False wr ch1 s "length d" ch2 s1]
      chunk_loop_turn [of "[0x0D, 0x0A] @ rest" alloc False wr ch2 s1 1 ch2 s1] chunk_loop_turn [of "0x0A # rest" alloc False wr ch2 s1 1 ch3 s1]
    by simp
  moreover have "fresh_chunker ch3"
    using assms(1) hb by (simp add: fresh_chunker_def ch3_def ch2_def ch1_def Curl_httpchunk_reset_def curlx_dyn_reset_def)
  ultimately show ?thesis using 1 w(2) False by (auto simp: chunk_coded_def ch1_def [symmetric] intro!: exI [of _ ch3] exI [of _ s1])
qed

lemma no_trailer_run:
  assumes "hc_state ch = CHUNK_TRAILER" and "dy_bufr (hc_trailer ch) = None"
  shows "chunk_loop alloc te wr ch [0x0D, 0x0A] s = (CURLE_OK, 2, ch\<lparr>hc_datasize := 0, hc_state := CHUNK_DONE\<rparr>, s)"
proof -
  let ?ch1 = "ch\<lparr>hc_state := CHUNK_TRAILER_POSTCR\<rparr>" and ?ch2 = "ch\<lparr>hc_state := CHUNK_STOP\<rparr>"
  have "chunk_step alloc te wr ch [0x0D, 0x0A] s = (None, 0, ?ch1, s)"
    using assms by (simp add: chunk_step_def chunk_trailer_def curlx_dyn_ptr_def)
  moreover have "chunk_step alloc te wr ?ch1 [0x0D, 0x0A] s = (None, 1, ?ch2, s)"
    by (simp add: chunk_step_def chunk_postcr_def)
  moreover have "chunk_loop alloc te wr ?ch2 [0x0A] s = (CURLE_OK, 1, ch\<lparr>hc_datasize := 0, hc_state := CHUNK_DONE\<rparr>, s)"
    by (simp add: chunk_loop.simps chunk_step_def chunk_stop_def)
  ultimately show ?thesis
    using chunk_loop_turn [of "[0x0D, 0x0A]" alloc te wr ch s 0 ?ch1 s] chunk_loop_turn [of "[0x0D, 0x0A]" alloc te wr ?ch1 s 1 ?ch2 s]
    by (simp add: moved_on_def numeral_2_eq_2)
qed

lemma last_run:
  assumes "fresh_chunker ch"
  shows "\<exists>ch'. hc_state ch' = CHUNK_DONE \<and> chunk_loop alloc False wr ch last_chunk s = (CURLE_OK, length last_chunk, ch', s)"
proof -
  have z: "show_hex 0 = [c_zero]" by code_simp
  obtain hb i where 1: "chunk_loop alloc False wr ch last_chunk s =
      moved_on 3 (chunk_loop alloc False wr (ch\<lparr>hc_hexbuffer := hb, hc_hexindex := i, hc_datasize := 0, hc_state := CHUNK_TRAILER\<rparr>) [0x0D, 0x0A] s)"
    using header_run [OF assms, of 0 alloc False wr "[0x0D, 0x0A]" s] by (auto simp: z last_chunk_def CURL_OFF_T_MAX_def numeral_3_eq_3)
  have "dy_bufr (hc_trailer ch) = None" using assms by (simp add: fresh_chunker_def)
  then have "chunk_loop alloc False wr ch last_chunk s =
      (CURLE_OK, 5, ch\<lparr>hc_hexbuffer := hb, hc_hexindex := i, hc_datasize := 0, hc_state := CHUNK_DONE\<rparr>, s)"
    using no_trailer_run [of "ch\<lparr>hc_hexbuffer := hb, hc_hexindex := i, hc_datasize := 0, hc_state := CHUNK_TRAILER\<rparr>" alloc False wr s]
    by (simp add: 1 moved_on_def)
  moreover have "length last_chunk = 5" by (simp add: last_chunk_def)
  ultimately show ?thesis by simp
qed

lemma decode_coded:
  assumes "takes_body wr log" and "fresh_chunker ch" and "list_all (\<lambda>d. int (length d) \<le> CURL_OFF_T_MAX) ds"
  shows "\<exists>ch' s'. Curl_httpchunk_read alloc False wr ch (concat (map chunk_coded ds) @ last_chunk) s =
      (CURLE_OK, length (concat (map chunk_coded ds) @ last_chunk), ch', s') \<and> hc_state ch' = CHUNK_DONE \<and> log s' = log s @ concat ds"
proof -
  have "\<exists>ch' s'. chunk_loop alloc False wr ch (concat (map chunk_coded ds) @ last_chunk) s =
      (CURLE_OK, length (concat (map chunk_coded ds) @ last_chunk), ch', s') \<and> hc_state ch' = CHUNK_DONE \<and> log s' = log s @ concat ds"
    using assms(2,3)
  proof (induction ds arbitrary: ch s)
    case Nil
    then show ?case using last_run [of ch alloc wr s] by auto
  next
    case (Cons d ds)
    obtain ch1 s1 where 1: "fresh_chunker ch1" "log s1 = log s @ d"
      "chunk_loop alloc False wr ch (chunk_coded d @ concat (map chunk_coded ds) @ last_chunk) s =
        moved_on (length (chunk_coded d)) (chunk_loop alloc False wr ch1 (concat (map chunk_coded ds) @ last_chunk) s1)"
      using coded_run [OF Cons.prems(1) assms(1), of d s alloc "concat (map chunk_coded ds) @ last_chunk"] Cons.prems(2) by auto
    then show ?case using Cons.IH [OF 1(1), of s1] Cons.prems(2) by (auto simp: moved_on_def)
  qed
  then show ?thesis using assms(2) by (auto simp: Curl_httpchunk_read_def httpchunk_readwrite_def fresh_chunker_def)
qed

subsection \<open>Coding\<close>

text \<open>
  What the coded body is read from: it gives at least a byte or says that there are no more.
\<close>

definition body_reader :: "'s creader \<Rightarrow> ('s \<Rightarrow> bytes) \<Rightarrow> bool" where
  "body_reader nx src \<longleftrightarrow>
     (\<forall>s n. 0 < n \<longrightarrow>
        (case nx s n of (r, got, e, s') \<Rightarrow>
           r = CURLE_OK \<and> length got \<le> n \<and> src s = got @ src s' \<and> (e \<longrightarrow> src s' = []) \<and> (got \<noteq> [] \<or> e)))"

definition enc_inv :: "bufq \<Rightarrow> bool" where
  "enc_inv q \<longleftrightarrow> bufq_inv q \<and> bq_soft q \<and> bq_chunk_size q = CURL_CHUNKED_MAXLEN"

lemma cr_write_ok:
  assumes "enc_inv (cr_chunkbuf ctx)"
  shows "\<exists>q. cr_write (\<lambda>_. True) ctx buf = (CURLE_OK, ctx\<lparr>cr_chunkbuf := q\<rparr>) \<and> enc_inv q \<and> bufq_data q = bufq_data (cr_chunkbuf ctx) @ buf"
proof -
  obtain r n q where w: "Curl_bufq_write (\<lambda>_. True) (cr_chunkbuf ctx) buf = (r, n, q)" by (metis prod_cases3)
  from write_ok [OF _ w] assms show ?thesis using w
    by (auto simp: enc_inv_def same_kind_def CURL_CHUNKED_MAXLEN_def cr_write_def Curl_bufq_cwrite_def)
qed

lemma bufq_empty_data:
  assumes "bufq_inv q"
  shows "Curl_bufq_is_empty q \<longleftrightarrow> bufq_data q = []"
proof (cases "bq_chunks q")
  case (Cons c cs)
  then have ok: "chunk_ok (bq_chunk_size q) c" and full: "cs \<noteq> [] \<longrightarrow> ck_r c < ck_w c" using assms by (auto simp: bufq_inv_def)
  have "chunk_is_empty c \<longleftrightarrow> chunk_peek c = []" using ok by (auto simp: chunk_ok_def chunk_is_empty_def chunk_peek_def)
  then show ?thesis using Cons full by (cases cs) (auto simp: Curl_bufq_is_empty_def bufq_data_def chunk_is_empty_def)
qed (simp add: Curl_bufq_is_empty_def bufq_data_def)

lemma read_drains:
  assumes "enc_inv q" and "0 < n" and "bufq_data q \<noteq> []"
  shows "\<exists>q'. Curl_bufq_cread q n = (CURLE_OK, take n (bufq_data q), q') \<and> enc_inv q' \<and> bufq_data q' = drop n (bufq_data q)"
proof -
  obtain r got q' where r: "Curl_bufq_read q n = (r, got, q')" by (metis prod_cases3)
  from read_ok [OF _ r] assms show ?thesis using r by (auto simp: enc_inv_def same_kind_def Curl_bufq_cread_def)
qed

text \<open>A chunk is put together from what one read gives, and the last chunk follows it at the end.\<close>

lemma add_chunk_ok:
  assumes "body_reader nx src" and "enc_inv (cr_chunkbuf ctx)" and "\<not> cr_read_eos ctx"
  shows "\<exists>d e q s'. add_chunk (\<lambda>_. True) None nx ctx blen s = (CURLE_OK, ctx\<lparr>cr_read_eos := e, cr_chunkbuf := q\<rparr>, s') \<and>
    enc_inv q \<and> bufq_data q = bufq_data (cr_chunkbuf ctx) @ chunk_coded d @ (if e then last_chunk else []) \<and>
    length d \<le> CURL_CHUNKED_MAXLEN \<and> src s = d @ src s' \<and> (e \<longrightarrow> src s' = []) \<and> (d \<noteq> [] \<or> e)"
proof -
  define ask where "ask = (if min blen CURL_CHUNKED_MAXLEN < CURL_CHUNKED_MINLEN then CURL_CHUNKED_MINLEN else min blen CURL_CHUNKED_MAXLEN - (8 + 2 + 2))"
  have ask: "0 < ask" "ask \<le> CURL_CHUNKED_MAXLEN" unfolding ask_def CURL_CHUNKED_MAXLEN_def CURL_CHUNKED_MINLEN_def by (auto simp: min_def)
  obtain r d e s' where nx: "nx s ask = (r, d, e, s')" by (metis prod_cases4)
  have d: "r = CURLE_OK" "length d \<le> ask" "src s = d @ src s'" "e \<longrightarrow> src s' = []" "d \<noteq> [] \<or> e"
    using assms(1) [unfolded body_reader_def, rule_format, OF ask(1), of s] nx by auto
  let ?ctx = "ctx\<lparr>cr_read_eos := e\<rparr>"
  have ctx: "(if e then ctx\<lparr>cr_read_eos := True\<rparr> else ctx) = ?ctx" using assms(3) by (cases ctx) simp
  have put: "\<exists>q. put_chunk (\<lambda>_. True) ?ctx d = (CURLE_OK, ?ctx\<lparr>cr_chunkbuf := q\<rparr>) \<and> enc_inv q \<and> bufq_data q = bufq_data (cr_chunkbuf ctx) @ chunk_coded d"
  proof (cases "d = []")
    case True
    then show ?thesis using assms(2) by (intro exI [of _ "cr_chunkbuf ctx"]) (simp add: put_chunk_def chunk_coded_def)
  next
    case False
    have "length d < 16 ^ 5" using d(2) ask(2) by (simp add: CURL_CHUNKED_MAXLEN_def)
    then have hd: "snprintf 11 (show_hex (length d) @ [0x0D, 0x0A]) = show_hex (length d) @ [0x0D, 0x0A]"
      using show_hex_length [of "length d" 5] by (simp add: snprintf_fits)
    obtain q1 where 1: "cr_write (\<lambda>_. True) ?ctx (show_hex (length d) @ [0x0D, 0x0A]) = (CURLE_OK, ?ctx\<lparr>cr_chunkbuf := q1\<rparr>)" "enc_inv q1"
      "bufq_data q1 = bufq_data (cr_chunkbuf ctx) @ show_hex (length d) @ [0x0D, 0x0A]"
      using cr_write_ok [of ?ctx] assms(2) by (auto simp del: append.simps)
    obtain q2 where 2: "cr_write (\<lambda>_. True) (?ctx\<lparr>cr_chunkbuf := q1\<rparr>) d = (CURLE_OK, ?ctx\<lparr>cr_chunkbuf := q2\<rparr>)" "enc_inv q2"
      "bufq_data q2 = bufq_data q1 @ d"
      using cr_write_ok [of "?ctx\<lparr>cr_chunkbuf := q1\<rparr>" d] 1(2) by auto
    obtain q3 where 3: "cr_write (\<lambda>_. True) (?ctx\<lparr>cr_chunkbuf := q2\<rparr>) [0x0D, 0x0A] = (CURLE_OK, ?ctx\<lparr>cr_chunkbuf := q3\<rparr>)" "enc_inv q3"
      "bufq_data q3 = bufq_data q2 @ [0x0D, 0x0A]"
      using cr_write_ok [of "?ctx\<lparr>cr_chunkbuf := q2\<rparr>" "[0x0D, 0x0A]"] 2(2) by auto
    show ?thesis using 1 2 3 False by (intro exI [of _ q3]) (simp add: put_chunk_def hd chunk_coded_def)
  qed
  then obtain q where q: "put_chunk (\<lambda>_. True) ?ctx d = (CURLE_OK, ?ctx\<lparr>cr_chunkbuf := q\<rparr>)" "enc_inv q" "bufq_data q = bufq_data (cr_chunkbuf ctx) @ chunk_coded d" by blast
  have run: "add_chunk (\<lambda>_. True) None nx ctx blen s =
      (if e then (case cr_write (\<lambda>_. True) (?ctx\<lparr>cr_chunkbuf := q\<rparr>) last_chunk of (result, ctx) \<Rightarrow> (result, ctx, s'))
       else (CURLE_OK, ?ctx\<lparr>cr_chunkbuf := q\<rparr>, s'))"
    unfolding add_chunk_def Let_def ask_def [symmetric] nx prod.case ctx q(1) using d(1)
    by (simp add: add_last_chunk_def last_chunk_def)
  show ?thesis
  proof (cases e)
    case False
    then show ?thesis using run q d ask(2) by auto
  next
    case True
    obtain q' where "cr_write (\<lambda>_. True) (?ctx\<lparr>cr_chunkbuf := q\<rparr>) last_chunk = (CURLE_OK, ?ctx\<lparr>cr_chunkbuf := q'\<rparr>)" "enc_inv q'"
      "bufq_data q' = bufq_data q @ last_chunk"
      using cr_write_ok [of "?ctx\<lparr>cr_chunkbuf := q\<rparr>" last_chunk] q(2) by auto
    then show ?thesis using run q d ask(2) True by auto
  qed
qed


text \<open>Reads of the given sizes, one after the other: the pieces they give and whether the end was reported.\<close>

fun cr_run :: "'s creader \<Rightarrow> chunked_reader \<Rightarrow> nat list \<Rightarrow> 's \<Rightarrow> bytes list \<times> bool \<times> 's" where
  "cr_run nx ctx [] s = ([], cr_eos ctx, s)"
| "cr_run nx ctx (n # ns) s =
     (case cr_chunked_read (\<lambda>_. True) None nx ctx n s of
        (r, got, e, ctx, s) \<Rightarrow> (case cr_run nx ctx ns s of (pieces, ended, s) \<Rightarrow> (got # pieces, ended, s)))"

text \<open>
  The state of the encoder: what was given out and what is in the queue are the chunks that were read, and
  the last one when the end was read.
\<close>

definition coding :: "('s \<Rightarrow> bytes) \<Rightarrow> bytes \<Rightarrow> bytes \<Rightarrow> bytes list \<Rightarrow> chunked_reader \<Rightarrow> 's \<Rightarrow> bool" where
  "coding src body out ds ctx s \<longleftrightarrow>
     enc_inv (cr_chunkbuf ctx) \<and>
     out @ bufq_data (cr_chunkbuf ctx) = concat (map chunk_coded ds) @ (if cr_read_eos ctx then last_chunk else []) \<and>
     body = concat ds @ src s \<and> list_all (\<lambda>d. int (length d) \<le> CURL_OFF_T_MAX) ds \<and>
     (cr_read_eos ctx \<longrightarrow> src s = []) \<and>
     (if cr_eos ctx then cr_read_eos ctx \<and> bufq_data (cr_chunkbuf ctx) = []
      else cr_read_eos ctx \<longrightarrow> bufq_data (cr_chunkbuf ctx) \<noteq> [])"

definition to_code :: "('s \<Rightarrow> bytes) \<Rightarrow> chunked_reader \<Rightarrow> 's \<Rightarrow> nat" where
  "to_code src ctx s = 10 * length (src s) + length (bufq_data (cr_chunkbuf ctx)) + (if cr_read_eos ctx then 0 else 5)"

lemma chunk_coded_length: "length d \<le> CURL_CHUNKED_MAXLEN \<Longrightarrow> length (chunk_coded d) \<le> 10 * length d"
proof -
  assume "length d \<le> CURL_CHUNKED_MAXLEN"
  then have "length (show_hex (length d)) \<le> 5" using show_hex_length [of "length d" 5] by (simp add: CURL_CHUNKED_MAXLEN_def)
  then show ?thesis by (cases d) (auto simp: chunk_coded_def)
qed

lemma fill_step:
  assumes "body_reader nx src" and "coding src body out ds ctx s" and "\<not> cr_eos ctx" and "\<not> cr_read_eos ctx"
    and "bufq_data (cr_chunkbuf ctx) = []"
  shows "\<exists>ctx1 s1 ds1. add_chunk (\<lambda>_. True) None nx ctx n s = (CURLE_OK, ctx1, s1) \<and> coding src body out ds1 ctx1 s1 \<and>
    \<not> cr_eos ctx1 \<and> bufq_data (cr_chunkbuf ctx1) \<noteq> [] \<and> to_code src ctx1 s1 \<le> to_code src ctx s"
proof -
  have inv: "enc_inv (cr_chunkbuf ctx)" and eq: "out = concat (map chunk_coded ds)" "body = concat ds @ src s"
    and all: "list_all (\<lambda>d. int (length d) \<le> CURL_OFF_T_MAX) ds"
    using assms(2,4,5) by (auto simp: coding_def)
  obtain d e q s1 where a: "add_chunk (\<lambda>_. True) None nx ctx n s = (CURLE_OK, ctx\<lparr>cr_read_eos := e, cr_chunkbuf := q\<rparr>, s1)"
      "enc_inv q" "bufq_data q = chunk_coded d @ (if e then last_chunk else [])" "length d \<le> CURL_CHUNKED_MAXLEN"
      "src s = d @ src s1" "e \<longrightarrow> src s1 = []" "d \<noteq> [] \<or> e"
    using add_chunk_ok [OF assms(1) inv assms(4), of n s] assms(5) by auto
  let ?ctx = "ctx\<lparr>cr_read_eos := e, cr_chunkbuf := q\<rparr>"
  have ne: "bufq_data q \<noteq> []" using a(3,7) by (auto simp: chunk_coded_def last_chunk_def)
  have "int (length d) \<le> CURL_OFF_T_MAX" using a(4) by (simp add: CURL_CHUNKED_MAXLEN_def CURL_OFF_T_MAX_def)
  then have "coding src body out (ds @ [d]) ?ctx s1" using a eq all ne assms(3) by (auto simp: coding_def)
  moreover have "to_code src ?ctx s1 \<le> to_code src ctx s"
    using chunk_coded_length [OF a(4)] a(3,5) assms(4,5) by (auto simp: to_code_def last_chunk_def)
  ultimately show ?thesis using a(1) ne assms(3) by auto
qed

lemma drain_step:
  assumes "coding src body out ds ctx s" and "\<not> cr_eos ctx" and "bufq_data (cr_chunkbuf ctx) \<noteq> []" and "0 < n"
  shows "\<exists>got q. Curl_bufq_cread (cr_chunkbuf ctx) n = (CURLE_OK, got, q) \<and>
    (Curl_bufq_is_empty q \<longleftrightarrow> bufq_data q = []) \<and>
    coding src body (out @ got) ds (ctx\<lparr>cr_chunkbuf := q, cr_eos := cr_read_eos ctx \<and> bufq_data q = []\<rparr>) s \<and>
    to_code src (ctx\<lparr>cr_chunkbuf := q, cr_eos := cr_read_eos ctx \<and> bufq_data q = []\<rparr>) s < to_code src ctx s"
proof -
  have inv: "enc_inv (cr_chunkbuf ctx)" using assms(1) by (simp add: coding_def)
  obtain q where q: "Curl_bufq_cread (cr_chunkbuf ctx) n = (CURLE_OK, take n (bufq_data (cr_chunkbuf ctx)), q)" "enc_inv q"
      "bufq_data q = drop n (bufq_data (cr_chunkbuf ctx))"
    using read_drains [OF inv assms(4,3)] by blast
  moreover have "Curl_bufq_is_empty q \<longleftrightarrow> bufq_data q = []" using q(2) bufq_empty_data by (simp add: enc_inv_def)
  moreover have "length (bufq_data q) < length (bufq_data (cr_chunkbuf ctx))" using q(3) assms(3,4) by simp
  ultimately show ?thesis using assms(1) by (auto simp: coding_def to_code_def)
qed

lemma coding_read:
  assumes "body_reader nx src" and "coding src body out ds ctx s" and "0 < n"
    and "cr_chunked_read (\<lambda>_. True) None nx ctx n s = (r, got, e, ctx', s')"
  shows "(\<exists>ds'. coding src body (out @ got) ds' ctx' s') \<and> (cr_eos ctx' \<or> to_code src ctx' s' < to_code src ctx s) \<and> (cr_eos ctx \<longrightarrow> cr_eos ctx')"
proof (cases "cr_eos ctx")
  case True
  then show ?thesis using assms(2,4) by (auto simp: cr_chunked_read_def)
next
  case False
  have inv: "bufq_inv (cr_chunkbuf ctx)" using assms(2) by (simp add: coding_def enc_inv_def)
  define fill where "fill = (if \<not> cr_read_eos ctx \<and> Curl_bufq_is_empty (cr_chunkbuf ctx) then add_chunk (\<lambda>_. True) None nx ctx n s else (CURLE_OK, ctx, s))"
  have "\<exists>ctx1 s1 ds1. fill = (CURLE_OK, ctx1, s1) \<and> coding src body out ds1 ctx1 s1 \<and>
    \<not> cr_eos ctx1 \<and> bufq_data (cr_chunkbuf ctx1) \<noteq> [] \<and> to_code src ctx1 s1 \<le> to_code src ctx s"
  proof (cases "\<not> cr_read_eos ctx \<and> Curl_bufq_is_empty (cr_chunkbuf ctx)")
    case True
    then show ?thesis using fill_step [OF assms(1,2) False] bufq_empty_data [OF inv] by (simp add: fill_def)
  next
    case no: False
    then have "bufq_data (cr_chunkbuf ctx) \<noteq> []" using assms(2) False bufq_empty_data [OF inv] by (auto simp: coding_def)
    then show ?thesis using no False assms(2) by (auto simp: fill_def)
  qed
  then obtain ctx1 s1 ds1 where 1: "fill = (CURLE_OK, ctx1, s1)" "coding src body out ds1 ctx1 s1" "\<not> cr_eos ctx1"
    "bufq_data (cr_chunkbuf ctx1) \<noteq> []" "to_code src ctx1 s1 \<le> to_code src ctx s" by blast
  obtain d q where 2: "Curl_bufq_cread (cr_chunkbuf ctx1) n = (CURLE_OK, d, q)" "Curl_bufq_is_empty q \<longleftrightarrow> bufq_data q = []"
    "coding src body (out @ d) ds1 (ctx1\<lparr>cr_chunkbuf := q, cr_eos := cr_read_eos ctx1 \<and> bufq_data q = []\<rparr>) s1"
    "to_code src (ctx1\<lparr>cr_chunkbuf := q, cr_eos := cr_read_eos ctx1 \<and> bufq_data q = []\<rparr>) s1 < to_code src ctx1 s1"
    using drain_step [OF 1(2-4) assms(3)] by blast
  have "\<not> Curl_bufq_is_empty (cr_chunkbuf ctx1)" using 1(2,4) bufq_empty_data by (auto simp: coding_def enc_inv_def)
  then have run: "cr_chunked_read (\<lambda>_. True) None nx ctx n s =
      (if cr_read_eos ctx1 \<and> bufq_data q = [] then (CURLE_OK, d, True, ctx1\<lparr>cr_chunkbuf := q, cr_eos := True\<rparr>, s1)
       else (CURLE_OK, d, False, ctx1\<lparr>cr_chunkbuf := q\<rparr>, s1))"
    using False 1(1) 2(1,2) by (simp add: cr_chunked_read_def fill_def [symmetric] Let_def)
  have "cr_eos ctx1 = False" using 1(3) by simp
  then have "ctx' = ctx1\<lparr>cr_chunkbuf := q, cr_eos := cr_read_eos ctx1 \<and> bufq_data q = []\<rparr>" "got = d" "s' = s1"
    using run assms(4) by (cases ctx1; auto split: if_splits)+
  then show ?thesis using 2(3,4) 1(5) False by auto
qed

lemma run_codes:
  assumes "body_reader nx src"
  shows "coding src body out ds ctx s \<Longrightarrow> list_all (\<lambda>n. 0 < n) ns \<Longrightarrow> cr_run nx ctx ns s = (pieces, ended, s') \<Longrightarrow>
    (ended \<longrightarrow> (\<exists>ds. out @ concat pieces = concat (map chunk_coded ds) @ last_chunk \<and> concat ds = body \<and>
       list_all (\<lambda>d. int (length d) \<le> CURL_OFF_T_MAX) ds)) \<and>
    (cr_eos ctx \<or> to_code src ctx s < length ns \<longrightarrow> ended)"
proof (induction ns arbitrary: out ds ctx s pieces ended s')
  case Nil
  then show ?case by (auto simp: coding_def)
next
  case (Cons n ns)
  obtain r got e ctx1 s1 where 1: "cr_chunked_read (\<lambda>_. True) None nx ctx n s = (r, got, e, ctx1, s1)" by (metis prod_cases5)
  obtain ps en s2 where 2: "cr_run nx ctx1 ns s1 = (ps, en, s2)" by (metis prod_cases3)
  have eq: "pieces = got # ps" "ended = en" using Cons.prems(3) 1 2 by auto
  have n: "0 < n" "list_all (\<lambda>n. 0 < n) ns" using Cons.prems(2) by simp_all
  obtain ds1 where c: "coding src body (out @ got) ds1 ctx1 s1" "cr_eos ctx1 \<or> to_code src ctx1 s1 < to_code src ctx s" "cr_eos ctx \<longrightarrow> cr_eos ctx1"
    using coding_read [OF assms Cons.prems(1) n(1) 1] by blast
  show ?case using Cons.IH [OF c(1) n(2) 2] c(2,3) eq by auto
qed

lemma coding_init: "coding src (src s) [] [] cr_chunked_init s"
  using init2_inv [of CURL_CHUNKED_MAXLEN 2 True False]
  by (simp add: coding_def cr_chunked_init_def enc_inv_def CURL_CHUNKED_MAXLEN_def)
    (simp add: bufq_data_def Curl_bufq_init2_def bufq_init_def)

text \<open>
  C22: what the encoder gives out, read with buffers of any sizes until it reports the end, is decoded
  without error and to the end into the body that was read, all of it consumed; and the encoder
  reports the end after at most ten reads for each byte and six more.
\<close>

theorem chunked_roundtrip:
  assumes "body_reader nx src" and "list_all (\<lambda>n. 0 < n) sizes" and "cr_run nx cr_chunked_init sizes s = (pieces, ended, s')"
    and "takes_body wr log" and "fresh_chunker ch"
  shows "(ended \<longrightarrow> (\<exists>ch' t'. Curl_httpchunk_read alloc False wr ch (concat pieces) t = (CURLE_OK, length (concat pieces), ch', t') \<and>
      Curl_httpchunk_is_done ch' \<and> log t' = log t @ src s)) \<and>
    (10 * length (src s) + 6 \<le> length sizes \<longrightarrow> ended)"
proof -
  note run = run_codes [OF assms(1) coding_init assms(2,3)]
  have "to_code src cr_chunked_init s = 10 * length (src s) + 5"
    by (simp add: to_code_def cr_chunked_init_def bufq_data_def Curl_bufq_init2_def bufq_init_def)
  moreover have "\<exists>ch' t'. Curl_httpchunk_read alloc False wr ch (concat pieces) t = (CURLE_OK, length (concat pieces), ch', t') \<and>
      Curl_httpchunk_is_done ch' \<and> log t' = log t @ src s" if ended: ended
  proof -
    obtain ds where "concat pieces = concat (map chunk_coded ds) @ last_chunk" "concat ds = src s" "list_all (\<lambda>d. int (length d) \<le> CURL_OFF_T_MAX) ds"
      using run ended by auto
    then show ?thesis using decode_coded [OF assms(4,5), of ds alloc t] by (auto simp: Curl_httpchunk_is_done_def)
  qed
  ultimately show ?thesis using run by simp
qed

definition list_reader :: "bytes creader" where
  "list_reader s n = (CURLE_OK, take n s, drop n s = [], drop n s)"

definition kept_body :: "(int \<times> u8) list \<Rightarrow> bytes" where
  "kept_body s = map snd (filter (\<lambda>(kind, _). kind = CLIENTWRITE_BODY) s)"

theorem chunked_roundtrip_witness:
  "case cr_run list_reader cr_chunked_init (replicate 36 2) [7, 8, 9] of
     (pieces, ended, s') \<Rightarrow> ended \<and> (\<exists>ch t.
       Curl_httpchunk_read (\<lambda>_. True) False keep new_chunker (concat pieces) [] = (CURLE_OK, length (concat pieces), ch, t) \<and>
       Curl_httpchunk_is_done ch \<and> kept_body t = [7, 8, 9])"
proof -
  obtain pieces ended s' where run: "cr_run list_reader cr_chunked_init (replicate 36 2) [7, 8, 9] = (pieces, ended, s')" by (metis prod_cases3)
  have "body_reader list_reader (\<lambda>s. s)" by (auto simp: body_reader_def list_reader_def)
  moreover have "list_all (\<lambda>n. 0 < n) (replicate 36 (2 :: nat))" by (simp add: list_all_iff)
  moreover have "takes_body keep kept_body"
    by (simp add: takes_body_def keep_def kept_body_def filter_map comp_def)
  moreover have "fresh_chunker new_chunker"
    by (simp add: fresh_chunker_def new_chunker_def Curl_httpchunk_init_def curlx_dyn_init_def)
  ultimately show ?thesis
    using chunked_roundtrip [OF _ _ run, of "\<lambda>s. s" keep kept_body new_chunker "\<lambda>_. True" "[]"] run
    by (simp add: kept_body_def)
qed

subsection \<open>The buffers of the decoder\<close>

definition chunker_ok :: "Curl_chunker \<Rightarrow> bool" where
  "chunker_ok ch \<longleftrightarrow> length (hc_hexbuffer ch) = CHUNK_MAXNUM_LEN + 1 \<and> hc_hexindex ch \<le> CHUNK_MAXNUM_LEN \<and>
     dyn_inv (hc_trailer ch) \<and> dy_toobig (hc_trailer ch) = DYN_H1_TRAILER"

lemma dyn_addn_kept:
  assumes "dyn_inv d" and "curlx_dyn_addn alloc d b = (r, d')"
  shows "dyn_inv d' \<and> dy_toobig d' = dy_toobig d"
  using dyn_inv_nappend [OF assms(1)] dyn_nappend_data(1) assms(2) by (auto simp: curlx_dyn_addn_def)

lemma chunk_step_kept:
  assumes "chunker_ok ch" and "chunk_step alloc te wr ch buf s = (opt, n, ch', s')"
  shows "chunker_ok ch'"
proof (cases "hc_state ch")
  case CHUNK_TRAILER
  obtain r1 t1 where 1: "curlx_dyn_addn alloc (hc_trailer ch) [hd buf] = (r1, t1)" by fastforce
  obtain r2 t2 where 2: "curlx_dyn_addn alloc (hc_trailer ch) [0x0D, 0x0A] = (r2, t2)" by fastforce
  have inv: "dyn_inv (hc_trailer ch)" using assms(1) by (simp add: chunker_ok_def)
  show ?thesis
    using assms dyn_addn_kept [OF inv 1] dyn_addn_kept [OF inv 2] dyn_inv_ops(1) [of t2] CHUNK_TRAILER 1 2
    by (auto simp: chunk_step_def chunk_trailer_def chunker_ok_def chunk_failed_def curlx_dyn_reset_def Let_def
        split: if_splits option.splits prod.splits)
next
  case CHUNK_DATA
  then show ?thesis using assms
    by (auto simp: chunk_step_def chunk_data_def chunker_ok_def chunk_failed_def Let_def split: if_splits prod.splits)
next
  case CHUNK_HEX
  then show ?thesis using assms
    by (auto simp: chunk_step_def chunk_hex_def chunker_ok_def chunk_failed_def Let_def split: if_splits sum.splits)
next
  case CHUNK_POSTLF
  then show ?thesis using assms dyn_inv_ops(1) [of "hc_trailer ch"]
    by (auto simp: chunk_step_def chunk_postlf_def chunker_ok_def chunk_failed_def Curl_httpchunk_reset_def curlx_dyn_reset_def split: if_splits)
qed (use assms in \<open>auto simp: chunk_step_def chunk_lf_def chunk_trailer_cr_def chunk_postcr_def chunk_stop_def chunker_ok_def chunk_failed_def split: if_splits\<close>)

lemma chunk_loop_kept: "chunker_ok ch \<Longrightarrow> chunk_loop alloc te wr ch buf s = (r, n, ch', s') \<Longrightarrow> chunker_ok ch' \<and> n \<le> length buf"
proof (induction alloc te wr ch buf s arbitrary: r n ch' s' rule: chunk_loop.induct)
  case (1 alloc te wr ch buf s)
  obtain opt n0 ch0 s0 where step: "chunk_step alloc te wr ch buf s = (opt, n0, ch0, s0)" by (metis prod_cases4)
  note run = "1.prems"(2) [unfolded chunk_loop.simps [of alloc te wr ch buf s]]
  note ok = chunk_step_kept [OF "1.prems"(1) step]
  show ?case
  proof (cases "buf = []")
    case True
    then show ?thesis using run "1.prems"(1) by simp
  next
    case False
    show ?thesis
    proof (cases opt)
      case None
      obtain m where m: "chunk_loop alloc te wr ch0 (drop n0 buf) s0 = (r, m, ch', s')" "n = n0 + m"
        using run False step None by (auto split: prod.splits)
      have "n0 \<le> length buf" using chunk_step_progress(1) [OF False step [unfolded None]] .
      moreover have "chunker_ok ch' \<and> m \<le> length (drop n0 buf)" using "1.IH" [OF False step [symmetric] None refl refl ok m(1)] .
      ultimately show ?thesis using m(2) by auto
    next
      case (Some res)
      have "n0 \<le> length buf"
        using step Some False
        by (cases "hc_state ch"; cases buf)
          (auto simp: chunk_step_def chunk_hex_def chunk_lf_def chunk_data_def chunk_postlf_def chunk_trailer_def chunk_trailer_cr_def
            chunk_postcr_def chunk_stop_def Let_def split: if_splits sum.splits option.splits prod.splits)
      then show ?thesis using run False step Some ok by simp
    qed
  qed
qed

text \<open>
  C35: whatever the response is and whatever the client answers, the decoder writes its digits inside their
  buffer of 17 bytes, keeps the trailer under its limit, and says that it has consumed at most what it was given.
\<close>

theorem decoder_in_bounds:
  assumes "chunker_ok ch" and "httpchunk_readwrite alloc te_skip wr ch buf s = (r, n, ch', s')"
  shows "chunker_ok ch' \<and> hc_hexindex ch' < length (hc_hexbuffer ch') \<and> length (dy_data (hc_trailer ch')) \<le> DYN_H1_TRAILER \<and> n \<le> length buf"
proof -
  have failed: "chunker_ok (chunk_failed code ch)" for code using assms(1) by (simp add: chunker_ok_def chunk_failed_def)
  have "ch' = ch \<and> n = 0 \<or> ch' = chunk_failed CHUNKE_PASSTHRU_ERROR ch \<and> n = 0 \<or>
      (\<exists>s1. chunk_loop alloc te_skip wr ch buf s1 = (r, n, ch', s'))"
    using assms(2) by (auto simp: httpchunk_readwrite_def split: if_splits prod.splits)
  then have ok: "chunker_ok ch' \<and> n \<le> length buf" using failed assms(1) by (auto dest: chunk_loop_kept [OF assms(1)])
  then have "hc_hexindex ch' < length (hc_hexbuffer ch')" "length (dy_data (hc_trailer ch')) \<le> DYN_H1_TRAILER"
    by (auto simp: chunker_ok_def dyn_inv_def dy_data_def split: option.splits)
  then show ?thesis using ok by blast
qed

theorem decoder_in_bounds_witness:
  "case httpchunk_readwrite (\<lambda>_. True) False keep new_chunker [0x66, 0x66, 0x0D] [] of
     (r, n, ch, s) \<Rightarrow> hc_hexindex ch < length (hc_hexbuffer ch) \<and> n \<le> 3"
proof -
  obtain r n ch s where run: "httpchunk_readwrite (\<lambda>_. True) False keep new_chunker [0x66, 0x66, 0x0D] [] = (r, n, ch, s)" by (metis prod_cases4)
  have "chunker_ok new_chunker"
    by (simp add: chunker_ok_def new_chunker_def Curl_httpchunk_init_def CHUNK_MAXNUM_LEN_def dyn_inv_init curlx_dyn_init_def)
      (simp add: dyn_inv_def)
  from decoder_in_bounds [OF this run] show ?thesis by (simp add: run)
qed

end
