(* ===== verification/CurlBase64.thy ===== *)
theory CurlBase64
  imports CurlDynbuf
begin

text \<open>
  curl 8.16.0, lib/curlx/base64.c: the encoder with and without padding and the decoder. A C string is
  the list of its bytes without the terminating zero; the first argument says whether the allocation
  of a block of that size succeeds.
\<close>

subsection \<open>The tables\<close>

definition Curl_base64encdec :: bytes where
  "Curl_base64encdec = str ''ABCDEFGHIJKLMNOPQRSTUVWXYZabcdefghijklmnopqrstuvwxyz0123456789+/''"

definition base64url :: bytes where
  "base64url = str ''ABCDEFGHIJKLMNOPQRSTUVWXYZabcdefghijklmnopqrstuvwxyz0123456789-_''"

definition decodetable :: bytes where
  "decodetable =
     [62, 255, 255, 255, 63, 52, 53, 54, 55, 56, 57, 58, 59, 60, 61, 255, 255, 255,
      255, 255, 255, 255, 0, 1, 2, 3, 4, 5, 6, 7, 8, 9, 10, 11, 12, 13, 14, 15, 16,
      17, 18, 19, 20, 21, 22, 23, 24, 25, 255, 255, 255, 255, 255, 255, 26, 27, 28,
      29, 30, 31, 32, 33, 34, 35, 36, 37, 38, 39, 40, 41, 42, 43, 44, 45, 46, 47,
      48, 49, 50, 51]"

definition b64_lookup :: "u8 \<Rightarrow> u8" where
  "b64_lookup c =
     (if unat c < 0x2B \<or> 0x2B + length decodetable \<le> unat c then 0xFF else decodetable ! (unat c - 0x2B))"

abbreviation c_eq :: u8 where "c_eq \<equiv> 0x3D"

subsection \<open>The encoder\<close>

definition b64_at :: "bytes \<Rightarrow> u8 \<Rightarrow> u8" where
  "b64_at table64 i = table64 ! unat i"

fun b64_groups :: "bytes \<Rightarrow> bytes \<Rightarrow> bytes \<Rightarrow> bytes" where
  "b64_groups table64 pad (a # b # c # rest) =
     [b64_at table64 (drop_bit 2 a),
      b64_at table64 (push_bit 4 (a AND 0x03) OR drop_bit 4 b),
      b64_at table64 (push_bit 2 (b AND 0x0F) OR drop_bit 6 (c AND 0xC0)),
      b64_at table64 (c AND 0x3F)] @ b64_groups table64 pad rest"
| "b64_groups table64 pad [a] =
     [b64_at table64 (drop_bit 2 a), b64_at table64 (push_bit 4 (a AND 0x03))] @ pad @ pad"
| "b64_groups table64 pad [a, b] =
     [b64_at table64 (drop_bit 2 a),
      b64_at table64 (push_bit 4 (a AND 0x03) OR drop_bit 4 (b AND 0xF0)),
      b64_at table64 (push_bit 2 (b AND 0x0F))] @ pad"
| "b64_groups table64 pad [] = []"

text \<open>
  A size of 0 means a C string. \<open>None\<close>: no memory. The padding is one byte or none; the bytes of the
  input are those of the buffer, of which the size is never more.
\<close>

definition base64_encode :: "(nat \<Rightarrow> bool) \<Rightarrow> bytes \<Rightarrow> u8 \<Rightarrow> bytes \<Rightarrow> nat \<Rightarrow> bytes option" where
  "base64_encode alloc table64 padbyte inputbuff insize =
     (let input = (if insize = 0 then cstr inputbuff else take insize inputbuff) in
      if \<not> alloc ((length input + 2) div 3 * 4 + 1) then None
      else Some (b64_groups table64 (if padbyte = 0 then [] else [padbyte]) input))"

definition curlx_base64_encode :: "(nat \<Rightarrow> bool) \<Rightarrow> bytes \<Rightarrow> nat \<Rightarrow> bytes option" where
  "curlx_base64_encode alloc inputbuff insize = base64_encode alloc Curl_base64encdec c_eq inputbuff insize"

definition curlx_base64url_encode :: "(nat \<Rightarrow> bool) \<Rightarrow> bytes \<Rightarrow> nat \<Rightarrow> bytes option" where
  "curlx_base64url_encode alloc inputbuff insize = base64_encode alloc base64url 0 inputbuff insize"

subsection \<open>The decoder\<close>

text \<open>Four symbols; \<open>None\<close> for a bad one.\<close>

fun b64_quantum :: "nat \<Rightarrow> u32 \<Rightarrow> bytes \<Rightarrow> u32 option" where
  "b64_quantum 0 x src = Some x"
| "b64_quantum (Suc j) x src =
     (let val = b64_lookup (hd src) in
      if val = 0xFF then None else b64_quantum j (push_bit 6 x OR ucast val) (tl src))"

fun b64_full :: "nat \<Rightarrow> bytes \<Rightarrow> (bytes \<times> bytes) option" where
  "b64_full 0 src = Some ([], src)"
| "b64_full (Suc i) src =
     (case b64_quantum 4 0 src of
        None \<Rightarrow> None
      | Some x \<Rightarrow>
          map_option (\<lambda>(out, rest). ([ucast (drop_bit 16 x), ucast (drop_bit 8 x), ucast x] @ out, rest)) (b64_full i (drop 4 src)))"

fun b64_padded :: "nat \<Rightarrow> nat \<Rightarrow> nat \<Rightarrow> u32 \<Rightarrow> bytes \<Rightarrow> u32 option" where
  "b64_padded padding 0 padc x src = Some x"
| "b64_padded padding (Suc j) padc x src =
     (if hd src = c_eq then
        if padc + 1 > padding then None else b64_padded padding j (padc + 1) (push_bit 6 x) (tl src)
      else
        let val = b64_lookup (hd src) in
        if val = 0xFF then None else b64_padded padding j padc (push_bit 6 x OR ucast val) (tl src))"

definition curlx_base64_decode :: "(nat \<Rightarrow> bool) \<Rightarrow> bytes \<Rightarrow> CURLcode + bytes" where
  "curlx_base64_decode alloc src =
     (let srclen = length src in
      if srclen = 0 \<or> srclen mod 4 \<noteq> 0 then Inl CURLE_BAD_CONTENT_ENCODING
      else
        let padding = length (takeWhile (\<lambda>c. c = c_eq) (rev src)) in
        if padding > 2 then Inl CURLE_BAD_CONTENT_ENCODING
        else
          let numQuantums = srclen div 4;
              fullQuantums = numQuantums - (if padding \<noteq> 0 then 1 else 0);
              rawlen = numQuantums * 3 - padding in
          if \<not> alloc (rawlen + 1) then Inl CURLE_OUT_OF_MEMORY
          else
            case b64_full fullQuantums src of
              None \<Rightarrow> Inl CURLE_BAD_CONTENT_ENCODING
            | Some (out, rest) \<Rightarrow>
                if padding \<noteq> 0 then
                  (case b64_padded padding 4 0 0 rest of
                     None \<Rightarrow> Inl CURLE_BAD_CONTENT_ENCODING
                   | Some x \<Rightarrow>
                       Inr (out @ (if padding = 1 then [ucast (drop_bit 16 x), ucast (drop_bit 8 x)] else [ucast (drop_bit 16 x)])))
                else Inr out)"

subsection \<open>Symbols\<close>

lemma lookup_symbols: "list_all (\<lambda>i. b64_lookup (Curl_base64encdec ! i) = word_of_nat i) [0..<64]"
  by code_simp

lemma lookup_symbol: "i < 64 \<Longrightarrow> b64_lookup (Curl_base64encdec ! i) = word_of_nat i"
  using lookup_symbols by (simp add: list_all_iff)

lemma lookup_at: "i < 64 \<Longrightarrow> b64_lookup (b64_at Curl_base64encdec i) = i"
  using lookup_symbol [of "unat i"] by (simp add: b64_at_def word_less_nat_alt)

lemma no_padding_symbol: "list_all (\<lambda>c. c \<noteq> c_eq) Curl_base64encdec"
  by code_simp

lemma length_table: "length Curl_base64encdec = 64"
  by (simp add: Curl_base64encdec_def)

lemma at_no_padding: "i < 64 \<Longrightarrow> b64_at Curl_base64encdec i \<noteq> c_eq"
  using no_padding_symbol by (simp add: b64_at_def list_all_length length_table word_less_nat_alt)

lemma lt64_not_ff: "(i :: u8) < 64 \<Longrightarrow> i \<noteq> 0xFF"
  by auto

text \<open>The indices of three bytes are less than 64 and join to the bytes again.\<close>

lemma lt64I: "(\<And>n. bit w n \<Longrightarrow> n < 6) \<Longrightarrow> (w :: u8) < 64"
proof -
  assume b: "\<And>n. bit w n \<Longrightarrow> n < 6"
  have "take_bit 6 w = w" by (rule bit_word_eqI) (auto simp: bit_take_bit_iff dest: b)
  then have "unat w = take_bit 6 (unat w)" by (metis unsigned_take_bit_eq)
  then have "unat w < 2 ^ 6" by (metis take_bit_nat_less_exp)
  then show "w < 64" by (simp add: word_less_nat_alt)
qed

lemma bit_mask_02: "bit (0x03 :: u8) n \<longleftrightarrow> n < 2" "bit (0x0F :: u8) n \<longleftrightarrow> n < 4" "bit (0x3F :: u8) n \<longleftrightarrow> n < 6"
  "bit (0xC0 :: u8) n \<longleftrightarrow> n = 6 \<or> n = 7" "bit (0xF0 :: u8) n \<longleftrightarrow> 4 \<le> n \<and> n < 8"
proof -
  have m: "(0x03 :: u8) = mask 2" "(0x0F :: u8) = mask 4" "(0x3F :: u8) = mask 6" "(0xC0 :: u8) = push_bit 6 (mask 2)"
    "(0xF0 :: u8) = push_bit 4 (mask 4)" by (simp_all add: mask_eq_exp_minus_1)
  show "bit (0x03 :: u8) n \<longleftrightarrow> n < 2" "bit (0x0F :: u8) n \<longleftrightarrow> n < 4" "bit (0x3F :: u8) n \<longleftrightarrow> n < 6"
    "bit (0xC0 :: u8) n \<longleftrightarrow> n = 6 \<or> n = 7" "bit (0xF0 :: u8) n \<longleftrightarrow> 4 \<le> n \<and> n < 8"
    unfolding m by (auto simp: bit_mask_iff bit_push_bit_iff)
qed

lemma bit_u8_beyond: "8 \<le> n \<Longrightarrow> \<not> bit (w :: u8) n"
  using bit_imp_le_length [of w n] by auto

lemmas b64_bits = bit_and_iff bit_or_iff bit_push_bit_iff bit_drop_bit_eq o_apply bit_mask_02 bit_ucast_iff

lemma indices_small:
  "drop_bit 2 (a :: u8) < 64" "push_bit 4 (a AND 0x03) OR drop_bit 4 (b :: u8) < 64" "push_bit 4 (a AND 0x03) < 64"
  "push_bit 2 (b AND 0x0F) OR drop_bit 6 (c AND 0xC0 :: u8) < 64" "push_bit 2 (b AND 0x0F) < 64" "c AND 0x3F < 64"
  "push_bit 4 (a AND 0x03) OR drop_bit 4 (b AND 0xF0 :: u8) < 64"
  by (rule lt64I; simp only: b64_bits; auto dest: bit_imp_le_length)+

lemma low_nibble_mask: "drop_bit 4 (b AND 0xF0 :: u8) = drop_bit 4 b" "drop_bit 6 (c AND 0xC0 :: u8) = drop_bit 6 c"
  by (rule bit_word_eqI; simp only: b64_bits; auto dest: bit_imp_le_length)+

text \<open>What the four indices join to.\<close>

definition joined4 :: "u8 \<Rightarrow> u8 \<Rightarrow> u8 \<Rightarrow> u8 \<Rightarrow> u32" where
  "joined4 i j k l = push_bit 6 (push_bit 6 (push_bit 6 (ucast i) OR ucast j) OR ucast k) OR ucast l"

lemma joined_bytes:
  assumes "x = joined4 (drop_bit 2 a) (push_bit 4 (a AND 0x03) OR drop_bit 4 b) (push_bit 2 (b AND 0x0F) OR drop_bit 6 c) (c AND 0x3F)"
  shows "ucast (drop_bit 16 x) = (a :: u8)" "ucast (drop_bit 8 x) = (b :: u8)" "ucast x = (c :: u8)"
proof -
  have two: "Suc (Suc (n - 2)) = n" if "2 \<le> n" for n :: nat using that by simp
  show "ucast (drop_bit 16 x) = a"
    by (rule bit_word_eqI; simp only: assms joined4_def b64_bits; auto simp: bit_u8_beyond two not_less)
  show "ucast (drop_bit 8 x) = b"
    by (rule bit_word_eqI; simp only: assms joined4_def b64_bits; auto simp: bit_u8_beyond two not_less)
  show "ucast x = c"
    by (rule bit_word_eqI; simp only: assms joined4_def b64_bits; auto simp: bit_u8_beyond two not_less)
qed

subsection \<open>Groups of symbols\<close>

lemma ucast_or_zero: "push_bit 6 0 OR ucast i = (ucast (i :: u8) :: u32)"
  by simp

lemma quantum_joined:
  assumes "i < 64" and "j < 64" and "k < 64" and "l < 64"
  shows "b64_quantum 4 0 (b64_at Curl_base64encdec i # b64_at Curl_base64encdec j # b64_at Curl_base64encdec k #
    b64_at Curl_base64encdec l # rest) = Some (joined4 i j k l)"
  using assms by (simp add: eval_nat_numeral lookup_at lt64_not_ff joined4_def Let_def)

lemma groups_decoded:
  assumes "length xs = 3 * n"
  shows "b64_full n (b64_groups Curl_base64encdec pad (xs @ ys)) = Some (xs, b64_groups Curl_base64encdec pad ys)"
  using assms
proof (induction n arbitrary: xs)
  case (Suc n)
  obtain a b c zs where xs: "xs = a # b # c # zs"
    using Suc.prems by (cases xs; cases "tl xs"; cases "tl (tl xs)") auto
  then have len: "length zs = 3 * n" using Suc.prems by simp
  define i0 i1 i2 i3 where "i0 = drop_bit 2 a" and "i1 = push_bit 4 (a AND 0x03) OR drop_bit 4 b"
    and "i2 = push_bit 2 (b AND 0x0F) OR drop_bit 6 (c AND 0xC0)" and "i3 = c AND 0x3F"
  note i_defs = this
  have groups: "b64_groups Curl_base64encdec pad (xs @ ys) = b64_at Curl_base64encdec i0 # b64_at Curl_base64encdec i1 #
      b64_at Curl_base64encdec i2 # b64_at Curl_base64encdec i3 # b64_groups Curl_base64encdec pad (zs @ ys)"
    by (simp only: xs append_Cons append_Nil b64_groups.simps i_defs)
  have q: "b64_quantum 4 0 (b64_groups Curl_base64encdec pad (xs @ ys)) = Some (joined4 i0 i1 i2 i3)"
    unfolding groups unfolding i_defs by (rule quantum_joined [OF indices_small(1,2,4,6)])
  have bytes: "ucast (drop_bit 16 (joined4 i0 i1 i2 i3)) = a" "ucast (drop_bit 8 (joined4 i0 i1 i2 i3)) = b" "ucast (joined4 i0 i1 i2 i3) = c"
    unfolding i_defs low_nibble_mask by (rule joined_bytes [OF refl])+
  have dr: "drop 4 (b64_groups Curl_base64encdec pad (xs @ ys)) = b64_groups Curl_base64encdec pad (zs @ ys)" unfolding groups by simp
  show ?case by (simp only: b64_full.simps q option.case dr Suc.IH [OF len] bytes) (simp add: xs)
qed simp

lemma groups_length:
  assumes "length pad = 1"
  shows "length (b64_groups table pad xs) = (length xs + 2) div 3 * 4"
  using assms
proof (induction table pad xs rule: b64_groups.induct)
  case (1 table pad a b c rest)
  have "(length (a # b # c # rest) + 2) div 3 = Suc ((length rest + 2) div 3)"
    using div_add_self1 [of 3 "length rest + 2"] by simp
  then show ?case using 1 by simp
qed simp_all

lemma groups_no_padding:
  "table = Curl_base64encdec \<Longrightarrow> length xs mod 3 = 0 \<Longrightarrow> c_eq \<notin> set (b64_groups table pad xs)"
proof (induction table pad xs rule: b64_groups.induct)
  case (1 table pad a b c rest)
  have "length rest mod 3 = 0" using "1.prems" by (simp add: mod_Suc split: if_splits)
  then show ?case
    using "1.IH" "1.prems"(1) indices_small(1,2,4,6) [THEN at_no_padding, THEN not_sym]
    by (simp only: b64_groups.simps set_append list.set Un_iff insert_iff empty_iff simp_thms)
qed auto

text \<open>The last one or two bytes.\<close>

lemma padded_one:
  assumes "i < 64" and "j < 64"
  shows "b64_padded 2 4 0 0 [b64_at Curl_base64encdec i, b64_at Curl_base64encdec j, c_eq, c_eq] = Some (joined4 i j 0 0)"
  using assms by (simp add: eval_nat_numeral lookup_at lt64_not_ff at_no_padding joined4_def Let_def)

lemma padded_two:
  assumes "i < 64" and "j < 64" and "k < 64"
  shows "b64_padded 1 4 0 0 [b64_at Curl_base64encdec i, b64_at Curl_base64encdec j, b64_at Curl_base64encdec k, c_eq] = Some (joined4 i j k 0)"
  using assms by (simp add: eval_nat_numeral lookup_at lt64_not_ff at_no_padding joined4_def Let_def)

lemma groups_append:
  "length xs mod 3 = 0 \<Longrightarrow> b64_groups table pad (xs @ ys) = b64_groups table pad xs @ b64_groups table pad ys"
proof (induction table pad xs rule: b64_groups.induct)
  case (1 table pad a b c rest)
  then have "length rest mod 3 = 0" by (simp add: mod_Suc split: if_splits)
  then show ?case using "1.IH" by simp
qed auto

text \<open>
  C36: what the encoder writes the decoder reads back, for every data that is not empty, and it fills
  the block allocated for it exactly.
\<close>

theorem base64_roundtrip:
  assumes "x \<noteq> []" and "alloc = (\<lambda>_. True)"
  shows "\<exists>s. curlx_base64_encode alloc x (length x) = Some s \<and> length s = (length x + 2) div 3 * 4 \<and>
    curlx_base64_decode alloc s = Inr x"
proof -
  let ?n = "length x div 3"
  define xs ys where "xs = take (3 * ?n) x" and "ys = drop (3 * ?n) x"
  have x: "x = xs @ ys" "length xs = 3 * ?n" "length ys = length x mod 3"
    by (simp_all add: xs_def ys_def minus_mult_div_eq_mod)
  define s where "s = b64_groups Curl_base64encdec [c_eq] x"
  have len: "length s = (length x + 2) div 3 * 4" unfolding s_def by (rule groups_length) simp
  have s: "s = b64_groups Curl_base64encdec [c_eq] xs @ b64_groups Curl_base64encdec [c_eq] ys"
    unfolding s_def by (subst x(1), rule groups_append) (simp add: x(2))
  have front: "c_eq \<notin> set (b64_groups Curl_base64encdec [c_eq] xs)" by (rule groups_no_padding) (simp_all add: x(2))
  have full: "b64_full ?n s = Some (xs, b64_groups Curl_base64encdec [c_eq] ys)"
    unfolding s_def by (subst x(1), rule groups_decoded [OF x(2)])
  have enc: "curlx_base64_encode alloc x (length x) = Some s"
    using assms by (simp add: curlx_base64_encode_def base64_encode_def s_def)
  have "length x mod 3 = 0 \<or> length x mod 3 = 1 \<or> length x mod 3 = 2" by linarith
  then have "curlx_base64_decode alloc s = Inr x"
  proof (elim disjE)
    assume 0: "length x mod 3 = 0"
    have "?n \<noteq> 0"
    proof
      assume "?n = 0"
      then have "length x = 0" using mult_div_mod_eq [of 3 "length x"] 0 by simp
      then show False using assms(1) by simp
    qed
    moreover have "(length x + 2) div 3 = ?n" using mult_div_mod_eq [of 3 "length x"] 0 by linarith
    ultimately have n: "length s = 4 * ?n" "?n \<noteq> 0" by (simp_all add: len)
    have "ys = []" using x(3) 0 by simp
    then have "takeWhile (\<lambda>c. c = c_eq) (rev s) = []" using front by (auto simp: s takeWhile_eq_Nil_iff in_set_conv_nth rev_nth hd_conv_nth)
    then show ?thesis using n full \<open>ys = []\<close> x(1) assms(2) by (simp add: curlx_base64_decode_def Let_def)
  next
    assume 1: "length x mod 3 = 1"
    then obtain a where ys: "ys = [a]" using x(3) by (cases ys) auto
    define i j where "i = drop_bit 2 a" and "j = push_bit 4 (a AND 0x03)"
    have ij: "i < 64" "j < 64" unfolding i_def j_def by (rule indices_small)+
    have tail: "b64_groups Curl_base64encdec [c_eq] ys = [b64_at Curl_base64encdec i, b64_at Curl_base64encdec j, c_eq, c_eq]"
      by (simp only: ys b64_groups.simps i_def j_def append_Cons append_Nil)
    have "(length x + 2) div 3 = Suc ?n" using mult_div_mod_eq [of 3 "length x"] 1 by linarith
    then have n: "length s = 4 * Suc ?n" by (simp add: len)
    have pad: "length (takeWhile (\<lambda>c. c = c_eq) (rev s)) = 2" using at_no_padding [OF ij(2)] by (simp add: s tail)
    have "ucast (drop_bit 16 (joined4 i j 0 0)) = a"
      using joined_bytes(1) [OF refl, of a 0 0] unfolding i_def j_def by simp
    then show ?thesis using n full [unfolded tail] pad x(1) ys assms(2) padded_one [OF ij]
      by (simp only: curlx_base64_decode_def Let_def) simp
  next
    assume 2: "length x mod 3 = 2"
    then obtain a b where ys: "ys = [a, b]" using x(3) by (cases ys; cases "tl ys") auto
    define i j k where "i = drop_bit 2 a" and "j = push_bit 4 (a AND 0x03) OR drop_bit 4 (b AND 0xF0)" and "k = push_bit 2 (b AND 0x0F)"
    have ij: "i < 64" "j < 64" "k < 64" unfolding i_def j_def k_def by (rule indices_small)+
    have tail: "b64_groups Curl_base64encdec [c_eq] ys =
        [b64_at Curl_base64encdec i, b64_at Curl_base64encdec j, b64_at Curl_base64encdec k, c_eq]"
      by (simp only: ys b64_groups.simps i_def j_def k_def append_Cons append_Nil)
    have "(length x + 2) div 3 = Suc ?n" using mult_div_mod_eq [of 3 "length x"] 2 by linarith
    then have n: "length s = 4 * Suc ?n" by (simp add: len)
    have pad: "length (takeWhile (\<lambda>c. c = c_eq) (rev s)) = 1" using at_no_padding [OF ij(3)] by (simp add: s tail)
    have j: "j = push_bit 4 (a AND 0x03) OR drop_bit 4 b" unfolding j_def low_nibble_mask ..
    have "ucast (drop_bit 16 (joined4 i j k 0)) = a" "ucast (drop_bit 8 (joined4 i j k 0)) = b"
      using joined_bytes(1,2) [OF refl, of a b 0] unfolding i_def j k_def by simp_all
    then show ?thesis using n full [unfolded tail] pad x(1) ys assms(2) padded_two [OF ij]
      by (simp only: curlx_base64_decode_def Let_def) simp
  qed
  then show ?thesis using enc len by blast
qed

lemma base64_roundtrip_witness:
  "\<exists>s. curlx_base64_encode (\<lambda>_. True) (str ''curl'') 4 = Some s \<and> curlx_base64_decode (\<lambda>_. True) s = Inr (str ''curl'')"
proof -
  have "str ''curl'' \<noteq> []" and len: "length (str ''curl'') = 4" by (simp_all add: str_def)
  from base64_roundtrip [OF this(1) refl] show ?thesis unfolding len by blast
qed

end
