(* ===== verification/CurlBitset.thy ===== *)
theory CurlBitset
  imports CurlDynbuf Bitfield
begin

text \<open>
  curl 8.16.0, lib/uint-bset.c: sets of numbers of type \<open>unsigned int\<close> as bits of an array of 64-bit words, and
  the contract of such sets. The numbers are \<open>nat\<close>s
  below \<open>2 ^ 32\<close>; where a sum may pass that bound the wrap-around is written out.
\<close>

definition UINT_MAX :: nat where "UINT_MAX = 2 ^ 32 - 1"

subsection \<open>Words\<close>

text \<open>What the builtin functions of the compiler give: the zeros below the lowest bit, and the bits that are set.\<close>

definition CURL_CTZ64 :: "u64 \<Rightarrow> nat" where
  "CURL_CTZ64 x = length (takeWhile (\<lambda>n. \<not> bit x n) [0..<64])"

definition CURL_POPCOUNT64 :: "u64 \<Rightarrow> nat" where
  "CURL_POPCOUNT64 x = length (filter (bit x) [0..<64])"

text \<open>The replacement for compilers without it.\<close>

definition Curl_ctz64 :: "u64 \<Rightarrow> nat" where
  "Curl_ctz64 x =
     (if x = 0 then 64
      else
        let n = 1;
            (n, x) = (if x AND 0xFFFFFFFF = 0 then (n + 32, drop_bit 32 x) else (n, x));
            (n, x) = (if x AND 0x0000FFFF = 0 then (n + 16, drop_bit 16 x) else (n, x));
            (n, x) = (if x AND 0x000000FF = 0 then (n + 8, drop_bit 8 x) else (n, x));
            (n, x) = (if x AND 0x0000000F = 0 then (n + 4, drop_bit 4 x) else (n, x));
            (n, x) = (if x AND 0x00000003 = 0 then (n + 2, drop_bit 2 x) else (n, x))
        in n - unat (x AND 1))"

lemma some_bit: "x \<noteq> 0 \<Longrightarrow> \<exists>n<64. bit x n" for x :: u64
proof (rule ccontr)
  assume "x \<noteq> 0" and "\<not> (\<exists>n<64. bit x n)"
  then have "x = 0" by (intro bit_word_eqI) simp
  with \<open>x \<noteq> 0\<close> show False by simp
qed

lemma ctz_bit:
  assumes "x \<noteq> 0"
  shows "CURL_CTZ64 x < 64" and "bit x (CURL_CTZ64 x)" and "n < CURL_CTZ64 x \<Longrightarrow> \<not> bit x n"
proof -
  obtain m where m: "m < 64" "bit x m" using some_bit [OF assms] by blast
  have "CURL_CTZ64 x < length [0..<64]"
    unfolding CURL_CTZ64_def by (rule length_takeWhile_less) (use m in \<open>auto intro!: bexI [of _ m]\<close>)
  then show c: "CURL_CTZ64 x < 64" by simp
  then show "bit x (CURL_CTZ64 x)"
    using nth_length_takeWhile [of "\<lambda>n. \<not> bit x n" "[0..<64]"] by (simp add: CURL_CTZ64_def)
  show "\<not> bit x n" if "n < CURL_CTZ64 x"
  proof -
    have "takeWhile (\<lambda>n. \<not> bit x n) [0..<64] ! n = n" using that c by (simp add: takeWhile_nth CURL_CTZ64_def)
    then show ?thesis using nth_mem [of n "takeWhile (\<lambda>n. \<not> bit x n) [0..<64]"] that
      by (auto simp: CURL_CTZ64_def dest: set_takeWhileD)
  qed
qed

lemma ctz_eqI: "bit x n \<Longrightarrow> (\<And>m. m < n \<Longrightarrow> \<not> bit x m) \<Longrightarrow> CURL_CTZ64 x = n"
  using ctz_bit [of x] by (metis bit_0_eq bot_apply linorder_neqE_nat bot_bool_def)

text \<open>One halving of the replacement.\<close>

lemma ctz_stage:
  assumes "x \<noteq> 0" and "CURL_CTZ64 x < 2 * k" and "(if x AND mask k = 0 then (n + k, drop_bit k x) else (n, x)) = (n', x')"
  shows "x' \<noteq> 0 \<and> n' + CURL_CTZ64 x' = n + CURL_CTZ64 x \<and> CURL_CTZ64 x' < k"
proof (cases "CURL_CTZ64 x < k")
  case True
  have "bit (x AND mask k) (CURL_CTZ64 x)" using ctz_bit [OF assms(1)] True by (simp add: bit_and_iff bit_mask_iff)
  then have "x AND mask k \<noteq> 0" by auto
  then show ?thesis using assms True by simp
next
  case False
  have "x AND mask k = 0" using ctz_bit(3) [OF assms(1)] False by (intro bit_word_eqI) (auto simp: bit_and_iff bit_mask_iff)
  then have eq: "n' = n + k" "x' = drop_bit k x" using assms(3) by auto
  have b: "bit x' (CURL_CTZ64 x - k)" using ctz_bit(2) [OF assms(1)] False eq by (simp add: bit_drop_bit_eq)
  have "CURL_CTZ64 x' = CURL_CTZ64 x - k"
    by (rule ctz_eqI [OF b]) (use ctz_bit(3) [OF assms(1)] eq in \<open>simp add: bit_drop_bit_eq\<close>)
  moreover have "x' \<noteq> 0" using b by auto
  ultimately show ?thesis using False eq assms(2) by auto
qed

lemma Curl_ctz64_eq:
  assumes "x \<noteq> 0"
  shows "Curl_ctz64 x = CURL_CTZ64 x"
proof -
  have m: "(0xFFFFFFFF :: u64) = mask 32" "(0xFFFF :: u64) = mask 16" "(0xFF :: u64) = mask 8" "(0xF :: u64) = mask 4" "(3 :: u64) = mask 2"
    by (simp_all add: mask_eq_exp_minus_1)
  obtain n1 x1 where 1: "(if x AND mask 32 = 0 then (1 + 32, drop_bit 32 x) else (1 :: nat, x)) = (n1, x1)" by fastforce
  obtain n2 x2 where 2: "(if x1 AND mask 16 = 0 then (n1 + 16, drop_bit 16 x1) else (n1, x1)) = (n2, x2)" by fastforce
  obtain n3 x3 where 3: "(if x2 AND mask 8 = 0 then (n2 + 8, drop_bit 8 x2) else (n2, x2)) = (n3, x3)" by fastforce
  obtain n4 x4 where 4: "(if x3 AND mask 4 = 0 then (n3 + 4, drop_bit 4 x3) else (n3, x3)) = (n4, x4)" by fastforce
  obtain n5 x5 where 5: "(if x4 AND mask 2 = 0 then (n4 + 2, drop_bit 2 x4) else (n4, x4)) = (n5, x5)" by fastforce
  have s1: "x1 \<noteq> 0 \<and> n1 + CURL_CTZ64 x1 = 1 + CURL_CTZ64 x \<and> CURL_CTZ64 x1 < 32"
    using ctz_stage [OF assms _ 1] ctz_bit(1) [OF assms] by simp
  have s2: "x2 \<noteq> 0 \<and> n2 + CURL_CTZ64 x2 = 1 + CURL_CTZ64 x \<and> CURL_CTZ64 x2 < 16" using ctz_stage [OF _ _ 2] s1 by simp
  have s3: "x3 \<noteq> 0 \<and> n3 + CURL_CTZ64 x3 = 1 + CURL_CTZ64 x \<and> CURL_CTZ64 x3 < 8" using ctz_stage [OF _ _ 3] s2 by simp
  have s4: "x4 \<noteq> 0 \<and> n4 + CURL_CTZ64 x4 = 1 + CURL_CTZ64 x \<and> CURL_CTZ64 x4 < 4" using ctz_stage [OF _ _ 4] s3 by simp
  have s5: "x5 \<noteq> 0 \<and> n5 + CURL_CTZ64 x5 = 1 + CURL_CTZ64 x \<and> CURL_CTZ64 x5 < 2" using ctz_stage [OF _ _ 5] s4 by simp
  have "unat (x5 AND 1) = (if bit x5 0 then 1 else 0)" by (simp add: and_one_eq bit_0 odd_iff_mod_2_eq_one)
  moreover have "CURL_CTZ64 x5 = (if bit x5 0 then 0 else 1)"
    using ctz_bit [of x5] s5 by (auto simp: less_2_cases_iff)
  ultimately have "n5 - unat (x5 AND 1) = CURL_CTZ64 x" using s5 by auto
  then show ?thesis using assms unfolding Curl_ctz64_def Let_def m 1 2 3 4 5 prod.case by simp
qed

subsection \<open>An array of words\<close>

record uint_bset =
  ub_slots :: "u64 list"
  ub_nslots :: nat
  ub_first_slot_used :: nat

definition Curl_uint_bset_init :: uint_bset where
  "Curl_uint_bset_init = \<lparr>ub_slots = [], ub_nslots = 0, ub_first_slot_used = 0\<rparr>"

definition bset_slots_for :: "nat \<Rightarrow> nat" where
  "bset_slots_for nmax = (if nmax < UINT_MAX - 63 then (nmax + 63) div 64 else UINT_MAX div 64)"

text \<open>Whether the allocation succeeds is the first argument.\<close>

definition Curl_uint_bset_resize :: "bool \<Rightarrow> uint_bset \<Rightarrow> nat \<Rightarrow> CURLcode \<times> uint_bset" where
  "Curl_uint_bset_resize ok bset nmax =
     (let nslots = bset_slots_for nmax in
      if nslots \<noteq> ub_nslots bset then
        (if \<not> ok then (CURLE_OUT_OF_MEMORY, bset)
         else
           (CURLE_OK,
            \<lparr>ub_slots = take (min nslots (ub_nslots bset)) (ub_slots bset) @ replicate (nslots - min nslots (ub_nslots bset)) 0,
             ub_nslots = nslots, ub_first_slot_used = 0\<rparr>))
      else (CURLE_OK, bset))"

definition Curl_uint_bset_destroy :: "uint_bset \<Rightarrow> uint_bset" where
  "Curl_uint_bset_destroy bset = \<lparr>ub_slots = [], ub_nslots = 0, ub_first_slot_used = 0\<rparr>"

definition Curl_uint_bset_capacity :: "uint_bset \<Rightarrow> nat" where
  "Curl_uint_bset_capacity bset = ub_nslots bset * 64"

definition Curl_uint_bset_count :: "uint_bset \<Rightarrow> nat" where
  "Curl_uint_bset_count bset = sum_list (map (\<lambda>x. if x \<noteq> 0 then CURL_POPCOUNT64 x else 0) (ub_slots bset))"

definition Curl_uint_bset_empty :: "uint_bset \<Rightarrow> bool" where
  "Curl_uint_bset_empty bset \<longleftrightarrow> list_all (\<lambda>i. ub_slots bset ! i = 0) [ub_first_slot_used bset..<ub_nslots bset]"

definition Curl_uint_bset_clear :: "uint_bset \<Rightarrow> uint_bset" where
  "Curl_uint_bset_clear bset =
     (if ub_nslots bset \<noteq> 0
      then bset\<lparr>ub_slots := replicate (ub_nslots bset) 0, ub_first_slot_used := UINT_MAX\<rparr> else bset)"

definition bit_of :: "nat \<Rightarrow> u64" where
  "bit_of i = push_bit (i mod 64) 1"

definition Curl_uint_bset_add :: "uint_bset \<Rightarrow> nat \<Rightarrow> bool \<times> uint_bset" where
  "Curl_uint_bset_add bset i =
     (let islot = i div 64 in
      if islot \<ge> ub_nslots bset then (False, bset)
      else
        (True, bset\<lparr>ub_slots := (ub_slots bset)[islot := ub_slots bset ! islot OR bit_of i],
                    ub_first_slot_used := if islot < ub_first_slot_used bset then islot else ub_first_slot_used bset\<rparr>))"

definition Curl_uint_bset_remove :: "uint_bset \<Rightarrow> nat \<Rightarrow> uint_bset" where
  "Curl_uint_bset_remove bset i =
     (let islot = i div 64 in
      if islot < ub_nslots bset then bset\<lparr>ub_slots := (ub_slots bset)[islot := ub_slots bset ! islot AND NOT (bit_of i)]\<rparr>
      else bset)"

definition Curl_uint_bset_contains :: "uint_bset \<Rightarrow> nat \<Rightarrow> bool" where
  "Curl_uint_bset_contains bset i \<longleftrightarrow>
     (let islot = i div 64 in islot < ub_nslots bset \<and> ub_slots bset ! islot AND bit_of i \<noteq> 0)"

text \<open>The loops that look for the next word that is not zero.\<close>

definition slot_from :: "u64 list \<Rightarrow> nat \<Rightarrow> nat option" where
  "slot_from slots i = find (\<lambda>i. slots ! i \<noteq> 0) [i..<length slots]"

text \<open>The number found, when there is one, and the set.\<close>

definition Curl_uint_bset_first :: "uint_bset \<Rightarrow> nat option \<times> uint_bset" where
  "Curl_uint_bset_first bset =
     (case slot_from (ub_slots bset) (ub_first_slot_used bset) of
        Some i \<Rightarrow> (Some (i * 64 + CURL_CTZ64 (ub_slots bset ! i)), bset\<lparr>ub_first_slot_used := i\<rparr>)
      | None \<Rightarrow> (None, bset\<lparr>ub_first_slot_used := UINT_MAX\<rparr>))"

definition Curl_uint_bset_next :: "uint_bset \<Rightarrow> nat \<Rightarrow> nat option" where
  "Curl_uint_bset_next bset last_one =
     (let last_one = (last_one + 1) mod 2 ^ 32; islot = last_one div 64 in
      if islot < ub_nslots bset then
        (let x = drop_bit (last_one mod 64) (ub_slots bset ! islot) in
         if x \<noteq> 0 then Some (last_one + CURL_CTZ64 x)
         else map_option (\<lambda>i. i * 64 + CURL_CTZ64 (ub_slots bset ! i)) (slot_from (ub_slots bset) (islot + 1)))
      else None)"

subsection \<open>Sets of numbers\<close>

text \<open>The least member from a number on.\<close>

definition is_next :: "nat set \<Rightarrow> nat \<Rightarrow> nat option \<Rightarrow> bool" where
  "is_next S k r \<longleftrightarrow>
     (case r of None \<Rightarrow> \<forall>j\<in>S. j < k | Some m \<Rightarrow> m \<in> S \<and> k \<le> m \<and> (\<forall>j\<in>S. k \<le> j \<longrightarrow> m \<le> j))"

text \<open>The members as a loop over them visits them, at most so many.\<close>

fun walk :: "(nat \<Rightarrow> nat option) \<Rightarrow> nat \<Rightarrow> nat option \<Rightarrow> nat list" where
  "walk nxt 0 r = []"
| "walk nxt (Suc k) r = (case r of None \<Rightarrow> [] | Some m \<Rightarrow> m # walk nxt k (nxt m))"

text \<open>
  The contract of a set of numbers of type \<open>unsigned int\<close>; an addition may fail.
\<close>

locale uint_set =
  fixes elems :: "'s \<Rightarrow> nat set" and add :: "'s \<Rightarrow> nat \<Rightarrow> bool \<times> 's" and remove :: "'s \<Rightarrow> nat \<Rightarrow> 's"
    and contains :: "'s \<Rightarrow> nat \<Rightarrow> bool" and first :: "'s \<Rightarrow> nat option \<times> 's" and nxt :: "'s \<Rightarrow> nat \<Rightarrow> nat option"
    and inv :: "'s \<Rightarrow> bool"
  assumes add_law: "inv s \<Longrightarrow> i < 2 ^ 32 \<Longrightarrow> add s i = (ok, s') \<Longrightarrow>
      inv s' \<and> elems s' = (if ok then insert i (elems s) else elems s)"
    and remove_law: "inv s \<Longrightarrow> i < 2 ^ 32 \<Longrightarrow> inv (remove s i) \<and> elems (remove s i) = elems s - {i}"
    and contains_law: "inv s \<Longrightarrow> i < 2 ^ 32 \<Longrightarrow> contains s i \<longleftrightarrow> i \<in> elems s"
    and first_law: "inv s \<Longrightarrow> first s = (r, s') \<Longrightarrow> inv s' \<and> elems s' = elems s \<and> is_next (elems s) 0 r"
    and next_law: "inv s \<Longrightarrow> i < UINT_MAX \<Longrightarrow> is_next (elems s) (i + 1) (nxt s i)"
    and bounded: "inv s \<Longrightarrow> elems s \<subseteq> {..<2 ^ 32}"
begin

lemma finite_elems: "inv s \<Longrightarrow> finite (elems s)"
  using bounded finite_subset by blast

lemma walk_from:
  assumes "inv s" and "UINT_MAX \<notin> elems s"
  shows "is_next (elems s) c r \<Longrightarrow> card {j \<in> elems s. c \<le> j} \<le> k \<Longrightarrow> walk (nxt s) k r = sorted_list_of_set {j \<in> elems s. c \<le> j}"
proof (induction k arbitrary: c r)
  case 0
  have "{j \<in> elems s. c \<le> j} = {}" using 0 finite_elems [OF assms(1)] by auto
  then show ?case by (simp only: walk.simps sorted_list_of_set_empty)
next
  case (Suc k)
  have fin: "finite {j \<in> elems s. c \<le> j}" using finite_elems [OF assms(1)] by simp
  show ?case
  proof (cases r)
    case None
    then have "{j \<in> elems s. c \<le> j} = {}" using Suc.prems(1) by (auto simp: is_next_def)
    then show ?thesis using None by (simp only: walk.simps option.case sorted_list_of_set_empty)
  next
    case (Some m)
    then have m: "m \<in> elems s" "c \<le> m" "\<And>j. j \<in> elems s \<Longrightarrow> c \<le> j \<Longrightarrow> m \<le> j" using Suc.prems(1) by (auto simp: is_next_def)
    have "m < UINT_MAX" using m(1) assms(2) bounded [OF assms(1)] by (cases "m = UINT_MAX") (auto simp: UINT_MAX_def)
    note n = next_law [OF assms(1) this]
    have split: "{j \<in> elems s. c \<le> j} = insert m {j \<in> elems s. m + 1 \<le> j}" using m by force
    have "card {j \<in> elems s. m + 1 \<le> j} \<le> k" using Suc.prems(2) fin unfolding split by simp
    then have "walk (nxt s) k (nxt s m) = sorted_list_of_set {j \<in> elems s. m + 1 \<le> j}" by (rule Suc.IH [OF n])
    moreover have "sorted_list_of_set (insert m {j \<in> elems s. m + 1 \<le> j}) = m # sorted_list_of_set {j \<in> elems s. m + 1 \<le> j}"
    proof -
      have "Min (insert m {j \<in> elems s. m + 1 \<le> j}) = m" using fin unfolding split by (intro Min_eqI) auto
      then show ?thesis using sorted_list_of_set_nonempty [of "insert m {j \<in> elems s. m + 1 \<le> j}"] fin unfolding split by simp
    qed
    ultimately show ?thesis using Some by (simp add: split)
  qed
qed

text \<open>A loop from the first to the last member visits every member once, in ascending order.\<close>

lemma walk_all:
  assumes "inv s" and "UINT_MAX \<notin> elems s" and "first s = (r, s')" and "card (elems s) \<le> k"
  shows "walk (nxt s') k r = sorted_list_of_set (elems s)"
proof -
  from first_law [OF assms(1,3)] have f: "inv s'" "elems s' = elems s" "is_next (elems s) 0 r" by auto
  show ?thesis using walk_from [of s' 0 r k] f assms(2,4) by simp
qed

end

text \<open>A sequence of additions and removals, on the code's set and on a set of numbers.\<close>

datatype set_op = Set_add nat | Set_remove nat

fun op_number :: "set_op \<Rightarrow> nat" where
  "op_number (Set_add i) = i"
| "op_number (Set_remove i) = i"

fun set_run :: "('s \<Rightarrow> nat \<Rightarrow> bool \<times> 's) \<Rightarrow> ('s \<Rightarrow> nat \<Rightarrow> 's) \<Rightarrow> 's \<Rightarrow> set_op list \<Rightarrow> 's" where
  "set_run add remove s [] = s"
| "set_run add remove s (Set_add i # ops) = set_run add remove (snd (add s i)) ops"
| "set_run add remove s (Set_remove i # ops) = set_run add remove (remove s i) ops"

fun members_after :: "nat set \<Rightarrow> set_op list \<Rightarrow> nat set" where
  "members_after S [] = S"
| "members_after S (Set_add i # ops) = members_after (insert i S) ops"
| "members_after S (Set_remove i # ops) = members_after (S - {i}) ops"

lemma members_after_bound:
  "members_after S ops \<subseteq> S \<union> op_number ` set ops"
  by (induction S ops rule: members_after.induct) auto

lemma members_after_card:
  "finite S \<Longrightarrow> card (members_after S ops) \<le> card S + length ops"
proof (induction S ops rule: members_after.induct)
  case (2 S i ops)
  then show ?case using card_insert_le_m1 [of "Suc (card S)" S i] by (simp add: card_insert_if split: if_splits)
next
  case (3 S i ops)
  then show ?case using card_Diff1_le [of S i] by simp
qed simp

context uint_set
begin

text \<open>Additions that cannot fail, for numbers that the set has room for.\<close>

lemma run_ok:
  assumes "\<And>s i s'. room s i \<Longrightarrow> i < 2 ^ 32 \<Longrightarrow> inv s \<Longrightarrow> fst (add s i)"
    and "\<And>s i j. room s j \<Longrightarrow> i < 2 ^ 32 \<Longrightarrow> inv s \<Longrightarrow> room (snd (add s i)) j"
    and "\<And>s i j. room s j \<Longrightarrow> i < 2 ^ 32 \<Longrightarrow> inv s \<Longrightarrow> room (remove s i) j"
  shows "inv s \<Longrightarrow> \<forall>oper\<in>set ops. op_number oper < 2 ^ 32 \<and> room s (op_number oper) \<Longrightarrow>
    inv (set_run add remove s ops) \<and> elems (set_run add remove s ops) = members_after (elems s) ops"
proof (induction ops arbitrary: s)
  case Nil
  then show ?case by simp
next
  case (Cons oper ops)
  show ?case
  proof (cases oper)
    case (Set_add i)
    have i: "i < 2 ^ 32" "room s i" using Cons.prems Set_add by auto
    obtain r s' where a: "add s i = (r, s')" by fastforce
    then have "r" using assms(1) [of s i] i Cons.prems(1) by simp
    then have "inv s'" "elems s' = insert i (elems s)" using add_law [OF Cons.prems(1) i(1) a] by auto
    then show ?thesis using Cons.IH [of s'] Cons.prems a assms(2) [OF _ i(1) Cons.prems(1)] Set_add by auto
  next
    case (Set_remove i)
    have i: "i < 2 ^ 32" using Cons.prems Set_remove by auto
    show ?thesis
      using Cons.IH [of "remove s i"] Cons.prems remove_law [OF Cons.prems(1) i] assms(3) [OF _ i Cons.prems(1)] Set_remove by auto
  qed
qed

end

text \<open>The bits of an array of words.\<close>

definition slot_bits :: "u64 list \<Rightarrow> nat set" where
  "slot_bits slots = {i. i div 64 < length slots \<and> bit (slots ! (i div 64)) (i mod 64)}"

lemma bit_of_bit: "j < 64 \<Longrightarrow> bit (bit_of i) j \<longleftrightarrow> j = i mod 64"
  unfolding bit_of_def bit_push_bit_iff bit_1_iff by auto

lemma same_place: "i div 64 = j div 64 \<and> i mod 64 = j mod 64 \<longleftrightarrow> i = (j :: nat)"
  by (metis div_mult_mod_eq)

lemma same_word: "k mod 64 + c < 64 \<Longrightarrow> (k + c) div 64 = k div 64" "k mod 64 + c < 64 \<Longrightarrow> (k + c) mod 64 = k mod 64 + c" for k c :: nat
proof -
  assume lt: "k mod 64 + c < 64"
  have k: "k div 64 * 64 + k mod 64 = k" by simp
  have a: "64 * (k div 64) \<le> k + c" and b: "k + c < 64 + 64 * (k div 64)" using lt k by linarith+
  show d: "(k + c) div 64 = k div 64" by (rule div_nat_eqI) (use a b in \<open>simp_all only: mult_Suc_right\<close>)
  have "(k + c) div 64 * 64 + (k + c) mod 64 = k + c" by simp
  then show "(k + c) mod 64 = k mod 64 + c" unfolding d using k by linarith
qed

lemma slot_bits_set:
  assumes "i div 64 < length slots"
  shows "slot_bits (slots[i div 64 := slots ! (i div 64) OR bit_of i]) = insert i (slot_bits slots)"
    and "slot_bits (slots[i div 64 := slots ! (i div 64) AND NOT (bit_of i)]) = slot_bits slots - {i}"
proof -
  have place: "j = i \<longleftrightarrow> j mod 64 = i mod 64" if "j div 64 = i div 64" for j using same_place [of j i] that by blast
  have "j \<in> slot_bits (slots[i div 64 := slots ! (i div 64) OR bit_of i]) \<longleftrightarrow> j \<in> insert i (slot_bits slots)" for j
    using assms place [of j] by (cases "j div 64 = i div 64") (auto simp: slot_bits_def bit_or_iff bit_of_bit)
  then show "slot_bits (slots[i div 64 := slots ! (i div 64) OR bit_of i]) = insert i (slot_bits slots)" by blast
  have "j \<in> slot_bits (slots[i div 64 := slots ! (i div 64) AND NOT (bit_of i)]) \<longleftrightarrow> j \<in> slot_bits slots - {i}" for j
    using assms place [of j] by (cases "j div 64 = i div 64") (auto simp: slot_bits_def bit_and_iff bit_not_iff bit_of_bit)
  then show "slot_bits (slots[i div 64 := slots ! (i div 64) AND NOT (bit_of i)]) = slot_bits slots - {i}" by blast
qed

lemma slot_bits_test: "i div 64 < length slots \<Longrightarrow> slots ! (i div 64) AND bit_of i \<noteq> 0 \<longleftrightarrow> i \<in> slot_bits slots"
  unfolding slot_bits_def bit_of_def bit_iff_and_push_bit_not_eq_0 by simp

lemma slot_from_next: "is_next (slot_bits slots) (64 * k) (map_option (\<lambda>i. i * 64 + CURL_CTZ64 (slots ! i)) (slot_from slots k))"
proof (cases "slot_from slots k")
  case None
  then have z: "\<And>i. k \<le> i \<Longrightarrow> i < length slots \<Longrightarrow> slots ! i = 0" by (auto simp: slot_from_def find_None_iff)
  have "j < 64 * k" if "j \<in> slot_bits slots" for j
  proof (rule ccontr)
    assume "\<not> j < 64 * k"
    then have "k \<le> j div 64" by (simp add: less_eq_div_iff_mult_less_eq mult.commute)
    then show False using z [of "j div 64"] that by (simp add: slot_bits_def)
  qed
  then show ?thesis using None by (simp add: is_next_def)
next
  case (Some i)
  then obtain p where p: "p < length slots - k" "i = k + p" "slots ! i \<noteq> 0" "\<And>q. q < p \<Longrightarrow> slots ! (k + q) = 0"
    by (auto simp: slot_from_def find_Some_iff)
  note c = ctz_bit [OF p(3)]
  let ?m = "i * 64 + CURL_CTZ64 (slots ! i)"
  have d: "?m div 64 = i" "?m mod 64 = CURL_CTZ64 (slots ! i)" using c(1) by auto
  have "?m \<in> slot_bits slots" using p c d by (simp add: slot_bits_def)
  moreover have "?m \<le> j" if j: "j \<in> slot_bits slots" "64 * k \<le> j" for j
  proof -
    have jd: "k \<le> j div 64" using j(2) by (simp add: less_eq_div_iff_mult_less_eq mult.commute)
    have "\<not> j div 64 < i"
    proof
      assume "j div 64 < i"
      then have "slots ! (j div 64) = 0" using p(4) [of "j div 64 - k"] jd p(2) by simp
      then show False using j(1) by (simp add: slot_bits_def)
    qed
    moreover have "CURL_CTZ64 (slots ! i) \<le> j mod 64" if "j div 64 = i"
      using c(3) [of "j mod 64"] j(1) that by (force simp: slot_bits_def)
    ultimately show ?thesis using c(1) div_mult_mod_eq [of j 64] by (cases "j div 64 = i") linarith+
  qed
  ultimately show ?thesis using Some p(2) by (simp add: is_next_def)
qed

text \<open>From a number inside a word on.\<close>

lemma slot_within_next:
  assumes "k div 64 < length slots"
  shows "is_next (slot_bits slots) k
    (let x = drop_bit (k mod 64) (slots ! (k div 64)) in
     if x \<noteq> 0 then Some (k + CURL_CTZ64 x)
     else map_option (\<lambda>i. i * 64 + CURL_CTZ64 (slots ! i)) (slot_from slots (k div 64 + 1)))"
proof -
  let ?w = "slots ! (k div 64)" and ?x = "drop_bit (k mod 64) (slots ! (k div 64))"
  have above: "j \<in> slot_bits slots \<Longrightarrow> k \<le> j \<Longrightarrow> j div 64 = k div 64 \<Longrightarrow> bit ?x (j - k)" for j
  proof -
    assume j: "j \<in> slot_bits slots" "k \<le> j" "j div 64 = k div 64"
    have "j mod 64 = k mod 64 + (j - k)" using j(2,3) div_mult_mod_eq [of j 64] div_mult_mod_eq [of k 64] by linarith
    then show ?thesis using j(1,3) by (simp add: slot_bits_def bit_drop_bit_eq add.commute)
  qed
  show ?thesis
  proof (cases "?x = 0")
    case True
    have "is_next (slot_bits slots) k r" if r: "is_next (slot_bits slots) (64 * (k div 64 + 1)) r" for r
    proof -
      have le: "64 * (k div 64 + 1) \<le> j" if "j \<in> slot_bits slots" "k \<le> j" for j
        using above [OF that] True that(2) div_le_mono [OF that(2), of 64] div_mult_mod_eq [of j 64] by (cases "j div 64 = k div 64") auto
      have "k < 64 * (k div 64 + 1)" using dividend_less_div_times [of 64 k] by simp
      then show ?thesis using r le by (force simp: is_next_def split: option.splits)
    qed
    then show ?thesis using slot_from_next [of slots "k div 64 + 1"] True by simp
  next
    case False
    note c = ctz_bit [OF False]
    have lt: "k mod 64 + CURL_CTZ64 ?x < 64"
      using c(2) bit_imp_le_length [of ?w "k mod 64 + CURL_CTZ64 ?x"] by (simp add: bit_drop_bit_eq add.commute)
    note d = same_word [OF lt]
    have "k + CURL_CTZ64 ?x \<in> slot_bits slots" using c(2) d assms by (simp add: slot_bits_def bit_drop_bit_eq add.commute)
    moreover have "k + CURL_CTZ64 ?x \<le> j" if j: "j \<in> slot_bits slots" "k \<le> j" for j
    proof (cases "j div 64 = k div 64")
      case True
      then have "bit ?x (j - k)" using above j by simp
      then show ?thesis using c(3) [of "j - k"] j(2) by force
    next
      case False
      then have "k div 64 + 1 \<le> j div 64" using div_le_mono [OF j(2), of 64] by linarith
      then show ?thesis using lt div_mult_mod_eq [of j 64] div_mult_mod_eq [of k 64] by linarith
    qed
    ultimately show ?thesis using False by (simp add: is_next_def)
  qed
qed

text \<open>The numbers of an array of words; below the first used word there are none.\<close>

definition bset_inv :: "uint_bset \<Rightarrow> bool" where
  "bset_inv b \<longleftrightarrow> length (ub_slots b) = ub_nslots b \<and> ub_nslots b \<le> UINT_MAX div 64 \<and>
     (\<forall>i<ub_first_slot_used b. i < ub_nslots b \<longrightarrow> ub_slots b ! i = 0)"

abbreviation bset_elems :: "uint_bset \<Rightarrow> nat set" where
  "bset_elems b \<equiv> slot_bits (ub_slots b)"

lemma slot_member: "k < length slots \<Longrightarrow> slots ! k \<noteq> 0 \<Longrightarrow> k * 64 + CURL_CTZ64 (slots ! k) \<in> slot_bits slots"
  using ctz_bit [of "slots ! k"] by (simp add: slot_bits_def)

lemma zero_below: "(\<And>j. j \<in> slot_bits slots \<Longrightarrow> 64 * i \<le> j) \<Longrightarrow> k < i \<Longrightarrow> k < length slots \<Longrightarrow> slots ! k = 0"
proof (rule ccontr)
  assume a: "\<And>j. j \<in> slot_bits slots \<Longrightarrow> 64 * i \<le> j" "k < i" "k < length slots" "slots ! k \<noteq> 0"
  from a(1) [OF slot_member [OF a(3,4)]] ctz_bit(1) [OF a(4)] have "i \<le> k" by linarith
  with a(2) show False by simp
qed

lemma above_used: "\<forall>i<f. i < length slots \<longrightarrow> slots ! i = 0 \<Longrightarrow> j \<in> slot_bits slots \<Longrightarrow> 64 * f \<le> j"
proof (rule ccontr)
  assume a: "\<forall>i<f. i < length slots \<longrightarrow> slots ! i = 0" "j \<in> slot_bits slots" "\<not> 64 * f \<le> j"
  then have "j div 64 < f" by (simp add: div_less_iff_less_mult mult.commute)
  then show False using a(1,2) by (auto simp: slot_bits_def)
qed

lemma slot_bits_bound: "j \<in> slot_bits slots \<Longrightarrow> j < 64 * length slots"
  by (simp add: slot_bits_def div_less_iff_less_mult mult.commute)

lemma bset_first_ok:
  assumes "bset_inv b" and "Curl_uint_bset_first b = (r, b')"
  shows "bset_inv b' \<and> bset_elems b' = bset_elems b \<and> is_next (bset_elems b) 0 r"
proof -
  have z: "\<forall>i<ub_first_slot_used b. i < length (ub_slots b) \<longrightarrow> ub_slots b ! i = 0" using assms(1) by (simp add: bset_inv_def)
  note n = slot_from_next [of "ub_slots b" "ub_first_slot_used b"] and above = above_used [OF z]
  show ?thesis
  proof (cases "slot_from (ub_slots b) (ub_first_slot_used b)")
    case None
    then have "bset_elems b = {}" using n above by (force simp: is_next_def)
    then have "ub_slots b ! k = 0" if "k < length (ub_slots b)" for k using zero_below [of "ub_slots b" "Suc k" k] that by simp
    then show ?thesis using assms None \<open>bset_elems b = {}\<close> by (auto simp: Curl_uint_bset_first_def bset_inv_def is_next_def)
  next
    case (Some i)
    let ?m = "i * 64 + CURL_CTZ64 (ub_slots b ! i)"
    have m: "?m \<in> bset_elems b" "\<And>j. j \<in> bset_elems b \<Longrightarrow> ?m \<le> j" using n above Some by (auto simp: is_next_def)
    then have "64 * i \<le> j" if "j \<in> bset_elems b" for j using that by (metis add_leD1 mult.commute)
    then have "ub_slots b ! k = 0" if "k < i" "k < length (ub_slots b)" for k using zero_below that by blast
    then show ?thesis using assms Some m by (auto simp: Curl_uint_bset_first_def bset_inv_def is_next_def)
  qed
qed

lemma bset_add_ok:
  assumes "bset_inv b" and "Curl_uint_bset_add b i = (ok, b')"
  shows "bset_inv b' \<and> bset_elems b' = (if ok then insert i (bset_elems b) else bset_elems b) \<and> (ok \<longleftrightarrow> i < Curl_uint_bset_capacity b)"
proof -
  have cap: "i div 64 < ub_nslots b \<longleftrightarrow> i < Curl_uint_bset_capacity b" by (simp add: Curl_uint_bset_capacity_def div_less_iff_less_mult)
  show ?thesis
  proof (cases "i div 64 < ub_nslots b")
    case True
    have len: "i div 64 < length (ub_slots b)" using True assms(1) by (simp add: bset_inv_def)
    have "ok" "b' = b\<lparr>ub_slots := (ub_slots b)[i div 64 := ub_slots b ! (i div 64) OR bit_of i],
        ub_first_slot_used := if i div 64 < ub_first_slot_used b then i div 64 else ub_first_slot_used b\<rparr>"
      using assms(2) True by (auto simp: Curl_uint_bset_add_def Let_def)
    then show ?thesis using assms(1) True cap slot_bits_set(1) [OF len] by (auto simp: bset_inv_def)
  next
    case False
    then have "\<not> ok" "b' = b" using assms(2) by (auto simp: Curl_uint_bset_add_def Let_def)
    then show ?thesis using assms(1) False cap by simp
  qed
qed

lemma bset_remove_ok:
  assumes "bset_inv b"
  shows "bset_inv (Curl_uint_bset_remove b i) \<and> bset_elems (Curl_uint_bset_remove b i) = bset_elems b - {i}"
proof (cases "i div 64 < ub_nslots b")
  case True
  let ?s = "(ub_slots b)[i div 64 := ub_slots b ! (i div 64) AND NOT (bit_of i)]"
  have len: "i div 64 < length (ub_slots b)" using True assms by (simp add: bset_inv_def)
  have r: "Curl_uint_bset_remove b i = b\<lparr>ub_slots := ?s\<rparr>" using True by (simp add: Curl_uint_bset_remove_def Let_def)
  have "?s ! k = 0" if "ub_slots b ! k = 0" for k using that len by (cases "k = i div 64") simp_all
  then have "bset_inv (b\<lparr>ub_slots := ?s\<rparr>)" using assms by (simp add: bset_inv_def)
  then show ?thesis unfolding r using slot_bits_set(2) [OF len] by simp
next
  case False
  then have "i \<notin> bset_elems b" using assms by (simp add: slot_bits_def bset_inv_def)
  then show ?thesis using False assms by (simp add: Curl_uint_bset_remove_def)
qed

lemma bset_next_ok:
  assumes "bset_inv b" and "i < UINT_MAX"
  shows "is_next (bset_elems b) (i + 1) (Curl_uint_bset_next b i)"
proof (cases "(i + 1) div 64 < ub_nslots b")
  case True
  have m: "(i + 1) mod 2 ^ 32 = i + 1" using assms(2) by (simp add: UINT_MAX_def)
  have len: "length (ub_slots b) = ub_nslots b" using assms(1) by (simp add: bset_inv_def)
  then show ?thesis using slot_within_next [of "i + 1" "ub_slots b"] True by (simp only: Curl_uint_bset_next_def m Let_def if_True)
next
  case False
  then have "64 * ub_nslots b \<le> i + 1" by (simp add: div_less_iff_less_mult mult.commute)
  then show ?thesis using False assms slot_bits_bound [of _ "ub_slots b"]
    by (force simp: Curl_uint_bset_next_def bset_inv_def UINT_MAX_def Let_def is_next_def)
qed

interpretation bset: uint_set bset_elems Curl_uint_bset_add Curl_uint_bset_remove Curl_uint_bset_contains
  Curl_uint_bset_first Curl_uint_bset_next bset_inv
proof
  fix b :: uint_bset
  assume inv: "bset_inv b"
  show "Curl_uint_bset_add b i = (ok, b') \<Longrightarrow> bset_inv b' \<and> bset_elems b' = (if ok then insert i (bset_elems b) else bset_elems b)" for i ok b'
    using bset_add_ok [OF inv] by blast
  show "bset_inv (Curl_uint_bset_remove b i) \<and> bset_elems (Curl_uint_bset_remove b i) = bset_elems b - {i}" for i
    by (rule bset_remove_ok [OF inv])
  show "Curl_uint_bset_contains b i \<longleftrightarrow> i \<in> bset_elems b" for i
  proof (cases "i div 64 < ub_nslots b")
    case True
    then show ?thesis using inv slot_bits_test [of i "ub_slots b"] by (simp add: Curl_uint_bset_contains_def bset_inv_def)
  next
    case False
    then show ?thesis using inv by (simp add: Curl_uint_bset_contains_def bset_inv_def slot_bits_def)
  qed
  show "Curl_uint_bset_first b = (r, b') \<Longrightarrow> bset_inv b' \<and> bset_elems b' = bset_elems b \<and> is_next (bset_elems b) 0 r" for r b'
    by (rule bset_first_ok [OF inv])
  show "i < UINT_MAX \<Longrightarrow> is_next (bset_elems b) (i + 1) (Curl_uint_bset_next b i)" for i by (rule bset_next_ok [OF inv])
  show "bset_elems b \<subseteq> {..<2 ^ 32}"
    using inv slot_bits_bound [of _ "ub_slots b"] by (force simp: bset_inv_def UINT_MAX_def)
qed

text \<open>The other operations.\<close>

lemma nth_padded: "i < length xs + k \<Longrightarrow> (xs @ replicate k 0) ! i = (if i < length xs then xs ! i else 0)"
  by (simp add: nth_append)

lemma slot_bits_resized: "slot_bits (take n slots @ replicate k 0) = {i \<in> slot_bits slots. i div 64 < n}"
proof (intro set_eqI)
  fix i
  show "i \<in> slot_bits (take n slots @ replicate k 0) \<longleftrightarrow> i \<in> {i \<in> slot_bits slots. i div 64 < n}"
    using nth_padded [of "i div 64" "take n slots" k]
    by (cases "i div 64 < length (take n slots) + k") (auto simp: slot_bits_def split: if_splits)
qed

lemma slots_for_bound: "bset_slots_for n \<le> UINT_MAX div 64"
  by (auto simp: bset_slots_for_def UINT_MAX_def)

lemma bset_resize_ok:
  assumes "bset_inv b" and "Curl_uint_bset_resize ok b n = (r, b')"
  shows "bset_inv b' \<and> bset_elems b' = (if r = CURLE_OK then {i \<in> bset_elems b. i div 64 < bset_slots_for n} else bset_elems b) \<and>
    (r = CURLE_OK \<longrightarrow> min n (2 ^ 32 - 64) \<le> Curl_uint_bset_capacity b')"
proof -
  let ?n = "bset_slots_for n"
  have cap: "min n (2 ^ 32 - 64) \<le> ?n * 64" by (auto simp: bset_slots_for_def UINT_MAX_def)
  have len: "length (ub_slots b) = ub_nslots b" using assms(1) by (simp add: bset_inv_def)
  show ?thesis
  proof (cases "?n = ub_nslots b \<or> \<not> ok")
    case True
    have "{i \<in> bset_elems b. i div 64 < ub_nslots b} = bset_elems b" using len by (auto simp: slot_bits_def)
    then show ?thesis using True assms cap by (auto simp: Curl_uint_bset_resize_def Let_def Curl_uint_bset_capacity_def split: if_splits)
  next
    case False
    let ?s = "take (min ?n (ub_nslots b)) (ub_slots b) @ replicate (?n - min ?n (ub_nslots b)) 0"
    have "r = CURLE_OK" "b' = \<lparr>ub_slots = ?s, ub_nslots = ?n, ub_first_slot_used = 0\<rparr>"
      using assms(2) False by (auto simp: Curl_uint_bset_resize_def Let_def)
    moreover have "slot_bits ?s = {i \<in> bset_elems b. i div 64 < ?n}"
      unfolding slot_bits_resized using len by (auto simp: slot_bits_def)
    ultimately show ?thesis using cap len slots_for_bound [of n] by (simp add: bset_inv_def Curl_uint_bset_capacity_def)
  qed
qed

lemma bset_clear_ok: "bset_inv b \<Longrightarrow> bset_inv (Curl_uint_bset_clear b) \<and> bset_elems (Curl_uint_bset_clear b) = {}"
  by (auto simp: Curl_uint_bset_clear_def bset_inv_def slot_bits_def)

lemma bset_empty_ok: "bset_inv b \<Longrightarrow> Curl_uint_bset_empty b \<longleftrightarrow> bset_elems b = {}"
proof -
  assume inv: "bset_inv b"
  have "Curl_uint_bset_empty b \<longleftrightarrow> (\<forall>k<length (ub_slots b). ub_slots b ! k = 0)"
    using inv by (auto simp: Curl_uint_bset_empty_def list_all_iff bset_inv_def not_le)
  also have "\<dots> \<longleftrightarrow> bset_elems b = {}"
  proof
    show "\<forall>k<length (ub_slots b). ub_slots b ! k = 0 \<Longrightarrow> bset_elems b = {}" by (simp add: slot_bits_def)
    show "bset_elems b = {} \<Longrightarrow> \<forall>k<length (ub_slots b). ub_slots b ! k = 0" using slot_member [of _ "ub_slots b"] by fastforce
  qed
  finally show ?thesis .
qed

lemma slot_bits_snoc: "slot_bits (xs @ [x]) = slot_bits xs \<union> (\<lambda>j. 64 * length xs + j) ` {j. j < 64 \<and> bit x j}"
proof (intro set_eqI iffI)
  fix i assume i: "i \<in> slot_bits (xs @ [x])"
  show "i \<in> slot_bits xs \<union> (\<lambda>j. 64 * length xs + j) ` {j. j < 64 \<and> bit x j}"
  proof (cases "i div 64 < length xs")
    case True
    then show ?thesis using i by (simp add: slot_bits_def nth_append)
  next
    case False
    then have "i div 64 = length xs" "bit x (i mod 64)" using i by (auto simp: slot_bits_def nth_append less_Suc_eq)
    moreover have "i = 64 * (i div 64) + i mod 64" by simp
    ultimately show ?thesis by (metis (mono_tags, lifting) UnI2 image_eqI mem_Collect_eq mod_less_divisor zero_less_numeral)
  qed
qed (auto simp: slot_bits_def nth_append)

lemma count_slots: "sum_list (map (\<lambda>x. if x \<noteq> 0 then CURL_POPCOUNT64 x else 0) slots) = card (slot_bits slots)"
proof (induction slots rule: rev_induct)
  case Nil
  then show ?case by (simp add: slot_bits_def)
next
  case (snoc x xs)
  let ?B = "{j. j < 64 \<and> bit x j}"
  have pop: "(if x \<noteq> 0 then CURL_POPCOUNT64 x else 0) = card ?B"
  proof -
    have "distinct (filter (bit x) [0..<64])" "set (filter (bit x) [0..<64]) = ?B" by auto
    then have "CURL_POPCOUNT64 x = card ?B" unfolding CURL_POPCOUNT64_def by (metis distinct_card)
    then show ?thesis by (cases "x = 0") simp_all
  qed
  have fin: "finite (slot_bits xs)" by (rule finite_subset [of _ "{..<64 * length xs}"]) (auto dest: slot_bits_bound)
  have "slot_bits xs \<inter> (\<lambda>j. 64 * length xs + j) ` ?B = {}" using slot_bits_bound [of _ xs] by force
  then have "card (slot_bits (xs @ [x])) = card (slot_bits xs) + card ((\<lambda>j. 64 * length xs + j) ` ?B)"
    unfolding slot_bits_snoc using fin by (intro card_Un_disjoint) auto
  also have "card ((\<lambda>j. 64 * length xs + j) ` ?B) = card ?B" by (rule card_image) (simp add: inj_on_def)
  finally show ?case using snoc pop by simp
qed

lemma bset_count_ok: "Curl_uint_bset_count b = card (bset_elems b)"
  by (simp add: Curl_uint_bset_count_def count_slots)

end
