(* ===== verification/CurlSparse.thy ===== *)
theory CurlSparse
  imports CurlBitset
begin

text \<open>
  curl 8.16.0, lib/uint-spbset.c: a sparse set of numbers, as a list of chunks of 256 bits in the order of
  their offsets. The first chunk is a part of the set itself.
\<close>

subsection \<open>Operations\<close>

definition CURL_UINT_SPBSET_CH_SLOTS :: nat where "CURL_UINT_SPBSET_CH_SLOTS = 4"

text \<open>\<open>i & ~CURL_UINT_SPBSET_CH_MASK\<close>, for the mask 255.\<close>

definition chunk_offset :: "nat \<Rightarrow> nat" where "chunk_offset i = i - i mod 256"

record spb_chunk =
  sb_slots :: "u64 list"
  sb_offset :: nat

definition zero_chunk :: spb_chunk where
  "zero_chunk = \<lparr>sb_slots = replicate CURL_UINT_SPBSET_CH_SLOTS 0, sb_offset = 0\<rparr>"

type_synonym uint_spbset = "spb_chunk list"

definition Curl_uint_spbset_init :: uint_spbset where "Curl_uint_spbset_init = [zero_chunk]"

definition Curl_uint_spbset_clear :: "uint_spbset \<Rightarrow> uint_spbset" where "Curl_uint_spbset_clear bset = [zero_chunk]"

definition Curl_uint_spbset_destroy :: "uint_spbset \<Rightarrow> uint_spbset" where
  "Curl_uint_spbset_destroy bset = Curl_uint_spbset_clear bset"

definition Curl_uint_spbset_count :: "uint_spbset \<Rightarrow> nat" where
  "Curl_uint_spbset_count bset =
     sum_list (map (\<lambda>c. sum_list (map (\<lambda>x. if x \<noteq> 0 then CURL_POPCOUNT64 x else 0) (sb_slots c))) bset) mod 2 ^ 32"

definition Curl_uint_spbset_empty :: "uint_spbset \<Rightarrow> bool" where
  "Curl_uint_spbset_empty bset \<longleftrightarrow> list_all (\<lambda>c. list_all (\<lambda>x. x = 0) (sb_slots c)) bset"

text \<open>
  The place of the chunk, with the set, which may have grown by it. The loop stops at the first chunk whose
  offset is not smaller. In front of the first chunk the old head is moved to the new chunk.
\<close>

definition uint_spbset_get_chunk :: "bool \<Rightarrow> uint_spbset \<Rightarrow> nat \<Rightarrow> bool \<Rightarrow> nat option \<times> uint_spbset" where
  "uint_spbset_get_chunk ok bset i grow =
     (let i_offset = chunk_offset i; k = length (takeWhile (\<lambda>c. sb_offset c < i_offset) bset) in
      if k < length bset \<and> sb_offset (bset ! k) = i_offset then (Some k, bset)
      else if \<not> grow \<or> \<not> ok then (None, bset)
      else if k \<noteq> 0 then (Some k, take k bset @ zero_chunk\<lparr>sb_offset := i_offset\<rparr> # drop k bset)
      else (Some 1, zero_chunk # (hd bset)\<lparr>sb_offset := i_offset\<rparr> # tl bset))"

definition Curl_uint_spbset_add :: "bool \<Rightarrow> uint_spbset \<Rightarrow> nat \<Rightarrow> bool \<times> uint_spbset" where
  "Curl_uint_spbset_add ok bset i =
     (case uint_spbset_get_chunk ok bset i True of
        (None, bset) \<Rightarrow> (False, bset)
      | (Some k, bset) \<Rightarrow>
          let c = bset ! k; j = i - sb_offset c in
          (True, bset[k := c\<lparr>sb_slots := (sb_slots c)[j div 64 := sb_slots c ! (j div 64) OR bit_of j]\<rparr>]))"

definition Curl_uint_spbset_remove :: "uint_spbset \<Rightarrow> nat \<Rightarrow> uint_spbset" where
  "Curl_uint_spbset_remove bset i =
     (case uint_spbset_get_chunk False bset i False of
        (None, bset) \<Rightarrow> bset
      | (Some k, bset) \<Rightarrow>
          let c = bset ! k; j = i - sb_offset c in
          bset[k := c\<lparr>sb_slots := (sb_slots c)[j div 64 := sb_slots c ! (j div 64) AND NOT (bit_of j)]\<rparr>])"

definition Curl_uint_spbset_contains :: "uint_spbset \<Rightarrow> nat \<Rightarrow> bool" where
  "Curl_uint_spbset_contains bset i \<longleftrightarrow>
     (case uint_spbset_get_chunk False bset i False of
        (None, bset) \<Rightarrow> False
      | (Some k, bset) \<Rightarrow> let c = bset ! k; j = i - sb_offset c in sb_slots c ! (j div 64) AND bit_of j \<noteq> 0)"

definition uint_spbset_chunk_first :: "spb_chunk \<Rightarrow> nat option" where
  "uint_spbset_chunk_first c =
     map_option (\<lambda>i. sb_offset c + (i * 64 + CURL_CTZ64 (sb_slots c ! i))) (slot_from (sb_slots c) 0)"

fun first_in_chunks :: "spb_chunk list \<Rightarrow> nat option" where
  "first_in_chunks [] = None"
| "first_in_chunks (c # cs) = (case uint_spbset_chunk_first c of Some m \<Rightarrow> Some m | None \<Rightarrow> first_in_chunks cs)"

definition Curl_uint_spbset_first :: "uint_spbset \<Rightarrow> nat option" where
  "Curl_uint_spbset_first bset = first_in_chunks bset"

definition uint_spbset_chunk_next :: "spb_chunk \<Rightarrow> nat \<Rightarrow> nat option" where
  "uint_spbset_chunk_next c last_one =
     (if sb_offset c \<le> last_one then
        let i = (last_one - sb_offset c) div 64 in
        if i < CURL_UINT_SPBSET_CH_SLOTS then
          let x = drop_bit (last_one mod 64) (sb_slots c ! i) in
          if x \<noteq> 0 then Some (last_one + CURL_CTZ64 x)
          else map_option (\<lambda>i. sb_offset c + (i * 64 + CURL_CTZ64 (sb_slots c ! i))) (slot_from (sb_slots c) (i + 1))
        else None
      else None)"

definition Curl_uint_spbset_next :: "uint_spbset \<Rightarrow> nat \<Rightarrow> nat option" where
  "Curl_uint_spbset_next bset last_one =
     (let last_one = (last_one + 1) mod 2 ^ 32; last_offset = chunk_offset last_one in
      case dropWhile (\<lambda>c. sb_offset c < last_offset) bset of
        [] \<Rightarrow> None
      | c # cs \<Rightarrow>
          if sb_offset c = last_offset then
            (case uint_spbset_chunk_next c last_one of Some m \<Rightarrow> Some m | None \<Rightarrow> first_in_chunks cs)
          else first_in_chunks (c # cs))"

subsection \<open>The numbers of a sparse set\<close>

definition chunk_elems :: "spb_chunk \<Rightarrow> nat set" where
  "chunk_elems c = (+) (sb_offset c) ` slot_bits (sb_slots c)"

definition spb_elems :: "uint_spbset \<Rightarrow> nat set" where
  "spb_elems bset = (\<Union>c\<in>set bset. chunk_elems c)"

definition chunk_inv :: "spb_chunk \<Rightarrow> bool" where
  "chunk_inv c \<longleftrightarrow> length (sb_slots c) = CURL_UINT_SPBSET_CH_SLOTS \<and> sb_offset c mod 256 = 0 \<and> sb_offset c < 2 ^ 32"

definition spb_inv :: "uint_spbset \<Rightarrow> bool" where
  "spb_inv bset \<longleftrightarrow> bset \<noteq> [] \<and> sb_offset (hd bset) = 0 \<and> sorted_wrt (\<lambda>a b. sb_offset a < sb_offset b) bset \<and> (\<forall>c\<in>set bset. chunk_inv c)"

lemma chunk_range: "chunk_inv c \<Longrightarrow> j \<in> chunk_elems c \<Longrightarrow> sb_offset c \<le> j \<and> j < sb_offset c + 256 \<and> chunk_offset j = sb_offset c"
proof -
  assume c: "chunk_inv c" and "j \<in> chunk_elems c"
  then obtain b where b: "j = sb_offset c + b" "b < 256"
    using slot_bits_bound [of _ "sb_slots c"] by (auto simp: chunk_elems_def chunk_inv_def CURL_UINT_SPBSET_CH_SLOTS_def)
  obtain a where "sb_offset c = 256 * a" using c by (auto simp: chunk_inv_def mod_eq_0_iff_dvd)
  then show ?thesis using b by (simp add: chunk_offset_def)
qed

lemma chunk_offset_le: "chunk_offset j \<le> j" and chunk_offset_mod: "chunk_offset j mod 256 = 0" and chunk_offset_lt: "j < chunk_offset j + 256"
proof -
  have j: "j = 256 * (j div 256) + j mod 256" by simp
  then have "chunk_offset j = 256 * (j div 256)" unfolding chunk_offset_def by linarith
  then show "chunk_offset j \<le> j" "chunk_offset j mod 256 = 0" "j < chunk_offset j + 256"
    using j mod_less_divisor [of 256 j] by auto
qed

text \<open>The chunk that has a number's offset tells whether the number is in the set.\<close>

lemma offsets_distinct: "spb_inv b \<Longrightarrow> c \<in> set b \<Longrightarrow> d \<in> set b \<Longrightarrow> sb_offset c = sb_offset d \<Longrightarrow> c = d"
proof -
  have "sorted_wrt (\<lambda>a b. sb_offset a < sb_offset b) cs \<Longrightarrow> c \<in> set cs \<Longrightarrow> d \<in> set cs \<Longrightarrow> sb_offset c = sb_offset d \<Longrightarrow> c = d" for cs
    by (induction cs) auto
  then show "spb_inv b \<Longrightarrow> c \<in> set b \<Longrightarrow> d \<in> set b \<Longrightarrow> sb_offset c = sb_offset d \<Longrightarrow> c = d" by (auto simp: spb_inv_def)
qed

lemma elem_in_chunk:
  assumes "spb_inv b" and "c \<in> set b" and "sb_offset c = chunk_offset j"
  shows "j \<in> spb_elems b \<longleftrightarrow> j - sb_offset c \<in> slot_bits (sb_slots c)"
proof
  assume "j \<in> spb_elems b"
  then obtain d where d: "d \<in> set b" "j \<in> chunk_elems d" by (auto simp: spb_elems_def)
  then have "chunk_offset j = sb_offset d" using chunk_range [of d j] assms(1) by (auto simp: spb_inv_def)
  then have "d = c" using offsets_distinct [OF assms(1) d(1) assms(2)] assms(3) by simp
  then show "j - sb_offset c \<in> slot_bits (sb_slots c)" using d(2) by (auto simp: chunk_elems_def)
next
  assume "j - sb_offset c \<in> slot_bits (sb_slots c)"
  then have "j \<in> chunk_elems c" using chunk_offset_le [of j] assms(3) by (auto simp: chunk_elems_def image_iff intro!: bexI [of _ "j - sb_offset c"])
  then show "j \<in> spb_elems b" using assms(2) by (auto simp: spb_elems_def)
qed

lemma no_elem: "spb_inv b \<Longrightarrow> (\<And>c. c \<in> set b \<Longrightarrow> sb_offset c \<noteq> chunk_offset j) \<Longrightarrow> j \<notin> spb_elems b"
  using chunk_range by (fastforce simp: spb_elems_def spb_inv_def)

lemma spb_elems_append: "spb_elems (xs @ ys) = spb_elems xs \<union> spb_elems ys"
  by (simp add: spb_elems_def)

lemma spb_elems_Cons: "spb_elems (c # cs) = chunk_elems c \<union> spb_elems cs"
  by (simp add: spb_elems_def)

lemma zero_chunk_elems: "chunk_elems (zero_chunk\<lparr>sb_offset := n\<rparr>) = {}"
  by (simp add: chunk_elems_def zero_chunk_def slot_bits_def CURL_UINT_SPBSET_CH_SLOTS_def)

lemma get_chunk_ok:
  assumes "spb_inv b" and "i < 2 ^ 32" and "uint_spbset_get_chunk ok b i grow = (r, b')"
  shows "spb_inv b' \<and> spb_elems b' = spb_elems b \<and>
    (case r of Some k \<Rightarrow> k < length b' \<and> sb_offset (b' ! k) = chunk_offset i
     | None \<Rightarrow> b' = b \<and> (\<forall>c\<in>set b. sb_offset c \<noteq> chunk_offset i) \<and> \<not> (grow \<and> ok))"
proof -
  let ?off = "chunk_offset i"
  let ?A = "takeWhile (\<lambda>c. sb_offset c < ?off) b" and ?B = "dropWhile (\<lambda>c. sb_offset c < ?off) b"
  let ?k = "length ?A"
  have b: "b = ?A @ ?B" by simp
  have A: "\<forall>c\<in>set ?A. sb_offset c < ?off" by (auto dest: set_takeWhileD)
  have k0: "?k \<noteq> 0 \<or> sb_offset (b ! 0) = ?off"
    using assms(1) by (cases b) (auto simp: spb_inv_def)
  have sorted: "sorted_wrt (\<lambda>a b. sb_offset a < sb_offset b) (?A @ ?B)" using assms(1) by (simp add: spb_inv_def)
  show ?thesis
  proof (cases "?k < length b \<and> sb_offset (b ! ?k) = ?off")
    case True
    then show ?thesis using assms by (auto simp: uint_spbset_get_chunk_def Let_def)
  next
    case False
    have B: "\<forall>c\<in>set ?B. ?off < sb_offset c"
    proof (cases ?B)
      case (Cons c cs)
      then have "b ! ?k = c" "?k < length b" using arg_cong [OF b, of "\<lambda>l. l ! ?k"] arg_cong [OF b, of length] by (simp_all add: nth_append)
      moreover have "\<not> sb_offset c < ?off" using Cons hd_dropWhile [of "\<lambda>c. sb_offset c < ?off" b] by simp
      ultimately have "?off < sb_offset c" using False by force
      then show ?thesis using sorted Cons by (auto simp: sorted_wrt_append)
    next
      case Nil
      show ?thesis unfolding Nil by simp
    qed
    then have none: "\<forall>c\<in>set b. sb_offset c \<noteq> ?off" using A b by (metis Un_iff nat_neq_iff set_append)
    have k: "?k \<noteq> 0"
    proof
      assume 0: "?k = 0"
      then have "sb_offset (b ! 0) = ?off" using k0 by blast
      moreover have "b \<noteq> []" using assms(1) by (simp add: spb_inv_def)
      ultimately show False using none by (metis length_greater_0_conv nth_mem)
    qed
    show ?thesis
    proof (cases "grow \<and> ok")
      case no: False
      then show ?thesis using assms False none by (auto simp: uint_spbset_get_chunk_def Let_def)
    next
      case True
      let ?new = "zero_chunk\<lparr>sb_offset := ?off\<rparr>"
      have r: "r = Some ?k" "b' = ?A @ ?new # ?B"
        using assms(3) False True k by (auto simp: uint_spbset_get_chunk_def Let_def takeWhile_eq_take [symmetric] dropWhile_eq_drop [symmetric])
      have "chunk_inv ?new" using chunk_offset_mod chunk_offset_le [of i] assms(2)
        by (simp add: chunk_inv_def zero_chunk_def CURL_UINT_SPBSET_CH_SLOTS_def)
      moreover have "set b = set ?A \<union> set ?B" by (metis b set_append)
      moreover have "?A \<noteq> []" using k by (metis length_0_conv)
      moreover have "hd ?A = hd b" using b \<open>?A \<noteq> []\<close> by (metis hd_append2)
      moreover have "\<forall>x\<in>set ?A. \<forall>y\<in>set ?B. sb_offset x < sb_offset y" using A B by (meson order.strict_trans)
      ultimately have "spb_inv b'" using assms(1) A B sorted unfolding r
        by (auto simp: spb_inv_def sorted_wrt_append hd_append)
      moreover have "spb_elems b' = spb_elems b"
        using spb_elems_append [of ?A ?B] unfolding r by (simp add: spb_elems_append spb_elems_Cons zero_chunk_elems)
      moreover have "?k < length b' \<and> sb_offset (b' ! ?k) = ?off" unfolding r by simp
      ultimately show ?thesis using r by simp
    qed
  qed
qed

text \<open>A chunk replaced by one of the same offset.\<close>

lemma spb_elems_nth: "j \<in> spb_elems b \<longleftrightarrow> (\<exists>m<length b. j \<in> chunk_elems (b ! m))"
  by (auto simp: spb_elems_def set_conv_nth)

lemma replace_chunk:
  assumes "spb_inv b" and "k < length b" and "length slots = CURL_UINT_SPBSET_CH_SLOTS"
  shows "spb_inv (b[k := (b ! k)\<lparr>sb_slots := slots\<rparr>])"
    and "j \<in> spb_elems (b[k := (b ! k)\<lparr>sb_slots := slots\<rparr>]) \<longleftrightarrow>
      (if chunk_offset j = sb_offset (b ! k) then j - sb_offset (b ! k) \<in> slot_bits slots else j \<in> spb_elems b)"
proof -
  let ?c = "(b ! k)\<lparr>sb_slots := slots\<rparr>"
  have off: "map sb_offset (b[k := ?c]) = map sb_offset b" using assms(2) by (simp add: list_eq_iff_nth_eq nth_list_update)
  have sorted: "sorted_wrt (\<lambda>a b. sb_offset a < sb_offset b) (b[k := ?c]) \<longleftrightarrow> sorted_wrt (\<lambda>a b. sb_offset a < sb_offset b) b"
    using off sorted_wrt_map [of "(<)" sb_offset] by metis
  have hd: "sb_offset (hd (b[k := ?c])) = sb_offset (hd b)" using assms(2) by (cases b; cases k) auto
  have ck: "chunk_inv (b ! k)" using assms(1,2) by (simp add: spb_inv_def)
  then have "chunk_inv ?c" using assms(3) by (simp add: chunk_inv_def)
  then have "\<forall>c\<in>set (b[k := ?c]). chunk_inv c" using assms(1) set_update_subset_insert [of b k ?c] by (auto simp: spb_inv_def)
  then show inv: "spb_inv (b[k := ?c])" using assms(1) sorted hd by (simp add: spb_inv_def)
  show "j \<in> spb_elems (b[k := ?c]) \<longleftrightarrow> (if chunk_offset j = sb_offset (b ! k) then j - sb_offset (b ! k) \<in> slot_bits slots else j \<in> spb_elems b)"
  proof (cases "chunk_offset j = sb_offset (b ! k)")
    case True
    then show ?thesis using elem_in_chunk [OF inv, of ?c j] set_update_memI [OF assms(2), of ?c] by simp
  next
    case False
    have "j \<in> chunk_elems (b[k := ?c] ! m) \<longleftrightarrow> j \<in> chunk_elems (b ! m)" if "m < length b" for m
      using False chunk_range [OF ck, of j] chunk_range [OF \<open>chunk_inv ?c\<close>, of j] assms(2) by (cases "m = k") auto
    then show ?thesis using False unfolding spb_elems_nth by auto
  qed
qed

lemma place_in_chunk: "chunk_offset i = off \<Longrightarrow> (i - off) div 64 < CURL_UINT_SPBSET_CH_SLOTS"
  using chunk_offset_lt [of i] by (simp add: CURL_UINT_SPBSET_CH_SLOTS_def)

lemma same_chunk_place: "chunk_offset i = off \<Longrightarrow> chunk_offset j = off \<Longrightarrow> i - off = j - off \<longleftrightarrow> i = j"
  using chunk_offset_le [of i] chunk_offset_le [of j] by auto

lemma update_elems:
  assumes "spb_inv b" and "k < length b" and "length slots = CURL_UINT_SPBSET_CH_SLOTS" and "sb_offset (b ! k) = chunk_offset i"
  shows "slot_bits slots = insert (i - sb_offset (b ! k)) (slot_bits (sb_slots (b ! k))) \<Longrightarrow>
      spb_elems (b[k := (b ! k)\<lparr>sb_slots := slots\<rparr>]) = insert i (spb_elems b)"
    and "slot_bits slots = slot_bits (sb_slots (b ! k)) - {i - sb_offset (b ! k)} \<Longrightarrow>
      spb_elems (b[k := (b ! k)\<lparr>sb_slots := slots\<rparr>]) = spb_elems b - {i}"
proof -
  note rep = replace_chunk(2) [OF assms(1-3)]
  have e: "j \<in> spb_elems b \<longleftrightarrow> j - sb_offset (b ! k) \<in> slot_bits (sb_slots (b ! k))" if "chunk_offset j = sb_offset (b ! k)" for j
    using elem_in_chunk [OF assms(1) nth_mem [OF assms(2)]] that by simp
  have p: "j - sb_offset (b ! k) = i - sb_offset (b ! k) \<longleftrightarrow> j = i" if "chunk_offset j = sb_offset (b ! k)" for j
    using same_chunk_place [OF that] assms(4) by simp
  have n: "j \<noteq> i" if "chunk_offset j \<noteq> sb_offset (b ! k)" for j using that assms(4) by auto
  {
    assume s: "slot_bits slots = insert (i - sb_offset (b ! k)) (slot_bits (sb_slots (b ! k)))"
    have "j \<in> spb_elems (b[k := (b ! k)\<lparr>sb_slots := slots\<rparr>]) \<longleftrightarrow> j \<in> insert i (spb_elems b)" for j
      unfolding rep s using e [of j] p [of j] n [of j] by (cases "chunk_offset j = sb_offset (b ! k)") auto
    then show "spb_elems (b[k := (b ! k)\<lparr>sb_slots := slots\<rparr>]) = insert i (spb_elems b)" by blast
  }
  assume s: "slot_bits slots = slot_bits (sb_slots (b ! k)) - {i - sb_offset (b ! k)}"
  have "j \<in> spb_elems (b[k := (b ! k)\<lparr>sb_slots := slots\<rparr>]) \<longleftrightarrow> j \<in> spb_elems b - {i}" for j
    unfolding rep s using e [of j] p [of j] n [of j] by (cases "chunk_offset j = sb_offset (b ! k)") auto
  then show "spb_elems (b[k := (b ! k)\<lparr>sb_slots := slots\<rparr>]) = spb_elems b - {i}" by blast
qed

lemma spb_add_ok:
  assumes "spb_inv b" and "i < 2 ^ 32" and "Curl_uint_spbset_add ok b i = (r, b')"
  shows "spb_inv b' \<and> spb_elems b' = (if r then insert i (spb_elems b) else spb_elems b) \<and> (ok \<longrightarrow> r)"
proof -
  obtain opt b1 where g: "uint_spbset_get_chunk ok b i True = (opt, b1)" by fastforce
  note g1 = get_chunk_ok [OF assms(1,2) g]
  show ?thesis
  proof (cases opt)
    case None
    then show ?thesis using assms g g1 by (simp add: Curl_uint_spbset_add_def)
  next
    case (Some k)
    let ?c = "b1 ! k" let ?j = "i - sb_offset ?c"
    let ?s = "(sb_slots ?c)[?j div 64 := sb_slots ?c ! (?j div 64) OR bit_of ?j]"
    have k: "spb_inv b1" "spb_elems b1 = spb_elems b" "k < length b1" "sb_offset ?c = chunk_offset i" using g1 Some by auto
    then have ck: "length (sb_slots ?c) = CURL_UINT_SPBSET_CH_SLOTS" by (simp add: spb_inv_def chunk_inv_def)
    have r: "r" "b' = b1[k := ?c\<lparr>sb_slots := ?s\<rparr>]" using assms(3) g Some by (simp_all add: Curl_uint_spbset_add_def Let_def)
    have len: "?j div 64 < length (sb_slots ?c)" using place_in_chunk [of i "sb_offset ?c"] k(4) ck by simp
    have s: "length ?s = CURL_UINT_SPBSET_CH_SLOTS" using ck by simp
    show ?thesis
      using r replace_chunk(1) [OF k(1,3) s] update_elems(1) [OF k(1,3) s k(4) slot_bits_set(1) [OF len]] k(2) by simp
  qed
qed

lemma spb_remove_ok:
  assumes "spb_inv b" and "i < 2 ^ 32"
  shows "spb_inv (Curl_uint_spbset_remove b i) \<and> spb_elems (Curl_uint_spbset_remove b i) = spb_elems b - {i}"
proof -
  obtain opt b1 where g: "uint_spbset_get_chunk False b i False = (opt, b1)" by fastforce
  note g1 = get_chunk_ok [OF assms g]
  show ?thesis
  proof (cases opt)
    case None
    then show ?thesis using assms g g1 no_elem [OF assms(1), of i] by (simp add: Curl_uint_spbset_remove_def)
  next
    case (Some k)
    let ?c = "b1 ! k" let ?j = "i - sb_offset ?c"
    let ?s = "(sb_slots ?c)[?j div 64 := sb_slots ?c ! (?j div 64) AND NOT (bit_of ?j)]"
    have k: "spb_inv b1" "spb_elems b1 = spb_elems b" "k < length b1" "sb_offset ?c = chunk_offset i" using g1 Some by auto
    then have ck: "length (sb_slots ?c) = CURL_UINT_SPBSET_CH_SLOTS" by (simp add: spb_inv_def chunk_inv_def)
    have r: "Curl_uint_spbset_remove b i = b1[k := ?c\<lparr>sb_slots := ?s\<rparr>]" using g Some by (simp add: Curl_uint_spbset_remove_def Let_def)
    have len: "?j div 64 < length (sb_slots ?c)" using place_in_chunk [of i "sb_offset ?c"] k(4) ck by simp
    have s: "length ?s = CURL_UINT_SPBSET_CH_SLOTS" using ck by simp
    show ?thesis
      unfolding r using replace_chunk(1) [OF k(1,3) s] update_elems(2) [OF k(1,3) s k(4) slot_bits_set(2) [OF len]] k(2) by simp
  qed
qed

lemma spb_contains_ok:
  assumes "spb_inv b" and "i < 2 ^ 32"
  shows "Curl_uint_spbset_contains b i \<longleftrightarrow> i \<in> spb_elems b"
proof -
  obtain opt b1 where g: "uint_spbset_get_chunk False b i False = (opt, b1)" by fastforce
  note g1 = get_chunk_ok [OF assms g]
  show ?thesis
  proof (cases opt)
    case None
    then show ?thesis using assms g g1 no_elem [OF assms(1), of i] by (simp add: Curl_uint_spbset_contains_def)
  next
    case (Some k)
    let ?c = "b1 ! k"
    have k: "spb_inv b1" "spb_elems b1 = spb_elems b" "k < length b1" "sb_offset ?c = chunk_offset i" using g1 Some by auto
    then have "length (sb_slots ?c) = CURL_UINT_SPBSET_CH_SLOTS" by (simp add: spb_inv_def chunk_inv_def)
    then have len: "(i - sb_offset ?c) div 64 < length (sb_slots ?c)" using place_in_chunk [of i "sb_offset ?c"] k(4) by simp
    then show ?thesis
      using slot_bits_test [OF len] elem_in_chunk [OF k(1) nth_mem [OF k(3)], of i] k(2,4) g Some by (simp add: Curl_uint_spbset_contains_def Let_def)
  qed
qed

text \<open>The first member from a number on, chunk by chunk.\<close>

lemma is_next_shift:
  assumes "is_next S k r"
  shows "is_next ((+) off ` S) (off + k) (map_option ((+) off) r)"
  using assms by (cases r) (auto simp: is_next_def)

lemma is_next_Un:
  assumes "is_next S k r" and "is_next T k r'" and "\<forall>s\<in>S. \<forall>t\<in>T. s < t"
  shows "is_next (S \<union> T) k (case r of Some m \<Rightarrow> Some m | None \<Rightarrow> r')"
  using assms by (cases r; cases r') (force simp: is_next_def)+

lemma is_next_below:
  assumes "is_next T k r" and "\<forall>s\<in>S. s < k"
  shows "is_next (S \<union> T) k r"
  using assms by (cases r) (force simp: is_next_def)+

lemma is_next_from:
  assumes "is_next S 0 r" and "\<forall>s\<in>S. k \<le> s"
  shows "is_next S k r"
  using assms by (cases r) (force simp: is_next_def)+

lemma chunk_first_ok: "is_next (chunk_elems c) 0 (uint_spbset_chunk_first c)"
proof -
  have "is_next (chunk_elems c) (sb_offset c) (uint_spbset_chunk_first c)"
    using is_next_shift [OF slot_from_next [of "sb_slots c" 0], of "sb_offset c"]
    by (simp add: chunk_elems_def uint_spbset_chunk_first_def option.map_comp comp_def)
  then show ?thesis by (cases "uint_spbset_chunk_first c") (force simp: is_next_def chunk_elems_def)+
qed

lemma chunk_before:
  assumes "chunk_inv c" and "\<forall>d\<in>set cs. chunk_inv d \<and> sb_offset c < sb_offset d"
  shows "\<forall>s\<in>chunk_elems c. \<forall>t\<in>spb_elems cs. s < t"
proof (intro ballI)
  fix s t
  assume "s \<in> chunk_elems c" and "t \<in> spb_elems cs"
  then obtain d where d: "d \<in> set cs" "t \<in> chunk_elems d" by (auto simp: spb_elems_def)
  have c: "chunk_offset s = sb_offset c" using chunk_range [OF assms(1) \<open>s \<in> chunk_elems c\<close>] by simp
  have t: "chunk_offset t = sb_offset d" using chunk_range [of d t] assms(2) d by simp
  show "s < t"
  proof (rule ccontr)
    assume "\<not> s < t"
    then have "t div 256 \<le> s div 256" by (simp add: div_le_mono)
    moreover have off: "chunk_offset j = 256 * (j div 256)" for j by (simp add: chunk_offset_def minus_mod_eq_mult_div)
    ultimately have "chunk_offset t \<le> chunk_offset s" unfolding off by simp
    then show False using c t assms(2) d(1) by force
  qed
qed

lemma first_in_chunks_ok:
  "sorted_wrt (\<lambda>a b. sb_offset a < sb_offset b) cs \<Longrightarrow> \<forall>c\<in>set cs. chunk_inv c \<Longrightarrow> is_next (spb_elems cs) 0 (first_in_chunks cs)"
proof (induction cs)
  case Nil
  then show ?case by (simp add: is_next_def spb_elems_def)
next
  case (Cons c cs)
  then show ?case
    unfolding spb_elems_Cons first_in_chunks.simps
    by (intro is_next_Un chunk_first_ok chunk_before) auto
qed

lemma chunk_next_ok:
  assumes "chunk_inv c" and "sb_offset c = chunk_offset k"
  shows "is_next (chunk_elems c) k (uint_spbset_chunk_next c k)"
proof -
  let ?j = "k - sb_offset c"
  have le: "sb_offset c \<le> k" using chunk_offset_le [of k] assms(2) by simp
  have len: "?j div 64 < length (sb_slots c)" "?j div 64 < CURL_UINT_SPBSET_CH_SLOTS"
    using place_in_chunk [of k "sb_offset c"] assms by (simp_all add: chunk_inv_def)
  have off: "sb_offset c = 64 * (4 * (k div 256))" using assms(2) by (simp add: chunk_offset_def minus_mod_eq_mult_div)
  have k: "k = 64 * (4 * (k div 256)) + ?j" using le off by linarith
  have "(64 * (4 * (k div 256)) + ?j) mod 64 = ?j mod 64" by (rule mod_mult_self4)
  then have m: "k mod 64 = ?j mod 64" using k by simp
  have "is_next (chunk_elems c) (sb_offset c + ?j) (uint_spbset_chunk_next c k)"
    using is_next_shift [OF slot_within_next [OF len(1)], of "sb_offset c"] len(2) le
    by (simp add: chunk_elems_def uint_spbset_chunk_next_def Let_def m option.map_comp comp_def if_distrib [of "map_option ((+) (sb_offset c))"] del: One_nat_def cong: if_cong)
  then show ?thesis using le by simp
qed

lemma later: "chunk_offset k < chunk_offset s \<Longrightarrow> k \<le> s"
  using div_le_mono [of s k 256] unfolding chunk_offset_def minus_mod_eq_mult_div by linarith

lemma chunks_above:
  assumes "sorted_wrt (\<lambda>a b. sb_offset a < sb_offset b) cs" and "\<forall>c\<in>set cs. chunk_inv c \<and> chunk_offset k < sb_offset c"
  shows "is_next (spb_elems cs) k (first_in_chunks cs)"
proof (rule is_next_from)
  show "is_next (spb_elems cs) 0 (first_in_chunks cs)" using first_in_chunks_ok [OF assms(1)] assms(2) by blast
  show "\<forall>s\<in>spb_elems cs. k \<le> s"
  proof
    fix s
    assume "s \<in> spb_elems cs"
    then obtain c where "c \<in> set cs" "s \<in> chunk_elems c" by (auto simp: spb_elems_def)
    then show "k \<le> s" using chunk_range [of c s] assms(2) by (intro later) force
  qed
qed

lemma chunks_below:
  assumes "\<forall>c\<in>set cs. chunk_inv c \<and> sb_offset c < chunk_offset k" and "s \<in> spb_elems cs"
  shows "s < k"
proof -
  obtain c where "c \<in> set cs" "s \<in> chunk_elems c" using assms(2) by (auto simp: spb_elems_def)
  then have "chunk_offset s < chunk_offset k" using chunk_range [of c s] assms(1) by force
  moreover have "chunk_offset k \<le> chunk_offset s" if "k \<le> s"
    using div_le_mono [OF that, of 256] by (simp add: chunk_offset_def minus_mod_eq_mult_div)
  ultimately show ?thesis by force
qed

lemma spb_next_from:
  assumes "spb_inv b" and "i < UINT_MAX"
  shows "is_next (spb_elems b) (i + 1) (Curl_uint_spbset_next b i)"
proof -
  let ?k = "i + 1" let ?off = "chunk_offset ?k"
  let ?A = "takeWhile (\<lambda>c. sb_offset c < ?off) b" and ?B = "dropWhile (\<lambda>c. sb_offset c < ?off) b"
  have k: "(i + 1) mod 2 ^ 32 = ?k" using assms(2) by (simp add: UINT_MAX_def)
  have inv: "\<forall>c\<in>set (?A @ ?B). chunk_inv c" "sorted_wrt (\<lambda>a b. sb_offset a < sb_offset b) (?A @ ?B)"
    using assms(1) by (simp_all add: spb_inv_def)
  have split: "spb_elems b = spb_elems ?A \<union> spb_elems ?B" using spb_elems_append [of ?A ?B] by simp
  have "\<forall>c\<in>set ?A. chunk_inv c \<and> sb_offset c < ?off" using inv(1) by (auto dest: set_takeWhileD)
  then have A: "\<forall>s\<in>spb_elems ?A. s < ?k" using chunks_below by blast
  have B: "is_next (spb_elems ?B) ?k (Curl_uint_spbset_next b i)"
  proof (cases ?B)
    case Nil
    then show ?thesis unfolding Nil Curl_uint_spbset_next_def k Let_def by (simp add: is_next_def spb_elems_def)
  next
    case (Cons c cs)
    have c: "chunk_inv c" "\<forall>d\<in>set cs. chunk_inv d \<and> sb_offset c < sb_offset d" "sorted_wrt (\<lambda>a b. sb_offset a < sb_offset b) cs"
      using inv unfolding Cons by (auto simp: sorted_wrt_append)
    have ge: "?off \<le> sb_offset c" using Cons hd_dropWhile [of "\<lambda>c. sb_offset c < ?off" b] by simp
    show ?thesis
    proof (cases "sb_offset c = ?off")
      case True
      have "is_next (spb_elems cs) ?k (first_in_chunks cs)" using c True by (intro chunks_above) auto
      then have "is_next (spb_elems ?B) ?k (case uint_spbset_chunk_next c ?k of Some m \<Rightarrow> Some m | None \<Rightarrow> first_in_chunks cs)"
        unfolding Cons spb_elems_Cons by (rule is_next_Un [OF chunk_next_ok [OF c(1) True] _ chunk_before [OF c(1,2)]])
      then show ?thesis unfolding Curl_uint_spbset_next_def k Let_def using Cons True by simp
    next
      case False
      then have "is_next (spb_elems (c # cs)) ?k (first_in_chunks (c # cs))" using c ge by (intro chunks_above) force+
      then show ?thesis unfolding Curl_uint_spbset_next_def k Let_def using Cons False by simp
    qed
  qed
  show ?thesis unfolding split by (rule is_next_below [OF B A])
qed

lemma spb_bounded: "spb_inv b \<Longrightarrow> spb_elems b \<subseteq> {..<2 ^ 32}"
proof
  fix j
  assume "spb_inv b" and "j \<in> spb_elems b"
  then obtain c where c: "chunk_inv c" "j \<in> chunk_elems c" by (auto simp: spb_elems_def spb_inv_def)
  then have "sb_offset c div 256 < 2 ^ 32 div 256" "sb_offset c = 256 * (sb_offset c div 256)"
    by (auto simp: chunk_inv_def div_less_iff_less_mult)
  moreover have "j < sb_offset c + 256" using chunk_range [OF c] by simp
  ultimately show "j \<in> {..<2 ^ 32}" by simp
qed

interpretation spb: uint_set spb_elems "Curl_uint_spbset_add ok" Curl_uint_spbset_remove Curl_uint_spbset_contains
  "\<lambda>b. (Curl_uint_spbset_first b, b)" Curl_uint_spbset_next spb_inv
  for ok
proof
  fix b :: uint_spbset
  assume inv: "spb_inv b"
  show "i < 2 ^ 32 \<Longrightarrow> Curl_uint_spbset_add ok b i = (r, b') \<Longrightarrow>
      spb_inv b' \<and> spb_elems b' = (if r then insert i (spb_elems b) else spb_elems b)" for i r b'
    using spb_add_ok [OF inv] by blast
  show "i < 2 ^ 32 \<Longrightarrow> spb_inv (Curl_uint_spbset_remove b i) \<and> spb_elems (Curl_uint_spbset_remove b i) = spb_elems b - {i}" for i
    by (rule spb_remove_ok [OF inv])
  show "i < 2 ^ 32 \<Longrightarrow> Curl_uint_spbset_contains b i \<longleftrightarrow> i \<in> spb_elems b" for i by (rule spb_contains_ok [OF inv])
  show "(Curl_uint_spbset_first b, b) = (r, b') \<Longrightarrow> spb_inv b' \<and> spb_elems b' = spb_elems b \<and> is_next (spb_elems b) 0 r" for r b'
    using inv first_in_chunks_ok [of b] by (auto simp: Curl_uint_spbset_first_def spb_inv_def)
  show "i < UINT_MAX \<Longrightarrow> is_next (spb_elems b) (i + 1) (Curl_uint_spbset_next b i)" for i by (rule spb_next_from [OF inv])
  show "spb_elems b \<subseteq> {..<2 ^ 32}" by (rule spb_bounded [OF inv])
qed

lemma spb_init_ok: "spb_inv Curl_uint_spbset_init" "spb_elems Curl_uint_spbset_init = {}"
  using zero_chunk_elems [of 0]
  by (simp_all add: spb_inv_def chunk_inv_def Curl_uint_spbset_init_def zero_chunk_def spb_elems_def)

lemma card_chunks:
  "sorted_wrt (\<lambda>a b. sb_offset a < sb_offset b) cs \<Longrightarrow> \<forall>c\<in>set cs. chunk_inv c \<Longrightarrow>
   finite (spb_elems cs) \<and> card (spb_elems cs) = sum_list (map (\<lambda>c. card (slot_bits (sb_slots c))) cs)"
proof (induction cs)
  case Nil
  then show ?case by (simp add: spb_elems_def)
next
  case (Cons c cs)
  have fin: "finite (slot_bits (sb_slots c))" by (rule finite_subset [of _ "{..<64 * length (sb_slots c)}"]) (auto dest: slot_bits_bound)
  have "chunk_elems c \<inter> spb_elems cs = {}" using chunk_before [of c cs] Cons.prems by force
  moreover have "card (chunk_elems c) = card (slot_bits (sb_slots c))" unfolding chunk_elems_def by (rule card_image) (simp add: inj_on_def)
  ultimately show ?case using Cons fin unfolding spb_elems_Cons by (simp add: card_Un_disjoint chunk_elems_def)
qed

lemma spb_count_ok: "spb_inv b \<Longrightarrow> Curl_uint_spbset_count b = card (spb_elems b) mod 2 ^ 32"
  using card_chunks [of b] by (simp add: Curl_uint_spbset_count_def count_slots spb_inv_def)

lemma spb_empty_ok: "spb_inv b \<Longrightarrow> Curl_uint_spbset_empty b \<longleftrightarrow> spb_elems b = {}"
proof -
  assume "spb_inv b"
  have z: "list_all (\<lambda>x. x = 0) slots \<longleftrightarrow> slot_bits slots = {}" for slots :: "u64 list"
  proof
    show "list_all (\<lambda>x. x = 0) slots \<Longrightarrow> slot_bits slots = {}" by (auto simp: slot_bits_def list_all_length)
    show "slot_bits slots = {} \<Longrightarrow> list_all (\<lambda>x. x = 0) slots" using slot_member [of _ slots] by (fastforce simp: list_all_length)
  qed
  show ?thesis unfolding Curl_uint_spbset_empty_def z by (auto simp: spb_elems_def chunk_elems_def list_all_iff)
qed

subsection \<open>Both sets under the same operations\<close>

lemma bset_resized_init:
  assumes "Curl_uint_bset_resize True Curl_uint_bset_init nmax = (r, b)"
  shows "bset_inv b" and "bset_elems b = {}" and "min nmax (2 ^ 32 - 64) \<le> Curl_uint_bset_capacity b"
proof -
  have i: "bset_inv Curl_uint_bset_init" by (simp add: bset_inv_def Curl_uint_bset_init_def)
  have "r = CURLE_OK" using assms by (auto simp: Curl_uint_bset_resize_def Let_def split: if_splits)
  then show "bset_inv b" "bset_elems b = {}" "min nmax (2 ^ 32 - 64) \<le> Curl_uint_bset_capacity b"
    using bset_resize_ok [OF i assms] by (auto simp: Curl_uint_bset_init_def slot_bits_def)
qed

lemma bset_run:
  assumes "bset_inv b" and "\<forall>oper\<in>set ops. op_number oper < 2 ^ 32 \<and> op_number oper < Curl_uint_bset_capacity b"
  shows "bset_inv (set_run Curl_uint_bset_add Curl_uint_bset_remove b ops) \<and>
    bset_elems (set_run Curl_uint_bset_add Curl_uint_bset_remove b ops) = members_after (bset_elems b) ops"
proof (rule bset.run_ok [where room = "\<lambda>b i. i < Curl_uint_bset_capacity b", OF _ _ _ assms])
  fix b i
  assume "bset_inv b" "i < Curl_uint_bset_capacity b"
  then show "fst (Curl_uint_bset_add b i)" using bset_add_ok [of b i] by (metis prod.exhaust_sel)
qed (simp_all add: Curl_uint_bset_add_def Curl_uint_bset_remove_def Curl_uint_bset_capacity_def Let_def)

lemma spb_run:
  assumes "spb_inv b" and "\<forall>oper\<in>set ops. op_number oper < 2 ^ 32"
  shows "spb_inv (set_run (Curl_uint_spbset_add True) Curl_uint_spbset_remove b ops) \<and>
    spb_elems (set_run (Curl_uint_spbset_add True) Curl_uint_spbset_remove b ops) = members_after (spb_elems b) ops"
proof (rule spb.run_ok [where room = "\<lambda>_ _. True" and ok = True])
  fix b i
  assume "spb_inv b" "i < (2 :: nat) ^ 32"
  then show "fst (Curl_uint_spbset_add True b i)" using spb_add_ok [of b i True] by (metis prod.exhaust_sel)
qed (use assms in simp_all)

text \<open>
  C25: after any sequence of additions and removals of numbers below the size asked for, an array set and a
  sparse set of curl hold the same members: the same answers to contains, the same counts, and a loop with first
  and next over either of them visits the members of the set of numbers that the sequence leaves, each once and
  in ascending order, and then ends.
\<close>

theorem uint_sets_agree:
  assumes "Curl_uint_bset_resize True Curl_uint_bset_init nmax = (r, b0)"
    and "\<forall>oper\<in>set ops. op_number oper < min nmax (2 ^ 32 - 64)"
    and "set_run Curl_uint_bset_add Curl_uint_bset_remove b0 ops = b"
    and "set_run (Curl_uint_spbset_add True) Curl_uint_spbset_remove Curl_uint_spbset_init ops = s"
    and "Curl_uint_bset_first b = (m, b')" and "length ops \<le> k"
  shows "walk (Curl_uint_bset_next b') k m = sorted_list_of_set (members_after {} ops) \<and>
    walk (Curl_uint_spbset_next s) k (Curl_uint_spbset_first s) = sorted_list_of_set (members_after {} ops) \<and>
    (i < 2 ^ 32 \<longrightarrow> Curl_uint_bset_contains b i = Curl_uint_spbset_contains s i) \<and>
    Curl_uint_bset_count b = card (members_after {} ops) \<and> Curl_uint_spbset_count s = Curl_uint_bset_count b \<and>
    Curl_uint_bset_empty b = Curl_uint_spbset_empty s"
proof -
  let ?M = "members_after {} ops"
  note b0 = bset_resized_init [OF assms(1)]
  have "\<forall>oper\<in>set ops. op_number oper < 2 ^ 32 \<and> op_number oper < Curl_uint_bset_capacity b0"
    using assms(2) b0(3) by fastforce
  from bset_run [OF b0(1) this] have b: "bset_inv b" "bset_elems b = ?M" using assms(3) b0(2) by simp_all
  have "\<forall>oper\<in>set ops. op_number oper < 2 ^ 32" using assms(2) by fastforce
  from spb_run [OF spb_init_ok(1) this] have s: "spb_inv s" "spb_elems s = ?M" using assms(4) spb_init_ok(2) by simp_all
  have bound: "?M \<subseteq> {..<2 ^ 32 - 64}" using members_after_bound [of "{}" ops] assms(2) by fastforce
  then have max: "UINT_MAX \<notin> ?M" by (auto simp: UINT_MAX_def)
  have card: "card ?M \<le> k" using members_after_card [of "{}" ops] assms(6) by simp
  have "card ?M \<le> 2 ^ 32 - 64" using card_mono [OF _ bound] by simp
  then have "card ?M < 2 ^ 32" by simp
  then show ?thesis
    using bset.walk_all [OF b(1) _ assms(5)] spb.walk_all [OF s(1) _ refl] b s max card
      bset.contains_law [OF b(1)] spb.contains_law [OF s(1)] bset_count_ok [of b] spb_count_ok [OF s(1)]
      bset_empty_ok [OF b(1)] spb_empty_ok [OF s(1)]
    by simp
qed

theorem uint_sets_agree_witness:
  "walk (Curl_uint_spbset_next (set_run (Curl_uint_spbset_add True) Curl_uint_spbset_remove Curl_uint_spbset_init
      [Set_add 300, Set_add 5, Set_add 7, Set_remove 5])) 4
     (Curl_uint_spbset_first (set_run (Curl_uint_spbset_add True) Curl_uint_spbset_remove Curl_uint_spbset_init
      [Set_add 300, Set_add 5, Set_add 7, Set_remove 5])) = [7, 300]"
proof -
  let ?ops = "[Set_add 300, Set_add 5, Set_add 7, Set_remove 5]"
  obtain r b0 where b0: "Curl_uint_bset_resize True Curl_uint_bset_init 1000 = (r, b0)" by fastforce
  obtain m b' where f: "Curl_uint_bset_first (set_run Curl_uint_bset_add Curl_uint_bset_remove b0 ?ops) = (m, b')" by fastforce
  have "\<forall>oper\<in>set ?ops. op_number oper < min 1000 (2 ^ 32 - 64)" by simp
  note uint_sets_agree [OF b0 this refl refl f, of 4]
  moreover have "members_after {} ?ops = {7, 300}" by auto
  ultimately show ?thesis by simp
qed

text \<open>
  A sparse set that holds the largest number of the type is another matter: the number after it wraps to 0, the
  loop starts over, and never ends.
\<close>

lemma spb_next_wraps:
  assumes "spb_inv s"
  shows "is_next (spb_elems s) 0 (Curl_uint_spbset_next s UINT_MAX)"
proof -
  have hd: "s = hd s # tl s" "sb_offset (hd s) = 0" "chunk_inv (hd s)" "\<forall>d\<in>set (tl s). chunk_inv d \<and> sb_offset (hd s) < sb_offset d"
    "sorted_wrt (\<lambda>a b. sb_offset a < sb_offset b) (tl s)"
    using assms by (cases s; simp add: spb_inv_def)+
  have k: "(UINT_MAX + 1) mod 2 ^ 32 = 0" by (simp add: UINT_MAX_def)
  have off: "sb_offset (hd s) = chunk_offset 0" using hd(2) by (simp add: chunk_offset_def)
  have n: "Curl_uint_spbset_next s UINT_MAX =
      (case uint_spbset_chunk_next (hd s) 0 of Some m \<Rightarrow> Some m | None \<Rightarrow> first_in_chunks (tl s))"
    unfolding Curl_uint_spbset_next_def k Let_def by (subst hd(1)) (simp add: hd(2) chunk_offset_def)
  have "is_next (spb_elems (hd s # tl s)) 0 (Curl_uint_spbset_next s UINT_MAX)"
    unfolding spb_elems_Cons n
    by (rule is_next_Un [OF chunk_next_ok [OF hd(3) off] first_in_chunks_ok [OF hd(5)] chunk_before [OF hd(3,4)]]) (use hd(4) in blast)
  then show ?thesis using hd(1) by simp
qed

lemma spb_loop_forever:
  assumes "spb_inv s" and "UINT_MAX \<in> spb_elems s"
  shows "length (walk (Curl_uint_spbset_next s) k (Curl_uint_spbset_first s)) = k"
proof -
  have run: "is_next (spb_elems s) c r \<Longrightarrow> c \<le> UINT_MAX \<Longrightarrow> length (walk (Curl_uint_spbset_next s) k r) = k" for c r
  proof (induction k arbitrary: c r)
    case (Suc k)
    then obtain m where m: "r = Some m" "m \<in> spb_elems s" using assms(2) by (cases r) (auto simp: is_next_def)
    have "\<exists>c'\<le>UINT_MAX. is_next (spb_elems s) c' (Curl_uint_spbset_next s m)"
    proof (cases "m < UINT_MAX")
      case True
      then show ?thesis using spb_next_from [OF assms(1) True] by (intro exI [of _ "m + 1"]) simp
    next
      case False
      then have "m = UINT_MAX" using m(2) spb_bounded [OF assms(1)] by (auto simp: UINT_MAX_def)
      then show ?thesis using spb_next_wraps [OF assms(1)] by blast
    qed
    then show ?case using Suc.IH m(1) by auto
  qed simp
  have "is_next (spb_elems s) 0 (Curl_uint_spbset_first s)"
    using first_in_chunks_ok [of s] assms(1) by (auto simp: Curl_uint_spbset_first_def spb_inv_def)
  then show ?thesis by (rule run) simp
qed

end
